(* ===== verification/Prelude.thy ===== *)
theory Prelude
  imports Main "HOL-Library.Word" "HOL-Library.Char_ord" "HOL-Library.List_Lexorder"
    "HOL-Library.Sublist"
begin

text \<open>
  What every component shares: bytes and NUL-terminated text as the C code reads it, the
  character classes of the C locale, \<open>strtol\<close>, the status codes of include/hibr.h, and
  generic facts on lists. A C string is the list of its bytes without the terminating NUL; a
  pointer into it is the suffix it points at, and reading at or past the end gives NUL.
\<close>

unbundle bit_operations_syntax

named_theorems byte_simps \<open>unfolding the character classes and the byte casts\<close>
named_theorems cursor_simps \<open>reading at a cursor into NUL-terminated text\<close>

subsection \<open>Bytes and cursors\<close>

abbreviation byte :: "char \<Rightarrow> nat" where
  "byte c \<equiv> of_char c"

text \<open>The cast \<open>(char)n\<close>: the low eight bits.\<close>

abbreviation chr :: "nat \<Rightarrow> char" where
  "chr n \<equiv> char_of n"

abbreviation NUL :: char where
  "NUL \<equiv> CHR 0x00"

text \<open>\<open>p[i]\<close> of NUL-terminated text.\<close>

definition at :: "string \<Rightarrow> nat \<Rightarrow> char" where
  "at p i = (if i < length p then p ! i else NUL)"

lemma at_Nil [simp, cursor_simps]: "at [] i = NUL"
  by (simp add: at_def)

lemma at_0 [simp, cursor_simps]: "at (c # p) 0 = c"
  by (simp add: at_def)

lemma at_Suc [simp, cursor_simps]: "at (c # p) (Suc i) = at p i"
  by (simp add: at_def)

lemma at_numeral [simp, cursor_simps]: "at (c # p) (numeral n) = at p (numeral n - 1)"
  by (simp add: at_def nth_Cons')

lemma at_append_less: "i < length p \<Longrightarrow> at (p @ q) i = at p i"
  by (simp add: at_def nth_append)

lemma at_drop: "at (drop k p) i = at p (k + i)"
  by (auto simp: at_def)

text \<open>A string the C code can hold: no NUL inside.\<close>

definition cstr :: "string \<Rightarrow> bool" where
  "cstr s \<longleftrightarrow> NUL \<notin> set s"

lemma cstr_simps [simp]:
  "cstr []" "cstr (c # s) \<longleftrightarrow> c \<noteq> NUL \<and> cstr s" "cstr (s @ t) \<longleftrightarrow> cstr s \<and> cstr t"
  by (auto simp: cstr_def)

lemma cstr_take [simp]: "cstr s \<Longrightarrow> cstr (take n s)"
  by (auto simp: cstr_def dest: in_set_takeD)

lemma cstr_drop [simp]: "cstr s \<Longrightarrow> cstr (drop n s)"
  by (auto simp: cstr_def dest: in_set_dropD)

lemma byte_less_256 [simp]: "byte c < 256"
  by (rule nat_of_char_less_256)

lemma byte_eq_iff: "byte c = byte d \<longleftrightarrow> c = d"
  by (rule of_char_eq_iff)

lemma byte_chr [simp]: "n < 256 \<Longrightarrow> byte (chr n) = n"
  by (simp add: of_char_of)

lemma chr_byte: "chr (byte c) = c"
  by (rule char_of_char)

lemma chr_inj: "m < 256 \<Longrightarrow> n < 256 \<Longrightarrow> chr m = chr n \<longleftrightarrow> m = n"
  by (metis byte_chr)

subsection \<open>Character classes of the C locale\<close>

definition isdigit :: "char \<Rightarrow> bool" where
  [byte_simps]: "isdigit c \<longleftrightarrow> 48 \<le> byte c \<and> byte c \<le> 57"

definition islower :: "char \<Rightarrow> bool" where
  [byte_simps]: "islower c \<longleftrightarrow> 97 \<le> byte c \<and> byte c \<le> 122"

definition isupper :: "char \<Rightarrow> bool" where
  [byte_simps]: "isupper c \<longleftrightarrow> 65 \<le> byte c \<and> byte c \<le> 90"

definition isalpha :: "char \<Rightarrow> bool" where
  [byte_simps]: "isalpha c \<longleftrightarrow> islower c \<or> isupper c"

definition isalnum :: "char \<Rightarrow> bool" where
  [byte_simps]: "isalnum c \<longleftrightarrow> isalpha c \<or> isdigit c"

definition isxdigit :: "char \<Rightarrow> bool" where
  [byte_simps]: "isxdigit c \<longleftrightarrow> isdigit c \<or> 97 \<le> byte c \<and> byte c \<le> 102 \<or> 65 \<le> byte c \<and> byte c \<le> 70"

definition isspace :: "char \<Rightarrow> bool" where
  [byte_simps]: "isspace c \<longleftrightarrow> byte c = 32 \<or> 9 \<le> byte c \<and> byte c \<le> 13"

definition toupper :: "nat \<Rightarrow> nat" where
  [byte_simps]: "toupper n = (if 97 \<le> n \<and> n \<le> 122 then n - 32 else n)"

definition tolower :: "nat \<Rightarrow> nat" where
  [byte_simps]: "tolower n = (if 65 \<le> n \<and> n \<le> 90 then n + 32 else n)"

lemma class_NUL [simp]:
  "\<not> isdigit NUL" "\<not> isalpha NUL" "\<not> isalnum NUL" "\<not> isxdigit NUL" "\<not> isspace NUL"
  by (simp_all add: byte_simps)

subsection \<open>strtol and atol\<close>

definition LONG_MAX :: int where
  "LONG_MAX = 2 ^ 63 - 1"

definition LONG_MIN :: int where
  "LONG_MIN = - (2 ^ 63)"

definition clamp_long :: "int \<Rightarrow> int" where
  "clamp_long v = (if v > LONG_MAX then LONG_MAX else if v < LONG_MIN then LONG_MIN else v)"

definition digval :: "char \<Rightarrow> nat" where
  "digval c = (if isdigit c then byte c - 48 else if islower c then byte c - 87
               else if isupper c then byte c - 55 else 99)"

text \<open>The digits of a base, most significant first, onto an accumulator.\<close>

fun digs :: "nat \<Rightarrow> nat \<Rightarrow> string \<Rightarrow> nat \<times> string" where
  "digs b acc [] = (acc, [])"
| "digs b acc (c # cs) = (if digval c < b then digs b (acc * b + digval c) cs else (acc, c # cs))"

text \<open>
  \<open>strtol(s, &e, base)\<close>: the value before clamping and the text left; a text with no digits
  is 0 and left whole. Base 0 takes the 0x and 0 prefixes.
\<close>

definition strtol_raw :: "nat \<Rightarrow> string \<Rightarrow> int \<times> string" where
  "strtol_raw base s =
    (let s1 = dropWhile isspace s;
         neg = (at s1 0 = CHR ''-'');
         s2 = (if at s1 0 = CHR ''-'' \<or> at s1 0 = CHR ''+'' then tl s1 else s1);
         hex = (at s2 0 = CHR ''0'' \<and> (at s2 1 = CHR ''x'' \<or> at s2 1 = CHR ''X'') \<and> isxdigit (at s2 2));
         b = (if base = 0 then (if hex then 16 else if at s2 0 = CHR ''0'' then 8 else 10) else base);
         s3 = (if b = 16 \<and> hex then drop 2 s2 else s2);
         (n, r) = digs b 0 s3
     in if digval (at s3 0) < b then ((if neg then - int n else int n), r) else (0, s))"

definition strtol :: "nat \<Rightarrow> string \<Rightarrow> int \<times> string" where
  "strtol base s = (let (v, r) = strtol_raw base s in (clamp_long v, r))"

definition atol :: "string \<Rightarrow> int" where
  "atol s = fst (strtol 10 s)"

lemma digval_NUL [simp]: "digval NUL = 99"
  by (simp add: digval_def byte_simps)

lemma digs_length: "length (snd (digs b acc s)) \<le> length s"
  by (induction s arbitrary: acc) (auto simp: le_SucI)

lemma digs_stop: "s = [] \<or> \<not> digval (hd s) < b \<Longrightarrow> digs b acc s = (acc, s)"
  by (cases s) auto

subsection \<open>Status codes\<close>

abbreviation (input) HIBR_OK :: int where "HIBR_OK \<equiv> 0"
abbreviation (input) HIBR_FAIL :: int where "HIBR_FAIL \<equiv> 1"

subsection \<open>Doubling a capacity\<close>

text \<open>
  \<open>while (c < n) c <<= 1;\<close> as the arena blocks, the strings and the hash tables size
  themselves. Every caller starts above zero; the guard \<open>0 < c\<close> stands for that.
\<close>

function dbl :: "nat \<Rightarrow> nat \<Rightarrow> nat" where
  "dbl c n = (if 0 < c \<and> c < n then dbl (2 * c) n else c)"
  by pat_completeness auto
termination
  by (relation "measure (\<lambda>(c, n). n - c)") auto

declare dbl.simps [simp del]

lemma dbl_ge: "0 < c \<Longrightarrow> n \<le> dbl c n"
  by (induction c n rule: dbl.induct) (subst dbl.simps, simp)

lemma dbl_ge_start: "c \<le> dbl c n"
proof (induction c n rule: dbl.induct)
  case (1 c n)
  then show ?case by (cases "0 < c \<and> c < n") (auto simp: dbl.simps [of c n])
qed

lemma dbl_less: "0 < c \<Longrightarrow> c < n \<Longrightarrow> dbl c n < 2 * n"
proof (induction c n rule: dbl.induct)
  case (1 c n)
  then show ?case by (cases "2 * c < n") (auto simp: dbl.simps [of c n] dbl.simps [of "2 * c" n])
qed

lemma dbl_pow2: "\<exists>j. dbl c n = c * 2 ^ j"
proof (induction c n rule: dbl.induct)
  case (1 c n)
  show ?case
  proof (cases "0 < c \<and> c < n")
    case True
    with 1 obtain j where "dbl (2 * c) n = 2 * c * 2 ^ j" by auto
    with True show ?thesis by (auto simp: dbl.simps [of c n] intro!: exI [of _ "Suc j"])
  next
    case False
    then show ?thesis by (auto simp: dbl.simps [of c n] intro!: exI [of _ 0])
  qed
qed

subsection \<open>Searching text\<close>

text \<open>\<open>strchr\<close> and \<open>strstr\<close>: the offset of the first occurrence.\<close>

fun strchr :: "string \<Rightarrow> char \<Rightarrow> nat option" where
  "strchr [] c = None"
| "strchr (x # s) c = (if x = c then Some 0 else map_option Suc (strchr s c))"

fun strstr :: "string \<Rightarrow> string \<Rightarrow> nat option" where
  "strstr [] p = (if p = [] then Some 0 else None)"
| "strstr (x # s) p = (if prefix p (x # s) then Some 0 else map_option Suc (strstr s p))"

lemma strchr_None: "strchr s c = None \<longleftrightarrow> c \<notin> set s"
  by (induction s) auto

lemma strchr_Some: "strchr s c = Some i \<Longrightarrow> i < length s \<and> s ! i = c \<and> c \<notin> set (take i s)"
  by (induction s arbitrary: i) (auto split: if_splits)

lemma strchr_append: "c \<notin> set s \<Longrightarrow> strchr (s @ c # t) c = Some (length s)"
  by (induction s) auto

lemma strstr_Some: "strstr s p = Some i \<Longrightarrow> i \<le> length s \<and> prefix p (drop i s)"
  by (induction s arbitrary: i) (auto split: if_splits)

subsection \<open>Generic facts\<close>

lemma and_pow2_minus1: "(x::nat) AND (2 ^ n - 1) = x mod 2 ^ n"
  by (metis mask_eq_exp_minus_1 take_bit_eq_mask take_bit_eq_mod)

lemma push_bit_or: "y < 2 ^ n \<Longrightarrow> push_bit n (x::nat) OR y = x * 2 ^ n + y"
proof (induction n arbitrary: y)
  case 0
  then show ?case by simp
next
  case (Suc n)
  then have "push_bit n x OR y div 2 = x * 2 ^ n + y div 2" by simp
  moreover have "push_bit (Suc n) x div 2 = push_bit n x" by (simp add: push_bit_eq_mult)
  ultimately have "push_bit (Suc n) x OR y = of_bool (odd y) + 2 * (x * 2 ^ n + y div 2)"
    by (subst or_nat_rec) (simp add: push_bit_eq_mult)
  also have "\<dots> = x * 2 ^ Suc n + (2 * (y div 2) + of_bool (odd y))" by (simp add: algebra_simps)
  also have "2 * (y div 2) + of_bool (odd y) = y" by (cases "even y") simp_all
  finally show ?case .
qed

lemma length_filter_key:
  "distinct (map g xs) \<Longrightarrow> k \<in> g ` set xs \<Longrightarrow> length (filter (\<lambda>x. g x \<noteq> k) xs) = length xs - 1"
proof (induction xs)
  case (Cons x xs)
  show ?case
  proof (cases "g x = k")
    case True
    then have "k \<notin> g ` set xs" using Cons.prems(1) by auto
    then have "\<forall>y \<in> set xs. g y \<noteq> k" by (metis image_eqI)
    then show ?thesis using True by (simp add: filter_id_conv)
  next
    case False
    then have "0 < length xs" using Cons.prems(2) by (cases xs) auto
    with Cons False show ?thesis by auto
  qed
qed simp

lemma takeWhile_all: "\<forall>x \<in> set xs. P x \<Longrightarrow> takeWhile P (xs @ ys) = xs @ takeWhile P ys"
  by (induction xs) auto

lemma dropWhile_all: "\<forall>x \<in> set xs. P x \<Longrightarrow> dropWhile P (xs @ ys) = dropWhile P ys"
  by (induction xs) auto

end
