(* ===== verification/Mem.thy ===== *)
theory Mem
  imports Prelude
begin

text \<open>
  src/mem.c: the arena with its free list and marks, the growth of a dynamic string, decimal
  output and the two quotings (JSON and shell single quotes). What a block holds is abstracted
  to its identity, capacity and high-water mark; an allocation is the block and the offset.
\<close>

subsection \<open>Arenas\<close>

record blk =
  bid :: nat
  bcap :: nat
  buse :: nat

record arena =
  ab :: "blk list"
  afr :: "blk list"
  anfr :: nat
  ach :: nat
  anext :: nat

abbreviation (input) ARKEEP :: nat where "ARKEEP \<equiv> 4"
abbreviation (input) ARCH :: nat where "ARCH \<equiv> 4096"

definition ar_new :: "nat \<Rightarrow> arena" where
  "ar_new c = \<lparr>ab = [], afr = [], anfr = 0, ach = (if c \<noteq> 0 then c else ARCH), anext = 0\<rparr>"

text \<open>A fresh block: the free list's first when it is big enough, else one from the heap.\<close>

definition ar_blk :: "arena \<Rightarrow> nat \<Rightarrow> arena" where
  "ar_blk a n =
    (case afr a of
      f # fs \<Rightarrow>
        if bcap f \<ge> n then a\<lparr>ab := f\<lparr>buse := 0\<rparr> # ab a, afr := fs, anfr := anfr a - 1\<rparr>
        else a\<lparr>ab := \<lparr>bid = anext a, bcap = dbl (ach a) n, buse = 0\<rparr> # ab a, anext := Suc (anext a)\<rparr>
    | [] \<Rightarrow> a\<lparr>ab := \<lparr>bid = anext a, bcap = dbl (ach a) n, buse = 0\<rparr> # ab a, anext := Suc (anext a)\<rparr>)"

definition ar_drop :: "arena \<Rightarrow> blk \<Rightarrow> arena" where
  "ar_drop a b =
    (if anfr a < ARKEEP \<and> bcap b \<le> ach a then a\<lparr>afr := b # afr a, anfr := anfr a + 1\<rparr> else a)"

text \<open>\<open>(n + 15) & ~15\<close>.\<close>

definition round16 :: "nat \<Rightarrow> nat" where
  "round16 n = (n + 15) div 16 * 16"

definition ar_raw :: "arena \<Rightarrow> nat \<Rightarrow> arena \<times> (nat \<times> nat)" where
  "ar_raw a n0 =
    (let n = round16 n0;
         a' = (case ab a of b # _ \<Rightarrow> if bcap b - buse b < n then ar_blk a n else a | [] \<Rightarrow> ar_blk a n)
     in case ab a' of
          b # bs \<Rightarrow> (a'\<lparr>ab := b\<lparr>buse := buse b + n\<rparr> # bs\<rparr>, (bid b, buse b))
        | [] \<Rightarrow> (a', (0, 0)))"

definition ar_mark :: "arena \<Rightarrow> nat option \<times> nat" where
  "ar_mark a = (case ab a of b # _ \<Rightarrow> (Some (bid b), buse b) | [] \<Rightarrow> (None, 0))"

text \<open>Drop blocks from the newest until the one with identity \<open>m\<close> (or the end) is met.\<close>

function ar_unwind :: "arena \<Rightarrow> nat option \<Rightarrow> arena" where
  "ar_unwind a m =
    (case ab a of
      b # bs \<Rightarrow> if m \<noteq> Some (bid b) then ar_unwind ((ar_drop a b)\<lparr>ab := bs\<rparr>) m else a
    | [] \<Rightarrow> a)"
  by pat_completeness auto
termination
  by (relation "measure (\<lambda>(a, m). length (ab a))") auto

declare ar_unwind.simps [simp del]

definition ar_rel :: "arena \<Rightarrow> nat option \<times> nat \<Rightarrow> arena" where
  "ar_rel a m =
    (let a' = ar_unwind a (fst m)
     in case ab a' of b # bs \<Rightarrow> a'\<lparr>ab := b\<lparr>buse := snd m\<rparr> # bs\<rparr> | [] \<Rightarrow> a')"

function ar_reset_loop :: "arena \<Rightarrow> arena" where
  "ar_reset_loop a =
    (case ab a of b # c # bs \<Rightarrow> ar_reset_loop ((ar_drop a b)\<lparr>ab := c # bs\<rparr>) | _ \<Rightarrow> a)"
  by pat_completeness auto
termination
  by (relation "measure (\<lambda>a. length (ab a))") auto

declare ar_reset_loop.simps [simp del]

definition ar_reset :: "arena \<Rightarrow> arena" where
  "ar_reset a =
    (let a' = ar_reset_loop a
     in case ab a' of b # bs \<Rightarrow> a'\<lparr>ab := b\<lparr>buse := 0\<rparr> # bs\<rparr> | [] \<Rightarrow> a')"

subsection \<open>Arena invariant\<close>

definition arena_ok :: "arena \<Rightarrow> bool" where
  "arena_ok a \<longleftrightarrow>
    anfr a = length (afr a) \<and> anfr a \<le> ARKEEP \<and> 0 < ach a \<and>
    distinct (map bid (ab a @ afr a)) \<and>
    (\<forall>b \<in> set (ab a @ afr a). bid b < anext a) \<and>
    (\<forall>b \<in> set (ab a). buse b \<le> bcap b) \<and>
    (\<forall>b \<in> set (afr a). bcap b \<le> ach a)"

lemma round16_ge: "n \<le> round16 n"
  unfolding round16_def by presburger

lemma round16_mod: "round16 n mod 16 = 0"
  unfolding round16_def by simp

lemma ar_new_ok: "arena_ok (ar_new c)"
  by (simp add: ar_new_def arena_ok_def)

lemma ar_drop_simps [simp]: "ab (ar_drop a b) = ab a" "ach (ar_drop a b) = ach a" "anext (ar_drop a b) = anext a"
  by (simp_all add: ar_drop_def)

lemma ar_drop_ok:
  assumes "arena_ok a" and "ab a = b # bs"
  shows "arena_ok ((ar_drop a b)\<lparr>ab := bs\<rparr>)"
  using assms by (auto simp: arena_ok_def ar_drop_def)

lemma ar_blk_ok:
  assumes "arena_ok a"
  shows "arena_ok (ar_blk a n)"
    and "\<exists>b. ab (ar_blk a n) = b # ab a \<and> n \<le> bcap b \<and> buse b = 0 \<and> bid b \<notin> bid ` set (ab a)"
  using assms dbl_ge [of "ach a" n]
  by (auto simp: arena_ok_def ar_blk_def split: list.splits intro: less_SucI)

lemma ar_raw_shape:
  assumes "arena_ok a"
  obtains (same) b bs where "ab a = b # bs" "bcap b - buse b \<ge> round16 n"
      "ar_raw a n = (a\<lparr>ab := b\<lparr>buse := buse b + round16 n\<rparr> # bs\<rparr>, (bid b, buse b))"
  | (fresh) b where "ab (ar_blk a (round16 n)) = b # ab a" "round16 n \<le> bcap b" "buse b = 0"
      "bid b \<notin> bid ` set (ab a)"
      "ar_raw a n = ((ar_blk a (round16 n))\<lparr>ab := b\<lparr>buse := round16 n\<rparr> # ab a\<rparr>, (bid b, 0))"
proof (cases "\<exists>b bs. ab a = b # bs \<and> bcap b - buse b \<ge> round16 n")
  case True
  then show ?thesis by (auto intro!: same simp: ar_raw_def Let_def)
next
  case False
  from ar_blk_ok(2) [OF assms, of "round16 n"] obtain b where
    b: "ab (ar_blk a (round16 n)) = b # ab a" "round16 n \<le> bcap b" "buse b = 0" "bid b \<notin> bid ` set (ab a)"
    by blast
  from False have "ar_raw a n = ((ar_blk a (round16 n))\<lparr>ab := b\<lparr>buse := round16 n\<rparr> # ab a\<rparr>, (bid b, 0))"
    using b by (auto simp: ar_raw_def Let_def split: list.splits)
  with b show ?thesis by (rule fresh)
qed

lemma ar_raw_ok:
  assumes ok: "arena_ok a"
  shows "arena_ok (fst (ar_raw a n))"
proof (rule ar_raw_shape [OF ok, of n], goal_cases)
  case (1 b bs)
  with ok show ?case by (auto simp: arena_ok_def)
next
  case (2 b)
  with ar_blk_ok(1) [OF ok, of "round16 n"] show ?case by (auto simp: arena_ok_def)
qed

lemma ar_unwind_ok: "arena_ok a \<Longrightarrow> arena_ok (ar_unwind a m)"
proof (induction a m rule: ar_unwind.induct)
  case (1 a m)
  then show ?case
    by (cases "ab a") (auto simp: ar_unwind.simps [of a m] ar_drop_ok)
qed

lemma ar_unwind_to:
  "ab a = xs @ b # bs \<Longrightarrow> bid b \<notin> bid ` set xs \<Longrightarrow> ab (ar_unwind a (Some (bid b))) = b # bs"
  by (induction xs arbitrary: a) (auto simp: ar_unwind.simps)

lemma ar_unwind_all: "ab (ar_unwind a None) = []"
proof (induction "ab a" arbitrary: a)
  case Nil
  then show ?case by (simp add: ar_unwind.simps [of a])
next
  case (Cons b bs)
  then show ?case using Cons.hyps(1) [of "(ar_drop a b)\<lparr>ab := bs\<rparr>"]
    by (simp add: ar_unwind.simps [of a] flip: Cons.hyps(2))
qed

subsection \<open>Mark and release\<close>

text \<open>Any run of allocations, as one command makes them.\<close>

fun ar_run :: "arena \<Rightarrow> nat list \<Rightarrow> arena" where
  "ar_run a [] = a"
| "ar_run a (n # ns) = ar_run (fst (ar_raw a n)) ns"

lemma ar_run_ok: "arena_ok a \<Longrightarrow> arena_ok (ar_run a ns)"
  by (induction ns arbitrary: a) (auto simp: ar_raw_ok)

lemma ar_run_extends:
  assumes "arena_ok a" and "ab a = xs @ b # bs"
  shows "\<exists>xs' u. ab (ar_run a ns) = xs' @ b\<lparr>buse := u\<rparr> # bs"
  using assms
proof (induction ns arbitrary: a xs b)
  case Nil
  then show ?case by (auto intro!: exI [of _ xs] exI [of _ "buse b"])
next
  case (Cons n ns)
  have "\<exists>ys u. ab (fst (ar_raw a n)) = ys @ b\<lparr>buse := u\<rparr> # bs"
  proof (rule ar_raw_shape [OF Cons.prems(1), of n], goal_cases)
    case (1 c cs)
    with Cons.prems(2) show ?case by (cases xs) (auto, metis blk.surjective blk.update_convs(3) old.unit.exhaust)
  next
    case (2 c)
    have e: "b\<lparr>buse := buse b\<rparr> = b" by simp
    from 2 Cons.prems(2) show ?case
      by (intro exI [of _ "c\<lparr>buse := round16 n\<rparr> # xs"] exI [of _ "buse b"]) simp
  qed
  then obtain ys u where "ab (fst (ar_raw a n)) = ys @ b\<lparr>buse := u\<rparr> # bs" by blast
  from Cons.IH [OF ar_raw_ok [OF Cons.prems(1)] this] show ?case by auto
qed

lemma ar_rel_run:
  assumes "arena_ok a"
  shows "ab (ar_rel (ar_run a ns) (ar_mark a)) = ab a"
proof (cases "ab a")
  case Nil
  then show ?thesis by (simp add: ar_rel_def ar_mark_def Let_def ar_unwind_all)
next
  case (Cons b bs)
  from ar_run_extends [OF assms, of "[]" b bs ns] Cons obtain xs u where
    r: "ab (ar_run a ns) = xs @ b\<lparr>buse := u\<rparr> # bs" by auto
  from ar_run_ok [OF assms, of ns] r have "bid b \<notin> bid ` set xs"
    by (auto simp: arena_ok_def)
  with r have "ab (ar_unwind (ar_run a ns) (Some (bid (b\<lparr>buse := u\<rparr>)))) = b\<lparr>buse := u\<rparr> # bs"
    by (intro ar_unwind_to) auto
  with Cons show ?thesis by (simp add: ar_rel_def ar_mark_def Let_def)
qed

subsection \<open>Dynamic strings and vectors\<close>

text \<open>The capacity of a \<open>str\<close>: \<open>n\<close> bytes used and one for the NUL; 0 is the null buffer.\<close>

record strcap =
  sn :: nat
  scap :: nat

definition s_init :: strcap where
  "s_init = \<lparr>sn = 0, scap = 0\<rparr>"

definition s_grow :: "strcap \<Rightarrow> nat \<Rightarrow> strcap" where
  "s_grow s n =
    (if scap s \<noteq> 0 \<and> sn s + n + 1 \<le> scap s then s
     else s\<lparr>scap := dbl (if scap s \<noteq> 0 then scap s else 32) (sn s + n + 1)\<rparr>)"

definition s_add :: "strcap \<Rightarrow> nat \<Rightarrow> strcap" where
  "s_add s n =
    (let s' = (if scap s = 0 \<or> sn s + n + 1 > scap s then s_grow s n else s)
     in s'\<lparr>sn := sn s' + n\<rparr>)"

definition s_ch :: "strcap \<Rightarrow> strcap" where
  "s_ch s =
    (let s' = (if scap s = 0 \<or> sn s + 2 > scap s then s_grow s 1 else s)
     in s'\<lparr>sn := Suc (sn s')\<rparr>)"

text \<open>A vector's capacity after one more pointer.\<close>

definition v_add :: "nat \<times> nat \<Rightarrow> nat \<times> nat" where
  "v_add v = (let (n, c) = v; c' = (if n = c then (if c \<noteq> 0 then c * 2 else 8) else c) in (Suc n, c'))"

definition str_ok :: "strcap \<Rightarrow> bool" where
  "str_ok s \<longleftrightarrow> (if scap s = 0 then sn s = 0 else sn s < scap s)"

lemma s_grow_room:
  assumes "str_ok s"
  shows "sn s + n < scap (s_grow s n)" and "sn (s_grow s n) = sn s" and "scap s \<le> scap (s_grow s n)"
  using assms dbl_ge [of "if scap s \<noteq> 0 then scap s else 32" "sn s + n + 1"]
    dbl_ge_start [of "scap s" "sn s + n + 1"]
  by (auto simp: s_grow_def str_ok_def)

lemma s_add_ok: "str_ok s \<Longrightarrow> str_ok (s_add s n) \<and> sn (s_add s n) = sn s + n \<and> 0 < scap (s_add s n)"
  using s_grow_room [of s n] by (auto simp: s_add_def str_ok_def Let_def split: if_splits)

lemma s_ch_add: "s_ch s = s_add s 1"
  by (simp add: s_ch_def s_add_def Let_def)

subsection \<open>Decimal output\<close>

text \<open>\<open>s_num\<close>: count the digits, make room, write them from the last to the first.\<close>

fun ndig :: "nat \<Rightarrow> nat" where
  "ndig t = (if t \<ge> 10 then Suc (ndig (t div 10)) else 1)"

fun putdig :: "nat \<Rightarrow> string \<Rightarrow> string" where
  "putdig t acc =
    (let acc' = chr (48 + t mod 10) # acc in if t div 10 \<noteq> 0 then putdig (t div 10) acc' else acc')"

declare ndig.simps [simp del] putdig.simps [simp del]

definition s_num :: "int \<Rightarrow> string" where
  "s_num v = (if v < 0 then ''-'' else []) @ putdig (nat \<bar>v\<bar>) []"

text \<open>\<open>xnum\<close> of src/expand.c: the same number written into exactly the room counted.\<close>

fun xdig :: "nat \<Rightarrow> nat \<Rightarrow> string \<Rightarrow> string" where
  "xdig 0 u acc = acc"
| "xdig (Suc d) u acc = xdig d (u div 10) (chr (48 + u mod 10) # acc)"

definition xnum :: "int \<Rightarrow> string" where
  "xnum v = (let u = nat \<bar>v\<bar> in (if v < 0 then ''-'' else []) @ xdig (ndig u) u [])"

lemma putdig_append: "putdig t acc = putdig t [] @ acc"
proof (induction t arbitrary: acc rule: less_induct)
  case (less t)
  show ?case
  proof (cases "t div 10 = 0")
    case True
    then show ?thesis by (simp add: putdig.simps [of t])
  next
    case False
    then have "t div 10 < t" by simp
    then have "putdig (t div 10) xs = putdig (t div 10) [] @ xs" for xs by (rule less)
    from this [of "chr (48 + t mod 10) # acc"] this [of "[chr (48 + t mod 10)]"] False
    show ?thesis by (simp add: putdig.simps [of t])
  qed
qed

lemma putdig_ne: "putdig t acc \<noteq> []"
  by (induction t acc rule: putdig.induct) (subst putdig.simps, simp add: Let_def)

lemma digval_digit: "n < 10 \<Longrightarrow> digval (chr (48 + n)) = n \<and> isdigit (chr (48 + n))"
  by (simp add: digval_def byte_simps)

lemma putdig_digits: "set acc \<subseteq> {c. isdigit c} \<Longrightarrow> set (putdig t acc) \<subseteq> {c. isdigit c}"
proof (induction t acc rule: putdig.induct)
  case (1 t acc)
  have d: "isdigit (chr (48 + t mod 10))" by (rule digval_digit [THEN conjunct2]) simp
  show ?case
  proof (cases "t div 10 = 0")
    case True
    with 1(2) d show ?thesis by (simp add: putdig.simps [of t] Let_def del: div_eq_0_iff)
  next
    case False
    with 1 d show ?thesis by (simp add: putdig.simps [of t] Let_def)
  qed
qed

lemma length_putdig: "length (putdig t acc) = ndig t + length acc"
proof (induction t acc rule: putdig.induct)
  case (1 t acc)
  then show ?case by (cases "t div 10 = 0") (auto simp: putdig.simps [of t] ndig.simps [of t])
qed

text \<open>The room \<open>s_num\<close> counts is exactly what it writes, and reading it back gives the number.\<close>

lemma digs_putdig: "digs 10 a (putdig t rest) = digs 10 (a * 10 ^ ndig t + t) rest"
proof (induction t arbitrary: rest rule: less_induct)
  case (less t)
  show ?case
  proof (cases "t div 10 = 0")
    case True
    then have "t < 10" by (simp add: div_eq_0_iff)
    with True show ?thesis
      using digval_digit [of t] by (simp add: putdig.simps [of t] ndig.simps [of t])
  next
    case False
    then have t: "t \<ge> 10" "t div 10 < t" by (auto simp: div_eq_0_iff)
    have d: "digval (chr (48 + t mod 10)) = t mod 10" by (rule digval_digit [THEN conjunct1]) simp
    from False have "digs 10 a (putdig t rest) = digs 10 a (putdig (t div 10) (chr (48 + t mod 10) # rest))"
      by (subst putdig.simps) simp
    also have "\<dots> = digs 10 (a * 10 ^ ndig (t div 10) + t div 10) (chr (48 + t mod 10) # rest)"
      using t(2) by (rule less)
    also have "\<dots> = digs 10 ((a * 10 ^ ndig (t div 10) + t div 10) * 10 + t mod 10) rest"
      by (simp add: d)
    also have "(a * 10 ^ ndig (t div 10) + t div 10) * 10 + t mod 10 = a * 10 ^ ndig t + t"
      using t(1) by (simp add: ndig.simps [of t] algebra_simps)
    finally show ?thesis .
  qed
qed

lemma xdig_putdig: "xdig (ndig u) u acc = putdig u acc"
proof (induction u arbitrary: acc rule: less_induct)
  case (less u)
  show ?case
  proof (cases "u div 10 = 0")
    case True
    then have "u < 10" by (simp add: div_eq_0_iff)
    with True show ?thesis by (simp add: ndig.simps [of u] putdig.simps [of u])
  next
    case False
    then have "u \<ge> 10" "u div 10 < u" by (auto simp: div_eq_0_iff)
    with less [of "u div 10"] False show ?thesis
      by (simp add: ndig.simps [of u] putdig.simps [of u])
  qed
qed

lemma xnum_s_num: "xnum v = s_num v"
  by (simp add: xnum_def s_num_def Let_def xdig_putdig)

lemma digit_not_space: "isdigit c \<Longrightarrow> \<not> isspace c \<and> c \<noteq> CHR ''-'' \<and> c \<noteq> CHR ''+'' \<and> c \<noteq> NUL"
  by (auto simp: byte_simps)

lemma putdig_Cons:
  obtains c cs where "putdig t [] = c # cs" "isdigit c" "set cs \<subseteq> {c. isdigit c}"
  using putdig_digits [of "[]" t] putdig_ne [of t "[]"] by (cases "putdig t []") auto

lemma digval_isdigit: "isdigit c \<Longrightarrow> digval c < 10"
  by (auto simp: digval_def byte_simps)

lemma strtol_raw_s_num:
  assumes "rest = [] \<or> \<not> digval (hd rest) < 10"
  shows "strtol_raw 10 (s_num v @ rest) = (v, rest)"
proof -
  obtain c cs where p: "putdig (nat \<bar>v\<bar>) [] = c # cs" "isdigit c" by (rule putdig_Cons)
  have "digs 10 0 (putdig (nat \<bar>v\<bar>) [] @ rest) = (nat \<bar>v\<bar>, rest)"
    using digs_putdig [of 0 "nat \<bar>v\<bar>" rest] digs_stop [OF assms]
    by (simp flip: putdig_append)
  with p digit_not_space [OF p(2)] digval_isdigit [OF p(2)] show ?thesis
    by (auto simp: strtol_raw_def s_num_def Let_def isspace_def)
qed

lemma s_num_inj: "s_num v = s_num w \<Longrightarrow> v = w"
  using strtol_raw_s_num [of "[]" v] strtol_raw_s_num [of "[]" w] by simp

lemma s_num_cstr [simp]: "cstr (s_num v)"
  using putdig_digits [of "[]" "nat \<bar>v\<bar>"] class_NUL(1) by (auto simp: s_num_def cstr_def)

subsection \<open>Quoting\<close>

definition hexdig :: "nat \<Rightarrow> char" where
  "hexdig n = ''0123456789abcdef'' ! n"

text \<open>One byte of a JSON string's contents, escaped.\<close>

definition lg_jch :: "char \<Rightarrow> string" where
  "lg_jch c =
    (if c = CHR 0x22 \<or> c = CHR 0x5C then [CHR 0x5C, c]
     else if c = CHR 0x0A then [CHR 0x5C, CHR ''n'']
     else if c = CHR 0x09 then [CHR 0x5C, CHR ''t'']
     else if c = CHR 0x0D then [CHR 0x5C, CHR ''r'']
     else if byte c < 32 then [CHR 0x5C, CHR ''u'', CHR ''0'', CHR ''0'', hexdig (byte c div 16), hexdig (byte c mod 16)]
     else [c])"

definition lg_jstr :: "string \<Rightarrow> string" where
  "lg_jstr t = concat (map lg_jch t)"

text \<open>The inside of a single-quoted word: each quote as \<open>'\''\<close>.\<close>

abbreviation SQ :: char where "SQ \<equiv> CHR 0x27"
abbreviation DQ :: char where "DQ \<equiv> CHR 0x22"
abbreviation BS :: char where "BS \<equiv> CHR 0x5C"

function s_sqb :: "string \<Rightarrow> string" where
  "s_sqb p =
    (case dropWhile (\<lambda>c. c \<noteq> SQ) p of
      [] \<Rightarrow> p
    | _ # r \<Rightarrow> takeWhile (\<lambda>c. c \<noteq> SQ) p @ [SQ, BS, SQ, SQ] @ s_sqb r)"
  by pat_completeness auto
termination
proof (relation "measure length")
  fix p :: string and x r
  assume "dropWhile (\<lambda>c. c \<noteq> SQ) p = x # r"
  then have "length (x # r) \<le> length p" by (metis length_dropWhile_le)
  then show "(r, p) \<in> measure length" by simp
qed simp

declare s_sqb.simps [simp del]

definition s_sq :: "string \<Rightarrow> string" where
  "s_sq p = [SQ] @ s_sqb p @ [SQ]"

lemma s_sqb_concat: "s_sqb p = concat (map (\<lambda>c. if c = SQ then [SQ, BS, SQ, SQ] else [c]) p)"
proof (induction p)
  case Nil
  then show ?case by (simp add: s_sqb.simps)
next
  case (Cons c p)
  have "s_sqb (c # p) = (if c = SQ then [SQ, BS, SQ, SQ] else [c]) @ s_sqb p"
  proof (cases "c = SQ")
    case True
    show ?thesis unfolding True by (subst s_sqb.simps) simp
  next
    case False
    then show ?thesis
      by (simp add: s_sqb.simps [of "c # p"] s_sqb.simps [of p]
          del: dropWhile_eq_Nil_conv split: list.split)
  qed
  with Cons show ?case by simp
qed

lemma s_sqb_simps [simp]:
  "s_sqb [] = []" "s_sqb (c # p) = (if c = SQ then [SQ, BS, SQ, SQ] else [c]) @ s_sqb p"
  by (simp_all add: s_sqb_concat)

lemma lg_jstr_simps [simp]: "lg_jstr [] = []" "lg_jstr (c # t) = lg_jch c @ lg_jstr t"
  by (simp_all add: lg_jstr_def)

subsection \<open>Properties\<close>

lemma ar_rel_ok:
  assumes "arena_ok a" and "ab (ar_rel a m) = ab c" and "arena_ok c"
  shows "arena_ok (ar_rel a m)"
proof -
  have u: "arena_ok (ar_unwind a (fst m))" by (rule ar_unwind_ok [OF assms(1)])
  have "\<forall>b \<in> set (ab (ar_rel a m)). buse b \<le> bcap b" using assms(2,3) by (auto simp: arena_ok_def)
  with u show ?thesis
    by (auto simp: arena_ok_def ar_rel_def Let_def split: list.splits)
qed

text \<open>C23: after any run of allocations, releasing to a mark gives back exactly the blocks and
  the high-water marks there were when it was taken, and the arena stays well formed.\<close>

theorem arena_mark_release:
  assumes "arena_ok a"
  shows "ab (ar_rel (ar_run a ns) (ar_mark a)) = ab a \<and> arena_ok (ar_rel (ar_run a ns) (ar_mark a))"
  using ar_rel_run [OF assms] ar_rel_ok [OF ar_run_ok [OF assms] _ assms] by simp

theorem arena_mark_release_witness:
  "ab (ar_rel (ar_run (ar_run (ar_new 64) [10, 40]) [100, 8, 8]) (ar_mark (ar_run (ar_new 64) [10, 40]))) =
    [\<lparr>bid = 0, bcap = 64, buse = 64\<rparr>]"
proof -
  have n: "round16 10 = 16" "round16 40 = 48" "dbl 64 16 = 64"
    by (simp_all add: round16_def dbl.simps)
  have "arena_ok (ar_run (ar_new 64) [10, 40])" by (rule ar_run_ok [OF ar_new_ok])
  from arena_mark_release [OF this, of "[100, 8, 8]"] show ?thesis
    by (simp add: ar_new_def ar_raw_def ar_blk_def n)
qed

text \<open>The decimal text of a number, read back by \<open>strtol\<close> with anything but a digit
  after it, is that number, and the text after it is left unread.\<close>

theorem s_num_strtol:
  assumes "LONG_MIN \<le> v" "v \<le> LONG_MAX" and "rest = [] \<or> \<not> digval (hd rest) < 10"
  shows "strtol 10 (s_num v @ rest) = (v, rest) \<and> xnum v = s_num v"
  using assms by (simp add: strtol_def strtol_raw_s_num clamp_long_def xnum_s_num)

theorem s_num_strtol_witness: "strtol 10 (s_num (- 120) @ '' left'') = (- 120, '' left'')"
  using s_num_strtol [of "- 120" "'' left''"] by (simp add: LONG_MAX_def LONG_MIN_def digval_def byte_simps)

end
