(* ===== verification/Utf8.thy ===== *)
theory Utf8
  imports Mem
begin

text \<open>
  UTF-8 text: decoding (src/edit.c), encoding and letter case (src/text.c), counting and
  offsets in characters (src/expand.c) and display width (src/edit.c). The table of display
  widths, src/wtab.c, is generated from the Unicode Character Database, so the functions that
  read it take it as an argument.
\<close>

subsection \<open>Decoding and encoding\<close>

definition u8len :: "nat \<Rightarrow> nat" where
  "u8len c =
    (if c < 0x80 then 1
     else if c AND 0xE0 = 0xC0 then 2
     else if c AND 0xF0 = 0xE0 then 3
     else if c AND 0xF8 = 0xF0 then 4
     else 1)"

text \<open>A continuation byte.\<close>

definition u8cont :: "char \<Rightarrow> bool" where
  "u8cont c \<longleftrightarrow> byte c AND 0xC0 = 0x80"

fun u8more :: "string \<Rightarrow> nat \<Rightarrow> nat \<Rightarrow> nat \<Rightarrow> nat option" where
  "u8more p i 0 cp = Some cp"
| "u8more p i (Suc k) cp =
     (if \<not> u8cont (at p i) then None
      else u8more p (Suc i) k (push_bit 6 cp OR (byte (at p i) AND 0x3F)))"

definition u8dec :: "string \<Rightarrow> nat \<Rightarrow> nat \<times> nat" where
  "u8dec p n =
    (let c = byte (at p 0); l = u8len c in
     if l = 1 \<or> l > n then (1, c)
     else case u8more p 1 (l - 1) (c AND drop_bit (l + 1) 0xFF) of None \<Rightarrow> (1, c) | Some cp \<Rightarrow> (l, cp))"

definition u8put :: "nat \<Rightarrow> string" where
  "u8put c =
    (if c < 0x80 then [chr c]
     else if c < 0x800 then [chr (0xC0 OR drop_bit 6 c), chr (0x80 OR (c AND 0x3F))]
     else if c < 0x10000 then
       [chr (0xE0 OR drop_bit 12 c), chr (0x80 OR (drop_bit 6 c AND 0x3F)), chr (0x80 OR (c AND 0x3F))]
     else
       [chr (0xF0 OR drop_bit 18 c), chr (0x80 OR (drop_bit 12 c AND 0x3F)),
        chr (0x80 OR (drop_bit 6 c AND 0x3F)), chr (0x80 OR (c AND 0x3F))])"

lemma and_3F: "(x::nat) AND 63 = x mod 64"
  using and_pow2_minus1 [of x 6] by simp

lemma or_lead:
  "x < 64 \<Longrightarrow> (128::nat) OR x = 128 + x"
  "x < 32 \<Longrightarrow> (192::nat) OR x = 192 + x"
  "x < 16 \<Longrightarrow> (224::nat) OR x = 224 + x"
  "x < 8 \<Longrightarrow> (240::nat) OR x = 240 + x"
  using push_bit_or [of x 6 2] push_bit_or [of x 5 6] push_bit_or [of x 4 14] push_bit_or [of x 3 30]
  by (simp_all add: push_bit_eq_mult)

lemma or_shift6: "y < 64 \<Longrightarrow> push_bit 6 (x::nat) OR y = x * 64 + y"
  using push_bit_or [of y 6 x] by simp

lemma and_lead:
  "(x::nat) AND 31 = x mod 32" "(x::nat) AND 15 = x mod 16" "(x::nat) AND 7 = x mod 8"
  using and_pow2_minus1 [of x 5] and_pow2_minus1 [of x 4] and_pow2_minus1 [of x 3] by simp_all

text \<open>A mask of \<open>j\<close> bits from bit \<open>k\<close> up.\<close>

lemma and_field: "(x::nat) AND push_bit k (mask j) = x div 2 ^ k mod 2 ^ j * 2 ^ k"
proof -
  have "x AND push_bit k (mask j) = push_bit k (take_bit j (drop_bit k x))"
    by (rule bit_eqI) (auto simp: bit_simps)
  then show ?thesis by (simp add: push_bit_eq_mult take_bit_eq_mod drop_bit_eq_div)
qed

lemma and_high:
  "(x::nat) AND 192 = x div 64 mod 4 * 64" "(x::nat) AND 224 = x div 32 mod 8 * 32"
  "(x::nat) AND 240 = x div 16 mod 16 * 16" "(x::nat) AND 248 = x div 8 mod 32 * 8"
  using and_field [of x 6 2] and_field [of x 5 3] and_field [of x 4 4] and_field [of x 3 5]
  by (simp_all add: push_bit_eq_mult mask_eq_exp_minus_1)

lemma high_cmp:
  assumes "(x::nat) < 256"
  shows "x AND 192 = 128 \<longleftrightarrow> 128 \<le> x \<and> x < 192" "x AND 224 = 192 \<longleftrightarrow> 192 \<le> x \<and> x < 224"
    "x AND 240 = 224 \<longleftrightarrow> 224 \<le> x \<and> x < 240" "x AND 248 = 240 \<longleftrightarrow> 240 \<le> x \<and> x < 248"
proof -
  have m: "x div 64 mod 4 = x div 64" "x div 32 mod 8 = x div 32" "x div 16 mod 16 = x div 16"
    "x div 8 mod 32 = x div 8" using assms by simp_all
  have "x div 64 * 64 = 128 \<longleftrightarrow> x div 64 = 2" by simp
  also have "\<dots> \<longleftrightarrow> 128 \<le> x \<and> x < 192" by linarith
  finally show "x AND 192 = 128 \<longleftrightarrow> 128 \<le> x \<and> x < 192" by (simp add: and_high m)
  have "x div 32 * 32 = 192 \<longleftrightarrow> x div 32 = 6" by simp
  also have "\<dots> \<longleftrightarrow> 192 \<le> x \<and> x < 224" by linarith
  finally show "x AND 224 = 192 \<longleftrightarrow> 192 \<le> x \<and> x < 224" by (simp add: and_high m)
  have "x div 16 * 16 = 224 \<longleftrightarrow> x div 16 = 14" by simp
  also have "\<dots> \<longleftrightarrow> 224 \<le> x \<and> x < 240" by linarith
  finally show "x AND 240 = 224 \<longleftrightarrow> 224 \<le> x \<and> x < 240" by (simp add: and_high m)
  have "x div 8 * 8 = 240 \<longleftrightarrow> x div 8 = 30" by simp
  also have "\<dots> \<longleftrightarrow> 240 \<le> x \<and> x < 248" by linarith
  finally show "x AND 248 = 240 \<longleftrightarrow> 240 \<le> x \<and> x < 248" by (simp add: and_high m)
qed

lemma u8len_byte:
  "x < 256 \<Longrightarrow> u8len x = (if 192 \<le> x \<and> x < 224 then 2 else if 224 \<le> x \<and> x < 240 then 3
                 else if 240 \<le> x \<and> x < 248 then 4 else 1)"
  by (simp add: u8len_def high_cmp)

lemma u8len_eq:
  "u8len (byte c) = (if 192 \<le> byte c \<and> byte c < 224 then 2 else if 224 \<le> byte c \<and> byte c < 240 then 3
                 else if 240 \<le> byte c \<and> byte c < 248 then 4 else 1)"
  by (rule u8len_byte) simp

lemma u8cont_iff: "u8cont c \<longleftrightarrow> 128 \<le> byte c \<and> byte c < 192"
  by (simp add: u8cont_def high_cmp)

lemma mod_lead:
  "(192 + q) mod 32 = q mod (32::nat)" "(128 + q) mod 64 = q mod (64::nat)"
  "(224 + q) mod 16 = q mod (16::nat)" "(240 + q) mod 8 = q mod (8::nat)"
  using mod_mult_self1 [of q 6 32] mod_mult_self1 [of q 2 64] mod_mult_self1 [of q 14 16]
    mod_mult_self1 [of q 30 8]
  by (simp_all add: add.commute)

lemma split_div:
  "c div 4096 * 64 + c div 64 mod 64 = c div (64::nat)"
  "c div 262144 * 64 + c div 4096 mod 64 = c div (4096::nat)"
  using div_mult_mod_eq [of "c div 64" 64] div_mult_mod_eq [of "c div 4096" 64]
  by (simp_all flip: div_mult2_eq)

lemma u8cont_NUL [simp]: "\<not> u8cont NUL"
  by (simp add: u8cont_iff)

lemma u8len_range: "1 \<le> u8len c" "u8len c \<le> 4"
  by (simp_all add: u8len_def)

lemma u8dec_len: "1 \<le> fst (u8dec p n)" "fst (u8dec p n) \<le> 4" "0 < n \<Longrightarrow> fst (u8dec p n) \<le> n"
  using u8len_range [of "byte (at p 0)"] by (auto simp: u8dec_def Let_def split: option.split)

lemma u8more_cont: "u8more p i k cp = Some x \<Longrightarrow> j < k \<Longrightarrow> u8cont (at p (i + j))"
proof (induction p i k cp arbitrary: j rule: u8more.induct)
  case (2 p i k cp)
  then show ?case by (cases j) (auto split: if_splits)
qed simp

lemma u8dec_inside: "p \<noteq> [] \<Longrightarrow> fst (u8dec p n) \<le> length p"
proof -
  assume "p \<noteq> []"
  let ?l = "u8len (byte (at p 0))" and ?m = "byte (at p 0) AND drop_bit (u8len (byte (at p 0)) + 1) 0xFF"
  have "?l \<le> length p" if "u8more p 1 (?l - 1) ?m = Some cp" "?l \<noteq> 1" for cp
  proof (rule ccontr)
    assume "\<not> ?l \<le> length p"
    moreover from this \<open>p \<noteq> []\<close> have "length p - 1 < ?l - 1" "1 + (length p - 1) = length p"
      by (cases p; simp)+
    ultimately have "u8cont (at p (length p))" using u8more_cont [OF that(1), of "length p - 1"] by simp
    then show False by (simp add: at_def)
  qed
  moreover from \<open>p \<noteq> []\<close> have "1 \<le> length p" by (cases p) auto
  ultimately show ?thesis by (auto simp: u8dec_def Let_def split: option.split)
qed

lemma u8dec_ascii: "byte c < 128 \<Longrightarrow> u8dec (c # p) n = (1, byte c)"
  by (simp add: u8dec_def u8len_def)

lemma u8more_unroll:
  "u8more p i 1 cp = (if u8cont (at p i) then Some (push_bit 6 cp OR (byte (at p i) AND 0x3F)) else None)"
  "u8more p i 2 cp = (if \<not> u8cont (at p i) then None else u8more p (Suc i) 1 (push_bit 6 cp OR (byte (at p i) AND 0x3F)))"
  "u8more p i 3 cp = (if \<not> u8cont (at p i) then None else u8more p (Suc i) 2 (push_bit 6 cp OR (byte (at p i) AND 0x3F)))"
  by (simp_all add: numeral_eq_Suc)

lemma cont_byte [simp]:
  "(128 + x mod 64) mod 256 = 128 + x mod (64::nat)" "128 + x mod 64 < (192::nat)"
  using mod_less_divisor [of 64 x] by simp_all

lemmas u8_bits = mod_lead and_3F or_lead u8len_eq u8len_byte u8cont_iff and_lead or_shift6 u8more_unroll
  u8more_unroll(1) [unfolded One_nat_def]

text \<open>What \<open>u8put\<close> writes, \<open>u8dec\<close> reads back, whatever follows it.\<close>

lemma u8dec_u8put:
  assumes "c < 0x200000" and "length (u8put c) \<le> n"
  shows "u8dec (u8put c @ rest) n = (length (u8put c), c)"
proof -
  consider "c < 0x80" | "0x80 \<le> c" "c < 0x800" | "0x800 \<le> c" "c < 0x10000" | "0x10000 \<le> c"
    by linarith
  then show ?thesis
  proof cases
    case 1
    then show ?thesis using u8dec_ascii [of "chr c" rest n] by (simp add: u8put_def)
  next
    case 2
    then have "c div 64 < 32" by simp
    with 2 assms(2) show ?thesis
      by (simp add: u8put_def u8dec_def Let_def drop_bit_eq_div u8_bits)
  next
    case 3
    then have "c div 4096 < 16" by simp
    with 3 assms(2) show ?thesis using split_div [of c]
      by (simp add: u8put_def u8dec_def Let_def drop_bit_eq_div u8_bits)
  next
    case 4
    with assms have "c div 262144 < 8" by simp
    with 4 assms(2) show ?thesis using split_div [of c]
      by (simp add: u8put_def u8dec_def Let_def drop_bit_eq_div u8_bits)
  qed
qed

subsection \<open>Letter case\<close>

text \<open>\<open>c & ~1u\<close> is written \<open>c div 2 * 2\<close>.\<close>

definition u8case :: "nat \<Rightarrow> bool \<Rightarrow> nat" where
  "u8case c up =
    (if c < 0x80 then (if up then toupper c else tolower c)
     else if c = 0x130 \<or> c = 0x131 then
       (if up then (if c = 0x131 then 0x49 else c) else (if c = 0x130 then 0x69 else c))
     else if c \<ge> 0x1C4 \<and> c \<le> 0x1CC then
       (let b = 0x1C4 + (c - 0x1C4) div 3 * 3 in if up then b else b + 2)
     else if up then
       (if c = 0x3AC then 0x386
        else if c \<ge> 0x3AD \<and> c \<le> 0x3AF then c - 0x25
        else if c = 0x3CC then 0x38C
        else if c = 0x3CD \<or> c = 0x3CE then c - 0x3F
        else if c \<ge> 0xE0 \<and> c \<le> 0xFE \<and> c \<noteq> 0xF7 \<or> c \<ge> 0x3B1 \<and> c \<le> 0x3CB \<and> c \<noteq> 0x3C2 \<or>
                c \<ge> 0x430 \<and> c \<le> 0x44F then c - 0x20
        else if c = 0xFF then 0x178
        else if c = 0x3C2 then 0x3A3
        else if c \<ge> 0x450 \<and> c \<le> 0x45F then c - 0x50
        else if c \<ge> 0x561 \<and> c \<le> 0x586 then c - 0x30
        else if c \<ge> 0x100 \<and> c \<le> 0x137 \<or> c \<ge> 0x14A \<and> c \<le> 0x177 \<or> c \<ge> 0x460 \<and> c \<le> 0x4BF
          then c div 2 * 2
        else if c \<ge> 0x139 \<and> c \<le> 0x148 \<or> c \<ge> 0x179 \<and> c \<le> 0x17E
          then (if odd c then c else c - 1)
        else c)
     else
       (if c = 0x386 then 0x3AC
        else if c \<ge> 0x388 \<and> c \<le> 0x38A then c + 0x25
        else if c = 0x38C then 0x3CC
        else if c = 0x38E \<or> c = 0x38F then c + 0x3F
        else if c \<ge> 0xC0 \<and> c \<le> 0xDE \<and> c \<noteq> 0xD7 \<or> c \<ge> 0x391 \<and> c \<le> 0x3AB \<and> c \<noteq> 0x3A2 \<or>
                c \<ge> 0x410 \<and> c \<le> 0x42F then c + 0x20
        else if c = 0x178 then 0xFF
        else if c \<ge> 0x400 \<and> c \<le> 0x40F then c + 0x50
        else if c \<ge> 0x531 \<and> c \<le> 0x556 then c + 0x30
        else if c \<ge> 0x100 \<and> c \<le> 0x137 \<or> c \<ge> 0x14A \<and> c \<le> 0x177 \<or> c \<ge> 0x460 \<and> c \<le> 0x4BF
          then c OR 1
        else if c \<ge> 0x139 \<and> c \<le> 0x148 \<or> c \<ge> 0x179 \<and> c \<le> 0x17E
          then (if odd c then c + 1 else c)
        else c))"

lemma u8dec_pos: "u8dec p n = (k, c) \<Longrightarrow> 0 < k"
  using u8dec_len(1) [of p n] by simp

function u8cased :: "string \<Rightarrow> bool \<Rightarrow> bool \<Rightarrow> string" where
  "u8cased v up first =
    (if v = [] then []
     else let (k, c) = u8dec v (length v);
              o1 = (if k = 1 \<and> byte (at v 0) \<ge> 0x80 then [at v 0] else u8put (u8case c up));
              r = drop k v
          in if first then o1 @ r else o1 @ u8cased r up first)"
  by pat_completeness auto
termination
  by (relation "measure (\<lambda>(v, up, first). length v)") (auto dest!: u8dec_pos [OF sym])

declare u8cased.simps [simp del]

lemma or_1: "c OR Suc 0 = (if even c then Suc c else c)"
  using or_one_eq [of c] by simp

lemma u8case_fix_if:
  "(P \<Longrightarrow> u8case x up = x) \<Longrightarrow> (\<not> P \<Longrightarrow> u8case y up = y) \<Longrightarrow>
    u8case (if P then x else y) up = (if P then x else y)"
  by simp

text \<open>Each branch lands where the same call changes nothing.\<close>

lemma u8case_up_fix:
  fixes x :: nat
  shows
    "904 \<le> x \<and> x \<le> 906 \<Longrightarrow> u8case x True = x"
    "910 \<le> x \<and> x \<le> 911 \<Longrightarrow> u8case x True = x"
    "192 \<le> x \<and> x \<le> 222 \<and> x \<noteq> 215 \<Longrightarrow> u8case x True = x"
    "913 \<le> x \<and> x \<le> 939 \<and> x \<noteq> 930 \<Longrightarrow> u8case x True = x"
    "1040 \<le> x \<and> x \<le> 1071 \<Longrightarrow> u8case x True = x"
    "1024 \<le> x \<and> x \<le> 1039 \<Longrightarrow> u8case x True = x"
    "1329 \<le> x \<and> x \<le> 1366 \<Longrightarrow> u8case x True = x"
    "256 \<le> x \<and> x \<le> 311 \<Longrightarrow> even x \<Longrightarrow> u8case x True = x"
    "330 \<le> x \<and> x \<le> 375 \<Longrightarrow> even x \<Longrightarrow> u8case x True = x"
    "1120 \<le> x \<and> x \<le> 1215 \<Longrightarrow> even x \<Longrightarrow> u8case x True = x"
    "313 \<le> x \<and> x \<le> 328 \<Longrightarrow> odd x \<Longrightarrow> u8case x True = x"
    "377 \<le> x \<and> x \<le> 382 \<Longrightarrow> odd x \<Longrightarrow> u8case x True = x"
  by (simp_all add: u8case_def or_1) (auto, presburger?)

lemma u8case_down_fix:
  fixes x :: nat
  shows
    "941 \<le> x \<and> x \<le> 943 \<Longrightarrow> u8case x False = x"
    "973 \<le> x \<and> x \<le> 974 \<Longrightarrow> u8case x False = x"
    "224 \<le> x \<and> x \<le> 254 \<and> x \<noteq> 247 \<Longrightarrow> u8case x False = x"
    "945 \<le> x \<and> x \<le> 971 \<and> x \<noteq> 962 \<Longrightarrow> u8case x False = x"
    "1072 \<le> x \<and> x \<le> 1103 \<Longrightarrow> u8case x False = x"
    "1104 \<le> x \<and> x \<le> 1119 \<Longrightarrow> u8case x False = x"
    "1377 \<le> x \<and> x \<le> 1414 \<Longrightarrow> u8case x False = x"
    "256 \<le> x \<and> x \<le> 311 \<Longrightarrow> odd x \<Longrightarrow> u8case x False = x"
    "330 \<le> x \<and> x \<le> 375 \<Longrightarrow> odd x \<Longrightarrow> u8case x False = x"
    "1120 \<le> x \<and> x \<le> 1215 \<Longrightarrow> odd x \<Longrightarrow> u8case x False = x"
    "313 \<le> x \<and> x \<le> 328 \<Longrightarrow> even x \<Longrightarrow> u8case x False = x"
    "377 \<le> x \<and> x \<le> 382 \<Longrightarrow> even x \<Longrightarrow> u8case x False = x"
  by (simp_all add: u8case_def or_1) (auto, presburger?)

lemma u8case_up_branch:
  "c < 128 \<Longrightarrow> u8case (toupper c) True = toupper c"
  "452 \<le> c \<and> c \<le> 460 \<Longrightarrow> u8case (452 + (c - 452) div 3 * 3) True = 452 + (c - 452) div 3 * 3"
  "941 \<le> c \<and> c \<le> 943 \<Longrightarrow> u8case (c - 37) True = c - 37"
  "c = 973 \<or> c = 974 \<Longrightarrow> u8case (c - 63) True = c - 63"
  "224 \<le> c \<and> c \<le> 254 \<and> c \<noteq> 247 \<or> 945 \<le> c \<and> c \<le> 971 \<and> c \<noteq> 962 \<or> 1072 \<le> c \<and> c \<le> 1103 \<Longrightarrow> u8case (c - 32) True = c - 32"
  "1104 \<le> c \<and> c \<le> 1119 \<Longrightarrow> u8case (c - 80) True = c - 80"
  "1377 \<le> c \<and> c \<le> 1414 \<Longrightarrow> u8case (c - 48) True = c - 48"
  "256 \<le> c \<and> c \<le> 311 \<or> 330 \<le> c \<and> c \<le> 375 \<or> 1120 \<le> c \<and> c \<le> 1215 \<Longrightarrow> u8case (c div 2 * 2) True = c div 2 * 2"
  "313 \<le> c \<and> c \<le> 328 \<or> 377 \<le> c \<and> c \<le> 382 \<Longrightarrow> even c \<Longrightarrow> u8case (c - 1) True = c - 1"
  "313 \<le> c \<and> c \<le> 328 \<or> 377 \<le> c \<and> c \<le> 382 \<Longrightarrow> odd c \<Longrightarrow> u8case (c) True = c"
  "u8case 73 True = 73" "u8case 304 True = 304" "u8case 902 True = 902" "u8case 908 True = 908" "u8case 376 True = 376" "u8case 931 True = 931"
  subgoal by (auto simp: u8case_def toupper_def)
  subgoal by (cases "c < 455"; cases "c < 458") (simp_all add: u8case_def div_nat_eqI [of 0] div_nat_eqI [of 1] div_nat_eqI [of 2])
  subgoal by (rule u8case_up_fix(1)) linarith
  subgoal by (rule u8case_up_fix(2)) linarith
  subgoal by (elim disjE; ((rule u8case_up_fix(3), presburger) | (rule u8case_up_fix(4), presburger) | (rule u8case_up_fix(5), presburger)))
  subgoal by (rule u8case_up_fix(6)) linarith
  subgoal by (rule u8case_up_fix(7)) linarith
  subgoal by (elim disjE; ((rule u8case_up_fix(8), presburger, simp) | (rule u8case_up_fix(9), presburger, simp) | (rule u8case_up_fix(10), presburger, simp)))
  subgoal by (elim disjE; ((rule u8case_up_fix(11), presburger, simp) | (rule u8case_up_fix(12), presburger, simp)))
  subgoal by (elim disjE; ((rule u8case_up_fix(11), simp, simp) | (rule u8case_up_fix(12), simp, simp)))
  by (simp_all add: u8case_def toupper_def tolower_def)

lemma u8case_tri:
  assumes "452 \<le> c \<and> c \<le> 460"
  shows "u8case (452 + (c - 452) div 3 * 3 + 2) False = 452 + (c - 452) div 3 * 3 + 2"
proof -
  have "(c - 452) div 3 \<le> 2" using assms by presburger
  then consider "(c - 452) div 3 = 0" | "(c - 452) div 3 = 1" | "(c - 452) div 3 = 2" by linarith
  then show ?thesis by cases (simp_all add: u8case_def)
qed

lemma u8case_down_branch:
  "c < 128 \<Longrightarrow> u8case (tolower c) False = tolower c"
  "452 \<le> c \<and> c \<le> 460 \<Longrightarrow> u8case (452 + (c - 452) div 3 * 3 + 2) False = 452 + (c - 452) div 3 * 3 + 2"
  "904 \<le> c \<and> c \<le> 906 \<Longrightarrow> u8case (c + 37) False = c + 37"
  "c = 910 \<or> c = 911 \<Longrightarrow> u8case (c + 63) False = c + 63"
  "192 \<le> c \<and> c \<le> 222 \<and> c \<noteq> 215 \<or> 913 \<le> c \<and> c \<le> 939 \<and> c \<noteq> 930 \<or> 1040 \<le> c \<and> c \<le> 1071 \<Longrightarrow> u8case (c + 32) False = c + 32"
  "1024 \<le> c \<and> c \<le> 1039 \<Longrightarrow> u8case (c + 80) False = c + 80"
  "1329 \<le> c \<and> c \<le> 1366 \<Longrightarrow> u8case (c + 48) False = c + 48"
  "256 \<le> c \<and> c \<le> 311 \<or> 330 \<le> c \<and> c \<le> 375 \<or> 1120 \<le> c \<and> c \<le> 1215 \<Longrightarrow> u8case (c OR 1) False = c OR 1"
  "313 \<le> c \<and> c \<le> 328 \<or> 377 \<le> c \<and> c \<le> 382 \<Longrightarrow> odd c \<Longrightarrow> u8case (c + 1) False = c + 1"
  "313 \<le> c \<and> c \<le> 328 \<or> 377 \<le> c \<and> c \<le> 382 \<Longrightarrow> even c \<Longrightarrow> u8case (c) False = c"
  "u8case 105 False = 105" "u8case 305 False = 305" "u8case 940 False = 940" "u8case 972 False = 972" "u8case 255 False = 255"
  subgoal by (auto simp: u8case_def tolower_def)
  subgoal by (rule u8case_tri)
  subgoal by (rule u8case_down_fix(1)) linarith
  subgoal by (rule u8case_down_fix(2)) linarith
  subgoal by (elim disjE; ((rule u8case_down_fix(3), presburger) | (rule u8case_down_fix(4), presburger) | (rule u8case_down_fix(5), presburger)))
  subgoal by (rule u8case_down_fix(6)) linarith
  subgoal by (rule u8case_down_fix(7)) linarith
  subgoal unfolding One_nat_def or_1 by (elim disjE; ((rule u8case_down_fix(8), presburger, presburger) | (rule u8case_down_fix(9), presburger, presburger) | (rule u8case_down_fix(10), presburger, presburger)))
  subgoal by (elim disjE; ((rule u8case_down_fix(11), presburger, simp) | (rule u8case_down_fix(12), presburger, simp)))
  subgoal by (elim disjE; ((rule u8case_down_fix(11), simp, simp) | (rule u8case_down_fix(12), simp, simp)))
  by (simp_all add: u8case_def toupper_def tolower_def)

lemma u8case_idem_up: "u8case (u8case c True) True = u8case c True"
proof -
  have "x = u8case c True \<Longrightarrow> u8case x True = x" for x
    unfolding u8case_def [of c True] Let_def if_True if_False
    apply (erule ssubst, intro u8case_fix_if)
    apply (simp_all only: u8case_up_branch simp_thms)
    apply (simp_all only: u8case_def Let_def if_True if_False simp_thms)
    done
  then show ?thesis by blast
qed

lemma u8case_idem_down: "u8case (u8case c False) False = u8case c False"
proof -
  have "x = u8case c False \<Longrightarrow> u8case x False = x" for x
    unfolding u8case_def [of c False] Let_def if_True if_False
    apply (erule ssubst, intro u8case_fix_if)
    apply (simp_all only: u8case_down_branch simp_thms)
    apply (simp_all only: u8case_def Let_def if_True if_False simp_thms)
    done
  then show ?thesis by blast
qed

lemma u8case_idem: "u8case (u8case c up) up = u8case c up"
  by (cases up) (simp_all add: u8case_idem_up u8case_idem_down)

subsection \<open>Counting and offsets in characters\<close>

definition u8n :: "string \<Rightarrow> nat" where
  "u8n t = length (filter (\<lambda>c. \<not> u8cont c) t)"

fun u8skip :: "string \<Rightarrow> nat" where
  "u8skip [] = 0"
| "u8skip (c # t) = (if u8cont c then Suc (u8skip t) else 0)"

fun u8off :: "string \<Rightarrow> nat \<Rightarrow> nat" where
  "u8off t 0 = 0"
| "u8off [] (Suc c) = 0"
| "u8off (x # t) (Suc c) = (let k = Suc (u8skip t) in k + u8off (drop (k - 1) t) c)"

text \<open>A text of characters, encoded.\<close>

definition u8enc :: "nat list \<Rightarrow> string" where
  "u8enc cs = concat (map u8put cs)"

lemma u8enc_simps [simp]: "u8enc [] = []" "u8enc (c # cs) = u8put c @ u8enc cs" "u8enc (cs @ ds) = u8enc cs @ u8enc ds"
  by (simp_all add: u8enc_def)

lemma u8put_shape:
  assumes "c < 0x200000"
  obtains x xs where "u8put c = x # xs" "\<not> u8cont x" "\<forall>y \<in> set xs. u8cont y"
proof -
  consider "c < 0x80" | "0x80 \<le> c" "c < 0x800" | "0x800 \<le> c" "c < 0x10000" | "0x10000 \<le> c"
    by linarith
  then have "\<exists>x xs. u8put c = x # xs \<and> \<not> u8cont x \<and> (\<forall>y \<in> set xs. u8cont y)"
  proof cases
    case 2
    then have "c div 64 < 32" by simp
    with 2 show ?thesis by (simp add: u8put_def drop_bit_eq_div u8_bits)
  next
    case 3
    then have "c div 4096 < 16" by simp
    with 3 show ?thesis by (simp add: u8put_def drop_bit_eq_div u8_bits)
  next
    case 4
    with assms have "c div 262144 < 8" by simp
    with 4 show ?thesis by (simp add: u8put_def drop_bit_eq_div u8_bits)
  qed (simp add: u8put_def u8_bits)
  then show ?thesis using that by blast
qed

lemma u8n_u8enc: "\<forall>c \<in> set cs. c < 0x200000 \<Longrightarrow> u8n (u8enc cs) = length cs"
proof (induction cs)
  case (Cons c cs)
  then have "c < 0x200000" by simp
  then obtain x xs where "u8put c = x # xs" "\<not> u8cont x" "\<forall>y \<in> set xs. u8cont y" by (rule u8put_shape)
  with Cons show ?case by (simp add: u8n_def)
qed (simp add: u8n_def)

lemma u8skip_app: "\<forall>y \<in> set xs. u8cont y \<Longrightarrow> u8skip (xs @ t) = length xs + u8skip t"
  by (induction xs) auto

lemma u8skip_u8enc: "\<forall>c \<in> set cs. c < 0x200000 \<Longrightarrow> u8skip (u8enc cs) = 0"
  by (cases cs) (auto elim: u8put_shape)

lemma u8off_u8enc:
  "\<forall>c \<in> set cs. c < 0x200000 \<Longrightarrow> u8off (u8enc cs) k = length (u8enc (take k cs))"
proof (induction cs arbitrary: k)
  case (Cons c cs)
  show ?case
  proof (cases k)
    case (Suc k')
    from Cons.prems have "c < 0x200000" by simp
    then obtain x xs where "u8put c = x # xs" "\<not> u8cont x" "\<forall>y \<in> set xs. u8cont y" by (rule u8put_shape)
    with Cons Suc show ?thesis by (simp add: u8skip_app u8skip_u8enc)
  qed simp
next
  case Nil
  show ?case by (cases k) simp_all
qed

lemma u8put_high: "c < 0x200000 \<Longrightarrow> length (u8put c) = 1 \<longleftrightarrow> c < 0x80"
  by (simp add: u8put_def)

lemma u8cased_u8enc:
  "\<forall>c \<in> set cs. c < 0x200000 \<Longrightarrow> u8cased (u8enc cs) up False = u8enc (map (\<lambda>c. u8case c up) cs)"
proof (induction cs)
  case Nil
  then show ?case by (simp add: u8cased.simps)
next
  case (Cons c cs)
  then have c: "c < 0x200000" by simp
  then obtain x xs where x: "u8put c = x # xs" by (rule u8put_shape)
  from c have d: "u8dec (u8put c @ u8enc cs) (length (u8put c @ u8enc cs)) = (length (u8put c), c)"
    by (intro u8dec_u8put) auto
  have "\<not> (length (u8put c) = 1 \<and> byte (at (u8put c @ u8enc cs) 0) \<ge> 0x80)"
    using u8put_high [OF c] by (auto simp: u8put_def)
  with d x Cons show ?case by (subst u8cased.simps) (auto simp: Let_def)
qed

subsection \<open>Display width and cursor steps\<close>

text \<open>The width table: ranges with their width, sorted and disjoint.\<close>

record rngw =
  wlo :: nat
  whi :: nat
  ww :: nat

function u8wloop :: "rngw list \<Rightarrow> nat \<Rightarrow> nat \<Rightarrow> nat \<Rightarrow> nat" where
  "u8wloop tab c lo hi =
    (if lo < hi then
       (let mid = (lo + hi) div 2; r = tab ! mid in
        if c < wlo r then u8wloop tab c lo mid
        else if c > whi r then u8wloop tab c (mid + 1) hi
        else ww r)
     else 1)"
  by pat_completeness auto
termination
  by (relation "measure (\<lambda>(tab, c, lo, hi). hi - lo)") auto

declare u8wloop.simps [simp del]

definition u8w :: "rngw list \<Rightarrow> nat \<Rightarrow> nat" where
  "u8w tab c =
    (if c < 32 \<or> c \<ge> 0x7F \<and> c < 0xA0 then 0
     else if c < 0x300 then 1
     else u8wloop tab c 0 (length tab))"

definition wtab_ok :: "rngw list \<Rightarrow> bool" where
  "wtab_ok tab \<longleftrightarrow>
    (\<forall>r \<in> set tab. wlo r \<le> whi r) \<and> sorted_wrt (\<lambda>r q. whi r < wlo q) tab"

text \<open>What the table means: the width of the range that holds the character, 1 when none does.\<close>

definition wlookup :: "rngw list \<Rightarrow> nat \<Rightarrow> nat" where
  "wlookup tab c = (case find (\<lambda>r. wlo r \<le> c \<and> c \<le> whi r) tab of Some r \<Rightarrow> ww r | None \<Rightarrow> 1)"

lemma wlookup_hit:
  assumes "wtab_ok tab" "i < length tab" "wlo (tab ! i) \<le> c" "c \<le> whi (tab ! i)"
  shows "wlookup tab c = ww (tab ! i)"
proof -
  have "\<not> (wlo (tab ! j) \<le> c \<and> c \<le> whi (tab ! j))" if "j < i" for j
    using assms that by (fastforce simp: wtab_ok_def sorted_wrt_iff_nth_less)
  then have "find (\<lambda>r. wlo r \<le> c \<and> c \<le> whi r) tab = Some (tab ! i)"
    using assms by (auto simp: find_Some_iff)
  then show ?thesis by (simp add: wlookup_def)
qed

lemma wlookup_miss:
  assumes "\<And>j. j < length tab \<Longrightarrow> c < wlo (tab ! j) \<or> whi (tab ! j) < c"
  shows "wlookup tab c = 1"
proof -
  from assms have "find (\<lambda>r. wlo r \<le> c \<and> c \<le> whi r) tab = None"
    by (force simp: find_None_iff in_set_conv_nth)
  then show ?thesis by (simp add: wlookup_def)
qed

lemma wtab_sep:
  assumes "wtab_ok tab" and "i < j" and "j < length tab"
  shows "whi (tab ! i) < wlo (tab ! j)" and "wlo (tab ! i) < wlo (tab ! j)" and "whi (tab ! i) < whi (tab ! j)"
proof -
  from assms have "wlo (tab ! i) \<le> whi (tab ! i)" "wlo (tab ! j) \<le> whi (tab ! j)"
    by (auto simp: wtab_ok_def)
  moreover from assms show "whi (tab ! i) < wlo (tab ! j)"
    by (auto simp: wtab_ok_def sorted_wrt_iff_nth_less)
  ultimately show "wlo (tab ! i) < wlo (tab ! j)" "whi (tab ! i) < whi (tab ! j)" by auto
qed

lemma u8wloop_lookup:
  assumes ok: "wtab_ok tab"
    and "hi \<le> length tab"
    and "\<And>j. j < lo \<Longrightarrow> j < length tab \<Longrightarrow> whi (tab ! j) < c"
    and "\<And>j. hi \<le> j \<Longrightarrow> j < length tab \<Longrightarrow> c < wlo (tab ! j)"
  shows "u8wloop tab c lo hi = wlookup tab c"
  using assms(2-)
proof (induction "hi - lo" arbitrary: lo hi rule: less_induct)
  case less
  show ?case
  proof (cases "lo < hi")
    case False
    then have "c < wlo (tab ! j) \<or> whi (tab ! j) < c" if "j < length tab" for j
      using that less.prems(2) [of j] less.prems(3) [of j] by linarith
    with False show ?thesis by (simp add: u8wloop.simps [of tab c lo hi] wlookup_miss)
  next
    case True
    let ?m = "(lo + hi) div 2"
    have m: "lo \<le> ?m" "?m < hi" "?m < length tab" using True less.prems(1) by linarith+
    consider "c < wlo (tab ! ?m)" | "\<not> c < wlo (tab ! ?m)" "whi (tab ! ?m) < c"
      | "wlo (tab ! ?m) \<le> c" "c \<le> whi (tab ! ?m)" by linarith
    then show ?thesis
    proof cases
      case 1
      then have "c < wlo (tab ! j)" if "?m \<le> j" "j < length tab" for j
        using that wtab_sep(2) [OF ok, of ?m j] by (cases "j = ?m") auto
      with less.hyps [of ?m lo] less.prems m 1 True show ?thesis
        by (simp add: u8wloop.simps [of tab c lo hi] Let_def)
    next
      case 2
      then have "whi (tab ! j) < c" if "j < ?m + 1" "j < length tab" for j
        using that wtab_sep(3) [OF ok, of j ?m] m by (cases "j = ?m") auto
      with less.hyps [of hi "?m + 1"] less.prems m 2 True show ?thesis
        by (simp add: u8wloop.simps [of tab c lo hi] Let_def)
    next
      case 3
      with wlookup_hit [OF ok m(3)] True show ?thesis
        by (simp add: u8wloop.simps [of tab c lo hi] Let_def)
    qed
  qed
qed

lemma u8w_lookup:
  "wtab_ok tab \<Longrightarrow> u8w tab c = (if c < 32 \<or> c \<ge> 0x7F \<and> c < 0xA0 then 0 else if c < 0x300 then 1 else wlookup tab c)"
  by (simp add: u8w_def u8wloop_lookup)

text \<open>Back over the continuation bytes, then one character at a time past zero-width ones.\<close>

fun u8back :: "string \<Rightarrow> nat \<Rightarrow> nat" where
  "u8back b 0 = 0"
| "u8back b (Suc q) = (if u8cont (at b (Suc q)) then u8back b q else Suc q)"

lemma u8back_le: "u8back b q \<le> q"
  by (induction q) auto

function u8prev :: "rngw list \<Rightarrow> string \<Rightarrow> nat \<Rightarrow> nat" where
  "u8prev tab b pos =
    (if pos = 0 then 0
     else let q = u8back b (pos - 1); cp = snd (u8dec (drop q b) (pos - q))
          in if u8w tab cp \<noteq> 0 then q else u8prev tab b q)"
  by pat_completeness auto
termination
proof (relation "measure (\<lambda>(tab, b, pos). pos)")
  fix tab b pos x
  assume "pos \<noteq> 0" "x = u8back b (pos - 1)"
  with u8back_le [of b "pos - 1"] show "((tab, b, x), tab, b, pos) \<in> measure (\<lambda>(tab, b, pos). pos)"
    by simp
qed simp

declare u8prev.simps [simp del]

function u8fwd :: "rngw list \<Rightarrow> string \<Rightarrow> nat \<Rightarrow> nat" where
  "u8fwd tab b pos =
    (if pos < length b then
       (let (l, cp) = u8dec (drop pos b) (length b - pos)
        in if u8w tab cp \<noteq> 0 then pos else u8fwd tab b (pos + l))
     else pos)"
  by pat_completeness auto
termination
proof (relation "measure (\<lambda>(tab, b, pos). length b - pos)")
  fix tab b pos and x :: "nat \<times> nat" and l cp
  assume "pos < length b" "x = u8dec (drop pos b) (length b - pos)" "(l, cp) = x"
  with u8dec_pos [of "drop pos b" "length b - pos" l cp]
  show "((tab, b, pos + l), tab, b, pos) \<in> measure (\<lambda>(tab, b, pos). length b - pos)" by auto
qed simp

declare u8fwd.simps [simp del]

definition u8next :: "rngw list \<Rightarrow> string \<Rightarrow> nat \<Rightarrow> nat" where
  "u8next tab b pos =
    (if pos \<ge> length b then length b
     else u8fwd tab b (pos + fst (u8dec (drop pos b) (length b - pos))))"

abbreviation (input) scalars :: "nat list \<Rightarrow> bool" where
  "scalars cs \<equiv> \<forall>c \<in> set cs. c < 0x200000"

lemma u8back_to:
  "i \<le> q \<Longrightarrow> \<not> u8cont (at b i) \<Longrightarrow> (\<And>j. i < j \<Longrightarrow> j \<le> q \<Longrightarrow> u8cont (at b j)) \<Longrightarrow> u8back b q = i"
  by (induction q) (auto simp: le_Suc_eq)

lemma u8dec_at:
  assumes "c < 0x200000"
  shows "u8dec (drop (length (u8enc as)) (u8enc (as @ c # ds))) (length (u8enc (as @ c # ds)) - length (u8enc as))
      = (length (u8put c), c)"
  using u8dec_u8put [OF assms, of "length (u8enc (c # ds))" "u8enc ds"] by simp

lemma u8put_ne: "u8put c \<noteq> []"
  by (simp add: u8put_def)

lemma u8fwd_u8enc:
  assumes "scalars zs" "scalars ds" "\<forall>z \<in> set zs. u8w tab z = 0" "ds \<noteq> [] \<Longrightarrow> u8w tab (hd ds) \<noteq> 0"
  shows "u8fwd tab (u8enc (as @ zs @ ds)) (length (u8enc as)) = length (u8enc (as @ zs))"
  using assms
proof (induction zs arbitrary: as)
  case Nil
  show ?case
  proof (cases ds)
    case (Cons d ds')
    with u8dec_at [of d as ds'] Nil u8put_ne [of d] show ?thesis by (subst u8fwd.simps) simp
  qed (simp add: u8fwd.simps)
next
  case (Cons z zs)
  from Cons.IH [of "as @ [z]"] Cons.prems have
    "u8fwd tab (u8enc (as @ z # zs @ ds)) (length (u8enc (as @ [z]))) = length (u8enc (as @ z # zs))" by simp
  with u8dec_at [of z as "zs @ ds"] Cons.prems u8put_ne [of z] show ?case
    by (subst u8fwd.simps) simp
qed

lemma u8next_u8enc:
  assumes "scalars (c # zs @ ds)" "\<forall>z \<in> set zs. u8w tab z = 0" "ds \<noteq> [] \<Longrightarrow> u8w tab (hd ds) \<noteq> 0"
  shows "u8next tab (u8enc (as @ c # zs @ ds)) (length (u8enc as)) = length (u8enc (as @ c # zs))"
  using u8fwd_u8enc [of zs ds tab "as @ [c]"] u8dec_at [of c as "zs @ ds"] assms u8put_ne [of c]
  by (simp add: u8next_def)

lemma u8prev_step:
  assumes "c < 0x200000"
  shows "u8prev tab (u8enc (as @ c # ds)) (length (u8enc (as @ [c]))) =
    (if u8w tab c \<noteq> 0 then length (u8enc as) else u8prev tab (u8enc (as @ c # ds)) (length (u8enc as)))"
proof -
  obtain x xs where x: "u8put c = x # xs" "\<not> u8cont x" "\<forall>y \<in> set xs. u8cont y"
    using u8put_shape [OF assms] .
  let ?b = "u8enc (as @ c # ds)" and ?n = "length (u8enc as)"
  have "u8back ?b (?n + length xs) = ?n"
    using x by (intro u8back_to) (auto simp: at_def nth_append)
  moreover have "u8dec (drop ?n ?b) (Suc (length xs)) = (length (u8put c), c)"
    using u8dec_u8put [OF assms, of "length (u8put c)" "u8enc ds"] x by simp
  ultimately show ?thesis using x by (subst u8prev.simps) simp
qed

lemma u8prev_u8enc:
  assumes "scalars (c # zs)" "\<forall>z \<in> set zs. u8w tab z = 0" "u8w tab c \<noteq> 0"
  shows "u8prev tab (u8enc (as @ c # zs @ ds)) (length (u8enc (as @ c # zs))) = length (u8enc as)"
  using assms
proof (induction zs arbitrary: ds rule: rev_induct)
  case Nil
  then show ?case using u8prev_step [of c tab as ds] by simp
next
  case (snoc z zs)
  then show ?case using u8prev_step [of z tab "as @ c # zs" ds] snoc.IH [of "z # ds"] by simp
qed

subsection \<open>Prompt layout\<close>

text \<open>Skip a string escape to its BEL or ESC backslash; the cursor is past the introducer.\<close>

fun ed_str :: "string \<Rightarrow> string" where
  "ed_str [] = []"
| "ed_str (c # p) =
     (if c = CHR 0x07 then p
      else if c = CHR 0x1B \<and> at p 0 = BS then drop 1 p
      else ed_str p)"

definition ed_esc :: "string \<Rightarrow> string" where
  "ed_esc p0 =
    (let p = drop 1 p0 in
     if at p 0 = CHR ''['' then drop 1 (dropWhile (\<lambda>c. \<not> (64 \<le> byte c \<and> byte c \<le> 126)) (drop 1 p))
     else if at p 0 \<in> {CHR '']'', CHR ''P'', CHR ''_'', CHR 0x5E, CHR ''X''} then ed_str (drop 1 p)
     else drop 1 p)"

lemma ed_str_len: "length (ed_str p) \<le> length p"
  by (induction p rule: ed_str.induct) auto

lemma ed_esc_len: "p \<noteq> [] \<Longrightarrow> length (ed_esc p) < length p"
  using length_dropWhile_le [of "\<lambda>c. \<not> (64 \<le> byte c \<and> byte c \<le> 126)" "drop 1 (drop 1 p)"]
    ed_str_len [of "drop 1 (drop 1 p)"]
  by (cases p) (auto simp: ed_esc_def Let_def)

function ed_width :: "rngw list \<Rightarrow> string \<Rightarrow> nat" where
  "ed_width tab p =
    (if p = [] then 0
     else if at p 0 = CHR 0x1B then ed_width tab (ed_esc p)
     else let (l, cp) = u8dec p (length p) in u8w tab cp + ed_width tab (drop l p))"
  by pat_completeness auto
termination
  by (relation "measure (\<lambda>(tab, p). length p)") (auto simp: ed_esc_len dest!: u8dec_pos [OF sym])

declare ed_width.simps [simp del]

text \<open>Where a character of width \<open>w\<close> goes: the row and column it starts at.\<close>

definition ed_cell :: "nat \<Rightarrow> nat \<Rightarrow> nat \<times> nat \<Rightarrow> nat \<times> nat" where
  "ed_cell cols w rc = (if snd rc + w > cols then (Suc (fst rc), 0) else rc)"

function ed_posp :: "rngw list \<Rightarrow> nat \<Rightarrow> string \<Rightarrow> nat \<times> nat \<Rightarrow> nat \<times> nat" where
  "ed_posp tab cols p rc =
    (if p = [] then rc
     else if at p 0 = CHR 0x1B then ed_posp tab cols (ed_esc p) rc
     else if at p 0 = CHR 0x0A then ed_posp tab cols (drop 1 p) (Suc (fst rc), 0)
     else let (l, cp) = u8dec p (length p); w = u8w tab cp; rc' = ed_cell cols w rc
          in ed_posp tab cols (drop l p) (fst rc', snd rc' + w))"
  by pat_completeness auto
termination
  by (relation "measure (\<lambda>(tab, cols, p, rc). length p)") (auto simp: ed_esc_len dest!: u8dec_pos [OF sym])

declare ed_posp.simps [simp del]

text \<open>The buffer's loop: the running cell and the cursor's.\<close>

function ed_posb :: "rngw list \<Rightarrow> nat \<Rightarrow> string \<Rightarrow> nat \<Rightarrow> nat \<Rightarrow> nat \<times> nat \<Rightarrow> nat \<times> nat \<Rightarrow> (nat \<times> nat) \<times> (nat \<times> nat)" where
  "ed_posb tab cols b pos i rc cur =
    (if i < length b then
       (let (l, cp) = u8dec (drop i b) (length b - i); w = u8w tab cp; rc' = ed_cell cols w rc
        in ed_posb tab cols b pos (i + l) (fst rc', snd rc' + w) (if i = pos then rc' else cur))
     else (rc, cur))"
  by pat_completeness auto
termination
proof (relation "measure (\<lambda>(tab, cols, b, pos, i, rc, cur). length b - i)", goal_cases)
  case (2 tab cols b pos i rc cur x l cp)
  then show ?case using u8dec_pos [of "drop i b" "length b - i" l cp] by auto
qed simp

declare ed_posb.simps [simp del]

text \<open>\<open>ed_pos\<close>: the rows, the cursor's row and column, the column after the text.\<close>

definition ed_pos :: "rngw list \<Rightarrow> string \<Rightarrow> string \<Rightarrow> nat \<Rightarrow> nat \<Rightarrow> nat \<times> nat \<times> nat \<times> nat" where
  "ed_pos tab ps b pos cols =
    (let rc = ed_posp tab cols ps (0, 0);
         (e, c) = ed_posb tab cols b pos 0 rc rc;
         c' = (if pos \<ge> length b then e else c)
     in (Suc (fst e), fst c', snd c', snd e))"

lemma ed_width_ascii: "32 \<le> byte c \<Longrightarrow> byte c < 127 \<Longrightarrow> ed_width tab (c # p) = Suc (ed_width tab p)"
  by (subst ed_width.simps) (auto simp: u8dec_ascii u8w_def Let_def)

lemma ed_width_csi:
  assumes "\<forall>c \<in> set s. \<not> (64 \<le> byte c \<and> byte c \<le> 126)" and "64 \<le> byte f" "byte f \<le> 126"
  shows "ed_width tab ([CHR 0x1B, CHR ''['' ] @ s @ f # p) = ed_width tab p"
  using assms by (subst ed_width.simps) (simp add: ed_esc_def dropWhile_all)

lemma ed_width_osc:
  assumes "CHR 0x07 \<notin> set s" "CHR 0x1B \<notin> set s"
  shows "ed_width tab ([CHR 0x1B, CHR '']''] @ s @ CHR 0x07 # p) = ed_width tab p"
proof -
  have "ed_str (s @ CHR 0x07 # p) = p" using assms by (induction s) auto
  then show ?thesis by (subst ed_width.simps) (simp add: ed_esc_def)
qed

lemma ed_cell_le: "w \<le> cols \<Longrightarrow> snd rc \<le> cols \<Longrightarrow> snd (ed_cell cols w rc) + w \<le> cols"
  by (simp add: ed_cell_def)

lemma ed_posp_col:
  "(\<And>c. u8w tab c \<le> cols) \<Longrightarrow> snd rc \<le> cols \<Longrightarrow> snd (ed_posp tab cols p rc) \<le> cols"
proof (induction tab cols p rc rule: ed_posp.induct)
  case (1 tab cols p rc)
  then show ?case
    by (subst ed_posp.simps) (auto simp: Let_def ed_cell_le split: prod.split)
qed

lemma ed_posb_col:
  "(\<And>c. u8w tab c \<le> cols) \<Longrightarrow> snd rc \<le> cols \<Longrightarrow> snd cur \<le> cols \<Longrightarrow>
    snd (fst (ed_posb tab cols b pos i rc cur)) \<le> cols \<and> snd (snd (ed_posb tab cols b pos i rc cur)) \<le> cols"
proof (induction tab cols b pos i rc cur rule: ed_posb.induct)
  case (1 tab cols b pos i rc cur)
  have "snd (ed_cell cols w rc) \<le> cols" if "w \<le> cols" for w
    using that 1(3) by (simp add: ed_cell_def)
  with 1 show ?case
    by (subst (1 2) ed_posb.simps) (auto simp: Let_def ed_cell_le split: prod.split)
qed

subsection \<open>Properties\<close>

text \<open>C24: decoding reads back every character the encoder writes, whatever text follows it,
  and consumes exactly the bytes written.\<close>

theorem utf8_roundtrip:
  assumes "c < 0x200000" and "length (u8put c) \<le> n"
  shows "u8dec (u8put c @ rest) n = (length (u8put c), c)"
  using assms by (rule u8dec_u8put)

theorem utf8_roundtrip_witness: "u8dec (u8put 0x20AC @ ''x'') 4 = (3, 0x20AC)"
  using utf8_roundtrip [of "0x20AC" 4 "''x''"] by (simp add: u8put_def)

text \<open>Decoding never reads past the NUL, always consumes a byte, and never more than it was
  told there are.\<close>

theorem utf8_decode_bounds:
  assumes "p \<noteq> []" and "0 < n"
  shows "1 \<le> fst (u8dec p n) \<and> fst (u8dec p n) \<le> n \<and> fst (u8dec p n) \<le> length p"
  using u8dec_len(1,2) [of p n] u8dec_len(3) [of n p] u8dec_inside [OF assms(1), of n] assms(2) by simp

theorem utf8_decode_bounds_witness: "fst (u8dec [CHR 0xE2, CHR 0x82] 9) \<le> 2"
  using utf8_decode_bounds [of "[CHR 0xE2, CHR 0x82]" 9] by simp

text \<open>On encoded text the character count and the offset of the kth character, which
  \<open>${#s}\<close> and \<open>${s:k:n}\<close> rest on, are those of the list of characters.\<close>

theorem utf8_slices:
  assumes "\<forall>c \<in> set cs. c < 0x200000"
  shows "u8n (u8enc cs) = length cs \<and> take (u8off (u8enc cs) k) (u8enc cs) = u8enc (take k cs) \<and>
    drop (u8off (u8enc cs) k) (u8enc cs) = u8enc (drop k cs)"
proof -
  have "u8enc cs = u8enc (take k cs) @ u8enc (drop k cs)" by (simp flip: u8enc_simps(3))
  with u8n_u8enc [OF assms] u8off_u8enc [OF assms, of k] show ?thesis by auto
qed

theorem utf8_slices_witness: "u8n (u8enc [0x61, 0x20AC, 0x62]) = 3"
  using utf8_slices [of "[0x61, 0x20AC, 0x62]" 2] by simp

lemma u8case_less_if:
  "(P \<Longrightarrow> x < n) \<Longrightarrow> (\<not> P \<Longrightarrow> y < n) \<Longrightarrow> (if P then x else y) < (n::nat)"
  by simp

lemma u8case_small: "c < 0x600 \<Longrightarrow> u8case c True < 0x1000" "c < 0x600 \<Longrightarrow> u8case c False < 0x1000"
  unfolding u8case_def toupper_def tolower_def Let_def if_True if_False One_nat_def or_1
  by ((intro u8case_less_if; linarith), (intro u8case_less_if; linarith))

lemma u8case_bound:
  assumes "c < 0x200000"
  shows "u8case c up < 0x200000"
proof (cases "c < 0x600")
  case True
  then show ?thesis using u8case_small [of c] by (cases up) auto
next
  case False
  then have "u8case c up = c" by (simp add: u8case_def Let_def)
  with assms show ?thesis by simp
qed

text \<open>Changing the case of an encoded text changes each character, and doing it a second
  time changes nothing.\<close>

theorem utf8_case:
  assumes "\<forall>c \<in> set cs. c < 0x200000"
  shows "u8cased (u8enc cs) up False = u8enc (map (\<lambda>c. u8case c up) cs) \<and>
    u8cased (u8cased (u8enc cs) up False) up False = u8cased (u8enc cs) up False"
proof -
  from assms have "\<forall>c \<in> set (map (\<lambda>c. u8case c up) cs). c < 0x200000" by (auto simp: u8case_bound)
  from u8cased_u8enc [OF this, of up] u8cased_u8enc [OF assms, of up] show ?thesis
    by (simp add: u8case_idem comp_def)
qed

theorem utf8_case_witness: "u8cased (u8enc [0x61, 0xE9]) True False = u8enc [0x41, 0xC9]"
  using utf8_case [of "[0x61, 0xE9]" True] by (simp add: u8case_def toupper_def)

text \<open>The binary search for a character's width finds what the table of ranges says.\<close>

theorem width_search:
  assumes "wtab_ok tab" and "0x300 \<le> c"
  shows "u8w tab c = wlookup tab c"
  using u8w_lookup [OF assms(1), of c] assms(2) by simp

theorem width_search_witness:
  "u8w [\<lparr>wlo = 0x300, whi = 0x36F, ww = 0\<rparr>, \<lparr>wlo = 0x1100, whi = 0x115F, ww = 2\<rparr>] 0x1101 = 2"
  using width_search [of "[\<lparr>wlo = 0x300, whi = 0x36F, ww = 0\<rparr>, \<lparr>wlo = 0x1100, whi = 0x115F, ww = 2\<rparr>]" "0x1101"]
  by (simp add: wtab_ok_def wlookup_def)

text \<open>The cursor steps over a character and the zero-width marks after it as one, and the
  step back undoes the step forward.\<close>

theorem cursor_steps:
  assumes "\<forall>c \<in> set (c # zs @ ds). c < 0x200000" and "u8w tab c \<noteq> 0" and "\<forall>z \<in> set zs. u8w tab z = 0"
    and "ds = [] \<or> u8w tab (hd ds) \<noteq> 0"
  shows "u8next tab (u8enc (as @ c # zs @ ds)) (length (u8enc as)) = length (u8enc (as @ c # zs)) \<and>
    u8prev tab (u8enc (as @ c # zs @ ds)) (length (u8enc (as @ c # zs))) = length (u8enc as)"
  using u8next_u8enc [of c zs ds tab as] u8prev_u8enc [of c zs tab as ds] assms by (cases ds) simp_all

theorem cursor_steps_witness:
  "u8prev [\<lparr>wlo = 0x300, whi = 0x36F, ww = 0\<rparr>] (u8enc [0x61, 0x65, 0x301, 0x7A]) (Suc (Suc (Suc (Suc 0)))) = 1"
proof -
  let ?t = "[\<lparr>wlo = 0x300, whi = 0x36F, ww = 0\<rparr>]"
  have "wtab_ok ?t" by (simp add: wtab_ok_def)
  then have w: "u8w ?t 0x65 = 1" "u8w ?t 0x301 = 0" "u8w ?t 0x7A = 1"
    by (simp_all add: u8w_lookup wlookup_def)
  from cursor_steps [of "0x65" "[0x301]" "[0x7A]" ?t "[0x61]"] w show ?thesis
    by (simp add: u8put_def)
qed

text \<open>When no character is wider than the terminal, the prompt and buffer are laid out
  without the cursor or the text ever passing the last column.\<close>

theorem layout_columns:
  assumes "\<And>c. u8w tab c \<le> cols"
  shows "case ed_pos tab ps b pos cols of (rows, crow, ccol, ecol) \<Rightarrow> ccol \<le> cols \<and> ecol \<le> cols"
proof -
  have p: "snd (ed_posp tab cols ps (0, 0)) \<le> cols" using assms by (simp add: ed_posp_col)
  from ed_posb_col [OF assms p p, of b pos 0] show ?thesis
    by (auto simp: ed_pos_def Let_def split: prod.splits)
qed

theorem layout_columns_witness: "snd (snd (snd (ed_pos [] ''$ '' ''abc'' 1 2))) \<le> 2"
proof -
  have "u8w [] c \<le> 2" for c by (simp add: u8w_def u8wloop.simps)
  from layout_columns [OF this, of "''$ ''" "''abc''" 1] show ?thesis
    by (auto split: prod.splits)
qed

text \<open>Two places where the code does not do what its comment says: the signs U+0482 to U+0489
  have no case but are mapped as pairs, and an overlong encoding is not passed through.\<close>

lemma u8case_titlo: "u8case 0x482 False = 0x483" "u8case 0x483 True = 0x482"
  by (simp_all add: u8case_def or_1)

lemma u8cased_overlong: "u8cased [CHR 0xC1, CHR 0x81] True False = ''A''"
  by (simp add: u8cased.simps u8dec_def Let_def u8len_def u8more_unroll u8cont_def u8case_def
    u8put_def toupper_def flip: byte_eq_iff)

end
