(* ===== verification/MapChain.thy ===== *)
theory MapChain
  imports Mem
begin

text \<open>
  The maps of src/var.c: a chain of entries in insertion order whose first entry keeps the tail
  and, from 16 entries on, an open-addressing hash index with tombstones. A pointer to an entry
  of a chain is the entry's key (the invariant makes keys distinct), \<open>Chain [] None None\<close> is the
  null pointer, and an entry changed through a pointer is changed in its place in the list.
\<close>

subsection \<open>Data\<close>

datatype slot = Free | Gone | Ptr string

record mix =
  xcap :: nat
  xn :: nat
  xdead :: nat
  xslots :: "slot list"

datatype ent = Ent (ekey: string) (estr: "string option") (emap: chain) (en: nat) (ety: nat)
  and chain = Chain (ents: "ent list") (ctl: "string option") (cix: "mix option")

abbreviation nullmap :: chain where
  "nullmap \<equiv> Chain [] None None"

text \<open>A fresh entry: all zero but its key.\<close>

definition ent0 :: "string \<Rightarrow> ent" where
  "ent0 k = Ent k None nullmap 0 0"

text \<open>FNV-1a on 32 bits.\<close>

definition vh :: "string \<Rightarrow> 32 word" where
  "vh k = fold (\<lambda>c h. (h XOR of_nat (byte c)) * 16777619) k 2166136261"

abbreviation (input) MPHASH :: nat where "MPHASH \<equiv> 16"

subsection \<open>The index\<close>

definition mp_ixnew :: "nat \<Rightarrow> mix" where
  "mp_ixnew n =
    (let cap = dbl 32 (n + n div 2) in \<lparr>xcap = cap, xn = 0, xdead = 0, xslots = replicate cap Free\<rparr>)"

definition ixhash :: "mix \<Rightarrow> string \<Rightarrow> nat" where
  "ixhash x k = unat (vh k) AND (xcap x - 1)"

definition ixnext :: "mix \<Rightarrow> nat \<Rightarrow> nat" where
  "ixnext x i = (i + 1) AND (xcap x - 1)"

text \<open>
  The probe of \<open>mp_ixput\<close>: the first slot that is free, a tombstone or the key's own. It has no
  bound of its own; \<open>None\<close> is a probe that has seen every slot and would go round for ever.
\<close>

fun ixput_scan :: "mix \<Rightarrow> string \<Rightarrow> nat \<Rightarrow> nat \<Rightarrow> nat option" where
  "ixput_scan x k 0 i = None"
| "ixput_scan x k (Suc f) i =
     (case xslots x ! i of
        Ptr k' \<Rightarrow> if k' = k then Some i else ixput_scan x k f (ixnext x i)
      | _ \<Rightarrow> Some i)"

definition mp_ixput :: "mix \<Rightarrow> string \<Rightarrow> mix" where
  "mp_ixput x k =
    (case ixput_scan x k (xcap x) (ixhash x k) of
       None \<Rightarrow> x
     | Some i \<Rightarrow>
         (case xslots x ! i of
            Ptr k' \<Rightarrow> x\<lparr>xslots := (xslots x)[i := Ptr k]\<rparr>
          | Gone \<Rightarrow> x\<lparr>xdead := xdead x - 1, xslots := (xslots x)[i := Ptr k], xn := xn x + 1\<rparr>
          | Free \<Rightarrow> x\<lparr>xslots := (xslots x)[i := Ptr k], xn := xn x + 1\<rparr>))"

definition mp_ixbuild :: "string list \<Rightarrow> nat \<Rightarrow> mix" where
  "mp_ixbuild ks n = foldl mp_ixput (mp_ixnew n) ks"

fun ixfind_loop :: "mix \<Rightarrow> string \<Rightarrow> nat \<Rightarrow> nat \<Rightarrow> string option" where
  "ixfind_loop x k 0 i = None"
| "ixfind_loop x k (Suc f) i =
     (case xslots x ! i of
        Free \<Rightarrow> None
      | Gone \<Rightarrow> ixfind_loop x k f (ixnext x i)
      | Ptr k' \<Rightarrow> if k' = k then Some k' else ixfind_loop x k f (ixnext x i))"

definition mp_ixfind :: "mix \<Rightarrow> string \<Rightarrow> string option" where
  "mp_ixfind x k = ixfind_loop x k (xcap x) (ixhash x k)"

fun ixdel_loop :: "mix \<Rightarrow> string \<Rightarrow> nat \<Rightarrow> nat \<Rightarrow> mix" where
  "ixdel_loop x k 0 i = x"
| "ixdel_loop x k (Suc f) i =
     (if xslots x ! i = Ptr k then
        x\<lparr>xslots := (xslots x)[i := Gone], xn := xn x - 1, xdead := xdead x + 1\<rparr>
      else if xslots x ! i = Free then x
      else ixdel_loop x k f (ixnext x i))"

definition mp_ixdel :: "mix option \<Rightarrow> string \<Rightarrow> mix option" where
  "mp_ixdel ox k = map_option (\<lambda>x. ixdel_loop x k (xcap x) (ixhash x k)) ox"

subsection \<open>Chains\<close>

definition keys :: "chain \<Rightarrow> string list" where
  "keys c = map ekey (ents c)"

text \<open>The entry a pointer names.\<close>

definition deref :: "chain \<Rightarrow> string \<Rightarrow> ent option" where
  "deref c k = find (\<lambda>e. ekey e = k) (ents c)"

definition mp_tail :: "chain \<Rightarrow> string option" where
  "mp_tail c = (if ents c = [] then None else case ctl c of Some t \<Rightarrow> Some t | None \<Rightarrow> Some (ekey (last (ents c))))"

definition mp_find :: "chain \<Rightarrow> string \<Rightarrow> ent option" where
  "mp_find c k =
    (case cix c of
       Some x \<Rightarrow> (case mp_ixfind x k of Some k' \<Rightarrow> deref c k' | None \<Rightarrow> None)
     | None \<Rightarrow> find (\<lambda>e. ekey e = k) (ents c))"

text \<open>\<open>t->nx = e\<close>: the entry after \<open>t\<close> becomes \<open>e\<close>, which has none after it.\<close>

fun link_after :: "ent list \<Rightarrow> string \<Rightarrow> ent \<Rightarrow> ent list" where
  "link_after [] t e = []"
| "link_after (x # xs) t e = (if ekey x = t then [x, e] else x # link_after xs t e)"

definition mp_add :: "chain \<times> nat \<Rightarrow> string \<Rightarrow> chain \<times> nat" where
  "mp_add cn k =
    (let (c, n) = cn in
     case mp_find c k of
       Some _ \<Rightarrow> (c, n)
     | None \<Rightarrow>
         let es = (case mp_tail c of None \<Rightarrow> [ent0 k] | Some t \<Rightarrow> link_after (ents c) t (ent0 k));
             n' = n + 1;
             ix = (case cix c of
                     Some x \<Rightarrow> Some (if (xn x + xdead x) * 4 \<ge> xcap x * 3 then mp_ixbuild (map ekey es) n'
                                     else mp_ixput x k)
                   | None \<Rightarrow> if n' \<ge> MPHASH then Some (mp_ixbuild (map ekey es) n') else None)
         in (Chain es (Some k) ix, n'))"

text \<open>The entry before the one named, when it is not the head.\<close>

fun prev_of :: "ent list \<Rightarrow> string \<Rightarrow> string option" where
  "prev_of (x # y # xs) k = (if ekey y = k then Some (ekey x) else prev_of (y # xs) k)"
| "prev_of _ k = None"

fun unlink :: "ent list \<Rightarrow> string \<Rightarrow> ent list" where
  "unlink [] k = []"
| "unlink (x # xs) k = (if ekey x = k then xs else x # unlink xs k)"

definition mp_del :: "chain \<times> nat \<Rightarrow> string \<Rightarrow> (chain \<times> nat) option" where
  "mp_del cn k =
    (let (c, n) = cn in
     case mp_find c k of
       None \<Rightarrow> None
     | Some e \<Rightarrow>
         let ix = mp_ixdel (cix c) k; es = unlink (ents c) k
         in if ekey (hd (ents c)) = k then
              (if es = [] then Some (nullmap, n - 1)
               else Some (Chain es (if ctl c = Some k then Some (ekey (hd es)) else ctl c) ix, n - 1))
            else Some (Chain es (if ctl c = Some k then prev_of (ents c) k else ctl c) ix, n - 1))"

text \<open>An entry changed in place.\<close>

definition ent_upd :: "chain \<Rightarrow> string \<Rightarrow> (ent \<Rightarrow> ent) \<Rightarrow> chain" where
  "ent_upd c k f = Chain (map (\<lambda>e. if ekey e = k then f e else e) (ents c)) (ctl c) (cix c)"

fun m_clone :: "chain \<Rightarrow> chain" and e_clone :: "ent \<Rightarrow> ent" where
  "m_clone (Chain es t x) =
    (let es' = map e_clone es in
     if es' = [] then nullmap
     else Chain es' (Some (ekey (last es')))
       (if length es' \<ge> MPHASH then Some (mp_ixbuild (map ekey es') (length es')) else None))"
| "e_clone (Ent k v m n t) = Ent k v (m_clone m) n t"

subsection \<open>Index invariant\<close>

text \<open>The slot the key's probe reaches after \<open>d\<close> steps.\<close>

definition pos :: "mix \<Rightarrow> string \<Rightarrow> nat \<Rightarrow> nat" where
  "pos x k d = (ixhash x k + d) mod xcap x"

text \<open>
  The index of the keys \<open>S\<close>: a power of two of slots, each key in exactly one of them and
  reached by its probe with no free slot before it, the counts right and a slot free.
\<close>

definition ix_shape :: "mix \<Rightarrow> bool" where
  "ix_shape x \<longleftrightarrow> (\<exists>j. xcap x = 2 ^ j) \<and> length (xslots x) = xcap x"

definition ix_ok :: "mix \<Rightarrow> string set \<Rightarrow> bool" where
  "ix_ok x S \<longleftrightarrow> ix_shape x \<and> finite S \<and>
    (\<forall>k. (\<exists>i < xcap x. xslots x ! i = Ptr k) \<longleftrightarrow> k \<in> S) \<and>
    (\<forall>i j k. i < xcap x \<longrightarrow> j < xcap x \<longrightarrow> xslots x ! i = Ptr k \<longrightarrow> xslots x ! j = Ptr k \<longrightarrow> i = j) \<and>
    (\<forall>k d. d < xcap x \<longrightarrow> xslots x ! pos x k d = Ptr k \<longrightarrow> (\<forall>d' < d. xslots x ! pos x k d' \<noteq> Free)) \<and>
    xn x = card S \<and> xdead x = length (filter (\<lambda>s. s = Gone) (xslots x)) \<and>
    xn x + xdead x < xcap x"

lemma ixhash_less: "ix_shape x \<Longrightarrow> ixhash x k < xcap x"
  by (auto simp: ix_shape_def ixhash_def and_pow2_minus1 [unfolded One_nat_def])

lemma ixnext_pos: "ix_shape x \<Longrightarrow> ixnext x (pos x k d) = pos x k (Suc d)"
  by (auto simp: ix_shape_def ixnext_def pos_def and_pow2_minus1 [unfolded One_nat_def] mod_Suc_eq)

lemma pos_0: "ix_shape x \<Longrightarrow> pos x k 0 = ixhash x k"
  using ixhash_less [of x k] by (simp add: pos_def)

lemma pos_less: "ix_shape x \<Longrightarrow> pos x k d < xcap x"
  by (auto simp: ix_shape_def pos_def)

text \<open>The probe sees every slot.\<close>

lemma pos_surj:
  assumes "ix_shape x" and "i < xcap x"
  obtains d where "d < xcap x" "pos x k d = i"
proof -
  let ?h = "ixhash x k" and ?c = "xcap x"
  have h: "?h < ?c" by (rule ixhash_less [OF assms(1)])
  show ?thesis
  proof (cases "?h \<le> i")
    case True
    then show ?thesis using that [of "i - ?h"] assms(2) by (simp add: pos_def)
  next
    case False
    then have "(?h + (?c + i - ?h)) mod ?c = i" using assms(2) h by simp
    moreover have "?c + i - ?h < ?c" using False h by linarith
    ultimately show ?thesis using that [of "?c + i - ?h"] by (simp add: pos_def)
  qed
qed

lemma add_mod_inj:
  fixes h :: nat
  assumes "(h + d) mod c = (h + d') mod c" and "d \<le> d'" and "d' < c"
  shows "d = d'"
proof -
  from assms have "c dvd (h + d') - (h + d)" by (metis add_le_cancel_left mod_eq_dvd_iff_nat)
  with assms show ?thesis by (auto dest: dvd_imp_le)
qed

lemma pos_inj:
  assumes "d < xcap x" "d' < xcap x" "pos x k d = pos x k d'"
  shows "d = d'"
  using assms add_mod_inj [of "ixhash x k" d "xcap x" d'] add_mod_inj [of "ixhash x k" d' "xcap x" d]
  unfolding pos_def by (cases "d \<le> d'") auto

text \<open>The three probes, from the slot after \<open>d\<close> steps.\<close>

lemma ixput_scan_some:
  assumes "ix_shape x"
  shows "ixput_scan x k f (pos x k d) = Some i \<Longrightarrow>
    \<exists>d'. d \<le> d' \<and> d' < d + f \<and> i = pos x k d' \<and> (\<forall>k'. xslots x ! i = Ptr k' \<longrightarrow> k' = k) \<and>
      (\<forall>j. d \<le> j \<and> j < d' \<longrightarrow> xslots x ! pos x k j \<noteq> Free)"
proof (induction f arbitrary: d)
  case (Suc f)
  show ?case
  proof (cases "\<exists>k'. xslots x ! pos x k d = Ptr k' \<and> k' \<noteq> k")
    case True
    with Suc.prems have "ixput_scan x k f (pos x k (Suc d)) = Some i"
      by (auto simp: ixnext_pos [OF assms])
    from Suc.IH [OF this] obtain d' where d': "Suc d \<le> d'" "d' < Suc d + f" "i = pos x k d'"
      "\<forall>k'. xslots x ! i = Ptr k' \<longrightarrow> k' = k" "\<forall>j. Suc d \<le> j \<and> j < d' \<longrightarrow> xslots x ! pos x k j \<noteq> Free"
      by blast
    have "xslots x ! pos x k j \<noteq> Free" if "d \<le> j" "j < d'" for j
      using d'(5) that True by (cases "j = d") auto
    with d' show ?thesis by (intro exI [of _ d']) auto
  next
    case False
    with Suc.prems show ?thesis
      by (intro exI [of _ d]) (auto split: slot.splits)
  qed
qed simp

lemma ixput_scan_ex:
  assumes "ix_shape x"
  shows "d \<le> d' \<Longrightarrow> d' < d + f \<Longrightarrow> xslots x ! pos x k d' = Free \<Longrightarrow> \<exists>i. ixput_scan x k f (pos x k d) = Some i"
proof (induction f arbitrary: d)
  case (Suc f)
  then show ?case
    by (cases "d = d'") (auto simp: ixnext_pos [OF assms] split: slot.split)
qed simp

lemma ixfind_loop_hit:
  assumes "ix_shape x"
  shows "d \<le> d' \<Longrightarrow> d' < d + f \<Longrightarrow> xslots x ! pos x k d' = Ptr k \<Longrightarrow>
    (\<And>j. d \<le> j \<Longrightarrow> j < d' \<Longrightarrow> xslots x ! pos x k j \<noteq> Free) \<Longrightarrow> ixfind_loop x k f (pos x k d) = Some k"
proof (induction f arbitrary: d)
  case (Suc f)
  show ?case
  proof (cases "d = d'")
    case False
    then have "d < d'" using Suc.prems(1) by simp
    moreover from this Suc.prems(4) [of d] have "xslots x ! pos x k d \<noteq> Free" by simp
    ultimately show ?thesis using Suc.IH [of "Suc d"] Suc.prems
      by (auto simp: ixnext_pos [OF assms] split: slot.split)
  qed (use Suc.prems in simp)
qed simp

lemma ixfind_loop_key:
  assumes "ix_shape x"
  shows "ixfind_loop x k f (pos x k d) = Some k' \<Longrightarrow> k' = k \<and> (\<exists>i < xcap x. xslots x ! i = Ptr k)"
proof (induction f arbitrary: d)
  case (Suc f)
  then show ?case using pos_less [OF assms, of k d]
    by (auto simp: ixnext_pos [OF assms] split: slot.splits if_splits)
qed simp

lemma ixdel_loop_hit:
  assumes "ix_shape x"
  shows "d \<le> d' \<Longrightarrow> d' < d + f \<Longrightarrow> xslots x ! pos x k d' = Ptr k \<Longrightarrow>
    (\<And>j. d \<le> j \<Longrightarrow> j < d' \<Longrightarrow> xslots x ! pos x k j \<noteq> Free \<and> xslots x ! pos x k j \<noteq> Ptr k) \<Longrightarrow>
    ixdel_loop x k f (pos x k d) =
      x\<lparr>xslots := (xslots x)[pos x k d' := Gone], xn := xn x - 1, xdead := xdead x + 1\<rparr>"
proof (induction f arbitrary: d)
  case (Suc f)
  show ?case
  proof (cases "d = d'")
    case False
    then have "d < d'" using Suc.prems(1) by simp
    moreover from this Suc.prems(4) [of d] have "xslots x ! pos x k d \<noteq> Free \<and> xslots x ! pos x k d \<noteq> Ptr k"
      by simp
    ultimately show ?thesis using Suc.IH [of "Suc d"] Suc.prems
      by (auto simp: ixnext_pos [OF assms])
  qed (use Suc.prems in simp)
qed simp

subsection \<open>What the index operations keep\<close>

lemma ix_okD:
  assumes "ix_ok x S"
  shows "ix_shape x" "finite S" "xn x = card S" "xn x + xdead x < xcap x"
    "xdead x = length (filter (\<lambda>s. s = Gone) (xslots x))" "length (xslots x) = xcap x"
    "\<And>i k. i < xcap x \<Longrightarrow> xslots x ! i = Ptr k \<Longrightarrow> k \<in> S"
    "\<And>i j k. i < xcap x \<Longrightarrow> j < xcap x \<Longrightarrow> xslots x ! i = Ptr k \<Longrightarrow> xslots x ! j = Ptr k \<Longrightarrow> i = j"
    "\<And>k d d'. d < xcap x \<Longrightarrow> xslots x ! pos x k d = Ptr k \<Longrightarrow> d' < d \<Longrightarrow> xslots x ! pos x k d' \<noteq> Free"
  using assms unfolding ix_ok_def ix_shape_def by blast+

lemma ix_ok_at:
  assumes "ix_ok x S" and "k \<in> S"
  obtains d where "d < xcap x" "xslots x ! pos x k d = Ptr k" "\<And>d'. d' < d \<Longrightarrow> xslots x ! pos x k d' \<noteq> Free"
    "\<And>d'. d' < d \<Longrightarrow> xslots x ! pos x k d' \<noteq> Ptr k"
proof -
  from assms obtain i where i: "i < xcap x" "xslots x ! i = Ptr k" unfolding ix_ok_def by blast
  obtain d where d: "d < xcap x" "pos x k d = i" by (rule pos_surj [OF ix_okD(1) [OF assms(1)] i(1)])
  have "xslots x ! pos x k d' \<noteq> Ptr k" if "d' < d" for d'
  proof
    assume "xslots x ! pos x k d' = Ptr k"
    with i d ix_okD(8) [OF assms(1)] pos_less [OF ix_okD(1) [OF assms(1)]] have "pos x k d' = pos x k d" by metis
    with pos_inj [of d' x d k] d that show False by simp
  qed
  with i d ix_okD(9) [OF assms(1)] show ?thesis by (intro that [of d]) auto
qed

lemma mp_ixfind_ok:
  assumes "ix_ok x S"
  shows "mp_ixfind x k = (if k \<in> S then Some k else None)"
proof (cases "k \<in> S")
  case True
  obtain d where "d < xcap x" "xslots x ! pos x k d = Ptr k" "\<And>d'. d' < d \<Longrightarrow> xslots x ! pos x k d' \<noteq> Free"
    by (rule ix_ok_at [OF assms True]) blast
  with ixfind_loop_hit [OF ix_okD(1) [OF assms], of 0 d "xcap x" k] True show ?thesis
    by (simp add: mp_ixfind_def pos_0 [OF ix_okD(1) [OF assms]])
next
  case False
  have "mp_ixfind x k \<noteq> Some k'" for k'
    using ixfind_loop_key [OF ix_okD(1) [OF assms], of k "xcap x" 0 k'] False ix_okD(7) [OF assms]
    by (auto simp: mp_ixfind_def pos_0 [OF ix_okD(1) [OF assms]])
  with False show ?thesis by (metis option.exhaust)
qed

lemma filter_update:
  assumes "i < length xs"
  shows "length (filter P (xs[i := y])) + of_bool (P (xs ! i)) = length (filter P xs) + of_bool (P y)"
  using assms
proof (induction xs arbitrary: i)
  case (Cons x xs)
  then show ?case using Cons.IH [of "i - 1"] by (cases i) auto
qed simp

text \<open>A slot that holds no key may take a new one whose probe reaches it, or a tombstone.\<close>

lemma pos_update [simp]: "pos (x\<lparr>xslots := t\<rparr>) k d = pos x k d" "pos (x\<lparr>xdead := a\<rparr>) k d = pos x k d"
  "pos (x\<lparr>xn := a\<rparr>) k d = pos x k d" "ixhash (x\<lparr>xslots := t\<rparr>) k = ixhash x k"
  "ix_shape (x\<lparr>xdead := a\<rparr>) = ix_shape x" "ix_shape (x\<lparr>xn := a\<rparr>) = ix_shape x"
  by (simp_all add: pos_def ixhash_def ix_shape_def)

lemma ix_ok_free:
  assumes ok: "ix_ok x S"
  shows "\<exists>i < xcap x. xslots x ! i = Free"
proof (rule ccontr)
  assume n: "\<not> ?thesis"
  let ?P = "{i. i < xcap x \<and> (\<exists>k. xslots x ! i = Ptr k)}" and ?G = "{i. i < xcap x \<and> xslots x ! i = Gone}"
  let ?f = "\<lambda>i. case xslots x ! i of Ptr k \<Rightarrow> k | _ \<Rightarrow> []"
  have "card ?G = xdead x"
    using ix_okD(5,6) [OF ok] by (simp add: length_filter_conv_card)
  moreover have "inj_on ?f ?P"
  proof (rule inj_onI)
    fix i j assume "i \<in> ?P" "j \<in> ?P" "?f i = ?f j"
    then show "i = j" using ix_okD(8) [OF ok, of i j] by auto
  qed
  moreover have "?f ` ?P \<subseteq> S" using ix_okD(7) [OF ok] by auto
  ultimately have "card ?P \<le> card S" by (intro card_inj_on_le [OF _ _ ix_okD(2) [OF ok]])
  moreover have "{..< xcap x} \<subseteq> ?P \<union> ?G"
  proof
    fix i assume "i \<in> {..< xcap x}"
    with n show "i \<in> ?P \<union> ?G" by (cases "xslots x ! i") auto
  qed
  then have "card {..< xcap x} \<le> card (?P \<union> ?G)" by (intro card_mono) auto
  then have "xcap x \<le> card ?P + card ?G" using card_Un_le [of ?P ?G] by simp
  ultimately show False using ix_okD(3,4) [OF ok] \<open>card ?G = xdead x\<close> by simp
qed

lemma mp_ixput_at:
  assumes "ix_ok x S" and "k \<notin> S"
  obtains d where "d < xcap x" "\<And>j. j < d \<Longrightarrow> xslots x ! pos x k j \<noteq> Free"
    "xslots x ! pos x k d = Free \<or> xslots x ! pos x k d = Gone"
    "mp_ixput x k = x\<lparr>xdead := xdead x - of_bool (xslots x ! pos x k d = Gone),
        xslots := (xslots x)[pos x k d := Ptr k], xn := xn x + 1\<rparr>"
proof -
  note sh = ix_okD(1) [OF assms(1)]
  have "\<exists>i < xcap x. xslots x ! i = Free" by (rule ix_ok_free [OF assms(1)])
  then obtain i where "i < xcap x" "xslots x ! i = Free" by blast
  moreover from this obtain d where "d < xcap x" "pos x k d = i" using pos_surj [OF sh] by metis
  ultimately obtain i' where "ixput_scan x k (xcap x) (pos x k 0) = Some i'"
    using ixput_scan_ex [OF sh, of 0 d "xcap x" k] by auto
  moreover from ixput_scan_some [OF sh this] obtain d' where d': "d' < xcap x" "i' = pos x k d'"
    "\<forall>k'. xslots x ! i' = Ptr k' \<longrightarrow> k' = k" "\<forall>j < d'. xslots x ! pos x k j \<noteq> Free" by auto
  moreover have "xslots x ! i' \<noteq> Ptr k'" for k'
    using d'(2,3) ix_okD(7) [OF assms(1), of i' k'] pos_less [OF sh] assms(2) by auto
  moreover from this have "xslots x ! i' = Free \<or> xslots x ! i' = Gone" by (cases "xslots x ! i'") auto
  ultimately show ?thesis
    by (intro that [of d']) (auto simp: mp_ixput_def pos_0 [OF sh] split: slot.splits)
qed

lemma mp_ixput_ok:
  assumes ok: "ix_ok x S" and k: "k \<notin> S" and room: "xn x + xdead x + 1 < xcap x"
  shows "ix_ok (mp_ixput x k) (insert k S)" and "xcap (mp_ixput x k) = xcap x"
    and "xn (mp_ixput x k) + xdead (mp_ixput x k) \<le> xn x + xdead x + 1"
proof -
  obtain d where d: "d < xcap x" "\<And>j. j < d \<Longrightarrow> xslots x ! pos x k j \<noteq> Free"
    "xslots x ! pos x k d = Free \<or> xslots x ! pos x k d = Gone"
    and eq: "mp_ixput x k = x\<lparr>xdead := xdead x - of_bool (xslots x ! pos x k d = Gone),
        xslots := (xslots x)[pos x k d := Ptr k], xn := xn x + 1\<rparr>" (is "_ = ?y")
    using mp_ixput_at [OF ok k] by blast
  let ?p = "pos x k d"
  note sh = ix_okD(1) [OF ok]
  have p: "?p < xcap x" "?p < length (xslots x)" using pos_less [OF sh] ix_okD(6) [OF ok] by auto
  have old: "xslots ?y ! i = (if i = ?p then Ptr k else xslots x ! i)" if "i < xcap x" for i
    using that p by simp
  have g: "length (filter (\<lambda>s. s = Gone) ((xslots x)[?p := Ptr k])) =
      xdead x - of_bool (xslots x ! ?p = Gone)"
    using filter_update [OF p(2), of "\<lambda>s. s = Gone" "Ptr k"] ix_okD(5) [OF ok]
    by (auto split: if_splits)
  show "ix_ok (mp_ixput x k) (insert k S)" unfolding eq ix_ok_def
  proof (intro conjI allI impI)
    show "ix_shape ?y" using sh by (auto simp: ix_shape_def)
    show "(\<exists>i < xcap ?y. xslots ?y ! i = Ptr k') \<longleftrightarrow> k' \<in> insert k S" for k'
    proof
      assume "\<exists>i < xcap ?y. xslots ?y ! i = Ptr k'"
      then show "k' \<in> insert k S" using old ix_okD(7) [OF ok] by (auto split: if_splits)
    next
      assume "k' \<in> insert k S"
      then consider "k' = k" | "k' \<in> S" by blast
      then show "\<exists>i < xcap ?y. xslots ?y ! i = Ptr k'"
      proof cases
        case 1
        then show ?thesis using old [OF p(1)] p by auto
      next
        case 2
        then obtain i where "i < xcap x" "xslots x ! i = Ptr k'" using ok unfolding ix_ok_def by blast
        then show ?thesis using old [of i] d(3) by (intro exI [of _ i]) auto
      qed
    qed
    show "i = j" if "i < xcap ?y" "j < xcap ?y" "xslots ?y ! i = Ptr k'" "xslots ?y ! j = Ptr k'" for i j k'
    proof (cases "k' = k")
      case True
      have "l = ?p" if "l < xcap x" "xslots ?y ! l = Ptr k" for l
        using old [OF that(1)] ix_okD(7) [OF ok that(1), of k] that(2) k by (auto split: if_splits)
      from this [of i] this [of j] True that show ?thesis by simp
    next
      case False
      then have "xslots x ! l = Ptr k'" if "l < xcap x" "xslots ?y ! l = Ptr k'" for l
        using old [OF that(1)] that(2) by (auto split: if_splits)
      from this [of i] this [of j] that ix_okD(8) [OF ok, of i j k'] show ?thesis by simp
    qed
    show "xslots ?y ! pos ?y k' e' \<noteq> Free"
      if "e < xcap ?y" "xslots ?y ! pos ?y k' e = Ptr k'" "e' < e" for k' e e'
    proof -
      have l: "pos x k' e < xcap x" "pos x k' e' < xcap x" using pos_less [OF sh] by auto
      have "xslots x ! pos x k' e' \<noteq> Free" if "pos x k' e' \<noteq> ?p"
      proof (cases "pos x k' e = ?p")
        case True
        with \<open>xslots ?y ! pos ?y k' e = Ptr k'\<close> old [OF l(1)] have "k' = k" by auto
        with True have "e = d" using pos_inj [of e x d k] \<open>e < xcap ?y\<close> d(1) by simp
        with d(2) \<open>e' < e\<close> \<open>k' = k\<close> show ?thesis by simp
      next
        case False
        with \<open>xslots ?y ! pos ?y k' e = Ptr k'\<close> old [OF l(1)] have "xslots x ! pos x k' e = Ptr k'" by auto
        with ix_okD(9) [OF ok] that \<open>e < xcap ?y\<close> \<open>e' < e\<close> show ?thesis by simp
      qed
      then show ?thesis using old [OF l(2)] by auto
    qed
    show "finite (insert k S)" using ix_okD(2) [OF ok] by simp
    show "xn ?y = card (insert k S)" using ix_okD(2,3) [OF ok] k by simp
    show "xdead ?y = length (filter (\<lambda>s. s = Gone) (xslots ?y))" using g by simp
    show "xn ?y + xdead ?y < xcap ?y" using room by simp
  qed
  show "xcap (mp_ixput x k) = xcap x" "xn (mp_ixput x k) + xdead (mp_ixput x k) \<le> xn x + xdead x + 1"
    unfolding eq by simp_all
qed

lemma mp_ixdel_ok:
  assumes ok: "ix_ok x S" and k: "k \<in> S"
  shows "ix_ok (ixdel_loop x k (xcap x) (ixhash x k)) (S - {k})"
proof -
  note sh = ix_okD(1) [OF ok]
  obtain d where d: "d < xcap x" "xslots x ! pos x k d = Ptr k" "\<And>d'. d' < d \<Longrightarrow> xslots x ! pos x k d' \<noteq> Free"
    "\<And>d'. d' < d \<Longrightarrow> xslots x ! pos x k d' \<noteq> Ptr k"
    using ix_ok_at [OF ok k] by blast
  let ?p = "pos x k d"
  let ?y = "x\<lparr>xslots := (xslots x)[?p := Gone], xn := xn x - 1, xdead := xdead x + 1\<rparr>"
  have eq: "ixdel_loop x k (xcap x) (ixhash x k) = ?y"
    using ixdel_loop_hit [OF sh, of 0 d "xcap x" k] d by (simp add: pos_0 [OF sh])
  have p: "?p < xcap x" "?p < length (xslots x)" using pos_less [OF sh] ix_okD(6) [OF ok] by auto
  have old: "xslots ?y ! i = (if i = ?p then Gone else xslots x ! i)" if "i < xcap x" for i
    using that p by simp
  have c: "0 < card S" using ix_okD(2) [OF ok] k by (auto simp: card_gt_0_iff)
  show ?thesis unfolding eq ix_ok_def
  proof (intro conjI allI impI)
    show "ix_shape ?y" using sh by (auto simp: ix_shape_def)
    show "(\<exists>i < xcap ?y. xslots ?y ! i = Ptr k') \<longleftrightarrow> k' \<in> S - {k}" for k'
    proof
      assume "\<exists>i < xcap ?y. xslots ?y ! i = Ptr k'"
      then obtain i where "i < xcap x" "i \<noteq> ?p" "xslots x ! i = Ptr k'" using old by (auto split: if_splits)
      then show "k' \<in> S - {k}" using ix_okD(7,8) [OF ok] d(2) p by blast
    next
      assume "k' \<in> S - {k}"
      moreover from this obtain i where "i < xcap x" "xslots x ! i = Ptr k'" using ok unfolding ix_ok_def by blast
      ultimately show "\<exists>i < xcap ?y. xslots ?y ! i = Ptr k'"
        using old [of i] d(2) by (intro exI [of _ i]) auto
    qed
    show "i = j" if "i < xcap ?y" "j < xcap ?y" "xslots ?y ! i = Ptr k'" "xslots ?y ! j = Ptr k'" for i j k'
      using that old [of i] old [of j] ix_okD(8) [OF ok, of i j k'] by (auto split: if_splits)
    show "xslots ?y ! pos ?y k' e' \<noteq> Free"
      if "e < xcap ?y" "xslots ?y ! pos ?y k' e = Ptr k'" "e' < e" for k' e e'
      using that old pos_less [OF sh, of k' e] pos_less [OF sh, of k' e'] ix_okD(9) [OF ok, of e k' e']
      by (auto split: if_splits)
    show "finite (S - {k})" using ix_okD(2) [OF ok] by simp
    show "xn ?y = card (S - {k})" using ix_okD(2,3) [OF ok] k by simp
    show "xdead ?y = length (filter (\<lambda>s. s = Gone) (xslots ?y))"
      using filter_update [OF p(2), of "\<lambda>s. s = Gone" Gone] ix_okD(5) [OF ok] d(2) by simp
    show "xn ?y + xdead ?y < xcap ?y" using ix_okD(3,4) [OF ok] c by simp
  qed
qed

lemma mp_ixnew_ok: "ix_ok (mp_ixnew n) {}"
proof -
  obtain j where "dbl 32 (n + n div 2) = 2 ^ (5 + j)" using dbl_pow2 [of 32 "n + n div 2"] by (auto simp: power_add)
  then show ?thesis
    by (auto simp: ix_ok_def mp_ixnew_def Let_def ix_shape_def pos_def)
qed

lemma mp_ixnew_cap: "32 \<le> xcap (mp_ixnew n)" "n < xcap (mp_ixnew n)"
proof -
  show c: "32 \<le> xcap (mp_ixnew n)" by (simp add: mp_ixnew_def Let_def dbl_ge_start)
  have "n + n div 2 \<le> xcap (mp_ixnew n)" by (simp add: mp_ixnew_def Let_def dbl_ge)
  with c show "n < xcap (mp_ixnew n)" by (cases "n < 2") auto
qed

lemma ixput_all:
  "ix_ok x S \<Longrightarrow> distinct ks \<Longrightarrow> set ks \<inter> S = {} \<Longrightarrow> xn x + xdead x + length ks < xcap x \<Longrightarrow>
    ix_ok (foldl mp_ixput x ks) (S \<union> set ks) \<and> xcap (foldl mp_ixput x ks) = xcap x"
proof (induction ks arbitrary: x S)
  case (Cons k ks)
  from Cons.prems have k: "k \<notin> S" "xn x + xdead x + 1 < xcap x" by auto
  note p = mp_ixput_ok [OF Cons.prems(1) k]
  have "set ks \<inter> insert k S = {}" "distinct ks" using Cons.prems by auto
  moreover have "xn (mp_ixput x k) + xdead (mp_ixput x k) + length ks < xcap (mp_ixput x k)"
    using p(2,3) Cons.prems(4) by simp
  ultimately show ?case using Cons.IH [OF p(1)] p(2) by simp
qed simp

lemma mp_ixbuild_ok:
  assumes "distinct ks" and "n = length ks"
  shows "ix_ok (mp_ixbuild ks n) (set ks) \<and> 32 \<le> xcap (mp_ixbuild ks n)"
  using ixput_all [OF mp_ixnew_ok [of n] assms(1)] mp_ixnew_cap [of n] assms(2)
  by (simp add: mp_ixbuild_def) (simp add: mp_ixnew_def Let_def)

subsection \<open>Chain invariant\<close>

fun chain_ok :: "chain \<Rightarrow> bool" and ent_ok :: "ent \<Rightarrow> bool" where
  "chain_ok (Chain es t x) \<longleftrightarrow>
    distinct (map ekey es) \<and> (\<forall>e \<in> set es. ent_ok e) \<and>
    (case t of None \<Rightarrow> True | Some k \<Rightarrow> es \<noteq> [] \<and> k = ekey (last es)) \<and>
    (case x of None \<Rightarrow> True | Some m \<Rightarrow> es \<noteq> [] \<and> ix_ok m (set (map ekey es)) \<and> 32 \<le> xcap m)"
| "ent_ok (Ent k v m n ty) \<longleftrightarrow> n = length (ents m) \<and> chain_ok m"

lemma ent_ok_ent0 [simp]: "ent_ok (ent0 k)" "ekey (ent0 k) = k"
  by (simp_all add: ent0_def)

lemma chain_ok_nullmap: "chain_ok nullmap"
  by simp

lemma chain_okD:
  assumes "chain_ok c"
  shows "distinct (keys c)" "\<And>e. e \<in> set (ents c) \<Longrightarrow> ent_ok e"
    "\<And>t. ctl c = Some t \<Longrightarrow> ents c \<noteq> [] \<and> t = ekey (last (ents c))"
    "\<And>x. cix c = Some x \<Longrightarrow> ents c \<noteq> [] \<and> ix_ok x (set (keys c)) \<and> 32 \<le> xcap x"
  using assms by (cases c; auto simp: keys_def split: option.splits)+

lemma chain_okI:
  "distinct (map ekey es) \<Longrightarrow> (\<And>e. e \<in> set es \<Longrightarrow> ent_ok e) \<Longrightarrow>
    (\<And>k. t = Some k \<Longrightarrow> es \<noteq> [] \<and> k = ekey (last es)) \<Longrightarrow>
    (\<And>m. x = Some m \<Longrightarrow> es \<noteq> [] \<and> ix_ok m (set (map ekey es)) \<and> 32 \<le> xcap m) \<Longrightarrow> chain_ok (Chain es t x)"
  by (auto split: option.split)

lemma find_key: "find (\<lambda>e. ekey e = k) es = Some e \<Longrightarrow> e \<in> set es \<and> ekey e = k"
  by (auto simp: find_Some_iff)

lemma find_none: "find (\<lambda>e. ekey e = k) es = None \<longleftrightarrow> k \<notin> ekey ` set es"
  by (auto simp: find_None_iff)

text \<open>The index finds exactly what the walk finds.\<close>

lemma mp_find_ok:
  assumes "chain_ok c"
  shows "mp_find c k = deref c k"
proof (cases "cix c")
  case (Some x)
  with chain_okD(4) [OF assms Some] find_none [of k "ents c"] show ?thesis
    by (cases "k \<in> set (keys c)") (auto simp: mp_find_def mp_ixfind_ok deref_def keys_def)
qed (simp add: mp_find_def deref_def)

lemma deref_dom: "deref c k = None \<longleftrightarrow> k \<notin> set (keys c)"
  by (auto simp: deref_def find_none keys_def)

lemma link_after_last:
  "distinct (map ekey es) \<Longrightarrow> es \<noteq> [] \<Longrightarrow> link_after es (ekey (last es)) e = es @ [e]"
  by (induction es) (auto simp: image_iff)

lemma mp_tail_ok: "chain_ok c \<Longrightarrow> mp_tail c = (if ents c = [] then None else Some (ekey (last (ents c))))"
  using chain_okD(3) [of c] by (auto simp: mp_tail_def split: option.split)

lemma mp_add_old: "chain_ok c \<Longrightarrow> k \<in> set (keys c) \<Longrightarrow> mp_add (c, n) k = (c, n)"
  using deref_dom [of c k] by (auto simp: mp_add_def mp_find_ok split: option.split)

lemma mp_add_new:
  assumes "chain_ok c" and "k \<notin> set (keys c)" and "n = length (ents c)"
  obtains x where "mp_add (c, n) k = (Chain (ents c @ [ent0 k]) (Some k) x, n + 1)"
    "chain_ok (Chain (ents c @ [ent0 k]) (Some k) x)"
proof -
  let ?es = "ents c @ [ent0 k]"
  have d: "distinct (map ekey ?es)" using chain_okD(1) [OF assms(1)] assms(2) by (auto simp: keys_def)
  have l: "(case mp_tail c of None \<Rightarrow> [ent0 k] | Some t \<Rightarrow> link_after (ents c) t (ent0 k)) = ?es"
    using link_after_last [of "ents c" "ent0 k"] chain_okD(1) [OF assms(1)] by (simp add: mp_tail_ok [OF assms(1)] keys_def)
  define x where "x = (case cix c of
                     Some x \<Rightarrow> Some (if (xn x + xdead x) * 4 \<ge> xcap x * 3 then mp_ixbuild (map ekey ?es) (n + 1)
                                     else mp_ixput x k)
                   | None \<Rightarrow> if n + 1 \<ge> MPHASH then Some (mp_ixbuild (map ekey ?es) (n + 1)) else None)"
  have b: "ix_ok (mp_ixbuild (map ekey ?es) (n + 1)) (set (map ekey ?es)) \<and> 32 \<le> xcap (mp_ixbuild (map ekey ?es) (n + 1))"
    using d assms(3) by (intro mp_ixbuild_ok) auto
  have "mp_add (c, n) k = (Chain ?es (Some k) x, n + 1)"
    using deref_dom [of c k] assms(2) unfolding mp_add_def x_def
    by (auto simp: mp_find_ok [OF assms(1)] l Let_def split: option.split)
  moreover have "ix_ok m (set (map ekey ?es)) \<and> 32 \<le> xcap m" if m: "x = Some m" for m
  proof (cases "cix c")
    case None
    with b m show ?thesis by (auto simp: x_def split: if_splits)
  next
    case (Some y)
    note y = chain_okD(4) [OF assms(1) Some]
    show ?thesis
    proof (cases "(xn y + xdead y) * 4 \<ge> xcap y * 3")
      case False
      then have "xn y + xdead y + 1 < xcap y" using y by auto
      with mp_ixput_ok [of y "set (keys c)" k] y assms(2) False Some m show ?thesis
        by (auto simp: x_def keys_def)
    qed (use b m Some in \<open>simp add: x_def\<close>)
  qed
  then have "chain_ok (Chain ?es (Some k) x)"
    using d chain_okD(2) [OF assms(1)] by (intro chain_okI) auto
  ultimately show ?thesis by (rule that)
qed

lemma unlink_filter: "distinct (map ekey es) \<Longrightarrow> unlink es k = filter (\<lambda>e. ekey e \<noteq> k) es"
proof (induction es)
  case (Cons e es)
  from Cons.prems have "ekey e \<notin> ekey ` set es" by simp
  then have "\<forall>e' \<in> set es. ekey e' \<noteq> ekey e" by (metis image_eqI)
  with Cons show ?case by (auto intro: filter_True [symmetric])
qed simp

lemma prev_of_last:
  "distinct (map ekey es) \<Longrightarrow> es \<noteq> [] \<Longrightarrow> unlink es (ekey (last es)) \<noteq> [] \<Longrightarrow>
    prev_of es (ekey (last es)) = Some (ekey (last (unlink es (ekey (last es)))))"
proof (induction es)
  case (Cons e es)
  then obtain f fs where es: "es = f # fs" by (cases es) auto
  have "last es \<in> set es" by (simp add: es)
  then have ne: "ekey e \<noteq> ekey (last es)" using Cons.prems(1) by force
  show ?case
  proof (cases "fs = []")
    case True
    with ne es show ?thesis by simp
  next
    case False
    then have "last es \<in> set fs" by (simp add: es)
    then have "ekey f \<noteq> ekey (last es)" using Cons.prems(1) es by force
    with Cons es ne False show ?thesis by simp
  qed
qed simp

lemma last_unlink:
  "distinct (map ekey es) \<Longrightarrow> es \<noteq> [] \<Longrightarrow> ekey (last es) \<noteq> k \<Longrightarrow> unlink es k \<noteq> [] \<and> last (unlink es k) = last es"
proof (induction es)
  case (Cons e es)
  then show ?case by (cases "es = []") auto
qed simp

lemma mp_del_absent: "chain_ok c \<Longrightarrow> k \<notin> set (keys c) \<Longrightarrow> mp_del (c, n) k = None"
  using deref_dom [of c k] by (auto simp: mp_del_def mp_find_ok)

lemma mp_del_present:
  assumes ok: "chain_ok c" and k: "k \<in> set (keys c)"
  obtains t x where "mp_del (c, n) k = Some (Chain (filter (\<lambda>e. ekey e \<noteq> k) (ents c)) t x, n - 1)"
    "chain_ok (Chain (filter (\<lambda>e. ekey e \<noteq> k) (ents c)) t x)"
proof -
  let ?es = "unlink (ents c) k"
  have d: "distinct (map ekey (ents c))" using chain_okD(1) [OF ok] by (simp add: keys_def)
  have f: "?es = filter (\<lambda>e. ekey e \<noteq> k) (ents c)" by (rule unlink_filter [OF d])
  have ne: "ents c \<noteq> []" using k by (auto simp: keys_def)
  obtain e where e: "mp_find c k = Some e" using deref_dom [of c k] k by (auto simp: mp_find_ok [OF ok])
  define h where "h = (ekey (hd (ents c)) = k)"
  define t where "t = (if h \<and> ?es = [] then None
      else if ctl c = Some k then if h then Some (ekey (hd ?es)) else prev_of (ents c) k else ctl c)"
  define x where "x = (if h \<and> ?es = [] then None else mp_ixdel (cix c) k)"
  have "mp_del (c, n) k = Some (Chain ?es t x, n - 1)"
    using e by (auto simp: mp_del_def t_def x_def h_def Let_def)
  moreover have nh: "?es \<noteq> []" if "\<not> h"
    using that ne unfolding h_def by (cases "ents c") auto
  have "chain_ok (Chain ?es t x)"
  proof (rule chain_okI)
    show "distinct (map ekey ?es)" using d by (simp add: f distinct_map_filter)
    show "ent_ok e" if "e \<in> set ?es" for e using that chain_okD(2) [OF ok] by (simp add: f)
    show "?es \<noteq> [] \<and> k' = ekey (last ?es)" if t: "t = Some k'" for k'
    proof (cases "ctl c = Some k")
      case True
      with chain_okD(3) [OF ok] have l: "ekey (last (ents c)) = k" by simp
      have "\<not> h \<or> ?es = []"
        using l d unfolding h_def by (cases "ents c" rule: rev_cases) (auto simp: hd_append split: if_splits, (metis list.set_sel(1) rev_image_eqI)?)
      with t True nh prev_of_last [OF d ne] l show ?thesis
        by (cases h) (auto simp: t_def split: if_splits)
    next
      case False
      with t have c: "ctl c = Some k'" "\<not> (h \<and> ?es = [])" by (auto simp: t_def split: if_splits)
      from chain_okD(3) [OF ok c(1)] False c(1) have "ekey (last (ents c)) \<noteq> k" "k' = ekey (last (ents c))" by auto
      with last_unlink [OF d ne] show ?thesis by simp
    qed
    show "?es \<noteq> [] \<and> ix_ok m (set (map ekey ?es)) \<and> 32 \<le> xcap m" if m: "x = Some m" for m
    proof -
      from m obtain y where y: "cix c = Some y" "m = ixdel_loop y k (xcap y) (ixhash y k)" "?es \<noteq> []"
        using nh by (auto simp: x_def mp_ixdel_def split: if_splits)
      note oky = chain_okD(4) [OF ok y(1)]
      have "xcap (ixdel_loop y k f i) = xcap y" for f i by (induction f arbitrary: i) auto
      moreover have "set (map ekey ?es) = set (keys c) - {k}" by (auto simp: f keys_def)
      ultimately show ?thesis using mp_ixdel_ok [of y "set (keys c)" k] oky k y by simp
    qed
  qed
  ultimately show ?thesis using that f by simp
qed

lemma ent_upd_ok:
  assumes "chain_ok c" and "\<And>e. ekey e = k \<Longrightarrow> ent_ok e \<Longrightarrow> ekey (f e) = k \<and> ent_ok (f e)"
  shows "chain_ok (ent_upd c k f)" and "keys (ent_upd c k f) = keys c"
    and "deref (ent_upd c k f) k' = (if k' = k then map_option f (deref c k) else deref c k')"
proof -
  have e: "ekey (if ekey e = k then f e else e) = ekey e" if "e \<in> set (ents c)" for e
    using assms(2) [of e] chain_okD(2) [OF assms(1) that] by auto
  then have m: "map (ekey \<circ> (\<lambda>e. if ekey e = k then f e else e)) (ents c) = map ekey (ents c)" by auto
  then show "keys (ent_upd c k f) = keys c" by (simp add: keys_def ent_upd_def)
  have "ents c \<noteq> [] \<Longrightarrow> ekey (last (map (\<lambda>e. if ekey e = k then f e else e) (ents c))) = ekey (last (ents c))"
    using e by (simp add: last_map)
  then show "chain_ok (ent_upd c k f)" unfolding ent_upd_def
    using chain_okD [OF assms(1)] assms(2) by (intro chain_okI) (auto simp: m [unfolded comp_def] comp_def keys_def)
  have "find (\<lambda>e. ekey e = k') (map (\<lambda>e. if ekey e = k then f e else e) es) =
      (if k' = k then map_option f (find (\<lambda>e. ekey e = k) es) else find (\<lambda>e. ekey e = k') es)"
    if "set es \<subseteq> set (ents c)" for es
    using that e by (induction es) auto
  from this [of "ents c"] show "deref (ent_upd c k f) k' = (if k' = k then map_option f (deref c k) else deref c k')"
    by (simp add: deref_def ent_upd_def)
qed

text \<open>The value of a map as a tree: what a script can see of it.\<close>

datatype vtree = VT "string option" nat "(string \<times> vtree) list"

fun tree_of :: "chain \<Rightarrow> (string \<times> vtree) list" and tree_ent :: "ent \<Rightarrow> string \<times> vtree" where
  "tree_of (Chain es t x) = map tree_ent es"
| "tree_ent (Ent k v m n ty) = (k, VT v ty (tree_of m))"

lemma e_clone_simps [simp]: "ekey (e_clone e) = ekey e" "estr (e_clone e) = estr e" "en (e_clone e) = en e"
  "ety (e_clone e) = ety e"
  by (cases e; simp)+

lemma m_clone_ents: "ents (m_clone c) = map e_clone (ents c)"
  by (cases c) (simp add: Let_def)

lemma m_clone_ok: "(chain_ok c \<longrightarrow> chain_ok (m_clone c)) \<and> tree_of (m_clone c) = tree_of c"
  and e_clone_ok: "(ent_ok e \<longrightarrow> ent_ok (e_clone e)) \<and> tree_ent (e_clone e) = tree_ent e"
proof (induction c and e)
  case (Chain es t x)
  have k: "map (ekey \<circ> e_clone) es = map ekey es" by simp
  show ?case
  proof (cases "es = []")
    case False
    have "chain_ok (m_clone (Chain es t x))" if "chain_ok (Chain es t x)"
      using that False Chain mp_ixbuild_ok [of "map ekey es" "length es"] k
      by (auto simp: Let_def last_map comp_def split: option.splits)
    with False Chain show ?thesis by (auto simp: Let_def)
  qed simp
next
  case (Ent k v m n ty)
  then show ?case by (simp add: m_clone_ents)
qed

subsection \<open>Maps as a dictionary\<close>

text \<open>
  What the rest of the shell relies on: lookup, insertion at the end, removal, and the keys in
  their order.
\<close>

locale dict =
  fixes lookup :: "'m \<Rightarrow> string \<Rightarrow> 'v option"
    and insert' :: "'m \<Rightarrow> string \<Rightarrow> 'm"
    and delete :: "'m \<Rightarrow> string \<Rightarrow> 'm"
    and order :: "'m \<Rightarrow> string list"
    and fresh :: "string \<Rightarrow> 'v"
    and good :: "'m \<Rightarrow> bool"
  assumes lookup_dom: "good m \<Longrightarrow> lookup m k = None \<longleftrightarrow> k \<notin> set (order m)"
    and order_distinct: "good m \<Longrightarrow> distinct (order m)"
    and good_insert: "good m \<Longrightarrow> good (insert' m k)"
    and lookup_insert: "good m \<Longrightarrow> lookup (insert' m k) k' = (if k' = k \<and> lookup m k = None then Some (fresh k) else lookup m k')"
    and order_insert: "good m \<Longrightarrow> order (insert' m k) = (if k \<in> set (order m) then order m else order m @ [k])"
    and good_delete: "good m \<Longrightarrow> good (delete m k)"
    and lookup_delete: "good m \<Longrightarrow> lookup (delete m k) k' = (if k' = k then None else lookup m k')"
    and order_delete: "good m \<Longrightarrow> order (delete m k) = filter (\<lambda>x. x \<noteq> k) (order m)"
begin

lemma good_inserts: "good m \<Longrightarrow> good (foldl insert' m ks)"
  by (induction ks arbitrary: m) (auto simp: good_insert)

text \<open>Inserting a list of keys keeps the old order and adds the new ones as they first occur.\<close>

lemma order_inserts:
  "good m \<Longrightarrow> order (foldl insert' m ks) = order m @ filter (\<lambda>k. k \<notin> set (order m)) (rev (remdups (rev ks)))"
proof (induction ks rule: rev_induct)
  case (snoc k ks)
  have "k \<in> set (order (foldl insert' m ks)) \<longleftrightarrow> k \<in> set (order m) \<or> k \<in> set ks"
    using snoc by auto
  with snoc order_insert [OF good_inserts [OF snoc.prems, of ks], of k] show ?case by auto
qed simp

lemma lookup_inserts:
  "good m \<Longrightarrow> lookup (foldl insert' m ks) k = (if k \<in> set ks \<and> lookup m k = None then Some (fresh k) else lookup m k)"
proof (induction ks arbitrary: m)
  case (Cons x ks)
  then show ?case by (auto simp: good_insert lookup_insert)
qed simp

lemma delete_insert:
  assumes "good m" and "k \<notin> set (order m)"
  shows "order (delete (insert' m k) k) = order m" and "lookup (delete (insert' m k) k) k' = lookup m k'"
  using assms lookup_dom [OF assms(1), of k]
  by (auto simp: good_insert lookup_insert order_insert lookup_delete order_delete filter_id_conv)

lemma insert_delete_moves:
  assumes "good m"
  shows "order (insert' (delete m k) k) = filter (\<lambda>x. x \<noteq> k) (order m) @ [k]"
  using assms by (simp add: good_delete order_insert order_delete)

end

text \<open>The chain with its count, as an entry or a variable holds the two.\<close>

definition cn_ok :: "chain \<times> nat \<Rightarrow> bool" where
  "cn_ok cn \<longleftrightarrow> chain_ok (fst cn) \<and> snd cn = length (ents (fst cn))"

definition cn_del :: "chain \<times> nat \<Rightarrow> string \<Rightarrow> chain \<times> nat" where
  "cn_del cn k = (case mp_del cn k of Some cn' \<Rightarrow> cn' | None \<Rightarrow> cn)"

lemma find_append_key:
  "find P (xs @ ys) = (case find P xs of Some x \<Rightarrow> Some x | None \<Rightarrow> find P ys)"
  by (induction xs) auto

lemma find_filter_key:
  "find (\<lambda>e. ekey e = k') (filter (\<lambda>e. ekey e \<noteq> k) es) = (if k' = k then None else find (\<lambda>e. ekey e = k') es)"
  by (induction es) auto

lemma cn_add_spec:
  assumes "cn_ok cn"
  shows "cn_ok (mp_add cn k)"
    and "mp_find (fst (mp_add cn k)) k' =
      (if k' = k \<and> mp_find (fst cn) k = None then Some (ent0 k) else mp_find (fst cn) k')"
    and "keys (fst (mp_add cn k)) = (if k \<in> set (keys (fst cn)) then keys (fst cn) else keys (fst cn) @ [k])"
proof -
  obtain c n where cn: "cn = (c, n)" by (cases cn)
  have ok: "chain_ok c" "n = length (ents c)" using assms by (auto simp: cn_ok_def cn)
  have "cn_ok (mp_add cn k) \<and> mp_find (fst (mp_add cn k)) k' =
      (if k' = k \<and> mp_find (fst cn) k = None then Some (ent0 k) else mp_find (fst cn) k') \<and>
    keys (fst (mp_add cn k)) = (if k \<in> set (keys (fst cn)) then keys (fst cn) else keys (fst cn) @ [k])"
  proof (cases "k \<in> set (keys c)")
    case True
    with assms mp_add_old [OF ok(1) True, of n] deref_dom [of c k] show ?thesis
      by (auto simp: cn mp_find_ok [OF ok(1)])
  next
    case False
    obtain x where x: "mp_add (c, n) k = (Chain (ents c @ [ent0 k]) (Some k) x, n + 1)"
      "chain_ok (Chain (ents c @ [ent0 k]) (Some k) x)" by (rule mp_add_new [OF ok(1) False ok(2)])
    with False deref_dom [of c k] ok show ?thesis
      by (auto simp: cn cn_ok_def mp_find_ok deref_def find_append_key keys_def simp del: chain_ok.simps
          split: option.split)
  qed
  then show "cn_ok (mp_add cn k)" "mp_find (fst (mp_add cn k)) k' =
      (if k' = k \<and> mp_find (fst cn) k = None then Some (ent0 k) else mp_find (fst cn) k')"
    "keys (fst (mp_add cn k)) = (if k \<in> set (keys (fst cn)) then keys (fst cn) else keys (fst cn) @ [k])"
    by blast+
qed

lemma cn_del_spec:
  assumes "cn_ok cn"
  shows "cn_ok (cn_del cn k)" and "mp_find (fst (cn_del cn k)) k' = (if k' = k then None else mp_find (fst cn) k')"
    and "keys (fst (cn_del cn k)) = filter (\<lambda>x. x \<noteq> k) (keys (fst cn))"
    and "mp_del cn k = None \<longleftrightarrow> k \<notin> set (keys (fst cn))"
proof -
  obtain c n where cn: "cn = (c, n)" by (cases cn)
  have ok: "chain_ok c" "n = length (ents c)" using assms by (auto simp: cn_ok_def cn)
  have "cn_ok (cn_del cn k) \<and> mp_find (fst (cn_del cn k)) k' = (if k' = k then None else mp_find (fst cn) k') \<and>
    keys (fst (cn_del cn k)) = filter (\<lambda>x. x \<noteq> k) (keys (fst cn)) \<and>
    (mp_del cn k = None \<longleftrightarrow> k \<notin> set (keys (fst cn)))"
  proof (cases "k \<in> set (keys c)")
    case False
    with assms mp_del_absent [OF ok(1) False, of n] deref_dom [of c k] show ?thesis
      by (auto simp: cn cn_del_def mp_find_ok [OF ok(1)] intro: filter_True [symmetric])
  next
    case True
    obtain t x where d: "mp_del (c, n) k = Some (Chain (filter (\<lambda>e. ekey e \<noteq> k) (ents c)) t x, n - 1)"
      "chain_ok (Chain (filter (\<lambda>e. ekey e \<noteq> k) (ents c)) t x)" by (rule mp_del_present [OF ok(1) True])
    have "length (filter (\<lambda>e. ekey e \<noteq> k) (ents c)) = length (ents c) - 1"
      using length_filter_key chain_okD(1) [OF ok(1)] True by (simp add: keys_def)
    with d True ok show ?thesis
      by (auto simp: cn cn_del_def cn_ok_def mp_find_ok deref_def find_filter_key keys_def filter_map comp_def
          simp del: chain_ok.simps)
  qed
  then show "cn_ok (cn_del cn k)" "mp_find (fst (cn_del cn k)) k' = (if k' = k then None else mp_find (fst cn) k')"
    "keys (fst (cn_del cn k)) = filter (\<lambda>x. x \<noteq> k) (keys (fst cn))"
    "mp_del cn k = None \<longleftrightarrow> k \<notin> set (keys (fst cn))" by blast+
qed

interpretation chain_dict: dict "\<lambda>cn. mp_find (fst cn)" mp_add cn_del "\<lambda>cn. keys (fst cn)" ent0 cn_ok
proof (unfold_locales, goal_cases)
  case (1 m k)
  then show ?case by (simp add: cn_ok_def mp_find_ok deref_dom)
next
  case (2 m)
  then show ?case by (simp add: cn_ok_def chain_okD)
qed (simp_all add: cn_add_spec cn_del_spec)

subsection \<open>Paths\<close>

text \<open>
  \<open>v_walk\<close> below one variable's map: looking up without making, and making every level it
  crosses with the last entry then changed through the pointer returned. \<open>walk_del\<close> is the
  walk of \<open>v_delp\<close>.
\<close>

fun walk_get :: "chain \<Rightarrow> string list \<Rightarrow> ent option" where
  "walk_get c [] = None"
| "walk_get c (k # ks) =
     (case mp_find c k of None \<Rightarrow> None | Some e \<Rightarrow> if ks = [] then Some e else walk_get (emap e) ks)"

definition ent_map :: "chain \<times> nat \<Rightarrow> ent \<Rightarrow> ent" where
  "ent_map cn e = Ent (ekey e) (estr e) (fst cn) (snd cn) (ety e)"

fun walk_upd :: "(ent \<Rightarrow> ent) \<Rightarrow> chain \<times> nat \<Rightarrow> string list \<Rightarrow> chain \<times> nat" where
  "walk_upd f cn [] = cn"
| "walk_upd f cn (k # ks) =
     (let cn' = mp_add cn k
      in (ent_upd (fst cn') k (if ks = [] then f else (\<lambda>e. ent_map (walk_upd f (emap e, en e) ks) e)), snd cn'))"

fun walk_del :: "chain \<times> nat \<Rightarrow> string list \<Rightarrow> (chain \<times> nat) option" where
  "walk_del cn [] = None"
| "walk_del cn (k # ks) =
     (if ks = [] then mp_del cn k
      else case mp_find (fst cn) k of
             None \<Rightarrow> None
           | Some e \<Rightarrow>
               (case walk_del (emap e, en e) ks of
                  None \<Rightarrow> None
                | Some cn' \<Rightarrow> Some (ent_upd (fst cn) k (ent_map cn'), snd cn)))"

definition keeps :: "(ent \<Rightarrow> ent) \<Rightarrow> bool" where
  "keeps f \<longleftrightarrow> (\<forall>e. ent_ok e \<longrightarrow> ekey (f e) = ekey e \<and> ent_ok (f e))"

lemma keepsD: "keeps f \<Longrightarrow> ent_ok e \<Longrightarrow> ekey (f e) = ekey e \<and> ent_ok (f e)"
  by (simp add: keeps_def)

lemma ent_ok_cn: "ent_ok e \<longleftrightarrow> cn_ok (emap e, en e)"
  by (cases e) (auto simp: cn_ok_def)

lemma ent_map_simps [simp]: "ekey (ent_map cn e) = ekey e" "emap (ent_map cn e) = fst cn" "en (ent_map cn e) = snd cn"
  "estr (ent_map cn e) = estr e" "ent_ok (ent_map cn e) = cn_ok cn"
  by (auto simp: ent_map_def cn_ok_def)

lemma mp_find_ent_ok: "chain_ok c \<Longrightarrow> mp_find c k = Some e \<Longrightarrow> ent_ok e \<and> ekey e = k"
  using chain_okD(2) [of c e] find_key [of k "ents c" e] by (auto simp: mp_find_ok deref_def)

lemma ent_upd_cn:
  assumes "cn_ok cn" and "keeps f"
  shows "cn_ok (ent_upd (fst cn) k f, snd cn)"
    and "mp_find (ent_upd (fst cn) k f) k' = (if k' = k then map_option f (mp_find (fst cn) k) else mp_find (fst cn) k')"
proof -
  have c: "chain_ok (fst cn)" using assms(1) by (simp add: cn_ok_def)
  note u = ent_upd_ok [OF c, of k f]
  have k: "\<And>e. ekey e = k \<Longrightarrow> ent_ok e \<Longrightarrow> ekey (f e) = k \<and> ent_ok (f e)" using keepsD [OF assms(2)] by auto
  from u(1) [OF k] assms(1) show "cn_ok (ent_upd (fst cn) k f, snd cn)"
    by (simp add: cn_ok_def ent_upd_def)
  from u(1,3) [OF k] c show "mp_find (ent_upd (fst cn) k f) k' =
      (if k' = k then map_option f (mp_find (fst cn) k) else mp_find (fst cn) k')"
    by (simp add: mp_find_ok)
qed

lemma walk_upd_ok: "cn_ok cn \<Longrightarrow> keeps f \<Longrightarrow> cn_ok (walk_upd f cn ks)"
proof (induction ks arbitrary: cn)
  case (Cons k ks)
  have "keeps (\<lambda>e. ent_map (walk_upd f (emap e, en e) ks) e)"
    using Cons.IH [OF _ Cons.prems(2)] by (auto simp: keeps_def ent_ok_cn [of "_"] simp del: ent_ok.simps)
  with ent_upd_cn(1) [OF chain_dict.good_insert [OF Cons.prems(1), of k]] Cons.prems(2) show ?case
    by (simp add: Let_def)
qed simp

lemma walk_keeps: "keeps f \<Longrightarrow> keeps (if ks = [] then f else (\<lambda>e. ent_map (walk_upd f (emap e, en e) ks) e))"
  using walk_upd_ok [of _ f ks] by (auto simp: keeps_def ent_ok_cn simp del: ent_ok.simps)

lemma mp_add_find:
  "cn_ok cn \<Longrightarrow> mp_find (fst (mp_add cn k)) k' =
    (if k' = k then Some (case mp_find (fst cn) k of Some e \<Rightarrow> e | None \<Rightarrow> ent0 k) else mp_find (fst cn) k')"
  by (auto simp: chain_dict.lookup_insert split: option.split)

lemma walk_upd_find:
  assumes "cn_ok cn" and "keeps f"
  shows "mp_find (fst (walk_upd f cn (k # ks))) k' =
    (if k' = k then
       Some ((if ks = [] then f else (\<lambda>e. ent_map (walk_upd f (emap e, en e) ks) e))
         (case mp_find (fst cn) k of Some e \<Rightarrow> e | None \<Rightarrow> ent0 k))
     else mp_find (fst cn) k')"
  using ent_upd_cn(2) [OF chain_dict.good_insert [OF assms(1), of k] walk_keeps [OF assms(2), of ks], of k k']
    mp_add_find [OF assms(1), of k]
  by (simp add: Let_def)

lemma nullmap_find [simp]: "mp_find nullmap k = None" "walk_get nullmap ks = None" "cn_ok (nullmap, 0)"
  by (cases ks; simp add: mp_find_def cn_ok_def)+

lemma ent0_map [simp]: "emap (ent0 k) = nullmap" "en (ent0 k) = 0" "estr (ent0 k) = None"
  by (simp_all add: ent0_def)

lemma emap_cn:
  assumes "cn_ok cn"
  shows "cn_ok (emap (case mp_find (fst cn) k of Some e \<Rightarrow> e | None \<Rightarrow> ent0 k),
                en (case mp_find (fst cn) k of Some e \<Rightarrow> e | None \<Rightarrow> ent0 k))"
  using mp_find_ent_ok [of "fst cn" k] assms
  by (auto simp: cn_ok_def [of cn] ent_ok_cn simp del: ent_ok.simps split: option.split)

text \<open>Reading back the path just written, and any path that does not cross it.\<close>

lemma walk_get_same:
  "cn_ok cn \<Longrightarrow> keeps f \<Longrightarrow> ks \<noteq> [] \<Longrightarrow>
    walk_get (fst (walk_upd f cn ks)) ks =
      Some (f (case walk_get (fst cn) ks of Some e \<Rightarrow> e | None \<Rightarrow> ent0 (last ks)))"
proof (induction ks arbitrary: cn)
  case (Cons k ks)
  let ?e = "case mp_find (fst cn) k of Some e \<Rightarrow> e | None \<Rightarrow> ent0 k"
  show ?case
  proof (cases "ks = []")
    case True
    then show ?thesis using walk_upd_find [OF Cons.prems(1,2), of k "[]" k]
      by (simp del: walk_upd.simps split: option.split)
  next
    case False
    from Cons.IH [OF emap_cn [OF Cons.prems(1), of k] Cons.prems(2) False] False
      walk_upd_find [OF Cons.prems(1,2), of k ks k]
    show ?thesis by (auto simp del: walk_upd.simps split: option.splits)
  qed
qed simp

lemma walk_get_other:
  "cn_ok cn \<Longrightarrow> keeps f \<Longrightarrow> \<not> prefix ks ks' \<Longrightarrow> \<not> prefix ks' ks \<Longrightarrow>
    walk_get (fst (walk_upd f cn ks)) ks' = walk_get (fst cn) ks'"
proof (induction ks arbitrary: cn ks')
  case (Cons k ks)
  obtain k' ls where ks': "ks' = k' # ls" using Cons.prems(4) by (cases ks') auto
  show ?case
  proof (cases "k' = k")
    case False
    then show ?thesis using walk_upd_find [OF Cons.prems(1,2), of k ks k'] ks' by (simp del: walk_upd.simps)
  next
    case True
    with Cons.prems ks' have n: "\<not> prefix ks ls" "\<not> prefix ls ks" "ks \<noteq> []" "ls \<noteq> []" by auto
    from Cons.IH [OF emap_cn [OF Cons.prems(1), of k] Cons.prems(2) n(1,2)] n
      walk_upd_find [OF Cons.prems(1,2), of k ks k'] True ks'
    show ?thesis by (auto simp del: walk_upd.simps split: option.splits)
  qed
qed simp

text \<open>A strict prefix of the path is still there, with the same scalar.\<close>

lemma walk_get_prefix:
  "cn_ok cn \<Longrightarrow> keeps f \<Longrightarrow> strict_prefix ks' ks \<Longrightarrow> ks' \<noteq> [] \<Longrightarrow>
    \<exists>e. walk_get (fst (walk_upd f cn ks)) ks' = Some e \<and>
      estr e = (case walk_get (fst cn) ks' of Some e' \<Rightarrow> estr e' | None \<Rightarrow> None)"
proof (induction ks arbitrary: cn ks')
  case (Cons k ks)
  then obtain ls where ks': "ks' = k # ls" "strict_prefix ls ks" by (cases ks') auto
  then have ne: "ks \<noteq> []" by auto
  show ?case
  proof (cases "ls = []")
    case True
    then show ?thesis using walk_upd_find [OF Cons.prems(1,2), of k ks k] ks' ne
      by (auto simp del: walk_upd.simps split: option.split)
  next
    case False
    from Cons.IH [OF emap_cn [OF Cons.prems(1), of k] Cons.prems(2) ks'(2) False] False ne ks'
      walk_upd_find [OF Cons.prems(1,2), of k ks k]
    show ?thesis by (auto simp del: walk_upd.simps split: option.splits)
  qed
qed simp

lemma walk_del_ok: "cn_ok cn \<Longrightarrow> walk_del cn ks = Some cn' \<Longrightarrow> cn_ok cn'"
proof (induction ks arbitrary: cn cn')
  case (Cons k ks)
  show ?case
  proof (cases "ks = []")
    case True
    with Cons.prems cn_del_spec(1) [of cn k] show ?thesis by (auto simp: cn_del_def)
  next
    case False
    with Cons.prems(2) obtain e d where e: "mp_find (fst cn) k = Some e" "walk_del (emap e, en e) ks = Some d"
      "cn' = (ent_upd (fst cn) k (ent_map d), snd cn)" by (auto split: option.splits)
    have "ent_ok e" using mp_find_ent_ok [OF _ e(1)] Cons.prems(1) by (simp add: cn_ok_def)
    with Cons.IH e(2) have "cn_ok d" by (simp add: ent_ok_cn del: ent_ok.simps)
    then show ?thesis using e(3) ent_upd_cn(1) [OF Cons.prems(1), of "ent_map d" k] by (simp add: keeps_def)
  qed
qed simp

lemma walk_del_spec:
  "cn_ok cn \<Longrightarrow> (walk_del cn ks = None \<longleftrightarrow> walk_get (fst cn) ks = None) \<and>
    (\<forall>cn'. walk_del cn ks = Some cn' \<longrightarrow> walk_get (fst cn') ks = None \<and>
      (\<forall>ks'. \<not> prefix ks ks' \<longrightarrow> \<not> prefix ks' ks \<longrightarrow> walk_get (fst cn') ks' = walk_get (fst cn) ks'))"
proof (induction ks arbitrary: cn)
  case (Cons k ks)
  have c: "chain_ok (fst cn)" using Cons.prems by (simp add: cn_ok_def)
  show ?case
  proof (cases "ks = []")
    case True
    have "walk_get (fst cn'') ks' = walk_get (fst cn) ks'"
      if "mp_del cn k = Some cn''" "\<not> prefix [k] ks'" "\<not> prefix ks' [k]" for cn'' ks'
      using that cn_del_spec(2) [OF Cons.prems, of k] by (cases ks') (auto simp: cn_del_def)
    moreover have "mp_find (fst cn'') k = None" if "mp_del cn k = Some cn''" for cn''
      using that cn_del_spec(2) [OF Cons.prems, of k k] by (simp add: cn_del_def)
    moreover have "mp_del cn k = None \<longleftrightarrow> mp_find (fst cn) k = None"
      using cn_del_spec(4) [OF Cons.prems, of k] by (simp add: mp_find_ok [OF c] deref_dom)
    ultimately show ?thesis using True by (auto split: option.splits)
  next
    case False
    show ?thesis
    proof (cases "mp_find (fst cn) k")
      case (Some e)
      have "ent_ok e" by (rule conjunct1 [OF mp_find_ent_ok [OF c Some]])
      then have e: "cn_ok (emap e, en e)" by (simp add: ent_ok_cn)
      have f: "mp_find (ent_upd (fst cn) k (ent_map d)) k' =
          (if k' = k then Some (ent_map d e) else mp_find (fst cn) k')"
        if "walk_del (emap e, en e) ks = Some d" for d k'
        using ent_upd_cn(2) [OF Cons.prems, of "ent_map d" k k'] walk_del_ok [OF e that] Some
        by (simp add: keeps_def)
      have o: "walk_get (ent_upd (fst cn) k (ent_map d)) ks' = walk_get (fst cn) ks'"
        if d: "walk_del (emap e, en e) ks = Some d" and p: "\<not> prefix (k # ks) ks'" "\<not> prefix ks' (k # ks)" for d ks'
      proof (cases ks')
        case (Cons k' ls)
        with p d Some False Cons.IH [OF e] show ?thesis
          by (cases "k' = k") (auto simp: f [OF d])
      qed simp
      from Cons.IH [OF e] o f Some False show ?thesis by (auto split: option.splits)
    qed (use False in simp)
  qed
qed simp

subsection \<open>Properties\<close>

text \<open>C25: finding through the hash index gives exactly what walking the chain gives.\<close>

theorem index_is_walk:
  assumes "chain_ok c"
  shows "mp_find c k = find (\<lambda>e. ekey e = k) (ents c)"
  using mp_find_ok [OF assms] by (simp add: deref_def)

theorem index_is_walk_witness:
  "mp_find (fst (foldl mp_add (nullmap, 0) [''a'', ''b''])) ''b'' = Some (ent0 ''b'')"
proof -
  have "cn_ok (foldl mp_add (nullmap, 0) [''a'', ''b''])" by (rule chain_dict.good_inserts) simp
  then have "chain_ok (fst (foldl mp_add (nullmap, 0) [''a'', ''b'']))" by (simp add: cn_ok_def)
  from index_is_walk [OF this, of "''b''"] show ?thesis
    by (simp add: mp_add_def mp_find_def mp_tail_def ent0_def)
qed

text \<open>The probe of \<open>mp_ixput\<close>, which has no bound of its own, always stops: an index that
  satisfies the invariant has a slot free, and storing a key keeps the invariant.\<close>

theorem index_put_stops:
  assumes "ix_ok x S" and "k \<notin> S" and "xn x + xdead x + 1 < xcap x"
  shows "(\<exists>i. ixput_scan x k (xcap x) (ixhash x k) = Some i) \<and> ix_ok (mp_ixput x k) (insert k S) \<and>
    mp_ixfind (mp_ixput x k) k = Some k"
proof -
  note sh = ix_okD(1) [OF assms(1)]
  obtain i where i: "i < xcap x" "xslots x ! i = Free" using ix_ok_free [OF assms(1)] by blast
  obtain d where "d < xcap x" "pos x k d = i" by (rule pos_surj [OF sh i(1)])
  with i ixput_scan_ex [OF sh, of 0 d "xcap x" k] have "\<exists>i. ixput_scan x k (xcap x) (ixhash x k) = Some i"
    by (simp add: pos_0 [OF sh])
  with mp_ixput_ok(1) [OF assms] mp_ixfind_ok [OF mp_ixput_ok(1) [OF assms], of k] show ?thesis by simp
qed

theorem index_put_stops_witness: "mp_ixfind (mp_ixput (mp_ixnew 20) ''key'') ''key'' = Some ''key''"
  using index_put_stops [OF mp_ixnew_ok [of 20], of "''key''"] mp_ixnew_cap(2) [of 20]
  by (simp add: mp_ixnew_def Let_def)

text \<open>Adding a key to a map keeps every entry there was, puts a new key last with an empty
  entry, leaves a present key alone, and keeps the count, the tail and the index right.\<close>

theorem map_add:
  assumes "cn_ok cn"
  shows "cn_ok (mp_add cn k) \<and>
    keys (fst (mp_add cn k)) = (if k \<in> set (keys (fst cn)) then keys (fst cn) else keys (fst cn) @ [k]) \<and>
    mp_find (fst (mp_add cn k)) k' =
      (if k' = k \<and> mp_find (fst cn) k = None then Some (ent0 k) else mp_find (fst cn) k')"
  using chain_dict.good_insert [OF assms, of k] chain_dict.order_insert [OF assms, of k]
    chain_dict.lookup_insert [OF assms, of k k'] by simp

theorem map_add_witness: "keys (fst (mp_add (mp_add (nullmap, 0) ''x'') ''y'')) = [''x'', ''y'']"
proof -
  have "cn_ok (mp_add (nullmap, 0) ''x'')" by (rule chain_dict.good_insert) simp
  from map_add [OF this, of "''y''"] show ?thesis
    by (simp add: mp_add_def mp_find_def mp_tail_def ent0_def keys_def)
qed

text \<open>Removing a key fails exactly when it is absent, and otherwise removes that entry alone,
  keeping the order of the others, the count, the tail and the index.\<close>

theorem map_del:
  assumes "cn_ok cn"
  shows "(mp_del cn k = None \<longleftrightarrow> k \<notin> set (keys (fst cn))) \<and> cn_ok (cn_del cn k) \<and>
    keys (fst (cn_del cn k)) = filter (\<lambda>x. x \<noteq> k) (keys (fst cn)) \<and>
    mp_find (fst (cn_del cn k)) k' = (if k' = k then None else mp_find (fst cn) k')"
  using chain_dict.good_delete [OF assms, of k] chain_dict.order_delete [OF assms, of k]
    chain_dict.lookup_delete [OF assms, of k k'] cn_del_spec(4) [OF assms, of k] by simp

theorem map_del_witness:
  "keys (fst (cn_del (foldl mp_add (nullmap, 0) [''x'', ''y'', ''z'']) ''y'')) = [''x'', ''z'']"
proof -
  have n: "cn_ok (nullmap, 0)" by simp
  have "cn_ok (foldl mp_add (nullmap, 0) [''x'', ''y'', ''z''])" by (rule chain_dict.good_inserts [OF n])
  from map_del [OF this, of "''y''"] chain_dict.order_inserts [OF n, of "[''x'', ''y'', ''z'']"] show ?thesis
    by (simp add: keys_def)
qed

text \<open>C26: a path written through \<open>v_walk\<close> reads back as written, every path that does not cross
  it reads as before, and the map stays well formed at every level.\<close>

theorem path_set_get:
  assumes "cn_ok cn" and "keeps f" and "ks \<noteq> []"
  shows "cn_ok (walk_upd f cn ks) \<and>
    walk_get (fst (walk_upd f cn ks)) ks = Some (f (case walk_get (fst cn) ks of Some e \<Rightarrow> e | None \<Rightarrow> ent0 (last ks))) \<and>
    (\<not> prefix ks ks' \<and> \<not> prefix ks' ks \<longrightarrow> walk_get (fst (walk_upd f cn ks)) ks' = walk_get (fst cn) ks')"
  using walk_upd_ok [OF assms(1,2)] walk_get_same [OF assms] walk_get_other [OF assms(1,2), of ks ks'] by simp

theorem path_set_get_witness:
  "walk_get (fst (walk_upd (\<lambda>e. Ent (ekey e) (Some ''v'') nullmap 0 0) (nullmap, 0) [''a'', ''b''])) [''a'', ''b''] =
    Some (Ent ''b'' (Some ''v'') nullmap 0 0)"
proof -
  have "keeps (\<lambda>e. Ent (ekey e) (Some ''v'') nullmap 0 0)" by (simp add: keeps_def)
  from path_set_get [OF nullmap_find(3) this, of "[''a'', ''b'']"] show ?thesis by simp
qed

text \<open>Deleting a path fails exactly when there is nothing there, and otherwise what was there
  is gone and every path that does not cross it reads as before.\<close>

theorem path_del:
  assumes "cn_ok cn"
  shows "(walk_del cn ks = None \<longleftrightarrow> walk_get (fst cn) ks = None) \<and>
    (\<forall>cn'. walk_del cn ks = Some cn' \<longrightarrow> cn_ok cn' \<and> walk_get (fst cn') ks = None \<and>
      (\<forall>ks'. \<not> prefix ks ks' \<longrightarrow> \<not> prefix ks' ks \<longrightarrow> walk_get (fst cn') ks' = walk_get (fst cn) ks'))"
  using walk_del_spec [OF assms, of ks] walk_del_ok [OF assms] by blast

theorem path_del_witness: "walk_del (mp_add (nullmap, 0) ''a'') [''b''] = None"
proof -
  have "cn_ok (mp_add (nullmap, 0) ''a'')" by (rule chain_dict.good_insert) simp
  moreover from this have "walk_get (fst (mp_add (nullmap, 0) ''a'')) [''b''] = None"
    by (simp add: mp_add_def mp_find_def mp_tail_def ent0_def)
  ultimately show ?thesis using path_del by blast
qed

text \<open>A cloned map holds the same keys, scalars and types at every level, in the same order, and
  is well formed with an index of its own.\<close>

theorem clone_same:
  assumes "chain_ok c"
  shows "chain_ok (m_clone c) \<and> tree_of (m_clone c) = tree_of c"
  using m_clone_ok [of c] assms by simp

theorem clone_same_witness: "tree_of (m_clone (fst (mp_add (nullmap, 0) ''a''))) = [(''a'', VT None 0 [])]"
proof -
  have "chain_ok (fst (mp_add (nullmap, 0) ''a''))"
    using chain_dict.good_insert [OF nullmap_find(3), of "''a''"] by (simp add: cn_ok_def)
  from clone_same [OF this] show ?thesis
    by (simp add: mp_add_def mp_find_def mp_tail_def ent0_def)
qed

end
