(* ===== verification/Types.thy ===== *)
theory Types
  imports Mem
begin

text \<open>
  Declared types (src/exec.c, src/var.c): a type name's flags and the check of a value against
  them, and the attribute bits of a variable.
\<close>

subsection \<open>Parameter types\<close>

abbreviation (input) TY_INT :: nat where "TY_INT \<equiv> 2"
abbreviation (input) TY_NUM :: nat where "TY_NUM \<equiv> 4"
abbreviation (input) TY_PATH :: nat where "TY_PATH \<equiv> 6"
abbreviation (input) TY_COPY :: nat where "TY_COPY \<equiv> 8"
abbreviation (input) TY_KIND :: nat where "TY_KIND \<equiv> 14"
abbreviation (input) TY_OPT :: nat where "TY_OPT \<equiv> 16"

definition ty_is :: "string \<Rightarrow> nat \<Rightarrow> string \<Rightarrow> bool" where
  "ty_is ty n nm \<longleftrightarrow> list_all (\<lambda>i. at ty i = at nm i) [0..<n] \<and> at nm n = NUL"

definition ty_code :: "string \<Rightarrow> nat" where
  "ty_code ty =
    (let n0 = length ty;
         opt = (n0 \<noteq> 0 \<and> at ty (n0 - 1) = CHR ''?'');
         f = (if opt then TY_OPT else 0);
         n = (if opt then n0 - 1 else n0)
     in if ty_is ty n ''int'' then f OR TY_INT
        else if ty_is ty n ''num'' then f OR TY_NUM
        else if ty_is ty n ''path'' then f OR TY_PATH
        else if ty_is ty n ''arr'' \<or> ty_is ty n ''map'' then f OR TY_COPY
        else f)"

fun ty_digs :: "nat \<Rightarrow> bool \<Rightarrow> string \<Rightarrow> bool" where
  "ty_digs k dot [] = True"
| "ty_digs k dot (c # v) =
     (if c = CHR ''.'' \<and> \<not> dot \<and> k = TY_NUM then ty_digs k True v
      else if byte c < 48 \<or> byte c > 57 then False
      else ty_digs k dot v)"

definition ty_fast :: "nat \<Rightarrow> string \<Rightarrow> bool" where
  "ty_fast f v =
    (let k = f AND TY_KIND in
     if v = [] then f AND TY_OPT \<noteq> 0 \<or> (k \<noteq> TY_INT \<and> k \<noteq> TY_NUM \<and> k \<noteq> TY_PATH)
     else if k \<noteq> TY_INT \<and> k \<noteq> TY_NUM then True
     else let w = (if at v 0 = CHR ''-'' \<or> at v 0 = CHR ''+'' then drop 1 v else v)
          in w \<noteq> [] \<and> ty_digs k False w)"

definition ty_ok :: "string option \<Rightarrow> string \<Rightarrow> bool" where
  "ty_ok ty v \<longleftrightarrow> ty = None \<or> ty = Some [] \<or> ty_fast (ty_code (the ty)) v"

subsection \<open>Attribute bits of a variable\<close>

abbreviation (input) A_INT :: "32 word" where "A_INT \<equiv> 1"
abbreviation (input) A_REF :: "32 word" where "A_REF \<equiv> 2"
abbreviation (input) A_LOW :: "32 word" where "A_LOW \<equiv> 4"
abbreviation (input) A_UPP :: "32 word" where "A_UPP \<equiv> 8"
abbreviation (input) A_TYMASK :: "32 word" where "A_TYMASK \<equiv> 0xF00"

text \<open>Whether any of the bits is set.\<close>

definition has :: "32 word \<Rightarrow> 32 word \<Rightarrow> bool" where
  "has a b \<longleftrightarrow> a AND b \<noteq> 0"

definition v_tynames :: "string list" where
  "v_tynames = [[], ''int'', ''num'', ''str'', ''path'', ''arr'', ''map'', ''any'']"

fun tycode_loop :: "string list \<Rightarrow> nat \<Rightarrow> string \<Rightarrow> nat" where
  "tycode_loop [] i nm = 0"
| "tycode_loop (t # ts) i nm = (if nm = t then i else tycode_loop ts (i + 1) nm)"

definition v_tycode :: "string \<Rightarrow> nat" where
  "v_tycode nm = tycode_loop (tl v_tynames) 1 nm"

text \<open>Codes past the table are never stored; they read as no type.\<close>

definition v_tyname :: "32 word \<Rightarrow> string" where
  "v_tyname a =
    (let c = unat (drop_bit 8 (a AND A_TYMASK)) in
     if c \<noteq> 0 \<and> c < length v_tynames then v_tynames ! c else [])"

subsection \<open>What the checks accept\<close>

lemma ty_is_iff:
  assumes "n \<le> length ty" "cstr ty" "cstr nm"
  shows "ty_is ty n nm \<longleftrightarrow> take n ty = nm"
proof
  assume t: "ty_is ty n nm"
  then have e: "at ty i = at nm i" if "i < n" for i using that by (auto simp: ty_is_def list_all_iff)
  have l: "length nm = n"
  proof (rule ccontr)
    assume "length nm \<noteq> n"
    then consider "length nm < n" | "n < length nm" by linarith
    then show False
    proof cases
      case 1
      then have "at ty (length nm) = NUL" using e [of "length nm"] by (simp add: at_def)
      moreover have "at ty (length nm) \<in> set ty" using 1 assms(1) by (simp add: at_def)
      ultimately show False using assms(2) by (simp add: cstr_def)
    next
      case 2
      then have "NUL \<in> set nm" using t by (auto simp: ty_is_def at_def dest: nth_mem)
      then show False using assms(3) by (simp add: cstr_def)
    qed
  qed
  then show "take n ty = nm" using assms(1) e by (intro nth_equalityI) (auto simp: at_def)
next
  assume "take n ty = nm"
  then show "ty_is ty n nm" using assms(1) by (auto simp: ty_is_def list_all_iff at_def)
qed

lemma ty_digs_int: "ty_digs TY_INT d v \<longleftrightarrow> list_all isdigit v"
  by (induction v arbitrary: d) (auto simp: isdigit_def not_less)

lemma ty_digs_num:
  "ty_digs TY_NUM d v \<longleftrightarrow> (\<forall>c \<in> set v. isdigit c \<or> c = CHR ''.'') \<and> count_list v (CHR ''.'') + of_bool d \<le> 1"
proof (induction v arbitrary: d)
  case (Cons c v)
  have "\<not> isdigit (CHR ''.'')" by (simp add: byte_simps)
  with Cons show ?case by (cases "c = CHR ''.''") (auto simp: isdigit_def not_less)
qed simp

text \<open>An \<open>int\<close> is an optional sign and digits: the texts \<open>s_num\<close> writes are among them.\<close>

lemma ty_code_base: "ty_code ''int'' = 2" "ty_code ''num'' = 4" "ty_code ''str'' = 0" "ty_code ''int?'' = 18"
  by code_simp+

lemma ty_fast_int:
  "ty_fast TY_INT v \<longleftrightarrow> (let w = (if at v 0 = CHR ''-'' \<or> at v 0 = CHR ''+'' then drop 1 v else v)
                        in w \<noteq> [] \<and> list_all isdigit w)"
proof -
  have "(2::nat) AND 14 = 2" "(2::nat) AND 16 = 0" by code_simp+
  then show ?thesis by (auto simp: ty_fast_def ty_digs_int Let_def)
qed

lemma ty_fast_s_num: "ty_fast TY_INT (s_num v)"
proof -
  obtain c cs where p: "putdig (nat \<bar>v\<bar>) [] = c # cs" "isdigit c" "set cs \<subseteq> {c. isdigit c}" by (rule putdig_Cons)
  with digit_not_space [OF p(2)] show ?thesis
    by (auto simp: ty_fast_int s_num_def list_all_iff Let_def)
qed

text \<open>A lone point passes as a number: the check counts points but asks for no digit.\<close>

lemma ty_num_point: "ty_ok (Some ''num'') ''.''"
  by code_simp

lemma v_tycode_name: "0 < v_tycode nm \<Longrightarrow> v_tyname (push_bit 8 (of_nat (v_tycode nm))) = nm"
  by (auto simp: v_tycode_def v_tynames_def v_tyname_def Let_def split: if_splits)

subsection \<open>Properties\<close>

text \<open>A value passes as \<open>int\<close> exactly when it is an optional sign and at least one digit, the
  decimal text of every number passes, and \<open>int?\<close> adds the empty value and nothing else.\<close>

theorem int_type:
  shows "(ty_ok (Some ''int'') v \<longleftrightarrow> (let w = (if at v 0 = CHR ''-'' \<or> at v 0 = CHR ''+'' then drop 1 v else v)
             in w \<noteq> [] \<and> list_all isdigit w)) \<and>
    ty_ok (Some ''int'') (s_num n) \<and> (ty_ok (Some ''int?'') v \<longleftrightarrow> v = [] \<or> ty_ok (Some ''int'') v)"
proof -
  have b: "(18::nat) AND 14 = 2" "(18::nat) AND 16 = 16" "(2::nat) AND 14 = 2" "(2::nat) AND 16 = 0" by code_simp+
  have "ty_fast 18 v \<longleftrightarrow> v = [] \<or> ty_fast TY_INT v" by (auto simp: ty_fast_def b Let_def)
  then show ?thesis using ty_fast_int [of v] ty_fast_s_num [of n]
    by (simp add: ty_ok_def ty_code_base)
qed

end
