(* ===== verification/Vars.thy ===== *)
theory Vars
  imports MapChain Utf8 Types "HOL-Library.Multiset"
begin

text \<open>
  The variable table of src/var.c and the scopes of src/exec.c. The table is its buckets, each
  a list in chain order; a pointer to a variable is its name, and a variable changed through a
  pointer is changed in its place. The arithmetic evaluator, which an integer attribute calls
  and which may itself assign, is the argument \<open>ax\<close>; src/expand.c gives it in Arith. The
  process environment, the random seed, the clock and the caches that an assignment drops are
  fields of the state. Log messages are not state. The status array of a pipeline
  (\<open>PIPESTATUS\<close>) is made on demand by src/exec.c; the lookups here are those made while none
  is pending.
\<close>

subsection \<open>State\<close>

record var =
  vk :: string
  vv :: "string option"
  vmap :: chain
  vn :: nat
  vty :: nat
  vex :: bool
  vro :: bool
  vam :: bool
  vat :: "32 word"

record sav =
  sk :: string
  sv :: "string option"
  sw :: "var option"
  sex :: bool

record sh =
  tab :: "var list list"
  tsz :: nat
  tn :: nat
  st :: int
  sopt :: "32 word"
  sfl :: "32 word"
  decl :: nat
  scope :: "sav list list"
  srcdep :: nat
  srefuse :: bool
  refused :: nat
  env :: "string \<Rightarrow> string option"
  seed :: nat
  t0 :: int
  now :: int
  cmds :: "string list"
  ifsok :: bool
  ifsc :: "string option"
  fnok :: bool
  ldmode :: int

type_synonym evalr = "sh \<Rightarrow> string \<Rightarrow> sh \<times> int"

abbreviation (input) SF_VAR :: "32 word" where "SF_VAR \<equiv> 2"
abbreviation (input) O_ALLEXP :: "32 word" where "O_ALLEXP \<equiv> 65536"
abbreviation (input) J_OBJ :: nat where "J_OBJ \<equiv> 4"
abbreviation (input) J_ARR :: nat where "J_ARR \<equiv> 5"
abbreviation (input) TAB0 :: nat where "TAB0 \<equiv> 64"

definition new_var :: "string \<Rightarrow> string \<Rightarrow> bool \<Rightarrow> var" where
  "new_var k v ex = \<lparr>vk = k, vv = Some v, vmap = nullmap, vn = 0, vty = 0, vex = ex, vro = False, vam = False, vat = 0\<rparr>"

definition is_ref :: "var \<Rightarrow> bool" where
  "is_ref e \<longleftrightarrow> has (vat e) A_REF"

text \<open>A reference that names something: \<open>(v->at & A_REF) && v->v && *v->v\<close>.\<close>

definition follows :: "var \<Rightarrow> bool" where
  "follows e \<longleftrightarrow> is_ref e \<and> vv e \<noteq> None \<and> vv e \<noteq> Some []"

subsection \<open>The table\<close>

definition slot_of :: "nat \<Rightarrow> string \<Rightarrow> nat" where
  "slot_of sz k = unat (vh k) AND (sz - 1)"

definition v_find :: "sh \<Rightarrow> string \<Rightarrow> var option" where
  "v_find s k = (if tab s = [] then None else find (\<lambda>v. vk v = k) (tab s ! slot_of (tsz s) k))"

definition rehash :: "nat \<Rightarrow> var list list \<Rightarrow> var \<Rightarrow> var list list" where
  "rehash ns nt v = (let b = slot_of ns (vk v) in nt[b := v # nt ! b])"

definition v_grow :: "sh \<Rightarrow> sh" where
  "v_grow s =
    (let ns = (if tsz s \<noteq> 0 then tsz s * 2 else TAB0);
         nt = foldl (\<lambda>nt b. foldl (rehash ns) nt b) (replicate ns []) (tab s)
     in s\<lparr>tab := nt, tsz := ns\<rparr>)"

text \<open>\<open>if (!s->tab || s->tn * 4 >= s->tsz * 3) v_grow(s);\<close>\<close>

definition v_room :: "sh \<Rightarrow> sh" where
  "v_room s = (if tab s = [] \<or> tn s * 4 \<ge> tsz s * 3 then v_grow s else s)"

text \<open>A variable changed through its pointer, a record pushed on its bucket, one unlinked.\<close>

definition v_upd :: "sh \<Rightarrow> string \<Rightarrow> (var \<Rightarrow> var) \<Rightarrow> sh" where
  "v_upd s k f =
    (let b = slot_of (tsz s) k
     in s\<lparr>tab := (tab s)[b := map (\<lambda>v. if vk v = k then f v else v) (tab s ! b)]\<rparr>)"

definition v_link :: "sh \<Rightarrow> var \<Rightarrow> sh" where
  "v_link s v =
    (let b = slot_of (tsz s) (vk v) in s\<lparr>tab := (tab s)[b := v # tab s ! b], tn := tn s + 1\<rparr>)"

fun unlink_var :: "var list \<Rightarrow> string \<Rightarrow> var list" where
  "unlink_var [] k = []"
| "unlink_var (v # vs) k = (if vk v = k then vs else v # unlink_var vs k)"

definition v_unlink :: "sh \<Rightarrow> string \<Rightarrow> sh" where
  "v_unlink s k =
    (let b = slot_of (tsz s) k in s\<lparr>tab := (tab s)[b := unlink_var (tab s ! b) k], tn := tn s - 1\<rparr>)"

text \<open>What the shell keeps a copy of, dropped when the variable changes.\<close>

definition v_named :: "sh \<Rightarrow> string \<Rightarrow> sh" where
  "v_named s k =
    (if k = ''PATH'' then s\<lparr>cmds := []\<rparr>
     else if k = ''IFS'' then s\<lparr>ifsok := False\<rparr>
     else if k = ''FUNCNEST'' then s\<lparr>fnok := False\<rparr>
     else if k = ''HIBR_MODULES'' then s\<lparr>ldmode := -1\<rparr>
     else s)"

definition setenv :: "sh \<Rightarrow> string \<Rightarrow> string \<Rightarrow> sh" where
  "setenv s k v = s\<lparr>env := (env s)(k := Some v)\<rparr>"

definition unsetenv :: "sh \<Rightarrow> string \<Rightarrow> sh" where
  "unsetenv s k = s\<lparr>env := (env s)(k := None)\<rparr>"

subsection \<open>Reading\<close>

text \<open>\<open>hibr_get\<close> follows at most 16 references and reads what it has reached by then.\<close>

fun get_chase :: "sh \<Rightarrow> nat \<Rightarrow> var option \<Rightarrow> var option" where
  "get_chase s h None = None"
| "get_chase s 0 (Some v) = Some v"
| "get_chase s (Suc h) (Some v) =
     (if follows v then get_chase s h (v_find s (the (vv v))) else Some v)"

definition hibr_get :: "sh \<Rightarrow> string \<Rightarrow> string option" where
  "hibr_get s k = (case get_chase s 16 (v_find s k) of None \<Rightarrow> None | Some v \<Rightarrow> vv v)"

definition sh_ifs :: "sh \<Rightarrow> sh \<times> string option" where
  "sh_ifs s =
    (if \<not> ifsok s then
       (let c = hibr_get s ''IFS'';
            c' = (if c = Some [CHR '' '', CHR 0x09, CHR 0x0A] then None else c)
        in (s\<lparr>ifsc := c', ifsok := True\<rparr>, c'))
     else (s, ifsc s))"

text \<open>\<open>v_findr\<close>: the name reached and its variable; an element reference is not followed, and a
  cycle or a seventeenth hop stops on the reference itself.\<close>

fun findr_loop :: "sh \<Rightarrow> nat \<Rightarrow> string \<Rightarrow> string \<times> var option" where
  "findr_loop s h nm =
     (case v_find s nm of
        None \<Rightarrow> (nm, None)
      | Some v \<Rightarrow>
          if follows v \<and> CHR ''['' \<notin> set (the (vv v)) then
            (if the (vv v) = nm then (nm, Some v)
             else case h of 0 \<Rightarrow> (nm, Some v) | Suc h' \<Rightarrow> findr_loop s h' (the (vv v)))
          else (nm, Some v))"

declare findr_loop.simps [simp del]

definition v_findr :: "sh \<Rightarrow> string \<Rightarrow> string \<times> var option" where
  "v_findr s nm = findr_loop s 16 nm"

subsection \<open>Assigning\<close>

definition v_coerce :: "evalr \<Rightarrow> sh \<Rightarrow> var \<Rightarrow> string \<Rightarrow> sh \<times> string option" where
  "v_coerce ax s e v0 =
    (let ty = v_tyname (vat e);
         v = (if has (vat e) (A_LOW OR A_UPP) then u8cased v0 (has (vat e) A_UPP) False else v0)
     in if has (vat e) A_INT then (let (s', n) = ax s v in (s', Some (s_num n)))
        else if ty \<noteq> [] \<and> \<not> ty_ok (Some ty) v then (s\<lparr>refused := 2\<rparr>, None)
        else (s, Some v))"

definition v_dyn :: "sh \<Rightarrow> string \<Rightarrow> string \<Rightarrow> sh option" where
  "v_dyn s k v =
    (if k = ''RANDOM'' then Some (s\<lparr>seed := nat (fst (strtol 10 v) mod 2 ^ 32)\<rparr>)
     else if k = ''SECONDS'' then Some (s\<lparr>t0 := now s - fst (strtol 10 v)\<rparr>)
     else if k = ''EPOCHSECONDS'' \<or> k = ''EPOCHREALTIME'' then Some s
     else None)"

definition v_shellvar :: "string \<Rightarrow> bool" where
  "v_shellvar k \<longleftrightarrow>
    k \<in> {''RET'', ''RET_RIGHT'', ''M'', ''REPLY'', ''OPTARG'', ''OPTIND'', ''ERR'', ''ERRMSG'',
         ''ERRSTATUS'', ''CMD'', ''REMOTE'', ''PIPESTATUS'', ''MAPFILE'', ''BASH_REMATCH'', ''PWD'',
         ''OLDPWD'', ''_'', ''HIBR_KITTYID''}"

definition asg_local :: "sh \<Rightarrow> string \<Rightarrow> bool" where
  "asg_local s k \<longleftrightarrow> list_ex (\<lambda>fr. list_ex (\<lambda>r. sk r = k) fr) (scope s)"

definition name_start :: "string \<Rightarrow> bool" where
  "name_start k \<longleftrightarrow> isalpha (at k 0) \<or> at k 0 = CHR ''_''"

definition v_strict :: "sh \<Rightarrow> string \<Rightarrow> sh \<times> bool" where
  "v_strict s k =
    (if \<not> has (sfl s) SF_VAR \<or> decl s \<noteq> 0 \<or> length (scope s) \<le> srcdep s \<or> \<not> name_start k \<or> v_shellvar k \<or>
        asg_local s k
     then (s, False) else (s\<lparr>srefuse := True\<rparr>, True))"

text \<open>The references from \<open>k\<close> and its variable: \<open>None\<close> is a seventeenth hop.\<close>

fun ref_chase :: "sh \<Rightarrow> nat \<Rightarrow> string \<Rightarrow> var option \<Rightarrow> (string \<times> var option) option" where
  "ref_chase s h k None = Some (k, None)"
| "ref_chase s h k (Some e) =
     (if follows e then
        (case h of 0 \<Rightarrow> None | Suc h' \<Rightarrow> ref_chase s h' (the (vv e)) (v_find s (the (vv e))))
      else Some (k, Some e))"

text \<open>A value stored in a variable that is there, its map freed.\<close>

definition v_store :: "sh \<Rightarrow> string \<Rightarrow> string \<Rightarrow> bool \<Rightarrow> sh" where
  "v_store s k v ex =
    (let s1 = v_upd s k (\<lambda>e. e\<lparr>vmap := nullmap, vn := 0, vv := Some v, vex := vex e \<or> ex\<rparr>);
         s2 = (case v_find s1 k of Some e \<Rightarrow> if vex e then setenv s1 k v else s1 | None \<Rightarrow> s1)
     in v_named s2 k)"

text \<open>A variable that was not there.\<close>

definition v_create :: "sh \<Rightarrow> string \<Rightarrow> string \<Rightarrow> bool \<Rightarrow> sh" where
  "v_create s k v ex =
    (let s1 = v_named s k; s2 = (if ex then setenv s1 k v else s1) in v_link s2 (new_var k v ex))"

text \<open>
  \<open>v_assign\<close> with its two further calls open: \<open>rec\<close> is the call it makes of itself at the end of
  a chain of references, \<open>arr0\<close> the assignment to element 0 of an array.
\<close>

definition v_assign_step ::
  "evalr \<Rightarrow> (sh \<Rightarrow> string \<Rightarrow> string \<Rightarrow> bool \<Rightarrow> sh \<times> int) \<Rightarrow> (sh \<Rightarrow> string \<Rightarrow> string \<Rightarrow> sh) \<Rightarrow>
    sh \<Rightarrow> string \<Rightarrow> string \<Rightarrow> bool \<Rightarrow> bool \<Rightarrow> sh \<times> int" where
  "v_assign_step ax rec arr0 s0 k v ex0 keep =
    (case (if at k 0 = CHR ''R'' \<or> at k 0 = CHR ''S'' \<or> at k 0 = CHR ''E'' then v_dyn s0 k v else None) of
       Some s \<Rightarrow> (s, HIBR_OK)
     | None \<Rightarrow>
       let ex = (ex0 \<or> has (sopt s0) O_ALLEXP \<and> name_start k \<and> \<not> v_shellvar k);
           s = v_room s0
       in case v_find s k of
            Some e \<Rightarrow>
              if vro e then (s\<lparr>st := 1, refused := 1\<rparr>, HIBR_FAIL)
              else if is_ref e then
                (case ref_chase s 16 k (Some e) of
                   None \<Rightarrow> (s\<lparr>st := 1\<rparr>, HIBR_FAIL)
                 | Some (k', Some e') \<Rightarrow>
                     if is_ref e' then (v_upd s k' (\<lambda>e. e\<lparr>vv := Some v\<rparr>), HIBR_OK)
                     else rec s k' v ex
                 | Some (k', None) \<Rightarrow> rec s k' v ex)
              else if keep \<and> (vam e \<or> ents (vmap e) \<noteq> []) then (arr0 s k v, HIBR_OK)
              else
                (case v_coerce ax s e v of
                   (s', None) \<Rightarrow> (s'\<lparr>st := 1\<rparr>, HIBR_FAIL)
                 | (s', Some v') \<Rightarrow> (v_store s' k v' ex, HIBR_OK))
          | None \<Rightarrow>
              if sfl s \<noteq> 0 \<and> snd (v_strict s k) then ((fst (v_strict s k))\<lparr>st := 1\<rparr>, HIBR_FAIL)
              else (v_create s k v ex, HIBR_OK))"

text \<open>
  At the end of a chain the name is no reference, so the inner call makes none of its own; the
  outermost \<open>rec\<close> below is never reached (\<open>v_assign_fix\<close>).
\<close>

definition hibr_set :: "evalr \<Rightarrow> sh \<Rightarrow> string \<Rightarrow> string \<Rightarrow> bool \<Rightarrow> sh \<times> int" where
  "hibr_set ax =
    (\<lambda>s k v ex.
      v_assign_step ax
        (\<lambda>s k v ex. v_assign_step ax (\<lambda>s k v ex. (s, HIBR_FAIL)) (\<lambda>s k v. s) s k v ex False)
        (\<lambda>s k v. s) s k v ex False)"

text \<open>Element writes.\<close>

definition set_ent :: "string \<Rightarrow> ent \<Rightarrow> ent" where
  "set_ent val e = Ent (ekey e) (Some val) nullmap 0 (if ety e = J_ARR \<or> ety e = J_OBJ then 0 else ety e)"

definition v_setp :: "evalr \<Rightarrow> sh \<Rightarrow> string \<Rightarrow> string list \<Rightarrow> string \<Rightarrow> sh" where
  "v_setp ax s nm0 ks val0 =
    (if ks = [] then fst (hibr_set ax s nm0 val0 False)
     else let (nm, v) = v_findr s nm0 in
       if v \<noteq> None \<and> vro (the v) then s\<lparr>st := 1, refused := 1\<rparr>
       else
         let (s1, val) =
               (if v \<noteq> None \<and> has (vat (the v)) (A_INT OR A_LOW OR A_UPP) then
                  (case v_coerce ax s (the v) val0 of (s', Some cv) \<Rightarrow> (s', cv) | (s', None) \<Rightarrow> (s', val0))
                else (s, val0));
             s2 = (if v = None then fst (hibr_set ax s1 nm [] False) else s1)
         in case v_find s2 nm of
              None \<Rightarrow> s2
            | Some w \<Rightarrow>
                let s3 = v_upd s2 nm (\<lambda>e. let (m, n) = walk_upd (set_ent val) (vmap e, vn e) ks
                                         in e\<lparr>vmap := m, vn := n, vam := True\<rparr>)
                in if ks = [''0''] \<and> \<not> is_ref w then v_named (v_upd s3 nm (\<lambda>e. e\<lparr>vv := Some val\<rparr>)) nm
                   else s3)"

definition v_assign :: "evalr \<Rightarrow> sh \<Rightarrow> string \<Rightarrow> string \<Rightarrow> bool \<Rightarrow> bool \<Rightarrow> sh \<times> int" where
  "v_assign ax s k v ex keep =
    v_assign_step ax
      (\<lambda>s k v ex. v_assign_step ax (\<lambda>s k v ex. (s, HIBR_FAIL)) (\<lambda>s k v. v_setp ax s k [''0''] v) s k v ex keep)
      (\<lambda>s k v. v_setp ax s k [''0''] v) s k v ex keep"

subsection \<open>Removing, setting aside, restoring\<close>

definition v_del :: "sh \<Rightarrow> string \<Rightarrow> sh" where
  "v_del s k =
    (case v_find s k of
       None \<Rightarrow> s
     | Some v \<Rightarrow>
         let s1 = v_named (v_unlink s k) k in if vex v then unsetenv s1 k else s1)"

definition v_take :: "sh \<Rightarrow> string \<Rightarrow> sh \<times> var option" where
  "v_take s k =
    (case v_find s k of None \<Rightarrow> (s, None) | Some v \<Rightarrow> (v_named (v_unlink s k) k, Some v))"

definition v_back :: "sh \<Rightarrow> var \<Rightarrow> sh" where
  "v_back s v =
    (let s1 = v_link (v_room (v_del s (vk v))) v;
         s2 = (if vex v then (case vv v of Some t \<Rightarrow> setenv s1 (vk v) t | None \<Rightarrow> s1) else s1)
     in v_named s2 (vk v))"

subsection \<open>Table invariant\<close>

abbreviation vars :: "sh \<Rightarrow> var list" where
  "vars s \<equiv> concat (tab s)"

definition tab_ok :: "sh \<Rightarrow> bool" where
  "tab_ok s \<longleftrightarrow> length (tab s) = tsz s \<and> (tsz s = 0 \<or> (\<exists>j. tsz s = 2 ^ j)) \<and>
    (\<forall>b < tsz s. \<forall>v \<in> set (tab s ! b). slot_of (tsz s) (vk v) = b) \<and>
    distinct (map vk (vars s)) \<and> tn s = length (vars s)"

definition var_ok :: "var \<Rightarrow> bool" where
  "var_ok v \<longleftrightarrow> cn_ok (vmap v, vn v)"

definition sh_ok :: "sh \<Rightarrow> bool" where
  "sh_ok s \<longleftrightarrow> tab_ok s \<and> (\<forall>v \<in> set (vars s). var_ok v)"

lemma slot_less: "slot_of (2 ^ j) k < 2 ^ j"
  by (simp add: slot_of_def and_pow2_minus1 [unfolded One_nat_def])

lemma tab_ok_slot: "tab_ok s \<Longrightarrow> tab s \<noteq> [] \<Longrightarrow> slot_of (tsz s) k < length (tab s)"
  using slot_less by (auto simp: tab_ok_def)

lemma tab_ok_bucket:
  assumes "tab_ok s" and "v \<in> set (vars s)"
  shows "tab s \<noteq> [] \<and> v \<in> set (tab s ! slot_of (tsz s) (vk v))"
proof -
  from assms(2) obtain b where b: "b < length (tab s)" "v \<in> set (tab s ! b)"
    by (auto simp: in_set_conv_nth) (metis nth_mem)
  with assms(1) have "slot_of (tsz s) (vk v) = b" by (auto simp: tab_ok_def)
  with b show ?thesis by auto
qed

lemma find_SomeD: "find P xs = Some x \<Longrightarrow> x \<in> set xs \<and> P x"
  by (auto simp: find_Some_iff)

lemma v_find_iff:
  assumes "tab_ok s"
  shows "v_find s k = Some v \<longleftrightarrow> v \<in> set (vars s) \<and> vk v = k"
proof
  assume f: "v_find s k = Some v"
  then have "tab s \<noteq> []" by (auto simp: v_find_def)
  with f tab_ok_slot [OF assms this, of k] show "v \<in> set (vars s) \<and> vk v = k"
    by (auto simp: v_find_def dest!: find_SomeD intro: nth_mem)
next
  assume v: "v \<in> set (vars s) \<and> vk v = k"
  with tab_ok_bucket [OF assms] have ne: "tab s \<noteq> []" and m: "v \<in> set (tab s ! slot_of (tsz s) k)" by auto
  then have "find (\<lambda>v. vk v = k) (tab s ! slot_of (tsz s) k) \<noteq> None" using v by (auto simp: find_None_iff)
  then obtain w where w: "find (\<lambda>v. vk v = k) (tab s ! slot_of (tsz s) k) = Some w" by blast
  then have "w \<in> set (tab s ! slot_of (tsz s) k)" "vk w = k" by (auto simp: find_Some_iff)
  then have "w \<in> set (vars s)" using tab_ok_slot [OF assms ne, of k] by auto
  with v \<open>vk w = k\<close> assms have "w = v" by (auto simp: tab_ok_def distinct_map inj_on_def)
  with w ne show "v_find s k = Some v" by (simp add: v_find_def)
qed

lemma v_find_None: "tab_ok s \<Longrightarrow> v_find s k = None \<longleftrightarrow> k \<notin> vk ` set (vars s)"
  using v_find_iff [of s k] by (metis imageE image_eqI not_None_eq)

lemma option_eqI: "(\<And>w. x = Some w \<longleftrightarrow> y = Some w) \<Longrightarrow> x = y"
  by (cases x; cases y) auto

text \<open>Two tables with the same variables find the same.\<close>

lemma v_find_cong: "tab_ok s \<Longrightarrow> tab_ok s' \<Longrightarrow> set (vars s) = set (vars s') \<Longrightarrow> v_find s = v_find s'"
  by (intro ext option_eqI) (simp add: v_find_iff)

lemma mset_concat_update:
  "i < length xs \<Longrightarrow> mset (concat (xs[i := ys])) + mset (xs ! i) = mset (concat xs) + mset ys"
proof (induction xs arbitrary: i)
  case (Cons x xs)
  then show ?case by (cases i) (auto simp: union_commute union_assoc)
qed simp

lemma tab_okI:
  assumes "length (tab s) = tsz s" "\<exists>j. tsz s = 2 ^ j"
    "\<And>b v. b < tsz s \<Longrightarrow> v \<in> set (tab s ! b) \<Longrightarrow> slot_of (tsz s) (vk v) = b"
    "distinct (map vk (vars s))" "tn s = length (vars s)"
  shows "tab_ok s"
  using assms by (auto simp: tab_ok_def)

lemma distinct_mset_map: "mset xs = mset ys \<Longrightarrow> distinct (map f xs) = distinct (map f ys)"
  by (metis mset_eq_imp_distinct_iff mset_map)

lemma foldl_foldl_concat: "foldl (\<lambda>a xs. foldl f a xs) a xss = foldl f a (concat xss)"
  by (induction xss arbitrary: a) auto

lemma rehash_all:
  "length nt = 2 ^ j \<Longrightarrow> b < 2 ^ j \<Longrightarrow> length (foldl (rehash (2 ^ j)) nt vs) = 2 ^ j \<and>
    foldl (rehash (2 ^ j)) nt vs ! b = rev (filter (\<lambda>v. slot_of (2 ^ j) (vk v) = b) vs) @ nt ! b"
proof (induction vs arbitrary: nt)
  case (Cons v vs)
  then show ?case using slot_less [of j "vk v"] by (auto simp: rehash_def Let_def nth_list_update)
qed simp

lemma rehash_mset:
  "length nt = 2 ^ j \<Longrightarrow> mset (concat (foldl (rehash (2 ^ j)) nt vs)) = mset (concat nt) + mset vs"
proof (induction vs arbitrary: nt)
  case (Cons v vs)
  let ?b = "slot_of (2 ^ j) (vk v)"
  have b: "?b < length nt" using slot_less [of j] Cons.prems by simp
  have "mset (concat (nt[?b := v # nt ! ?b])) = add_mset v (mset (concat nt))"
    using mset_concat_update [OF b, of "v # nt ! ?b"] by simp
  with Cons show ?case by (simp add: rehash_def Let_def)
qed simp

lemma v_grow_ok:
  assumes "tab_ok s"
  shows "tab_ok (v_grow s)" and "v_find (v_grow s) = v_find s" and "mset (vars (v_grow s)) = mset (vars s)"
    and "tab (v_grow s) \<noteq> []" and "tsz s < tsz (v_grow s)" and "tn (v_grow s) = tn s"
proof -
  obtain j where j: "(if tsz s \<noteq> 0 then tsz s * 2 else 64) = 2 ^ j"
  proof (cases "tsz s = 0")
    case True
    then show ?thesis by (intro that [of 6]) simp
  next
    case False
    then obtain i where "tsz s = 2 ^ i" using assms by (auto simp: tab_ok_def)
    then show ?thesis by (intro that [of "Suc i"]) simp
  qed
  let ?nt = "foldl (rehash (2 ^ j)) (replicate (2 ^ j) []) (vars s)"
  have g: "v_grow s = s\<lparr>tab := ?nt, tsz := 2 ^ j\<rparr>"
    unfolding v_grow_def j Let_def foldl_foldl_concat by simp
  have l: "length ?nt = 2 ^ j" using rehash_all [of "replicate (2 ^ j) []" j 0] by simp
  show m: "mset (vars (v_grow s)) = mset (vars s)" by (simp add: g rehash_mset)
  then have set: "set (vars (v_grow s)) = set (vars s)" by (metis set_mset_mset)
  show ok: "tab_ok (v_grow s)"
  proof (rule tab_okI)
    show "length (tab (v_grow s)) = tsz (v_grow s)" "\<exists>j. tsz (v_grow s) = 2 ^ j" using l by (auto simp: g)
    show "slot_of (tsz (v_grow s)) (vk v) = b" if "b < tsz (v_grow s)" "v \<in> set (tab (v_grow s) ! b)" for b v
      using that rehash_all [of "replicate (2 ^ j) []" j b "vars s"] by (simp add: g)
    show "distinct (map vk (vars (v_grow s)))" using assms distinct_mset_map [OF m, of vk] unfolding tab_ok_def by blast
    show "tn (v_grow s) = length (vars (v_grow s))" using assms mset_eq_length [OF m] by (simp add: tab_ok_def g)
  qed
  show "v_find (v_grow s) = v_find s" by (rule v_find_cong [OF ok assms set])
  show "tab (v_grow s) \<noteq> []" using l by (auto simp: g)
  show "tsz s < tsz (v_grow s)" using j by (auto simp: g split: if_splits)
  show "tn (v_grow s) = tn s" by (simp add: g)
qed

text \<open>Only the table decides what is found.\<close>

lemma same_tab:
  assumes "tab s' = tab s" "tsz s' = tsz s" "tn s' = tn s"
  shows "v_find s' = v_find s" "tab_ok s' = tab_ok s" "sh_ok s' = sh_ok s"
  using assms by (auto simp: v_find_def fun_eq_iff tab_ok_def sh_ok_def)

lemma side_tab [simp]:
  "tab (v_named s k) = tab s" "tsz (v_named s k) = tsz s" "tn (v_named s k) = tn s"
  "tab (setenv s k v) = tab s" "tsz (setenv s k v) = tsz s" "tn (setenv s k v) = tn s"
  "tab (unsetenv s k) = tab s" "tsz (unsetenv s k) = tsz s" "tn (unsetenv s k) = tn s"
  by (simp_all add: v_named_def setenv_def unsetenv_def)

lemma side_env [simp]: "env (v_named s k) = env s" "env (setenv s k v) = (env s)(k := Some v)"
  by (simp_all add: v_named_def setenv_def)

lemma side_find [simp]:
  "v_find (v_named s k) = v_find s" "v_find (setenv s k v) = v_find s" "v_find (unsetenv s k) = v_find s"
  "sh_ok (v_named s k) = sh_ok s" "sh_ok (setenv s k v) = sh_ok s" "sh_ok (unsetenv s k) = sh_ok s"
  by (rule same_tab; simp)+

lemma field_find [simp]:
  "v_find (s\<lparr>st := a\<rparr>) = v_find s" "v_find (s\<lparr>refused := b\<rparr>) = v_find s" "v_find (s\<lparr>srefuse := c\<rparr>) = v_find s"
  "v_find (s\<lparr>seed := d\<rparr>) = v_find s" "v_find (s\<lparr>t0 := e\<rparr>) = v_find s" "v_find (s\<lparr>scope := f\<rparr>) = v_find s"
  "sh_ok (s\<lparr>st := a\<rparr>) = sh_ok s" "sh_ok (s\<lparr>refused := b\<rparr>) = sh_ok s" "sh_ok (s\<lparr>srefuse := c\<rparr>) = sh_ok s"
  "sh_ok (s\<lparr>seed := d\<rparr>) = sh_ok s" "sh_ok (s\<lparr>t0 := e\<rparr>) = sh_ok s" "sh_ok (s\<lparr>scope := f\<rparr>) = sh_ok s"
  by (rule same_tab; simp)+

subsection \<open>What the table operations do\<close>

lemma sh_ok_tab: "sh_ok s \<Longrightarrow> tab_ok s"
  by (simp add: sh_ok_def)

lemma tab_ok_len: "tab_ok s \<Longrightarrow> tab s = [] \<longleftrightarrow> tsz s = 0"
  by (auto simp: tab_ok_def)

lemma other_bucket:
  assumes "tab_ok s" and "i < length (tab s)" "i \<noteq> slot_of (tsz s) k" "v \<in> set (tab s ! i)"
  shows "vk v \<noteq> k"
  using assms by (auto simp: tab_ok_def)

lemma map_key_cong:
  assumes "tab_ok s" "tab s \<noteq> []"
  shows "map (map (\<lambda>v. if vk v = k then f v else v)) (tab s) =
    (tab s)[slot_of (tsz s) k := map (\<lambda>v. if vk v = k then f v else v) (tab s ! slot_of (tsz s) k)]"
proof (rule nth_equalityI)
  fix i assume i: "i < length (map (map (\<lambda>v. if vk v = k then f v else v)) (tab s))"
  have "map (\<lambda>v. if vk v = k then f v else v) (tab s ! i) = tab s ! i" if "i \<noteq> slot_of (tsz s) k"
    using other_bucket [OF assms(1) _ that] i by (intro map_idI) auto
  with i show "map (map (\<lambda>v. if vk v = k then f v else v)) (tab s) ! i =
    (tab s)[slot_of (tsz s) k := map (\<lambda>v. if vk v = k then f v else v) (tab s ! slot_of (tsz s) k)] ! i"
    by (cases "i = slot_of (tsz s) k") auto
qed simp

lemma v_upd_vars:
  assumes "tab_ok s"
  shows "tab (v_upd s k f) = map (map (\<lambda>v. if vk v = k then f v else v)) (tab s)"
    and "vars (v_upd s k f) = map (\<lambda>v. if vk v = k then f v else v) (vars s)"
proof -
  show t: "tab (v_upd s k f) = map (map (\<lambda>v. if vk v = k then f v else v)) (tab s)"
    using map_key_cong [OF assms, of k f] by (cases "tab s = []") (auto simp: v_upd_def Let_def)
  show "vars (v_upd s k f) = map (\<lambda>v. if vk v = k then f v else v) (vars s)"
    unfolding t by (simp add: map_concat)
qed

lemma v_upd_ok:
  assumes ok: "sh_ok s" and f: "\<And>v. v_find s k = Some v \<Longrightarrow> vk (f v) = k \<and> var_ok (f v)"
  shows "sh_ok (v_upd s k f)"
    and "v_find (v_upd s k f) k' = (if k' = k then map_option f (v_find s k) else v_find s k')"
proof -
  note t = sh_ok_tab [OF ok]
  have f': "vk (f v) = k \<and> var_ok (f v)" if "v \<in> set (vars s)" "vk v = k" for v
    using f v_find_iff [OF t] that by blast
  have e: "vk (if vk v = k then f v else v) = vk v" if "v \<in> set (vars s)" for v using f' [OF that] by simp
  have m: "map vk (vars (v_upd s k f)) = map vk (vars s)"
    unfolding v_upd_vars(2) [OF t] using e by (simp cong: map_cong)
  have sz: "tsz (v_upd s k f) = tsz s" "tn (v_upd s k f) = tn s" by (simp_all add: v_upd_def Let_def)
  have t': "tab_ok (v_upd s k f)"
  proof (cases "tsz s = 0")
    case True
    with t show ?thesis by (auto simp: tab_ok_def sz v_upd_vars(1) [OF t])
  next
    case False
    show ?thesis
    proof (rule tab_okI)
      show "slot_of (tsz (v_upd s k f)) (vk v) = b"
        if b: "b < tsz (v_upd s k f)" "v \<in> set (tab (v_upd s k f) ! b)" for b v
      proof -
        from b(1) sz t have lb: "b < length (tab s)" by (simp add: tab_ok_def)
        with b v_upd_vars(1) [OF t] obtain w where w: "w \<in> set (tab s ! b)" "v = (if vk w = k then f w else w)"
          by auto
        have "w \<in> set (vars s)" using w(1) lb by (auto intro: nth_mem)
        with w e have "vk v = vk w" by simp
        with w(1) lb t show ?thesis by (auto simp: sz tab_ok_def)
      qed
    qed (use t False m map_eq_imp_length_eq [OF m] sz in \<open>auto simp: tab_ok_def v_upd_vars(1) [OF t]\<close>)
  qed
  moreover have "var_ok v" if "v \<in> set (vars (v_upd s k f))" for v
  proof -
    from that obtain w where "w \<in> set (vars s)" "v = (if vk w = k then f w else w)"
      unfolding v_upd_vars(2) [OF t] set_map by blast
    with f' ok show ?thesis by (auto simp: sh_ok_def)
  qed
  ultimately show "sh_ok (v_upd s k f)" by (simp add: sh_ok_def)
  show "v_find (v_upd s k f) k' = (if k' = k then map_option f (v_find s k) else v_find s k')"
  proof (cases "v_find s k'")
    case None
    with v_find_None [OF t, of k'] v_find_None [OF t', of k'] m show ?thesis by (metis list.set_map option.map(1))
  next
    case (Some v)
    then have v: "v \<in> set (vars s)" "vk v = k'" by (auto simp: v_find_iff [OF t])
    then have "(if vk v = k then f v else v) \<in> set (vars (v_upd s k f))" unfolding v_upd_vars(2) [OF t] by auto
    moreover from e [OF v(1)] v(2) have "vk (if vk v = k then f v else v) = k'" by simp
    ultimately have "v_find (v_upd s k f) k' = Some (if vk v = k then f v else v)"
      unfolding v_find_iff [OF t'] by blast
    with Some v show ?thesis by auto
  qed
qed

lemma v_link_ok:
  assumes ok: "sh_ok s" and ne: "tab s \<noteq> []" and new: "v_find s (vk v) = None" and v: "var_ok v"
  shows "sh_ok (v_link s v)" and "v_find (v_link s v) k = (if k = vk v then Some v else v_find s k)"
proof -
  note t = sh_ok_tab [OF ok]
  let ?b = "slot_of (tsz s) (vk v)"
  have b: "?b < length (tab s)" by (rule tab_ok_slot [OF t ne])
  have m: "mset (vars (v_link s v)) = add_mset v (mset (vars s))"
    using mset_concat_update [OF b, of "v # tab s ! ?b"] by (simp add: v_link_def Let_def)
  then have set: "set (vars (v_link s v)) = insert v (set (vars s))" by (metis set_mset_mset set_mset_add_mset_insert)
  have t': "tab_ok (v_link s v)"
  proof (rule tab_okI)
    show "length (tab (v_link s v)) = tsz (v_link s v)" "\<exists>j. tsz (v_link s v) = 2 ^ j"
      using t ne by (auto simp: tab_ok_def v_link_def Let_def)
    show "slot_of (tsz (v_link s v)) (vk w) = c" if "c < tsz (v_link s v)" "w \<in> set (tab (v_link s v) ! c)" for c w
      using that t b by (cases "c = ?b") (auto simp: v_link_def Let_def tab_ok_def)
    have "distinct (map vk (v # vars s))" using t new v_find_None [OF t, of "vk v"] by (simp add: tab_ok_def)
    with distinct_mset_map [of "vars (v_link s v)" "v # vars s" vk] m
    show "distinct (map vk (vars (v_link s v)))" by (metis mset.simps(2))
    from m have "size (mset (vars (v_link s v))) = Suc (size (mset (vars s)))" by simp
    with t show "tn (v_link s v) = length (vars (v_link s v))"
      by (simp add: v_link_def Let_def tab_ok_def)
  qed
  with ok v set show "sh_ok (v_link s v)" by (auto simp: sh_ok_def)
  have iff: "v_find (v_link s v) k = Some w \<longleftrightarrow> w = v \<and> vk v = k \<or> v_find s k = Some w" for w
    unfolding v_find_iff [OF t'] v_find_iff [OF t] set by auto
  show "v_find (v_link s v) k = (if k = vk v then Some v else v_find s k)"
    using iff new by (intro option_eqI) auto
qed

lemma unlink_var_filter: "distinct (map vk vs) \<Longrightarrow> unlink_var vs k = filter (\<lambda>v. vk v \<noteq> k) vs"
proof (induction vs)
  case (Cons v vs)
  then have "vk v \<notin> vk ` set vs" by simp
  then have "\<forall>w \<in> set vs. vk w \<noteq> vk v" by (metis image_eqI)
  with Cons show ?case by (auto intro: filter_True [symmetric])
qed simp

lemma v_unlink_ok:
  assumes ok: "sh_ok s"
  shows "v_find s k \<noteq> None \<Longrightarrow> sh_ok (v_unlink s k)"
    and "v_find s k \<noteq> None \<Longrightarrow> v_find (v_unlink s k) k' = (if k' = k then None else v_find s k')"
proof -
  assume f: "v_find s k \<noteq> None"
  note t = sh_ok_tab [OF ok]
  let ?b = "slot_of (tsz s) k"
  have ne: "tab s \<noteq> []" using f by (auto simp: v_find_def)
  have b: "?b < length (tab s)" by (rule tab_ok_slot [OF t ne])
  have "distinct (map vk (tab s ! ?b))"
    using t b by (auto simp: tab_ok_def map_concat distinct_concat_iff)
  then have u: "unlink_var (tab s ! ?b) k = filter (\<lambda>v. vk v \<noteq> k) (tab s ! ?b)" by (rule unlink_var_filter)
  have tab': "tab (v_unlink s k) = map (filter (\<lambda>v. vk v \<noteq> k)) (tab s)"
  proof (rule nth_equalityI)
    fix i assume i: "i < length (tab (v_unlink s k))"
    have "filter (\<lambda>v. vk v \<noteq> k) (tab s ! i) = tab s ! i" if "i \<noteq> ?b" "i < length (tab s)"
      using other_bucket [OF t that(2,1)] by (intro filter_True) auto
    with i u show "tab (v_unlink s k) ! i = map (filter (\<lambda>v. vk v \<noteq> k)) (tab s) ! i"
      by (cases "i = ?b") (auto simp: v_unlink_def Let_def)
  qed (simp add: v_unlink_def Let_def)
  have vs: "vars (v_unlink s k) = filter (\<lambda>v. vk v \<noteq> k) (vars s)" unfolding tab' by (simp add: filter_concat)
  have d: "distinct (map vk (vars s))" using t by (simp add: tab_ok_def)
  obtain v where v: "v \<in> set (vars s)" "vk v = k" using f v_find_iff [OF t] by blast
  have len: "length (vars (v_unlink s k)) = length (vars s) - 1"
    unfolding vs using v by (intro length_filter_key [OF d]) auto
  have sz: "tsz (v_unlink s k) = tsz s" "tn (v_unlink s k) = tn s - 1" by (simp_all add: v_unlink_def Let_def)
  have t': "tab_ok (v_unlink s k)"
  proof (rule tab_okI)
    show "slot_of (tsz (v_unlink s k)) (vk w) = c" if "c < tsz (v_unlink s k)" "w \<in> set (tab (v_unlink s k) ! c)" for c w
      using that t by (auto simp: tab' sz tab_ok_def)
    show "distinct (map vk (vars (v_unlink s k)))" unfolding vs using d by (rule distinct_map_filter)
  qed (use t ne len in \<open>auto simp: tab' sz tab_ok_def\<close>)
  then show "sh_ok (v_unlink s k)" using ok vs by (auto simp: sh_ok_def)
  have iff: "v_find (v_unlink s k) k' = Some w \<longleftrightarrow> k' \<noteq> k \<and> v_find s k' = Some w" for w
    unfolding v_find_iff [OF t'] v_find_iff [OF t] vs by auto
  then show "v_find (v_unlink s k) k' = (if k' = k then None else v_find s k')"
    by (intro option_eqI) simp
qed

subsection \<open>Scopes and temporary assignments\<close>

definition asg_keep :: "sh \<Rightarrow> sav list \<Rightarrow> string \<Rightarrow> sh \<times> sav list" where
  "asg_keep s old k =
    (case v_find s k of
       None \<Rightarrow> (s, old @ [\<lparr>sk = k, sv = None, sw = None, sex = False\<rparr>])
     | Some v \<Rightarrow>
         if (vam v \<or> ents (vmap v) \<noteq> []) \<and> \<not> vro v then
           (let (s', w) = v_take s k in (s', old @ [\<lparr>sk = k, sv = None, sw = w, sex = vex v\<rparr>]))
         else (s, old @ [\<lparr>sk = k, sv = Some (case vv v of Some t \<Rightarrow> t | None \<Rightarrow> []), sw = None, sex = vex v\<rparr>]))"

definition asg_hide :: "sh \<Rightarrow> sav list \<Rightarrow> string \<Rightarrow> sh \<times> sav list \<times> int" where
  "asg_hide s old k =
    (if (case v_find s k of Some v \<Rightarrow> vro v | None \<Rightarrow> False) then (s, old, HIBR_FAIL)
     else let (s', w) = v_take s k in (s', old @ [\<lparr>sk = k, sv = None, sw = w, sex = False\<rparr>], HIBR_OK))"

definition asg_wasex :: "sav list \<Rightarrow> bool" where
  "asg_wasex old \<longleftrightarrow> old \<noteq> [] \<and> (case sw (last old) of Some v \<Rightarrow> vex v | None \<Rightarrow> False)"

text \<open>The end of an assignment's name: past the name and every subscript.\<close>

function asg_subs :: "string \<Rightarrow> nat \<Rightarrow> nat option" where
  "asg_subs kv p =
    (if p < length kv \<and> at kv p = CHR ''['' then
       (case strchr (drop p kv) CHR '']'' of None \<Rightarrow> None | Some i \<Rightarrow> asg_subs kv (p + i + 1))
     else Some p)"
  by pat_completeness auto
termination
  by (relation "measure (\<lambda>(kv, p). length kv - p)") auto

declare asg_subs.simps [simp del]

definition name_char :: "bool \<Rightarrow> char \<Rightarrow> bool" where
  "name_char first c \<longleftrightarrow> c = CHR ''_'' \<or> islower c \<or> isupper c \<or> \<not> first \<and> isdigit c"

definition name_len :: "string \<Rightarrow> nat" where
  "name_len kv = (if kv \<noteq> [] \<and> name_char True (at kv 0) then Suc (length (takeWhile (name_char False) (tl kv))) else 0)"

definition asg_eq :: "string \<Rightarrow> nat option" where
  "asg_eq kv =
    (let p = name_len kv in
     if p = 0 then strchr kv CHR ''=''
     else case asg_subs kv p of
            None \<Rightarrow> strchr kv CHR ''=''
          | Some q \<Rightarrow>
              if at kv q = CHR ''+'' \<and> at kv (q + 1) = CHR ''='' then Some (q + 1)
              else if at kv q = CHR ''='' then Some q
              else strchr kv CHR ''='')"

fun asg_push :: "evalr \<Rightarrow> sh \<Rightarrow> string list \<Rightarrow> sav list \<Rightarrow> sh \<times> sav list" where
  "asg_push ax s [] old = (s, old)"
| "asg_push ax s (kv # asg) old =
     (case asg_eq kv of
        None \<Rightarrow> asg_push ax s asg old
      | Some q \<Rightarrow>
          let (s1, old1) = asg_keep s old (take q kv);
              (s2, rc) = hibr_set ax s1 (take q kv) (drop (q + 1) kv) True
          in asg_push ax s2 asg (if rc \<noteq> HIBR_OK then butlast old1 else old1))"

definition undo1 :: "evalr \<Rightarrow> sav \<Rightarrow> sh \<Rightarrow> sh" where
  "undo1 ax r s =
    (case sw r of
       Some v \<Rightarrow> v_back s v
     | None \<Rightarrow> (case sv r of Some t \<Rightarrow> fst (hibr_set ax s (sk r) t (sex r)) | None \<Rightarrow> v_del s (sk r)))"

text \<open>The records are undone from the newest to the oldest.\<close>

definition asg_pop :: "evalr \<Rightarrow> sh \<Rightarrow> sav list \<Rightarrow> sh" where
  "asg_pop ax s old = foldr (undo1 ax) old s"

subsection \<open>Paths, arrays, copies\<close>

definition v_path :: "sh \<Rightarrow> string \<Rightarrow> string list \<Rightarrow> ent option" where
  "v_path s nm ks = (case snd (v_findr s nm) of None \<Rightarrow> None | Some v \<Rightarrow> walk_get (vmap v) ks)"

definition v_getp :: "sh \<Rightarrow> string \<Rightarrow> string list \<Rightarrow> string option" where
  "v_getp s nm ks =
    (if ks = [] then (case v_find s nm of Some v \<Rightarrow> vv v | None \<Rightarrow> None)
     else case v_path s nm ks of Some e \<Rightarrow> estr e | None \<Rightarrow> None)"

definition v_count :: "sh \<Rightarrow> string \<Rightarrow> string list \<Rightarrow> nat" where
  "v_count s nm ks =
    (case snd (v_findr s nm) of
       None \<Rightarrow> 0
     | Some v \<Rightarrow>
         if ks = [] then (if ents (vmap v) \<noteq> [] \<or> vam v then vn v else 1)
         else case v_path s nm ks of
                None \<Rightarrow> 0
              | Some e \<Rightarrow> if ents (emap e) \<noteq> [] \<or> ety e = J_ARR \<or> ety e = J_OBJ then en e else 1)"

definition v_list :: "sh \<Rightarrow> string \<Rightarrow> string list \<Rightarrow> bool \<Rightarrow> string list" where
  "v_list s nm ks kys =
    (let below = (\<lambda>m. map (\<lambda>e. if kys then ekey e else (case estr e of Some t \<Rightarrow> t | None \<Rightarrow> [])) (ents m)) in
     case snd (v_findr s nm) of
       None \<Rightarrow> []
     | Some v \<Rightarrow>
         if ks = [] then
           (if ents (vmap v) = [] then (if \<not> kys \<and> vv v \<noteq> None \<and> \<not> vam v then [the (vv v)] else []) else below (vmap v))
         else case v_path s nm ks of
                None \<Rightarrow> []
              | Some e \<Rightarrow>
                  if ents (emap e) = [] then
                    (if \<not> kys \<and> estr e \<noteq> None \<and> ety e \<noteq> J_ARR \<and> ety e \<noteq> J_OBJ then [the (estr e)] else [])
                  else below (emap e))"

definition v_setel :: "evalr \<Rightarrow> sh \<Rightarrow> string \<Rightarrow> int \<Rightarrow> string \<Rightarrow> sh" where
  "v_setel ax s k i v = v_setp ax s k [s_num i] v"

definition v_getel :: "sh \<Rightarrow> string \<Rightarrow> int \<Rightarrow> string option" where
  "v_getel s k i = v_getp s k [s_num i]"

definition v_alen :: "sh \<Rightarrow> string \<Rightarrow> nat" where
  "v_alen s k = v_count s k []"

fun v_arrput :: "evalr \<Rightarrow> sh \<Rightarrow> string \<Rightarrow> string list \<Rightarrow> int \<Rightarrow> sh" where
  "v_arrput ax s k [] nx = s"
| "v_arrput ax s k (kv # vals) nx =
     (case (if at kv 0 = CHR ''['' then strstr kv '']='' else None) of
        Some q \<Rightarrow>
          let key = drop 1 (take q kv); (a, e) = strtol 10 key;
              nx' = (if key \<noteq> [] \<and> e = [] then a + 1 else nx)
          in v_arrput ax (v_setp ax s k [key] (drop (q + 2) kv)) k vals nx'
      | None \<Rightarrow> v_arrput ax (v_setp ax s k [s_num nx] kv) k vals (nx + 1))"

fun strip0 :: "string \<Rightarrow> string" where
  "strip0 (c # d # k) = (if c = CHR ''0'' \<and> isdigit d then strip0 (d # k) else c # d # k)"
| "strip0 k = k"

text \<open>The larger of the best so far and a key: digits only, longer is larger, then byte order.\<close>

definition arr_best :: "string option \<Rightarrow> string \<Rightarrow> string option" where
  "arr_best best k0 =
    (let k = strip0 k0 in
     if k = [] \<or> \<not> list_all isdigit k then best
     else case best of
            None \<Rightarrow> Some k
          | Some b \<Rightarrow> if length k > length b \<or> length k = length b \<and> b < k then Some k else best)"

definition v_arrnext :: "evalr \<Rightarrow> sh \<Rightarrow> string \<Rightarrow> sh \<times> int" where
  "v_arrnext ax s nm0 =
    (case v_findr s nm0 of
       (nm, None) \<Rightarrow> (s, 0)
     | (nm, Some v) \<Rightarrow>
         if ents (vmap v) = [] \<and> \<not> vam v \<and> vv v \<noteq> None then (v_setel ax s nm 0 (the (vv v)), 1)
         else (s, case foldl arr_best None (map ekey (ents (vmap v))) of
                    Some b \<Rightarrow> fst (strtol 10 b) + 1
                  | None \<Rightarrow> 0))"

definition v_arr :: "evalr \<Rightarrow> sh \<Rightarrow> string \<Rightarrow> string list \<Rightarrow> sh" where
  "v_arr ax s k0 vals =
    (let (s1, rc) = hibr_set ax s k0 [] False in
     if rc \<noteq> HIBR_OK then s1
     else case v_findr s1 k0 of
            (k, None) \<Rightarrow> s1
          | (k, Some e) \<Rightarrow>
              v_arrput ax (v_upd s1 k (\<lambda>e. e\<lparr>vmap := nullmap, vn := 0, vam := True\<rparr>)) k vals 0)"

definition v_copy :: "evalr \<Rightarrow> sh \<Rightarrow> string \<Rightarrow> string \<Rightarrow> sh" where
  "v_copy ax s dst src =
    (let a = v_find s src in
     if dst = src then s
     else let s1 = fst (hibr_set ax s dst (case a of Some v \<Rightarrow> (case vv v of Some t \<Rightarrow> t | None \<Rightarrow> []) | None \<Rightarrow> []) False)
          in case v_find s1 src of
               None \<Rightarrow> s1
             | Some w \<Rightarrow> if a = None then s1
                 else v_upd s1 dst (\<lambda>b. b\<lparr>vmap := m_clone (vmap w), vn := vn w, vam := vam w, vty := vty w\<rparr>))"

definition v_copyp :: "evalr \<Rightarrow> sh \<Rightarrow> string \<Rightarrow> string list \<Rightarrow> string \<Rightarrow> sh" where
  "v_copyp ax s dst ks src =
    (let a = v_find s src;
         s1 = v_setp ax s dst ks (case a of Some v \<Rightarrow> (case vv v of Some t \<Rightarrow> t | None \<Rightarrow> []) | None \<Rightarrow> [])
     in case a of
          None \<Rightarrow> s1
        | Some _ \<Rightarrow>
            (case v_find s1 src of
               None \<Rightarrow> s1
             | Some w \<Rightarrow>
                 if ents (vmap w) = [] \<or> ks = [] then s1
                 else case v_path s1 dst ks of
                        None \<Rightarrow> s1
                      | Some _ \<Rightarrow>
                          v_upd s1 (fst (v_findr s1 dst)) (\<lambda>d.
                            let (m, n) = walk_upd (\<lambda>e. Ent (ekey e) (estr e) (m_clone (vmap w)) (vn w) (vty w)) (vmap d, vn d) ks
                            in d\<lparr>vmap := m, vn := n\<rparr>)))"

definition v_delp :: "sh \<Rightarrow> string \<Rightarrow> string list \<Rightarrow> sh \<times> int" where
  "v_delp s nm0 ks =
    (case v_findr s nm0 of
       (nm, None) \<Rightarrow> (s, HIBR_FAIL)
     | (nm, Some v) \<Rightarrow>
         if ks = [] then (s, HIBR_FAIL)
         else case walk_del (vmap v, vn v) ks of
                None \<Rightarrow> (s, HIBR_FAIL)
              | Some (m, n) \<Rightarrow>
                  let s1 = v_upd s nm (\<lambda>e. e\<lparr>vmap := m, vn := n\<rparr>)
                  in (if ks = [''0''] \<and> \<not> is_ref v then v_upd s1 nm (\<lambda>e. e\<lparr>vv := Some []\<rparr>) else s1, HIBR_OK))"

definition hibr_ret :: "evalr \<Rightarrow> sh \<Rightarrow> string option \<Rightarrow> sh" where
  "hibr_ret ax s v = fst (hibr_set ax s ''RET'' (case v of Some t \<Rightarrow> t | None \<Rightarrow> []) False)"

definition hibr_retn :: "evalr \<Rightarrow> sh \<Rightarrow> string list \<Rightarrow> sh" where
  "hibr_retn ax s vals = v_arr ax s ''RET'' vals"

definition hibr_fail :: "evalr \<Rightarrow> sh \<Rightarrow> string option \<Rightarrow> sh" where
  "hibr_fail ax s msg = fst (hibr_set ax s ''ERRMSG'' (case msg of Some t \<Rightarrow> t | None \<Rightarrow> []) False)"

subsection \<open>The environment\<close>

definition v_env :: "evalr \<Rightarrow> sh \<Rightarrow> string list \<Rightarrow> sh" where
  "v_env ax s es =
    foldl (\<lambda>s e. case strchr e CHR ''='' of
                   None \<Rightarrow> s
                 | Some q \<Rightarrow> fst (hibr_set ax s (take q e) (drop (q + 1) e) True)) s es"

definition v_names :: "sh \<Rightarrow> string \<Rightarrow> string list" where
  "v_names s pre = map vk (filter (\<lambda>v. prefix pre (vk v)) (concat (tab s)))"

definition v_shadowed :: "string list \<Rightarrow> string \<Rightarrow> bool" where
  "v_shadowed extra k \<longleftrightarrow> list_ex (\<lambda>e. prefix k e \<and> at e (length k) = CHR ''='') extra"

definition v_envp :: "sh \<Rightarrow> string list \<Rightarrow> string list" where
  "v_envp s extra =
    map (\<lambda>v. vk v @ ''='' @ (case vv v of Some t \<Rightarrow> t | None \<Rightarrow> []))
      (filter (\<lambda>v. vex v \<and> \<not> v_shadowed extra (vk v)) (concat (tab s)))
    @ filter (\<lambda>e. CHR ''='' \<in> set e) extra"

subsection \<open>The invariant through the operations\<close>

definition ax_keeps :: "evalr \<Rightarrow> bool" where
  "ax_keeps ax \<longleftrightarrow> (\<forall>s v. sh_ok s \<longrightarrow> sh_ok (fst (ax s v)))"

lemma sh_ok_grow: "sh_ok s \<Longrightarrow> sh_ok (v_grow s)"
  using v_grow_ok(1,3) [of s] mset_eq_setD [of "vars (v_grow s)" "vars s"] by (simp add: sh_ok_def)

lemma v_room_ok:
  assumes "sh_ok s"
  shows "sh_ok (v_room s)" "v_find (v_room s) = v_find s" "tab (v_room s) \<noteq> []"
  using sh_ok_grow [OF assms] v_grow_ok(2,4) [OF sh_ok_tab [OF assms]] assms
  by (auto simp: v_room_def)

lemma v_room_more:
  "st (v_room s) = st s" "sopt (v_room s) = sopt s" "sfl (v_room s) = sfl s" "decl (v_room s) = decl s"
  "scope (v_room s) = scope s" "srcdep (v_room s) = srcdep s" "env (v_room s) = env s"
  by (simp_all add: v_room_def v_grow_def Let_def)

lemma var_ok_new [simp]: "var_ok (new_var k v ex)" "vk (new_var k v ex) = k" "vv (new_var k v ex) = Some v"
  "vat (new_var k v ex) = 0" "vro (new_var k v ex) = False" "vex (new_var k v ex) = ex" "vmap (new_var k v ex) = nullmap"
  "vn (new_var k v ex) = 0" "vam (new_var k v ex) = False"
  by (simp_all add: var_ok_def new_var_def)

lemma has_0 [simp]: "\<not> has 0 b"
  by (simp add: has_def)

lemma v_create_ok:
  assumes "sh_ok s" "tab s \<noteq> []" "v_find s k = None"
  shows "sh_ok (v_create s k v ex)" "v_find (v_create s k v ex) = (v_find s)(k := Some (new_var k v ex))"
  using v_link_ok [of "if ex then setenv (v_named s k) k v else v_named s k" "new_var k v ex"] assms
  by (auto simp: v_create_def Let_def fun_eq_iff)

lemma v_store_ok:
  assumes ok: "sh_ok s" and f: "v_find s k = Some e"
  shows "sh_ok (v_store s k v ex)"
    "v_find (v_store s k v ex) =
      (v_find s)(k := Some (e\<lparr>vmap := nullmap, vn := 0, vv := Some v, vex := vex e \<or> ex\<rparr>))"
proof -
  let ?f = "\<lambda>e. e\<lparr>vmap := nullmap, vn := 0, vv := Some v, vex := vex e \<or> ex\<rparr>"
  have "vk e = k" using f v_find_iff [OF sh_ok_tab [OF ok]] by simp
  then have g: "\<And>v. v_find s k = Some v \<Longrightarrow> vk (?f v) = k \<and> var_ok (?f v)" using f by (simp add: var_ok_def)
  show "sh_ok (v_store s k v ex)" using v_upd_ok(1) [OF ok, of k ?f, OF g]
    by (simp add: v_store_def Let_def split: option.split)
  show "v_find (v_store s k v ex) = (v_find s)(k := Some (?f e))"
    using v_upd_ok(2) [OF ok, of k ?f, OF g] f
    by (auto simp: v_store_def Let_def fun_eq_iff split: option.split)
qed

lemma v_store_absent: "sh_ok s \<Longrightarrow> v_find s k = None \<Longrightarrow> sh_ok (v_store s k v ex)"
  using v_upd_ok(1) [of s k] by (simp add: v_store_def Let_def split: option.split)

lemma v_store_keeps: "sh_ok s \<Longrightarrow> sh_ok (v_store s k v ex)"
  using v_store_ok(1) v_store_absent by (cases "v_find s k") auto

lemma v_del_ok:
  assumes "sh_ok s"
  shows "sh_ok (v_del s k)" "v_find (v_del s k) = (v_find s)(k := None)"
  using v_unlink_ok [OF assms, of k] assms
  by (auto simp: v_del_def Let_def fun_eq_iff split: option.split)

lemma v_take_ok:
  assumes "sh_ok s"
  shows "sh_ok (fst (v_take s k))" "v_find (fst (v_take s k)) = (v_find s)(k := None)" "snd (v_take s k) = v_find s k"
  using v_unlink_ok [OF assms, of k] assms
  by (auto simp: v_take_def Let_def fun_eq_iff split: option.split)

lemma v_back_ok:
  assumes "sh_ok s" "var_ok v"
  shows "sh_ok (v_back s v)" "v_find (v_back s v) = (v_find s)(vk v := Some v)"
proof -
  note d = v_del_ok [OF assms(1), of "vk v"]
  note r = v_room_ok [OF d(1)]
  have "v_find (v_room (v_del s (vk v))) (vk v) = None" by (simp add: r(2) d(2))
  note l = v_link_ok [OF r(1) r(3) this assms(2)]
  show "sh_ok (v_back s v)" using l(1) by (simp add: v_back_def Let_def split: option.split)
  show "v_find (v_back s v) = (v_find s)(vk v := Some v)" using l(2) r(2) d(2)
    by (auto simp: v_back_def Let_def fun_eq_iff split: option.split)
qed

lemma var_ok_find: "sh_ok s \<Longrightarrow> v_find s k = Some v \<Longrightarrow> var_ok v \<and> vk v = k"
  using v_find_iff [of s k v] by (auto simp: sh_ok_def)

text \<open>The references followed depend on the lookup alone, and end where \<open>v_find\<close> says.\<close>

lemma ref_chase_cong: "v_find s = v_find s' \<Longrightarrow> ref_chase s h k e = ref_chase s' h k e"
  by (induction s h k e rule: ref_chase.induct) (auto split: nat.split)

lemma ref_chase_end:
  "ref_chase s h k e = Some (k', e') \<Longrightarrow> e = v_find s k \<Longrightarrow>
    v_find s k' = e' \<and> (\<forall>v. e' = Some v \<longrightarrow> \<not> follows v)"
proof (induction s h k e rule: ref_chase.induct)
  case (1 s h k)
  then show ?case by simp
next
  case (2 s h k e)
  show ?case
  proof (cases "follows e")
    case True
    from 2(2) True obtain h' where "h = Suc h'"
      "ref_chase s h' (the (vv e)) (v_find s (the (vv e))) = Some (k', e')" by (auto split: nat.splits)
    then show ?thesis using 2(1) [OF True] by blast
  next
    case False
    from 2(2) False have "k' = k" "e' = Some e" by simp_all
    with False 2(3) [symmetric] show ?thesis by simp
  qed
qed

declare ref_chase.simps [simp del]

text \<open>An assignment to a name that is no reference makes no call of its own.\<close>

lemma v_assign_step_rec:
  assumes "sh_ok s" and "\<And>e. v_find s k = Some e \<Longrightarrow> \<not> is_ref e"
  shows "v_assign_step ax r arr0 s k v ex keep = v_assign_step ax r' arr0 s k v ex keep"
proof -
  have "v_find (v_room s) k = Some e \<Longrightarrow> \<not> is_ref e" for e using v_room_ok(2) [OF assms(1)] assms(2) by simp
  then show ?thesis unfolding v_assign_step_def Let_def by (auto split: option.split)
qed

lemma v_assign_step_cong:
  assumes ok: "sh_ok s"
    and "\<And>s k v ex. sh_ok s \<Longrightarrow> (\<And>e. v_find s k = Some e \<Longrightarrow> \<not> is_ref e) \<Longrightarrow> r s k v ex = r' s k v ex"
  shows "v_assign_step ax r arr0 s k v ex keep = v_assign_step ax r' arr0 s k v ex keep"
proof -
  note rm = v_room_ok [OF ok]
  have "r (v_room s) k' v x = r' (v_room s) k' v x"
    if "ref_chase (v_room s) 16 k (Some e) = Some (k', e')" "v_find (v_room s) k = Some e" "\<And>v. e' = Some v \<Longrightarrow> \<not> is_ref v"
    for e k' e' x
    using that ref_chase_end [OF that(1)] by (intro assms(2) rm(1)) auto
  then show ?thesis unfolding v_assign_step_def Let_def
    by (auto split: option.split)
qed

text \<open>The recursive equation of the code.\<close>

lemma v_assign_fix:
  assumes "sh_ok s"
  shows "v_assign ax s k v ex keep =
    v_assign_step ax (\<lambda>s k v ex. v_assign ax s k v ex keep) (\<lambda>s k v. v_setp ax s k [''0''] v) s k v ex keep"
proof -
  have e: "v_assign ax s k v ex keep =
    v_assign_step ax (\<lambda>s k v ex. v_assign_step ax (\<lambda>s k v ex. (s, HIBR_FAIL)) (\<lambda>s k v. v_setp ax s k [''0''] v) s k v ex keep)
      (\<lambda>s k v. v_setp ax s k [''0''] v) s k v ex keep" for s k v ex
    by (simp add: v_assign_def)
  show ?thesis unfolding e [of s k v ex]
  proof (rule v_assign_step_cong [OF assms])
    fix s k v ex
    assume "sh_ok s" "\<And>e. v_find s k = Some e \<Longrightarrow> \<not> is_ref e"
    then show "v_assign_step ax (\<lambda>s k v ex. (s, HIBR_FAIL)) (\<lambda>s k v. v_setp ax s k [''0''] v) s k v ex keep =
      v_assign ax s k v ex keep"
      unfolding v_assign_def by (rule v_assign_step_rec)
  qed
qed

lemma v_assign_step_keep: "v_assign_step ax r arr0 s k v ex False = v_assign_step ax r arr0' s k v ex False"
  unfolding v_assign_step_def Let_def by (auto split: option.split)

lemma hibr_set_assign: "hibr_set ax s k v ex = v_assign ax s k v ex False"
proof -
  have r: "(\<lambda>s k v ex. v_assign_step ax (\<lambda>s k v ex. (s, HIBR_FAIL)) (\<lambda>s k v. s) s k v ex False) =
      (\<lambda>s k v ex. v_assign_step ax (\<lambda>s k v ex. (s, HIBR_FAIL)) (\<lambda>s k v. v_setp ax s k [''0''] v) s k v ex False)"
    by (intro ext v_assign_step_keep)
  show ?thesis unfolding hibr_set_def v_assign_def r by (rule v_assign_step_keep)
qed

text \<open>Every assignment keeps the table and the maps well formed.\<close>

lemma v_dyn_ok: "v_dyn s k v = Some s' \<Longrightarrow> sh_ok s' = sh_ok s \<and> v_find s' = v_find s"
  by (auto simp: v_dyn_def split: if_splits)

lemma v_strict_ok: "sh_ok (fst (v_strict s k)) = sh_ok s" "v_find (fst (v_strict s k)) = v_find s"
  by (simp_all add: v_strict_def)

lemma v_coerce_keeps: "ax_keeps ax \<Longrightarrow> sh_ok s \<Longrightarrow> sh_ok (fst (v_coerce ax s e v))"
  by (simp add: v_coerce_def Let_def ax_keeps_def case_prod_unfold)

lemma v_upd_vv_ok: "sh_ok s \<Longrightarrow> sh_ok (v_upd s k (\<lambda>e. e\<lparr>vv := x\<rparr>))"
  using var_ok_find [of s k] by (intro v_upd_ok(1)) (auto simp: var_ok_def)

lemma v_assign_step_ok:
  assumes ok: "sh_ok s" and ax: "ax_keeps ax"
    and r: "\<And>s k v ex. sh_ok s \<Longrightarrow> sh_ok (fst (r s k v ex))" and a: "\<And>s k v. sh_ok s \<Longrightarrow> sh_ok (arr0 s k v)"
  shows "sh_ok (fst (v_assign_step ax r arr0 s k v ex keep))"
proof (cases "if at k 0 = CHR ''R'' \<or> at k 0 = CHR ''S'' \<or> at k 0 = CHR ''E'' then v_dyn s k v else None")
  case (Some s')
  then show ?thesis using v_dyn_ok [of s k v s'] ok by (simp add: v_assign_step_def split: if_splits)
next
  case None
  note rm = v_room_ok [OF ok]
  show ?thesis
  proof (cases "v_find (v_room s) k")
    case f: None
    then show ?thesis
      using v_create_ok(1) [OF rm(1,3) f] v_strict_ok [of "v_room s" k] rm(1) unfolding v_assign_step_def None
      by (simp add: Let_def)
  next
    case (Some e)
    obtain s' c where c: "v_coerce ax (v_room s) e v = (s', c)" by fastforce
    have "sh_ok s'" using v_coerce_keeps [OF ax rm(1), of e v] c by simp
    then show ?thesis
      using rm(1) Some c r a v_upd_vv_ok v_store_keeps unfolding v_assign_step_def None
      by (auto simp: Let_def split: option.split)
  qed
qed

lemma hibr_set_ok: "sh_ok s \<Longrightarrow> ax_keeps ax \<Longrightarrow> sh_ok (fst (hibr_set ax s k v ex))"
  unfolding hibr_set_def by (intro v_assign_step_ok) auto

lemma keeps_set_ent: "keeps (set_ent v)"
  by (simp add: keeps_def set_ent_def)

lemma v_upd_walk_ok: "sh_ok s \<Longrightarrow> keeps f \<Longrightarrow>
  sh_ok (v_upd s nm (\<lambda>e. let (m, n) = walk_upd f (vmap e, vn e) ks in g (e\<lparr>vmap := m, vn := n\<rparr>)))"
  if "\<And>e. vk (g e) = vk e \<and> vmap (g e) = vmap e \<and> vn (g e) = vn e"
  using that walk_upd_ok [of _ f ks] var_ok_find [of s nm]
  by (intro v_upd_ok(1)) (auto simp: var_ok_def split: prod.split, metis prod.collapse)

text \<open>The three steps of an element write: the value coerced, the variable made, the walk.\<close>

definition setp_val :: "evalr \<Rightarrow> sh \<Rightarrow> var option \<Rightarrow> string \<Rightarrow> sh \<times> string" where
  "setp_val ax s v val0 =
    (if v \<noteq> None \<and> has (vat (the v)) (A_INT OR A_LOW OR A_UPP) then
       (case v_coerce ax s (the v) val0 of (s', Some cv) \<Rightarrow> (s', cv) | (s', None) \<Rightarrow> (s', val0))
     else (s, val0))"

definition setp_walk :: "sh \<Rightarrow> string \<Rightarrow> string list \<Rightarrow> string \<Rightarrow> sh" where
  "setp_walk s2 nm ks val =
    (case v_find s2 nm of
       None \<Rightarrow> s2
     | Some w \<Rightarrow>
         let s3 = v_upd s2 nm (\<lambda>e. let (m, n) = walk_upd (set_ent val) (vmap e, vn e) ks
                                  in e\<lparr>vmap := m, vn := n, vam := True\<rparr>)
         in if ks = [''0''] \<and> \<not> is_ref w then v_named (v_upd s3 nm (\<lambda>e. e\<lparr>vv := Some val\<rparr>)) nm
            else s3)"

lemma v_setp_steps:
  "v_setp ax s nm0 ks val0 =
    (if ks = [] then fst (hibr_set ax s nm0 val0 False)
     else let (nm, v) = v_findr s nm0 in
       if v \<noteq> None \<and> vro (the v) then s\<lparr>st := 1, refused := 1\<rparr>
       else let (s1, val) = setp_val ax s v val0;
                s2 = (if v = None then fst (hibr_set ax s1 nm [] False) else s1)
            in setp_walk s2 nm ks val)"
  unfolding v_setp_def setp_val_def setp_walk_def ..

lemma setp_val_ok: "sh_ok s \<Longrightarrow> ax_keeps ax \<Longrightarrow> sh_ok (fst (setp_val ax s v val))"
  using v_coerce_keeps [of ax s "the v" val]
  by (auto simp: setp_val_def case_prod_unfold split: option.split)

lemma setp_walk_ok:
  assumes "sh_ok s"
  shows "sh_ok (setp_walk s nm ks val)"
proof -
  have "sh_ok (v_upd s nm (\<lambda>e. let (m, q) = walk_upd (set_ent val) (vmap e, vn e) ks
      in e\<lparr>vmap := m, vn := q, vam := True\<rparr>))"
    using v_upd_walk_ok [of "\<lambda>e. e\<lparr>vam := True\<rparr>" s "set_ent val" nm ks] keeps_set_ent assms by simp
  with assms v_upd_vv_ok show ?thesis by (auto simp: setp_walk_def Let_def split: option.split)
qed

lemma v_setp_ok:
  assumes "sh_ok s" "ax_keeps ax"
  shows "sh_ok (v_setp ax s nm ks v)"
  using assms setp_val_ok [OF assms] hibr_set_ok [OF _ assms(2)] setp_walk_ok
  by (simp add: v_setp_steps Let_def case_prod_unfold)

lemma v_assign_ok: "sh_ok s \<Longrightarrow> ax_keeps ax \<Longrightarrow> sh_ok (fst (v_assign ax s k v ex keep))"
  unfolding v_assign_def by (intro v_assign_step_ok v_setp_ok) auto

subsection \<open>Setting aside and restoring as an interface\<close>

text \<open>
  What a scope relies on: a binding put back replaces whatever has the name, a binding dropped is
  gone, and no other name is touched. Undoing a list of saved bindings, newest first, leaves each
  saved name as the oldest save has it.
\<close>

locale bindings =
  fixes look :: "'s \<Rightarrow> string \<Rightarrow> 'v option"
    and put :: "'s \<Rightarrow> 'v \<Rightarrow> 's"
    and dropb :: "'s \<Rightarrow> string \<Rightarrow> 's"
    and name :: "'v \<Rightarrow> string"
    and good :: "'s \<Rightarrow> bool"
    and fine :: "'v \<Rightarrow> bool"
  assumes good_put: "good s \<Longrightarrow> fine v \<Longrightarrow> good (put s v)"
    and look_put: "good s \<Longrightarrow> fine v \<Longrightarrow> look (put s v) = (look s)(name v := Some v)"
    and good_drop: "good s \<Longrightarrow> good (dropb s k)"
    and look_drop: "good s \<Longrightarrow> look (dropb s k) = (look s)(k := None)"
    and look_name: "good s \<Longrightarrow> look s k = Some v \<Longrightarrow> name v = k \<and> fine v"
begin

definition restore :: "string \<times> 'v option \<Rightarrow> 's \<Rightarrow> 's" where
  "restore kb s = (case snd kb of Some v \<Rightarrow> put s v | None \<Rightarrow> dropb s (fst kb))"

definition wf_saves :: "(string \<times> 'v option) list \<Rightarrow> bool" where
  "wf_saves xs \<longleftrightarrow> (\<forall>(k, b) \<in> set xs. \<forall>v. b = Some v \<longrightarrow> name v = k \<and> fine v)"

lemma restore_one:
  assumes "good s" and "wf_saves [kb]"
  shows "good (restore kb s)" "look (restore kb s) = (look s)(fst kb := snd kb)"
  using assms by (cases kb; cases "snd kb"; auto simp: restore_def wf_saves_def good_put good_drop look_put look_drop)+

lemma restore_all:
  assumes "good s" and "wf_saves xs"
  shows "good (foldr restore xs s) \<and>
    look (foldr restore xs s) k = (case map_of xs k of Some b \<Rightarrow> b | None \<Rightarrow> look s k)"
  using assms
proof (induction xs)
  case (Cons kb xs)
  then have w: "wf_saves xs" "wf_saves [kb]" by (auto simp: wf_saves_def)
  with Cons have "good (foldr restore xs s)" by simp
  from restore_one [OF this w(2)] Cons w show ?case by (cases kb) auto
qed simp

lemma shadow_restore:
  assumes "good s" and "good s'"
  shows "look (restore (k, look s k) s') = (look s')(k := look s k)"
  using restore_one(2) [OF assms(2), of "(k, look s k)"] look_name [OF assms(1)] by (simp add: wf_saves_def)

end

interpretation scopes: bindings v_find v_back v_del vk sh_ok var_ok
  by unfold_locales (auto simp: v_back_ok v_del_ok dest: var_ok_find)

text \<open>A frame is the records a function's parameters and locals pushed.\<close>

fun hide_all :: "sh \<Rightarrow> sav list \<Rightarrow> string list \<Rightarrow> sh \<times> sav list" where
  "hide_all s fr [] = (s, fr)"
| "hide_all s fr (k # ks) = (let (s', fr', rc) = asg_hide s fr k in hide_all s' fr' ks)"

definition of_sav :: "sav \<Rightarrow> string \<times> var option" where
  "of_sav r = (sk r, sw r)"

lemma undo1_restore: "sv r = None \<Longrightarrow> undo1 ax r s = scopes.restore (of_sav r) s"
  by (simp add: undo1_def scopes.restore_def of_sav_def split: option.split)

lemma asg_pop_restore: "\<forall>r \<in> set fr. sv r = None \<Longrightarrow> asg_pop ax s fr = foldr scopes.restore (map of_sav fr) s"
  by (induction fr) (auto simp: asg_pop_def undo1_restore)

abbreviation ro_at :: "sh \<Rightarrow> string \<Rightarrow> bool" where
  "ro_at s k \<equiv> (case v_find s k of Some v \<Rightarrow> vro v | None \<Rightarrow> False)"

lemma asg_hide_cases:
  assumes "sh_ok s"
  obtains "ro_at s k" "asg_hide s fr k = (s, fr, HIBR_FAIL)"
  | s' where "\<not> ro_at s k" "asg_hide s fr k = (s', fr @ [\<lparr>sk = k, sv = None, sw = v_find s k, sex = False\<rparr>], HIBR_OK)"
      "sh_ok s'" "v_find s' = (v_find s)(k := None)"
  using v_take_ok [OF assms, of k] that by (cases "v_take s k") (auto simp: asg_hide_def)

lemma hide_all_ok:
  "sh_ok s \<Longrightarrow> \<forall>r \<in> set fr. sv r = None \<Longrightarrow> scopes.wf_saves (map of_sav fr) \<Longrightarrow> hide_all s fr ks = (s', fr') \<Longrightarrow>
    sh_ok s' \<and> (\<forall>r \<in> set fr'. sv r = None) \<and> scopes.wf_saves (map of_sav fr') \<and>
    (\<forall>k. (case map_of (map of_sav fr') k of Some b \<Rightarrow> b | None \<Rightarrow> v_find s' k) =
      (case map_of (map of_sav fr) k of Some b \<Rightarrow> b | None \<Rightarrow> v_find s k)) \<and>
    sk ` set fr' = sk ` set fr \<union> {k \<in> set ks. \<not> ro_at s k}"
proof (induction ks arbitrary: s fr)
  case (Cons k ks)
  show ?case
  proof (rule asg_hide_cases [OF Cons.prems(1), of k fr], goal_cases)
    case 1
    with Cons.prems have "hide_all s fr ks = (s', fr')" by simp
    from Cons.IH [OF Cons.prems(1-3) this] 1(1) show ?case by auto
  next
    case (2 t)
    let ?r = "\<lparr>sk = k, sv = None, sw = v_find s k, sex = False\<rparr>"
    from 2 Cons.prems(4) have h: "hide_all t (fr @ [?r]) ks = (s', fr')" by simp
    have w: "scopes.wf_saves (map of_sav (fr @ [?r]))"
      using Cons.prems(3) var_ok_find [OF Cons.prems(1)] by (auto simp: scopes.wf_saves_def of_sav_def)
    have m: "(case map_of (map of_sav (fr @ [?r])) k' of Some b \<Rightarrow> b | None \<Rightarrow> v_find t k') =
        (case map_of (map of_sav fr) k' of Some b \<Rightarrow> b | None \<Rightarrow> v_find s k')" for k'
      using 2(4) by (auto simp: of_sav_def map_add_def split: option.split)
    have n: "\<forall>r \<in> set (fr @ [?r]). sv r = None" using Cons.prems(2) by simp
    have ro: "ro_at t k' = (k' \<noteq> k \<and> ro_at s k')" for k' using 2(4) by simp
    from Cons.IH [OF 2(3) n w h] 2(1) show ?case unfolding m ro by auto
  qed
next
  case Nil
  then have "s = s'" "fr = fr'" by simp_all
  with Nil show ?case by (simp split: option.split)
qed

subsection \<open>What an assignment does\<close>

definition is_dyn :: "string \<Rightarrow> bool" where
  "is_dyn k \<longleftrightarrow> k \<in> {''RANDOM'', ''SECONDS'', ''EPOCHSECONDS'', ''EPOCHREALTIME''}"

lemma v_dyn_None: "v_dyn s k v = None \<longleftrightarrow> \<not> is_dyn k"
  by (auto simp: v_dyn_def is_dyn_def)

text \<open>Whether the assignment exports: asked for, or \<open>allexport\<close> for a script's name.\<close>

definition exports :: "sh \<Rightarrow> string \<Rightarrow> bool \<Rightarrow> bool" where
  "exports s k ex \<longleftrightarrow> ex \<or> has (sopt s) O_ALLEXP \<and> name_start k \<and> \<not> v_shellvar k"

definition refuses :: "sh \<Rightarrow> string \<Rightarrow> bool" where
  "refuses s k \<longleftrightarrow> sfl s \<noteq> 0 \<and> snd (v_strict s k)"

lemma refuses_room: "refuses (v_room s) k = refuses s k"
  by (simp add: refuses_def v_strict_def v_room_more asg_local_def)

lemma step_new:
  assumes "sh_ok s" "\<not> is_dyn k" "v_find s k = None" "\<not> refuses s k"
  shows "v_assign_step ax r a s k v ex keep = (v_create (v_room s) k v (exports s k ex), HIBR_OK)"
  using assms v_room_ok(2) [OF assms(1)] v_dyn_None [of s k v] refuses_room [of s k]
  by (auto simp: v_assign_step_def Let_def exports_def refuses_def)

lemma step_old:
  assumes "sh_ok s" "\<not> is_dyn k" "v_find s k = Some e" "\<not> vro e" "\<not> is_ref e" "\<not> (keep \<and> (vam e \<or> ents (vmap e) \<noteq> []))"
  shows "v_assign_step ax r a s k v ex keep =
    (case v_coerce ax (v_room s) e v of
       (s', None) \<Rightarrow> (s'\<lparr>st := 1\<rparr>, HIBR_FAIL)
     | (s', Some v') \<Rightarrow> (v_store s' k v' (exports s k ex), HIBR_OK))"
  using assms v_room_ok(2) [OF assms(1)] v_dyn_None [of s k v]
  by (auto simp: v_assign_step_def Let_def exports_def)

lemma step_ref:
  assumes "sh_ok s" "\<not> is_dyn k" "v_find s k = Some e" "\<not> vro e" "is_ref e"
    and c: "ref_chase s 16 k (Some e) = Some (k', e')" and n: "\<And>v. e' = Some v \<Longrightarrow> \<not> is_ref v"
  shows "v_assign_step ax r a s k v ex keep = r (v_room s) k' v (exports s k ex)"
proof -
  have "ref_chase (v_room s) 16 k (Some e) = Some (k', e')"
    using c ref_chase_cong [OF v_room_ok(2) [OF assms(1)]] by simp
  then show ?thesis using assms(2-5) n v_room_ok(2) [OF assms(1)] v_dyn_None [of s k v]
    by (auto simp: v_assign_step_def Let_def exports_def split: option.split)
qed

lemma step_ro:
  assumes "sh_ok s" "\<not> is_dyn k" "v_find s k = Some e" "vro e"
  shows "v_assign_step ax r a s k v ex keep = ((v_room s)\<lparr>st := 1, refused := 1\<rparr>, HIBR_FAIL)"
  using assms v_room_ok(2) [OF assms(1)] v_dyn_None [of s k v] by (auto simp: v_assign_step_def Let_def)

lemma step_cycle:
  assumes "sh_ok s" "\<not> is_dyn k" "v_find s k = Some e" "\<not> vro e" "is_ref e" "ref_chase s 16 k (Some e) = None"
  shows "v_assign_step ax r a s k v ex keep = ((v_room s)\<lparr>st := 1\<rparr>, HIBR_FAIL)"
  using assms ref_chase_cong [OF v_room_ok(2) [OF assms(1)], of 16 k "Some e"]
    v_room_ok(2) [OF assms(1)] v_dyn_None [of s k v] by (auto simp: v_assign_step_def Let_def)

text \<open>The value a variable without \<open>-i\<close> takes, if it takes it.\<close>

definition coerced :: "var \<Rightarrow> string \<Rightarrow> string" where
  "coerced e v = (if has (vat e) (A_LOW OR A_UPP) then u8cased v (has (vat e) A_UPP) False else v)"

definition admits :: "var \<Rightarrow> string \<Rightarrow> bool" where
  "admits e v \<longleftrightarrow> v_tyname (vat e) = [] \<or> ty_ok (Some (v_tyname (vat e))) (coerced e v)"

lemma v_coerce_noint:
  "\<not> has (vat e) A_INT \<Longrightarrow>
    v_coerce ax s e v = (if admits e v then (s, Some (coerced e v)) else (s\<lparr>refused := 2\<rparr>, None))"
  by (simp add: v_coerce_def admits_def coerced_def Let_def)

lemma hibr_get_plain: "v_find s k = Some v \<Longrightarrow> \<not> follows v \<Longrightarrow> hibr_get s k = vv v"
  by (simp add: hibr_get_def numeral_eq_Suc)

lemma hibr_get_new: "v_find s k = Some (new_var k v ex) \<Longrightarrow> hibr_get s k = Some v"
  by (rule trans [OF hibr_get_plain]) (auto simp: follows_def is_ref_def)

text \<open>An element written and read back.\<close>

lemma v_findr_plain: "v_find s k = Some v \<Longrightarrow> \<not> follows v \<Longrightarrow> v_findr s k = (k, Some v)"
  by (simp add: v_findr_def findr_loop.simps)

lemma v_findr_none: "v_find s k = None \<Longrightarrow> v_findr s k = (k, None)"
  by (simp add: v_findr_def findr_loop.simps)

lemma v_upd_at:
  assumes "sh_ok s" "v_find s k = Some w" "vk (f w) = k" "var_ok (f w)"
  shows "sh_ok (v_upd s k f)" "v_find (v_upd s k f) = (v_find s)(k := Some (f w))"
proof -
  have f: "vk (f v) = k \<and> var_ok (f v)" if "v_find s k = Some v" for v using that assms by simp
  show "sh_ok (v_upd s k f)" by (rule v_upd_ok(1) [OF assms(1) f])
  show "v_find (v_upd s k f) = (v_find s)(k := Some (f w))"
    using v_upd_ok(2) [OF assms(1) f] assms(2) by auto
qed

lemma setp_walk_find:
  assumes ok: "sh_ok s" and w: "v_find s nm = Some w" and nr: "\<not> is_ref w" and ne: "ks \<noteq> []"
  shows "\<exists>w'. v_find (setp_walk s nm ks val) = (v_find s)(nm := Some w') \<and> vat w' = vat w \<and> vro w' = vro w \<and>
    vex w' = vex w \<and> vam w' \<and> (vmap w', vn w') = walk_upd (set_ent val) (vmap w, vn w) ks \<and>
    vv w' = (if ks = [''0''] then Some val else vv w)"
proof -
  obtain m n where mn: "walk_upd (set_ent val) (vmap w, vn w) ks = (m, n)" by fastforce
  let ?f = "\<lambda>e. let (m, n) = walk_upd (set_ent val) (vmap e, vn e) ks in e\<lparr>vmap := m, vn := n, vam := True\<rparr>"
  let ?w = "w\<lparr>vmap := m, vn := n, vam := True\<rparr>"
  have fw: "?f w = ?w" by (simp add: mn)
  have o: "var_ok w" "vk w = nm" using var_ok_find [OF ok w] by auto
  have "cn_ok (m, n)" using walk_upd_ok [of "(vmap w, vn w)" "set_ent val" ks] o keeps_set_ent mn by (simp add: var_ok_def)
  then have "vk ?w = nm" "var_ok ?w" using o by (simp_all add: var_ok_def)
  note u = v_upd_at [OF ok w, of ?f, unfolded fw, OF this]
  have w2: "v_find (v_upd s nm ?f) nm = Some ?w" using u(2) by simp
  have "v_find (v_upd (v_upd s nm ?f) nm (\<lambda>e. e\<lparr>vv := Some val\<rparr>)) =
      (v_find (v_upd s nm ?f))(nm := Some (?w\<lparr>vv := Some val\<rparr>))"
    using o \<open>cn_ok (m, n)\<close> by (intro v_upd_at(2) [OF u(1) w2]) (auto simp: var_ok_def)
  with u(2) w nr show ?thesis
    by (auto simp: setp_walk_def Let_def mn intro!: exI)
qed

lemma setp_val_plain: "case v of None \<Rightarrow> True | Some e \<Rightarrow> vat e = 0 \<Longrightarrow> setp_val ax s v val = (s, val)"
  by (auto simp: setp_val_def split: option.splits)

lemma v_getp_at:
  "v_find s nm = Some w \<Longrightarrow> \<not> follows w \<Longrightarrow> ks \<noteq> [] \<Longrightarrow>
    v_getp s nm ks = (case walk_get (vmap w) ks of Some e \<Rightarrow> estr e | None \<Rightarrow> None)"
  by (simp add: v_getp_def v_path_def v_findr_plain)

lemma v_getp_old:
  assumes plain: "case v_find s nm of None \<Rightarrow> \<not> refuses s nm | Some e \<Rightarrow> \<not> vro e \<and> vat e = 0" and ne: "ks \<noteq> []"
  shows "v_getp s nm ks =
    (case walk_get (fst (case v_find s nm of Some e \<Rightarrow> (vmap e, vn e) | None \<Rightarrow> (nullmap, 0))) ks of
       Some e \<Rightarrow> estr e | None \<Rightarrow> None)"
proof (cases "v_find s nm")
  case None
  with ne show ?thesis by (simp add: v_getp_def v_path_def v_findr_none)
next
  case (Some e)
  with plain have "\<not> follows e" by (simp add: follows_def is_ref_def)
  with Some ne show ?thesis by (simp add: v_getp_at)
qed

text \<open>A plain variable's write is the walk in that variable, or in a new one.\<close>

lemma v_setp_plain:
  assumes ok: "sh_ok s" and ne: "ks \<noteq> []" and d: "\<not> is_dyn nm"
    and plain: "case v_find s nm of None \<Rightarrow> \<not> refuses s nm | Some e \<Rightarrow> \<not> vro e \<and> vat e = 0"
  obtains t w where "v_setp ax s nm ks val = setp_walk t nm ks val" "sh_ok t" "v_find t nm = Some w" "vat w = 0"
    "\<forall>k. k \<noteq> nm \<longrightarrow> v_find t k = v_find s k"
    "(vmap w, vn w) = (case v_find s nm of Some e \<Rightarrow> (vmap e, vn e) | None \<Rightarrow> (nullmap, 0))"
proof (cases "v_find s nm")
  case None
  with plain have r: "\<not> refuses s nm" by simp
  note rm = v_room_ok [OF ok]
  from None rm(2) have f: "v_find (v_room s) nm = None" by simp
  let ?t = "v_create (v_room s) nm [] (exports s nm False)"
  note c = v_create_ok [OF rm(1,3) f, of "[]" "exports s nm False"]
  have "v_setp ax s nm ks val = setp_walk ?t nm ks val"
    using ne None step_new [OF ok d None r]
    by (simp add: v_setp_steps v_findr_none setp_val_def hibr_set_def)
  with c rm(2) None show ?thesis by (intro that [of ?t "new_var nm [] (exports s nm False)"]) auto
next
  case (Some e)
  with plain have p: "\<not> vro e" "vat e = 0" by auto
  then have "\<not> follows e" by (simp add: follows_def is_ref_def)
  with Some ne p have "v_setp ax s nm ks val = setp_walk s nm ks val"
    by (simp add: v_setp_steps v_findr_plain setp_val_plain)
  with Some p ok show ?thesis by (intro that [of s e]) auto
qed

lemma element_set_get_at:
  assumes ok: "sh_ok s" and ne: "ks \<noteq> []" and d: "\<not> is_dyn nm"
    and plain: "case v_find s nm of None \<Rightarrow> \<not> refuses s nm | Some e \<Rightarrow> \<not> vro e \<and> vat e = 0"
  shows "v_getp (v_setp ax s nm ks val) nm ks = Some val \<and>
    (\<forall>ks'. ks' \<noteq> [] \<and> \<not> prefix ks ks' \<and> \<not> prefix ks' ks \<longrightarrow> v_getp (v_setp ax s nm ks val) nm ks' = v_getp s nm ks') \<and>
    (\<forall>k. k \<noteq> nm \<longrightarrow> v_find (v_setp ax s nm ks val) k = v_find s k) \<and>
    (ks = [''0''] \<longrightarrow> hibr_get (v_setp ax s nm ks val) nm = Some val)"
proof -
  obtain t w where t: "v_setp ax s nm ks val = setp_walk t nm ks val" "sh_ok t" "v_find t nm = Some w" "vat w = 0"
    "\<forall>k. k \<noteq> nm \<longrightarrow> v_find t k = v_find s k"
    "(vmap w, vn w) = (case v_find s nm of Some e \<Rightarrow> (vmap e, vn e) | None \<Rightarrow> (nullmap, 0))"
    by (rule v_setp_plain [OF ok ne d plain, of ax val]) blast
  have nr: "\<not> is_ref w" using t(4) by (simp add: is_ref_def)
  obtain w' where w': "v_find (setp_walk t nm ks val) = (v_find t)(nm := Some w')" "vat w' = vat w"
    "(vmap w', vn w') = walk_upd (set_ent val) (vmap w, vn w) ks" "vv w' = (if ks = [''0''] then Some val else vv w)"
    using setp_walk_find [OF t(2,3) nr ne] by metis
  have fw: "\<not> follows w'" using w'(2) t(4) by (simp add: follows_def is_ref_def)
  have cn: "cn_ok (vmap w, vn w)" using var_ok_find [OF t(2,3)] by (simp add: var_ok_def)
  have m: "vmap w' = fst (walk_upd (set_ent val) (vmap w, vn w) ks)" using w'(3) by (metis fst_conv)
  have g: "v_getp (v_setp ax s nm ks val) nm ls = (case walk_get (vmap w') ls of Some e \<Rightarrow> estr e | None \<Rightarrow> None)"
    if "ls \<noteq> []" for ls
    using v_getp_at [of "setp_walk t nm ks val" nm w' ls] w'(1) fw that t(1) by simp
  have old: "v_getp s nm ls = (case walk_get (vmap w) ls of Some e \<Rightarrow> estr e | None \<Rightarrow> None)" if "ls \<noteq> []" for ls
    using v_getp_old [OF plain that] unfolding t(6) [symmetric] by simp
  have "estr (set_ent val e) = Some val" for e by (simp add: set_ent_def)
  with g [OF ne] walk_get_same [OF cn keeps_set_ent ne, of val] have 1: "v_getp (v_setp ax s nm ks val) nm ks = Some val"
    by (simp add: m)
  have 2: "v_getp (v_setp ax s nm ks val) nm ls = v_getp s nm ls" if "ls \<noteq> []" "\<not> prefix ks ls" "\<not> prefix ls ks" for ls
    using g [OF that(1)] old [OF that(1)] walk_get_other [OF cn keeps_set_ent that(2,3), of val] by (simp add: m)
  have 3: "hibr_get (v_setp ax s nm ks val) nm = Some val" if "ks = [''0'']"
    using hibr_get_plain [of "setp_walk t nm ks val" nm w'] w'(1,4) fw t(1) that by simp
  from 1 2 3 t(1,5) w'(1) show ?thesis by simp
qed

lemma v_store_env:
  assumes "sh_ok s" "v_find s k = Some e" "vex e \<or> x"
  shows "env (v_store s k v x) k = Some v"
proof -
  let ?f = "\<lambda>e. e\<lparr>vmap := nullmap, vn := 0, vv := Some v, vex := vex e \<or> x\<rparr>"
  have "v_find (v_upd s k ?f) k = Some (?f e)"
    using v_upd_at(2) [OF assms(1,2), of ?f] var_ok_find [OF assms(1,2)] by (simp add: var_ok_def)
  with assms(3) show ?thesis by (auto simp: v_store_def Let_def)
qed

subsection \<open>Properties\<close>

text \<open>The state a shell starts from, before the environment is read.\<close>

definition sh0 :: sh where
  "sh0 = \<lparr>tab = [], tsz = 0, tn = 0, st = 0, sopt = 0, sfl = 0, decl = 0, scope = [], srcdep = 0, srefuse = False,
     refused = 0, env = (\<lambda>_. None), seed = 0, t0 = 0, now = 0, cmds = [], ifsok = False, ifsc = None,
     fnok = False, ldmode = -1\<rparr>"

lemma sh0_simps [simp]: "sh_ok sh0" "v_find sh0 k = None" "sfl sh0 = 0" "sopt sh0 = 0" "\<not> refuses sh0 k"
  by (simp_all add: sh0_def sh_ok_def tab_ok_def v_find_def refuses_def)

lemma no_ax_keeps [simp]: "ax_keeps (\<lambda>s v. (s, 0))"
  by (simp add: ax_keeps_def)

text \<open>Growing the table and rehashing every variable loses none and changes no lookup, whatever
  the hash function's values.\<close>

theorem table_grow:
  assumes "tab_ok s"
  shows "tab_ok (v_grow s) \<and> v_find (v_grow s) = v_find s \<and> tsz s < tsz (v_grow s)"
  using v_grow_ok [OF assms] by simp

theorem table_grow_witness: "v_find (v_grow (v_grow sh0)) ''x'' = None"
proof -
  have "tab_ok (v_grow sh0)" by (rule sh_ok_tab [OF sh_ok_grow]) simp
  with table_grow [OF this] v_grow_ok(2) [of sh0] show ?thesis by (simp add: sh_ok_tab)
qed

text \<open>C34: an assignment to a new name, or to a plain variable, succeeds; reading the name gives the
  value back, an exported variable reaches the environment, and no other variable changes.\<close>

theorem assign_get:
  assumes ok: "sh_ok s" and d: "\<not> is_dyn k"
    and plain: "case v_find s k of None \<Rightarrow> \<not> refuses s k | Some e \<Rightarrow> \<not> vro e \<and> vat e = 0"
  shows "snd (hibr_set ax s k v ex) = HIBR_OK \<and> hibr_get (fst (hibr_set ax s k v ex)) k = Some v \<and>
    (ex \<longrightarrow> env (fst (hibr_set ax s k v ex)) k = Some v) \<and>
    (\<forall>k'. k' \<noteq> k \<longrightarrow> v_find (fst (hibr_set ax s k v ex)) k' = v_find s k') \<and> sh_ok (fst (hibr_set ax s k v ex))"
proof (cases "v_find s k")
  case None
  with plain have r: "\<not> refuses s k" by simp
  note rm = v_room_ok [OF ok]
  from None rm(2) have f: "v_find (v_room s) k = None" by simp
  let ?t = "v_create (v_room s) k v (exports s k ex)"
  have e: "hibr_set ax s k v ex = (?t, HIBR_OK)"
    unfolding hibr_set_def by (rule step_new [OF ok d None r])
  note c = v_create_ok [OF rm(1,3) f, of v "exports s k ex"]
  have "ex \<longrightarrow> env ?t k = Some v"
    by (simp add: v_create_def Let_def v_link_def exports_def)
  with c rm(2) hibr_get_new [of ?t k v "exports s k ex"] show ?thesis unfolding e by simp
next
  case (Some e)
  with plain have p: "\<not> vro e" "vat e = 0" by auto
  then have "\<not> is_ref e" "v_coerce ax (v_room s) e v = (v_room s, Some v)"
    by (simp_all add: is_ref_def v_coerce_def v_tyname_def)
  note rm = v_room_ok [OF ok]
  from Some rm(2) have f: "v_find (v_room s) k = Some e" by simp
  let ?t = "v_store (v_room s) k v (exports s k ex)"
  have e: "hibr_set ax s k v ex = (?t, HIBR_OK)"
    unfolding hibr_set_def step_old [OF ok d Some p(1) \<open>\<not> is_ref e\<close>, of False, simplified]
    using \<open>v_coerce ax (v_room s) e v = (v_room s, Some v)\<close> by simp
  note c = v_store_ok [OF rm(1) f, of v "exports s k ex"]
  let ?e = "e\<lparr>vmap := nullmap, vn := 0, vv := Some v, vex := vex e \<or> exports s k ex\<rparr>"
  have "\<not> follows ?e" using \<open>\<not> is_ref e\<close> by (simp add: follows_def is_ref_def)
  moreover have "v_find ?t k = Some ?e" by (simp add: c(2))
  ultimately have g: "hibr_get ?t k = Some v" by (subst hibr_get_plain [of ?t k ?e]) auto
  have "ex \<longrightarrow> env ?t k = Some v"
  proof
    assume ex
    then have "exports s k ex" by (simp add: exports_def)
    then show "env ?t k = Some v" by (intro v_store_env [OF rm(1) f]) simp
  qed
  with c rm(2) g show ?thesis unfolding e by simp
qed

theorem assign_get_witness: "hibr_get (fst (hibr_set (\<lambda>s v. (s, 0)) sh0 ''x'' ''1'' False)) ''x'' = Some ''1''"
  using assign_get [of sh0 "''x''" "\<lambda>s v. (s, 0)" "''1''" False] by (simp add: is_dyn_def)

text \<open>C35: an assignment a readonly variable or a declared type refuses fails, leaves every variable as
  it was and sets the status to 1; the value a type admits is stored in the declared letter case.\<close>

theorem assign_refused:
  assumes ok: "sh_ok s" and d: "\<not> is_dyn k" and f: "v_find s k = Some e" and i: "\<not> has (vat e) A_INT" and r: "\<not> is_ref e"
  shows "(vro e \<or> \<not> admits e v \<longrightarrow>
      snd (hibr_set ax s k v ex) = HIBR_FAIL \<and> v_find (fst (hibr_set ax s k v ex)) = v_find s \<and>
      st (fst (hibr_set ax s k v ex)) = 1 \<and> refused (fst (hibr_set ax s k v ex)) = (if vro e then 1 else 2)) \<and>
    (\<not> vro e \<and> admits e v \<longrightarrow>
      snd (hibr_set ax s k v ex) = HIBR_OK \<and> hibr_get (fst (hibr_set ax s k v ex)) k = Some (coerced e v))"
proof (cases "vro e")
  case True
  have "hibr_set ax s k v ex = ((v_room s)\<lparr>st := 1, refused := 1\<rparr>, HIBR_FAIL)"
    unfolding hibr_set_def by (rule step_ro [OF ok d f True])
  with True v_room_ok(2) [OF ok] show ?thesis by simp
next
  case False
  note rm = v_room_ok [OF ok]
  have h: "hibr_set ax s k v ex = (case v_coerce ax (v_room s) e v of
      (s', None) \<Rightarrow> (s'\<lparr>st := 1\<rparr>, HIBR_FAIL) | (s', Some v') \<Rightarrow> (v_store s' k v' (exports s k ex), HIBR_OK))"
    unfolding hibr_set_def by (rule step_old [OF ok d f False r]) simp
  show ?thesis
  proof (cases "admits e v")
    case False
    with h i \<open>\<not> vro e\<close> rm(2) show ?thesis by (simp add: v_coerce_noint)
  next
    case True
    let ?t = "v_store (v_room s) k (coerced e v) (exports s k ex)"
    from h i True have e: "hibr_set ax s k v ex = (?t, HIBR_OK)" by (simp add: v_coerce_noint)
    let ?e = "e\<lparr>vmap := nullmap, vn := 0, vv := Some (coerced e v), vex := vex e \<or> exports s k ex\<rparr>"
    have "v_find (v_room s) k = Some e" using f rm(2) by simp
    from v_store_ok(2) [OF rm(1) this] have "v_find ?t k = Some ?e" by simp
    moreover have "\<not> follows ?e" using r by (simp add: follows_def is_ref_def)
    ultimately have "hibr_get ?t k = Some (coerced e v)" by (subst hibr_get_plain [of ?t k ?e]) auto
    with e True \<open>\<not> vro e\<close> show ?thesis by simp
  qed
qed

text \<open>A shell with one variable, as the witnesses use it.\<close>

definition sh_with :: "var \<Rightarrow> sh" where
  "sh_with v = v_back sh0 v"

lemma sh_with_ok: "var_ok v \<Longrightarrow> sh_ok (sh_with v)" "var_ok v \<Longrightarrow> v_find (sh_with v) = [vk v \<mapsto> v]"
  using v_back_ok [of sh0 v] by (auto simp: sh_with_def fun_eq_iff)

theorem assign_refused_witness:
  "snd (hibr_set (\<lambda>s v. (s, 0)) (sh_with ((new_var ''c'' ''1'' False)\<lparr>vro := True\<rparr>)) ''c'' ''2'' False) = HIBR_FAIL"
proof -
  let ?e = "(new_var ''c'' ''1'' False)\<lparr>vro := True\<rparr>"
  have o: "var_ok ?e" "vk ?e = ''c''" by (simp_all add: new_var_def var_ok_def)
  have "v_find (sh_with ?e) ''c'' = Some ?e" using sh_with_ok(2) [OF o(1)] o(2) by simp
  from assign_refused [OF sh_with_ok(1) [OF o(1)] _ this] show ?thesis by (simp add: is_dyn_def is_ref_def)
qed

text \<open>An assignment through a chain of references, of at most 16 hops, assigns the variable at
  its end as an assignment to that name does; a longer chain or a cycle is refused and changes no
  variable.\<close>

theorem assign_through_refs:
  assumes ok: "sh_ok s" and d: "\<not> is_dyn k" and f: "v_find s k = Some e" and p: "\<not> vro e" "is_ref e"
  shows "(\<forall>k' e'. ref_chase s 16 k (Some e) = Some (k', e') \<and> (\<forall>v. e' = Some v \<longrightarrow> \<not> is_ref v) \<longrightarrow>
      v_assign ax s k v ex keep = v_assign ax (v_room s) k' v (exports s k ex) keep) \<and>
    (ref_chase s 16 k (Some e) = None \<longrightarrow>
      snd (v_assign ax s k v ex keep) = HIBR_FAIL \<and> v_find (fst (v_assign ax s k v ex keep)) = v_find s)"
proof (intro conjI allI impI)
  fix k' e'
  assume c: "ref_chase s 16 k (Some e) = Some (k', e') \<and> (\<forall>v. e' = Some v \<longrightarrow> \<not> is_ref v)"
  show "v_assign ax s k v ex keep = v_assign ax (v_room s) k' v (exports s k ex) keep"
    unfolding v_assign_fix [OF ok, of ax k v ex keep]
    using step_ref [OF ok d f p, of k' e'] c by simp
next
  assume c: "ref_chase s 16 k (Some e) = None"
  have e: "v_assign ax s k v ex keep = ((v_room s)\<lparr>st := 1\<rparr>, HIBR_FAIL)"
    unfolding v_assign_fix [OF ok, of ax k v ex keep] by (rule step_cycle [OF ok d f p c])
  show "snd (v_assign ax s k v ex keep) = HIBR_FAIL" "v_find (fst (v_assign ax s k v ex keep)) = v_find s"
    unfolding e using v_room_ok(2) [OF ok] by simp_all
qed

text \<open>A reference that names itself.\<close>

lemma ref_chase_self:
  "v_find s k = Some e \<Longrightarrow> follows e \<Longrightarrow> vv e = Some k \<Longrightarrow> ref_chase s h k (Some e) = None"
  by (induction h) (simp_all add: ref_chase.simps)

theorem assign_through_refs_witness:
  "snd (v_assign (\<lambda>s v. (s, 0)) (sh_with ((new_var ''r'' ''r'' False)\<lparr>vat := 2\<rparr>)) ''r'' ''1'' False False) = HIBR_FAIL"
proof -
  let ?e = "(new_var ''r'' ''r'' False)\<lparr>vat := 2\<rparr>"
  have o: "var_ok ?e" "vk ?e = ''r''" "\<not> vro ?e" "is_ref ?e" "follows ?e" "vv ?e = Some ''r''"
    by (simp_all add: new_var_def var_ok_def is_ref_def has_def follows_def)
  have f: "v_find (sh_with ?e) ''r'' = Some ?e" using sh_with_ok(2) [OF o(1)] o(2) by simp
  have "\<not> is_dyn ''r''" by (simp add: is_dyn_def)
  from assign_through_refs [OF sh_with_ok(1) [OF o(1)] this f o(3,4)] ref_chase_self [OF f o(5,6)] show ?thesis
    by blast
qed

text \<open>C36: when a function returns, every name its parameters and locals hid has exactly the variable
  it had before, value, map, type and flags, whatever the body did; no other name is touched.\<close>

theorem scope_restore:
  assumes "sh_ok s" and "hide_all s [] ks = (s1, fr)" and "sh_ok s2"
  shows "v_find (asg_pop ax s2 fr) = (\<lambda>k. if k \<in> set ks \<and> \<not> ro_at s k then v_find s k else v_find s2 k) \<and>
    sh_ok (asg_pop ax s2 fr)"
proof -
  have "scopes.wf_saves (map of_sav [])" by (simp add: scopes.wf_saves_def)
  from hide_all_ok [OF assms(1) _ this assms(2)]
  have h: "\<forall>r \<in> set fr. sv r = None" "scopes.wf_saves (map of_sav fr)" "sh_ok s1"
    "\<And>k. (case map_of (map of_sav fr) k of Some b \<Rightarrow> b | None \<Rightarrow> v_find s1 k) = v_find s k"
    "sk ` set fr = {k \<in> set ks. \<not> ro_at s k}" by auto
  note p = asg_pop_restore [OF h(1), of ax s2] and r = scopes.restore_all [OF assms(3) h(2)]
  have d: "map_of (map of_sav fr) k = None \<longleftrightarrow> k \<notin> sk ` set fr" for k
    by (force simp: map_of_eq_None_iff of_sav_def image_iff)
  have "v_find (asg_pop ax s2 fr) k = (if k \<in> set ks \<and> \<not> ro_at s k then v_find s k else v_find s2 k)" for k
  proof (cases "map_of (map of_sav fr) k")
    case None
    then have "k \<notin> sk ` set fr" using d by simp
    with h(5) have c: "\<not> (k \<in> set ks \<and> \<not> ro_at s k)" by blast
    show ?thesis unfolding if_not_P [OF c] using None p r [of k] by simp
  next
    case (Some b)
    then have "k \<in> sk ` set fr" using d [of k] by (cases "k \<in> sk ` set fr") auto
    with Some p r [of k] h(4) [of k] h(5) show ?thesis by simp
  qed
  with p r show ?thesis by (auto simp: fun_eq_iff)
qed

theorem scope_restore_witness:
  "v_find (asg_pop (\<lambda>s v. (s, 0)) sh0 (snd (hide_all (sh_with (new_var ''x'' ''1'' False)) [] [''x'']))) ''x'' =
    Some (new_var ''x'' ''1'' False)"
proof -
  let ?s = "sh_with (new_var ''x'' ''1'' False)"
  have o: "sh_ok ?s" "v_find ?s ''x'' = Some (new_var ''x'' ''1'' False)"
    using sh_with_ok [of "new_var ''x'' ''1'' False"] by simp_all
  obtain s1 fr where h: "hide_all ?s [] [''x''] = (s1, fr)" by fastforce
  from scope_restore [OF o(1) h sh0_simps(1)] o(2) h show ?thesis by simp
qed

text \<open>Writing a path of a plain or new variable and reading it back gives the value; no other path
  that does not cross it and no other variable changes. Element 0 is what the bare name reads.\<close>

theorem element_set_get:
  assumes ok: "sh_ok s" and ne: "ks \<noteq> []" and d: "\<not> is_dyn nm"
    and plain: "case v_find s nm of None \<Rightarrow> \<not> refuses s nm | Some e \<Rightarrow> \<not> vro e \<and> vat e = 0"
  shows "v_getp (v_setp ax s nm ks val) nm ks = Some val \<and>
    (\<forall>ks'. ks' \<noteq> [] \<and> \<not> prefix ks ks' \<and> \<not> prefix ks' ks \<longrightarrow> v_getp (v_setp ax s nm ks val) nm ks' = v_getp s nm ks') \<and>
    (\<forall>k. k \<noteq> nm \<longrightarrow> v_find (v_setp ax s nm ks val) k = v_find s k) \<and>
    (ks = [''0''] \<longrightarrow> hibr_get (v_setp ax s nm ks val) nm = Some val)"
  using element_set_get_at [OF ok ne d plain] .

theorem element_set_get_witness:
  "v_getp (v_setp (\<lambda>s v. (s, 0)) sh0 ''m'' [''a'', ''b''] ''v'') ''m'' [''a'', ''b''] = Some ''v''"
  using element_set_get [of sh0 "[''a'', ''b'']" "''m''" "\<lambda>s v. (s, 0)" "''v''"] by (simp add: is_dyn_def)

text \<open>A script's assignment to a name that holds an array sets element 0 and keeps the others; the
  shell's own assignment replaces the array.\<close>

theorem assign_array:
  assumes ok: "sh_ok s" and d: "\<not> is_dyn k" and f: "v_find s k = Some e" and p: "\<not> vro e" "vat e = 0" and a: "vam e"
  shows "hibr_get (fst (v_assign ax s k v ex True)) k = Some v \<and>
    v_getp (fst (v_assign ax s k v ex True)) k [''0''] = Some v \<and>
    (\<forall>ks. ks \<noteq> [] \<and> hd ks \<noteq> ''0'' \<longrightarrow> v_getp (fst (v_assign ax s k v ex True)) k ks = v_getp s k ks) \<and>
    v_getp (fst (hibr_set ax s k v ex)) k [''0''] = None"
proof -
  note rm = v_room_ok [OF ok]
  have nr: "\<not> is_ref e" using p(2) by (simp add: is_ref_def)
  have nf: "\<not> follows e" using nr by (simp add: follows_def)
  have fr: "v_find (v_room s) k = Some e" using f rm(2) by simp
  have e1: "fst (v_assign ax s k v ex True) = v_setp ax (v_room s) k [''0''] v"
    unfolding v_assign_fix [OF ok, of ax k v ex True] using a nr p(1) d fr v_dyn_None [of s k v]
    by (auto simp: v_assign_step_def Let_def)
  have pl: "case v_find (v_room s) k of None \<Rightarrow> \<not> refuses (v_room s) k | Some e \<Rightarrow> \<not> vro e \<and> vat e = 0"
    using fr p by simp
  have ne: "[''0''] \<noteq> ([] :: string list)" by simp
  note g = element_set_get_at [OF rm(1) ne d pl, of ax v]
  have same: "v_getp (v_room s) k ks = v_getp s k ks" if "ks \<noteq> []" for ks
    using v_getp_at [OF fr nf that] v_getp_at [OF f nf that] by simp
  let ?t = "v_store (v_room s) k v (exports s k ex)"
  have "v_coerce ax (v_room s) e v = (v_room s, Some v)" using p(2) by (simp add: v_coerce_def v_tyname_def)
  then have e2: "hibr_set ax s k v ex = (?t, HIBR_OK)"
    unfolding hibr_set_def step_old [OF ok d f p(1) nr, of False, simplified] by simp
  have ft: "v_find ?t k = Some (e\<lparr>vmap := nullmap, vn := 0, vv := Some v, vex := vex e \<or> exports s k ex\<rparr>)" (is "_ = Some ?e")
    using v_store_ok(2) [OF rm(1) fr] by simp
  have "\<not> follows ?e" using nr by (simp add: follows_def is_ref_def)
  from v_getp_at [OF ft this, of "[''0'']"] have n: "v_getp ?t k [''0''] = None" by simp
  have "v_getp (v_setp ax (v_room s) k [''0''] v) k ks = v_getp s k ks" if "ks \<noteq> []" "hd ks \<noteq> ''0''" for ks
  proof -
    have "\<not> prefix [''0''] ks" "\<not> prefix ks [''0'']" using that by (cases ks; auto)+
    with conjunct1 [OF conjunct2 [OF g], rule_format, of ks] that(1) same show ?thesis by simp
  qed
  moreover have "hibr_get (v_setp ax (v_room s) k [''0''] v) k = Some v" "v_getp (v_setp ax (v_room s) k [''0''] v) k [''0''] = Some v"
    using g by simp_all
  ultimately show ?thesis using n e1 e2 by simp
qed

theorem assign_array_witness:
  "hibr_get (fst (v_assign (\<lambda>s v. (s, 0)) (sh_with ((new_var ''a'' [] False)\<lparr>vam := True\<rparr>)) ''a'' ''7'' False True)) ''a'' = Some ''7''"
proof -
  let ?e = "(new_var ''a'' [] False)\<lparr>vam := True\<rparr>"
  have o: "var_ok ?e" "vk ?e = ''a''" "\<not> vro ?e" "vat ?e = 0" "vam ?e" by (simp_all add: new_var_def var_ok_def)
  have "v_find (sh_with ?e) ''a'' = Some ?e" using sh_with_ok(2) [OF o(1)] o(2) by simp
  from assign_array [OF sh_with_ok(1) [OF o(1)] _ this o(3-5)] show ?thesis by (simp add: is_dyn_def)
qed

text \<open>Every assignment, element write and array write keeps the table and every map below it well
  formed, whatever expression an integer attribute evaluates, and follows the code's recursion.\<close>

theorem assign_wellformed:
  assumes "sh_ok s" and "ax_keeps ax"
  shows "sh_ok (fst (v_assign ax s k v ex keep)) \<and> sh_ok (v_setp ax s k ks v) \<and>
    v_assign ax s k v ex keep =
      v_assign_step ax (\<lambda>s k v ex. v_assign ax s k v ex keep) (\<lambda>s k v. v_setp ax s k [''0''] v) s k v ex keep"
  using v_assign_ok [OF assms] v_setp_ok [OF assms] v_assign_fix [OF assms(1)] by blast

theorem assign_wellformed_witness: "sh_ok (v_setp (\<lambda>s v. (s, 0)) sh0 ''m'' [''a''] ''1'')"
  using assign_wellformed [of sh0 "\<lambda>s v. (s, 0)"] by simp

lemma set_plain:
  assumes ok: "sh_ok s" and d: "\<not> is_dyn k" and f: "v_find s k = Some e" and p: "\<not> vro e" "vat e = 0"
  shows "snd (hibr_set ax s k v ex) = HIBR_OK" "sh_ok (fst (hibr_set ax s k v ex))"
    "v_find (fst (hibr_set ax s k v ex)) =
      (v_find s)(k := Some (e\<lparr>vmap := nullmap, vn := 0, vv := Some v, vex := vex e \<or> exports s k ex\<rparr>))"
    "vex e \<or> ex \<Longrightarrow> env (fst (hibr_set ax s k v ex)) k = Some v"
proof -
  note rm = v_room_ok [OF ok]
  have "\<not> is_ref e" "v_coerce ax (v_room s) e v = (v_room s, Some v)"
    using p by (simp_all add: is_ref_def v_coerce_def v_tyname_def)
  then have e: "hibr_set ax s k v ex = (v_store (v_room s) k v (exports s k ex), HIBR_OK)"
    unfolding hibr_set_def step_old [OF ok d f p(1) \<open>\<not> is_ref e\<close>, of False, simplified] by simp
  from f rm(2) have fr: "v_find (v_room s) k = Some e" by simp
  note c = v_store_ok [OF rm(1) fr, of v "exports s k ex"]
  show "snd (hibr_set ax s k v ex) = HIBR_OK" "sh_ok (fst (hibr_set ax s k v ex))"
    "v_find (fst (hibr_set ax s k v ex)) =
      (v_find s)(k := Some (e\<lparr>vmap := nullmap, vn := 0, vv := Some v, vex := vex e \<or> exports s k ex\<rparr>))"
    unfolding e using c rm(2) by simp_all
  show "env (fst (hibr_set ax s k v ex)) k = Some v" if "vex e \<or> ex"
    unfolding e using v_store_env [OF rm(1) fr, of "exports s k ex" v] that by (auto simp: exports_def)
qed

text \<open>C37: a command's temporary assignment to a plain variable gives the command the new value in its
  environment, and afterwards the variable has its old value again; but the export the command
  needed is not undone, so the variable stays exported.\<close>

theorem temp_assignment:
  assumes ok: "sh_ok s" and d: "\<not> is_dyn k" and f: "v_find s k = Some e"
    and p: "\<not> vro e" "vat e = 0" "\<not> vam e" "ents (vmap e) = []" "vv e = Some t"
    and q: "asg_eq kv = Some q" "take q kv = k"
  shows "(case asg_push ax s [kv] [] of (s1, old) \<Rightarrow>
    env s1 k = Some (drop (q + 1) kv) \<and> hibr_get s1 k = Some (drop (q + 1) kv) \<and>
    hibr_get (asg_pop ax s1 old) k = Some t \<and>
    (\<exists>e'. v_find (asg_pop ax s1 old) k = Some e' \<and> vex e') \<and> env (asg_pop ax s1 old) k = Some t)"
proof -
  let ?v = "drop (q + 1) kv" and ?r = "\<lparr>sk = k, sv = Some t, sw = None, sex = vex e\<rparr>"
  have keep: "asg_keep s [] k = (s, [?r])" using f p by (simp add: asg_keep_def)
  note a = set_plain [OF ok d f p(1,2), where ax = ax and v = ?v and ex = True]
  let ?s1 = "fst (hibr_set ax s k ?v True)"
  let ?e1 = "e\<lparr>vmap := nullmap, vn := 0, vv := Some ?v, vex := True\<rparr>"
  have push: "asg_push ax s [kv] [] = (?s1, [?r])"
    using keep a(1) q by (simp add: case_prod_unfold)
  have f1: "v_find ?s1 k = Some ?e1" using a(3) by (simp add: exports_def)
  have pe: "\<not> vro ?e1" "vat ?e1 = 0" "vex ?e1" using p by simp_all
  note b = set_plain [OF a(2) d f1 pe(1,2), where ax = ax and v = t and ex = "vex e"]
  have pop: "asg_pop ax ?s1 [?r] = fst (hibr_set ax ?s1 k t (vex e))" by (simp add: asg_pop_def undo1_def)
  let ?e2 = "?e1\<lparr>vv := Some t\<rparr>"
  have f2: "v_find (asg_pop ax ?s1 [?r]) k = Some ?e2" unfolding pop using b(3) by (simp add: exports_def)
  have nf: "\<not> follows ?e1" "\<not> follows ?e2" using p(2) by (simp_all add: follows_def is_ref_def)
  have "hibr_get ?s1 k = Some ?v" using hibr_get_plain [OF f1 nf(1)] by simp
  moreover have "hibr_get (asg_pop ax ?s1 [?r]) k = Some t" using hibr_get_plain [OF f2 nf(2)] by simp
  moreover have "env (asg_pop ax ?s1 [?r]) k = Some t" unfolding pop using b(4) pe(3) by simp
  ultimately show ?thesis using push a(4) f2 by simp
qed

theorem temp_assignment_witness:
  "\<exists>e'. v_find (asg_pop (\<lambda>s v. (s, 0)) (fst (asg_push (\<lambda>s v. (s, 0)) (sh_with (new_var ''x'' ''1'' False)) [''x=2''] []))
      (snd (asg_push (\<lambda>s v. (s, 0)) (sh_with (new_var ''x'' ''1'' False)) [''x=2''] []))) ''x'' = Some e' \<and> vex e'"
proof -
  let ?e = "new_var ''x'' ''1'' False"
  have o: "sh_ok (sh_with ?e)" "v_find (sh_with ?e) ''x'' = Some ?e" using sh_with_ok [of ?e] by simp_all
  have q: "asg_eq ''x=2'' = Some 1"
    by (simp add: asg_eq_def name_len_def name_char_def asg_subs.simps byte_simps)
  have d: "\<not> is_dyn ''x''" by (simp add: is_dyn_def)
  show ?thesis
    using temp_assignment [OF o(1) d o(2) _ _ _ _ _ q, where ax = "\<lambda>s v. (s, 0)" and t = "''1''"]
    by (simp add: case_prod_unfold)
qed

text \<open>\<open>FOO+=x cmd\<close>: the name the temporary assignment takes is \<open>FOO+\<close>.\<close>

lemma asg_push_plus: "asg_eq ''FOO+=x'' = Some 4" "take 4 ''FOO+=x'' = ''FOO+''"
  by (simp_all add: asg_eq_def name_len_def name_char_def asg_subs.simps byte_simps)

end
