(* ===== verification/Json.thy ===== *)
theory Json
  imports Vars
begin

text \<open>
  src/json.c: reading a JSON text into a map, writing one out, and the \<open>json\<close> builtin. The
  parser's cursor, its failure flag and its depth are the record \<open>jp\<close>. Parsing recurses on what
  is left of the text; it is given fuel, and \<open>j_val_total\<close> shows that twice the length of the text
  and one is always enough.
\<close>

subsection \<open>Reading\<close>

record jp =
  jtx :: string
  jbad :: bool
  jdep :: nat

abbreviation (input) J_STR :: nat where "J_STR \<equiv> 0"
abbreviation (input) J_NUM :: nat where "J_NUM \<equiv> 1"
abbreviation (input) J_BOOL :: nat where "J_BOOL \<equiv> 2"
abbreviation (input) J_NULL :: nat where "J_NULL \<equiv> 3"
abbreviation (input) HIBR_DEPTH :: nat where "HIBR_DEPTH \<equiv> 2000"

definition j_space :: "char \<Rightarrow> bool" where
  "j_space c \<longleftrightarrow> c = CHR 0x20 \<or> c = CHR 0x09 \<or> c = CHR 0x0A \<or> c = CHR 0x0D"

definition hibr_jws :: "string \<Rightarrow> string" where
  "hibr_jws p = dropWhile j_space p"

definition j_ws :: "jp \<Rightarrow> jp" where
  "j_ws j = j\<lparr>jtx := dropWhile j_space (jtx j)\<rparr>"

definition hexval :: "char \<Rightarrow> nat" where
  "hexval c = (if isdigit c then byte c - 48 else tolower (byte c) - 97 + 10)"

definition j_hex4 :: "string \<Rightarrow> nat option" where
  "j_hex4 p =
    (if list_all (\<lambda>i. isxdigit (at p i)) [0, 1, 2, 3]
     then Some (foldl (\<lambda>u i. u * 16 + hexval (at p i)) 0 [0, 1, 2, 3]) else None)"

definition jput :: "string \<Rightarrow> string \<times> string \<times> bool \<Rightarrow> string \<times> string \<times> bool" where
  "jput s r = (s @ fst r, snd r)"

text \<open>The characters of a string up to its closing quote: what they spell, the rest, whether an
  escape was malformed.\<close>

function j_sloop :: "string \<Rightarrow> string \<times> string \<times> bool" where
  "j_sloop p =
    (case p of
       [] \<Rightarrow> ([], [], False)
     | c # r \<Rightarrow>
         if c = DQ then ([], p, False)
         else if c \<noteq> BS then jput [c] (j_sloop r)
         else
           (case r of
             [] \<Rightarrow> ([], [], False)
           | d # q \<Rightarrow>
               if d = CHR ''n'' then jput [CHR 0x0A] (j_sloop q)
               else if d = CHR ''t'' then jput [CHR 0x09] (j_sloop q)
               else if d = CHR ''r'' then jput [CHR 0x0D] (j_sloop q)
               else if d = CHR ''b'' then jput [CHR 0x08] (j_sloop q)
               else if d = CHR ''f'' then jput [CHR 0x0C] (j_sloop q)
               else if d = CHR ''u'' then
                 (case j_hex4 q of
                    None \<Rightarrow> (let (o1, q', b) = j_sloop q in (o1, q', True))
                  | Some u \<Rightarrow>
                      let q4 = drop 4 q;
                          lo = (if u \<ge> 0xD800 \<and> u \<le> 0xDBFF \<and> at q4 0 = BS \<and> at q4 1 = CHR ''u'' then j_hex4 (drop 2 q4) else None)
                      in if lo \<noteq> None \<and> the lo \<ge> 0xDC00 \<and> the lo \<le> 0xDFFF then
                           jput (u8put (0x10000 + push_bit 10 (u - 0xD800) + (the lo - 0xDC00))) (j_sloop (drop 6 q4))
                         else if u \<ge> 0xD800 \<and> u \<le> 0xDFFF \<or> u = 0 then jput (u8put 0xFFFD) (j_sloop q4)
                         else jput (u8put u) (j_sloop q4))
               else jput [d] (j_sloop q)))"
  by pat_completeness auto
termination
  by (relation "measure length") auto

declare j_sloop.simps [simp del]

text \<open>\<open>hibr_jstr\<close>, the reader of a module's own JSON files: the string and what follows its closing
  quote. A malformed escape, or no closing quote, is the null pointer; a surrogate standing
  alone and U+0000 are put as they are.\<close>

definition jpre :: "string \<Rightarrow> (string \<times> string) option \<Rightarrow> (string \<times> string) option" where
  "jpre s r = map_option (\<lambda>(o1, q). (s @ o1, q)) r"

function jstr_loop :: "string \<Rightarrow> (string \<times> string) option" where
  "jstr_loop p =
    (case p of
       [] \<Rightarrow> None
     | c # r \<Rightarrow>
         if c = DQ then Some ([], r)
         else if c \<noteq> BS then jpre [c] (jstr_loop r)
         else
           (case r of
             [] \<Rightarrow> None
           | d # q \<Rightarrow>
               if d = CHR ''n'' then jpre [CHR 0x0A] (jstr_loop q)
               else if d = CHR ''t'' then jpre [CHR 0x09] (jstr_loop q)
               else if d = CHR ''r'' then jpre [CHR 0x0D] (jstr_loop q)
               else if d = CHR ''b'' then jpre [CHR 0x08] (jstr_loop q)
               else if d = CHR ''f'' then jpre [CHR 0x0C] (jstr_loop q)
               else if d = CHR ''u'' then
                 (case j_hex4 q of
                    None \<Rightarrow> None
                  | Some u \<Rightarrow>
                      let q4 = drop 4 q;
                          lo = (if u \<ge> 0xD800 \<and> u < 0xDC00 \<and> at q4 0 = BS \<and> at q4 1 = CHR ''u'' then j_hex4 (drop 2 q4) else None)
                      in if lo \<noteq> None \<and> the lo \<ge> 0xDC00 \<and> the lo < 0xE000 then
                           jpre (u8put (0x10000 + push_bit 10 (u - 0xD800) + (the lo - 0xDC00))) (jstr_loop (drop 6 q4))
                         else jpre (u8put u) (jstr_loop q4))
               else jpre [d] (jstr_loop q)))"
  by pat_completeness auto
termination
  by (relation "measure length") auto

declare jstr_loop.simps [simp del]

definition hibr_jstr :: "string \<Rightarrow> (string \<times> string) option" where
  "hibr_jstr p = (if at p 0 \<noteq> DQ then None else jstr_loop (drop 1 p))"

definition j_str :: "jp \<Rightarrow> string \<times> jp" where
  "j_str j =
    (if at (jtx j) 0 \<noteq> DQ then ([], j\<lparr>jbad := True\<rparr>)
     else let (s, q, b) = j_sloop (drop 1 (jtx j)) in
          if at q 0 = DQ then (s, j\<lparr>jtx := drop 1 q, jbad := (jbad j \<or> b)\<rparr>)
          else (s, j\<lparr>jtx := q, jbad := True\<rparr>))"

definition j_lit :: "char \<Rightarrow> bool" where
  "j_lit c \<longleftrightarrow> \<not> j_space c \<and> c \<noteq> CHR '','' \<and> c \<noteq> CHR ''}'' \<and> c \<noteq> CHR '']''"

text \<open>A literal's type; \<open>None\<close> when it is none.\<close>

definition lit_ty :: "string \<Rightarrow> nat option" where
  "lit_ty s =
    (if s = ''true'' \<or> s = ''false'' then Some J_BOOL
     else if s = ''null'' then Some J_NULL
     else if at s 0 = CHR ''-'' \<or> isdigit (at s 0) then Some J_NUM
     else None)"

definition ent_ty :: "nat \<Rightarrow> ent \<Rightarrow> ent" where
  "ent_ty t e = Ent (ekey e) (estr e) (emap e) (en e) t"

definition ent_str :: "string \<Rightarrow> ent \<Rightarrow> ent" where
  "ent_str v e = Ent (ekey e) (Some v) (emap e) (en e) (ety e)"

definition jclose :: "bool \<Rightarrow> char" where
  "jclose arr = (if arr then CHR '']'' else CHR ''}'')"

text \<open>A value that is no container: a quoted string, or a literal up to a delimiter.\<close>

definition j_scalar :: "jp \<Rightarrow> ent \<Rightarrow> jp \<times> ent" where
  "j_scalar j e =
    (if at (jtx j) 0 = DQ then
       (let (s, j1) = j_str j in (j1, ent_str s (ent_ty J_STR e)))
     else
       (let s = takeWhile j_lit (jtx j); j1 = j\<lparr>jtx := dropWhile j_lit (jtx j)\<rparr>; e1 = ent_str s e in
        case lit_ty s of Some t \<Rightarrow> (j1, ent_ty t e1) | None \<Rightarrow> (j1\<lparr>jbad := True\<rparr>, e1)))"

text \<open>The key of a container's next entry: its index, or the quoted name before the colon.\<close>

definition j_key :: "bool \<Rightarrow> int \<Rightarrow> jp \<Rightarrow> string \<times> jp" where
  "j_key arr n j =
    (if arr then (s_num n, j)
     else let (k, ja) = j_str j; jb = j_ws ja
          in (k, if at (jtx jb) 0 = CHR '':'' then jb\<lparr>jtx := drop 1 (jtx jb)\<rparr> else jb\<lparr>jbad := True\<rparr>))"

definition j_skip :: "jp \<Rightarrow> jp" where
  "j_skip j = j\<lparr>jtx := drop 1 (jtx j)\<rparr>"

fun j_val :: "nat \<Rightarrow> jp \<Rightarrow> ent \<Rightarrow> (jp \<times> ent) option"
  and j_items :: "nat \<Rightarrow> bool \<Rightarrow> int \<Rightarrow> jp \<Rightarrow> ent \<Rightarrow> (jp \<times> ent) option" where
  "j_val 0 j e = None"
| "j_val (Suc f) j0 e =
    (let j = j_ws j0; c = at (jtx j) 0 in
     if c = CHR ''{'' \<or> c = CHR ''['' then
       (let arr = (c = CHR ''['') in
        if jdep j + 1 > HIBR_DEPTH then Some (j\<lparr>jbad := True\<rparr>, e)
        else
          let j1 = j_ws (j_skip j); e1 = ent_ty (if arr then J_ARR else J_OBJ) e in
          if at (jtx j1) 0 = jclose arr then Some (j_skip j1, e1)
          else (case j_items f arr 0 (j1\<lparr>jdep := jdep j + 1\<rparr>) e1 of
                  None \<Rightarrow> None
                | Some (j2, e2) \<Rightarrow> Some (j2\<lparr>jdep := jdep j2 - 1\<rparr>, e2)))
     else Some (j_scalar j e))"
| "j_items 0 arr n j e = None"
| "j_items (Suc f) arr n j0 e =
    (let (k, j1) = j_key arr n (j_ws j0); (m, q) = mp_add (emap e, en e) k
     in case mp_find m k of
          None \<Rightarrow> None
        | Some c \<Rightarrow>
            (case j_val f j1 c of
               None \<Rightarrow> None
             | Some (j2, c') \<Rightarrow>
                 let e' = ent_map (ent_upd m k (\<lambda>_. c'), q) e; j3 = j_ws j2 in
                 if at (jtx j3) 0 = CHR '','' then j_items f arr (n + 1) (j_skip j3) e'
                 else if at (jtx j3) 0 = jclose arr then Some (j_skip j3, e')
                 else Some (j3\<lparr>jbad := True\<rparr>, e')))"

declare j_val.simps [simp del] j_items.simps [simp del]

text \<open>A whole document, as \<open>json parse\<close> reads it: the root entry, or \<open>None\<close> when malformed.\<close>

definition j_parse :: "string \<Rightarrow> ent option" where
  "j_parse txt =
    (case j_val (2 * length txt + 1) \<lparr>jtx = txt, jbad = False, jdep = 0\<rparr> (ent0 []) of
       None \<Rightarrow> None
     | Some (j, root) \<Rightarrow> if jbad (j_ws j) \<or> jtx (j_ws j) \<noteq> [] then None else Some root)"

subsection \<open>Writing\<close>

fun arr_keys :: "nat \<Rightarrow> string list \<Rightarrow> bool" where
  "arr_keys i [] = True"
| "arr_keys i (k # ks) = (k \<noteq> [] \<and> list_all isdigit k \<and> atol k = int i \<and> arr_keys (Suc i) ks)"

definition j_isarr :: "chain \<Rightarrow> nat \<Rightarrow> nat \<Rightarrow> bool" where
  "j_isarr m n ty =
    (if ty = J_ARR then True else if ty = J_OBJ then False else arr_keys 0 (map ekey (ents m)) \<and> n > 0)"

definition j_quote :: "string \<Rightarrow> string" where
  "j_quote p = [DQ] @ lg_jstr p @ [DQ]"

definition j_pad :: "nat \<Rightarrow> string" where
  "j_pad d = CHR 0x0A # concat (replicate d [CHR 0x20, CHR 0x20])"

definition scalar_out :: "string option \<Rightarrow> nat \<Rightarrow> string" where
  "scalar_out sc ty =
    (if ty = J_NUM \<or> ty = J_BOOL \<or> ty = J_NULL then (if sc \<noteq> None \<and> sc \<noteq> Some [] then the sc else ''null'')
     else if ty = J_ARR then ''[]''
     else if ty = J_OBJ then ''{}''
     else j_quote (case sc of Some s \<Rightarrow> s | None \<Rightarrow> []))"

fun j_out :: "chain \<Rightarrow> nat \<Rightarrow> string option \<Rightarrow> nat \<Rightarrow> bool \<Rightarrow> nat \<Rightarrow> string"
  and j_ents :: "bool \<Rightarrow> ent list \<Rightarrow> bool \<Rightarrow> nat \<Rightarrow> string"
  and j_ent :: "bool \<Rightarrow> ent \<Rightarrow> bool \<Rightarrow> nat \<Rightarrow> string" where
  "j_out (Chain es t x) n sc ty pretty depth =
    (if es = [] then scalar_out sc ty
     else let arr = j_isarr (Chain es t x) n ty in
       (if arr then ''['' else ''{'') @ j_ents arr es pretty depth @
       (if pretty then j_pad depth else []) @ [jclose arr])"
| "j_ents arr [] pretty depth = []"
| "j_ents arr (e # es) pretty depth =
     (if pretty then j_pad (depth + 1) else []) @ j_ent arr e pretty depth @
     (if es \<noteq> [] then '','' else []) @ j_ents arr es pretty depth"
| "j_ent arr (Ent k v m n ty) pretty depth =
     (if arr then [] else j_quote k @ '':'' @ (if pretty then '' '' else [])) @ j_out m n v ty pretty (depth + 1)"

definition j_tname :: "nat \<Rightarrow> chain \<Rightarrow> string" where
  "j_tname ty m =
    (if ents m \<noteq> [] then (if ty = J_ARR then ''array'' else ''object'')
     else if ty = J_NUM then ''number'' else if ty = J_BOOL then ''boolean'' else if ty = J_NULL then ''null''
     else if ty = J_ARR then ''array'' else if ty = J_OBJ then ''object'' else ''string'')"

definition j_guess :: "string \<Rightarrow> nat" where
  "j_guess v =
    (if v = ''true'' \<or> v = ''false'' then J_BOOL
     else if v = ''null'' then J_NULL
     else let p = (if at v 0 = CHR ''-'' then drop 1 v else v) in
       if p = [] then J_STR
       else if list_all (\<lambda>c. isdigit c \<or> c = CHR ''.'' \<or> c = CHR ''e'' \<or> c = CHR ''E'' \<or> c = CHR ''+'' \<or> c = CHR ''-'') p
       then J_NUM else J_STR)"

text \<open>A jq-style path: names between points, and subscripts in brackets.\<close>

function j_path :: "string \<Rightarrow> string list" where
  "j_path p =
    (case p of
       [] \<Rightarrow> []
     | c # r \<Rightarrow>
         if c = CHR ''.'' then j_path r
         else if c = CHR ''['' then
           takeWhile (\<lambda>c. c \<noteq> CHR '']'') r # j_path (drop 1 (dropWhile (\<lambda>c. c \<noteq> CHR '']'') r))
         else takeWhile (\<lambda>c. c \<noteq> CHR ''.'' \<and> c \<noteq> CHR ''['') p # j_path (dropWhile (\<lambda>c. c \<noteq> CHR ''.'' \<and> c \<noteq> CHR ''['') p))"
  by pat_completeness auto
termination
  by (relation "measure length") (auto simp: less_Suc_eq_le intro: order.trans [OF diff_le_self length_dropWhile_le] length_dropWhile_le)

declare j_path.simps [simp del]

subsection \<open>Strings\<close>

lemma hexdig_val: "n < 16 \<Longrightarrow> isxdigit (hexdig n) \<and> hexval (hexdig n) = n"
proof -
  have "list_all (\<lambda>n. isxdigit (hexdig n) \<and> hexval (hexdig n) = n) [0..<16]" by code_simp
  then show "n < 16 \<Longrightarrow> ?thesis" by (simp add: list_all_iff)
qed

lemma j_hex4_ctl:
  assumes "n < 32"
  shows "j_hex4 (CHR ''0'' # CHR ''0'' # hexdig (n div 16) # hexdig (n mod 16) # r) = Some n"
proof -
  have "isxdigit (hexdig (n div 16)) \<and> hexval (hexdig (n div 16)) = n div 16"
    "isxdigit (hexdig (n mod 16)) \<and> hexval (hexdig (n mod 16)) = n mod 16"
    using assms by (auto intro!: hexdig_val)
  moreover have "isxdigit (CHR ''0'')" "hexval (CHR ''0'') = 0" by code_simp+
  ultimately show ?thesis by (simp add: j_hex4_def)
qed

lemma u8put_ascii: "n < 128 \<Longrightarrow> u8put n = [chr n]"
  by (simp add: u8put_def)

lemma jput_simps [simp]: "jput s (a, b) = (s @ a, b)" "jpre s (Some (a, q)) = Some (s @ a, q)" "jpre s None = None"
  by (simp_all add: jput_def jpre_def)

text \<open>What is left is no longer than what there was, and starts with the quote if with anything.\<close>

definition sl_ok :: "nat \<Rightarrow> string \<times> string \<times> bool \<Rightarrow> bool" where
  "sl_ok n r \<longleftrightarrow> length (fst (snd r)) \<le> n \<and> (fst (snd r) = [] \<or> at (fst (snd r)) 0 = DQ)"

lemma sl_ok_put [simp]: "sl_ok n (jput s r) \<longleftrightarrow> sl_ok n r" "sl_ok n (case r of (o1, q', b) \<Rightarrow> (o1, q', True)) \<longleftrightarrow> sl_ok n r"
  by (simp_all add: sl_ok_def jput_def split: prod.split)

lemma sl_ok_le: "sl_ok m r \<Longrightarrow> m \<le> n \<Longrightarrow> sl_ok n r"
  by (auto simp: sl_ok_def)

lemma sl_ok_drop: "sl_ok (length (drop k q)) r \<Longrightarrow> length q \<le> n \<Longrightarrow> sl_ok n r"
  by (erule sl_ok_le) simp

lemma j_sloop_simps [simp]:
  "j_sloop [] = ([], [], False)"
  "j_sloop (DQ # r) = ([], DQ # r, False)"
  "c \<noteq> DQ \<Longrightarrow> c \<noteq> BS \<Longrightarrow> j_sloop (c # r) = jput [c] (j_sloop r)"
  "j_sloop [BS] = ([], [], False)"
  "d \<noteq> CHR ''u'' \<Longrightarrow> j_sloop (BS # d # q) =
     jput [if d = CHR ''n'' then CHR 0x0A else if d = CHR ''t'' then CHR 0x09 else if d = CHR ''r'' then CHR 0x0D
           else if d = CHR ''b'' then CHR 0x08 else if d = CHR ''f'' then CHR 0x0C else d] (j_sloop q)"
  by (subst j_sloop.simps, simp)+

lemma j_sloop_u: "j_sloop (BS # CHR ''u'' # q) =
    (case j_hex4 q of
       None \<Rightarrow> (let (o1, q', b) = j_sloop q in (o1, q', True))
     | Some u \<Rightarrow>
         let q4 = drop 4 q;
             lo = (if u \<ge> 0xD800 \<and> u \<le> 0xDBFF \<and> at q4 0 = BS \<and> at q4 1 = CHR ''u'' then j_hex4 (drop 2 q4) else None)
         in if lo \<noteq> None \<and> the lo \<ge> 0xDC00 \<and> the lo \<le> 0xDFFF then
              jput (u8put (0x10000 + push_bit 10 (u - 0xD800) + (the lo - 0xDC00))) (j_sloop (drop 6 q4))
            else if u \<ge> 0xD800 \<and> u \<le> 0xDFFF \<or> u = 0 then jput (u8put 0xFFFD) (j_sloop q4)
            else jput (u8put u) (j_sloop q4))"
  by (subst j_sloop.simps) (simp only: list.case, simp)

lemma j_chars:
  obtains "p = []" | r where "p = DQ # r" | c r where "p = c # r" "c \<noteq> DQ" "c \<noteq> BS" | "p = [BS]"
    | d q where "p = BS # d # q" "d \<noteq> CHR ''u''" | q where "p = BS # CHR ''u'' # q"
  by (metis neq_Nil_conv)

lemma j_sloop_ok: "sl_ok (length p) (j_sloop p)"
proof (induction p rule: length_induct)
  case (1 p)
  then have IH: "sl_ok (length p) (j_sloop q)" if "length q < length p" for q
    using that by (auto intro: sl_ok_le)
  show ?case
  proof (cases p rule: j_chars)
    case (6 q)
    then have "sl_ok (length p) (j_sloop q)" "sl_ok (length p) (j_sloop (drop k q))" for k
      using IH [of q] IH [of "drop k q"] by simp_all
    then show ?thesis by (simp add: 6 j_sloop_u Let_def split: option.split)
  qed (use IH in \<open>auto simp: sl_ok_def [of _ "([], _)"]\<close>)
qed

lemma lg_jch_sloop: "c \<noteq> NUL \<Longrightarrow> j_sloop (lg_jch c @ rest) = jput [c] (j_sloop rest)"
  using byte_eq_iff [of c NUL] by (simp add: lg_jch_def j_sloop_u j_hex4_ctl u8put_ascii chr_byte)

lemma lg_jstr_sloop: "cstr s \<Longrightarrow> j_sloop (lg_jstr s @ DQ # rest) = (s, DQ # rest, False)"
  by (induction s) (simp_all add: lg_jch_sloop)

text \<open>The other reader agrees on every well-escaped string.\<close>

lemma jstr_loop_simps [simp]:
  "jstr_loop [] = None"
  "jstr_loop (DQ # r) = Some ([], r)"
  "c \<noteq> DQ \<Longrightarrow> c \<noteq> BS \<Longrightarrow> jstr_loop (c # r) = jpre [c] (jstr_loop r)"
  "jstr_loop [BS] = None"
  "d \<noteq> CHR ''u'' \<Longrightarrow> jstr_loop (BS # d # q) =
     jpre [if d = CHR ''n'' then CHR 0x0A else if d = CHR ''t'' then CHR 0x09 else if d = CHR ''r'' then CHR 0x0D
           else if d = CHR ''b'' then CHR 0x08 else if d = CHR ''f'' then CHR 0x0C else d] (jstr_loop q)"
  by (subst jstr_loop.simps, simp)+

lemma jstr_loop_u: "jstr_loop (BS # CHR ''u'' # q) =
    (case j_hex4 q of
       None \<Rightarrow> None
     | Some u \<Rightarrow>
         let q4 = drop 4 q;
             lo = (if u \<ge> 0xD800 \<and> u < 0xDC00 \<and> at q4 0 = BS \<and> at q4 1 = CHR ''u'' then j_hex4 (drop 2 q4) else None)
         in if lo \<noteq> None \<and> the lo \<ge> 0xDC00 \<and> the lo < 0xE000 then
              jpre (u8put (0x10000 + push_bit 10 (u - 0xD800) + (the lo - 0xDC00))) (jstr_loop (drop 6 q4))
            else jpre (u8put u) (jstr_loop q4))"
  by (subst jstr_loop.simps) (simp only: list.case, simp)

lemma lg_jch_jstr: "c \<noteq> NUL \<Longrightarrow> jstr_loop (lg_jch c @ rest) = jpre [c] (jstr_loop rest)"
  using byte_eq_iff [of c NUL] by (simp add: lg_jch_def jstr_loop_u j_hex4_ctl u8put_ascii chr_byte)

lemma lg_jstr_jstr: "cstr s \<Longrightarrow> jstr_loop (lg_jstr s @ DQ # rest) = Some (s, rest)"
  by (induction s) (simp_all add: lg_jch_jstr)

lemma j_str_quote: "cstr s \<Longrightarrow> jtx j = j_quote s @ rest \<Longrightarrow> j_str j = (s, j\<lparr>jtx := rest\<rparr>)"
  by (simp add: j_str_def j_quote_def lg_jstr_sloop)

lemma j_str_len: "length (jtx (snd (j_str j))) \<le> length (jtx j)" "jdep (snd (j_str j)) = jdep j"
  using j_sloop_ok [of "drop 1 (jtx j)"]
  by (auto simp: j_str_def sl_ok_def Let_def split: prod.split)

subsection \<open>Totality\<close>

lemma j_ws_len [simp]: "length (jtx (j_ws j)) \<le> length (jtx j)" "jdep (j_ws j) = jdep j"
  by (simp_all add: j_ws_def length_dropWhile_le)

lemma ent_ty_simps [simp]: "ent_ok (ent_ty t e) = ent_ok e" "ekey (ent_ty t e) = ekey e" "emap (ent_ty t e) = emap e"
  "en (ent_ty t e) = en e" "estr (ent_ty t e) = estr e" "ety (ent_ty t e) = t"
  by (cases e, simp add: ent_ty_def)+

lemma ent_str_simps [simp]: "ent_ok (ent_str v e) = ent_ok e" "ekey (ent_str v e) = ekey e" "emap (ent_str v e) = emap e"
  "en (ent_str v e) = en e" "estr (ent_str v e) = Some v" "ety (ent_str v e) = ety e"
  by (cases e, simp add: ent_str_def)+

text \<open>A call returned: the text left is no longer, the depth as it was, the entry well formed and
  under its key.\<close>

definition jret :: "jp \<Rightarrow> ent \<Rightarrow> (jp \<times> ent) option \<Rightarrow> bool" where
  "jret j e r \<longleftrightarrow> (\<exists>j' e'. r = Some (j', e') \<and> length (jtx j') \<le> length (jtx j) \<and> jdep j' = jdep j \<and>
    ent_ok e' \<and> ekey e' = ekey e)"

lemma jretI: "length (jtx j') \<le> length (jtx j) \<Longrightarrow> jdep j' = jdep j \<Longrightarrow> ent_ok e' \<Longrightarrow> ekey e' = ekey e \<Longrightarrow>
    jret j e (Some (j', e'))"
  by (simp add: jret_def)

lemma jretE:
  assumes "jret j e r"
  obtains j' e' where "r = Some (j', e')" "length (jtx j') \<le> length (jtx j)" "jdep j' = jdep j" "ent_ok e'" "ekey e' = ekey e"
  using assms by (auto simp: jret_def)

lemma jret_le: "jret j1 e1 r \<Longrightarrow> length (jtx j1) \<le> length (jtx j) \<Longrightarrow> jdep j1 = jdep j \<Longrightarrow> ekey e1 = ekey e \<Longrightarrow> jret j e r"
  by (auto simp: jret_def)

lemma keeps_const: "ent_ok c' \<Longrightarrow> keeps (\<lambda>e. if ekey e = ekey c' then c' else e)"
  by (simp add: keeps_def)

lemma ent_upd_guard: "ent_upd c k (\<lambda>_. c') = ent_upd c k (\<lambda>e. if ekey e = k then c' else e)"
  by (auto simp: ent_upd_def)

text \<open>The entry \<open>mp_add\<close> gives, filled in.\<close>

lemma item_entry:
  assumes "ent_ok e" and a: "mp_add (emap e, en e) k = (m, q)"
  obtains c where "mp_find m k = Some c" "ent_ok c" "ekey c = k"
    "\<And>c'. ent_ok c' \<Longrightarrow> ekey c' = k \<Longrightarrow> ent_ok (ent_map (ent_upd m k (\<lambda>_. c'), q) e)"
proof -
  have cn: "cn_ok (emap e, en e)" using assms(1) by (simp add: ent_ok_cn)
  have mq: "cn_ok (m, q)" using cn_add_spec(1) [OF cn, of k] a by simp
  obtain c where c: "mp_find m k = Some c" using mp_add_find [OF cn, of k k] a by simp
  have "chain_ok m" using mq by (simp add: cn_ok_def)
  from mp_find_ent_ok [OF this c] have "ent_ok c" "ekey c = k" by auto
  moreover have "ent_ok (ent_map (ent_upd m k (\<lambda>_. c'), q) e)" if "ent_ok c'" "ekey c' = k" for c'
    using ent_upd_cn(1) [OF mq keeps_const [OF that(1)], of k] that
    by (simp add: ent_upd_guard [of m k c'] ent_ok_cn)
  ultimately show ?thesis using that c by blast
qed

lemma j_skip_simps [simp]: "jdep (j_skip j) = jdep j" "jbad (j_skip j) = jbad j" "jtx (j_skip j) = drop 1 (jtx j)"
  by (simp_all add: j_skip_def)

lemma j_skip_len: "at (jtx j) 0 = c \<Longrightarrow> c \<noteq> NUL \<Longrightarrow> Suc (length (jtx (j_skip j))) = length (jtx j)"
  by (cases "jtx j") auto

lemma j_scalar_ret: "ent_ok e \<Longrightarrow> jret j e (Some (j_scalar j e))"
  using j_str_len [of j]
  by (auto simp: j_scalar_def Let_def length_dropWhile_le split: prod.split option.split intro!: jretI)

lemma j_key_len: "j_key arr n j = (k, j1) \<Longrightarrow> length (jtx j1) \<le> length (jtx j) \<and> jdep j1 = jdep j"
  using j_str_len [of j] j_ws_len [of "snd (j_str j)"]
  by (auto simp: j_key_def Let_def simp del: j_ws_len(1) split: prod.splits if_splits)

lemma jclose_ne [simp]: "jclose arr \<noteq> NUL" "jclose arr \<noteq> CHR '',''"
  by (simp_all add: jclose_def)

lemma j_total:
  "(ent_ok e \<longrightarrow> 2 * length (jtx j) + 1 \<le> f \<longrightarrow> jret j e (j_val f j e)) \<and>
   (ent_ok e' \<longrightarrow> 2 * length (jtx j') + 2 \<le> f \<longrightarrow> jret j' e' (j_items f arr n j' e'))"
proof (induction f arbitrary: j e j' e' arr n)
  case (Suc f)
  have "jret j e (j_val (Suc f) j e)" if ok: "ent_ok e" and le: "2 * length (jtx j) \<le> f"
  proof (cases "at (jtx (j_ws j)) 0 = CHR ''{'' \<or> at (jtx (j_ws j)) 0 = CHR ''[''")
    case True
    define arr where "arr \<longleftrightarrow> at (jtx (j_ws j)) 0 = CHR ''[''"
    define j1 where "j1 = j_ws (j_skip (j_ws j))"
    define e1 where "e1 = ent_ty (if arr then J_ARR else J_OBJ) e"
    define r where "r = j_items f arr 0 (j1\<lparr>jdep := jdep j + 1\<rparr>) e1"
    have l: "Suc (length (jtx j1)) \<le> length (jtx j)"
      using True j_skip_len [of "j_ws j"] j_ws_len(1) [of j] j_ws_len(1) [of "j_skip (j_ws j)"]
      by (auto simp: j1_def simp del: j_ws_len(1))
    have "jret (j1\<lparr>jdep := jdep j + 1\<rparr>) e1 r"
      unfolding r_def using ok le l by (intro Suc.IH [THEN conjunct2, rule_format]) (simp_all add: e1_def)
    then obtain j2 e2 where r: "r = Some (j2, e2)" "length (jtx j2) \<le> length (jtx j1)" "jdep j2 = jdep j + 1"
      "ent_ok e2" "ekey e2 = ekey e" by (auto simp: jret_def e1_def)
    have "j_val (Suc f) j e =
        (if jdep j + 1 > HIBR_DEPTH then Some (j_ws j\<lparr>jbad := True\<rparr>, e)
         else if at (jtx j1) 0 = jclose arr then Some (j_skip j1, e1)
         else case r of None \<Rightarrow> None | Some (j2, e2) \<Rightarrow> Some (j2\<lparr>jdep := jdep j2 - 1\<rparr>, e2))"
      using True by (simp add: j_val.simps Let_def arr_def j1_def e1_def r_def)
    then show ?thesis using ok l r j_ws_len [of j] by (auto simp: e1_def j1_def intro!: jretI)
  next
    case False
    then have "j_val (Suc f) j e = Some (j_scalar (j_ws j) e)" by (simp add: j_val.simps Let_def)
    then show ?thesis using jret_le [OF j_scalar_ret [OF ok, of "j_ws j"], of j e] by simp
  qed
  moreover have "jret j' e' (j_items (Suc f) arr n j' e')" if ok: "ent_ok e'" and le: "2 * length (jtx j') + 1 \<le> f"
  proof -
    obtain k j1 where k: "j_key arr n (j_ws j') = (k, j1)" by (cases "j_key arr n (j_ws j')")
    obtain m q where a: "mp_add (emap e', en e') k = (m, q)" by (cases "mp_add (emap e', en e') k")
    obtain c where c: "mp_find m k = Some c" "ent_ok c" "ekey c = k"
      "\<And>c'. ent_ok c' \<Longrightarrow> ekey c' = k \<Longrightarrow> ent_ok (ent_map (ent_upd m k (\<lambda>_. c'), q) e')"
      by (rule item_entry [OF ok a]) blast
    have l1: "length (jtx j1) \<le> length (jtx j')" "jdep j1 = jdep j'"
      using j_key_len [OF k] j_ws_len(1) [of j'] by (auto simp del: j_ws_len(1))
    have "jret j1 c (j_val f j1 c)"
      using c(2) le l1 by (intro Suc.IH [THEN conjunct1, rule_format]) simp_all
    then obtain j2 c' where v: "j_val f j1 c = Some (j2, c')" "length (jtx j2) \<le> length (jtx j1)" "jdep j2 = jdep j1"
      "ent_ok c'" "ekey c' = k" by (auto simp: jret_def c(3))
    define e2 where "e2 = ent_map (ent_upd m k (\<lambda>_. c'), q) e'"
    have e2: "ent_ok e2" "ekey e2 = ekey e'" using c(4) [OF v(4,5)] by (simp_all add: e2_def)
    have l3: "length (jtx (j_ws j2)) \<le> length (jtx j')" using j_ws_len(1) [of j2] v(2) l1(1) by linarith
    have "j_items (Suc f) arr n j' e' =
        (if at (jtx (j_ws j2)) 0 = CHR '','' then j_items f arr (n + 1) (j_skip (j_ws j2)) e2
         else if at (jtx (j_ws j2)) 0 = jclose arr then Some (j_skip (j_ws j2), e2)
         else Some (j_ws j2\<lparr>jbad := True\<rparr>, e2))"
      using k a c(1) v(1) by (simp add: j_items.simps Let_def e2_def)
    moreover have "jret j' e' (j_items f arr (n + 1) (j_skip (j_ws j2)) e2)" if "at (jtx (j_ws j2)) 0 = CHR '',''"
    proof -
      from j_skip_len [OF that] have s: "Suc (length (jtx (j_skip (j_ws j2)))) \<le> length (jtx j')" using l3 by simp
      have "jret (j_skip (j_ws j2)) e2 (j_items f arr (n + 1) (j_skip (j_ws j2)) e2)"
        using e2(1) s le by (intro Suc.IH [THEN conjunct2, rule_format]) simp_all
      then show ?thesis using s v(3) l1(2) e2(2) by (elim jret_le) simp_all
    qed
    ultimately show ?thesis using l3 e2 v(3) l1(2) by (auto intro!: jretI)
  qed
  ultimately show ?case by simp
qed simp

subsection \<open>Typed values\<close>

text \<open>A value the parser can have made: the type of each scalar fits its text, the keys of an array
  are its indices, and nothing is nested more than \<open>d\<close> deep.\<close>

definition scalar_typed :: "nat \<Rightarrow> string option \<Rightarrow> nat \<Rightarrow> bool" where
  "scalar_typed d v ty \<longleftrightarrow>
    (if ty = J_STR then (case v of Some s \<Rightarrow> cstr s | None \<Rightarrow> False)
     else if ty = J_ARR \<or> ty = J_OBJ then v = None \<and> d \<noteq> 0
     else (case v of Some s \<Rightarrow> lit_ty s = Some ty \<and> list_all j_lit s | None \<Rightarrow> False))"

fun j_typed :: "nat \<Rightarrow> chain \<Rightarrow> string option \<Rightarrow> nat \<Rightarrow> bool" and j_typed_ent :: "nat \<Rightarrow> ent \<Rightarrow> bool" where
  "j_typed d (Chain es t x) v ty \<longleftrightarrow>
    (if es = [] then scalar_typed d v ty
     else v = None \<and> d \<noteq> 0 \<and> (ty = J_OBJ \<or> ty = J_ARR \<and> map ekey es = map (\<lambda>i. s_num (int i)) [0..<length es]) \<and>
       (\<forall>e \<in> set es. j_typed_ent (d - 1) e))"
| "j_typed_ent d (Ent k v m n ty) \<longleftrightarrow> cstr k \<and> j_typed d m v ty"

lemma j_typed_ent_iff: "j_typed_ent d e \<longleftrightarrow> cstr (ekey e) \<and> j_typed d (emap e) (estr e) (ety e)"
  by (cases e) simp

lemma j_ent_eq: "j_ent arr e p d =
    (if arr then [] else j_quote (ekey e) @ '':'' @ (if p then '' '' else [])) @ j_out (emap e) (en e) (estr e) (ety e) p (d + 1)"
  by (cases e) simp

lemma lit_start:
  assumes "lit_ty s = Some ty"
  obtains c r where "s = c # r" "\<not> j_space c" "c \<notin> {CHR ''{'', CHR ''['', DQ, CHR ''}'', CHR '']''}" "ty \<in> {1, 2, 3}"
proof -
  have d: "isdigit c \<Longrightarrow> \<not> j_space c \<and> c \<notin> {CHR ''{'', CHR ''['', DQ, CHR ''}'', CHR '']''}" for c
    by (auto simp: isdigit_def j_space_def)
  consider "s = ''true''" | "s = ''false''" | "s = ''null''" | r where "s = CHR ''-'' # r" | c r where "s = c # r" "isdigit c"
    using assms by (cases s) (auto simp: lit_ty_def split: if_splits)
  then have "\<exists>c r. s = c # r \<and> \<not> j_space c \<and> c \<notin> {CHR ''{'', CHR ''['', DQ, CHR ''}'', CHR '']''}"
    by cases (use d in \<open>auto simp: j_space_def\<close>)
  moreover have "ty \<in> {1, 2, 3}" using assms by (auto simp: lit_ty_def split: if_splits)
  ultimately show ?thesis using that by blast
qed

text \<open>What is written starts with no space and no closing bracket.\<close>

lemma j_out_start:
  assumes "j_typed d m v ty"
  obtains c r where "j_out m n v ty p dep = c # r" "\<not> j_space c" "c \<notin> {CHR ''}'', CHR '']''}"
proof (cases m)
  case (Chain es t x)
  show ?thesis
  proof (cases "es = []")
    case True
    then have s: "scalar_typed d v ty" using assms Chain by simp
    show ?thesis
    proof (cases "ty = J_STR \<or> ty = J_ARR \<or> ty = J_OBJ")
      case True
      with s \<open>es = []\<close> Chain that show ?thesis
        by (auto simp: scalar_typed_def scalar_out_def j_quote_def j_space_def)
    next
      case False
      with s obtain w where w: "v = Some w" "lit_ty w = Some ty" by (auto simp: scalar_typed_def split: option.splits)
      from w(2) show ?thesis
      proof (rule lit_start)
        fix c r
        assume "w = c # r" "\<not> j_space c" "c \<notin> {CHR ''{'', CHR ''['', DQ, CHR ''}'', CHR '']''}" "ty \<in> {1, 2, 3}"
        with w \<open>es = []\<close> Chain that show ?thesis by (auto simp: scalar_out_def)
      qed
    qed
  next
    case False
    then show ?thesis using that Chain by (cases "j_isarr m n ty") (auto simp: j_space_def Let_def)
  qed
qed

lemma j_ent_start:
  assumes "j_typed_ent d e"
  obtains c r where "j_ent arr e p dep = c # r" "\<not> j_space c" "c \<notin> {CHR ''}'', CHR '']''}"
proof (cases arr)
  case True
  from assms have "j_typed d (emap e) (estr e) (ety e)" by (simp add: j_typed_ent_iff)
  then show ?thesis by (rule j_out_start) (use True that in \<open>simp add: j_ent_eq\<close>)
next
  case False
  then show ?thesis using that by (simp add: j_ent_eq j_quote_def j_space_def)
qed

subsection \<open>Reading what was written\<close>

text \<open>Whatever text ends a literal.\<close>

definition ends_lit :: "string \<Rightarrow> bool" where
  "ends_lit r \<longleftrightarrow> r = [] \<or> \<not> j_lit (hd r)"

definition fresh_ent :: "ent \<Rightarrow> bool" where
  "fresh_ent e \<longleftrightarrow> emap e = nullmap \<and> en e = 0 \<and> estr e = None"

text \<open>The parser reads every writing of this value, from a fresh entry.\<close>

definition j_reads :: "chain \<Rightarrow> bool" where
  "j_reads m \<longleftrightarrow> (\<forall>d v ty n p dep f j rest e.
     j_typed d m v ty \<longrightarrow> fresh_ent e \<longrightarrow> ends_lit rest \<longrightarrow> jdep j + d \<le> HIBR_DEPTH \<longrightarrow>
     jtx (j_ws j) = j_out m n v ty p dep @ rest \<longrightarrow> 2 * length (jtx (j_ws j)) + 1 \<le> f \<longrightarrow>
     (\<exists>e'. j_val f j e = Some (j\<lparr>jtx := rest\<rparr>, e') \<and> tree_ent e' = (ekey e, VT v ty (tree_of m))))"

lemma j_ws_upd [simp]: "j_ws j\<lparr>jtx := x\<rparr> = j\<lparr>jtx := x\<rparr>"
  by (simp add: j_ws_def)

lemma tree_ent_fields: "tree_ent e = (ekey e, VT (estr e) (ety e) (tree_of (emap e)))"
  by (cases e) simp

lemma tree_of_ents: "tree_of m = map tree_ent (ents m)"
  by (cases m) simp

lemma takeWhile_stop: "list_all P s \<Longrightarrow> rest = [] \<or> \<not> P (hd rest) \<Longrightarrow> takeWhile P (s @ rest) = s \<and> dropWhile P (s @ rest) = rest"
  by (cases rest) (auto simp: list_all_iff takeWhile_append2 dropWhile_append2)

lemma j_reads_scalar:
  assumes ty: "scalar_typed d v ty" and fr: "fresh_ent e" and rest: "ends_lit rest"
    and dep: "jdep j + d \<le> HIBR_DEPTH" and tx: "jtx (j_ws j) = scalar_out v ty @ rest"
    and f: "1 \<le> f"
  shows "\<exists>e'. j_val f j e = Some (j\<lparr>jtx := rest\<rparr>, e') \<and> tree_ent e' = (ekey e, VT v ty [])"
proof -
  obtain g where g: "f = Suc g" using f by (cases f) auto
  show ?thesis
  proof (cases "ty = J_ARR \<or> ty = J_OBJ")
    case True
    with ty have "v = None" "d \<noteq> 0" by (auto simp: scalar_typed_def)
    with True tx dep fr show ?thesis
      by (auto simp: g j_val.simps Let_def scalar_out_def j_ws_def j_skip_def jclose_def j_space_def
          tree_ent_fields fresh_ent_def)
  next
    case False
    show ?thesis
    proof (cases "ty = J_STR")
      case True
      with ty obtain s where s: "v = Some s" "cstr s" by (auto simp: scalar_typed_def split: option.splits)
      with tx True have q: "jtx (j_ws j) = j_quote s @ rest" by (simp add: scalar_out_def)
      then have "at (jtx (j_ws j)) 0 = DQ" by (simp add: j_quote_def)
      with j_str_quote [OF s(2) q] True s fr show ?thesis
        by (simp add: g j_val.simps Let_def j_scalar_def tree_ent_fields fresh_ent_def)
    next
      case no: False
      with ty False obtain s where s: "v = Some s" "lit_ty s = Some ty" "list_all j_lit s"
        by (auto simp: scalar_typed_def split: option.splits)
      from s(2) obtain c r where c: "s = c # r" "c \<notin> {CHR ''{'', CHR ''['', DQ, CHR ''}'', CHR '']''}" "ty \<in> {1, 2, 3}"
        by (rule lit_start) blast
      have q: "jtx (j_ws j) = s @ rest" using tx s c by (auto simp: scalar_out_def)
      then have "at (jtx (j_ws j)) 0 = c" using c by simp
      with q takeWhile_stop [of j_lit s rest] s(3) rest c(2) s fr show ?thesis
        by (simp add: g j_val.simps Let_def j_scalar_def tree_ent_fields fresh_ent_def ends_lit_def)
    qed
  qed
qed
lemma add_fresh:
  assumes "ent_ok e" and "k \<notin> set (keys (emap e))"
  obtains m q where "mp_add (emap e, en e) k = (m, q)" "ents m = ents (emap e) @ [ent0 k]" "mp_find m k = Some (ent0 k)"
    "\<And>c'. ekey c' = k \<Longrightarrow> tree_of (ent_upd m k (\<lambda>_. c')) = tree_of (emap e) @ [tree_ent c']"
    "\<And>c'. ekey c' = k \<Longrightarrow> keys (ent_upd m k (\<lambda>_. c')) = keys (emap e) @ [k]"
proof -
  have cn: "cn_ok (emap e, en e)" using assms(1) by (simp add: ent_ok_cn)
  then have c: "chain_ok (emap e)" "en e = length (ents (emap e))" by (simp_all add: cn_ok_def)
  obtain x where x: "mp_add (emap e, en e) k = (Chain (ents (emap e) @ [ent0 k]) (Some k) x, en e + 1)"
    by (rule mp_add_new [OF c(1) assms(2) c(2)])
  have nk: "y \<in> set (ents (emap e)) \<Longrightarrow> ekey y \<noteq> k" for y using assms(2) by (auto simp: keys_def)
  have up: "ents (ent_upd (Chain (ents (emap e) @ [ent0 k]) (Some k) x) k (\<lambda>_. c')) = ents (emap e) @ [c']" for c'
    using nk by (auto simp: ent_upd_def intro: map_idI)
  show ?thesis
    using that [of "Chain (ents (emap e) @ [ent0 k]) (Some k) x" "en e + 1"] x mp_add_find [OF cn, of k k]
      cn_add_spec(2) [OF cn, of k k] mp_find_ok [of "emap e" k] deref_dom [of "emap e" k] assms(2) cn up
    by (simp add: tree_of_ents keys_def cn_ok_def)
qed

lemma fresh_ent0 [simp]: "fresh_ent (ent0 k)"
  by (simp add: fresh_ent_def)

lemma ent_map_fields [simp]: "estr (ent_map cn e) = estr e" "ety (ent_map cn e) = ety e"
  by (cases e, simp add: ent_map_def)+

text \<open>One entry of a container, and where the loop goes on.\<close>

lemma j_reads_item:
  assumes rd: "j_reads (emap c)" and ty: "j_typed_ent d c" and ok: "ent_ok e" and nk: "ekey c \<notin> set (keys (emap e))"
    and ix: "arr \<Longrightarrow> ekey c = s_num i" and dep: "jdep j + d \<le> HIBR_DEPTH"
    and tx: "jtx (j_ws j) = j_ent arr c p pd @ r" and el: "ends_lit r" and f: "2 * length (jtx (j_ws j)) + 1 \<le> f"
  shows "\<exists>e'. j_items (Suc f) arr i j e =
      (let j3 = j_ws (j\<lparr>jtx := r\<rparr>)
       in if at (jtx j3) 0 = CHR '','' then j_items f arr (i + 1) (j_skip j3) e'
          else if at (jtx j3) 0 = jclose arr then Some (j_skip j3, e') else Some (j3\<lparr>jbad := True\<rparr>, e')) \<and>
    ent_ok e' \<and> ekey e' = ekey e \<and> estr e' = estr e \<and> ety e' = ety e \<and>
    tree_of (emap e') = tree_of (emap e) @ [tree_ent c] \<and> keys (emap e') = keys (emap e) @ [ekey c]"
proof -
  let ?k = "ekey c" and ?o = "j_out (emap c) (en c) (estr c) (ety c) p (pd + 1)"
  have tc: "j_typed d (emap c) (estr c) (ety c)" "cstr ?k" using ty by (simp_all add: j_typed_ent_iff)
  obtain c0 r0 where st: "?o = c0 # r0" "\<not> j_space c0" using j_out_start [OF tc(1)] by blast
  have "\<exists>j1. j_key arr i (j_ws j) = (?k, j1) \<and> jtx (j_ws j1) = ?o @ r \<and> j1\<lparr>jtx := r\<rparr> = j\<lparr>jtx := r\<rparr> \<and>
      jdep j1 = jdep j \<and> length (jtx j1) \<le> length (jtx (j_ws j))"
  proof (cases arr)
    case True
    with tx ix st show ?thesis by (simp add: j_key_def j_ent_eq) (simp add: j_ws_def)
  next
    case False
    let ?t = "(if p then '' '' else []) @ ?o @ r"
    have q: "jtx (j_ws j) = j_quote ?k @ CHR '':'' # ?t" using tx False by (simp add: j_ent_eq)
    have "j_key arr i (j_ws j) = (?k, j\<lparr>jtx := ?t\<rparr>)"
      using False j_str_quote [OF tc(2) q] by (simp add: j_key_def Let_def) (simp add: j_ws_def j_space_def)
    moreover have "jtx (j_ws (j\<lparr>jtx := ?t\<rparr>)) = ?o @ r" using st by (simp add: j_ws_def j_space_def)
    ultimately show ?thesis using q by (simp add: j_quote_def)
  qed
  then obtain j1 where j1: "j_key arr i (j_ws j) = (?k, j1)" "jtx (j_ws j1) = ?o @ r" "j1\<lparr>jtx := r\<rparr> = j\<lparr>jtx := r\<rparr>"
    "jdep j1 = jdep j" "length (jtx j1) \<le> length (jtx (j_ws j))" by blast
  obtain m q where a: "mp_add (emap e, en e) ?k = (m, q)" "mp_find m ?k = Some (ent0 ?k)"
    "\<And>c'. ekey c' = ?k \<Longrightarrow> tree_of (ent_upd m ?k (\<lambda>_. c')) = tree_of (emap e) @ [tree_ent c']"
    "\<And>c'. ekey c' = ?k \<Longrightarrow> keys (ent_upd m ?k (\<lambda>_. c')) = keys (emap e) @ [?k]"
    by (rule add_fresh [OF ok nk]) blast
  have "2 * length (jtx (j_ws j1)) + 1 \<le> f" using f j1(5) j_ws_len(1) [of j1] by linarith
  with rd [unfolded j_reads_def, rule_format, of d "estr c" "ety c" "ent0 ?k" r j1 "en c" p "pd + 1" f] tc(1) el dep j1
  obtain c' where c': "j_val f j1 (ent0 ?k) = Some (j\<lparr>jtx := r\<rparr>, c')" "tree_ent c' = tree_ent c"
    by (auto simp: tree_ent_fields [of c])
  have kc: "ekey c' = ?k" using c'(2) by (simp add: tree_ent_fields)
  have "2 * length (jtx j1) + 1 \<le> f" using f j1(5) by linarith
  then have "jret j1 (ent0 ?k) (j_val f j1 (ent0 ?k))" by (intro j_total [THEN conjunct1, rule_format]) simp_all
  then have okc: "ent_ok c'" by (simp add: jret_def c'(1))
  have ok': "ent_ok (ent_map (ent_upd m ?k (\<lambda>_. c'), q) e)" by (rule item_entry [OF ok a(1)]) (use okc kc in blast)
  show ?thesis
    by (rule exI [of _ "ent_map (ent_upd m ?k (\<lambda>_. c'), q) e"])
      (use j1(1) a kc c' ok' in \<open>simp add: j_items.simps Let_def\<close>)
qed

text \<open>The entries of a container, from the text of the first.\<close>

lemma j_reads_items:
  assumes "\<forall>e \<in> set (c # es). j_reads (emap e) \<and> j_typed_ent d e"
    and "ent_ok e" "distinct (map ekey (c # es))" "set (map ekey (c # es)) \<inter> set (keys (emap e)) = {}"
    and "arr \<Longrightarrow> map ekey (c # es) = map (\<lambda>i. s_num (int i)) [i..<i + Suc (length es)]"
    and "jdep j + d \<le> HIBR_DEPTH" "list_all j_space w"
    and "jtx (j_ws j) = j_ent arr c p dep @ (if es \<noteq> [] then '','' else []) @ j_ents arr es p dep @ w @ jclose arr # rest"
    and "2 * length (jtx (j_ws j)) + 2 \<le> f"
  shows "\<exists>e'. j_items f arr (int i) j e = Some (j\<lparr>jtx := rest\<rparr>, e') \<and> ekey e' = ekey e \<and> estr e' = estr e \<and>
    ety e' = ety e \<and> tree_of (emap e') = tree_of (emap e) @ map tree_ent (c # es)"
  using assms
proof (induction es arbitrary: c e i j f)
  case Nil
  let ?r = "w @ jclose arr # rest"
  obtain g where g: "f = Suc g" using Nil.prems(9) by (cases f) auto
  have el: "ends_lit ?r"
    using Nil.prems(7) by (cases w) (auto simp: ends_lit_def j_lit_def jclose_def)
  have js: "\<not> j_space (jclose arr)" by (simp add: jclose_def j_space_def)
  have "jtx (j_ws (j\<lparr>jtx := ?r\<rparr>)) = jclose arr # rest"
    using takeWhile_stop [OF Nil.prems(7), of "jclose arr # rest"] js by (simp add: j_ws_def)
  moreover have "j_ws (j\<lparr>jtx := ?r\<rparr>) = j\<lparr>jtx := jtx (j_ws (j\<lparr>jtx := ?r\<rparr>))\<rparr>" by (simp add: j_ws_def)
  ultimately have w: "j_ws (j\<lparr>jtx := ?r\<rparr>) = j\<lparr>jtx := jclose arr # rest\<rparr>" by simp
  show ?case
    using j_reads_item [of c d e arr "int i" j p dep ?r g] Nil.prems el
    by (auto simp: g w j_skip_def)
next
  case (Cons c2 es)
  define tl where "tl = j_ents arr (c2 # es) p dep @ w @ jclose arr # rest"
  let ?r = "CHR '','' # tl"
  obtain g where g: "f = Suc g" using Cons.prems(9) by (cases f) auto
  have el: "ends_lit ?r" by (simp add: ends_lit_def j_lit_def)
  have "jtx (j_ws (j\<lparr>jtx := ?r\<rparr>)) = ?r" by (simp add: j_ws_def j_space_def)
  moreover have "j_ws (j\<lparr>jtx := ?r\<rparr>) = j\<lparr>jtx := jtx (j_ws (j\<lparr>jtx := ?r\<rparr>))\<rparr>" by (simp add: j_ws_def)
  ultimately have w: "j_ws (j\<lparr>jtx := ?r\<rparr>) = j\<lparr>jtx := ?r\<rparr>" by simp
  obtain e' where e': "j_items f arr (int i) j e = j_items g arr (int i + 1) (j_skip (j\<lparr>jtx := ?r\<rparr>)) e'"
    "ent_ok e'" "ekey e' = ekey e" "estr e' = estr e" "ety e' = ety e"
    "tree_of (emap e') = tree_of (emap e) @ [tree_ent c]" "keys (emap e') = keys (emap e) @ [ekey c]"
  proof -
    have "j_reads (emap c)" "j_typed_ent d c" "ekey c \<notin> set (keys (emap e))" using Cons.prems(1,4) by auto
    moreover have "ekey c = s_num (int i)" if arr using Cons.prems(5) [OF that] by (simp add: upt_conv_Cons del: upt_Suc)
    moreover have "jtx (j_ws j) = j_ent arr c p dep @ ?r" using Cons.prems(8) by (simp add: tl_def)
    moreover have "2 * length (jtx (j_ws j)) + 1 \<le> g" using Cons.prems(9) g by simp
    ultimately show ?thesis
      using j_reads_item [of c d e arr "int i" j p dep ?r g] Cons.prems(2,6) el that by (auto simp: g w)
  qed
  let ?j = "j_skip (j\<lparr>jtx := ?r\<rparr>)"
  obtain c0 r0 where st: "j_ent arr c2 p dep = c0 # r0" "\<not> j_space c0"
    using j_ent_start [of d c2] Cons.prems(1) by (metis list.set_intros(1,2))
  have tx: "jtx (j_ws ?j) = j_ent arr c2 p dep @ (if es \<noteq> [] then '','' else []) @ j_ents arr es p dep @ w @ jclose arr # rest"
    using st by (auto simp: j_ws_def j_pad_def j_space_def dropWhile_append3 j_skip_def tl_def)
  have "\<exists>e2. j_items g arr (int (Suc i)) ?j e' = Some (?j\<lparr>jtx := rest\<rparr>, e2) \<and> ekey e2 = ekey e' \<and> estr e2 = estr e' \<and>
    ety e2 = ety e' \<and> tree_of (emap e2) = tree_of (emap e') @ map tree_ent (c2 # es)"
  proof (rule Cons.IH)
    show "2 * length (jtx (j_ws ?j)) + 2 \<le> g"
      using Cons.prems(8,9) g j_ws_len(1) [of ?j] by (simp add: tl_def del: j_ws_len)
    show "arr \<Longrightarrow> map ekey (c2 # es) = map (\<lambda>i. s_num (int i)) [Suc i..<Suc i + Suc (length es)]"
      using Cons.prems(5) by (simp add: upt_conv_Cons del: upt_Suc)
  qed (use Cons.prems e' tx in \<open>auto simp: j_skip_def\<close>)
  then show ?case using e' by (simp add: j_skip_def algebra_simps)
qed


lemma j_pad_space: "list_all j_space (j_pad d)"
  by (auto simp: j_pad_def list_all_iff j_space_def)

lemma j_reads_container:
  assumes ok: "chain_ok (Chain es t x)" and rd: "\<forall>e \<in> set es. j_reads (emap e)" and ne: "es \<noteq> []"
  shows "j_reads (Chain es t x)"
  unfolding j_reads_def
proof (intro allI impI)
  fix d v ty n p dep f and j :: jp and rest :: string and e :: ent
  assume ty: "j_typed d (Chain es t x) v ty" and fr: "fresh_ent e" and "ends_lit rest"
    and jd: "jdep j + d \<le> HIBR_DEPTH" and tx: "jtx (j_ws j) = j_out (Chain es t x) n v ty p dep @ rest"
    and f: "2 * length (jtx (j_ws j)) + 1 \<le> f"
  obtain c es' where es: "es = c # es'" using ne by (cases es) auto
  define arr where "arr \<longleftrightarrow> ty = J_ARR"
  have arr: "j_isarr (Chain es t x) n ty = arr" and tyarr: "ty = (if arr then J_ARR else J_OBJ)"
    using ty ne by (auto simp: arr_def j_isarr_def)
  define w where "w = (if p then j_pad dep else [])"
  define tl where "tl = j_ents arr es p dep @ w @ jclose arr # rest"
  have tx': "jtx (j_ws j) = (if arr then CHR ''['' else CHR ''{'') # tl"
    using tx ne arr by (simp add: tl_def w_def Let_def)
  have dt: "v = None" "d \<noteq> 0" "\<forall>e \<in> set es. j_typed_ent (d - 1) e" using ty ne by auto
  let ?j1 = "j_ws (j_skip (j_ws j))"
  have "j_typed_ent (d - 1) c" using dt(3) es by simp
  then obtain c0 r0 where st: "j_ent arr c p dep = c0 # r0" "\<not> j_space c0" "c0 \<notin> {CHR ''}'', CHR '']''}"
    using j_ent_start [of "d - 1" c arr p dep] by blast
  have j1: "jtx ?j1 = j_ent arr c p dep @ (if es' \<noteq> [] then '','' else []) @ j_ents arr es' p dep @ w @ jclose arr # rest"
    using st j_pad_space [of "dep + 1"] tx'
    by (auto simp: j_ws_def tl_def es dropWhile_append3 list_all_iff)
  obtain g where g: "f = Suc g" using f by (cases f) auto
  let ?e1 = "ent_ty ty e" and ?j2 = "?j1\<lparr>jdep := jdep j + 1\<rparr>"
  have ws2: "jtx (j_ws ?j2) = jtx ?j1" using st j1 by (simp add: j_ws_def)
  have len: "2 * length (jtx ?j1) + 2 \<le> g"
    using f g tx' j_ws_len(1) [of "j_skip (j_ws j)"] by (simp del: j_ws_len)
  have "\<exists>e'. j_items g arr (int 0) ?j2 ?e1 = Some (?j2\<lparr>jtx := rest\<rparr>, e') \<and> ekey e' = ekey ?e1 \<and> estr e' = estr ?e1 \<and>
    ety e' = ety ?e1 \<and> tree_of (emap e') = tree_of (emap ?e1) @ map tree_ent (c # es')"
  proof (rule j_reads_items [where d = "d - 1" and w = w and p = p and dep = dep and arr = arr])
    show "\<forall>e \<in> set (c # es'). j_reads (emap e) \<and> j_typed_ent (d - 1) e" using rd dt(3) es by simp
    show "ent_ok ?e1" using fr by (cases e) (simp add: fresh_ent_def)
    show "distinct (map ekey (c # es'))" using ok es by simp
    show "set (map ekey (c # es')) \<inter> set (keys (emap ?e1)) = {}" using fr by (simp add: fresh_ent_def keys_def)
    show "arr \<Longrightarrow> map ekey (c # es') = map (\<lambda>i. s_num (int i)) [0..<0 + Suc (length es')]"
      using ty ne es by (simp add: arr_def del: upt_Suc)
    show "jdep ?j2 + (d - 1) \<le> HIBR_DEPTH" using jd dt(2) by simp
    show "list_all j_space w" using j_pad_space [of dep] by (simp add: w_def)
    show "jtx (j_ws ?j2) = j_ent arr c p dep @ (if es' \<noteq> [] then '','' else []) @ j_ents arr es' p dep @ w @ jclose arr # rest"
      using j1 ws2 by simp
    show "2 * length (jtx (j_ws ?j2)) + 2 \<le> g" using len ws2 by simp
  qed
  then obtain e' where e': "j_items g arr 0 ?j2 ?e1 = Some (?j2\<lparr>jtx := rest\<rparr>, e')" "ekey e' = ekey e" "estr e' = None"
    "ety e' = ty" "tree_of (emap e') = map tree_ent es"
    using fr es by (auto simp: fresh_ent_def)
  have nc: "at (jtx ?j1) 0 \<noteq> jclose arr" using j1 st by (simp add: jclose_def)
  have "j_val f j e = Some (j\<lparr>jtx := rest\<rparr>, e')"
    using e'(1) nc tx' jd dt(2) tyarr by (auto simp: g j_val.simps Let_def) (auto simp: j_ws_def j_skip_def)
  then show "\<exists>e'. j_val f j e = Some (j\<lparr>jtx := rest\<rparr>, e') \<and> tree_ent e' = (ekey e, VT v ty (tree_of (Chain es t x)))"
    using e' dt(1) by (simp add: tree_ent_fields)
qed

lemma j_reads_ok: "chain_ok m \<longrightarrow> j_reads m" and "ent_ok e \<longrightarrow> j_reads (emap e)"
proof (induction m and e rule: tree_of_tree_ent.induct)
  case (1 es t x)
  show ?case
  proof (cases "es = []")
    case True
    then show ?thesis using j_reads_scalar by (auto simp: j_reads_def)
  next
    case False
    with 1 show ?thesis by (auto intro!: j_reads_container)
  qed
qed simp

text \<open>Two values with the same tree are written alike.\<close>

lemma j_out_tree:
  "j_typed d m v ty \<longrightarrow> (\<forall>m' n n' pretty dep. tree_of m' = tree_of m \<longrightarrow> j_out m' n' v ty pretty dep = j_out m n v ty pretty dep)"
  "j_typed_ent d e \<longrightarrow> (\<forall>e' arr pretty dep. tree_ent e' = tree_ent e \<longrightarrow> j_ent arr e' pretty dep = j_ent arr e pretty dep)"
proof (induction d m v ty and d e rule: j_typed_j_typed_ent.induct)
  case (1 d es t x v ty)
  have ents: "j_ents arr es' pretty dep = j_ents arr fs pretty dep"
    if "set fs \<subseteq> set es" "es \<noteq> []" "\<forall>e \<in> set es. j_typed_ent (d - 1) e" "map tree_ent es' = map tree_ent fs"
    for arr es' fs pretty dep
    using that
  proof (induction fs arbitrary: es')
    case (Cons f fs)
    then obtain e' es2 where e: "es' = e' # es2" "tree_ent e' = tree_ent f" "map tree_ent es2 = map tree_ent fs" by auto
    from 1 Cons.prems e have "j_ent arr e' pretty dep = j_ent arr f pretty dep" by auto
    moreover have "es2 = [] \<longleftrightarrow> fs = []" using e(3) by (metis map_is_Nil_conv)
    ultimately show ?case using Cons.IH [of es2] Cons.prems e by simp
  qed simp
  show ?case
  proof (intro impI allI)
    fix m' n n' pretty dep
    assume ty: "j_typed d (Chain es t x) v ty" and tr: "tree_of m' = tree_of (Chain es t x)"
    obtain es' t' x' where m': "m' = Chain es' t' x'" by (cases m')
    have ne: "es' = [] \<longleftrightarrow> es = []" using tr m' by (metis tree_of.simps map_is_Nil_conv)
    show "j_out m' n' v ty pretty dep = j_out (Chain es t x) n v ty pretty dep"
    proof (cases "es = []")
      case False
      with ty ents [of es es'] tr m' show ?thesis by (auto simp: ne j_isarr_def Let_def)
    qed (simp add: m' ne)
  qed
next
  case (2 d k v m n ty)
  show ?case
  proof (intro impI allI)
    fix e' arr pretty dep
    assume "j_typed_ent d (Ent k v m n ty)" "tree_ent e' = tree_ent (Ent k v m n ty)"
    with 2 show "j_ent arr e' pretty dep = j_ent arr (Ent k v m n ty) pretty dep"
      by (cases e') (simp add: j_ent_eq)
  qed
qed

lemma j_emit_parse:
  assumes ok: "chain_ok m" and ty: "j_typed HIBR_DEPTH m v ty"
  shows "\<exists>root. j_parse (j_out m n v ty pretty 0) = Some root \<and> tree_ent root = ([], VT v ty (tree_of m)) \<and>
    (\<forall>pretty' d. j_out (emap root) (en root) (estr root) (ety root) pretty' d = j_out m n v ty pretty' d)"
proof -
  let ?t = "j_out m n v ty pretty 0" and ?j = "\<lparr>jtx = j_out m n v ty pretty 0, jbad = False, jdep = 0\<rparr>"
  obtain c r where "?t = c # r" "\<not> j_space c" using j_out_start [OF ty] by blast
  then have ws: "jtx (j_ws ?j) = ?t @ []" by (simp add: j_ws_def)
  from j_reads_ok(1) [of m] ok have "j_reads m" by simp
  from this [unfolded j_reads_def, rule_format, OF ty, of "ent0 []" "[]" ?j n pretty 0 "2 * length ?t + 1"] ws
  obtain e' where e': "j_val (2 * length ?t + 1) ?j (ent0 []) = Some (?j\<lparr>jtx := []\<rparr>, e')"
    "tree_ent e' = ([], VT v ty (tree_of m))"
    by (auto simp: ends_lit_def)
  then have "tree_of (emap e') = tree_of m" "estr e' = v" "ety e' = ty" by (simp_all add: tree_ent_fields)
  with j_out_tree(1) [rule_format, OF ty] e' show ?thesis by (simp add: j_parse_def j_ws_def)
qed

text \<open>A key that comes twice keeps the map of its first value.\<close>

lemma json_duplicate_key:
  "map_option (\<lambda>r. j_out (emap r) (en r) (estr r) (ety r) False 0)
     (j_parse (''{'' @ [DQ] @ ''a'' @ [DQ] @ '':[1],'' @ [DQ] @ ''a'' @ [DQ] @ '':2}'')) =
   Some (''{'' @ [DQ] @ ''a'' @ [DQ] @ '':[1]}'')"
  by code_simp

subsection \<open>Properties\<close>

text \<open>A string quoted for JSON is read back as itself by both readers, whatever bytes it holds, and
  the reading stops just past the closing quote.\<close>

theorem json_strings:
  assumes "cstr s"
  shows "j_str \<lparr>jtx = j_quote s @ rest, jbad = b, jdep = d\<rparr> = (s, \<lparr>jtx = rest, jbad = b, jdep = d\<rparr>) \<and>
    hibr_jstr (j_quote s @ rest) = Some (s, rest)"
  using j_str_quote [OF assms, of "\<lparr>jtx = j_quote s @ rest, jbad = b, jdep = d\<rparr>" rest] lg_jstr_jstr [OF assms, of rest]
  by (simp add: hibr_jstr_def) (simp add: j_quote_def)

theorem json_strings_witness:
  "hibr_jstr (j_quote [DQ, BS, CHR 0x01, CHR 0x0A, CHR 0xE9] @ ''x'') = Some ([DQ, BS, CHR 0x01, CHR 0x0A, CHR 0xE9], ''x'')"
  using json_strings [of "[DQ, BS, CHR 0x01, CHR 0x0A, CHR 0xE9]"] by simp

text \<open>C38: parsing any text, malformed ones included, returns: twice the text's length and one is fuel
  enough. It never reads backwards, leaves the depth as it found it and keeps the entry well
  formed under its own key.\<close>

theorem json_total:
  assumes "ent_ok e" and "2 * length (jtx j) + 1 \<le> f"
  shows "\<exists>j' e'. j_val f j e = Some (j', e') \<and> length (jtx j') \<le> length (jtx j) \<and> jdep j' = jdep j \<and>
    ent_ok e' \<and> ekey e' = ekey e"
  using j_total [of e j f] assms by (simp add: jret_def)

theorem json_total_witness:
  "\<exists>j' e'. j_val 20 \<lparr>jtx = ''[1,{'', jbad = False, jdep = 0\<rparr> (ent0 ''k'') = Some (j', e') \<and> ekey e' = ''k''"
  using json_total [of "ent0 ''k''" "\<lparr>jtx = ''[1,{'', jbad = False, jdep = 0\<rparr>" 20] by auto

text \<open>C39: what is written for a value of any depth the parser admits, on one line or indented, parses
  back to a root with the same tree of keys, scalars and types, which is written alike again.\<close>

theorem json_emit_parse:
  assumes "chain_ok m" and "j_typed HIBR_DEPTH m v ty"
  shows "\<exists>root. j_parse (j_out m n v ty pretty 0) = Some root \<and> tree_ent root = ([], VT v ty (tree_of m)) \<and>
    (\<forall>pretty' d. j_out (emap root) (en root) (estr root) (ety root) pretty' d = j_out m n v ty pretty' d)"
  using j_emit_parse [OF assms] .

theorem json_emit_parse_witness:
  "\<exists>root. j_parse (j_out nullmap 0 (Some ''a b'') J_STR True 0) = Some root \<and> tree_ent root = ([], VT (Some ''a b'') J_STR [])"
  using json_emit_parse [of nullmap "Some ''a b''" J_STR 0 True] by (auto simp: scalar_typed_def)

end
