(* ===== verification/JsonCmd.thy ===== *)
theory JsonCmd
  imports Json
begin

text \<open>
  The \<open>json\<close> builtin of src/json.c: parse, emit, set, get, keys, len and type over the variable
  table. A call returns the state, what it prints and its status; it prints nothing when the
  command that runs it binds its result (\<open>bnd\<close>). The text read from standard input is
  \<open>inp\<close>. The subscripts of a target \<open>name[key]\<close> are read by \<open>bi_keys\<close> of src/bi.c, which expands
  the keys: it is the argument \<open>keysof\<close>.
\<close>

type_synonym keyr = "sh \<Rightarrow> string \<Rightarrow> sh \<times> (string \<times> string list) option"

abbreviation (input) A_ASSOC :: "32 word" where "A_ASSOC \<equiv> 16"

subsection \<open>The commands\<close>

definition or_empty :: "string option \<Rightarrow> string" where
  "or_empty v = (case v of Some s \<Rightarrow> s | None \<Rightarrow> [])"

definition say :: "bool \<Rightarrow> string \<Rightarrow> string" where
  "say bnd t = (if bnd then [] else t @ [CHR 0x0A])"

text \<open>A parsed root takes the place of the entry at the path, made when it is not there.\<close>

definition put_root :: "ent \<Rightarrow> ent \<Rightarrow> ent" where
  "put_root root e = Ent (ekey e) (Some (or_empty (estr root))) (emap root) (en root) (ety root)"

definition j_parsep :: "evalr \<Rightarrow> keyr \<Rightarrow> sh \<Rightarrow> string \<Rightarrow> ent \<Rightarrow> sh \<times> bool" where
  "j_parsep ax keysof s w root =
    (case keysof s w of
       (s0, None) \<Rightarrow> (s0, False)
     | (s0, Some (nm, ks)) \<Rightarrow>
         if ks = [] then (s0, False)
         else
           let (nm', v) = v_findr s0 nm;
               s1 = (if v = None then fst (hibr_set ax s0 nm' [] False) else s0);
               found = (v_find s1 nm' \<noteq> None);
               s2 = (if found then
                       v_upd s1 nm' (\<lambda>v. let (m, n) = walk_upd (put_root root) (vmap v, vn v) ks in v\<lparr>vmap := m, vn := n\<rparr>)
                     else s1)
           in (if v_find s2 nm = None then s2 else v_upd s2 nm (\<lambda>v. v\<lparr>vam := True\<rparr>), True))"

text \<open>A parsed root becomes the value of a variable.\<close>

definition set_root :: "ent \<Rightarrow> var \<Rightarrow> var" where
  "set_root root v = v\<lparr>vmap := emap root, vn := en root, vty := ety root,
     vam := (ents (emap root) \<noteq> [] \<or> ety root = J_ARR \<or> ety root = J_OBJ)\<rparr>"

definition json_parse :: "evalr \<Rightarrow> keyr \<Rightarrow> sh \<Rightarrow> string \<Rightarrow> string \<Rightarrow> sh \<times> string \<times> int" where
  "json_parse ax keysof s nm txt =
    (case j_parse txt of
       None \<Rightarrow> (s, [], HIBR_FAIL)
     | Some root \<Rightarrow>
         (case (if CHR ''['' \<in> set nm then j_parsep ax keysof s nm root else (s, False)) of
            (s1, True) \<Rightarrow> (s1, [], HIBR_OK)
          | (s1, False) \<Rightarrow>
              (case hibr_set ax s1 nm (or_empty (estr root)) False of
                 (s2, rc) \<Rightarrow>
                   if rc \<noteq> HIBR_OK then (s2, [], HIBR_FAIL)
                   else (if v_find s2 nm = None then s2 else v_upd s2 nm (set_root root), [], HIBR_OK))))"

definition emit_ty :: "var \<Rightarrow> nat" where
  "emit_ty v =
    (if ents (vmap v) = [] \<and> vam v \<and> vty v = 0 then (if has (vat v) A_ASSOC then J_OBJ else J_ARR) else vty v)"

definition json_emit :: "evalr \<Rightarrow> bool \<Rightarrow> sh \<Rightarrow> string \<Rightarrow> bool \<Rightarrow> sh \<times> string \<times> int" where
  "json_emit ax bnd s nm pretty =
    (case v_find s nm of
       None \<Rightarrow> (s, [], HIBR_FAIL)
     | Some v \<Rightarrow>
         let t = j_out (vmap v) (vn v) (vv v) (emit_ty v) pretty 0
         in (fst (hibr_set ax s ''RET'' t False), say bnd t, HIBR_OK))"

definition json_set :: "evalr \<Rightarrow> sh \<Rightarrow> string \<Rightarrow> string list \<Rightarrow> string \<Rightarrow> bool \<Rightarrow> sh \<times> string \<times> int" where
  "json_set ax s nm ks val force =
    (let s1 = v_setp ax s nm ks val
     in (case v_path s1 nm ks of
           None \<Rightarrow> s1
         | Some e \<Rightarrow>
             v_upd s1 (fst (v_findr s1 nm)) (\<lambda>v.
               let (m, n) = walk_upd (ent_ty (if force then J_STR else j_guess val)) (vmap v, vn v) ks
               in v\<lparr>vmap := m, vn := n\<rparr>),
         [], HIBR_OK))"

text \<open>What a path reads: an entry, or the variable itself when the path is empty.\<close>

definition json_at :: "sh \<Rightarrow> string \<Rightarrow> string list \<Rightarrow> ent option" where
  "json_at s nm ks =
    (case v_find s nm of
       None \<Rightarrow> None
     | Some v \<Rightarrow> if ks = [] then Some (Ent [] (vv v) (vmap v) (vn v) (vty v)) else v_path s nm ks)"

definition json_text :: "ent \<Rightarrow> string" where
  "json_text e =
    (if ents (emap e) \<noteq> [] \<or> ety e = J_ARR \<or> ety e = J_OBJ
     then j_out (emap e) (en e) (estr e) (ety e) False 0 else or_empty (estr e))"

definition json_get :: "evalr \<Rightarrow> bool \<Rightarrow> sh \<Rightarrow> ent \<Rightarrow> string option \<Rightarrow> sh \<times> string \<times> int" where
  "json_get ax bnd s e dst =
    (let t = json_text e; to = (case dst of Some d \<Rightarrow> at d 0 \<noteq> CHR ''-'' | None \<Rightarrow> False);
         s1 = (if to then fst (hibr_set ax s (the dst) t False) else s)
     in (fst (hibr_set ax s1 ''RET'' t False), if to then [] else say bnd t, HIBR_OK))"

definition json_join :: "string list \<Rightarrow> string" where
  "json_join ks = foldl (\<lambda>o1 k. (if o1 \<noteq> [] then o1 @ '' '' else o1) @ k) [] ks"

definition json_keys :: "evalr \<Rightarrow> bool \<Rightarrow> sh \<Rightarrow> ent \<Rightarrow> string option \<Rightarrow> sh \<times> string \<times> int" where
  "json_keys ax bnd s e dst =
    (let t = json_join (map ekey (ents (emap e)));
         s1 = (case dst of Some d \<Rightarrow> fst (hibr_set ax s d t False) | None \<Rightarrow> s)
     in (fst (hibr_set ax s1 ''RET'' t False), if dst = None then say bnd t else [], HIBR_OK))"

definition json_len :: "evalr \<Rightarrow> bool \<Rightarrow> sh \<Rightarrow> ent \<Rightarrow> sh \<times> string \<times> int" where
  "json_len ax bnd s e =
    (let t = s_num (int (en e)) in (fst (hibr_set ax s ''RET'' t False), say bnd t, HIBR_OK))"

definition json_type :: "evalr \<Rightarrow> bool \<Rightarrow> sh \<Rightarrow> ent \<Rightarrow> sh \<times> string \<times> int" where
  "json_type ax bnd s e =
    (let t = j_tname (ety e) (emap e) in (fst (hibr_set ax s ''RET'' t False), say bnd t, HIBR_OK))"

definition arg :: "string list \<Rightarrow> nat \<Rightarrow> string option" where
  "arg av i = (if i < length av then Some (av ! i) else None)"

definition b_json :: "evalr \<Rightarrow> keyr \<Rightarrow> bool \<Rightarrow> string \<Rightarrow> sh \<Rightarrow> string list \<Rightarrow> sh \<times> string \<times> int" where
  "b_json ax keysof bnd inp s av =
    (if length av < 3 then (s, [], 2)
     else
       let sub = av ! 1; nm = av ! 2 in
       if sub = ''parse'' then json_parse ax keysof s nm (if length av > 3 then av ! 3 else inp)
       else if sub = ''emit'' then json_emit ax bnd s nm (''-p'' \<in> set (drop 2 av))
       else if length av < 4 then (s, [], 2)
       else
         let ks = j_path (av ! 3) in
         if sub = ''set'' then
           (if length av < 5 then (s, [], 2) else json_set ax s nm ks (av ! 4) (''-s'' \<in> set (drop 5 av)))
         else
           (case json_at s nm ks of
              None \<Rightarrow> (s, [], HIBR_FAIL)
            | Some e \<Rightarrow>
                if sub = ''get'' then json_get ax bnd s e (arg av 4)
                else if sub = ''keys'' then json_keys ax bnd s e (arg av 4)
                else if sub = ''len'' then json_len ax bnd s e
                else if sub = ''type'' then json_type ax bnd s e
                else (s, [], 2)))"

subsection \<open>Lemmas\<close>

lemma keeps_ent_ty [simp]: "keeps (ent_ty t)"
  by (simp add: keeps_def)

lemma keeps_put_root: "ent_ok root \<Longrightarrow> keeps (put_root root)"
  by (simp add: keeps_def put_root_def ent_ok_cn cn_ok_def)

text \<open>What the walk changes in a variable found through no reference.\<close>

lemma v_upd_walk_find:
  assumes ok: "sh_ok s" and f: "v_find s nm = Some w" and k: "keeps g"
  shows "sh_ok (v_upd s nm (\<lambda>v. let (m, n) = walk_upd g (vmap v, vn v) ks in v\<lparr>vmap := m, vn := n\<rparr>))"
    and "v_find (v_upd s nm (\<lambda>v. let (m, n) = walk_upd g (vmap v, vn v) ks in v\<lparr>vmap := m, vn := n\<rparr>)) =
      (v_find s)(nm := Some (w\<lparr>vmap := fst (walk_upd g (vmap w, vn w) ks), vn := snd (walk_upd g (vmap w, vn w) ks)\<rparr>))"
proof -
  let ?g = "\<lambda>v. let (m, n) = walk_upd g (vmap v, vn v) ks in v\<lparr>vmap := m, vn := n\<rparr>"
  have w: "vk w = nm" "cn_ok (vmap w, vn w)" using var_ok_find [OF ok f] by (auto simp: var_ok_def)
  have g: "?g w = w\<lparr>vmap := fst (walk_upd g (vmap w, vn w) ks), vn := snd (walk_upd g (vmap w, vn w) ks)\<rparr>"
    by (simp add: case_prod_unfold Let_def)
  have "vk (?g w) = nm" "var_ok (?g w)" unfolding g using w walk_upd_ok [OF w(2) k, of ks] by (simp_all add: var_ok_def)
  from v_upd_at [OF ok f, of ?g, OF this] show "sh_ok (v_upd s nm ?g)"
    "v_find (v_upd s nm ?g) =
      (v_find s)(nm := Some (w\<lparr>vmap := fst (walk_upd g (vmap w, vn w) ks), vn := snd (walk_upd g (vmap w, vn w) ks)\<rparr>))"
    unfolding g by simp_all
qed

lemma json_at_plain:
  "v_find s nm = Some w \<Longrightarrow> \<not> follows w \<Longrightarrow> ks \<noteq> [] \<Longrightarrow> json_at s nm ks = walk_get (vmap w) ks"
  by (simp add: json_at_def v_path_def v_findr_plain)

lemma json_set_plain:
  assumes ok: "sh_ok s" and ne: "ks \<noteq> []" and d: "\<not> is_dyn nm"
    and plain: "case v_find s nm of None \<Rightarrow> \<not> refuses s nm | Some e \<Rightarrow> \<not> vro e \<and> vat e = 0"
    and r: "json_set ax s nm ks val force = (s', out, rc)"
  shows "rc = HIBR_OK \<and> out = [] \<and> sh_ok s' \<and> (\<forall>k. k \<noteq> nm \<longrightarrow> v_find s' k = v_find s k) \<and>
    (\<exists>e. json_at s' nm ks = Some e \<and> estr e = Some val \<and> ents (emap e) = [] \<and>
      ety e = (if force then J_STR else j_guess val))"
proof -
  obtain t w where t: "v_setp ax s nm ks val = setp_walk t nm ks val" "sh_ok t" "v_find t nm = Some w" "vat w = 0"
    "\<forall>k. k \<noteq> nm \<longrightarrow> v_find t k = v_find s k"
    "(vmap w, vn w) = (case v_find s nm of Some e \<Rightarrow> (vmap e, vn e) | None \<Rightarrow> (nullmap, 0))"
    by (rule v_setp_plain [OF ok ne d plain, of ax val]) blast
  have nr: "\<not> is_ref w" using t(4) by (simp add: is_ref_def)
  let ?s1 = "setp_walk t nm ks val"
  obtain w' where w': "v_find ?s1 = (v_find t)(nm := Some w')" "vat w' = vat w"
    "(vmap w', vn w') = walk_upd (set_ent val) (vmap w, vn w) ks"
    using setp_walk_find [OF t(2,3) nr ne] by metis
  have fw: "\<not> follows w'" using w'(2) t(4) by (simp add: follows_def is_ref_def)
  have f1: "v_find ?s1 nm = Some w'" using w'(1) by simp
  have ok1: "sh_ok ?s1" by (rule setp_walk_ok [OF t(2)])
  have cn: "cn_ok (vmap w, vn w)" using var_ok_find [OF t(2,3)] by (simp add: var_ok_def)
  obtain e where e: "walk_get (vmap w') ks = Some (set_ent val e)"
    using walk_get_same [OF cn keeps_set_ent ne] w'(3) by (metis fst_conv)
  have cn': "cn_ok (vmap w', vn w')" using var_ok_find [OF ok1 f1] by (simp add: var_ok_def)
  let ?ty = "if force then J_STR else j_guess val"
  have s': "s' = v_upd ?s1 nm (\<lambda>v. let (m, n) = walk_upd (ent_ty ?ty) (vmap v, vn v) ks in v\<lparr>vmap := m, vn := n\<rparr>)"
    "rc = HIBR_OK" "out = []"
    using r e ne by (simp_all add: json_set_def t(1) v_path_def v_findr_plain [OF f1 fw])
  note u = v_upd_walk_find [OF ok1 f1 keeps_ent_ty, of ?ty ks]
  let ?w2 = "w'\<lparr>vmap := fst (walk_upd (ent_ty ?ty) (vmap w', vn w') ks), vn := snd (walk_upd (ent_ty ?ty) (vmap w', vn w') ks)\<rparr>"
  have f2: "v_find s' nm = Some ?w2" unfolding s'(1) u(2) by simp
  moreover have "\<not> follows ?w2" using fw by (simp add: follows_def is_ref_def)
  ultimately have "json_at s' nm ks = Some (ent_ty ?ty (set_ent val e))"
    using json_at_plain [of s' nm ?w2 ks] ne walk_get_same [OF cn' keeps_ent_ty ne, of ?ty] e by simp
  moreover have "\<forall>k. k \<noteq> nm \<longrightarrow> v_find s' k = v_find s k" unfolding s'(1) u(2) using w'(1) t(5) by simp
  ultimately show ?thesis using s' u(1) by (simp add: set_ent_def)
qed

lemma j_guess_scalar: "j_guess v \<in> {J_STR, J_NUM, J_BOOL, J_NULL}"
  by (simp add: j_guess_def Let_def)

lemma set_any:
  assumes ok: "sh_ok s" and d: "\<not> is_dyn k"
    and plain: "case v_find s k of None \<Rightarrow> \<not> refuses s k | Some e \<Rightarrow> \<not> vro e \<and> vat e = 0"
  obtains w where "snd (hibr_set ax s k v ex) = HIBR_OK" "sh_ok (fst (hibr_set ax s k v ex))"
    "v_find (fst (hibr_set ax s k v ex)) = (v_find s)(k := Some w)" "vk w = k" "vat w = 0" "vv w = Some v" "\<not> vro w"
proof (cases "v_find s k")
  case None
  with plain have r: "\<not> refuses s k" by simp
  note rm = v_room_ok [OF ok]
  from None rm(2) have f: "v_find (v_room s) k = None" by simp
  let ?t = "v_create (v_room s) k v (exports s k ex)"
  have e: "hibr_set ax s k v ex = (?t, HIBR_OK)"
    unfolding hibr_set_def by (rule step_new [OF ok d None r])
  note c = v_create_ok [OF rm(1,3) f, of v "exports s k ex"]
  show ?thesis
    by (rule that [of "new_var k v (exports s k ex)"]) (use e c rm(2) in \<open>auto simp: new_var_def\<close>)
next
  case (Some e)
  with plain have p: "\<not> vro e" "vat e = 0" by auto
  note u = set_plain [OF ok d Some p]
  show ?thesis
    by (rule that [OF u(1,2,3)]) (use p var_ok_find [OF ok Some] in simp_all)
qed

lemma j_out_scalar_cong: "v = None \<longrightarrow> ents m \<noteq> [] \<or> ty = J_ARR \<or> ty = J_OBJ \<Longrightarrow>
    j_out m n (Some (or_empty v)) ty p d = j_out m n v ty p d"
  by (cases v; cases m) (auto simp: or_empty_def scalar_out_def)

text \<open>The names of a command's result, and a name a command may set.\<close>

definition plain_name :: "sh \<Rightarrow> string \<Rightarrow> bool" where
  "plain_name s k \<longleftrightarrow> \<not> is_dyn k \<and> (case v_find s k of None \<Rightarrow> \<not> refuses s k | Some e \<Rightarrow> \<not> vro e \<and> vat e = 0)"

lemma plain_name_sh0: "plain_name sh0 k \<longleftrightarrow> \<not> is_dyn k"
  by (simp add: plain_name_def)

text \<open>The parser's root is well formed.\<close>

lemma j_parse_ent_ok: "j_parse txt = Some root \<Longrightarrow> ent_ok root"
proof -
  let ?j = "\<lparr>jtx = txt, jbad = False, jdep = 0\<rparr>"
  have "jret ?j (ent0 []) (j_val (2 * length txt + 1) ?j (ent0 []))"
    by (intro j_total [THEN conjunct1, rule_format]) simp_all
  then show "j_parse txt = Some root \<Longrightarrow> ent_ok root"
    by (auto simp: j_parse_def jret_def split: if_splits)
qed

lemma j_parse_ok:
  assumes "chain_ok m" and "j_typed HIBR_DEPTH m v ty"
  shows "\<exists>root. j_parse (j_out m n v ty pretty 0) = Some root \<and> tree_ent root = ([], VT v ty (tree_of m)) \<and> ent_ok root"
  using j_emit_parse [OF assms, of n pretty] j_parse_ent_ok by blast

lemma j_typed_root: "j_typed d m v ty \<Longrightarrow> v = None \<longrightarrow> ents m \<noteq> [] \<or> ty = J_ARR \<or> ty = J_OBJ"
  by (cases m) (auto simp: scalar_typed_def split: if_splits option.splits)

subsection \<open>Properties\<close>

text \<open>C40: a value set at a path of a plain variable is what the same path then prints, whether it
  looks like a number, a literal or text; its type is the one guessed from its text, or string
  when forced, and no other variable changes.\<close>

theorem json_set_get:
  assumes ok: "sh_ok s" and pl: "plain_name s nm" and ne: "j_path p \<noteq> []"
    and s1: "b_json ax ko bnd inp s ([''json'', ''set'', nm, p, val] @ flags) = (s1, out1, rc1)"
    and s2: "b_json ax ko False inp s1 [''json'', ''get'', nm, p] = (s2, out2, rc2)"
    and s3: "b_json ax ko False inp s1 [''json'', ''type'', nm, p] = (s3, out3, rc3)"
  shows "rc1 = HIBR_OK \<and> rc2 = HIBR_OK \<and> out2 = val @ [CHR 0x0A] \<and>
    out3 = j_tname (if ''-s'' \<in> set flags then J_STR else j_guess val) nullmap @ [CHR 0x0A] \<and>
    (\<forall>k. k \<noteq> nm \<longrightarrow> v_find s1 k = v_find s k)"
proof -
  let ?ty = "if ''-s'' \<in> set flags then J_STR else j_guess val"
  have "json_set ax s nm (j_path p) val (''-s'' \<in> set flags) = (s1, out1, rc1)"
    using s1 by (simp add: b_json_def Let_def nth_append)
  from json_set_plain [OF ok ne _ _ this] pl
  obtain e where e: "rc1 = HIBR_OK" "\<forall>k. k \<noteq> nm \<longrightarrow> v_find s1 k = v_find s k"
    "json_at s1 nm (j_path p) = Some e" "estr e = Some val" "ents (emap e) = []" "ety e = ?ty"
    unfolding plain_name_def by blast
  have "ety e \<noteq> J_ARR" "ety e \<noteq> J_OBJ" using e(6) j_guess_scalar [of val] by auto
  then have t: "json_text e = val" using e(4,5) by (simp add: json_text_def or_empty_def)
  have "out2 = json_text e @ [CHR 0x0A]" "rc2 = HIBR_OK"
    using s2 e(3) by (auto simp: b_json_def Let_def json_get_def arg_def say_def)
  moreover have "out3 = j_tname (ety e) (emap e) @ [CHR 0x0A]"
    using s3 e(3) by (auto simp: b_json_def Let_def json_type_def arg_def say_def)
  moreover have "j_tname (ety e) (emap e) = j_tname ?ty nullmap" using e(5,6) by (simp add: j_tname_def)
  ultimately show ?thesis using t e by simp
qed

theorem json_set_get_witness:
  "\<exists>s1 s2. b_json (\<lambda>s v. (s, 0)) (\<lambda>s w. (s, None)) False [] sh0 [''json'', ''set'', ''v'', ''.a.b'', ''12''] = (s1, [], 0) \<and>
    b_json (\<lambda>s v. (s, 0)) (\<lambda>s w. (s, None)) False [] s1 [''json'', ''get'', ''v'', ''.a.b''] = (s2, ''12'' @ [CHR 0x0A], 0)"
proof -
  let ?b = "b_json (\<lambda>s v. (s, 0)) (\<lambda>s w. (s, None)) False []"
  obtain s1 o1 r1 where 1: "?b sh0 ([''json'', ''set'', ''v'', ''.a.b'', ''12''] @ []) = (s1, o1, r1)" by (metis surj_pair)
  obtain s2 o2 r2 where 2: "?b s1 [''json'', ''get'', ''v'', ''.a.b''] = (s2, o2, r2)" by (metis surj_pair)
  obtain s3 o3 r3 where 3: "?b s1 [''json'', ''type'', ''v'', ''.a.b''] = (s3, o3, r3)" by (metis surj_pair)
  have p: "j_path ''.a.b'' = [''a'', ''b'']" by (simp add: j_path.simps)
  have "o1 = []" using 1 by (auto simp: b_json_def Let_def json_set_def)
  with json_set_get [OF sh0_simps(1) _ _ 1 2 3] p 1 2 show ?thesis
    by (auto simp: plain_name_sh0 is_dyn_def)
qed

text \<open>Parsing what was written for a typed value into a plain variable succeeds, gives the variable
  the tree of that value, and \<open>json emit\<close> prints the value again; a text that is malformed changes
  nothing and fails.\<close>

theorem json_parse_emit:
  assumes ok: "sh_ok s" and pl: "plain_name s nm" and nb: "CHR ''['' \<notin> set nm" "nm \<noteq> ''-p''"
    and m: "chain_ok m" and ty: "j_typed HIBR_DEPTH m v ty"
    and s1: "b_json ax ko bnd inp s [''json'', ''parse'', nm, j_out m n v ty pretty 0] = (s1, out1, rc1)"
    and s2: "b_json ax ko False inp s1 [''json'', ''emit'', nm] = (s2, out2, rc2)"
  shows "rc1 = HIBR_OK \<and> rc2 = HIBR_OK \<and> out2 = j_out m n v ty False 0 @ [CHR 0x0A] \<and>
    (\<exists>w. v_find s1 nm = Some w \<and> tree_of (vmap w) = tree_of m \<and> vty w = ty) \<and>
    (\<forall>k. k \<noteq> nm \<longrightarrow> v_find s1 k = v_find s k)"
proof -
  obtain root where root: "j_parse (j_out m n v ty pretty 0) = Some root" "tree_ent root = ([], VT v ty (tree_of m))"
    "ent_ok root"
    using j_parse_ok [OF m ty] by blast
  have rf: "estr root = v" "ety root = ty" "tree_of (emap root) = tree_of m" using root(2) by (simp_all add: tree_ent_fields)
  have d: "\<not> is_dyn nm" and p: "case v_find s nm of None \<Rightarrow> \<not> refuses s nm | Some e \<Rightarrow> \<not> vro e \<and> vat e = 0"
    using pl by (simp_all add: plain_name_def)
  let ?h = "hibr_set ax s nm (or_empty v) False"
  obtain w where w: "snd ?h = HIBR_OK" "sh_ok (fst ?h)" "v_find (fst ?h) = (v_find s)(nm := Some w)" "vk w = nm" "vat w = 0"
    "vv w = Some (or_empty v)"
    by (rule set_any [OF ok d p, of ax "or_empty v" False])
  let ?w = "set_root root w"
  have fw: "v_find (fst ?h) nm = Some w" using w(3) by simp
  have "vk ?w = nm" "var_ok ?w" using w(4) root(3) by (simp_all add: set_root_def var_ok_def ent_ok_cn)
  note u = v_upd_at [OF w(2) fw, of "set_root root", OF this]
  have 1: "s1 = v_upd (fst ?h) nm (set_root root)" "rc1 = HIBR_OK"
    using s1 root(1) nb w(1) fw rf(1) by (auto simp: b_json_def Let_def json_parse_def split: prod.splits)
  have f1: "v_find s1 nm = Some ?w" unfolding 1(1) u(2) by simp
  have et: "emit_ty ?w = ty"
    using rf w(5) by (auto simp: emit_ty_def set_root_def)
  have "j_out (emap root) (en root) (Some (or_empty v)) ty False 0 = j_out m n v ty False 0"
  proof (rule trans)
    have "ents (emap root) = [] \<longleftrightarrow> ents m = []" using rf(3) by (metis tree_of_ents map_is_Nil_conv)
    then show "j_out (emap root) (en root) (Some (or_empty v)) ty False 0 = j_out (emap root) (en root) v ty False 0"
      using j_typed_root [OF ty] by (intro j_out_scalar_cong) simp
    show "j_out (emap root) (en root) v ty False 0 = j_out m n v ty False 0"
      by (rule j_out_tree(1) [rule_format, OF ty rf(3)])
  qed
  moreover obtain w2 where "v_find s1 nm = Some w2" "vmap w2 = emap root" "vn w2 = en root" "emit_ty w2 = ty"
    "vv w2 = Some (or_empty v)"
    using f1 et w(6) by (simp add: set_root_def)
  ultimately have "out2 = j_out m n v ty False 0 @ [CHR 0x0A]" "rc2 = HIBR_OK"
    using s2 nb by (auto simp: b_json_def Let_def json_emit_def say_def)
  moreover have "\<forall>k. k \<noteq> nm \<longrightarrow> v_find s1 k = v_find s k" unfolding 1(1) u(2) using w(3) by simp
  ultimately show ?thesis using 1(2) f1 rf by (simp add: set_root_def)
qed

theorem json_parse_emit_witness:
  "\<exists>s1 s2. b_json (\<lambda>s v. (s, 0)) (\<lambda>s w. (s, None)) False [] sh0 [''json'', ''parse'', ''v'', ''true''] = (s1, [], 0) \<and>
    b_json (\<lambda>s v. (s, 0)) (\<lambda>s w. (s, None)) False [] s1 [''json'', ''emit'', ''v''] = (s2, ''true'' @ [CHR 0x0A], 0)"
proof -
  let ?b = "b_json (\<lambda>s v. (s, 0)) (\<lambda>s w. (s, None)) False []" and ?v = "Some ''true''"
  have ty: "j_typed HIBR_DEPTH nullmap ?v J_BOOL"
    by (simp add: scalar_typed_def lit_ty_def j_lit_def j_space_def)
  have t: "j_out nullmap 0 ?v J_BOOL pr 0 = ''true''" for pr by (simp add: scalar_out_def)
  obtain s1 o1 r1 where 1: "?b sh0 [''json'', ''parse'', ''v'', j_out nullmap 0 ?v J_BOOL False 0] = (s1, o1, r1)"
    by (metis surj_pair)
  obtain s2 o2 r2 where 2: "?b s1 [''json'', ''emit'', ''v''] = (s2, o2, r2)" by (metis surj_pair)
  have pl: "plain_name sh0 ''v''" by (simp add: plain_name_sh0 is_dyn_def)
  have "o1 = []" using 1 by (auto simp: b_json_def Let_def json_parse_def split: option.splits prod.splits bool.splits if_splits)
  with json_parse_emit [OF sh0_simps(1) pl _ _ chain_ok_nullmap ty 1 2] 1 2 t show ?thesis by auto
qed

text \<open>\<open>json set\<close> on a readonly variable changes no value, but it reports success and gives the
  element at the path the type guessed from the value it refused.\<close>

theorem json_set_readonly:
  assumes ok: "sh_ok s" and f: "v_find s nm = Some v" and ro: "vro v" and nf: "\<not> follows v"
    and e: "walk_get (vmap v) (j_path p) = Some e"
    and s1: "b_json ax ko bnd inp s [''json'', ''set'', nm, p, val] = (s1, out1, rc1)"
  shows "rc1 = HIBR_OK \<and> json_at s1 nm (j_path p) = Some (ent_ty (j_guess val) e)"
proof -
  let ?ks = "j_path p"
  have ne: "?ks \<noteq> []" using e by auto
  let ?s = "s\<lparr>st := 1, refused := 1\<rparr>"
  have "v_setp ax s nm ?ks val = ?s" using ne ro by (simp add: v_setp_def v_findr_plain [OF f nf])
  moreover have f': "v_find ?s nm = Some v" "sh_ok ?s" using f ok by simp_all
  ultimately have "s1 = v_upd ?s nm (\<lambda>v. let (m, n) = walk_upd (ent_ty (j_guess val)) (vmap v, vn v) ?ks in v\<lparr>vmap := m, vn := n\<rparr>)"
    and rc: "rc1 = HIBR_OK"
    using s1 e ne by (simp_all add: b_json_def json_set_def v_path_def v_findr_plain [OF f'(1) nf, simplified] Let_def)
  note s1 = this(1)
  note u = v_upd_walk_find [OF f'(2,1) keeps_ent_ty, of "j_guess val" ?ks]
  have cn: "cn_ok (vmap v, vn v)" using var_ok_find [OF ok f] by (simp add: var_ok_def)
  let ?w = "v\<lparr>vmap := fst (walk_upd (ent_ty (j_guess val)) (vmap v, vn v) ?ks), vn := snd (walk_upd (ent_ty (j_guess val)) (vmap v, vn v) ?ks)\<rparr>"
  have "v_find s1 nm = Some ?w" unfolding s1 u(2) by simp
  moreover have "\<not> follows ?w" using nf by (simp add: follows_def is_ref_def)
  ultimately show ?thesis
    using rc json_at_plain [of s1 nm ?w ?ks] ne walk_get_same [OF cn keeps_ent_ty ne, of "j_guess val"] e by simp
qed

theorem json_set_readonly_witness:
  "\<exists>s1. b_json (\<lambda>s v. (s, 0)) (\<lambda>s w. (s, None)) False []
      (sh_with ((new_var ''v'' [] False)\<lparr>vro := True, vmap := Chain [Ent ''a'' (Some ''x'') nullmap 0 J_STR] None None, vn := 1\<rparr>))
      [''json'', ''set'', ''v'', ''a'', ''7''] = (s1, [], 0) \<and>
    json_at s1 ''v'' [''a''] = Some (Ent ''a'' (Some ''x'') nullmap 0 J_NUM)"
proof -
  let ?v = "(new_var ''v'' [] False)\<lparr>vro := True, vmap := Chain [Ent ''a'' (Some ''x'') nullmap 0 J_STR] None None, vn := 1\<rparr>"
  let ?b = "b_json (\<lambda>s v. (s, 0)) (\<lambda>s w. (s, None)) False [] (sh_with ?v)"
  have v: "var_ok ?v" "vk ?v = ''v''" "vro ?v" "\<not> follows ?v"
    by (simp_all add: new_var_def var_ok_def cn_ok_def follows_def is_ref_def)
  have p: "j_path ''a'' = [''a'']" by (simp add: j_path.simps)
  have g: "j_guess ''7'' = J_NUM" by code_simp
  have w: "walk_get (vmap ?v) (j_path ''a'') = Some (Ent ''a'' (Some ''x'') nullmap 0 J_STR)"
    by (simp add: p mp_find_def)
  have f: "v_find (sh_with ?v) ''v'' = Some ?v" using sh_with_ok(2) [OF v(1)] v(2) by simp
  obtain s1 o1 r1 where 1: "?b [''json'', ''set'', ''v'', ''a'', ''7''] = (s1, o1, r1)" by (metis surj_pair)
  have "o1 = []" using 1 by (auto simp: b_json_def Let_def json_set_def)
  with json_set_readonly [OF sh_with_ok(1) [OF v(1)] f v(3,4) w 1] 1 g p show ?thesis by (simp add: ent_ty_def)
qed

end
