(* ===== verification/Glob.thy ===== *)
theory Glob
  imports Utf8
begin

text \<open>
  The pattern matcher of src/expand.c: stars, single characters, brackets with ranges and classes,
  escapes, and the extended groups \<open>?( *( +( @( !(\<close>. The C functions call each other on patterns
  they build and have no bound of their own; here they take fuel, and \<open>None\<close> is a call that needs
  more. A plain pattern always returns (\<open>gmatch_plain\<close>); not every pattern does
  (\<open>gmatch_diverges\<close>).
\<close>

subsection \<open>Characters\<close>

definition iscntrl :: "nat \<Rightarrow> bool" where
  [byte_simps]: "iscntrl n \<longleftrightarrow> n < 32 \<or> n = 127"

definition isprint :: "nat \<Rightarrow> bool" where
  [byte_simps]: "isprint n \<longleftrightarrow> 32 \<le> n \<and> n < 127"

definition isgraph :: "nat \<Rightarrow> bool" where
  [byte_simps]: "isgraph n \<longleftrightarrow> 32 < n \<and> n < 127"

definition ispunct :: "nat \<Rightarrow> bool" where
  [byte_simps]: "ispunct n \<longleftrightarrow> isgraph n \<and> \<not> isalnum (chr n)"

definition gch :: "string \<Rightarrow> nat \<times> nat" where
  "gch t = (if byte (at t 0) < 0x80 then (1, byte (at t 0)) else u8dec t 4)"

definition gskip :: "string \<Rightarrow> nat" where
  "gskip t = (if byte (at t 0) < 0x80 then 1 else fst (gch t))"

text \<open>Classes, of a byte below 0x80 and of a character from there on.\<close>

definition gclass :: "string \<Rightarrow> nat \<Rightarrow> bool" where
  "gclass nm c =
    (if nm = ''xdigit'' then isxdigit (chr c)
     else if nm = ''alnum'' then isalnum (chr c)
     else if nm = ''alpha'' then isalpha (chr c)
     else if nm = ''blank'' then c = 32 \<or> c = 9
     else if nm = ''cntrl'' then iscntrl c
     else if nm = ''digit'' then isdigit (chr c)
     else if nm = ''graph'' then isgraph c
     else if nm = ''lower'' then islower (chr c)
     else if nm = ''print'' then isprint c
     else if nm = ''punct'' then ispunct c
     else if nm = ''space'' then isspace (chr c)
     else if nm = ''upper'' then isupper (chr c)
     else False)"

definition gclassu :: "string \<Rightarrow> nat \<Rightarrow> bool" where
  "gclassu nm c =
    (let up = (u8case c False \<noteq> c); lo = (u8case c True \<noteq> c) in
     if nm = ''alpha'' \<or> nm = ''alnum'' then up \<or> lo
     else if nm = ''upper'' then up
     else if nm = ''lower'' then lo
     else if nm = ''print'' \<or> nm = ''graph'' then c \<ge> 0xA0
     else False)"

subsection \<open>Brackets\<close>

lemma gch_pos: "0 < fst (gch t)"
  using u8dec_len(1) [of t 4] by (simp add: gch_def)

text \<open>The first member of a bracket at \<open>q\<close>: what it takes, and the text after it.\<close>

definition gmember :: "string \<Rightarrow> (nat \<Rightarrow> bool) \<times> string" where
  "gmember q =
    (case (if at q 0 = CHR ''['' \<and> at q 1 = CHR '':'' then strstr (drop 2 q) '':]'' else None) of
       Some i \<Rightarrow>
         (\<lambda>c. if c < 0x80 then gclass (take i (drop 2 q)) c else gclassu (take i (drop 2 q)) c, drop (i + 4) q)
     | None \<Rightarrow>
         if at q 0 = CHR 0x5C \<and> at q 1 \<noteq> NUL then
           (\<lambda>c. c = snd (gch (drop 1 q)), drop (1 + fst (gch (drop 1 q))) q)
         else
           (let l = fst (gch q); lo = snd (gch q) in
            if at q l = CHR ''-'' \<and> at q (l + 1) \<noteq> NUL \<and> at q (l + 1) \<noteq> CHR '']'' then
              (let q' = drop (l + 1) q
               in (\<lambda>c. c \<ge> lo \<and> c \<le> snd (gch q'), drop (fst (gch q')) q'))
            else (\<lambda>c. c = lo, drop l q)))"

lemma gmember_len: "q \<noteq> [] \<Longrightarrow> length (snd (gmember q)) < length q"
  using gch_pos [of q] gch_pos [of "drop 1 q"]
  by (auto simp: gmember_def Let_def split: option.split)

text \<open>The members from \<open>q\<close>: whether \<open>c\<close> is one of them, and the text from the closing bracket on
  (empty when there is none). The first member may be a closing bracket.\<close>

function gbrk_loop :: "nat \<Rightarrow> bool \<Rightarrow> bool \<Rightarrow> string \<Rightarrow> bool \<times> string" where
  "gbrk_loop c first hit q =
    (if q = [] then (hit, [])
     else if at q 0 = CHR '']'' \<and> \<not> first then (hit, q)
     else gbrk_loop c False (hit \<or> fst (gmember q) c) (snd (gmember q)))"
  by pat_completeness auto
termination
  by (relation "measure (\<lambda>(c, first, hit, q). length q)") (use gmember_len in auto)

declare gbrk_loop.simps [simp del]

definition gbrk :: "string \<Rightarrow> nat \<Rightarrow> bool \<times> string option" where
  "gbrk p c =
    (let neg = (at p 1 = CHR ''!'' \<or> at p 1 = CHR ''^'');
         (hit, q) = gbrk_loop c True False (drop (if neg then 2 else 1) p)
     in (hit \<noteq> neg, if q = [] then None else Some q))"

subsection \<open>Groups\<close>

text \<open>The offset of the first alternative's end, and all the alternatives.\<close>

fun gnext :: "string \<Rightarrow> int \<Rightarrow> nat" where
  "gnext [] d = 0"
| "gnext (c # a) d =
    (if c = CHR ''('' then Suc (gnext a (d + 1))
     else if c = CHR '')'' then Suc (gnext a (d - 1))
     else if c = CHR ''|'' \<and> d = 0 then 0
     else Suc (gnext a d))"

lemma gnext_le: "gnext b d \<le> length b"
  by (induction b d rule: gnext.induct) auto

function galts :: "string \<Rightarrow> string list" where
  "galts b = (if gnext b 0 < length b then take (gnext b 0) b # galts (drop (gnext b 0 + 1) b) else [b])"
  by pat_completeness auto
termination
  by (relation "measure length") auto

declare galts.simps [simp del]

text \<open>The offset of the parenthesis that closes the group.\<close>

fun gclose :: "string \<Rightarrow> nat \<Rightarrow> nat option" where
  "gclose [] d = None"
| "gclose (c # b) d =
    (if c = CHR ''('' then map_option Suc (gclose b (d + 1))
     else if c = CHR '')'' then (if d = 1 then Some 0 else map_option Suc (gclose b (d - 1)))
     else map_option Suc (gclose b d))"

text \<open>Tests made one after the other; one that does not return stops them all.\<close>

definition gor :: "bool option \<Rightarrow> bool option \<Rightarrow> bool option" where
  "gor a b = (if a = Some False then b else a)"

definition gand :: "bool option \<Rightarrow> bool option \<Rightarrow> bool option" where
  "gand a b = (if a = Some True then b else a)"

definition gif :: "bool option \<Rightarrow> bool option \<Rightarrow> bool option \<Rightarrow> bool option" where
  "gif c a b = (case c of None \<Rightarrow> None | Some x \<Rightarrow> if x then a else b)"

fun gany :: "('a \<Rightarrow> bool option) \<Rightarrow> 'a list \<Rightarrow> bool option" where
  "gany F [] = Some False"
| "gany F (x # xs) = gor (F x) (gany F xs)"

lemma gany_cong [fundef_cong]: "xs = ys \<Longrightarrow> (\<And>x. x \<in> set ys \<Longrightarrow> F x = G x) \<Longrightarrow> gany F xs = gany G ys"
  by (induction ys arbitrary: xs) auto

definition gops :: "char set" where
  "gops = {CHR ''?'', CHR ''*'', CHR ''+'', CHR ''@'', CHR ''!''}"

definition gstart :: "string \<Rightarrow> bool" where
  "gstart p \<longleftrightarrow> at p 1 = CHR ''('' \<and> at p 0 \<in> gops"

text \<open>The offsets at which a character of \<open>t\<close> may begin, and the end.\<close>

definition gbounds :: "string \<Rightarrow> nat list" where
  "gbounds t = filter (\<lambda>i. i = length t \<or> \<not> u8cont (at t i)) [0..<length t + 1]"

definition gunroll :: "string \<Rightarrow> string" where
  "gunroll body = ''*('' @ body @ '')''"

subsection \<open>The matcher\<close>

fun gmatch :: "nat \<Rightarrow> string \<Rightarrow> string \<Rightarrow> bool option"
  and gstar :: "nat \<Rightarrow> string \<Rightarrow> string \<Rightarrow> bool option"
  and gext :: "nat \<Rightarrow> string \<Rightarrow> string \<Rightarrow> bool option" where
  "gmatch 0 p t = None"
| "gmatch (Suc f) p t =
    (case p of
       [] \<Rightarrow> Some (t = [])
     | c # r \<Rightarrow>
         if gstart p then gext f p t
         else if c = CHR ''*'' then (if r = [] then Some True else gstar f r t)
         else if t = [] then Some False
         else if c = CHR ''?'' then gmatch f r (drop (gskip t) t)
         else if c = CHR ''['' then
           (let (l, cp) = gch t; (hit, q) = gbrk p cp in
            case q of
              None \<Rightarrow> if at t 0 \<noteq> CHR ''['' then Some False else gmatch f r (drop 1 t)
            | Some q \<Rightarrow> if \<not> hit then Some False else gmatch f (drop 1 q) (drop l t))
         else
           (let p' = (if c = CHR 0x5C \<and> r \<noteq> [] then r else p)
            in if at p' 0 \<noteq> at t 0 then Some False else gmatch f (drop 1 p') (drop 1 t)))"
| "gstar 0 r t = None"
| "gstar (Suc f) r t =
    (if t = [] then gmatch f r [] else gor (gmatch f r t) (gstar f r (drop (gskip t) t)))"
| "gext 0 p t = None"
| "gext (Suc f) p t =
    (let op = at p 0 in
     case gclose (drop 2 p) 1 of
       None \<Rightarrow> Some False
     | Some k \<Rightarrow>
         let body = take k (drop 2 p); rest = drop (k + 3) p; alts = galts body;
             galt = (\<lambda>t. gany (\<lambda>a. gmatch f a t) alts)
         in if op = CHR ''!'' then
              gany (\<lambda>i. gand (gmatch f rest (drop i t)) (map_option Not (galt (take i t)))) (gbounds t)
            else
              gor (if op = CHR ''?'' \<or> op = CHR ''*'' then gmatch f rest t else Some False)
                (gif (if op = CHR ''*'' \<or> op = CHR ''+'' then galt [] else Some False)
                   (gor (if op = CHR ''+'' then gmatch f rest t else Some False)
                      (gany (\<lambda>j. gand (galt (take j t)) (gmatch f (gunroll body @ rest) (drop j t)))
                        (filter (\<lambda>j. j \<noteq> 0) (gbounds t))))
                   (gany (\<lambda>a. gmatch f (a @ (if (op = CHR ''*'' \<or> op = CHR ''+'') \<and> a \<noteq> [] then gunroll body else []) @ rest) t)
                     (filter (\<lambda>a. a \<noteq> [] \<or> op = CHR ''?'' \<or> op = CHR ''@'') alts))))"

declare gmatch.simps(2) [simp del] gstar.simps(2) [simp del] gext.simps(2) [simp del]

subsection \<open>Fuel\<close>

text \<open>More fuel changes no answer.\<close>

definition ole :: "bool option \<Rightarrow> bool option \<Rightarrow> bool" where
  "ole a b \<longleftrightarrow> a = None \<or> a = b"

named_theorems ole_intros \<open>the tests are monotone in what they ask\<close>

lemma ole_basic [ole_intros]:
  "ole a a" "ole None b"
  "\<And>P a b a' b'. (P \<Longrightarrow> ole a a') \<Longrightarrow> (\<not> P \<Longrightarrow> ole b b') \<Longrightarrow> ole (if P then a else b) (if P then a' else b')"
  "\<And>a b a' b'. ole a a' \<Longrightarrow> ole b b' \<Longrightarrow> ole (gor a b) (gor a' b')"
  "\<And>a b a' b'. ole a a' \<Longrightarrow> ole b b' \<Longrightarrow> ole (gand a b) (gand a' b')"
  "\<And>a b c a' b' c'. ole c c' \<Longrightarrow> ole a a' \<Longrightarrow> ole b b' \<Longrightarrow> ole (gif c a b) (gif c' a' b')"
  "ole a b \<Longrightarrow> ole (map_option Not a) (map_option Not b)"
  by (auto simp: ole_def gor_def gand_def gif_def split: option.splits)

lemma ole_gany [ole_intros]: "(\<And>x. x \<in> set xs \<Longrightarrow> ole (F x) (G x)) \<Longrightarrow> ole (gany F xs) (gany G xs)"
  by (induction xs) (auto intro: ole_basic(4) simp: ole_basic(1))

lemma ole_case [ole_intros]:
  "ole a a' \<Longrightarrow> (\<And>x. ole (F x) (F' x)) \<Longrightarrow> ole (case q of None \<Rightarrow> a | Some x \<Rightarrow> F x) (case q of None \<Rightarrow> a' | Some x \<Rightarrow> F' x)"
  "ole a a' \<Longrightarrow> (\<And>x xs. ole (G x xs) (G' x xs)) \<Longrightarrow> ole (case p of [] \<Rightarrow> a | x # xs \<Rightarrow> G x xs) (case p of [] \<Rightarrow> a' | x # xs \<Rightarrow> G' x xs)"
  "(\<And>x y. ole (H x y) (H' x y)) \<Longrightarrow> ole (case r of (x, y) \<Rightarrow> H x y) (case r of (x, y) \<Rightarrow> H' x y)"
  by (auto split: option.split list.split prod.split)

lemma gmatch_mono: "ole (gmatch f p t) (gmatch (Suc f) p t) \<and> ole (gstar f p t) (gstar (Suc f) p t) \<and>
  ole (gext f p t) (gext (Suc f) p t)"
proof (induction f arbitrary: p t)
  case 0
  show ?case by (simp add: ole_def)
next
  case (Suc f)
  note IH = Suc [THEN conjunct1] Suc [THEN conjunct2, THEN conjunct1] Suc [THEN conjunct2, THEN conjunct2]
  have "ole (gmatch (Suc f) p t) (gmatch (Suc (Suc f)) p t)"
    unfolding gmatch.simps(2) [of f p t] gmatch.simps(2) [of "Suc f" p t] Let_def by (intro ole_intros IH)
  moreover have "ole (gstar (Suc f) p t) (gstar (Suc (Suc f)) p t)"
    unfolding gstar.simps(2) [of f p t] gstar.simps(2) [of "Suc f" p t] by (intro ole_intros IH)
  moreover have "ole (gext (Suc f) p t) (gext (Suc (Suc f)) p t)"
    unfolding gext.simps(2) [of f p t] gext.simps(2) [of "Suc f" p t] Let_def by (intro ole_intros IH)
  ultimately show ?case by simp
qed

lemma gmatch_more:
  assumes "gmatch f p t = Some b" and "f \<le> g"
  shows "gmatch g p t = Some b"
  using assms(2)
proof (induction rule: dec_induct)
  case (step n)
  with gmatch_mono [of n p t] show ?case by (simp add: ole_def)
qed (rule assms(1))

subsection \<open>Plain patterns\<close>

text \<open>The elements of a pattern with no extended group; a bracket is the characters it takes.\<close>

datatype gtok = GLit char | GAny | GStar | GSet "nat \<Rightarrow> bool"

lemma gbrk_loop_end: "snd (gbrk_loop c f h q) = snd (gbrk_loop d f h' q)"
proof (induction c f h q arbitrary: h' rule: gbrk_loop.induct)
  case (1 c first hit q)
  then show ?case by (simp add: gbrk_loop.simps [of _ _ _ q])
qed

lemma gbrk_end: "snd (gbrk p c) = snd (gbrk p d)"
  using gbrk_loop_end [of c True False _ d False] by (simp add: gbrk_def Let_def case_prod_unfold)

lemma gbrk_loop_len: "length (snd (gbrk_loop c f h q)) \<le> length q"
proof (induction c f h q rule: gbrk_loop.induct)
  case (1 c first hit q)
  show ?case
  proof (cases "q = [] \<or> at q 0 = CHR '']'' \<and> \<not> first")
    case True
    then show ?thesis by (auto simp: gbrk_loop.simps [of _ _ _ q])
  next
    case False
    with 1 gmember_len [of q] show ?thesis by (subst gbrk_loop.simps) auto
  qed
qed

lemma gbrk_len: "snd (gbrk p c) = Some q \<Longrightarrow> length q < length p"
  using gbrk_loop_len [of c True False "drop 1 p"] gbrk_loop_len [of c True False "drop 2 p"]
  by (cases p) (auto simp: gbrk_def Let_def case_prod_unfold numeral_2_eq_2 split: if_splits)

function gtoks :: "string \<Rightarrow> gtok list option" where
  "gtoks p =
    (case p of
       [] \<Rightarrow> Some []
     | c # r \<Rightarrow>
         if gstart p then None
         else if c = CHR ''*'' then map_option (Cons GStar) (gtoks r)
         else if c = CHR ''?'' then map_option (Cons GAny) (gtoks r)
         else if c = CHR ''['' then
           (case snd (gbrk p 0) of
              None \<Rightarrow> map_option (Cons (GLit c)) (gtoks r)
            | Some q \<Rightarrow> map_option (Cons (GSet (\<lambda>x. fst (gbrk p x)))) (gtoks (drop 1 q)))
         else if c = CHR 0x5C \<and> r \<noteq> [] then map_option (Cons (GLit (hd r))) (gtoks (tl r))
         else map_option (Cons (GLit c)) (gtoks r))"
  by pat_completeness auto
termination
  by (relation "measure length") (auto dest: gbrk_len)

declare gtoks.simps [simp del]

text \<open>What such a pattern means, whatever order the matcher tries things in.\<close>

inductive gsem :: "gtok list \<Rightarrow> string \<Rightarrow> bool" where
  gsem_Nil: "gsem [] []"
| gsem_Lit: "gsem ts t \<Longrightarrow> gsem (GLit c # ts) (c # t)"
| gsem_Any: "t \<noteq> [] \<Longrightarrow> gsem ts (drop (gskip t) t) \<Longrightarrow> gsem (GAny # ts) t"
| gsem_Set: "t \<noteq> [] \<Longrightarrow> P (snd (gch t)) \<Longrightarrow> gsem ts (drop (fst (gch t)) t) \<Longrightarrow> gsem (GSet P # ts) t"
| gsem_Star: "gsem ts t \<Longrightarrow> gsem (GStar # ts) t"
| gsem_Step: "t \<noteq> [] \<Longrightarrow> gsem (GStar # ts) (drop (gskip t) t) \<Longrightarrow> gsem (GStar # ts) t"

inductive_cases gsem_NilE: "gsem [] t"
inductive_cases gsem_LitE: "gsem (GLit c # ts) t"
inductive_cases gsem_AnyE: "gsem (GAny # ts) t"
inductive_cases gsem_SetE: "gsem (GSet P # ts) t"
inductive_cases gsem_StarE: "gsem (GStar # ts) t"

lemma gskip_pos: "0 < gskip t"
  using gch_pos [of t] by (simp add: gskip_def)

lemma gsem_simps:
  "gsem [] t \<longleftrightarrow> t = []"
  "gsem (GLit c # ts) t \<longleftrightarrow> t \<noteq> [] \<and> hd t = c \<and> gsem ts (tl t)"
  "gsem (GAny # ts) t \<longleftrightarrow> t \<noteq> [] \<and> gsem ts (drop (gskip t) t)"
  "gsem (GSet P # ts) t \<longleftrightarrow> t \<noteq> [] \<and> P (snd (gch t)) \<and> gsem ts (drop (fst (gch t)) t)"
  "gsem (GStar # ts) t \<longleftrightarrow> gsem ts t \<or> t \<noteq> [] \<and> gsem (GStar # ts) (drop (gskip t) t)"
proof -
  show "gsem [] t \<longleftrightarrow> t = []" by (auto elim: gsem_NilE intro: gsem_Nil)
  show "gsem (GLit c # ts) t \<longleftrightarrow> t \<noteq> [] \<and> hd t = c \<and> gsem ts (tl t)"
    by (cases t) (auto elim: gsem_LitE intro: gsem_Lit)
  show "gsem (GAny # ts) t \<longleftrightarrow> t \<noteq> [] \<and> gsem ts (drop (gskip t) t)"
    by (auto elim: gsem_AnyE intro: gsem_Any)
  show "gsem (GSet P # ts) t \<longleftrightarrow> t \<noteq> [] \<and> P (snd (gch t)) \<and> gsem ts (drop (fst (gch t)) t)"
    by (auto elim: gsem_SetE intro: gsem_Set)
  show "gsem (GStar # ts) t \<longleftrightarrow> gsem ts t \<or> t \<noteq> [] \<and> gsem (GStar # ts) (drop (gskip t) t)"
    by (auto elim: gsem_StarE intro: gsem_Star gsem_Step)
qed

lemma gsem_star_all: "gsem [GStar] t"
proof (induction t rule: length_induct)
  case (1 t)
  show ?case
  proof (cases "t = []")
    case True
    then show ?thesis by (simp add: gsem_Star gsem_Nil)
  next
    case False
    then have "length (drop (gskip t) t) < length t" using gskip_pos [of t] by simp
    with 1 False show ?thesis by (auto intro: gsem_Step)
  qed
qed

text \<open>One step of the matcher, by the pattern's first element.\<close>

definition lit_elem :: "char \<Rightarrow> string \<Rightarrow> bool" where
  "lit_elem c r \<longleftrightarrow> c \<noteq> CHR ''*'' \<and> c \<noteq> CHR ''?'' \<and> c \<noteq> CHR ''['' \<and> (c = CHR 0x5C \<longrightarrow> r = [])"

lemma gmatch_steps:
  "gmatch (Suc f) [] t = Some (t = [])"
  "\<not> gstart (CHR ''*'' # r) \<Longrightarrow> gmatch (Suc f) (CHR ''*'' # r) t = (if r = [] then Some True else gstar f r t)"
  "\<not> gstart (CHR ''?'' # r) \<Longrightarrow> gmatch (Suc f) (CHR ''?'' # r) t =
     (if t = [] then Some False else gmatch f r (drop (gskip t) t))"
  "\<not> gstart p \<Longrightarrow> p = CHR ''['' # r \<Longrightarrow> snd (gbrk p 0) = None \<Longrightarrow>
     gmatch (Suc f) p t = (if t = [] \<or> at t 0 \<noteq> CHR ''['' then Some False else gmatch f r (drop 1 t))"
  "\<not> gstart p \<Longrightarrow> p = CHR ''['' # r \<Longrightarrow> snd (gbrk p 0) = Some q \<Longrightarrow>
     gmatch (Suc f) p t =
       (if t = [] \<or> \<not> fst (gbrk p (snd (gch t))) then Some False else gmatch f (drop 1 q) (drop (fst (gch t)) t))"
  "\<not> gstart (CHR 0x5C # d # r) \<Longrightarrow> gmatch (Suc f) (CHR 0x5C # d # r) t =
     (if t = [] \<or> d \<noteq> at t 0 then Some False else gmatch f r (drop 1 t))"
  "\<not> gstart (c # r) \<Longrightarrow> lit_elem c r \<Longrightarrow> gmatch (Suc f) (c # r) t =
     (if t = [] \<or> c \<noteq> at t 0 then Some False else gmatch f r (drop 1 t))"
proof -
  show "gmatch (Suc f) p t = (if t = [] \<or> at t 0 \<noteq> CHR ''['' then Some False else gmatch f r (drop 1 t))"
    if "\<not> gstart p" "p = CHR ''['' # r" "snd (gbrk p 0) = None"
  proof -
    have "snd (gbrk p (snd (gch t))) = None" using gbrk_end [of p "snd (gch t)" 0] that(3) by simp
    with that(1,2) show ?thesis
      by (simp add: gmatch.simps(2) case_prod_unfold Let_def)
  qed
  show "gmatch (Suc f) p t =
      (if t = [] \<or> \<not> fst (gbrk p (snd (gch t))) then Some False else gmatch f (drop 1 q) (drop (fst (gch t)) t))"
    if "\<not> gstart p" "p = CHR ''['' # r" "snd (gbrk p 0) = Some q"
  proof -
    have "snd (gbrk p (snd (gch t))) = Some q" using gbrk_end [of p "snd (gch t)" 0] that(3) by simp
    with that(1,2) show ?thesis
      by (simp add: gmatch.simps(2) case_prod_unfold Let_def)
  qed
  show "gmatch (Suc f) (c # r) t = (if t = [] \<or> c \<noteq> at t 0 then Some False else gmatch f r (drop 1 t))"
    if "\<not> gstart (c # r)" "lit_elem c r"
    using that by (cases "c = CHR 0x5C") (simp_all add: gmatch.simps(2) lit_elem_def)
qed (simp_all add: gmatch.simps(2))

lemma gtoks_steps:
  "gtoks [] = Some []"
  "gstart p \<Longrightarrow> p \<noteq> [] \<Longrightarrow> gtoks p = None"
  "\<not> gstart (CHR ''*'' # r) \<Longrightarrow> gtoks (CHR ''*'' # r) = map_option (Cons GStar) (gtoks r)"
  "\<not> gstart (CHR ''?'' # r) \<Longrightarrow> gtoks (CHR ''?'' # r) = map_option (Cons GAny) (gtoks r)"
  "\<not> gstart p \<Longrightarrow> p = CHR ''['' # r \<Longrightarrow> snd (gbrk p 0) = None \<Longrightarrow> gtoks p = map_option (Cons (GLit (CHR ''[''))) (gtoks r)"
  "\<not> gstart p \<Longrightarrow> p = CHR ''['' # r \<Longrightarrow> snd (gbrk p 0) = Some q \<Longrightarrow>
     gtoks p = map_option (Cons (GSet (\<lambda>x. fst (gbrk p x)))) (gtoks (drop 1 q))"
  "\<not> gstart (CHR 0x5C # d # r) \<Longrightarrow> gtoks (CHR 0x5C # d # r) = map_option (Cons (GLit d)) (gtoks r)"
  "\<not> gstart (c # r) \<Longrightarrow> lit_elem c r \<Longrightarrow> gtoks (c # r) = map_option (Cons (GLit c)) (gtoks r)"
  subgoal by (simp add: gtoks.simps)
  subgoal by (subst gtoks.simps) (auto split: list.split)
  subgoal by (subst gtoks.simps) simp
  subgoal by (subst gtoks.simps) simp
  subgoal by (subst gtoks.simps) simp
  subgoal by (subst gtoks.simps) simp
  subgoal by (subst gtoks.simps) simp
  subgoal by (subst gtoks.simps) (auto simp: lit_elem_def)
  done

text \<open>A pattern's first element.\<close>

lemma gpat_cases:
  obtains (Nil) "p = []" | (Group) "p \<noteq> []" "gstart p" | (Star) r where "p = CHR ''*'' # r" "\<not> gstart p"
  | (Any) r where "p = CHR ''?'' # r" "\<not> gstart p"
  | (Open) r where "p = CHR ''['' # r" "\<not> gstart p" "snd (gbrk p 0) = None"
  | (Brk) r q where "p = CHR ''['' # r" "\<not> gstart p" "snd (gbrk p 0) = Some q"
  | (Esc) d r where "p = CHR 0x5C # d # r" "\<not> gstart p" | (Lit) c r where "p = c # r" "\<not> gstart p" "lit_elem c r"
proof (cases "p = [] \<or> gstart p")
  case True
  then show ?thesis using Nil Group by blast
next
  case False
  then obtain c r where p: "p = c # r" "\<not> gstart p" by (cases p) auto
  consider "c = CHR ''*''" | "c = CHR ''?''" | "c = CHR ''[''" | "c = CHR 0x5C" "r \<noteq> []" | "lit_elem c r"
    by (auto simp: lit_elem_def)
  then show ?thesis
  proof cases
    case 3
    then show ?thesis using p Open Brk by (cases "snd (gbrk p 0)") blast+
  next
    case 4
    then show ?thesis using p Esc by (cases r) blast+
  qed (use p Star Any Lit in blast)+
qed
text \<open>The matcher decides it, with fuel for the pattern twice and the text once.\<close>

lemma gmatch_gsem:
  "(gtoks p = Some ts \<longrightarrow> 2 * length p + length t + 1 \<le> f \<longrightarrow> gmatch f p t = Some (gsem ts t)) \<and>
   (gtoks p = Some ts \<longrightarrow> 2 * length p + length t + 2 \<le> f \<longrightarrow> gstar f p t = Some (gsem (GStar # ts) t))"
proof (induction f arbitrary: p t ts)
  case (Suc f)
  note IHm = Suc.IH [THEN conjunct1, rule_format] and IHs = Suc.IH [THEN conjunct2, rule_format]
  have "gstar (Suc f) p t = Some (gsem (GStar # ts) t)" if ts: "gtoks p = Some ts" and f: "2 * length p + length t + 1 \<le> f"
  proof (cases "t = []")
    case True
    with IHm [OF ts, of "[]"] f show ?thesis unfolding gsem_simps(5) [of ts t] by (simp add: gstar.simps(2))
  next
    case False
    then have l: "length (drop (gskip t) t) < length t" using gskip_pos [of t] by simp
    have "gmatch f p t = Some (gsem ts t)" using IHm [OF ts, of t] f by simp
    moreover have "gstar f p (drop (gskip t) t) = Some (gsem (GStar # ts) (drop (gskip t) t))"
      using l f by (intro IHs [OF ts]) linarith
    ultimately show ?thesis using False unfolding gstar.simps(2) gsem_simps(5) [of ts t] by (simp add: gor_def)
  qed
  moreover have "gmatch (Suc f) p t = Some (gsem ts t)" if ts: "gtoks p = Some ts" and f: "2 * length p + length t \<le> f"
  proof (cases p rule: gpat_cases)
    case Nil
    with ts show ?thesis by (auto simp: gmatch_steps gtoks_steps gsem_simps(1-4))
  next
    case Group
    with ts show ?thesis by (simp add: gtoks_steps)
  next
    case (Star r)
    then obtain us where us: "gtoks r = Some us" "ts = GStar # us" using ts by (auto simp: gtoks_steps)
    show ?thesis
    proof (cases "r = []")
      case True
      then have "us = []" using us by (simp add: gtoks_steps)
      with True us Star show ?thesis by (simp add: gmatch_steps gsem_star_all)
    next
      case False
      with IHs [OF us(1), of t] f us Star show ?thesis by (simp add: gmatch_steps)
    qed
  next
    case (Any r)
    then obtain us where us: "gtoks r = Some us" "ts = GAny # us" using ts by (auto simp: gtoks_steps)
    then show ?thesis using IHm [OF us(1), of "drop (gskip t) t"] f Any by (simp add: gmatch_steps gsem_simps(1-4))
  next
    case (Open r)
    then obtain us where us: "gtoks r = Some us" "ts = GLit (CHR ''['') # us" using ts by (auto simp: gtoks_steps(5))
    show ?thesis unfolding gmatch_steps(4) [OF Open(2,1,3)] us(2)
      using IHm [OF us(1), of "drop 1 t"] f Open(1) by (cases t) (auto simp: gsem_simps(1-4))
  next
    case (Brk r q)
    then obtain us where us: "gtoks (drop 1 q) = Some us" "ts = GSet (\<lambda>x. fst (gbrk p x)) # us"
      using ts by (auto simp: gtoks_steps(6))
    have "length q < length p" using Brk(3) by (rule gbrk_len)
    then have "gmatch f (drop 1 q) (drop (fst (gch t)) t) = Some (gsem us (drop (fst (gch t)) t))"
      using IHm [OF us(1), of "drop (fst (gch t)) t"] f by simp
    then show ?thesis unfolding gmatch_steps(5) [OF Brk(2,1,3)] us(2) by (simp add: gsem_simps(1-4))
  next
    case (Esc d r)
    then obtain us where us: "gtoks r = Some us" "ts = GLit d # us" using ts by (auto simp: gtoks_steps)
    then show ?thesis using IHm [OF us(1), of "drop 1 t"] f Esc by (cases t) (auto simp: gmatch_steps gsem_simps(1-4))
  next
    case (Lit c r)
    then obtain us where us: "gtoks r = Some us" "ts = GLit c # us" using ts by (auto simp: gtoks_steps)
    then show ?thesis using IHm [OF us(1), of "drop 1 t"] f Lit by (cases t) (auto simp: gmatch_steps gsem_simps(1-4))
  qed
  ultimately show ?case by simp
qed simp

lemma gmatch_plain: "gtoks p = Some ts \<Longrightarrow> 2 * length p + length t + 1 \<le> f \<Longrightarrow> gmatch f p t = Some (gsem ts t)"
  using gmatch_gsem [of p ts t f] by simp

subsection \<open>Patterns over characters\<close>

text \<open>The same elements over code points: a literal is a whole character.\<close>

datatype ctok = CLit nat | CAny | CStar | CSet "nat \<Rightarrow> bool"

fun ctok_bytes :: "ctok \<Rightarrow> gtok list" where
  "ctok_bytes (CLit c) = map GLit (u8put c)"
| "ctok_bytes CAny = [GAny]"
| "ctok_bytes CStar = [GStar]"
| "ctok_bytes (CSet P) = [GSet P]"

text \<open>The texts a pattern describes.\<close>

fun clang :: "ctok list \<Rightarrow> nat list set" where
  "clang [] = {[]}"
| "clang (CLit c # ts) = {c # w | w. w \<in> clang ts}"
| "clang (CAny # ts) = {x # w | x w. w \<in> clang ts}"
| "clang (CStar # ts) = {u @ w | u w. w \<in> clang ts}"
| "clang (CSet P # ts) = {x # w | x w. P x \<and> w \<in> clang ts}"

abbreviation chars_ok :: "nat list \<Rightarrow> bool" where
  "chars_ok cs \<equiv> \<forall>c \<in> set cs. c < 0x200000"

lemma u8put_len4: "length (u8put c) \<le> 4"
  by (simp add: u8put_def)

lemma gch_u8put: "c < 0x200000 \<Longrightarrow> gch (u8put c @ rest) = (length (u8put c), c)"
proof (cases "c < 0x80")
  case True
  then show ?thesis by (simp add: gch_def u8put_def)
next
  case False
  assume c: "c < 0x200000"
  then have d: "u8dec (u8put c @ rest) 4 = (length (u8put c), c)" using u8dec_u8put u8put_len4 by simp
  have "\<not> byte (at (u8put c @ rest) 0) < 0x80"
  proof
    assume "byte (at (u8put c @ rest) 0) < 0x80"
    then have "u8dec (u8put c @ rest) 4 = (1, byte (at (u8put c @ rest) 0))"
      using u8put_ne [of c] u8dec_ascii by (cases "u8put c") auto
    with d \<open>byte (at (u8put c @ rest) 0) < 0x80\<close> False show False by simp
  qed
  with d show ?thesis by (simp add: gch_def)
qed

lemma gskip_u8put: "c < 0x200000 \<Longrightarrow> gskip (u8put c @ rest) = length (u8put c)"
  using gch_u8put [of c rest] u8put_ne [of c] by (auto simp: gskip_def gch_def split: if_splits)

lemma u8enc_split:
  assumes "chars_ok cs" "c < 0x200000" "u8enc cs = u8put c @ t"
  obtains ds where "cs = c # ds" "t = u8enc ds"
proof (cases cs)
  case Nil
  then show ?thesis using assms u8put_ne [of c] by simp
next
  case (Cons d ds)
  then have e: "u8put d @ u8enc ds = u8put c @ t" using assms(3) by simp
  have "d < 0x200000" using assms(1) Cons by simp
  then have "snd (gch (u8put d @ u8enc ds)) = d" "snd (gch (u8put c @ t)) = c"
    using assms(2) by (simp_all add: gch_u8put)
  with e have "d = c" by metis
  with e Cons that show ?thesis by simp
qed

lemma gsem_lits: "gsem (map GLit bs @ ts) t \<longleftrightarrow> (\<exists>t'. t = bs @ t' \<and> gsem ts t')"
proof (induction bs arbitrary: t)
  case (Cons b bs)
  then show ?case by (cases t) (auto simp: gsem_simps(1-4))
qed simp

lemma gsem_enc_step:
  assumes "chars_ok cs"
  shows "u8enc cs \<noteq> [] \<longleftrightarrow> cs \<noteq> []"
    and "cs \<noteq> [] \<Longrightarrow> drop (gskip (u8enc cs)) (u8enc cs) = u8enc (tl cs)"
    and "cs \<noteq> [] \<Longrightarrow> drop (fst (gch (u8enc cs))) (u8enc cs) = u8enc (tl cs)"
    and "cs \<noteq> [] \<Longrightarrow> snd (gch (u8enc cs)) = hd cs"
  using assms u8put_ne by (cases cs; auto simp: gskip_u8put gch_u8put)+

lemma ex_split: "(\<exists>u w. c # cs = u @ w \<and> P w) \<longleftrightarrow> P (c # cs) \<or> (\<exists>u w. cs = u @ w \<and> P w)"
proof
  assume "\<exists>u w. c # cs = u @ w \<and> P w"
  then show "P (c # cs) \<or> (\<exists>u w. cs = u @ w \<and> P w)" by (auto simp: Cons_eq_append_conv)
next
  assume "P (c # cs) \<or> (\<exists>u w. cs = u @ w \<and> P w)"
  then show "\<exists>u w. c # cs = u @ w \<and> P w" by (metis append_Cons append_Nil)
qed

lemma gsem_star_enc: "chars_ok cs \<Longrightarrow> gsem (GStar # ts) (u8enc cs) \<longleftrightarrow> (\<exists>u w. cs = u @ w \<and> gsem ts (u8enc w))"
proof (induction cs)
  case Nil
  then show ?case by (subst gsem_simps(5)) simp
next
  case (Cons c cs)
  have "gsem (GStar # ts) (u8enc (c # cs)) \<longleftrightarrow> gsem ts (u8enc (c # cs)) \<or> gsem (GStar # ts) (u8enc cs)"
    using gsem_enc_step(1,2) [OF Cons.prems] by (subst gsem_simps(5)) simp
  also have "\<dots> \<longleftrightarrow> gsem ts (u8enc (c # cs)) \<or> (\<exists>u w. cs = u @ w \<and> gsem ts (u8enc w))"
    using Cons by simp
  also have "\<dots> \<longleftrightarrow> (\<exists>u w. c # cs = u @ w \<and> gsem ts (u8enc w))"
    by (rule ex_split [symmetric])
  finally show ?case .
qed

lemma gsem_clang:
  "chars_ok cs \<Longrightarrow> \<forall>c. CLit c \<in> set ts \<longrightarrow> c < 0x200000 \<Longrightarrow>
    gsem (concat (map ctok_bytes ts)) (u8enc cs) \<longleftrightarrow> cs \<in> clang ts"
proof (induction ts arbitrary: cs)
  case Nil
  then show ?case using gsem_enc_step(1) [of cs] by (auto simp: gsem_simps(1-4))
next
  case (Cons t ts)
  have IH: "chars_ok ds \<Longrightarrow> gsem (concat (map ctok_bytes ts)) (u8enc ds) \<longleftrightarrow> ds \<in> clang ts" for ds
    using Cons by simp
  show ?case
  proof (cases t)
    case (CLit c)
    then have c: "c < 0x200000" using Cons.prems(2) by simp
    have "gsem (map GLit (u8put c) @ concat (map ctok_bytes ts)) (u8enc cs) \<longleftrightarrow> (\<exists>w. cs = c # w \<and> w \<in> clang ts)"
      unfolding gsem_lits
    proof (intro iffI; elim exE conjE)
      fix t' assume "u8enc cs = u8put c @ t'" and g: "gsem (concat (map ctok_bytes ts)) t'"
      then obtain ds where "cs = c # ds" "t' = u8enc ds" using u8enc_split [OF Cons.prems(1) c] by blast
      with g IH [of ds] Cons.prems(1) show "\<exists>w. cs = c # w \<and> w \<in> clang ts" by simp
    next
      fix w assume w: "cs = c # w" "w \<in> clang ts"
      with IH [of w] Cons.prems(1) show "\<exists>t'. u8enc cs = u8put c @ t' \<and> gsem (concat (map ctok_bytes ts)) t'"
        by auto
    qed
    with CLit show ?thesis by simp
  next
    case CAny
    then show ?thesis using gsem_enc_step [OF Cons.prems(1)] IH [of "tl cs"] Cons.prems(1)
      by (cases cs) (auto simp: gsem_simps(1-4))
  next
    case CStar
    have "gsem (GStar # concat (map ctok_bytes ts)) (u8enc cs) \<longleftrightarrow> (\<exists>u w. cs = u @ w \<and> w \<in> clang ts)"
      unfolding gsem_star_enc [OF Cons.prems(1)] using IH Cons.prems(1) by (intro ex_cong1 conj_cong) auto
    with CStar show ?thesis by simp
  next
    case (CSet P)
    then show ?thesis using gsem_enc_step [OF Cons.prems(1)] IH [of "tl cs"] Cons.prems(1)
      by (cases cs) (auto simp: gsem_simps(1-4))
  qed
qed
subsection \<open>A pattern that is matched for ever\<close>

text \<open>\<open>gneg\<close> tries the rest of the pattern before it looks at what \<open>!(\<close> may stand for. In a repeated
  group whose alternatives all need a character, the rest holds the group again, and it is tried on
  the same text.\<close>

abbreviation loop_pat :: string where
  "loop_pat \<equiv> ''*(!())y''"

lemma loop_eval:
  "gclose ''!())y'' 1 = Some 3" "gclose '')'' 1 = Some 0" "gclose '')*(!())y'' 1 = Some 0" "galts ''!()'' = [''!()'']" "galts [] = [[]]"
  "gbounds ''x'' = [0, 1]" "gbounds [] = [0]"
  by (simp_all add: galts.simps gbounds_def u8cont_iff)

lemma loop_step:
  assumes "gmatch f loop_pat ''x'' = None"
  shows "gmatch (Suc (Suc (Suc (Suc f)))) loop_pat ''x'' = None"
proof -
  have e: "gmatch (Suc (Suc f)) ''!()'' [] = None \<or> gmatch (Suc (Suc f)) ''!()'' [] = Some False"
    by (cases f) (simp_all add: gmatch.simps(2) gext.simps(2) gstart_def gops_def loop_eval gand_def gor_def)
  have y: "gmatch (Suc (Suc f)) ''y'' ''x'' = Some False"
    by (simp add: gmatch.simps(2) gstart_def gops_def)
  have "gmatch (Suc (Suc f)) (''!()'' @ gunroll ''!()'' @ ''y'') ''x'' = None"
    using assms by (simp add: gmatch.simps(2) gext.simps(2) gstart_def gops_def loop_eval gunroll_def gand_def gor_def)
  then show ?thesis
    using e y unfolding gmatch.simps(2) [of "Suc (Suc (Suc f))"] gext.simps(2) [of "Suc (Suc f)"]
    by (auto simp: gstart_def gops_def loop_eval gor_def gif_def)
qed

lemma loop_all: "gmatch (4 * k) loop_pat ''x'' = None"
proof (induction k)
  case (Suc k)
  from loop_step [OF Suc] show ?case by (simp add: numeral_eq_Suc)
qed simp

subsection \<open>Properties\<close>

text \<open>C27: on a pattern with no extended group the matcher always returns, with fuel for the pattern twice
  and the text once, and decides the relation of the pattern's elements; on encoded text that is
  membership in the pattern's language over whole characters.\<close>

theorem glob_plain:
  assumes p: "gtoks p = Some (concat (map ctok_bytes ts))" and l: "\<forall>c. CLit c \<in> set ts \<longrightarrow> c < 0x200000"
    and f: "2 * length p + length t + 1 \<le> f"
  shows "gmatch f p t = Some (gsem (concat (map ctok_bytes ts)) t) \<and>
    (\<forall>cs. chars_ok cs \<and> t = u8enc cs \<longrightarrow> gmatch f p t = Some (cs \<in> clang ts))"
  using gmatch_plain [OF p f] gsem_clang [OF _ l] by auto

theorem glob_plain_witness: "gmatch 40 ''a?*'' (u8enc [97, 0xE9, 0x4E2D]) = Some True"
proof -
  have "chr 97 = CHR ''a''" by code_simp
  then have p: "gtoks ''a?*'' = Some (concat (map ctok_bytes [CLit 97, CAny, CStar]))"
    by (simp add: gtoks_steps gstart_def gops_def lit_elem_def u8put_def)
  have "length (u8enc [97, 0xE9, 0x4E2D]) \<le> 12"
    using u8put_len4 [of 97] u8put_len4 [of "0xE9"] u8put_len4 [of "0x4E2D"] by simp
  then have "gmatch 40 ''a?*'' (u8enc [97, 0xE9, 0x4E2D]) = Some ([97, 0xE9, 0x4E2D] \<in> clang [CLit 97, CAny, CStar])"
    by (intro glob_plain [OF p, THEN conjunct2, rule_format]) simp_all
  then show ?thesis by simp
qed

text \<open>C29: matching does not end on every pattern: no fuel suffices for a repeated group of which an
  alternative is an \<open>!(\<close> group that refuses the empty text.\<close>

theorem gmatch_diverges: "gmatch f ''*(!())y'' ''x'' = None"
proof (rule ccontr)
  assume "gmatch f ''*(!())y'' ''x'' \<noteq> None"
  then obtain b where "gmatch f ''*(!())y'' ''x'' = Some b" by blast
  then have "gmatch (4 * f) ''*(!())y'' ''x'' = Some b" by (rule gmatch_more) simp
  then show False using loop_all [of f] by simp
qed

end
