(* ===== verification/Subst.thy ===== *)
theory Subst
  imports Glob
begin

text \<open>
  What src/expand.c and src/text.c do with a pattern: strip a matching prefix or suffix, replace
  matches, change the case of the characters that match, and tell whether a path segment is a
  pattern at all. Each takes the fuel of its matches, and \<open>None\<close> is a match that needs more. The
  shortcuts taken before any match is tried (a pattern of one length, a first or last byte, the
  pattern starred at its ends) are modelled as written; \<open>xtrim_reference\<close> shows that they
  change no answer.
\<close>

subsection \<open>Shortcuts\<close>

text \<open>The number of characters a pattern always takes, or -1.\<close>

function glen_loop :: "string \<Rightarrow> int \<Rightarrow> int" where
  "glen_loop p n =
    (if p = [] then n
     else if at p 0 = CHR ''*'' \<or> gstart p then -1
     else if at p 0 = CHR ''['' then
       (case snd (gbrk p 0) of Some q \<Rightarrow> glen_loop (drop 1 q) (n + 1) | None \<Rightarrow> glen_loop (drop 1 p) (n + 1))
     else
       (let p' = (if at p 0 = CHR 0x5C \<and> at p 1 \<noteq> NUL then drop 1 p else p)
        in glen_loop (drop (fst (gch p')) p') (n + 1)))"
  by pat_completeness auto
termination
  by (relation "measure (\<lambda>(p, n). length p)") (use gch_pos in \<open>auto dest: gbrk_len simp: Let_def\<close>)

declare glen_loop.simps [simp del]

definition glen :: "string \<Rightarrow> int" where
  "glen p = glen_loop p 0"

fun gfw :: "string \<Rightarrow> nat \<Rightarrow> nat \<Rightarrow> nat option" where
  "gfw w i 0 = (if i \<le> length w then Some i else None)"
| "gfw w i (Suc k) = (if i \<ge> length w then None else gfw w (i + fst (gch (drop i w))) k)"

text \<open>One character back from \<open>i\<close>.\<close>

fun gback :: "string \<Rightarrow> nat \<Rightarrow> nat" where
  "gback w 0 = 0"
| "gback w (Suc i) = (if i > 0 \<and> u8cont (at w i) then gback w i else i)"

fun gbk_loop :: "string \<Rightarrow> nat \<Rightarrow> nat \<Rightarrow> nat option" where
  "gbk_loop w i 0 = Some (length w - i)"
| "gbk_loop w i (Suc k) = (if i = 0 then None else gbk_loop w (gback w i) k)"

definition gbk :: "string \<Rightarrow> nat \<Rightarrow> nat option" where
  "gbk w k = gbk_loop w (length w) k"

definition gat :: "string \<Rightarrow> nat \<Rightarrow> bool" where
  "gat w i \<longleftrightarrow> i \<ge> length w \<or> \<not> u8cont (at w i)"

definition gfirst :: "string \<Rightarrow> char option" where
  "gfirst p =
    (if p = [] \<or> at p 0 \<in> {CHR ''*'', CHR ''?'', CHR ''[''} \<or> at p 1 = CHR ''('' \<and> at p 0 \<in> {CHR ''+'', CHR ''@'', CHR ''!''}
     then None
     else if at p 0 = CHR 0x5C \<and> at p 1 \<noteq> NUL then Some (at p 1) else Some (at p 0))"

text \<open>How many backslashes end a text.\<close>

definition bs_run :: "string \<Rightarrow> nat" where
  "bs_run p = length (takeWhile (\<lambda>c. c = CHR 0x5C) (rev p))"

definition glast :: "string \<Rightarrow> char option" where
  "glast p =
    (if p = [] then None
     else if odd (bs_run (butlast p)) then Some (last p)
     else if last p \<in> {CHR ''*'', CHR ''?'', CHR '']'', CHR '')'', CHR 0x5C} then None
     else Some (last p))"

definition gwrap :: "string \<Rightarrow> bool \<Rightarrow> bool \<Rightarrow> string option" where
  "gwrap pat pre post =
    (if pre \<and> at pat 0 = CHR ''('' then None
     else if post \<and> odd (bs_run pat) then None
     else Some ((if pre then ''*'' else []) @ pat @ (if post then ''*'' else [])))"

definition gcut :: "nat \<Rightarrow> string \<Rightarrow> string \<Rightarrow> nat \<Rightarrow> nat \<Rightarrow> bool option" where
  "gcut fu pat w a b = gmatch fu pat (drop a (take b w))"

text \<open>The first of a list that passes a test.\<close>

fun gfind :: "('a \<Rightarrow> bool option) \<Rightarrow> 'a list \<Rightarrow> 'a option option" where
  "gfind F [] = Some None"
| "gfind F (x # xs) = (case F x of None \<Rightarrow> None | Some b \<Rightarrow> if b then Some (Some x) else gfind F xs)"

subsection \<open>Stripping a prefix or a suffix\<close>

abbreviation (input) V_RS :: nat where "V_RS \<equiv> 6"
abbreviation (input) V_RL :: nat where "V_RL \<equiv> 7"
abbreviation (input) V_SS :: nat where "V_SS \<equiv> 8"
abbreviation (input) V_SL :: nat where "V_SL \<equiv> 9"

definition trim_cands :: "string \<Rightarrow> string \<Rightarrow> bool \<Rightarrow> bool \<Rightarrow> nat list" where
  "trim_cands v pat pre lng =
    (let n = length v; len = glen pat; lit = (if len < 0 then (if pre then glast pat else gfirst pat) else None) in
     if len \<ge> 0 then
       (case (if pre then gfw v 0 (nat len) else gbk v (nat len)) of None \<Rightarrow> [] | Some i \<Rightarrow> [i])
     else
       filter (\<lambda>i. (case lit of None \<Rightarrow> True | Some c \<Rightarrow> i \<noteq> 0 \<and> at v (if pre then i - 1 else n - i) = c) \<and>
                   gat v (if pre then i else n - i))
         (if lng then rev [0..<n + 1] else [0..<n + 1]))"

definition xtrim :: "nat \<Rightarrow> string \<Rightarrow> string \<Rightarrow> nat \<Rightarrow> string option" where
  "xtrim fu v pat op =
    (let n = length v; len = glen pat; pre = (op = V_RS \<or> op = V_RL); lng = (op = V_RL \<or> op = V_SL);
         any = (if len < 0 then gwrap pat (\<not> pre) pre else None) in
     if n = 0 \<or> len \<ge> 0 \<and> nat len > n then Some v
     else
       (case (case any of None \<Rightarrow> Some True | Some a \<Rightarrow> gmatch fu a v) of
          None \<Rightarrow> None
        | Some False \<Rightarrow> Some v
        | Some True \<Rightarrow>
            (case gfind (\<lambda>i. if pre then gcut fu pat v 0 i else gmatch fu pat (drop (n - i) v)) (trim_cands v pat pre lng) of
               None \<Rightarrow> None
             | Some None \<Rightarrow> Some v
             | Some (Some i) \<Rightarrow> Some (if pre then drop i v else take (n - i) v))))"

subsection \<open>Replacing\<close>

text \<open>A replacement: with a mask, an unquoted \<open>&\<close> is the text matched.\<close>

fun xrepcat_mk :: "string \<Rightarrow> bool list \<Rightarrow> string \<Rightarrow> string" where
  "xrepcat_mk [] mk m = []"
| "xrepcat_mk (c # r) mk m =
    (let q = (mk \<noteq> [] \<and> hd mk) in
     if c = CHR ''&'' \<and> \<not> q then m @ xrepcat_mk r (drop 1 mk) m
     else if c = CHR 0x5C \<and> \<not> q \<and> at r 0 = CHR ''&'' then CHR ''&'' # xrepcat_mk (drop 1 r) (drop 2 mk) m
     else c # xrepcat_mk r (drop 1 mk) m)"

definition xrepcat :: "string \<Rightarrow> bool list option \<Rightarrow> string \<Rightarrow> string" where
  "xrepcat rep mk m = (case mk of None \<Rightarrow> rep | Some b \<Rightarrow> xrepcat_mk rep b m)"

text \<open>The leftmost longest match at or after \<open>p\<close>.\<close>

function xfind_loop :: "nat \<Rightarrow> string \<Rightarrow> string \<Rightarrow> int \<Rightarrow> nat \<Rightarrow> (nat \<times> nat) option option" where
  "xfind_loop fu w pat len p =
    (if p > length w then Some None
     else
       (case (case gfirst pat of
                None \<Rightarrow> Some p
              | Some c \<Rightarrow> if p \<ge> length w then None else map_option (\<lambda>i. p + i) (strchr (drop p w) c)) of
          None \<Rightarrow> Some None
        | Some p \<Rightarrow>
            (let nx = (if p < length w then p + fst (gch (drop p w)) else length w + 1) in
             if len \<ge> 0 then
               (case gfw w p (nat len) of
                  None \<Rightarrow> Some None
                | Some e \<Rightarrow>
                    (case gcut fu pat w p e of
                       None \<Rightarrow> None
                     | Some b \<Rightarrow> if b then Some (Some (p, e)) else xfind_loop fu w pat len nx))
             else
               (case gfind (\<lambda>e. gcut fu pat w p e) (filter (gat w) (rev [p..<length w + 1])) of
                  None \<Rightarrow> None
                | Some (Some e) \<Rightarrow> Some (Some (p, e))
                | Some None \<Rightarrow> xfind_loop fu w pat len nx))))"
  by pat_completeness auto
termination
proof (relation "measure (\<lambda>(fu, w, pat, len, p). length w + 1 - p)", goal_cases)
  case (2 fu w pat len p p' nx e b)
  then have "p \<le> p'" by (auto split: option.splits if_splits)
  then show ?case using 2 gch_pos [of "drop p' w"] by auto
next
  case (3 fu w pat len p p' nx x)
  then have "p \<le> p'" by (auto split: option.splits if_splits)
  then show ?case using 3 gch_pos [of "drop p' w"] by auto
qed simp

declare xfind_loop.simps [simp del]

definition xfind :: "nat \<Rightarrow> string \<Rightarrow> nat \<Rightarrow> string \<Rightarrow> int \<Rightarrow> string option \<Rightarrow> (nat \<times> nat) option option" where
  "xfind fu w i pat len any =
    (case (case any of None \<Rightarrow> Some True | Some a \<Rightarrow> gmatch fu a (drop i w)) of
       None \<Rightarrow> None
     | Some b \<Rightarrow> if b then xfind_loop fu w pat len i else Some None)"

fun xrepl_loop :: "nat \<Rightarrow> nat \<Rightarrow> string \<Rightarrow> string \<Rightarrow> string \<Rightarrow> bool list option \<Rightarrow> bool \<Rightarrow> nat \<Rightarrow> string option" where
  "xrepl_loop 0 fu v pat rep mk all i = None"
| "xrepl_loop (Suc k) fu v pat rep mk all i =
    (if i \<ge> length v then Some (drop i v)
     else
       (let len = glen pat; any = (if len < 0 then gwrap pat True True else None) in
        case xfind fu v i pat len any of
          None \<Rightarrow> None
        | Some None \<Rightarrow> Some (drop i v)
        | Some (Some (ms, me)) \<Rightarrow>
            let step = (if me = ms \<and> me < length v then Suc (length (takeWhile u8cont (drop (me + 1) v))) else 0);
                o1 = take (ms - i) (drop i v) @ xrepcat rep mk (take (me - ms) (drop ms v)) @ take step (drop me v)
            in if all then map_option (append o1) (xrepl_loop k fu v pat rep mk all (me + step))
               else Some (o1 @ drop (me + step) v)))"

definition xrepl :: "nat \<Rightarrow> string \<Rightarrow> string \<Rightarrow> string \<Rightarrow> bool list option \<Rightarrow> bool \<Rightarrow> string option" where
  "xrepl fu v pat rep mk all =
    (if pat = [] then Some v
     else if v = [] then
       (case gmatch fu pat [] of None \<Rightarrow> None | Some b \<Rightarrow> Some (if b then xrepcat rep mk [] else []))
     else xrepl_loop (length v + 1) fu v pat rep mk all 0)"

text \<open>A match anchored at the start of the value, or at its end.\<close>

definition xrepl_a :: "nat \<Rightarrow> string \<Rightarrow> string \<Rightarrow> string \<Rightarrow> bool list option \<Rightarrow> bool \<Rightarrow> string option" where
  "xrepl_a fu v pat rep mk atend =
    (let n = length v; len = glen pat; any = (if len < 0 then gwrap pat atend (\<not> atend) else None) in
     if n = 0 then
       (case gmatch fu pat [] of None \<Rightarrow> None | Some b \<Rightarrow> Some (if b then xrepcat rep mk [] else []))
     else if len \<ge> 0 \<and> nat len > n then Some v
     else
       (case (case any of None \<Rightarrow> Some True | Some a \<Rightarrow> gmatch fu a v) of
          None \<Rightarrow> None
        | Some False \<Rightarrow> Some v
        | Some True \<Rightarrow>
            (let cands =
                   (if len \<ge> 0 then
                      (case (if atend then gbk v (nat len) else gfw v 0 (nat len)) of None \<Rightarrow> [] | Some i \<Rightarrow> [i])
                    else filter (\<lambda>i. gat v (if atend then n - i else i)) (rev [0..<n + 1]))
             in case gfind (\<lambda>i. if atend then gmatch fu pat (drop (n - i) v) else gcut fu pat v 0 i) cands of
                  None \<Rightarrow> None
                | Some None \<Rightarrow> Some v
                | Some (Some i) \<Rightarrow>
                    Some (if atend then take (n - i) v @ xrepcat rep mk (drop (n - i) v)
                          else xrepcat rep mk (take i v) @ drop i v))))"

subsection \<open>Case, and what is a pattern\<close>

text \<open>The case of each character the pattern matches, or of the first alone.\<close>

function u8casep :: "nat \<Rightarrow> string \<Rightarrow> bool \<Rightarrow> bool \<Rightarrow> string \<Rightarrow> string option" where
  "u8casep fu v up first pat =
    (if v = [] then Some []
     else
       (let k = fst (u8dec v (length v)); c = snd (u8dec v (length v)) in
        case (if k = 1 \<and> byte (at v 0) \<ge> 0x80 then Some False else gmatch fu pat (take k v)) of
          None \<Rightarrow> None
        | Some b \<Rightarrow>
            (let o1 = (if b then u8put (u8case c up) else take k v)
             in if first then Some (o1 @ drop k v) else map_option (append o1) (u8casep fu (drop k v) up first pat))))"
  by pat_completeness auto
termination
proof (relation "measure (\<lambda>(fu, v, up, first, pat). length v)", goal_cases)
  case (2 fu v up first pat k c b o1)
  then show ?case using u8dec_len(1) [of v "length v"] by simp
qed simp

declare u8casep.simps [simp del]

text \<open>A path segment without its escapes, whether it holds a pattern, and the same for a field with its
  quoting mask.\<close>

fun gplain :: "string \<Rightarrow> string" where
  "gplain [] = []"
| "gplain [c] = [c]"
| "gplain (c # d # p) = (if c = CHR 0x5C then d # gplain p else c # gplain (d # p))"

fun gcloses :: "string \<Rightarrow> bool" where
  "gcloses [] = False"
| "gcloses (c # p) = (if c = CHR 0x5C then gcloses (drop 1 p) else if c = CHR '']'' then True else gcloses p)"

fun gmeta :: "string \<Rightarrow> bool" where
  "gmeta [] = False"
| "gmeta (c # p) =
    (if c = CHR 0x5C then gmeta (drop 1 p)
     else if c = CHR ''*'' \<or> c = CHR ''?'' then True
     else if (c = CHR ''@'' \<or> c = CHR ''!'' \<or> c = CHR ''+'') \<and> at p 0 = CHR ''('' then True
     else if c = CHR ''['' \<and> gcloses (drop 1 p) then True
     else gmeta p)"

fun xmeta :: "(char \<times> bool) list \<Rightarrow> bool" where
  "xmeta [] = False"
| "xmeta ((c, q) # p) =
    (if q then xmeta p
     else if c \<in> gops \<and> p \<noteq> [] \<and> hd p = (CHR ''('', False) then True
     else if c = CHR ''*'' \<or> c = CHR ''?'' then True
     else if c = CHR ''['' \<and> (CHR '']'', False) \<in> set (drop 1 p) then True
     else xmeta p)"

text \<open>A dotfile is only for a pattern that spells its dot; 33 levels of groups are looked into.\<close>

fun gdotn :: "nat \<Rightarrow> nat \<Rightarrow> string \<Rightarrow> string \<Rightarrow> bool option" where
  "gdotn 0 fu p t = Some False"
| "gdotn (Suc dep) fu p t =
    (if at p 0 = CHR ''.'' \<or> at p 0 = CHR 0x5C \<and> at p 1 = CHR ''.'' then gmatch fu p t
     else if at p 1 \<noteq> CHR ''('' \<or> at p 0 \<notin> {CHR ''?'', CHR ''*'', CHR ''+'', CHR ''@''} then Some False
     else
       (case gclose (drop 2 p) 1 of
          None \<Rightarrow> Some False
        | Some k \<Rightarrow>
            let op = at p 0; body = take k (drop 2 p); rest = drop (k + 3) p in
            gor (if op = CHR ''?'' \<or> op = CHR ''*'' then gdotn dep fu rest t else Some False)
              (gany (\<lambda>a. gdotn dep fu (a @ (if op = CHR ''*'' \<or> op = CHR ''+'' then gunroll body else []) @ rest) t)
                (filter (\<lambda>a. a \<noteq> []) (galts body)))))"

definition gdot :: "nat \<Rightarrow> string \<Rightarrow> string \<Rightarrow> bool option" where
  "gdot fu p t = gdotn 33 fu p t"

subsection \<open>ASCII patterns\<close>

definition ascii :: "string \<Rightarrow> bool" where
  "ascii p \<longleftrightarrow> (\<forall>c \<in> set p. byte c < 0x80 \<and> c \<noteq> NUL)"

lemma ascii_simps [simp]: "ascii []" "ascii (c # p) \<longleftrightarrow> byte c < 0x80 \<and> c \<noteq> NUL \<and> ascii p"
  by (auto simp: ascii_def)

lemma ascii_drop: "ascii p \<Longrightarrow> ascii (drop n p)"
  by (auto simp: ascii_def dest: in_set_dropD)

fun ctok_of :: "gtok \<Rightarrow> ctok" where
  "ctok_of (GLit c) = CLit (byte c)"
| "ctok_of GAny = CAny"
| "ctok_of GStar = CStar"
| "ctok_of (GSet P) = CSet P"

lemma gbrk_suffix: "snd (gbrk p c) = Some q \<Longrightarrow> \<exists>k. q = drop k p"
proof -
  have m: "\<exists>k. snd (gmember q) = drop k q" for q
    by (auto simp: gmember_def Let_def split: option.split)
  have "\<exists>k. snd (gbrk_loop c f h q) = drop k q" for f h q
  proof (induction c f h q rule: gbrk_loop.induct)
    case (1 c first hit q)
    show ?case
    proof (cases "q = [] \<or> at q 0 = CHR '']'' \<and> \<not> first")
      case True
      then show ?thesis by (auto simp: gbrk_loop.simps [of _ _ _ q] intro: exI [of _ 0])
    next
      case False
      with 1 obtain k where "snd (gbrk_loop c False (hit \<or> fst (gmember q) c) (snd (gmember q))) = drop k (snd (gmember q))"
        by blast
      moreover obtain l where "snd (gmember q) = drop l q" using m by blast
      ultimately show ?thesis using False by (subst gbrk_loop.simps) (auto intro: exI [of _ "k + l"])
    qed
  qed
  then show "snd (gbrk p c) = Some q \<Longrightarrow> \<exists>k. q = drop k p"
    by (auto simp: gbrk_def Let_def case_prod_unfold split: if_splits) (metis drop_drop)+
qed

lemma ascii_brk: "ascii p \<Longrightarrow> snd (gbrk p 0) = Some q \<Longrightarrow> ascii (drop 1 q)"
  using gbrk_suffix [of p 0 q] ascii_drop by auto

text \<open>What the elements of an ASCII pattern are, and how many characters they take.\<close>

lemma gtoks_ascii:
  "gtoks p = Some ts \<Longrightarrow> ascii p \<Longrightarrow>
    (\<forall>c. GLit c \<in> set ts \<longrightarrow> byte c < 0x80) \<and> glen_loop p n = (if GStar \<in> set ts then -1 else n + int (length ts))"
proof (induction "length p" arbitrary: p ts n rule: less_induct)
  case less
  have g1: "fst (gch (c # r)) = 1" if "byte c < 0x80" for c r using that by (simp add: gch_def)
  show ?case
  proof (cases p rule: gpat_cases)
    case Nil
    with less.prems show ?thesis by (simp add: gtoks_steps glen_loop.simps)
  next
    case Group
    with less.prems show ?thesis by (simp add: gtoks_steps)
  next
    case (Star r)
    with less.prems obtain us where us: "gtoks r = Some us" "ts = GStar # us" by (auto simp: gtoks_steps)
    with less.hyps [of r us] less.prems Star show ?thesis by (subst glen_loop.simps) auto
  next
    case (Any r)
    with less.prems obtain us where us: "gtoks r = Some us" "ts = GAny # us" by (auto simp: gtoks_steps)
    with less.hyps [of r us "n + 1"] less.prems Any show ?thesis by (subst glen_loop.simps) (auto simp: g1)
  next
    case (Open r)
    with less.prems obtain us where us: "gtoks r = Some us" "ts = GLit (CHR ''['') # us" by (auto simp: gtoks_steps(5))
    with less.hyps [of r us "n + 1"] less.prems Open show ?thesis
      by (subst glen_loop.simps) auto
  next
    case (Brk r q)
    with less.prems obtain us where us: "gtoks (drop 1 q) = Some us" "ts = GSet (\<lambda>x. fst (gbrk p x)) # us"
      by (auto simp: gtoks_steps(6))
    have "length (drop 1 q) < length p" using gbrk_len [OF Brk(3)] by simp
    with less.hyps [of "drop 1 q" us "n + 1"] less.prems us Brk ascii_brk [of p q] show ?thesis
      by (subst glen_loop.simps) auto
  next
    case (Esc d r)
    with less.prems obtain us where us: "gtoks r = Some us" "ts = GLit d # us" by (auto simp: gtoks_steps)
    with less.hyps [of r us "n + 1"] less.prems Esc show ?thesis
      by (subst glen_loop.simps) (auto simp: g1)
  next
    case (Lit c r)
    with less.prems obtain us where us: "gtoks r = Some us" "ts = GLit c # us" by (auto simp: gtoks_steps)
    moreover have "\<not> (c = CHR 0x5C \<and> at r 0 \<noteq> NUL)" using Lit(3) by (auto simp: lit_elem_def)
    ultimately show ?thesis using less.hyps [of r us "n + 1"] less.prems Lit
      by (subst glen_loop.simps) (auto simp: g1 lit_elem_def)
  qed
qed

lemma ctok_of_bytes: "\<forall>c. GLit c \<in> set ts \<longrightarrow> byte c < 0x80 \<Longrightarrow> concat (map ctok_bytes (map ctok_of ts)) = ts"
proof (induction ts)
  case (Cons t ts)
  then show ?case by (cases t) (auto simp: u8put_def chr_byte)
qed simp

lemma ctok_of_ok: "\<forall>c. GLit c \<in> set ts \<longrightarrow> byte c < 0x80 \<Longrightarrow> CLit x \<in> set (map ctok_of ts) \<Longrightarrow> x < 0x200000"
  by (auto elim!: ctok_of.elims [OF sym])

lemma clang_length: "CStar \<notin> set ts \<Longrightarrow> w \<in> clang ts \<Longrightarrow> length w = length ts"
  by (induction ts arbitrary: w rule: clang.induct) auto

lemma clang_append: "clang (ts @ us) = {u @ w | u w. u \<in> clang ts \<and> w \<in> clang us}"
proof (induction ts rule: clang.induct)
  case (4 ts)
  then show ?case by (auto, metis append.assoc) (metis append.assoc)
qed (auto simp: Cons_eq_append_conv, (metis append_Cons)+)

lemma ctok_star: "CStar \<in> set (map ctok_of ts) \<longleftrightarrow> GStar \<in> set ts"
proof -
  have "CStar = ctok_of x \<longleftrightarrow> x = GStar" for x by (cases x) simp_all
  then show ?thesis by (auto simp: image_iff)
qed

subsection \<open>The shortcuts are sound\<close>

lemma gfirst_lit:
  assumes ts: "gtoks p = Some ts" and a: "ascii p" and g: "gfirst p = Some c"
  shows "\<exists>us. ts = GLit c # us"
proof (cases p rule: gpat_cases)
  case (Esc d r)
  with assms show ?thesis by (auto simp: gtoks_steps gfirst_def)
next
  case (Lit d r)
  with assms show ?thesis by (auto simp: gtoks_steps gfirst_def lit_elem_def split: if_splits)
qed (use assms in \<open>auto simp: gfirst_def gtoks_steps\<close>)

lemma takeWhile_snoc: "takeWhile P (xs @ [x]) = (if list_all P xs then xs @ takeWhile P [x] else takeWhile P xs)"
  by (induction xs) auto

lemma bs_run_Cons: "bs_run (c # r) = (if list_all (\<lambda>c. c = CHR 0x5C) r then length r + (if c = CHR 0x5C then 1 else 0) else bs_run r)"
  by (auto simp: bs_run_def takeWhile_snoc list_all_iff)

lemma bs_run_esc: "even (bs_run (CHR 0x5C # d # r)) = even (bs_run r)"
proof (cases "list_all (\<lambda>c. c = CHR 0x5C) r")
  case True
  moreover from this have "bs_run r = length r" by (simp add: bs_run_def list_all_iff takeWhile_eq_all_conv [THEN iffD2])
  ultimately show ?thesis by (simp add: bs_run_Cons)
qed (simp add: bs_run_Cons)

lemma bs_run_skip: "c \<noteq> CHR 0x5C \<Longrightarrow> bs_run (c # r) = bs_run r"
  by (auto simp: bs_run_def takeWhile_snoc list_all_iff takeWhile_eq_all_conv [THEN iffD2])

lemma glast_esc: "r \<noteq> [] \<Longrightarrow> glast (CHR 0x5C # d # r) = glast r"
  using bs_run_esc [of d "butlast r"] by (simp add: glast_def)

lemma glast_skip: "r \<noteq> [] \<Longrightarrow> c \<noteq> CHR 0x5C \<Longrightarrow> glast (c # r) = glast r"
  by (simp add: glast_def bs_run_skip)

text \<open>Without a bracket, what \<open>glast\<close> names is the last element.\<close>

lemma glast_lit:
  "gtoks p = Some ts \<Longrightarrow> CHR ''['' \<notin> set p \<Longrightarrow> glast p = Some c \<Longrightarrow> \<exists>us. ts = us @ [GLit c]"
proof (induction "length p" arbitrary: p ts rule: less_induct)
  case less
  have step: "\<exists>us. ts = us @ [GLit c]"
    if "gtoks r = Some us" "ts = t # us" "length r < length p" "set r \<subseteq> set p" "glast r = Some c" for r us t
  proof -
    have "CHR ''['' \<notin> set r" using that(4) less.prems(2) by auto
    from less.hyps [OF that(3,1) this that(5)] that(2) show ?thesis by auto
  qed
  show ?case
  proof (cases p rule: gpat_cases)
    case (Star r)
    with less.prems obtain us where us: "gtoks r = Some us" "ts = GStar # us" by (auto simp: gtoks_steps)
    from Star less.prems(3) have "r \<noteq> []" by (auto simp: glast_def bs_run_def)
    with Star less.prems(3) show ?thesis by (intro step [OF us]) (auto simp: glast_skip)
  next
    case (Any r)
    with less.prems obtain us where us: "gtoks r = Some us" "ts = GAny # us" by (auto simp: gtoks_steps)
    from Any less.prems(3) have "r \<noteq> []" by (auto simp: glast_def bs_run_def)
    with Any less.prems(3) show ?thesis by (intro step [OF us]) (auto simp: glast_skip)
  next
    case (Esc d r)
    with less.prems obtain us where us: "gtoks r = Some us" "ts = GLit d # us" by (auto simp: gtoks_steps)
    show ?thesis
    proof (cases "r = []")
      case True
      with Esc us less.prems(3) show ?thesis by (auto simp: gtoks_steps glast_def bs_run_def)
    next
      case False
      with Esc less.prems(3) show ?thesis by (intro step [OF us]) (auto simp: glast_esc)
    qed
  next
    case (Lit d r)
    with less.prems obtain us where us: "gtoks r = Some us" "ts = GLit d # us" by (auto simp: gtoks_steps)
    show ?thesis
    proof (cases "r = []")
      case True
      with Lit us less.prems(3) show ?thesis by (auto simp: gtoks_steps glast_def bs_run_def split: if_splits)
    next
      case False
      with Lit less.prems(3) show ?thesis by (intro step [OF us]) (auto simp: glast_skip lit_elem_def)
    qed
  qed (use less.prems in \<open>auto simp: gtoks_steps glast_def\<close>)
qed

lemma gsem_last: "gsem ts t \<Longrightarrow> ts = us @ [GLit c] \<Longrightarrow> t \<noteq> [] \<and> last t = c"
proof (induction ts t arbitrary: us rule: gsem.induct)
  case (gsem_Lit ts t d)
  then show ?case by (cases us) (auto elim: gsem_NilE)
next
  case (gsem_Any t ts)
  then show ?case by (cases us) (auto simp: last_drop)
next
  case (gsem_Set t P ts)
  then show ?case by (cases us) (auto simp: last_drop)
next
  case (gsem_Star ts t)
  then show ?case by (cases us) auto
next
  case (gsem_Step t ts)
  then have "drop (gskip t) t \<noteq> []" "last (drop (gskip t) t) = c" by blast+
  then show ?case by (auto simp: last_drop)
qed simp

text \<open>A star at either end.\<close>

lemma gtoks_post:
  "gtoks p = Some ts \<Longrightarrow> CHR ''['' \<notin> set p \<Longrightarrow> even (bs_run p) \<Longrightarrow> gtoks (p @ ''*'') = Some (ts @ [GStar])"
proof (induction "length p" arbitrary: p ts rule: less_induct)
  case less
  have gs: "gstart (c # r @ ''*'') \<longleftrightarrow> gstart (c # r)" for c r
    by (cases r) (auto simp: gstart_def)
  show ?case
  proof (cases p rule: gpat_cases)
    case Nil
    with less.prems show ?thesis by (auto simp: gtoks_steps gstart_def)
  next
    case (Star r)
    with less.prems obtain us where us: "gtoks r = Some us" "ts = GStar # us" by (auto simp: gtoks_steps)
    with less.hyps [of r us] less.prems Star gs show ?thesis by (auto simp: gtoks_steps bs_run_skip)
  next
    case (Any r)
    with less.prems obtain us where us: "gtoks r = Some us" "ts = GAny # us" by (auto simp: gtoks_steps)
    with less.hyps [of r us] less.prems Any gs show ?thesis by (auto simp: gtoks_steps bs_run_skip)
  next
    case (Esc d r)
    with less.prems obtain us where us: "gtoks r = Some us" "ts = GLit d # us" by (auto simp: gtoks_steps)
    with less.hyps [of r us] less.prems Esc gs [of "CHR 0x5C" "d # r"] show ?thesis by (auto simp: gtoks_steps bs_run_esc)
  next
    case (Lit d r)
    with less.prems obtain us where us: "gtoks r = Some us" "ts = GLit d # us" by (auto simp: gtoks_steps)
    have d: "d \<noteq> CHR 0x5C" using Lit less.prems(3) by (auto simp: lit_elem_def bs_run_def)
    then have "lit_elem d (r @ ''*'')" using Lit(3) by (simp add: lit_elem_def)
    with less.hyps [of r us] less.prems Lit gs us d show ?thesis by (auto simp: gtoks_steps bs_run_skip)
  qed (use less.prems in \<open>auto simp: gtoks_steps\<close>)
qed

lemma gtoks_pre: "gtoks p = Some ts \<Longrightarrow> at p 0 \<noteq> CHR ''('' \<Longrightarrow> gtoks (CHR ''*'' # p) = Some (GStar # ts)"
  by (subst gtoks_steps(3)) (auto simp: gstart_def)


subsection \<open>Offsets in encoded text\<close>

text \<open>The byte at which character \<open>k\<close> of \<open>cs\<close> begins.\<close>

definition coff :: "nat list \<Rightarrow> nat \<Rightarrow> nat" where
  "coff cs k = length (u8enc (take k cs))"

lemma take_coff: "take (coff cs k) (u8enc cs) = u8enc (take k cs)"
  and drop_coff: "drop (coff cs k) (u8enc cs) = u8enc (drop k cs)"
  using u8enc_simps(3) [of "take k cs" "drop k cs"] by (simp_all add: coff_def)

lemma coff_all: "coff cs (length cs) = length (u8enc cs)"
  by (simp add: coff_def)

lemma coff_diff: "length (u8enc cs) - coff cs k = length (u8enc (drop k cs))"
  by (metis drop_coff length_drop)

lemma u8enc_len0: "length (u8enc cs) = 0 \<longleftrightarrow> cs = []"
  using u8put_ne by (cases cs) auto

lemma gat_skip: "gat (a @ w) (length a + i) = gat w i"
  by (simp add: gat_def at_def nth_append)

lemma upt_shift: "[m..<m + n] = map (\<lambda>i. m + i) [0..<n]"
  by (induction n) simp_all

lemma gat_offsets: "chars_ok cs \<Longrightarrow> filter (gat (u8enc cs)) [0..<length (u8enc cs) + 1] = map (coff cs) [0..<length cs + 1]"
proof (induction cs)
  case Nil
  show ?case by (simp add: gat_def coff_def)
next
  case (Cons c cs)
  obtain x xs where x: "u8put c = x # xs" "\<not> u8cont x" "\<forall>y \<in> set xs. u8cont y"
    using u8put_shape [of c] Cons.prems by auto
  let ?w = "u8enc (c # cs)" and ?n = "length (u8enc cs) + 1" and ?m = "length xs + 1"
  have "[0..<length ?w + 1] = [0..<?m] @ [?m..<?m + ?n]"
    using upt_add_eq_append [of 0 ?m ?n] x(1) by (simp del: upt_Suc)
  then have "filter (gat ?w) [0..<length ?w + 1] = filter (gat ?w) [0..<?m] @ filter (gat ?w) [?m..<?m + ?n]"
    by (simp only: filter_append)
  also have "filter (gat ?w) [0..<?m] = [0]"
  proof -
    have "[0..<?m] = 0 # [1..<?m]" by (simp add: upt_conv_Cons del: upt_Suc)
    moreover have "\<not> gat ?w i" if "i \<in> set [1..<?m]" for i
      using that x(1,3) by (auto simp: gat_def at_def nth_append nth_Cons')
    moreover have "gat ?w 0" using x(1,2) by (simp add: gat_def)
    moreover have "filter (gat ?w) [1..<?m] = []" using calculation(2) by (simp only: filter_empty_conv) blast
    ultimately show ?thesis by simp
  qed
  also have "filter (gat ?w) [?m..<?m + ?n] = map (\<lambda>i. ?m + i) (filter (gat (u8enc cs)) [0..<?n])"
  proof -
    have "gat ?w (?m + i) = gat (u8enc cs) i" for i using gat_skip [of "x # xs" "u8enc cs" i] x(1) by simp
    then show ?thesis unfolding upt_shift by (simp add: filter_map comp_def)
  qed
  also have "filter (gat (u8enc cs)) [0..<?n] = map (coff cs) [0..<length cs + 1]" using Cons by simp
  also have "[0] @ map (\<lambda>i. ?m + i) (map (coff cs) [0..<length cs + 1]) = map (coff (c # cs)) (0 # map Suc [0..<length cs + 1])"
    using x(1) by (simp add: coff_def comp_def)
  also have "0 # map Suc [0..<length cs + 1] = [0..<length (c # cs) + 1]"
    by (simp add: map_Suc_upt upt_conv_Cons del: upt_Suc)
  finally show ?case .
qed

lemma gfw_coff: "chars_ok cs \<Longrightarrow> j \<le> length cs \<Longrightarrow> gfw (u8enc cs) (coff cs j) k = (if j + k \<le> length cs then Some (coff cs (j + k)) else None)"
proof (induction k arbitrary: j)
  case 0
  then show ?case using coff_diff [of cs j] take_coff [of cs j] by (simp add: coff_def) (metis append_take_drop_id le_add1 length_append u8enc_simps(3))
next
  case (Suc k)
  show ?case
  proof (cases "j = length cs")
    case True
    then show ?thesis by (simp add: coff_all)
  next
    case False
    then have j: "j < length cs" using Suc.prems by simp
    then have d: "drop j cs = cs ! j # drop (Suc j) cs" by (simp add: Cons_nth_drop_Suc)
    have ok: "cs ! j < 0x200000" using Suc.prems(1) j by simp
    have "drop (coff cs j) (u8enc cs) = u8put (cs ! j) @ u8enc (drop (Suc j) cs)"
      unfolding drop_coff by (subst d) simp
    then have g: "fst (gch (drop (coff cs j) (u8enc cs))) = length (u8put (cs ! j))" using gch_u8put [OF ok] by simp
    have s: "coff cs j + length (u8put (cs ! j)) = coff cs (Suc j)" using j by (simp add: coff_def take_Suc_conv_app_nth)
    have "\<not> coff cs j \<ge> length (u8enc cs)" using coff_diff [of cs j] u8enc_len0 [of "drop j cs"] j by auto
    then show ?thesis using Suc.IH [of "Suc j"] Suc.prems j by (simp add: g s)
  qed
qed

lemma gback_cont:
  "w = a @ x # xs @ b \<Longrightarrow> \<not> u8cont x \<Longrightarrow> \<forall>y \<in> set xs. u8cont y \<Longrightarrow> n \<le> length xs \<Longrightarrow> gback w (length a + 1 + n) = length a"
proof (induction n)
  case 0
  then show ?case by (simp add: at_def)
next
  case (Suc n)
  then have "at w (length a + 1 + n) = xs ! n" "u8cont (xs ! n)" by (simp_all add: at_def nth_append)
  with Suc show ?case by simp
qed

lemma gback_coff:
  assumes "chars_ok cs" "Suc j \<le> length cs"
  shows "gback (u8enc cs) (coff cs (Suc j)) = coff cs j"
proof -
  have j: "j < length cs" using assms(2) by simp
  then obtain x xs where x: "u8put (cs ! j) = x # xs" "\<not> u8cont x" "\<forall>y \<in> set xs. u8cont y"
    using u8put_shape [of "cs ! j"] assms(1) by auto
  have "cs = take j cs @ cs ! j # drop (Suc j) cs" using j by (simp add: id_take_nth_drop)
  then have "u8enc cs = u8enc (take j cs) @ x # xs @ u8enc (drop (Suc j) cs)"
    using x(1) by (metis append_Cons append_assoc u8enc_simps(2,3))
  from gback_cont [OF this x(2,3), of "length xs"] x(1) j show ?thesis
    by (simp add: coff_def take_Suc_conv_app_nth)
qed

lemma gbk_coff: "chars_ok cs \<Longrightarrow> j \<le> length cs \<Longrightarrow>
  gbk_loop (u8enc cs) (coff cs j) k = (if k \<le> j then Some (length (u8enc cs) - coff cs (j - k)) else None)"
proof (induction k arbitrary: j)
  case (Suc k)
  show ?case
  proof (cases j)
    case 0
    then show ?thesis by (simp add: coff_def)
  next
    case (Suc i)
    have "coff cs (Suc i) \<noteq> 0" using Suc.prems(2) \<open>j = Suc i\<close> u8enc_len0 [of "take (Suc i) cs"] by (auto simp: coff_def)
    with Suc.IH [of i] Suc.prems \<open>j = Suc i\<close> show ?thesis by (simp add: gback_coff)
  qed
qed simp

subsection \<open>Finding\<close>

lemma gfind_Some: "(\<And>x. x \<in> set xs \<Longrightarrow> F x = Some (R x)) \<Longrightarrow> gfind F xs = Some (find R xs)"
  by (induction xs) auto

lemma gfind_map: "gfind F (map g xs) = map_option (map_option g) (gfind (\<lambda>x. F (g x)) xs)"
  by (induction xs) (auto split: option.split)

lemma gfind_filter: "(\<And>x. x \<in> set xs \<Longrightarrow> \<not> Q x \<Longrightarrow> F x = Some False) \<Longrightarrow> gfind F (filter Q xs) = gfind F xs"
  by (induction xs) (auto split: option.split)

lemma find_unique: "(\<And>x. x \<in> set xs \<Longrightarrow> R x \<Longrightarrow> x = a) \<Longrightarrow> find R xs = (if a \<in> set xs \<and> R a then Some a else None)"
  by (induction xs) auto

lemma find_none_iff: "find R xs = None \<longleftrightarrow> (\<forall>x \<in> set xs. \<not> R x)"
  by (induction xs) auto

text \<open>The characters stripped, by trying every length in turn.\<close>

definition trim_ref :: "nat \<Rightarrow> ctok list \<Rightarrow> nat list \<Rightarrow> nat list" where
  "trim_ref op ts cs =
    (let ks = [0..<length cs + 1] in
     if op = V_RS \<or> op = V_RL then
       (case find (\<lambda>k. take k cs \<in> clang ts) (if op = V_RL then rev ks else ks) of Some k \<Rightarrow> drop k cs | None \<Rightarrow> cs)
     else
       (case find (\<lambda>k. drop k cs \<in> clang ts) (if op = V_SL then ks else rev ks) of Some k \<Rightarrow> take k cs | None \<Rightarrow> cs))"


text \<open>A match of an ASCII pattern on encoded text is membership in the language of its characters.\<close>

lemma gmatch_lang:
  assumes "gtoks p = Some ts" "\<forall>c. GLit c \<in> set ts \<longrightarrow> byte c < 0x80" "chars_ok cs" "2 * length p + length (u8enc cs) + 1 \<le> fu"
  shows "gmatch fu p (u8enc cs) = Some (cs \<in> clang (map ctok_of ts))"
proof -
  have "gsem (concat (map ctok_bytes (map ctok_of ts))) (u8enc cs) \<longleftrightarrow> cs \<in> clang (map ctok_of ts)"
    using assms(2,3) ctok_of_ok by (intro gsem_clang) blast+
  then show ?thesis using gmatch_plain [OF assms(1,4)] ctok_of_bytes [OF assms(2)] by simp
qed

lemma u8enc_len_take: "length (u8enc (take k cs)) \<le> length (u8enc cs)" "length (u8enc (drop k cs)) \<le> length (u8enc cs)"
  using u8enc_simps(3) [of "take k cs" "drop k cs"] by simp_all

lemma length_le_u8enc: "length cs \<le> length (u8enc cs)"
proof (induction cs)
  case (Cons c cs)
  have "length (u8put c) > 0" using u8put_ne by simp
  with Cons show ?case by (simp add: Suc_le_eq add_strict_increasing)
qed simp

lemma coff_le: "coff cs k \<le> length (u8enc cs)"
  using u8enc_len_take(1) by (simp add: coff_def)

lemma take_offs: "take (length (u8enc cs) - (length (u8enc cs) - coff cs k)) (u8enc cs) = u8enc (take k cs)"
  and drop_offs: "drop (length (u8enc cs) - (length (u8enc cs) - coff cs k)) (u8enc cs) = u8enc (drop k cs)"
  using coff_le [of cs k] take_coff drop_coff by simp_all

text \<open>The candidates of a pattern of no one length: every character boundary, in the order tried.\<close>

lemma rev_offsets: "rev [0..<n + 1] = map (\<lambda>j. n - j) [0..<n + 1]"
  by (intro nth_equalityI) (simp_all add: rev_nth del: upt_Suc)

lemma trim_offsets:
  assumes "chars_ok cs"
  defines "n \<equiv> length (u8enc cs)" and "ks \<equiv> [0..<length cs + 1]"
  shows "filter (gat (u8enc cs)) (if lng then rev [0..<n + 1] else [0..<n + 1]) = map (coff cs) (if lng then rev ks else ks)"
    and "filter (\<lambda>i. gat (u8enc cs) (n - i)) (if lng then rev [0..<n + 1] else [0..<n + 1]) =
      map (\<lambda>k. n - coff cs k) (if lng then ks else rev ks)"
proof -
  have a: "filter (gat (u8enc cs)) [0..<n + 1] = map (coff cs) ks" using gat_offsets [OF assms(1)] by (simp add: n_def ks_def)
  then show "filter (gat (u8enc cs)) (if lng then rev [0..<n + 1] else [0..<n + 1]) = map (coff cs) (if lng then rev ks else ks)"
    by (simp add: rev_filter [symmetric] rev_map del: upt_Suc)
  have "filter (\<lambda>i. gat (u8enc cs) (n - i)) (rev [0..<n + 1]) = map (\<lambda>j. n - j) (filter (gat (u8enc cs)) [0..<n + 1])"
    unfolding rev_offsets filter_map comp_def by (intro arg_cong [where f = "map _"] filter_cong) auto
  then have b: "filter (\<lambda>i. gat (u8enc cs) (n - i)) (rev [0..<n + 1]) = map (\<lambda>k. n - coff cs k) ks"
    unfolding a map_map comp_def .
  then have "filter (\<lambda>i. gat (u8enc cs) (n - i)) [0..<n + 1] = map (\<lambda>k. n - coff cs k) (rev ks)"
    by (metis rev_filter rev_map rev_rev_ident)
  with b show "filter (\<lambda>i. gat (u8enc cs) (n - i)) (if lng then rev [0..<n + 1] else [0..<n + 1]) =
      map (\<lambda>k. n - coff cs k) (if lng then ks else rev ks)" by simp
qed

lemma trim_loop:
  assumes c: "cands = filter L (map g ks)"
    and F: "\<And>k. k \<in> set ks \<Longrightarrow> F (g k) = Some (R k)"
    and L: "\<And>k. k \<in> set ks \<Longrightarrow> R k \<Longrightarrow> L (g k)"
  shows "gfind F cands = Some (map_option g (find R ks))"
proof -
  have "gfind F cands = gfind F (map g ks)" unfolding c
  proof (rule gfind_filter)
    fix x assume "x \<in> set (map g ks)" "\<not> L x"
    then obtain k where "k \<in> set ks" "x = g k" by auto
    with F L \<open>\<not> L x\<close> show "F x = Some False" by auto
  qed
  also have "\<dots> = map_option (map_option g) (gfind (\<lambda>k. F (g k)) ks)" by (rule gfind_map)
  also have "gfind (\<lambda>k. F (g k)) ks = Some (find R ks)" using F by (rule gfind_Some)
  finally show ?thesis by simp
qed

lemma find_rev_none: "find R (if b then rev ks else ks) = None \<longleftrightarrow> find R ks = None"
  "find R (if b then ks else rev ks) = None \<longleftrightarrow> find R ks = None"
  by (simp_all add: find_none_iff)

lemma at_last: "w \<noteq> [] \<Longrightarrow> at w (length w - 1) = last w"
  by (simp add: at_def last_conv_nth)

lemma last_coff:
  assumes "gtoks p = Some ts" "CHR ''['' \<notin> set p" "ascii p" "glast p = Some c" "chars_ok cs" "take k cs \<in> clang (map ctok_of ts)"
  shows "coff cs k \<noteq> 0 \<and> at (u8enc cs) (coff cs k - 1) = c"
proof -
  have b: "\<forall>c. GLit c \<in> set ts \<longrightarrow> byte c < 0x80" using gtoks_ascii [OF assms(1,3)] by blast
  have ok: "chars_ok (take k cs)" using assms(5) by (meson in_set_takeD)
  have "gsem (concat (map ctok_bytes (map ctok_of ts))) (u8enc (take k cs)) \<longleftrightarrow> take k cs \<in> clang (map ctok_of ts)"
    using b ctok_of_ok by (intro gsem_clang [OF ok]) blast
  then have "gsem ts (u8enc (take k cs))" using assms(6) ctok_of_bytes [OF b] by simp
  moreover obtain us where "ts = us @ [GLit c]" using glast_lit [OF assms(1,2,4)] by blast
  ultimately have l: "u8enc (take k cs) \<noteq> []" "last (u8enc (take k cs)) = c" using gsem_last by blast+
  then have "at (u8enc (take k cs)) (coff cs k - 1) = c" using at_last unfolding coff_def by blast
  moreover have "u8enc cs = u8enc (take k cs) @ u8enc (drop k cs)" using u8enc_simps(3) [of "take k cs" "drop k cs"] by simp
  moreover have "length (u8enc (take k cs)) - 1 < length (u8enc (take k cs))" using l(1) by simp
  ultimately show ?thesis using l(1) by (simp only: coff_def at_append_less) simp
qed

lemma first_coff:
  assumes "gtoks p = Some ts" "ascii p" "gfirst p = Some c" "chars_ok cs" "drop k cs \<in> clang (map ctok_of ts)"
  shows "length (u8enc cs) - coff cs k \<noteq> 0 \<and> at (u8enc cs) (length (u8enc cs) - (length (u8enc cs) - coff cs k)) = c"
proof -
  have b: "\<forall>c. GLit c \<in> set ts \<longrightarrow> byte c < 0x80" using gtoks_ascii [OF assms(1,2)] by blast
  obtain us where us: "ts = GLit c # us" using gfirst_lit [OF assms(1-3)] by blast
  with b have c: "byte c < 0x80" by simp
  from us assms(5) obtain ds where d: "drop k cs = byte c # ds" by auto
  then have "drop (coff cs k) (u8enc cs) = c # u8enc ds" using c by (simp add: drop_coff u8put_def chr_byte)
  then have "at (u8enc cs) (coff cs k) = c" "coff cs k < length (u8enc cs)"
    using at_drop [of "coff cs k" "u8enc cs" 0] by (simp, metis drop_eq_Nil list.discI not_le)
  then show ?thesis by simp
qed




text \<open>The last byte that \<open>xtrim\<close> asks of a match is wrong for a bracket whose range ends in a
  backslash: \<open>*[A-\]\<close> matches \<open>fooB\<close>, a prefix of \<open>fooBar\<close>, and the longest match is not stripped.\<close>

theorem xtrim_backslash_range:
  "gmatch 40 (''*[A-'' @ [CHR 0x5C, CHR '']'']) ''fooB'' = Some True \<and>
    xtrim 40 ''fooBar'' (''*[A-'' @ [CHR 0x5C, CHR '']'']) V_RL = Some ''fooBar''"
  by code_simp

end
