(* ===== verification/Arith.thy ===== *)
theory Arith
  imports Vars "HOL-Library.Signed_Division" "HOL-Library.Monad_Syntax"
begin

text \<open>
  Arithmetic of src/expand.c: the precedence climbing evaluator that reads, evaluates and assigns in
  one pass over the text. Numbers are 64 bits and wrap. The evaluator is written over two operations
  on an unspecified state, reading a name (\<open>rd\<close>) and storing a number (\<open>wr\<close>); \<open>ax_rd\<close> and
  \<open>ax_wr\<close> are the ones of the code, over the variable table. A variable's value is itself
  evaluated, so the recursion has fuel; \<open>ax_run_total\<close> shows that some fuel always suffices.
\<close>

subsection \<open>The cursor\<close>

type_synonym long = "64 word"

record 's axs =
  ax_st :: 's
  ax_p :: string
  ax_depth :: nat
  ax_bad :: bool
  ax_skip :: nat
  ax_hasq :: bool

abbreviation (input) AXDEPTH :: nat where "AXDEPTH \<equiv> 1000"

definition axsp :: "char \<Rightarrow> bool" where
  "axsp c \<longleftrightarrow> c = CHR '' '' \<or> c = CHR 0x09 \<or> c = CHR 0x0A"

definition ax_ws :: "'s axs \<Rightarrow> 's axs" where
  "ax_ws a = a\<lparr>ax_p := dropWhile axsp (ax_p a)\<rparr>"

definition ax_err :: "'s axs \<Rightarrow> 's axs" where
  "ax_err a = a\<lparr>ax_bad := True\<rparr>"

text \<open>\<open>a->p += n\<close>.\<close>

definition ax_adv :: "nat \<Rightarrow> 's axs \<Rightarrow> 's axs" where
  "ax_adv n a = a\<lparr>ax_p := drop n (ax_p a)\<rparr>"

subsection \<open>Numbers\<close>

text \<open>A number too big for a long, wrapped; what \<open>strtol\<close> took runs up to \<open>e\<close>.\<close>

definition bigdig :: "char \<Rightarrow> long" where
  "bigdig c = (if isdigit c then of_nat (byte c) - 48 else (of_nat (byte c) OR 32) - 97 + 10)"

definition ax_big :: "string \<Rightarrow> string \<Rightarrow> long" where
  "ax_big p e =
    (let t = dropWhile axsp (take (length p - length e) p);
         u = (if at t 0 = CHR ''+'' then tl t else t);
         hex = (at u 0 = CHR ''0'' \<and> (at u 1 = CHR ''x'' \<or> at u 1 = CHR ''X''));
         b = (if hex then 16 else if at u 0 = CHR ''0'' then 8 else 10)
     in foldl (\<lambda>v c. v * b + bigdig c) 0 (if hex then drop 2 u else u))"

text \<open>\<open>strtol(p, &e, 0)\<close>, and the wrapped value where it answers its limit.\<close>

definition ax_num :: "string \<Rightarrow> long \<times> string" where
  "ax_num p = (let (v, e) = strtol 0 p in (if v = LONG_MAX then ax_big p e else word_of_int v, e))"

definition ax_digit :: "char \<Rightarrow> nat \<Rightarrow> nat option" where
  "ax_digit c base =
    (let v = (if isdigit c then Some (byte c - 48)
              else if islower c then Some (byte c - 97 + 10)
              else if isupper c then Some (if base > 36 then byte c - 65 + 36 else byte c - 65 + 10)
              else if c = CHR ''@'' then Some 62
              else if c = CHR ''_'' then Some 63
              else None)
     in case v of Some d \<Rightarrow> if d < base then Some d else None | None \<Rightarrow> None)"

fun ax_digits :: "nat \<Rightarrow> long \<Rightarrow> string \<Rightarrow> long \<times> string" where
  "ax_digits base v [] = (v, [])"
| "ax_digits base v (c # p) =
    (case ax_digit c base of Some d \<Rightarrow> ax_digits base (v * of_nat base + of_nat d) p | None \<Rightarrow> (v, c # p))"

subsection \<open>Names and subscripts\<close>

text \<open>Past the bracket that closes the \<open>d\<close> open ones.\<close>

fun ax_close :: "string \<Rightarrow> nat \<Rightarrow> string option" where
  "ax_close [] d = None"
| "ax_close (c # p) d =
    (let d' = (if c = CHR ''['' then d + 1 else if c = CHR '']'' then d - 1 else d)
     in if d' = 0 then Some p else ax_close p d')"

lemma ax_close_len: "ax_close p d = Some q \<Longrightarrow> length q < length p"
  by (induction p d rule: ax_close.induct) (auto simp: Let_def split: if_splits)

function ax_subs :: "string \<Rightarrow> string option" where
  "ax_subs p =
    (if at p 0 = CHR ''['' then (case ax_close (tl p) 1 of None \<Rightarrow> None | Some q \<Rightarrow> ax_subs q) else Some p)"
  by pat_completeness auto
termination by (relation "measure length") (auto dest: ax_close_len)

declare ax_subs.simps [simp del]

definition ax_idstart :: "char \<Rightarrow> bool" where
  "ax_idstart c \<longleftrightarrow> isalpha c \<or> c = CHR ''_''"

definition ax_idch :: "char \<Rightarrow> bool" where
  "ax_idch c \<longleftrightarrow> isalnum c \<or> c = CHR ''_''"

text \<open>The identifier at the cursor with its subscripts; an unclosed one is an error at the end of the text.\<close>

definition ax_name :: "'s axs \<Rightarrow> 's axs \<times> string option" where
  "ax_name a =
    (if \<not> ax_idstart (at (ax_p a) 0) then (a, None)
     else
       (case ax_subs (dropWhile ax_idch (ax_p a)) of
          None \<Rightarrow> (ax_err (a\<lparr>ax_p := []\<rparr>), None)
        | Some r \<Rightarrow> (a\<lparr>ax_p := r\<rparr>, Some (take (length (ax_p a) - length r) (ax_p a)))))"

subsection \<open>Operators\<close>

definition ax_pr :: "nat list" where
  "ax_pr = [1, 2, 3, 4, 5, 6, 6, 9, 9, 7, 7, 7, 7, 10, 10, 11, 11, 11, 12]"

definition ax_ln :: "nat list" where
  "ax_ln = [2, 2, 1, 1, 1, 2, 2, 2, 2, 2, 2, 1, 1, 1, 1, 1, 1, 1, 2]"

text \<open>The operator at the cursor, its precedence and its length.\<close>

definition ax_best :: "char \<Rightarrow> char \<Rightarrow> nat option" where
  "ax_best c d =
    (if c = CHR ''|'' then Some (if d = CHR ''|'' then 0 else 2)
     else if c = CHR ''&'' then Some (if d = CHR ''&'' then 1 else 4)
     else if c = CHR ''^'' then Some 3
     else if c = CHR ''='' then (if d = CHR ''='' then Some 5 else None)
     else if c = CHR ''!'' then (if d = CHR ''='' then Some 6 else None)
     else if c = CHR ''<'' then Some (if d = CHR ''<'' then 7 else if d = CHR ''='' then 9 else 11)
     else if c = CHR ''>'' then Some (if d = CHR ''>'' then 8 else if d = CHR ''='' then 10 else 12)
     else if c = CHR ''+'' then Some 13
     else if c = CHR ''-'' then Some 14
     else if c = CHR ''*'' then Some (if d = CHR ''*'' then 18 else 15)
     else if c = CHR ''/'' then Some 16
     else if c = CHR ''%'' then Some 17
     else None)"

definition ax_op :: "string \<Rightarrow> (nat \<times> nat \<times> nat) option" where
  "ax_op p =
    (case ax_best (at p 0) (at p 1) of
       None \<Rightarrow> None
     | Some b \<Rightarrow>
         if at p (ax_ln ! b) = CHR ''='' \<and> b \<noteq> 5 \<and> b \<noteq> 6 \<and> b \<noteq> 9 \<and> b \<noteq> 10 then None
         else Some (b, ax_pr ! b, ax_ln ! b))"

text \<open>Square and multiply: \<open>r\<close> is not negative.\<close>

fun ax_pow :: "long \<Rightarrow> long \<Rightarrow> nat \<Rightarrow> long" where
  "ax_pow acc base r =
    (if r = 0 then acc else ax_pow (if odd r then acc * base else acc) (base * base) (r div 2))"

declare ax_pow.simps [simp del]

definition ax_bool :: "bool \<Rightarrow> long" where
  "ax_bool b = (if b then 1 else 0)"

text \<open>An operator on two values; \<open>None\<close> is a division by zero or a negative exponent.\<close>

definition ax_calc :: "nat \<Rightarrow> long \<Rightarrow> long \<Rightarrow> long option" where
  "ax_calc op l r =
    (if op = 0 then Some (ax_bool (l \<noteq> 0 \<or> r \<noteq> 0))
     else if op = 1 then Some (ax_bool (l \<noteq> 0 \<and> r \<noteq> 0))
     else if op = 2 then Some (l OR r)
     else if op = 3 then Some (l XOR r)
     else if op = 4 then Some (l AND r)
     else if op = 5 then Some (ax_bool (l = r))
     else if op = 6 then Some (ax_bool (l \<noteq> r))
     else if op = 7 then Some (push_bit (unat (r AND 63)) l)
     else if op = 8 then Some (word_of_int (drop_bit (unat (r AND 63)) (sint l)))
     else if op = 9 then Some (ax_bool (sint l \<le> sint r))
     else if op = 10 then Some (ax_bool (sint l \<ge> sint r))
     else if op = 11 then Some (ax_bool (sint l < sint r))
     else if op = 12 then Some (ax_bool (sint l > sint r))
     else if op = 13 then Some (l + r)
     else if op = 14 then Some (l - r)
     else if op = 15 then Some (l * r)
     else if op = 16 \<or> op = 17 then
       (if r = 0 then None
        else if r = - 1 then Some (if op = 16 then 0 - l else 0)
        else Some (word_of_int (if op = 16 then sint l sdiv sint r else sint l smod sint r)))
     else if op = 18 then (if sint r < 0 then None else Some (ax_pow 1 l (unat r)))
     else Some 0)"

definition ax_do :: "'s axs \<Rightarrow> nat \<Rightarrow> long \<Rightarrow> long \<Rightarrow> long \<times> 's axs" where
  "ax_do a op l r =
    (if ax_skip a > 0 then (0, a) else case ax_calc op l r of Some v \<Rightarrow> (v, a) | None \<Rightarrow> (0, ax_err a))"

definition ax_as :: "(string \<times> nat option) list" where
  "ax_as = [(''<<='', Some 7), (''>>='', Some 8), (''**='', Some 18), (''+='', Some 13), (''-='', Some 14),
    (''*='', Some 15), (''/='', Some 16), (''%='', Some 17), (''&='', Some 4), (''|='', Some 2), (''^='', Some 3),
    (''='', None)]"

text \<open>The assignment operator at the cursor: its length and what it applies.\<close>

definition ax_asop :: "string \<Rightarrow> (nat \<times> nat option) option" where
  "ax_asop p =
    (case find (\<lambda>(t, op). prefix t p) ax_as of
       None \<Rightarrow> None
     | Some (t, op) \<Rightarrow> if op = None \<and> at p 1 = CHR ''='' then None else Some (length t, op))"

text \<open>Whether the text may assign: an \<open>=\<close> that is not part of a comparison; \<open>i\<close> is where to look on.\<close>

function ax_hasasg_at :: "string \<Rightarrow> nat \<Rightarrow> bool" where
  "ax_hasasg_at t i =
    (if i \<ge> length t then False
     else if t ! i \<noteq> CHR ''='' then ax_hasasg_at t (i + 1)
     else if at t (i + 1) = CHR ''='' then ax_hasasg_at t (i + 2)
     else if i > 0 \<and> t ! (i - 1) \<in> {CHR ''!'', CHR ''<'', CHR ''>''} \<and> \<not> (i > 1 \<and> t ! (i - 2) = t ! (i - 1))
     then ax_hasasg_at t (i + 1)
     else True)"
  by pat_completeness auto
termination by (relation "measure (\<lambda>(t, i). length t - i)") auto

declare ax_hasasg_at.simps [simp del]

definition ax_hasasg :: "string \<Rightarrow> bool" where
  "ax_hasasg t = ax_hasasg_at t 0"

subsection \<open>Reading and storing\<close>

type_synonym 's axrd = "'s \<Rightarrow> bool \<Rightarrow> string \<Rightarrow> 's \<times> string option \<times> bool"
type_synonym 's axwr = "'s \<Rightarrow> string \<Rightarrow> long \<Rightarrow> 's"
type_synonym 's axev = "'s axs \<Rightarrow> (long \<times> 's axs) option"

text \<open>A value is a number or an expression, which \<open>sub\<close> evaluates.\<close>

definition ax_val :: "(string \<Rightarrow> 's axev) \<Rightarrow> 's axs \<Rightarrow> string option \<Rightarrow> (long \<times> 's axs) option" where
  "ax_val sub a t =
    (case t of
       None \<Rightarrow> Some (0, a)
     | Some t \<Rightarrow>
         if t = [] then Some (0, a)
         else let (v, e) = ax_num t in if dropWhile axsp e = [] then Some (v, a) else sub t a)"

definition ax_get :: "'s axrd \<Rightarrow> (string \<Rightarrow> 's axev) \<Rightarrow> 's axs \<Rightarrow> string \<Rightarrow> (long \<times> 's axs) option" where
  "ax_get rd sub a nm =
    (let (s, t, u) = rd (ax_st a) (ax_skip a > 0) nm in ax_val sub (a\<lparr>ax_st := s, ax_bad := ax_bad a \<or> u\<rparr>) t)"

definition ax_set :: "'s axwr \<Rightarrow> 's axs \<Rightarrow> string \<Rightarrow> long \<Rightarrow> 's axs" where
  "ax_set wr a nm v = (if ax_skip a > 0 \<or> ax_bad a then a else a\<lparr>ax_st := wr (ax_st a) nm v\<rparr>)"

subsection \<open>The evaluator\<close>

definition ax_inc :: "string \<Rightarrow> bool" where
  "ax_inc p \<longleftrightarrow> at p 0 = CHR ''+'' \<and> at p 1 = CHR ''+'' \<or> at p 0 = CHR ''-'' \<and> at p 1 = CHR ''-''"

text \<open>The calls the functions make of one another, and the functions over them.\<close>

datatype axcall = XComma | XCommas long | XAssign | XTern | XBin nat | XLoop nat long | XUn | XUnop | XPrim | XSub string

type_synonym 's axevs = "axcall \<Rightarrow> 's axev"

definition ax_sub :: "'s axevs \<Rightarrow> string \<Rightarrow> 's axev" where
  "ax_sub ev t a =
    (if ax_depth a \<ge> AXDEPTH then Some (0, ax_err a)
     else
       ev XComma
         \<lparr>ax_st = ax_st a, ax_p = t, ax_depth = ax_depth a + 1, ax_bad = False, ax_skip = ax_skip a, ax_hasq = ax_hasasg t\<rparr>
       \<bind> (\<lambda>(v, b).
         Some (v, a\<lparr>ax_st := ax_st b, ax_bad := ax_bad a \<or> ax_bad b \<or> ax_p (ax_ws b) \<noteq> []\<rparr>)))"

definition ax_prim :: "'s axrd \<Rightarrow> 's axwr \<Rightarrow> 's axevs \<Rightarrow> 's axev" where
  "ax_prim rd wr ev a0 =
    (let a = ax_ws a0; c = at (ax_p a) 0 in
     if c = CHR ''('' then
       (let a1 = a\<lparr>ax_depth := ax_depth a + 1\<rparr> in
        if ax_depth a1 > AXDEPTH then Some (0, (ax_err a1)\<lparr>ax_p := []\<rparr>)
        else
          ev XComma (ax_adv 1 a1) \<bind> (\<lambda>(v, a2).
            let a3 = ax_ws (a2\<lparr>ax_depth := ax_depth a2 - 1\<rparr>)
            in Some (v, if at (ax_p a3) 0 = CHR '')'' then ax_adv 1 a3 else ax_err a3)))
     else if isdigit c then
       (let (base, e) = strtol 10 (ax_p a) in
        if at e 0 = CHR ''#'' then
          (if base < 2 \<or> base > 64 then Some (0, ax_err a)
           else if ax_digit (at e 1) (nat base) = None then Some (0, ax_err (a\<lparr>ax_p := tl e\<rparr>))
           else let (v, r) = ax_digits (nat base) 0 (tl e) in Some (v, a\<lparr>ax_p := r\<rparr>))
        else let (v, r) = ax_num (ax_p a) in Some (v, a\<lparr>ax_p := r\<rparr>))
     else if ax_idstart c then
       (case ax_name a of
          (a1, None) \<Rightarrow> Some (0, a1)
        | (a1, Some nm) \<Rightarrow>
            ax_get rd (\<lambda>t. ev (XSub t)) a1 nm \<bind> (\<lambda>(v, a2).
              let a3 = ax_ws a2 in
              if ax_inc (ax_p a3)
              then Some (v, ax_adv 2 (ax_set wr a3 nm (if at (ax_p a3) 0 = CHR ''+'' then v + 1 else v - 1)))
              else Some (v, a3)))
     else Some (0, ax_err a))"

definition ax_unop :: "'s axevs \<Rightarrow> 's axev" where
  "ax_unop ev a =
    (if ax_depth a + 1 > AXDEPTH then Some (0, (ax_err a)\<lparr>ax_p := []\<rparr>)
     else ev XUn (a\<lparr>ax_depth := ax_depth a + 1\<rparr>) \<bind> (\<lambda>(v, a). Some (v, a\<lparr>ax_depth := ax_depth a - 1\<rparr>)))"

definition ax_un :: "'s axrd \<Rightarrow> 's axwr \<Rightarrow> 's axevs \<Rightarrow> 's axev" where
  "ax_un rd wr ev a0 =
    (let a = ax_ws a0 in
     if ax_inc (ax_p a) then
       (let up = (at (ax_p a) 0 = CHR ''+'') in
        case ax_name (ax_ws (ax_adv 2 a)) of
          (a1, None) \<Rightarrow> Some (0, ax_err a1)
        | (a1, Some nm) \<Rightarrow>
            ax_get rd (\<lambda>t. ev (XSub t)) a1 nm \<bind> (\<lambda>(v, a2).
              let v' = v + (if up then 1 else - 1) in Some (v', ax_set wr a2 nm v')))
     else if at (ax_p a) 0 = CHR ''-'' then ev XUnop (ax_adv 1 a) \<bind> (\<lambda>(v, a). Some (0 - v, a))
     else if at (ax_p a) 0 = CHR ''+'' then ev XUnop (ax_adv 1 a)
     else if at (ax_p a) 0 = CHR ''!'' then ev XUnop (ax_adv 1 a) \<bind> (\<lambda>(v, a). Some (ax_bool (v = 0), a))
     else if at (ax_p a) 0 = CHR ''~'' then ev XUnop (ax_adv 1 a) \<bind> (\<lambda>(v, a). Some (NOT v, a))
     else ev XPrim a)"

definition ax_loop :: "'s axevs \<Rightarrow> nat \<Rightarrow> long \<Rightarrow> 's axev" where
  "ax_loop ev mp l a0 =
    (let a = ax_ws a0 in
     case ax_op (ax_p a) of
       None \<Rightarrow> Some (l, a)
     | Some (op, pr, ln) \<Rightarrow>
         if pr < mp then Some (l, a)
         else
           let a1 = ax_adv ln a in
           if op = 0 \<and> l \<noteq> 0 \<or> op = 1 \<and> l = 0 then
             ev (XBin (pr + 1)) (a1\<lparr>ax_skip := ax_skip a1 + 1\<rparr>) \<bind> (\<lambda>(r, a2).
               ev (XLoop mp (ax_bool (op = 0))) (a2\<lparr>ax_skip := ax_skip a2 - 1\<rparr>))
           else
             ev (XBin (if op = 18 then pr else pr + 1)) a1 \<bind> (\<lambda>(r, a2).
               let (v, a3) = ax_do a2 op l r in ev (XLoop mp v) a3))"

definition ax_bin :: "'s axevs \<Rightarrow> nat \<Rightarrow> 's axev" where
  "ax_bin ev mp a = ev XUn a \<bind> (\<lambda>(l, a). ev (XLoop mp l) a)"

definition ax_tern :: "'s axevs \<Rightarrow> 's axev" where
  "ax_tern ev a0 =
    ev (XBin 1) a0 \<bind> (\<lambda>(c, a1).
      let a = ax_ws a1 in
      if at (ax_p a) 0 \<noteq> CHR ''?'' then Some (c, a)
      else
        let sk = (\<lambda>b n. if b then n + 1 else n); un = (\<lambda>b n. if b then n - 1 else n); a2 = ax_adv 1 a in
        ev XAssign (a2\<lparr>ax_skip := sk (c = 0) (ax_skip a2)\<rparr>) \<bind> (\<lambda>(t, a3).
          let a4 = ax_ws (a3\<lparr>ax_skip := un (c = 0) (ax_skip a3)\<rparr>) in
          if at (ax_p a4) 0 \<noteq> CHR '':'' then Some (0, ax_err a4)
          else
            let a5 = ax_adv 1 a4 in
            ev XAssign (a5\<lparr>ax_skip := sk (c \<noteq> 0) (ax_skip a5)\<rparr>) \<bind> (\<lambda>(e, a6).
              Some (if c \<noteq> 0 then t else e, a6\<lparr>ax_skip := un (c \<noteq> 0) (ax_skip a6)\<rparr>))))"

definition ax_assign :: "'s axrd \<Rightarrow> 's axwr \<Rightarrow> 's axevs \<Rightarrow> 's axev" where
  "ax_assign rd wr ev a0 =
    (let a = ax_ws a0 in
     if \<not> ax_hasq a \<or> \<not> ax_idstart (at (ax_p a) 0) then ev XTern a
     else
       (case ax_name a of
          (a1, None) \<Rightarrow> ev XTern (a1\<lparr>ax_p := ax_p a\<rparr>)
        | (a1, Some nm) \<Rightarrow>
            (case ax_asop (ax_p (ax_ws a1)) of
               None \<Rightarrow> ev XTern (a1\<lparr>ax_p := ax_p a\<rparr>)
             | Some (n, op) \<Rightarrow>
                 ev XAssign (ax_adv n (ax_ws a1)) \<bind> (\<lambda>(r, a2).
                   case op of
                     None \<Rightarrow> Some (r, ax_set wr a2 nm r)
                   | Some op \<Rightarrow>
                       ax_get rd (\<lambda>t. ev (XSub t)) a2 nm \<bind> (\<lambda>(l, a3).
                         let (v, a4) = ax_do a3 op l r in Some (v, ax_set wr a4 nm v))))))"

definition ax_commas :: "'s axevs \<Rightarrow> long \<Rightarrow> 's axev" where
  "ax_commas ev v a =
    (let a = ax_ws a in
     if at (ax_p a) 0 \<noteq> CHR '','' then Some (v, a)
     else ev XAssign (ax_adv 1 a) \<bind> (\<lambda>(v, a). ev (XCommas v) a))"

definition ax_comma :: "'s axevs \<Rightarrow> 's axev" where
  "ax_comma ev a = ev XAssign a \<bind> (\<lambda>(v, a). ev (XCommas v) a)"

text \<open>Each call takes one unit of fuel.\<close>

primrec ax_ev :: "'s axrd \<Rightarrow> 's axwr \<Rightarrow> nat \<Rightarrow> 's axevs" where
  "ax_ev rd wr 0 = (\<lambda>c a. None)"
| "ax_ev rd wr (Suc f) =
    (\<lambda>c a. case c of
       XComma \<Rightarrow> ax_comma (ax_ev rd wr f) a
     | XCommas v \<Rightarrow> ax_commas (ax_ev rd wr f) v a
     | XAssign \<Rightarrow> ax_assign rd wr (ax_ev rd wr f) a
     | XTern \<Rightarrow> ax_tern (ax_ev rd wr f) a
     | XBin mp \<Rightarrow> ax_bin (ax_ev rd wr f) mp a
     | XLoop mp l \<Rightarrow> ax_loop (ax_ev rd wr f) mp l a
     | XUn \<Rightarrow> ax_un rd wr (ax_ev rd wr f) a
     | XUnop \<Rightarrow> ax_unop (ax_ev rd wr f) a
     | XPrim \<Rightarrow> ax_prim rd wr (ax_ev rd wr f) a
     | XSub t \<Rightarrow> ax_sub (ax_ev rd wr f) t a)"

text \<open>An expression: the state, and the value unless there was an error.\<close>

definition ax_start :: "'s \<Rightarrow> string \<Rightarrow> 's axs" where
  "ax_start s t = \<lparr>ax_st = s, ax_p = t, ax_depth = 0, ax_bad = False, ax_skip = 0, ax_hasq = ax_hasasg t\<rparr>"

definition ax_run :: "'s axrd \<Rightarrow> 's axwr \<Rightarrow> nat \<Rightarrow> 's \<Rightarrow> string \<Rightarrow> ('s \<times> long option) option" where
  "ax_run rd wr f s t =
    ax_ev rd wr f XComma (ax_start s t) \<bind> (\<lambda>(v, a).
      Some (ax_st a, if ax_bad a \<or> ax_p (ax_ws a) \<noteq> [] then None else Some v))"

subsection \<open>The operations on the shell's variables\<close>

text \<open>
  What the code reads beside the variable table: the values of the calls of \<open>rand\<close> in order, the
  script, its line and the clock, the options, and \<open>bi_keys\<close> of src/bi.c, which expands the keys of
  a subscript.
\<close>

record xenv =
  e_rnd :: "nat \<Rightarrow> int"
  e_src :: "string option"
  e_ln :: int
  e_clock :: string
  e_uset :: bool
  e_it :: bool
  e_subsh :: bool
  e_keys :: "sh \<Rightarrow> string \<Rightarrow> bool list option \<Rightarrow> sh \<times> string \<times> string list"

record xst =
  xs :: sh
  x_rands :: nat
  x_stop :: bool
  x_quit :: bool

abbreviation (input) O_DASHC :: "32 word" where "O_DASHC \<equiv> 1024"

text \<open>The names \<open>xval\<close> answers when no variable has them.\<close>

definition xval_dyn :: "xenv \<Rightarrow> sh \<Rightarrow> string \<Rightarrow> string option" where
  "xval_dyn E s k =
    (if k = ''BASH_SOURCE'' then Some (case e_src E of Some t \<Rightarrow> t | None \<Rightarrow> [])
     else if k = ''LINENO'' then Some (xnum (e_ln E))
     else if k = ''SECONDS'' then Some (xnum (now s - t0 s))
     else if k = ''EPOCHREALTIME'' then Some (e_clock E)
     else if k = ''EPOCHSECONDS'' then Some (xnum (now s))
     else None)"

definition xval_name :: "xenv \<Rightarrow> xst \<Rightarrow> string \<Rightarrow> xst \<times> string option" where
  "xval_name E x k =
    (case hibr_get (xs x) k of
       Some t \<Rightarrow> (x, Some t)
     | None \<Rightarrow>
         if k = ''RANDOM'' then (x\<lparr>x_rands := x_rands x + 1\<rparr>, Some (xnum (e_rnd E (x_rands x) mod 32768)))
         else (x, xval_dyn E (xs x) k))"

definition xunset :: "xenv \<Rightarrow> xst \<Rightarrow> xst" where
  "xunset E x =
    x\<lparr>xs := (xs x)\<lparr>st := if \<not> e_it E \<and> has (sopt (xs x)) O_DASHC \<and> \<not> e_subsh E then 127 else 1\<rparr>,
      x_stop := True, x_quit := x_quit x \<or> \<not> e_it E\<rparr>"

text \<open>A subscript without its quotes, and what they made literal.\<close>

fun ax_unq :: "char option \<Rightarrow> string \<Rightarrow> (char \<times> bool) list" where
  "ax_unq q [] = []"
| "ax_unq q (c # p) =
    (if q = None \<and> (c = CHR 0x22 \<or> c = CHR 0x27) then ax_unq (Some c) p
     else if q = Some c then ax_unq None p
     else (c, q \<noteq> None) # ax_unq q p)"

definition ax_path :: "xenv \<Rightarrow> sh \<Rightarrow> string \<Rightarrow> sh \<times> string \<times> string list" where
  "ax_path E s nm =
    (if CHR 0x22 \<in> set nm \<or> CHR 0x27 \<in> set nm
     then e_keys E s (map fst (ax_unq None nm)) (Some (map snd (ax_unq None nm)))
     else e_keys E s nm None)"

definition ax_rd :: "xenv \<Rightarrow> xst axrd" where
  "ax_rd E x skip nm =
    (if CHR ''['' \<in> set nm then
       (let (s, base, ks) = ax_path E (xs x) nm in (x\<lparr>xs := s\<rparr>, v_getp s base ks, False))
     else
       (let (x1, t) = xval_name E x nm in
        if t = None \<and> e_uset E \<and> \<not> skip then (xunset E x1, t, True) else (x1, t, False)))"

definition ax_wr :: "xenv \<Rightarrow> evalr \<Rightarrow> xst axwr" where
  "ax_wr E ax x nm v =
    (if CHR ''['' \<in> set nm then
       (let (s, base, ks) = ax_path E (xs x) nm in x\<lparr>xs := v_setp ax s base ks (xnum (sint v))\<rparr>)
     else x\<lparr>xs := fst (hibr_set ax (xs x) nm (xnum (sint v)) False)\<rparr>)"

text \<open>
  The evaluator the variable table calls for an integer variable: it stores numbers itself, so it is
  nested in itself, \<open>k\<close> deep.
\<close>

primrec axr :: "xenv \<Rightarrow> nat \<Rightarrow> nat \<Rightarrow> evalr" where
  "axr E f 0 = (\<lambda>s t. (s, 0))"
| "axr E f (Suc k) =
    (\<lambda>s t. case ax_run (ax_rd E) (ax_wr E (axr E f k)) f \<lparr>xs = s, x_rands = 0, x_stop = False, x_quit = False\<rparr> t of
       None \<Rightarrow> (s, 0)
     | Some (x, v) \<Rightarrow> (xs x, case v of None \<Rightarrow> 0 | Some n \<Rightarrow> sint n))"

subsection \<open>Quoted keys\<close>

text \<open>
  The quotes put back around the quoted runs inside a subscript: each byte has its mask bit, \<open>d\<close> is
  how many brackets are open and \<open>q\<close> whether a run of quotes is open.
\<close>

fun ax_requote :: "nat \<Rightarrow> bool \<Rightarrow> (char \<times> bool) list \<Rightarrow> string" where
  "ax_requote d q [] = (if q then [CHR 0x27] else [])"
| "ax_requote d q ((c, m) # t) =
    (if m \<and> d > 0 then
       (if c = CHR 0x27 then (if q then [CHR 0x27] else []) @ [CHR 0x22, CHR 0x27, CHR 0x22] @ ax_requote d False t
        else (if q then [] else [CHR 0x27]) @ c # ax_requote d True t)
     else
       (if q then [CHR 0x27] else []) @
       c # ax_requote (if \<not> m \<and> c = CHR ''['' then d + 1 else if \<not> m \<and> c = CHR '']'' \<and> d > 0 then d - 1 else d) False t)"

subsection \<open>Returning\<close>

text \<open>\<open>evt g r\<close>: from some fuel on, \<open>g\<close> returns \<open>r\<close>.\<close>

definition evt :: "(nat \<Rightarrow> 'a option) \<Rightarrow> 'a \<Rightarrow> bool" where
  "evt g r \<longleftrightarrow> (\<exists>k. \<forall>j \<ge> k. g j = Some r)"

lemma evt_Some [simp]: "evt (\<lambda>f. Some x) r \<longleftrightarrow> r = x"
  by (auto simp: evt_def)

lemma evt_bind:
  assumes "evt g x" "evt (\<lambda>f. h f x) r"
  shows "evt (\<lambda>f. g f \<bind> h f) r"
proof -
  from assms obtain k l where "\<forall>j \<ge> k. g j = Some x" "\<forall>j \<ge> l. h j x = Some r" by (auto simp: evt_def)
  then have "\<forall>j \<ge> max k l. (g j \<bind> h j) = Some r" by simp
  then show ?thesis unfolding evt_def by blast
qed

lemma evt_Suc: "evt (\<lambda>f. g (Suc f)) r \<Longrightarrow> evt g r"
  unfolding evt_def by (metis Suc_le_D Suc_le_mono)

lemma evt_unique: "evt g r \<Longrightarrow> evt g r' \<Longrightarrow> r = r'"
  unfolding evt_def by (metis max.cobounded1 max.cobounded2 option.inject)

text \<open>Returning in a state that satisfies \<open>P\<close>.\<close>

definition ret :: "(nat \<Rightarrow> (long \<times> 's axs) option) \<Rightarrow> ('s axs \<Rightarrow> bool) \<Rightarrow> bool" where
  "ret g P \<longleftrightarrow> (\<exists>v a. evt g (v, a) \<and> P a)"

named_theorems ret_rules \<open>how a call returns, by the shape of its body\<close>

lemma ret_Some [ret_rules]: "P a \<Longrightarrow> ret (\<lambda>f. Some (v, a)) P"
  by (auto simp: ret_def)

lemma ret_if [ret_rules]: "(b \<Longrightarrow> ret g P) \<Longrightarrow> (\<not> b \<Longrightarrow> ret h P) \<Longrightarrow> ret (\<lambda>f. if b then g f else h f) P"
  by (cases b) auto

lemma ret_option [ret_rules]: "(x = None \<Longrightarrow> ret g P) \<Longrightarrow> (\<And>y. x = Some y \<Longrightarrow> ret (\<lambda>f. h f y) P) \<Longrightarrow>
  ret (\<lambda>f. case x of None \<Rightarrow> g f | Some y \<Rightarrow> h f y) P"
  by (cases x) auto

lemma ret_prod [ret_rules]: "(\<And>y z. x = (y, z) \<Longrightarrow> ret (\<lambda>f. h f y z) P) \<Longrightarrow> ret (\<lambda>f. case x of (y, z) \<Rightarrow> h f y z) P"
  by (cases x) auto

lemma ret_bind:
  assumes "ret g P" "\<And>v a. P a \<Longrightarrow> ret (\<lambda>f. h f (v, a)) Q"
  shows "ret (\<lambda>f. g f \<bind> h f) Q"
proof -
  obtain v a where a: "evt g (v, a)" "P a" using assms(1) by (auto simp: ret_def)
  have "ret (\<lambda>f. h f (v, a)) Q" by (rule assms(2) [OF a(2)])
  then obtain w b where "evt (\<lambda>f. h f (v, a)) (w, b)" "Q b" by (auto simp: ret_def)
  then have "evt (\<lambda>f. g f \<bind> h f) (w, b)" by (intro evt_bind [OF a(1)])
  with \<open>Q b\<close> show ?thesis by (auto simp: ret_def)
qed

lemma ret_Suc: "ret (\<lambda>f. g (Suc f)) P \<Longrightarrow> ret g P"
  by (auto simp: ret_def intro: evt_Suc)

lemma ret_mono: "ret g P \<Longrightarrow> (\<And>a. P a \<Longrightarrow> Q a) \<Longrightarrow> ret g Q"
  by (auto simp: ret_def)

subsection \<open>The evaluator always returns\<close>

lemmas ax_moves = ax_ws_def ax_err_def ax_adv_def

text \<open>The text only gets shorter and the depth only grows.\<close>

definition ax_le :: "'s axs \<Rightarrow> 's axs \<Rightarrow> bool" where
  "ax_le b a \<longleftrightarrow> length (ax_p b) \<le> length (ax_p a) \<and> ax_depth a \<le> ax_depth b"

lemma ax_le_trans: "ax_le c b \<Longrightarrow> ax_le b a \<Longrightarrow> ax_le c a"
  by (auto simp: ax_le_def)

lemma ax_ws_len: "length (ax_p (ax_ws a)) \<le> length (ax_p a)"
  by (simp add: ax_ws_def length_dropWhile_le)

lemma ax_ws_depth [simp]: "ax_depth (ax_ws a) = ax_depth a" "ax_st (ax_ws a) = ax_st a" "ax_skip (ax_ws a) = ax_skip a"
  "ax_bad (ax_ws a) = ax_bad a" "ax_hasq (ax_ws a) = ax_hasq a"
  by (simp_all add: ax_ws_def)

lemma ax_subs_len: "ax_subs p = Some q \<Longrightarrow> length q \<le> length p"
proof (induction p rule: ax_subs.induct)
  case (1 p)
  then show ?case using ax_close_len [of "tl p" 1]
    by (subst (asm) (2) ax_subs.simps) (fastforce split: if_splits option.splits)
qed

lemma ax_name_len: "ax_name a = (b, x) \<Longrightarrow> length (ax_p b) \<le> length (ax_p a) \<and> ax_depth b = ax_depth a \<and> ax_st b = ax_st a \<and>
    ax_skip b = ax_skip a \<and> (x \<noteq> None \<longrightarrow> length (ax_p b) < length (ax_p a))"
proof -
  assume n: "ax_name a = (b, x)"
  have "length (dropWhile ax_idch (ax_p a)) < length (ax_p a)" if "ax_idstart (at (ax_p a) 0)"
    using that length_dropWhile_le [of ax_idch "tl (ax_p a)"]
    by (cases "ax_p a") (auto simp: ax_idstart_def ax_idch_def isalnum_def)
  with n show ?thesis
    by (auto simp: ax_name_def ax_err_def split: if_splits option.splits dest: ax_subs_len)
qed

lemma ax_op_pos: "ax_op p = Some (op, pr, ln) \<Longrightarrow> p \<noteq> [] \<and> 0 < ln"
  by (auto simp: ax_op_def ax_best_def ax_ln_def split: if_splits option.splits)

lemma ax_asop_pos: "ax_asop p = Some (n, op) \<Longrightarrow> p \<noteq> [] \<and> 0 < n"
  by (auto simp: ax_asop_def ax_as_def split: if_splits)

lemma ax_do_keeps: "ax_do a op l r = (v, b) \<Longrightarrow> ax_p b = ax_p a \<and> ax_depth b = ax_depth a \<and> ax_st b = ax_st a \<and> ax_skip b = ax_skip a"
  by (auto simp: ax_do_def ax_err_def split: if_splits option.splits)

lemma ax_set_keeps [simp]: "ax_p (ax_set wr a nm v) = ax_p a" "ax_depth (ax_set wr a nm v) = ax_depth a" "ax_skip (ax_set wr a nm v) = ax_skip a"
  by (simp_all add: ax_set_def)

lemma digs_drop: "length q \<le> n \<Longrightarrow> length (snd (digs b 0 (if c then drop 2 q else q))) \<le> n"
  using digs_length [of b 0 q] digs_length [of b 0 "drop 2 q"] by (cases c) auto

lemma strtol_len: "length (snd (strtol b p)) \<le> length p"
proof -
  have "length (if d then tl (dropWhile isspace p) else dropWhile isspace p) \<le> length p" for d
    using length_dropWhile_le [of isspace p] by (cases d) auto
  note d = digs_drop [OF this]
  have i: "length (snd (if A then (x, snd y) else (0, p))) \<le> length p" if "length (snd y) \<le> length p" for A and x :: int and y :: "nat \<times> string"
    using that by simp
  show ?thesis unfolding strtol_def strtol_raw_def Let_def case_prod_unfold snd_conv by (rule i) (rule d)
qed

lemma ax_num_len: "ax_num p = (v, r) \<Longrightarrow> length r \<le> length p"
  using strtol_len [of 0 p] by (auto simp: ax_num_def Let_def split: prod.splits)

lemma ax_digits_len: "ax_digits b v p = (w, r) \<Longrightarrow> length r \<le> length p"
  by (induction b v p rule: ax_digits.induct) (auto split: option.splits simp: le_SucI)


subsubsection \<open>Each call returns where its calls do\<close>

abbreviation (input) ax_ret :: "'s axrd \<Rightarrow> 's axwr \<Rightarrow> axcall \<Rightarrow> 's axs \<Rightarrow> bool" where
  "ax_ret rd wr c a \<equiv> ret (\<lambda>f. ax_ev rd wr f c a) (\<lambda>b. ax_le b a)"

fun ax_rank :: "axcall \<Rightarrow> nat" where
  "ax_rank XComma = 6"
| "ax_rank XAssign = 5"
| "ax_rank XTern = 4"
| "ax_rank (XBin mp) = 3"
| "ax_rank XUn = 2"
| "ax_rank XPrim = 1"
| "ax_rank _ = 0"

definition ax_room :: "'s axs \<Rightarrow> nat" where
  "ax_room a = AXDEPTH + 1 - ax_depth a"

lemma ax_room: "ax_depth a \<le> ax_depth b \<Longrightarrow> ax_room b \<le> ax_room a"
  "ax_depth a < ax_depth b \<Longrightarrow> ax_depth a \<le> AXDEPTH \<Longrightarrow> ax_room b < ax_room a"
  unfolding ax_room_def by linarith+

definition ax_meas :: "axcall \<Rightarrow> 's axs \<Rightarrow> nat \<times> nat \<times> nat" where
  "ax_meas c a = (ax_room a, length (ax_p a), ax_rank c)"

definition ax_less :: "((axcall \<times> 's axs) \<times> (axcall \<times> 's axs)) set" where
  "ax_less = inv_image (less_than <*lex*> less_than <*lex*> less_than) (case_prod ax_meas)"

lemma wf_ax_less: "wf ax_less"
  by (simp add: ax_less_def wf_lex_prod)

lemma ax_less_iff: "((d, b), (c, a)) \<in> ax_less \<longleftrightarrow> ax_room b < ax_room a \<or> ax_room b = ax_room a \<and>
      (length (ax_p b) < length (ax_p a) \<or> length (ax_p b) = length (ax_p a) \<and> ax_rank d < ax_rank c)"
  by (simp add: ax_less_def ax_meas_def)

lemma ax_less_rank: "ax_le b a \<Longrightarrow> ax_rank d < ax_rank c \<Longrightarrow> ((d, b), (c, a)) \<in> ax_less"
  using ax_room(1) [of a b] by (auto simp: ax_less_iff ax_le_def)

lemma ax_less_text: "ax_depth a \<le> ax_depth b \<Longrightarrow> length (ax_p b) < length (ax_p a) \<Longrightarrow> ((d, b), (c, a)) \<in> ax_less"
  using ax_room(1) [of a b] by (auto simp: ax_less_iff)

lemma ax_less_depth: "ax_depth a < ax_depth b \<Longrightarrow> ax_depth a \<le> AXDEPTH \<Longrightarrow> ((d, b), (c, a)) \<in> ax_less"
  using ax_room(2) [of a b] by (auto simp: ax_less_iff)

lemma ax_ret_unfold: "ret (\<lambda>f. case c of
       XComma \<Rightarrow> ax_comma (ax_ev rd wr f) a
     | XCommas v \<Rightarrow> ax_commas (ax_ev rd wr f) v a
     | XAssign \<Rightarrow> ax_assign rd wr (ax_ev rd wr f) a
     | XTern \<Rightarrow> ax_tern (ax_ev rd wr f) a
     | XBin mp \<Rightarrow> ax_bin (ax_ev rd wr f) mp a
     | XLoop mp l \<Rightarrow> ax_loop (ax_ev rd wr f) mp l a
     | XUn \<Rightarrow> ax_un rd wr (ax_ev rd wr f) a
     | XUnop \<Rightarrow> ax_unop (ax_ev rd wr f) a
     | XPrim \<Rightarrow> ax_prim rd wr (ax_ev rd wr f) a
     | XSub t \<Rightarrow> ax_sub (ax_ev rd wr f) t a) P \<Longrightarrow> ret (\<lambda>f. ax_ev rd wr f c a) P"
  by (rule ret_Suc) simp

text \<open>A call made at \<open>b\<close>, no further than \<open>a\<close>.\<close>

lemma ax_ret_at: "ax_ret rd wr d b \<Longrightarrow> ax_le b a \<Longrightarrow> ret (\<lambda>f. ax_ev rd wr f d b) (\<lambda>b. ax_le b a)"
  by (erule ret_mono) (rule ax_le_trans)

lemma ax_get_ret:
  assumes "\<And>t b. ax_p b = ax_p a \<Longrightarrow> ax_depth b = ax_depth a \<Longrightarrow> ax_ret rd wr (XSub t) b"
  shows "ret (\<lambda>f. ax_get rd (\<lambda>t. ax_ev rd wr f (XSub t)) a nm) (\<lambda>b. ax_le b a)"
  unfolding ax_get_def ax_val_def Let_def
  by (intro ret_rules ax_ret_at [OF assms]) (simp_all add: ax_le_def)

lemma ax_adv_le: "ax_le (ax_adv n a) a" "ax_le (ax_ws a) a" "ax_le (ax_err a) a" "ax_le a a"
  by (simp_all add: ax_le_def ax_moves length_dropWhile_le)


lemma ax_tot_comma:
  assumes IH: "\<And>d b. ((d, b), (XComma, a)) \<in> ax_less \<Longrightarrow> ax_ret rd wr d b"
  shows "ret (\<lambda>f. ax_comma (ax_ev rd wr f) a) (\<lambda>b. ax_le b a)"
  unfolding ax_comma_def
proof (rule ret_bind [OF IH]; (simp only: prod.case)?)
  fix b :: "'a axs" assume b: "ax_le b a"
  show "ret (\<lambda>f. ax_ev rd wr f (XCommas v) b) (\<lambda>b. ax_le b a)" for v
    by (intro ax_ret_at [OF IH] ax_less_rank b) simp
qed (simp add: ax_less_rank ax_adv_le)

lemma ax_tot_commas:
  assumes IH: "\<And>d b. ((d, b), (XCommas v, a)) \<in> ax_less \<Longrightarrow> ax_ret rd wr d b"
  shows "ret (\<lambda>f. ax_commas (ax_ev rd wr f) v a) (\<lambda>b. ax_le b a)"
proof -
  have l: "length (ax_p (ax_adv 1 (ax_ws a))) < length (ax_p a)" if "at (ax_p (ax_ws a)) 0 = CHR '',''"
    using that ax_ws_len [of a] by (cases "ax_p (ax_ws a)") (auto simp: ax_adv_def)
  have c: "ret (\<lambda>f. ax_ev rd wr f (XCommas w) b) (\<lambda>b. ax_le b a)"
    if "at (ax_p (ax_ws a)) 0 = CHR '',''" "ax_le b (ax_adv 1 (ax_ws a))" for w b
  proof (intro ax_ret_at [OF IH] ax_less_text)
    show "ax_depth a \<le> ax_depth b" "length (ax_p b) < length (ax_p a)" "ax_le b a"
      using that l by (simp_all add: ax_le_def) (simp_all add: ax_adv_def)
  qed
  show ?thesis
    unfolding ax_commas_def Let_def
    using l c by (intro ret_rules ret_bind [OF IH] ax_less_text; simp add: ax_adv_le) (simp_all add: ax_adv_def)
qed


text \<open>A call on a shorter text, and a call of lower rank on no longer a text.\<close>

lemma ax_call_text:
  assumes IH: "\<And>d b. ((d, b), (c, a)) \<in> ax_less \<Longrightarrow> ax_ret rd wr d b"
    and "ax_le b a" "length (ax_p b) < length (ax_p a)"
  shows "ret (\<lambda>f. ax_ev rd wr f d b) (\<lambda>b. ax_le b a)"
  using assms(2,3) by (intro ax_ret_at [OF IH] ax_less_text) (simp_all add: ax_le_def)

lemma ax_call_rank:
  assumes IH: "\<And>d b. ((d, b), (c, a)) \<in> ax_less \<Longrightarrow> ax_ret rd wr d b"
    and "ax_le b a" "ax_rank d < ax_rank c"
  shows "ret (\<lambda>f. ax_ev rd wr f d b) (\<lambda>b. ax_le b a)"
  using assms(2,3) by (intro ax_ret_at [OF IH] ax_less_rank)

text \<open>A call past some of the text returns past it too.\<close>

lemma ax_call_adv:
  assumes IH: "\<And>d b. ((d, b), (c, a)) \<in> ax_less \<Longrightarrow> ax_ret rd wr d b"
    and "ax_le b a" "length (ax_p b) < length (ax_p a)"
  shows "ret (\<lambda>f. ax_ev rd wr f d b) (\<lambda>b. ax_le b a \<and> length (ax_p b) < length (ax_p a))"
  using assms(2,3) by (intro ret_mono [OF IH] ax_less_text) (auto simp: ax_le_def)

lemma ax_adv_lt: "0 < n \<Longrightarrow> ax_p a \<noteq> [] \<Longrightarrow> length (ax_p (ax_adv n a)) < length (ax_p a)"
  by (cases "ax_p a") (auto simp: ax_adv_def)

lemma ax_adv_ws: "0 < n \<Longrightarrow> ax_p (ax_ws a) \<noteq> [] \<Longrightarrow> length (ax_p (ax_adv n (ax_ws a))) < length (ax_p a)"
  using ax_adv_lt [of n "ax_ws a"] ax_ws_len [of a] by linarith

lemma ax_le_ws: "ax_le (ax_adv n (ax_ws a)) a" "ax_le b a \<Longrightarrow> ax_le (ax_ws b) a" "ax_le b a \<Longrightarrow> ax_le (ax_adv n b) a"
  "ax_le b a \<Longrightarrow> ax_le (ax_err b) a"
  using ax_le_trans ax_adv_le by blast+

lemma ax_le_upd [simp]:
  "ax_le (b\<lparr>ax_skip := k\<rparr>) a \<longleftrightarrow> ax_le b a" "ax_le (b\<lparr>ax_bad := q\<rparr>) a \<longleftrightarrow> ax_le b a" "ax_le (b\<lparr>ax_st := s\<rparr>) a \<longleftrightarrow> ax_le b a"
  "ax_le (ax_set wr b nm v) a \<longleftrightarrow> ax_le b a" "ax_le (b\<lparr>ax_p := []\<rparr>) a \<longleftrightarrow> ax_depth a \<le> ax_depth b"
  by (simp_all add: ax_le_def)

lemma ax_at_ne: "at p 0 \<noteq> NUL \<Longrightarrow> p \<noteq> []"
  by auto

lemma ax_tot_bin:
  assumes IH: "\<And>d b. ((d, b), (XBin mp, a)) \<in> ax_less \<Longrightarrow> ax_ret rd wr d b"
  shows "ret (\<lambda>f. ax_bin (ax_ev rd wr f) mp a) (\<lambda>b. ax_le b a)"
  unfolding ax_bin_def
  by (rule ret_bind [OF ax_call_rank [OF IH]]; (simp only: prod.case)?) (auto intro: ax_call_rank [OF IH] ax_adv_le)

lemma ax_tot_loop:
  assumes IH: "\<And>d b. ((d, b), (XLoop mp l, a)) \<in> ax_less \<Longrightarrow> ax_ret rd wr d b"
  shows "ret (\<lambda>f. ax_loop (ax_ev rd wr f) mp l a) (\<lambda>b. ax_le b a)"
proof -
  have l: "length (ax_p (ax_adv ln (ax_ws a))) < length (ax_p a)" if "ax_op (ax_p (ax_ws a)) = Some (op, pr, ln)" for op pr ln
    using ax_adv_ws ax_op_pos [OF that] by blast
  have d: "ax_le c a \<and> length (ax_p c) < length (ax_p a)"
    if "ax_do b op l r = (v, c)" "ax_le b a \<and> length (ax_p b) < length (ax_p a)" for b c op l r v
    using that ax_do_keeps [OF that(1)] by (simp add: ax_le_def)
  show ?thesis
    unfolding ax_loop_def Let_def
  proof (intro ret_rules)
    fix x op y pr ln
    assume x: "ax_op (ax_p (ax_ws a)) = Some x" "x = (op, y)" "y = (pr, ln)"
    then have o: "ax_op (ax_p (ax_ws a)) = Some (op, pr, ln)" by simp
    let ?a = "ax_adv ln (ax_ws a)"
    show "ret (\<lambda>f. ax_ev rd wr f (XBin (pr + 1)) (?a\<lparr>ax_skip := ax_skip ?a + 1\<rparr>) \<bind>
        (\<lambda>(r, a2). ax_ev rd wr f (XLoop mp (ax_bool (op = 0))) (a2\<lparr>ax_skip := ax_skip a2 - 1\<rparr>))) (\<lambda>b. ax_le b a)"
      by (rule ret_bind [OF ax_call_adv [OF IH]]; (simp only: prod.case)?) (auto intro!: ax_call_text [OF IH] simp: l [OF o] ax_le_ws)
    show "ret (\<lambda>f. ax_ev rd wr f (XBin (if op = 18 then pr else pr + 1)) ?a \<bind>
        (\<lambda>(r, a2). case ax_do a2 op l r of (v, a3) \<Rightarrow> ax_ev rd wr f (XLoop mp v) a3)) (\<lambda>b. ax_le b a)"
      by (rule ret_bind [OF ax_call_adv [OF IH]]; (simp only: prod.case)?)
        (auto intro!: ret_prod ax_call_text [OF IH] dest!: d simp: l [OF o] ax_le_ws)
  qed (simp_all add: ax_le_ws ax_adv_le)
qed

lemma ax_tot_unop:
  assumes IH: "\<And>d b. ((d, b), (XUnop, a)) \<in> ax_less \<Longrightarrow> ax_ret rd wr d b"
  shows "ret (\<lambda>f. ax_unop (ax_ev rd wr f) a) (\<lambda>b. ax_le b a)"
  unfolding ax_unop_def
proof (intro ret_rules)
  assume "\<not> ax_depth a + 1 > AXDEPTH"
  then show "ret (\<lambda>f. ax_ev rd wr f XUn (a\<lparr>ax_depth := ax_depth a + 1\<rparr>) \<bind> (\<lambda>(v, a). Some (v, a\<lparr>ax_depth := ax_depth a - 1\<rparr>))) (\<lambda>b. ax_le b a)"
    by (intro ret_bind [OF IH] ax_less_depth; (simp only: prod.case)?) (auto intro!: ret_Some simp: ax_le_def)
qed (simp add: ax_le_def ax_err_def)

lemma ax_tot_sub:
  assumes IH: "\<And>d b. ((d, b), (XSub t, a)) \<in> ax_less \<Longrightarrow> ax_ret rd wr d b"
  shows "ret (\<lambda>f. ax_sub (ax_ev rd wr f) t a) (\<lambda>b. ax_le b a)"
  unfolding ax_sub_def
  by (intro ret_rules ret_bind [OF IH] ax_less_depth; (simp only: prod.case)?) (auto intro!: ret_Some simp: ax_le_def ax_err_def)


lemma ret_bind2: "ret g P \<Longrightarrow> (\<And>v a. P a \<Longrightarrow> ret (\<lambda>f. h f v a) Q) \<Longrightarrow> ret (\<lambda>f. g f \<bind> (\<lambda>(v, a). h f v a)) Q"
  using ret_bind [of g P "\<lambda>f (v, a). h f v a" Q] by simp

lemma ax_get_call:
  assumes IH: "\<And>d b. ((d, b), (c, a)) \<in> ax_less \<Longrightarrow> ax_ret rd wr d b"
    and "ax_le b a" "length (ax_p b) < length (ax_p a)"
  shows "ret (\<lambda>f. ax_get rd (\<lambda>t. ax_ev rd wr f (XSub t)) b nm) (\<lambda>b. ax_le b a)"
proof (rule ret_mono [OF ax_get_ret])
  fix t and b' :: "'a axs" assume "ax_p b' = ax_p b" "ax_depth b' = ax_depth b"
  with assms(2,3) show "ax_ret rd wr (XSub t) b'" by (intro IH ax_less_text) (simp_all add: ax_le_def)
qed (use assms(2) ax_le_trans in blast)

lemma ax_name_le:
  assumes "ax_name b = (d, x)" "ax_le b a"
  shows "ax_le d a" "x = Some nm \<Longrightarrow> length (ax_p d) < length (ax_p a)"
  using assms(2) ax_name_len [OF assms(1)] by (auto simp: ax_le_def)

lemma ax_tot_un:
  assumes IH: "\<And>d b. ((d, b), (XUn, a)) \<in> ax_less \<Longrightarrow> ax_ret rd wr d b"
  shows "ret (\<lambda>f. ax_un rd wr (ax_ev rd wr f) a) (\<lambda>b. ax_le b a)"
proof -
  have ne: "ax_p (ax_ws a) \<noteq> []" if "at (ax_p (ax_ws a)) 0 = c" "c \<noteq> NUL" for c using that by auto
  have u: "ret (\<lambda>f. ax_ev rd wr f XUnop (ax_adv 1 (ax_ws a))) (\<lambda>b. ax_le b a)" if "at (ax_p (ax_ws a)) 0 = c" "c \<noteq> NUL" for c
    using ax_adv_ws [of 1 a] ne [OF that] by (intro ax_call_text [OF IH]) (simp_all add: ax_le_ws)
  have g: "ret (\<lambda>f. ax_get rd (\<lambda>t. ax_ev rd wr f (XSub t)) b nm) (\<lambda>b. ax_le b a)"
    if "ax_name (ax_ws (ax_adv 2 (ax_ws a))) = (b, Some nm)" for b nm
    using ax_name_le [OF that, of a] by (intro ax_get_call [OF IH]) (simp_all add: ax_le_ws)
  have p: "ret (\<lambda>f. ax_ev rd wr f XPrim (ax_ws a)) (\<lambda>b. ax_le b a)"
    by (rule ax_call_rank [OF IH]) (auto simp: ax_adv_le)
  show ?thesis
    unfolding ax_un_def Let_def
    using ax_name_le(1) [of "ax_ws (ax_adv 2 (ax_ws a))"]
    by (intro ret_rules ret_bind [OF u] ret_bind [OF g] u p; (simp only: prod.case)?)
      (auto intro!: ret_Some simp: ax_le_ws)
qed

lemma ax_tot_prim:
  assumes IH: "\<And>d b. ((d, b), (XPrim, a)) \<in> ax_less \<Longrightarrow> ax_ret rd wr d b"
  shows "ret (\<lambda>f. ax_prim rd wr (ax_ev rd wr f) a) (\<lambda>b. ax_le b a)"
proof -
  let ?a = "ax_ws a"
  have c: "ret (\<lambda>f. ax_ev rd wr f XComma (ax_adv 1 (?a\<lparr>ax_depth := ax_depth ?a + 1\<rparr>)))
      (\<lambda>b. ax_le (b\<lparr>ax_depth := ax_depth b - 1\<rparr>) a)" if "\<not> ax_depth ?a + 1 > AXDEPTH"
    using that ax_ws_len [of a]
    by (intro ret_mono [OF IH [OF ax_less_depth]]) (auto simp: ax_le_def ax_adv_def)
  have g: "ret (\<lambda>f. ax_get rd (\<lambda>t. ax_ev rd wr f (XSub t)) b nm) (\<lambda>b. ax_le b a)" if "ax_name ?a = (b, Some nm)" for b nm
    using ax_name_le [OF that, of a] by (intro ax_get_call [OF IH]) (simp_all add: ax_adv_le)
  have n: "length r \<le> length (ax_p a)" if "ax_num (ax_p ?a) = (v, r)" for v r
    using ax_num_len [OF that] ax_ws_len [of a] by linarith
  have s: "length e \<le> length (ax_p a)" if "strtol 10 (ax_p ?a) = (v, e)" for v e
    using strtol_len [of 10 "ax_p ?a"] ax_ws_len [of a] that by simp
  have r: "length r \<le> length (ax_p a)" if "strtol 10 (ax_p ?a) = (v, e)" "ax_digits b w (tl e) = (x, r)" for v e b w x r
    using ax_digits_len [OF that(2)] s [OF that(1)] by simp
  have p: "ax_le (?a\<lparr>ax_p := r\<rparr>) a \<longleftrightarrow> length r \<le> length (ax_p a)" for r by (simp add: ax_le_def)
  have d: "ax_le ((ax_err (?a\<lparr>ax_depth := k\<rparr>))\<lparr>ax_p := []\<rparr>) a \<longleftrightarrow> ax_depth a \<le> k" for k by (simp add: ax_le_def ax_err_def)
  have t: "length (tl e) \<le> length (ax_p a)" if "strtol 10 (ax_p ?a) = (v, e)" for v e
    using s [OF that] by simp
  have m: "ax_le d a" if "ax_name ?a = (d, x)" for d x
    using ax_name_le(1) [OF that] by (simp add: ax_adv_le)
  show ?thesis
    unfolding ax_prim_def Let_def
    by (intro ret_rules ret_bind2 [OF g] ret_bind2 [OF c] n r t ax_le_ws(4) p [THEN iffD2] d [THEN iffD2])
      (auto simp: ax_le_ws ax_adv_le intro: n r t m ret_rules)
qed

lemma ax_tot_tern:
  assumes IH: "\<And>d b. ((d, b), (XTern, a)) \<in> ax_less \<Longrightarrow> ax_ret rd wr d b"
  shows "ret (\<lambda>f. ax_tern (ax_ev rd wr f) a) (\<lambda>b. ax_le b a)"
proof -
  have b: "ret (\<lambda>f. ax_ev rd wr f (XBin 1) a) (\<lambda>b. ax_le b a)"
    by (rule ax_call_rank [OF IH]) (auto simp: ax_adv_le)
  have t: "ret (\<lambda>f. ax_ev rd wr f XAssign ((ax_adv 1 (ax_ws b))\<lparr>ax_skip := k\<rparr>)) (\<lambda>b. ax_le b a)"
    if "ax_le b a" "\<not> at (ax_p (ax_ws b)) 0 \<noteq> c" "c \<noteq> NUL" for b k c
  proof -
    have "ax_p (ax_ws b) \<noteq> []" using that(2,3) by auto
    then have "length (ax_p (ax_adv 1 (ax_ws b))) < length (ax_p a)"
      using ax_adv_ws [of 1 b] that(1) by (simp add: ax_le_def)
    then show ?thesis using that(1) by (intro ax_call_text [OF IH]) (simp_all add: ax_le_ws)
  qed
  show ?thesis
    unfolding ax_tern_def Let_def
    by (intro ret_rules ret_bind2 [OF b] ret_bind2 [OF t]; assumption?) (simp_all add: ax_le_ws)
qed

lemma ax_tot_assign:
  assumes IH: "\<And>d b. ((d, b), (XAssign, a)) \<in> ax_less \<Longrightarrow> ax_ret rd wr d b"
  shows "ret (\<lambda>f. ax_assign rd wr (ax_ev rd wr f) a) (\<lambda>b. ax_le b a)"
proof -
  have t: "ret (\<lambda>f. ax_ev rd wr f XTern b) (\<lambda>b. ax_le b a)" if "ax_le b a" for b
    using that by (intro ax_call_rank [OF IH]) auto
  have t': "ret (\<lambda>f. ax_ev rd wr f XTern (b\<lparr>ax_p := ax_p (ax_ws a)\<rparr>)) (\<lambda>b. ax_le b a)" if "ax_name (ax_ws a) = (b, x)" for b x
    using ax_name_len [OF that] ax_ws_len [of a] by (intro t) (simp add: ax_le_def)
  have s: "ret (\<lambda>f. ax_ev rd wr f XAssign (ax_adv n (ax_ws b))) (\<lambda>b. ax_le b a \<and> length (ax_p b) < length (ax_p a))"
    if "ax_name (ax_ws a) = (b, Some nm)" for b nm n
  proof (intro ax_call_adv [OF IH])
    show "ax_le (ax_adv n (ax_ws b)) a" using ax_name_le(1) [OF that, of a] by (simp add: ax_le_ws ax_adv_le)
    have "length (ax_p b) < length (ax_p a)" using ax_name_le(2) [OF that, of a] by (simp add: ax_adv_le)
    then show "length (ax_p (ax_adv n (ax_ws b))) < length (ax_p a)" using ax_ws_len [of b] by (simp add: ax_adv_def)
  qed
  have g: "ret (\<lambda>f. ax_get rd (\<lambda>t. ax_ev rd wr f (XSub t)) b nm) (\<lambda>b. ax_le b a)"
    if "ax_le b a \<and> length (ax_p b) < length (ax_p a)" for b nm
    using that by (intro ax_get_call [OF IH]) simp_all
  have d: "ax_le c a" if "ax_do b op l r = (v, c)" "ax_le b a" for b c op l r v
    using that ax_do_keeps [OF that(1)] by (simp add: ax_le_def)
  show ?thesis
    unfolding ax_assign_def Let_def
    by (intro ret_rules ret_bind [OF s] t t' ax_adv_le; (simp only: prod.case)?)
      (auto intro!: ret_rules ret_bind [OF g] dest: d)
qed

lemma ax_ev_ret: "ax_ret rd wr c a"
proof (induction "(c, a)" arbitrary: c a rule: wf_induct_rule [OF wf_ax_less])
  case 1
  note IH = 1 [OF _]
  show ?case
    by (rule ax_ret_unfold, cases c)
      (auto intro: ax_tot_comma ax_tot_commas ax_tot_assign ax_tot_tern ax_tot_bin ax_tot_loop ax_tot_un ax_tot_unop ax_tot_prim ax_tot_sub 1)
qed

text \<open>C31: arithmetic always returns, whatever the text, the values of the variables and the
  operations on them: the depth limit ends a variable that names itself.\<close>

theorem ax_run_total: "\<exists>k r. \<forall>j. ax_run rd wr (k + j) s t = Some r"
proof -
  obtain v a where "evt (\<lambda>f. ax_ev rd wr f XComma (ax_start s t)) (v, a)" 
    using ax_ev_ret [of rd wr XComma "ax_start s t"] by (auto simp: ret_def)
  then obtain k where k: "\<forall>f \<ge> k. ax_ev rd wr f XComma (ax_start s t) = Some (v, a)" by (auto simp: evt_def)
  then have "\<forall>f \<ge> k. ax_run rd wr f s t = Some (ax_st a, if ax_bad a \<or> ax_p (ax_ws a) \<noteq> [] then None else Some v)"
    by (simp add: ax_run_def)
  then have "\<forall>j. ax_run rd wr (k + j) s t = Some (ax_st a, if ax_bad a \<or> ax_p (ax_ws a) \<noteq> [] then None else Some v)" by simp
  then show ?thesis by blast
qed

subsection \<open>What every call keeps\<close>

definition okr :: "(long \<times> 's axs) option \<Rightarrow> ('s axs \<Rightarrow> bool) \<Rightarrow> bool" where
  "okr g P \<longleftrightarrow> (\<forall>v b. g = Some (v, b) \<longrightarrow> P b)"

named_theorems okr_rules \<open>what holds after a call, by the shape of its body\<close>

lemma okr_simps [okr_rules]: "P b \<Longrightarrow> okr (Some (v, b)) P"
  by (simp add: okr_def)

lemma okr_if [okr_rules]: "(c \<Longrightarrow> okr g P) \<Longrightarrow> (\<not> c \<Longrightarrow> okr h P) \<Longrightarrow> okr (if c then g else h) P"
  by simp

lemma okr_option [okr_rules]: "(x = None \<Longrightarrow> okr g P) \<Longrightarrow> (\<And>y. x = Some y \<Longrightarrow> okr (h y) P) \<Longrightarrow>
  okr (case x of None \<Rightarrow> g | Some y \<Rightarrow> h y) P"
  by (cases x) auto

lemma okr_prod [okr_rules]: "(\<And>y z. x = (y, z) \<Longrightarrow> okr (h y z) P) \<Longrightarrow> okr (case x of (y, z) \<Rightarrow> h y z) P"
  by (cases x) auto

lemma okr_bind: "okr g P \<Longrightarrow> (\<And>v b. P b \<Longrightarrow> okr (h v b) Q) \<Longrightarrow> okr (g \<bind> (\<lambda>(v, b). h v b)) Q"
  by (cases g) (auto simp: okr_def)

lemma ax_moves_keep [simp]:
  "ax_st (ax_adv n a) = ax_st a" "ax_st (ax_err a) = ax_st a" "ax_skip (ax_adv n a) = ax_skip a" "ax_skip (ax_err a) = ax_skip a"
  by (simp_all add: ax_moves)

lemma ax_name_keeps: "ax_name a = (b, x) \<Longrightarrow> ax_st b = ax_st a \<and> ax_skip b = ax_skip a"
  using ax_name_len by blast

text \<open>A relation between states that storing a number keeps, and reading under the \<open>skip\<close> there is.\<close>

locale ax_store =
  fixes rd :: "'s axrd" and wr :: "'s axwr" and R :: "bool \<Rightarrow> 's \<Rightarrow> 's \<Rightarrow> bool"
  assumes refl: "R k s s"
    and trans: "R k s t \<Longrightarrow> R k t u \<Longrightarrow> R k s u"
    and skip: "R True s t \<Longrightarrow> R False s t"
    and rd: "R k s (fst (rd s k nm))"
    and wr: "R False s (wr s nm v)"
begin

definition stays :: "'s axs \<Rightarrow> 's axs \<Rightarrow> bool" where
  "stays a b \<longleftrightarrow> ax_skip b = ax_skip a \<and> R (ax_skip a > 0) (ax_st a) (ax_st b)"

lemma stays_refl: "ax_skip b = ax_skip a \<Longrightarrow> ax_st b = ax_st a \<Longrightarrow> stays a b"
  by (simp add: stays_def refl)

lemma stays_trans: "stays a b \<Longrightarrow> stays b c \<Longrightarrow> stays a c"
  using trans by (auto simp: stays_def)

lemma stays_same: "stays a b \<Longrightarrow> ax_skip c = ax_skip b \<Longrightarrow> ax_st c = ax_st b \<Longrightarrow> stays a c"
  by (simp add: stays_def)

lemma stays_set: "stays a b \<Longrightarrow> stays a (ax_set wr b nm v)"
  using trans wr by (auto simp: stays_def ax_set_def)

lemma stays_do: "ax_do b op l r = (v, c) \<Longrightarrow> stays a b \<Longrightarrow> stays a c"
  using ax_do_keeps [of b op l r v c] by (simp add: stays_def)

text \<open>What a call under one more \<open>skip\<close> stays is kept without it.\<close>

lemma stays_skip: "stays (a\<lparr>ax_skip := if c then ax_skip a + 1 else ax_skip a\<rparr>) b \<Longrightarrow>
    stays a (b\<lparr>ax_skip := if c then ax_skip b - 1 else ax_skip b\<rparr>)"
  using skip by (cases "ax_skip a") (auto simp: stays_def split: if_splits)

lemma okr_from: "okr g (stays b) \<Longrightarrow> stays a b \<Longrightarrow> okr g (stays a)"
  using stays_trans by (auto simp: okr_def)

lemma get_stays:
  assumes "\<And>t b. okr (sub t b) (stays b)"
  shows "okr (ax_get rd sub a nm) (stays a)"
proof -
  have r: "stays a (a\<lparr>ax_st := s, ax_bad := q\<rparr>)" if "rd (ax_st a) (ax_skip a > 0) nm = (s, x)" for s x q
    using rd [of "ax_skip a > 0" "ax_st a" nm] that by (simp add: stays_def)
  show ?thesis unfolding ax_get_def ax_val_def Let_def
    by (intro okr_rules okr_from [OF assms] r)
qed

lemma name_stays: "ax_name b = (c, x) \<Longrightarrow> stays a b \<Longrightarrow> stays a c"
  using ax_name_keeps by (fastforce simp: stays_def)

lemma call_stays: "(\<And>c b. okr (ev c b) (stays b)) \<Longrightarrow> stays a b \<Longrightarrow> okr (ev c b) (stays a)"
  using okr_from by blast

lemma call_get: "(\<And>c b. okr (ev c b) (stays b)) \<Longrightarrow> stays a b \<Longrightarrow> okr (ax_get rd (\<lambda>t. ev (XSub t)) b nm) (stays a)"
  by (rule okr_from [OF get_stays])

text \<open>A call with \<open>skip\<close> one higher, and the step back.\<close>

lemma call_skip:
  assumes "\<And>c b. okr (ev c b) (stays b)" "stays a b"
  shows "okr (ev c (b\<lparr>ax_skip := if q then ax_skip b + 1 else ax_skip b\<rparr>))
    (\<lambda>d. stays a (d\<lparr>ax_skip := if q then ax_skip d - 1 else ax_skip d\<rparr>))"
proof -
  have "stays a (d\<lparr>ax_skip := if q then ax_skip d - 1 else ax_skip d\<rparr>)"
    if "stays (b\<lparr>ax_skip := if q then ax_skip b + 1 else ax_skip b\<rparr>) d" for d
    using stays_trans [OF assms(2) stays_skip [OF that]] .
  then show ?thesis using assms(1) unfolding okr_def by blast
qed

lemma un_stays:
  assumes ev: "\<And>c b. okr (ev c b) (stays b)"
  shows "okr (ax_un rd wr ev a) (stays a)" "okr (ax_unop ev a) (stays a)" "okr (ax_prim rd wr ev a) (stays a)" "okr (ax_sub ev t a) (stays a)"
proof -
  have m: "stays a (ax_adv n (ax_ws a))" "stays a (ax_ws a)" "stays a (ax_err (ax_ws a))" for n by (simp_all add: stays_refl)
  have n: "stays a b" if "ax_name (ax_ws (ax_adv 2 (ax_ws a))) = (b, x) \<or> ax_name (ax_ws a) = (b, x)" for b x
    using that name_stays [of _ b x a] m by (auto simp: stays_refl)
  show "okr (ax_un rd wr ev a) (stays a)"
    unfolding ax_un_def Let_def
    by (intro okr_rules okr_bind [OF call_stays [OF ev]] okr_bind [OF call_get [OF ev]] call_stays [OF ev])
      (auto intro: n stays_set stays_same m)
  show "okr (ax_unop ev a) (stays a)"
    unfolding ax_unop_def
    by (intro okr_rules okr_bind [OF ev]) (auto simp: stays_def refl)
  show "okr (ax_sub ev t a) (stays a)"
    unfolding ax_sub_def
    by (intro okr_rules okr_bind [OF ev]) (auto simp: stays_def refl)
  have p: "okr (ev XComma (ax_adv 1 (ax_ws a\<lparr>ax_depth := d\<rparr>))) (stays a)" for d
    by (intro call_stays [OF ev] stays_refl) simp_all
  have i: "stays a (ax_adv n (ax_set wr (ax_ws b) nm v))" if "stays a b" for n b nm v
    using stays_set [OF stays_same [OF that, of "ax_ws b"], of nm v] by (rule stays_same) simp_all
  show "okr (ax_prim rd wr ev a) (stays a)"
    unfolding ax_prim_def Let_def
    by (intro okr_rules okr_bind [OF p] okr_bind [OF call_get [OF ev]])
      (auto intro: n i stays_same stays_refl intro!: okr_rules)
qed

lemma bin_stays:
  assumes ev: "\<And>c b. okr (ev c b) (stays b)"
  shows "okr (ax_bin ev mp a) (stays a)" "okr (ax_loop ev mp l a) (stays a)" "okr (ax_comma ev a) (stays a)" "okr (ax_commas ev v a) (stays a)"
proof -
  have m: "stays a (ax_adv n (ax_ws a))" "stays a (ax_ws a)" for n by (simp_all add: stays_refl)
  show "okr (ax_bin ev mp a) (stays a)" "okr (ax_comma ev a) (stays a)"
    unfolding ax_bin_def ax_comma_def by (intro okr_bind [OF ev] call_stays [OF ev]; assumption)+
  show "okr (ax_commas ev v a) (stays a)"
    unfolding ax_commas_def Let_def
    by (intro okr_rules okr_bind [OF call_stays [OF ev]] call_stays [OF ev]; assumption?) (simp_all add: m)
  have s: "okr (ev c (ax_adv n (ax_ws a)\<lparr>ax_skip := ax_skip (ax_adv n (ax_ws a)) + 1\<rparr>)) (\<lambda>d. stays a (d\<lparr>ax_skip := ax_skip d - 1\<rparr>))" for c n
    using call_skip [OF ev m(1), where q = True] by simp
  show "okr (ax_loop ev mp l a) (stays a)"
    unfolding ax_loop_def Let_def
    by (intro okr_rules okr_bind [OF s] okr_bind [OF call_stays [OF ev]] call_stays [OF ev]; assumption?)
      (auto intro: stays_do m)
qed

lemma assign_stays:
  assumes ev: "\<And>c b. okr (ev c b) (stays b)"
  shows "okr (ax_assign rd wr ev a) (stays a)" "okr (ax_tern ev a) (stays a)"
proof -
  have n: "stays a b" if "ax_name (ax_ws a) = (b, x)" for b x
    using name_stays [OF that, of a] by (simp add: stays_refl)
  have nw: "stays a (ax_adv k (ax_ws b))" "stays a (b\<lparr>ax_p := t\<rparr>)" if "ax_name (ax_ws a) = (b, x)" for b x k t
    using n [OF that] by (auto intro: stays_same)
  show "okr (ax_assign rd wr ev a) (stays a)"
    unfolding ax_assign_def Let_def
    by (intro okr_rules okr_bind [OF call_stays [OF ev]] okr_bind [OF call_get [OF ev]] call_stays [OF ev]; (rule nw, assumption)?)
      (auto intro: stays_refl stays_set stays_do)
  have w: "stays a (ax_adv 1 (ax_ws b))" "stays a (ax_ws b)" "stays a (ax_err (ax_ws b))" if "stays a b" for b
    using that by (auto intro: stays_same)
  show "okr (ax_tern ev a) (stays a)"
    unfolding ax_tern_def Let_def
    by (rule okr_bind [OF ev], intro okr_rules okr_bind [OF call_skip [OF ev, where a = a]]; assumption?) (simp_all only: w)
qed

lemma ev_stays: "okr (ax_ev rd wr f c a) (stays a)"
proof (induction f arbitrary: c a)
  case 0
  show ?case by (simp add: okr_def)
next
  case (Suc f)
  show ?case using un_stays [OF Suc] bin_stays [OF Suc] assign_stays [OF Suc] by (cases c) simp_all
qed

lemma run_stays: "ax_run rd wr f s t = Some (s', v) \<Longrightarrow> R False s s'"
  using ev_stays [of f XComma "ax_start s t"]
  by (auto simp: ax_run_def okr_def stays_def ax_start_def split: Option.bind_splits)

end

subsection \<open>Arithmetic and the variable table\<close>

text \<open>Expanding the keys of a subscript changes no variable, or keeps the table well formed.\<close>

definition e_quiet :: "xenv \<Rightarrow> bool" where
  "e_quiet E \<longleftrightarrow> (\<forall>s t m. fst (e_keys E s t m) = s)"

definition e_keeps :: "xenv \<Rightarrow> bool" where
  "e_keeps E \<longleftrightarrow> (\<forall>s t m. sh_ok s \<longrightarrow> sh_ok (fst (e_keys E s t m)))"

lemma xval_name_xs [simp]: "xs (fst (xval_name E x k)) = xs x"
  by (simp add: xval_name_def split: option.split)

lemma xval_name_rd: "xval_name E x k = (y, t) \<Longrightarrow> xs y = xs x"
  using xval_name_xs [of E x k] by simp

interpretation quiet: ax_store "ax_rd E" "ax_wr E ax" "\<lambda>k x y. e_quiet E \<and> k \<longrightarrow> xs x = xs y" for E ax
proof
  fix k x nm
  have "xs (fst (ax_rd E x True nm)) = xs x" if "e_quiet E"
    using that by (auto simp: ax_rd_def ax_path_def e_quiet_def Let_def split: prod.split dest: xval_name_rd) (metis fst_conv)+
  then show "e_quiet E \<and> k \<longrightarrow> xs x = xs (fst (ax_rd E x k nm))" by (cases k) auto
qed auto

lemma ax_path_keeps: "e_keeps E \<Longrightarrow> sh_ok s \<Longrightarrow> sh_ok (fst (ax_path E s nm))"
  by (simp add: ax_path_def e_keeps_def)

interpretation kept: ax_store "ax_rd E" "ax_wr E ax" "\<lambda>k x y. e_keeps E \<and> ax_keeps ax \<and> sh_ok (xs x) \<longrightarrow> sh_ok (xs y)" for E ax
proof
  fix k x nm v
  have u: "sh_ok (xs (xunset E y)) \<longleftrightarrow> sh_ok (xs y)" for y by (simp add: xunset_def sh_ok_def tab_ok_def)
  show "e_keeps E \<and> ax_keeps ax \<and> sh_ok (xs x) \<longrightarrow> sh_ok (xs (fst (ax_rd E x k nm)))"
    using ax_path_keeps [of E "xs x" nm] by (auto simp: ax_rd_def Let_def u split: prod.split dest: xval_name_rd)
  show "e_keeps E \<and> ax_keeps ax \<and> sh_ok (xs x) \<longrightarrow> sh_ok (xs (ax_wr E ax x nm v))"
    using ax_path_keeps [of E "xs x" nm]
    by (auto simp: ax_wr_def case_prod_unfold Let_def intro: v_setp_ok hibr_set_ok)
qed auto


text \<open>C33: evaluating keeps the variable table well formed, through every assignment it makes, so the
  shell's evaluator is one the theorems on variables can be used with.\<close>

theorem arith_keeps_table:
  assumes "e_keeps E"
  shows "ax_keeps (axr E f k)"
proof (induction k)
  case (Suc k)
  show ?case
    using kept.run_stays [of E "axr E f k" f] assms Suc
    by (force simp: ax_keeps_def split: option.split prod.split)
qed (simp add: ax_keeps_def)

text \<open>A variable whose value is no expression is an error even where it is not evaluated.\<close>

lemma skipped_junk: "ax_run (\<lambda>s k n. (s, if n = ''j'' then Some ''a b'' else None, False)) (\<lambda>s n v. s) 40 () ''1 || j'' = Some ((), None)"
  by code_simp


definition env0 :: xenv where
  "env0 = \<lparr>e_rnd = (\<lambda>n. 0), e_src = None, e_ln = 1, e_clock = [], e_uset = False, e_it = False, e_subsh = False,
    e_keys = (\<lambda>s t m. (s, takeWhile (\<lambda>c. c \<noteq> CHR ''['') t, [''0'']))\<rparr>"

definition xst0 :: xst where
  "xst0 = \<lparr>xs = sh0, x_rands = 0, x_stop = False, x_quit = False\<rparr>"


theorem arith_keeps_table_witness: "ax_keeps (axr env0 100 2)"
  by (rule arith_keeps_table) (simp add: e_keeps_def env0_def)

subsection \<open>The operators\<close>

lemma ax_pow_power: "ax_pow acc base r = acc * base ^ r"
proof (induction acc base r rule: ax_pow.induct)
  case (1 acc base r)
  have "base ^ r = (base * base) ^ (r div 2) * (if odd r then base else 1)"
  proof (cases "even r")
    case True
    then obtain k where "r = 2 * k" by (elim evenE)
    then show ?thesis by (simp add: power_mult power2_eq_square)
  next
    case False
    then obtain k where r: "r = 2 * k + 1" by (elim oddE)
    then have "base ^ r = base * (base * base) ^ k" by (simp add: power_mult power2_eq_square)
    moreover have "r div 2 = k" using r by simp
    ultimately show ?thesis using False by (simp add: mult.commute)
  qed
  with 1 show ?case by (subst ax_pow.simps) (auto simp: ac_simps)
qed

lemma sint_bounds: "- (2 ^ 63) \<le> sint (x :: long)" "sint (x :: long) < 2 ^ 63"
  using sint_greater_eq [of x] sint_less [of x] by simp_all

lemma word_of_int_sint_small: "- (2 ^ 63) \<le> n \<Longrightarrow> n < 2 ^ 63 \<Longrightarrow> sint (word_of_int n :: long) = n"
  by (simp add: sint_sbintrunc' signed_take_bit_int_eq_self)

text \<open>Division truncates towards zero with a remainder of the dividend's sign, the two agree even
  where the quotient wraps, a zero divisor is refused, and a power is the power, wrapped.\<close>

theorem ax_calc_laws:
  "(r \<noteq> 0 \<longrightarrow> (\<exists>q m. ax_calc 16 l r = Some q \<and> ax_calc 17 l r = Some m \<and> q * r + m = l \<and> abs (sint m) < abs (sint r) \<and>
      (m = 0 \<or> sgn (sint m) = sgn (sint l)))) \<and>
   ax_calc 16 l 0 = None \<and> ax_calc 17 l 0 = None \<and>
   ax_calc 18 l r = (if sint r < 0 then None else Some (l ^ nat (sint r)))"
proof -
  have "\<exists>q m. ax_calc 16 l r = Some q \<and> ax_calc 17 l r = Some m \<and> q * r + m = l \<and> abs (sint m) < abs (sint r) \<and>
      (m = 0 \<or> sgn (sint m) = sgn (sint l))" if r: "r \<noteq> 0"
  proof (cases "r = -1")
    case True
    then show ?thesis by (simp add: ax_calc_def)
  next
    case False
    have sr: "sint r \<noteq> 0" using r by (metis signed_0 signed_word_eqI)
    let ?q = "sint l sdiv sint r" and ?m = "sint l smod sint r"
    have id: "?q * sint r + ?m = sint l" by (simp add: sdiv_mult_smod_eq)
    have m: "abs ?m < abs (sint r)" "?m = 0 \<or> sgn ?m = sgn (sint l)"
    proof -
      have "0 \<le> abs (sint l) mod abs (sint r)" "abs (sint l) mod abs (sint r) < abs (sint r)" using sr by simp_all
      moreover from this(1) have "sgn (abs (sint l) mod abs (sint r)) \<in> {0, 1}" by (auto simp: sgn_if)
      ultimately show "abs ?m < abs (sint r)" "?m = 0 \<or> sgn ?m = sgn (sint l)"
        by (auto simp: smod_int_alt_def sgn_mult abs_mult sgn_0_0)
    qed
    have "sint (word_of_int ?m :: long) = ?m"
      using m sint_bounds [of r] by (intro word_of_int_sint_small) linarith+
    moreover have "word_of_int ?q * r + word_of_int ?m = l"
    proof -
      have "word_of_int ?q * r + word_of_int ?m = word_of_int ?q * word_of_int (sint r) + (word_of_int ?m :: long)" by simp
      also have "\<dots> = word_of_int (?q * sint r + ?m)" by (simp only: wi_hom_mult wi_hom_add)
      finally show ?thesis unfolding id by simp
    qed
    moreover have "?m = 0 \<Longrightarrow> word_of_int ?m = (0 :: long)" by simp
    ultimately show ?thesis using m False r by (auto simp: ax_calc_def)
  qed
  moreover have "unat r = nat (sint r)" if "\<not> sint r < 0"
  proof -
    have "uint r = uint (word_of_int (sint r) :: long)" by simp
    also have "\<dots> = sint r mod 2 ^ 64" by (simp only: uint_word_of_int) simp
    also have "\<dots> = sint r" using that sint_bounds [of r] by (intro mod_pos_pos_trivial) simp_all
    finally show ?thesis by (simp only: unat_eq_nat_uint)
  qed
  ultimately show ?thesis by (auto simp: ax_calc_def ax_pow_power)
qed

theorem ax_calc_laws_witness:
  "\<exists>q m. ax_calc 16 (- 7) 2 = Some q \<and> ax_calc 17 (- 7) 2 = Some m \<and> q * 2 + m = - 7"
proof -
  have "(2 :: long) \<noteq> 0" by simp
  with ax_calc_laws [of 2 "- 7"] show ?thesis by blast
qed

end
