(* ===== verification/ArithExpr.thy ===== *)
theory ArithExpr
  imports Arith
begin

text \<open>
  The evaluator of Arith is right on expressions: the text of an expression tree, written with the
  parentheses its precedences need, evaluates to the value of the tree, with the assignments, the
  short circuits and the errors of the tree in its order.
\<close>

subsection \<open>Numbers in text\<close>

text \<open>What follows an operand in the text of an expression: nothing, a space or a parenthesis.\<close>

definition aft :: "string \<Rightarrow> bool" where
  "aft r \<longleftrightarrow> r = [] \<or> hd r = CHR '' '' \<or> hd r = CHR '')''"

lemma aft_at: "aft r \<Longrightarrow> at r 0 = NUL \<or> at r 0 = CHR '' '' \<or> at r 0 = CHR '')''"
  by (cases r) (auto simp: aft_def)

lemma aft_digval: "aft r \<Longrightarrow> r = [] \<or> \<not> digval (hd r) < 10"
  by (auto simp: aft_def digval_def byte_simps)

lemma putdig_hd: "t > 0 \<Longrightarrow> at (putdig t []) 0 \<noteq> CHR ''0''"
proof (induction t rule: less_induct)
  case (less t)
  have d: "chr (48 + t mod 10) = CHR ''0'' \<longleftrightarrow> t mod 10 = 0"
  proof -
    have "CHR ''0'' = chr 48" by code_simp
    moreover have "48 + t mod 10 < 256" by (rule less_trans [of _ 58]) auto
    ultimately show ?thesis using chr_inj [of "48 + t mod 10" 48] by simp
  qed
  show ?case
  proof (cases "t div 10 = 0")
    case True
    then have "t < 10" by (simp add: div_eq_0_iff)
    then have "t mod 10 \<noteq> 0" using less.prems by simp
    with True d show ?thesis by (simp add: putdig.simps [of t])
  next
    case False
    then have "at (putdig (t div 10) []) 0 \<noteq> CHR ''0''" using less.IH [of "t div 10"] by (simp add: div_eq_0_iff)
    then have "at (putdig (t div 10) [] @ [chr (48 + t mod 10)]) 0 \<noteq> CHR ''0''"
      using putdig_ne [of "t div 10" "[]"] by (simp add: at_append_less)
    with False putdig_append [of "t div 10" "[chr (48 + t mod 10)]"] show ?thesis by (simp add: putdig.simps [of t])
  qed
qed

lemma strtol_raw0_s_num:
  assumes "aft rest"
  shows "strtol_raw 0 (s_num v @ rest) = (v, rest)"
proof -
  let ?t = "nat \<bar>v\<bar>"
  obtain c cs where p: "putdig ?t [] = c # cs" "isdigit c" by (rule putdig_Cons)
  have d: "digs 10 0 (putdig ?t [] @ rest) = (?t, rest)"
    using digs_putdig [of 0 ?t rest] digs_stop [OF aft_digval [OF assms]] by (simp flip: putdig_append)
  have s: "\<not> isspace c" "c \<noteq> CHR ''-''" "c \<noteq> CHR ''+''" using digit_not_space [OF p(2)] by auto
  show ?thesis
  proof (cases "?t = 0")
    case True
    have z: "putdig 0 [] = ''0''" by code_simp
    have "at rest 0 \<noteq> CHR ''x''" "at rest 0 \<noteq> CHR ''X''" using aft_at [OF assms] by auto
    moreover have "digs 8 0 rest = (0, rest)" using aft_digval [OF assms] by (intro digs_stop) auto
    moreover have "\<not> isspace (CHR ''0'')" "digval (CHR ''0'') = 0" by (simp_all add: byte_simps digval_def)
    ultimately show ?thesis using True z by (simp add: strtol_raw_def s_num_def Let_def isspace_def)
  next
    case False
    then have "c \<noteq> CHR ''0''" using putdig_hd [of ?t] p(1) by simp
    with d p s digval_isdigit [OF p(2)] show ?thesis by (auto simp: strtol_raw_def s_num_def Let_def isspace_def)
  qed
qed

lemma ax_big_dec:
  "\<not> axsp c \<Longrightarrow> c \<noteq> CHR ''+'' \<Longrightarrow> c \<noteq> CHR ''0'' \<Longrightarrow> ax_big ((c # cs) @ rest) rest = foldl (\<lambda>v c. v * 10 + bigdig c) 0 (c # cs)"
  by (simp add: ax_big_def Let_def del: foldl.simps foldl_Cons)

lemma bigdig_digs: "set cs \<subseteq> {c. isdigit c} \<Longrightarrow> foldl (\<lambda>v c. v * 10 + bigdig c) (of_nat a) cs = of_nat (fst (digs 10 a cs))"
proof (induction cs arbitrary: a)
  case (Cons c cs)
  then have c: "isdigit c" and cs: "set cs \<subseteq> {c. isdigit c}" by auto
  then have "digval c = byte c - 48" "48 \<le> byte c" by (simp_all add: digval_def byte_simps)
  then have "of_nat a * 10 + bigdig c = (of_nat (a * 10 + digval c) :: long)"
    using c by (simp add: bigdig_def of_nat_diff)
  with Cons.IH [OF cs, of "a * 10 + digval c"] digval_isdigit [OF c] show ?case by simp
qed simp

lemma ax_num_s_num:
  assumes "- (2 ^ 63) \<le> v" "v < 2 ^ 63" "aft rest"
  shows "ax_num (s_num v @ rest) = (word_of_int v, rest)"
proof -
  have s: "strtol 0 (s_num v @ rest) = (v, rest)"
    using assms(1,2) strtol_raw0_s_num [OF assms(3)] by (simp add: strtol_def clamp_long_def LONG_MAX_def LONG_MIN_def)
  show ?thesis
  proof (cases "v = LONG_MAX")
    case True
    let ?t = "nat LONG_MAX"
    obtain c cs where p: "putdig ?t [] = c # cs" "isdigit c" "set cs \<subseteq> {c. isdigit c}" by (rule putdig_Cons)
    have "c \<noteq> CHR ''0''" using putdig_hd [of ?t] p(1) by (simp add: LONG_MAX_def)
    moreover have "\<not> axsp c" "c \<noteq> CHR ''+''" using p(2) by (auto simp: axsp_def byte_simps)
    ultimately have "ax_big ((c # cs) @ rest) rest = foldl (\<lambda>v c. v * 10 + bigdig c) 0 (c # cs)"
      by (intro ax_big_dec)
    also have "\<dots> = of_nat (fst (digs 10 0 (putdig ?t [])))" using p bigdig_digs [of "c # cs" 0] by auto
    also have "fst (digs 10 0 (putdig ?t [])) = ?t" using digs_putdig [of 0 ?t "[]"] by simp
    finally have "ax_big (s_num LONG_MAX @ rest) rest = word_of_int LONG_MAX"
      using p(1) by (simp add: s_num_def LONG_MAX_def)
    then show ?thesis using s True by (simp add: ax_num_def)
  next
    case False
    with s show ?thesis by (simp add: ax_num_def)
  qed
qed

subsection \<open>Expressions\<close>

datatype axe =
    ENum nat
  | EVar string
  | EUn char axe
  | EBin nat axe axe
  | ECond axe axe axe
  | EAsg string nat axe
  | EPre bool string
  | EPost bool string
  | ESeq axe axe

definition opname :: "nat \<Rightarrow> string" where
  "opname op = [''||'', ''&&'', ''|'', ''^'', ''&'', ''=='', ''!='', ''<<'', ''>>'', ''<='', ''>='', ''<'', ''>'', ''+'', ''-'',
    ''*'', ''/'', ''%'', ''**''] ! op"

text \<open>How tight an expression binds: a sequence, an assignment or a choice, a binary operator, a
  prefix, an operand.\<close>

fun lev :: "axe \<Rightarrow> nat" where
  "lev (ESeq a b) = 0"
| "lev (EAsg nm i e) = 1"
| "lev (ECond c a b) = 1"
| "lev (EBin op a b) = ax_pr ! op + 1"
| "lev (EUn c e) = 14"
| "lev (EPre up nm) = 14"
| "lev _ = 15"

definition wrap :: "nat \<Rightarrow> nat \<Rightarrow> string \<Rightarrow> string" where
  "wrap n l t = (if l < n then ''('' @ t @ '')'' else t)"

text \<open>The levels the operands of a binary operator are written at: only \<open>**\<close> groups to the right.\<close>

definition llev :: "nat \<Rightarrow> nat" where
  "llev op = (if op = 18 then 14 else ax_pr ! op + 1)"

definition rlev :: "nat \<Rightarrow> nat" where
  "rlev op = (if op = 18 then 13 else ax_pr ! op + 2)"

fun etxt :: "axe \<Rightarrow> string" where
  "etxt (ENum n) = s_num (int n)"
| "etxt (EVar nm) = nm"
| "etxt (EUn c e) = c # '' '' @ wrap 14 (lev e) (etxt e)"
| "etxt (EBin op a b) = wrap (llev op) (lev a) (etxt a) @ '' '' @ opname op @ '' '' @ wrap (rlev op) (lev b) (etxt b)"
| "etxt (ECond c a b) = wrap 2 (lev c) (etxt c) @ '' ? '' @ wrap 1 (lev a) (etxt a) @ '' : '' @ wrap 1 (lev b) (etxt b)"
| "etxt (EAsg nm i e) = nm @ '' '' @ fst (ax_as ! i) @ '' '' @ wrap 1 (lev e) (etxt e)"
| "etxt (EPre up nm) = (if up then ''++'' else ''--'') @ nm"
| "etxt (EPost up nm) = nm @ (if up then ''++'' else ''--'')"
| "etxt (ESeq a b) = wrap 0 (lev a) (etxt a) @ '' , '' @ wrap 1 (lev b) (etxt b)"

text \<open>How deep the text nests, in parentheses and prefixes.\<close>

definition wd :: "nat \<Rightarrow> nat \<Rightarrow> nat \<Rightarrow> nat" where
  "wd n l d = (if l < n then d + 1 else d)"

fun dep :: "axe \<Rightarrow> nat" where
  "dep (EUn c e) = 1 + wd 14 (lev e) (dep e)"
| "dep (EBin op a b) = max (wd (llev op) (lev a) (dep a)) (wd (rlev op) (lev b) (dep b))"
| "dep (ECond c a b) = max (wd 2 (lev c) (dep c)) (max (wd 1 (lev a) (dep a)) (wd 1 (lev b) (dep b)))"
| "dep (EAsg nm i e) = wd 1 (lev e) (dep e)"
| "dep (ESeq a b) = max (wd 0 (lev a) (dep a)) (wd 1 (lev b) (dep b))"
| "dep _ = 0"

text \<open>The names are identifiers, the numbers fit and the operators are those there are.\<close>

definition ident :: "string \<Rightarrow> bool" where
  "ident nm \<longleftrightarrow> nm \<noteq> [] \<and> ax_idstart (hd nm) \<and> list_all ax_idch nm"

fun axe_ok :: "string set \<Rightarrow> axe \<Rightarrow> bool" where
  "axe_ok N (ENum n) \<longleftrightarrow> n < 2 ^ 63"
| "axe_ok N (EVar nm) \<longleftrightarrow> nm \<in> N"
| "axe_ok N (EUn c e) \<longleftrightarrow> c \<in> {CHR ''-'', CHR ''+'', CHR ''!'', CHR ''~''} \<and> axe_ok N e"
| "axe_ok N (EBin op a b) \<longleftrightarrow> op < 19 \<and> axe_ok N a \<and> axe_ok N b"
| "axe_ok N (ECond c a b) \<longleftrightarrow> axe_ok N c \<and> axe_ok N a \<and> axe_ok N b"
| "axe_ok N (EAsg nm i e) \<longleftrightarrow> nm \<in> N \<and> i < 12 \<and> axe_ok N e"
| "axe_ok N (EPre up nm) \<longleftrightarrow> nm \<in> N"
| "axe_ok N (EPost up nm) \<longleftrightarrow> nm \<in> N"
| "axe_ok N (ESeq a b) \<longleftrightarrow> axe_ok N a \<and> axe_ok N b"

fun asgs :: "axe \<Rightarrow> bool" where
  "asgs (EUn c e) = asgs e"
| "asgs (EBin op a b) = (asgs a \<or> asgs b)"
| "asgs (ECond c a b) = (asgs c \<or> asgs a \<or> asgs b)"
| "asgs (EAsg nm i e) = True"
| "asgs (ESeq a b) = (asgs a \<or> asgs b)"
| "asgs _ = False"

text \<open>
  The value of an expression over a store: a number read, a number stored. After an error nothing
  is stored any more; what follows is still evaluated.
\<close>

definition put :: "('s \<Rightarrow> string \<Rightarrow> long \<Rightarrow> 's) \<Rightarrow> 's \<times> bool \<Rightarrow> string \<Rightarrow> long \<Rightarrow> 's \<times> bool" where
  "put wr x nm v = (if snd x then x else (wr (fst x) nm v, False))"

definition calc :: "'s \<times> bool \<Rightarrow> nat \<Rightarrow> long \<Rightarrow> long \<Rightarrow> long \<times> 's \<times> bool" where
  "calc x op l r = (case ax_calc op l r of Some v \<Rightarrow> (v, x) | None \<Rightarrow> (0, fst x, True))"

fun sem :: "('s \<Rightarrow> string \<Rightarrow> long) \<Rightarrow> ('s \<Rightarrow> string \<Rightarrow> long \<Rightarrow> 's) \<Rightarrow> axe \<Rightarrow> 's \<times> bool \<Rightarrow> long \<times> 's \<times> bool" where
  "sem g wr (ENum n) x = (of_nat n, x)"
| "sem g wr (EVar nm) x = (g (fst x) nm, x)"
| "sem g wr (EUn c e) x =
    (case sem g wr e x of (v, y) \<Rightarrow>
      (if c = CHR ''-'' then 0 - v else if c = CHR ''!'' then ax_bool (v = 0) else if c = CHR ''~'' then NOT v else v, y))"
| "sem g wr (EBin op a b) x =
    (case sem g wr a x of (l, y) \<Rightarrow>
      if op = 0 \<and> l \<noteq> 0 \<or> op = 1 \<and> l = 0 then (ax_bool (op = 0), y)
      else case sem g wr b y of (r, z) \<Rightarrow> calc z op l r)"
| "sem g wr (ECond c a b) x = (case sem g wr c x of (v, y) \<Rightarrow> if v \<noteq> 0 then sem g wr a y else sem g wr b y)"
| "sem g wr (EAsg nm i e) x =
    (case sem g wr e x of (r, y) \<Rightarrow>
      case snd (ax_as ! i) of
        None \<Rightarrow> (r, put wr y nm r)
      | Some op \<Rightarrow> case calc y op (g (fst y) nm) r of (v, z) \<Rightarrow> (v, put wr z nm v))"
| "sem g wr (EPre up nm) x = (let v = g (fst x) nm + (if up then 1 else - 1) in (v, put wr x nm v))"
| "sem g wr (EPost up nm) x = (let v = g (fst x) nm in (v, put wr x nm (if up then v + 1 else v - 1)))"
| "sem g wr (ESeq a b) x = (case sem g wr a x of (v, y) \<Rightarrow> sem g wr b y)"

subsection \<open>Tokens\<close>

abbreviation nxt :: "string \<Rightarrow> string" where
  "nxt \<equiv> dropWhile axsp"

lemma nxt_char [simp]: "nxt (CHR '' '' # p) = nxt p" "\<not> axsp c \<Longrightarrow> nxt (c # p) = c # p"
  by (simp_all add: axsp_def)

lemma nxt_nxt [simp]: "nxt (nxt p) = nxt p"
  by (induction p) auto

lemma aft_simps [simp]: "aft []" "aft (CHR '' '' # p)" "aft (CHR '')'' # p)"
  by (simp_all add: aft_def)

text \<open>What the operator after an operand binds at; 0 where there is none.\<close>

definition nxpr :: "string \<Rightarrow> nat" where
  "nxpr r = (case ax_op (nxt r) of None \<Rightarrow> 0 | Some (op, pr, ln) \<Rightarrow> pr)"

definition opchars :: "char set" where
  "opchars = set ''|&^=!<>+-*/%''"

lemma ax_best_opchar: "c \<notin> opchars \<Longrightarrow> ax_best c d = None"
  by (simp add: opchars_def ax_best_def)

lemma ax_asop_opchar: "at p 0 \<notin> opchars \<Longrightarrow> ax_asop p = None"
proof -
  assume p: "at p 0 \<notin> opchars"
  have "t \<noteq> [] \<and> at t 0 \<in> opchars" if "(t, op) \<in> set ax_as" for t op
    using that by (auto simp: ax_as_def opchars_def)
  then have "\<not> prefix t p" if "(t, op) \<in> set ax_as" for t op
    using p that by (cases t; cases p) fastforce+
  then have "find (\<lambda>(t, op). prefix t p) ax_as = None" by (auto simp: find_None_iff)
  then show ?thesis by (simp add: ax_asop_def)
qed

lemma ax_no_op: "at p 0 \<notin> opchars \<Longrightarrow> ax_op p = None \<and> ax_asop p = None \<and> \<not> ax_inc p"
  using ax_best_opchar ax_asop_opchar by (auto simp: ax_op_def ax_inc_def opchars_def)

text \<open>An operator followed by a space is read whole.\<close>

lemma ax_ops_table: "\<forall>op \<in> set [0..<19].
    ax_best (at (opname op @ '' '') 0) (at (opname op @ '' '') 1) = Some op \<and> at (opname op @ '' '') (ax_ln ! op) = CHR '' '' \<and>
    length (opname op) = ax_ln ! op \<and> opname op \<noteq> [] \<and> \<not> axsp (hd (opname op)) \<and> \<not> ax_inc (opname op @ '' '') \<and>
    ax_asop (opname op @ '' '') = None \<and> 1 \<le> ax_pr ! op \<and> ax_pr ! op \<le> 12 \<and> (ax_pr ! op = 12 \<longleftrightarrow> op = 18)"
  by code_simp

lemma ax_as_table: "\<forall>i \<in> set [0..<12].
    ax_asop (fst (ax_as ! i) @ '' '') = Some (length (fst (ax_as ! i)), snd (ax_as ! i)) \<and> fst (ax_as ! i) \<noteq> [] \<and>
    \<not> axsp (hd (fst (ax_as ! i)))"
  by code_simp

lemma ax_as_nosp: "(t, op) \<in> set ax_as \<Longrightarrow> CHR '' '' \<notin> set t"
  by (auto simp: ax_as_def)

lemma at_app_sp: "i \<le> length t \<Longrightarrow> at (t @ CHR '' '' # r) i = at (t @ '' '') i"
  by (auto simp: at_def nth_append)

lemma prefix_nosp: "CHR '' '' \<notin> set t \<Longrightarrow> prefix t (u @ CHR '' '' # r) \<longleftrightarrow> prefix t (u @ '' '')"
  by (auto simp: prefix_append prefix_Cons)

lemma ax_asop_sp:
  assumes "t \<noteq> []"
  shows "ax_asop (t @ CHR '' '' # r) = ax_asop (t @ '' '')"
proof -
  have "find (\<lambda>(x, op). prefix x (t @ CHR '' '' # r)) ax_as = find (\<lambda>(x, op). prefix x (t @ '' '')) ax_as"
    using ax_as_nosp prefix_nosp by (intro find_cong) auto
  moreover have "at (t @ CHR '' '' # r) 1 = at (t @ '' '') 1" using assms by (intro at_app_sp) (cases t; simp)
  ultimately show ?thesis unfolding ax_asop_def by (simp only:)
qed

lemma ax_op_name:
  assumes "op < 19"
  shows "ax_op (opname op @ CHR '' '' # r) = Some (op, ax_pr ! op, ax_ln ! op)"
    and "length (opname op) = ax_ln ! op" and "nxt (opname op @ r) = opname op @ r"
    and "ax_asop (opname op @ CHR '' '' # r) = None" and "\<not> ax_inc (opname op @ CHR '' '' # r)"
    and "1 \<le> ax_pr ! op \<and> ax_pr ! op \<le> 12 \<and> (ax_pr ! op = 12 \<longleftrightarrow> op = 18)"
proof -
  note t = ax_ops_table [rule_format, of op, unfolded set_upt atLeastLessThan_iff, OF conjI [OF le0 assms]]
  then have ne: "opname op \<noteq> []" by blast
  then have 1: "1 \<le> length (opname op)" by (cases "opname op") auto
  have a: "at (opname op @ CHR '' '' # r) i = at (opname op @ '' '') i" if "i \<in> {0, 1, ax_ln ! op}" for i
    using that 1 t by (intro at_app_sp) auto
  show "ax_op (opname op @ CHR '' '' # r) = Some (op, ax_pr ! op, ax_ln ! op)"
    using t a by (simp add: ax_op_def)
  show "\<not> ax_inc (opname op @ CHR '' '' # r)" using t a unfolding ax_inc_def by auto
  show "length (opname op) = ax_ln ! op" "1 \<le> ax_pr ! op \<and> ax_pr ! op \<le> 12 \<and> (ax_pr ! op = 12 \<longleftrightarrow> op = 18)"
    using t by blast+
  show "nxt (opname op @ r) = opname op @ r" using t ne by (cases "opname op") auto
  show "ax_asop (opname op @ CHR '' '' # r) = None" using t ax_asop_sp [OF ne] by simp
qed

lemma ax_asop_name:
  assumes "i < 12"
  shows "ax_asop (fst (ax_as ! i) @ CHR '' '' # r) = Some (length (fst (ax_as ! i)), snd (ax_as ! i))"
    and "nxt (fst (ax_as ! i) @ r) = fst (ax_as ! i) @ r"
proof -
  note t = ax_as_table [rule_format, of i, unfolded set_upt atLeastLessThan_iff, OF conjI [OF le0 assms]]
  then have ne: "fst (ax_as ! i) \<noteq> []" by blast
  show "ax_asop (fst (ax_as ! i) @ CHR '' '' # r) = Some (length (fst (ax_as ! i)), snd (ax_as ! i))"
    using t ax_asop_sp [OF ne] by simp
  show "nxt (fst (ax_as ! i) @ r) = fst (ax_as ! i) @ r" using t ne by (cases "fst (ax_as ! i)") auto
qed

lemma ident_shape: "ident nm \<Longrightarrow> \<exists>c cs. nm = c # cs \<and> ax_idstart c \<and> list_all ax_idch (c # cs)"
  by (cases nm) (auto simp: ident_def)

lemma id_chars:
  "ax_idstart c \<Longrightarrow> \<not> axsp c \<and> \<not> isdigit c \<and> c \<notin> {CHR ''('', CHR ''-'', CHR ''+'', CHR ''!'', CHR ''~'', CHR '','', NUL}"
  "ax_idch c \<Longrightarrow> c \<notin> {CHR '' '', CHR '')'', CHR ''['', CHR ''+'', CHR ''-'', NUL}"
  by (auto simp: ax_idstart_def ax_idch_def axsp_def byte_simps)

lemma ax_name_ident:
  assumes "ident nm" "r = [] \<or> \<not> ax_idch (hd r)" "at r 0 \<noteq> CHR ''[''" "ax_p a = nm @ r"
  shows "ax_name a = (a\<lparr>ax_p := r\<rparr>, Some nm)"
proof -
  obtain c cs where c: "nm = c # cs" "ax_idstart c" using ident_shape [OF assms(1)] by blast
  have "dropWhile ax_idch (nm @ r) = r" using assms(1,2) by (cases r) (auto simp: ident_def dropWhile_append list_all_iff)
  moreover have "ax_subs r = Some r" using assms(3) by (subst ax_subs.simps) simp
  ultimately show ?thesis using c assms(4) by (simp add: ax_name_def)
qed

lemma aft_noid: "aft r \<Longrightarrow> (r = [] \<or> \<not> ax_idch (hd r)) \<and> at r 0 \<noteq> CHR ''[''"
  using id_chars(2) by (cases r) (auto simp: aft_def)

subsection \<open>The calls\<close>

lemma ax_ws_ws [simp]: "ax_ws (ax_ws a) = ax_ws a"
  by (simp add: ax_ws_def)

lemma ax_ws_p: "ax_p (ax_ws a) = nxt (ax_p a)"
  by (simp add: ax_ws_def)

lemma ev_steps:
  "evt (\<lambda>f. ax_comma (ax_ev rd wr f) a) r \<Longrightarrow> evt (\<lambda>f. ax_ev rd wr f XComma a) r"
  "evt (\<lambda>f. ax_commas (ax_ev rd wr f) v a) r \<Longrightarrow> evt (\<lambda>f. ax_ev rd wr f (XCommas v) a) r"
  "evt (\<lambda>f. ax_assign rd wr (ax_ev rd wr f) a) r \<Longrightarrow> evt (\<lambda>f. ax_ev rd wr f XAssign a) r"
  "evt (\<lambda>f. ax_tern (ax_ev rd wr f) a) r \<Longrightarrow> evt (\<lambda>f. ax_ev rd wr f XTern a) r"
  "evt (\<lambda>f. ax_bin (ax_ev rd wr f) mp a) r \<Longrightarrow> evt (\<lambda>f. ax_ev rd wr f (XBin mp) a) r"
  "evt (\<lambda>f. ax_loop (ax_ev rd wr f) mp v a) r \<Longrightarrow> evt (\<lambda>f. ax_ev rd wr f (XLoop mp v) a) r"
  "evt (\<lambda>f. ax_un rd wr (ax_ev rd wr f) a) r \<Longrightarrow> evt (\<lambda>f. ax_ev rd wr f XUn a) r"
  "evt (\<lambda>f. ax_unop (ax_ev rd wr f) a) r \<Longrightarrow> evt (\<lambda>f. ax_ev rd wr f XUnop a) r"
  "evt (\<lambda>f. ax_prim rd wr (ax_ev rd wr f) a) r \<Longrightarrow> evt (\<lambda>f. ax_ev rd wr f XPrim a) r"
  by (rule evt_Suc, simp)+

text \<open>A call sees its place in the text only past the spaces.\<close>

lemma loop_ws: "ax_loop ev mp l (ax_ws a) = ax_loop ev mp l a"
  by (simp add: ax_loop_def)

lemma evt_case_Suc: "evt (\<lambda>f. g (Suc f)) r \<longleftrightarrow> evt g r"
proof
  assume "evt g r"
  then obtain k where "\<forall>j \<ge> k. g j = Some r" by (auto simp: evt_def)
  then show "evt (\<lambda>f. g (Suc f)) r" unfolding evt_def by (intro exI [of _ k]) simp
qed (rule evt_Suc)

lemma loop_from_ws: "evt (\<lambda>f. ax_ev rd wr f (XLoop mp l) (ax_ws a)) r \<longleftrightarrow> evt (\<lambda>f. ax_ev rd wr f (XLoop mp l) a) r"
  by (subst (1 2) evt_case_Suc [symmetric]) (simp add: loop_ws)

lemma commas_from_ws: "evt (\<lambda>f. ax_ev rd wr f (XCommas v) (ax_ws a)) r \<longleftrightarrow> evt (\<lambda>f. ax_ev rd wr f (XCommas v) a) r"
  by (subst (1 2) evt_case_Suc [symmetric]) (simp add: ax_commas_def)

lemma loop_stop: "nxpr (ax_p a) < mp \<Longrightarrow> evt (\<lambda>f. ax_ev rd wr f (XLoop mp l) a) (l, ax_ws a)"
  by (rule ev_steps) (auto simp: ax_loop_def nxpr_def ax_ws_p split: option.splits)

lemma commas_stop: "at (nxt (ax_p a)) 0 \<noteq> CHR '','' \<Longrightarrow> evt (\<lambda>f. ax_ev rd wr f (XCommas v) a) (v, ax_ws a)"
  by (rule ev_steps) (simp add: ax_commas_def ax_ws_p)

lemma bin_from_un: "evt (\<lambda>f. ax_ev rd wr f XUn a) (v, b) \<Longrightarrow> evt (\<lambda>f. ax_ev rd wr f (XLoop mp v) b) r \<Longrightarrow>
    evt (\<lambda>f. ax_ev rd wr f (XBin mp) a) r"
  by (rule ev_steps) (auto simp: ax_bin_def intro: evt_bind)

subsection \<open>Evaluating the text of an expression\<close>

text \<open>
  What the evaluator relies on of the variables it is used with: a name of \<open>N\<close> is an identifier,
  reading it gives its number's text, or nothing for 0, and storing keeps that so.
\<close>

locale axcells =
  fixes rd :: "'s axrd" and wr :: "'s axwr" and g :: "'s \<Rightarrow> string \<Rightarrow> long" and N :: "string set" and I :: "'s \<Rightarrow> bool"
  assumes names: "nm \<in> N \<Longrightarrow> ident nm"
    and rd: "I s \<Longrightarrow> nm \<in> N \<Longrightarrow>
      rd s k nm = (s, None, False) \<and> g s nm = 0 \<or> rd s k nm = (s, Some (s_num (sint (g s nm))), False)"
    and wr: "I s \<Longrightarrow> nm \<in> N \<Longrightarrow> I (wr s nm v)"
begin

lemma get: "I (ax_st a) \<Longrightarrow> nm \<in> N \<Longrightarrow> ax_get rd sub a nm = Some (g (ax_st a) nm, a)"
proof -
  assume a: "I (ax_st a)" "nm \<in> N"
  have same: "a\<lparr>ax_st := ax_st a, ax_bad := ax_bad a\<rparr> = a" by (cases a) simp
  have "ax_num (s_num (sint (g (ax_st a) nm)) @ []) = (word_of_int (sint (g (ax_st a) nm)), [])"
    using sint_bounds by (intro ax_num_s_num) simp_all
  moreover have "s_num x \<noteq> []" for x using putdig_ne by (simp add: s_num_def)
  ultimately show ?thesis using rd [OF a, of "ax_skip a > 0"] same by (auto simp: ax_get_def ax_val_def)
qed

abbreviation upd :: "'s axs \<Rightarrow> string \<Rightarrow> 's \<Rightarrow> bool \<Rightarrow> 's axs" where
  "upd a rest s q \<equiv> a\<lparr>ax_p := nxt rest, ax_st := s, ax_bad := q\<rparr>"

text \<open>The value, state and error of an expression; where it is skipped, the state and error are as they were.\<close>

definition semr :: "axe \<Rightarrow> 's axs \<Rightarrow> long \<Rightarrow> 's \<Rightarrow> bool \<Rightarrow> bool" where
  "semr e a v s q \<longleftrightarrow> (if ax_skip a = 0 then sem g wr e (ax_st a, ax_bad a) = (v, s, q) else s = ax_st a \<and> q = ax_bad a)"

text \<open>An evaluation at \<open>t\<close>, which nests \<open>d\<close> deep, with \<open>rest\<close> to follow.\<close>

definition ready :: "axe \<Rightarrow> 's axs \<Rightarrow> string \<Rightarrow> nat \<Rightarrow> string \<Rightarrow> bool" where
  "ready e a t d rest \<longleftrightarrow> nxt (ax_p a) = t @ rest \<and> I (ax_st a) \<and> (asgs e \<longrightarrow> ax_hasq a) \<and> ax_depth a + d \<le> AXDEPTH \<and> aft rest"

definition cU :: "string \<Rightarrow> nat \<Rightarrow> axe \<Rightarrow> bool" where
  "cU t d e \<longleftrightarrow> (\<forall>a rest. ready e a t d rest \<and> \<not> ax_inc (nxt rest) \<longrightarrow>
    (\<exists>v b s q. evt (\<lambda>f. ax_ev rd wr f XUn a) (v, b) \<and> ax_ws b = upd a rest s q \<and> semr e a v s q))"

definition cB :: "nat \<Rightarrow> (string \<Rightarrow> bool) \<Rightarrow> string \<Rightarrow> nat \<Rightarrow> axe \<Rightarrow> bool" where
  "cB mp S t d e \<longleftrightarrow> (\<forall>a rest. ready e a t d rest \<and> \<not> ax_inc (nxt rest) \<and> S rest \<longrightarrow>
    (\<exists>v s q. semr e a v s q \<and> (\<forall>r. evt (\<lambda>f. ax_ev rd wr f (XLoop mp v) (upd a rest s q)) r \<longrightarrow> evt (\<lambda>f. ax_ev rd wr f (XBin mp) a) r)))"

definition endA :: "string \<Rightarrow> bool" where
  "endA rest \<longleftrightarrow> at (nxt rest) 0 \<in> {NUL, CHR '')'', CHR '','', CHR '':''}"

definition cA :: "string \<Rightarrow> nat \<Rightarrow> axe \<Rightarrow> bool" where
  "cA t d e \<longleftrightarrow> (\<forall>a rest. ready e a t d rest \<and> endA rest \<longrightarrow>
    (\<exists>v b s q. evt (\<lambda>f. ax_ev rd wr f XAssign a) (v, b) \<and> ax_ws b = upd a rest s q \<and> semr e a v s q))"

definition cC :: "string \<Rightarrow> nat \<Rightarrow> axe \<Rightarrow> bool" where
  "cC t d e \<longleftrightarrow> (\<forall>a rest. ready e a t d rest \<and> endA rest \<longrightarrow>
    (\<exists>v s q. semr e a v s q \<and> (\<forall>r. evt (\<lambda>f. ax_ev rd wr f (XCommas v) (upd a rest s q)) r \<longrightarrow> evt (\<lambda>f. ax_ev rd wr f XComma a) r)))"

text \<open>What the state of a tree is: names keep their numbers.\<close>

lemma put_ok: "I (fst x) \<Longrightarrow> nm \<in> N \<Longrightarrow> I (fst (put wr x nm v))"
  using wr by (simp add: put_def)

lemma calc_ok: "calc x op l r = (v, y) \<Longrightarrow> fst y = fst x"
  by (auto simp: calc_def split: option.splits)

lemma sem_ok: "axe_ok N e \<Longrightarrow> I (fst x) \<Longrightarrow> I (fst (snd (sem g wr e x)))"
proof (induction e arbitrary: x)
  case (EAsg nm i e)
  obtain r y where s: "sem g wr e x = (r, y)" by (cases "sem g wr e x")
  with EAsg have y: "I (fst y)" by (metis axe_ok.simps(6) snd_conv)
  then show ?case using EAsg.prems(1) s by (auto split: option.split prod.split dest!: calc_ok intro!: put_ok)
next
  case (EBin op a b)
  obtain l y where a: "sem g wr a x = (l, y)" by (cases "sem g wr a x")
  obtain r z where b: "sem g wr b y = (r, z)" by (cases "sem g wr b y")
  have "I (fst y)" using EBin.IH(1) [of x] EBin.prems a by simp
  moreover from this have "I (fst z)" using EBin.IH(2) [of y] EBin.prems b by simp
  ultimately show ?case unfolding sem.simps a b prod.case by (cases "ax_calc op l r") (simp_all add: calc_def)
next
  case (EUn c e)
  obtain l y where a: "sem g wr e x = (l, y)" by (cases "sem g wr e x")
  have "I (fst y)" using EUn.IH [of x] EUn.prems a by simp
  then show ?case unfolding sem.simps a prod.case snd_conv .
next
  case (ECond c a b)
  obtain l y where s: "sem g wr c x = (l, y)" by (cases "sem g wr c x")
  have "I (fst y)" using ECond.IH(1) [of x] ECond.prems s by simp
  then have "I (fst (snd (sem g wr a y)))" "I (fst (snd (sem g wr b y)))" using ECond.IH(2,3) [of y] ECond.prems(1) by simp_all
  then show ?case unfolding sem.simps s prod.case by (cases "l = 0") simp_all
next
  case (ESeq a b)
  obtain l y where s: "sem g wr a x = (l, y)" by (cases "sem g wr a x")
  have "I (fst y)" using ESeq.IH(1) [of x] ESeq.prems s by simp
  then show ?case unfolding sem.simps s prod.case using ESeq.IH(2) [of y] ESeq.prems(1) by simp
qed (auto simp: Let_def intro: put_ok)

lemma semr_ok: "axe_ok N e \<Longrightarrow> I (ax_st a) \<Longrightarrow> semr e a v s q \<Longrightarrow> I s"
  using sem_ok [of e "(ax_st a, ax_bad a)"] by (auto simp: semr_def split: if_splits)

lemma endA_no_op: "endA rest \<Longrightarrow> nxpr rest = 0 \<and> \<not> ax_inc (nxt rest) \<and> at (nxt rest) 0 \<noteq> CHR ''?'' \<and> ax_asop (nxt rest) = None"
proof -
  assume e: "endA rest"
  then have "at (nxt rest) 0 \<notin> opchars" by (auto simp: endA_def opchars_def)
  then show ?thesis using ax_no_op [of "nxt rest"] e by (auto simp: nxpr_def endA_def)
qed

lemma upd_ws [simp]: "ax_ws (upd a rest s q) = upd a rest s q"
  by (simp add: ax_ws_def)

end
context axcells
begin

text \<open>Operands: a prefix or operand binds as tight as anything asks; it ends where no postfix follows.\<close>

lemma prim_from_un:
  assumes "nxt (ax_p a) = c # t" "c \<notin> {CHR ''-'', CHR ''+'', CHR ''!'', CHR ''~''}" "evt (\<lambda>f. ax_ev rd wr f XPrim (ax_ws a)) r"
  shows "evt (\<lambda>f. ax_ev rd wr f XUn a) r"
  using assms by (intro ev_steps) (simp add: ax_un_def ax_inc_def ax_ws_p)

lemma ax_self: "ax_ws (a\<lparr>ax_p := rest\<rparr>) = upd a rest (ax_st a) (ax_bad a)"
  by (cases a) (simp add: ax_ws_def)

lemma cU_num: "axe_ok N (ENum n) \<Longrightarrow> cU (etxt (ENum n)) d (ENum n)"
  unfolding cU_def
proof (intro allI impI)
  fix a rest assume n: "axe_ok N (ENum n)" and "ready (ENum n) a (etxt (ENum n)) d rest \<and> \<not> ax_inc (nxt rest)"
  then have p: "nxt (ax_p a) = s_num (int n) @ rest" and aft: "aft rest" by (auto simp: ready_def)
  obtain c cs where c: "putdig n [] = c # cs" "isdigit c" by (rule putdig_Cons)
  then have pc: "nxt (ax_p a) = c # cs @ rest" using p by (simp add: s_num_def)
  have cc: "c \<notin> {CHR ''('', CHR ''-'', CHR ''+'', CHR ''!'', CHR ''~''}" using c(2) by (auto simp: byte_simps)
  have e: "snd (strtol 10 (s_num (int n) @ rest)) = rest"
    using strtol_raw_s_num [OF aft_digval [OF aft]] by (simp add: strtol_def)
  have v: "ax_num (s_num (int n) @ rest) = (of_nat n, rest)" using n ax_num_s_num [OF _ _ aft, of "int n"] by simp
  have "at rest 0 \<noteq> CHR ''#''" using aft_at [OF aft] by auto
  then have "evt (\<lambda>f. ax_ev rd wr f XPrim (ax_ws a)) (of_nat n, (ax_ws a)\<lparr>ax_p := rest\<rparr>)"
    using pc p cc c(2) e v by (intro ev_steps) (simp add: ax_prim_def ax_ws_p case_prod_unfold Let_def)
  then have "evt (\<lambda>f. ax_ev rd wr f XUn a) (of_nat n, (ax_ws a)\<lparr>ax_p := rest\<rparr>)"
    using cc by (intro prim_from_un [OF pc]) auto
  moreover have "ax_ws ((ax_ws a)\<lparr>ax_p := rest\<rparr>) = upd a rest (ax_st a) (ax_bad a)" by (simp add: ax_ws_def)
  moreover have "semr (ENum n) a (of_nat n) (ax_st a) (ax_bad a)" by (simp add: semr_def)
  ultimately show "\<exists>v b s q. evt (\<lambda>f. ax_ev rd wr f XUn a) (v, b) \<and> ax_ws b = upd a rest s q \<and> semr (ENum n) a v s q"
    by blast
qed

text \<open>A name: what the code does after reading it depends on what follows.\<close>

lemma name_prim:
  assumes "nxt (ax_p a) = nm @ r" "nm \<in> N" "r = [] \<or> \<not> ax_idch (hd r)" "at r 0 \<noteq> CHR ''[''" "I (ax_st a)"
  defines "a3 \<equiv> upd a r (ax_st a) (ax_bad a)" and "v \<equiv> g (ax_st a) nm"
  shows "evt (\<lambda>f. ax_ev rd wr f XUn a)
    (v, if ax_inc (nxt r) then ax_adv 2 (ax_set wr a3 nm (if at (nxt r) 0 = CHR ''+'' then v + 1 else v - 1)) else a3)"
proof -
  obtain c cs where c: "nm = c # cs" "ax_idstart c" using ident_shape [OF names [OF assms(2)]] by blast
  have n: "ax_name (ax_ws a) = ((ax_ws a)\<lparr>ax_p := r\<rparr>, Some nm)"
    using assms(1-4) names by (intro ax_name_ident) (simp_all add: ax_ws_p)
  have gt: "ax_get rd sub ((ax_ws a)\<lparr>ax_p := r\<rparr>) nm = Some (v, (ax_ws a)\<lparr>ax_p := r\<rparr>)" for sub
    using get [of "(ax_ws a)\<lparr>ax_p := r\<rparr>" nm sub] assms(2,5) by (simp add: v_def)
  have w: "ax_ws ((ax_ws a)\<lparr>ax_p := r\<rparr>) = a3" by (simp add: ax_ws_def a3_def)
  have p: "ax_p a3 = nxt r" by (simp add: a3_def)
  have h: "at (nxt (ax_p a)) 0 = c" using assms(1) c(1) by simp
  have "evt (\<lambda>f. ax_ev rd wr f XPrim (ax_ws a))
      (v, if ax_inc (nxt r) then ax_adv 2 (ax_set wr a3 nm (if at (nxt r) 0 = CHR ''+'' then v + 1 else v - 1)) else a3)"
    using c(2) id_chars(1) [OF c(2)]
    by (intro ev_steps) (simp add: ax_prim_def ax_ws_p Let_def h n gt w p)
  moreover have "nxt (ax_p a) = c # cs @ r" using assms(1) c(1) by simp
  ultimately show ?thesis using id_chars(1) [OF c(2)] by (intro prim_from_un) auto
qed

lemma cU_var: "axe_ok N (EVar nm) \<Longrightarrow> cU (etxt (EVar nm)) d (EVar nm)"
  unfolding cU_def
proof (intro allI impI)
  fix a rest assume n: "axe_ok N (EVar nm)" and "ready (EVar nm) a (etxt (EVar nm)) d rest \<and> \<not> ax_inc (nxt rest)"
  then have p: "nxt (ax_p a) = nm @ rest" "I (ax_st a)" "aft rest" "\<not> ax_inc (nxt rest)" by (auto simp: ready_def)
  with name_prim [OF p(1)] aft_noid [OF p(3)] n
  have "evt (\<lambda>f. ax_ev rd wr f XUn a) (g (ax_st a) nm, upd a rest (ax_st a) (ax_bad a))" by simp
  moreover have "semr (EVar nm) a (g (ax_st a) nm) (ax_st a) (ax_bad a)" by (simp add: semr_def)
  ultimately show "\<exists>v b s q. evt (\<lambda>f. ax_ev rd wr f XUn a) (v, b) \<and> ax_ws b = upd a rest s q \<and> semr (EVar nm) a v s q"
    using upd_ws by blast
qed

lemma set_upd: "ax_set wr a nm v = a\<lparr>ax_st := if ax_skip a > 0 then ax_st a else fst (put wr (ax_st a, ax_bad a) nm v)\<rparr>"
  by (cases a) (simp add: ax_set_def put_def)

lemma cU_post: "axe_ok N (EPost up nm) \<Longrightarrow> cU (etxt (EPost up nm)) d (EPost up nm)"
  unfolding cU_def
proof (intro allI impI)
  fix a rest assume n: "axe_ok N (EPost up nm)" and "ready (EPost up nm) a (etxt (EPost up nm)) d rest \<and> \<not> ax_inc (nxt rest)"
  then have p: "nxt (ax_p a) = nm @ (if up then ''++'' else ''--'') @ rest" "I (ax_st a)" by (auto simp: ready_def)
  let ?r = "(if up then ''++'' else ''--'') @ rest" and ?v = "g (ax_st a) nm"
  have w: "nxt ?r = ?r" "ax_inc ?r" "at ?r 0 = CHR ''+'' \<longleftrightarrow> up" "\<not> ax_idch (hd ?r)" "at ?r 0 \<noteq> CHR ''[''"
    by (auto simp: ax_inc_def axsp_def ax_idch_def byte_simps)
  have "nm \<in> N" using n by simp
  let ?w = "if up then ?v + 1 else ?v - 1"
  have e: "evt (\<lambda>f. ax_ev rd wr f XUn a) (?v, ax_adv 2 (ax_set wr (upd a ?r (ax_st a) (ax_bad a)) nm ?w))"
    using name_prim [OF p(1) \<open>nm \<in> N\<close>] w p(2) by simp
  have "ax_ws (ax_adv 2 (ax_set wr (upd a ?r (ax_st a) (ax_bad a)) nm ?w)) =
      upd a rest (if ax_skip a > 0 then ax_st a else fst (put wr (ax_st a, ax_bad a) nm ?w)) (ax_bad a)"
    using w(1) by (simp add: set_upd ax_adv_def ax_ws_def)
  moreover have "semr (EPost up nm) a ?v (if ax_skip a > 0 then ax_st a else fst (put wr (ax_st a, ax_bad a) nm ?w)) (ax_bad a)"
    by (auto simp: semr_def put_def Let_def)
  ultimately show "\<exists>v b s q. evt (\<lambda>f. ax_ev rd wr f XUn a) (v, b) \<and> ax_ws b = upd a rest s q \<and> semr (EPost up nm) a v s q"
    using e by blast
qed

lemma cU_pre: "axe_ok N (EPre up nm) \<Longrightarrow> cU (etxt (EPre up nm)) d (EPre up nm)"
  unfolding cU_def
proof (intro allI impI)
  fix a rest assume n: "axe_ok N (EPre up nm)" and "ready (EPre up nm) a (etxt (EPre up nm)) d rest \<and> \<not> ax_inc (nxt rest)"
  then have p: "nxt (ax_p a) = (if up then ''++'' else ''--'') @ nm @ rest" "I (ax_st a)" "aft rest" by (auto simp: ready_def)
  have nm: "nm \<in> N" "ident nm" using n names by auto
  obtain c cs where c: "nm = c # cs" "ax_idstart c" using ident_shape [OF nm(2)] by blast
  let ?a = "ax_ws (ax_adv 2 (ax_ws a))" and ?v = "g (ax_st a) nm + (if up then 1 else - 1)"
  have a: "ax_p ?a = nm @ rest" using p(1) c id_chars(1) [OF c(2)] by (cases up) (simp_all add: ax_ws_def ax_adv_def)
  have n: "ax_name ?a = (?a\<lparr>ax_p := rest\<rparr>, Some nm)"
    using a aft_noid [OF p(3)] nm(2) by (intro ax_name_ident) auto
  have gt: "ax_get rd sub (?a\<lparr>ax_p := rest\<rparr>) nm = Some (g (ax_st a) nm, ?a\<lparr>ax_p := rest\<rparr>)" for sub
    using get [of "?a\<lparr>ax_p := rest\<rparr>" nm sub] nm(1) p(2) by (simp add: ax_moves)
  have i: "ax_inc (ax_p (ax_ws a))" "at (ax_p (ax_ws a)) 0 = CHR ''+'' \<longleftrightarrow> up" using p(1) by (auto simp: ax_inc_def ax_ws_p)
  have e: "evt (\<lambda>f. ax_ev rd wr f XUn a) (?v, ax_set wr (?a\<lparr>ax_p := rest\<rparr>) nm ?v)"
    using i by (intro ev_steps) (simp add: ax_un_def n gt Let_def)
  have "ax_ws (ax_set wr (?a\<lparr>ax_p := rest\<rparr>) nm ?v) =
      upd a rest (if ax_skip a > 0 then ax_st a else fst (put wr (ax_st a, ax_bad a) nm ?v)) (ax_bad a)"
    by (simp add: set_upd ax_moves)
  moreover have "semr (EPre up nm) a ?v (if ax_skip a > 0 then ax_st a else fst (put wr (ax_st a, ax_bad a) nm ?v)) (ax_bad a)"
    by (auto simp: semr_def put_def Let_def)
  ultimately show "\<exists>v b s q. evt (\<lambda>f. ax_ev rd wr f XUn a) (v, b) \<and> ax_ws b = upd a rest s q \<and> semr (EPre up nm) a v s q"
    using e by blast
qed

end

lemma axsp_sp [simp]: "axsp (CHR '' '')" "\<not> axsp (CHR '')'')" "\<not> axsp (CHR '','')" "\<not> axsp (CHR '':'')" "\<not> axsp (CHR ''?'')"
  by (simp_all add: axsp_def)

lemma ax_adv_fields [simp]: "ax_depth (ax_adv n a) = ax_depth a" "ax_bad (ax_adv n a) = ax_bad a" "ax_hasq (ax_adv n a) = ax_hasq a"
  by (simp_all add: ax_adv_def)

context axcells
begin

text \<open>No text starts with a space.\<close>

lemma etxt_head: "axe_ok N e \<Longrightarrow> \<exists>c r. etxt e = c # r \<and> \<not> axsp c"
proof (induction e)
  case (ENum n)
  obtain c cs where c: "putdig n [] = c # cs" "isdigit c" by (rule putdig_Cons)
  then have "\<not> axsp c" by (auto simp: axsp_def byte_simps)
  with c show ?case by (simp add: s_num_def)
next
  case (EVar nm)
  with ident_shape [OF names] id_chars(1) show ?case by fastforce
next
  case (EPost up nm)
  with ident_shape [OF names] id_chars(1) show ?case by fastforce
next
  case (EAsg nm i e)
  with ident_shape [OF names] id_chars(1) show ?case by fastforce
qed (auto simp: wrap_def axsp_def)

lemma nxt_wrap: "axe_ok N e \<Longrightarrow> nxt (wrap n (lev e) (etxt e) @ r) = wrap n (lev e) (etxt e) @ r"
  using etxt_head [of e] by (auto simp: wrap_def axsp_def)

lemma readyD:
  assumes "ready e a t d rest"
  shows "nxt (ax_p a) = t @ rest" "I (ax_st a)" "asgs e \<Longrightarrow> ax_hasq a" "ax_depth a + d \<le> AXDEPTH" "aft rest"
  using assms by (auto simp: ready_def)

lemma ax_ws_fields: "ax_ws b = upd a rest s q \<Longrightarrow> ax_st b = s \<and> ax_bad b = q \<and> ax_depth b = ax_depth a \<and> ax_skip b = ax_skip a \<and> ax_hasq b = ax_hasq a"
  using ax_ws_depth [of b] by simp

lemma semr_cong: "ax_st b = ax_st a \<Longrightarrow> ax_bad b = ax_bad a \<Longrightarrow> ax_skip b = ax_skip a \<Longrightarrow> semr e b v s q \<longleftrightarrow> semr e a v s q"
  by (simp add: semr_def)

lemma prefix_un:
  assumes a: "nxt (ax_p a) = c # CHR '' '' # t @ rest" and c: "c \<in> {CHR ''-'', CHR ''+'', CHR ''!'', CHR ''~''}"
    and d: "ax_depth a + 1 \<le> AXDEPTH"
    and u: "evt (\<lambda>f. ax_ev rd wr f XUn ((ax_adv 1 (ax_ws a))\<lparr>ax_depth := ax_depth a + 1\<rparr>)) (v, b)"
  shows "evt (\<lambda>f. ax_ev rd wr f XUn a)
    (if c = CHR ''-'' then 0 - v else if c = CHR ''!'' then ax_bool (v = 0) else if c = CHR ''~'' then NOT v else v,
     b\<lparr>ax_depth := ax_depth b - 1\<rparr>)"
proof -
  let ?b = "b\<lparr>ax_depth := ax_depth b - 1\<rparr>"
  have o: "evt (\<lambda>f. ax_ev rd wr f XUnop (ax_adv 1 (ax_ws a))) (v, ?b)"
  proof (rule ev_steps)
    have "evt (\<lambda>f. ax_ev rd wr f XUn ((ax_adv 1 (ax_ws a))\<lparr>ax_depth := ax_depth a + 1\<rparr>) \<bind>
        (\<lambda>(v, a). Some (v, a\<lparr>ax_depth := ax_depth a - 1\<rparr>))) (v, ?b)"
      by (rule evt_bind [OF u]) simp
    then show "evt (\<lambda>f. ax_unop (ax_ev rd wr f) (ax_adv 1 (ax_ws a))) (v, ?b)" using d by (simp add: ax_unop_def)
  qed
  have p: "ax_p (ax_ws a) = c # CHR '' '' # t @ rest" using a by (simp add: ax_ws_p)
  have "\<not> ax_inc (ax_p (ax_ws a))" using c by (auto simp: p ax_inc_def)
  moreover have "at (ax_p (ax_ws a)) 0 = c" by (simp add: p)
  ultimately show ?thesis
    using c evt_bind [OF o, of "\<lambda>f (v, a). Some (F v, a)" for F] o
    by (intro ev_steps) (auto simp: ax_un_def intro!: evt_bind [OF o])
qed

lemma cU_un:
  assumes e: "cU (wrap 14 (lev e) (etxt e)) (wd 14 (lev e) (dep e)) e" and ok: "axe_ok N (EUn c e)"
  shows "cU (etxt (EUn c e)) (dep (EUn c e)) (EUn c e)"
  unfolding cU_def
proof (intro allI impI)
  let ?t = "wrap 14 (lev e) (etxt e)" and ?d = "wd 14 (lev e) (dep e)"
  fix a rest assume r: "ready (EUn c e) a (etxt (EUn c e)) (dep (EUn c e)) rest \<and> \<not> ax_inc (nxt rest)"
  note rD = readyD [OF conjunct1 [OF r]]
  have p: "nxt (ax_p a) = c # CHR '' '' # ?t @ rest" using rD(1) by simp
  have d: "ax_depth a + 1 + ?d \<le> AXDEPTH" using rD(4) by simp
  let ?a = "(ax_adv 1 (ax_ws a))\<lparr>ax_depth := ax_depth a + 1\<rparr>"
  have ap: "ax_p ?a = CHR '' '' # ?t @ rest" using p by (simp add: ax_adv_def ax_ws_p)
  have af: "ax_st ?a = ax_st a" "ax_hasq ?a = ax_hasq a" "ax_bad ?a = ax_bad a" "ax_skip ?a = ax_skip a" by (simp_all add: ax_adv_def)
  have tn: "nxt (?t @ rest) = ?t @ rest" using ok by (intro nxt_wrap) simp
  have "ready e ?a ?t ?d rest" using rD d ap af tn by (simp add: ready_def)
  then obtain v b s q where b: "evt (\<lambda>f. ax_ev rd wr f XUn ?a) (v, b)" "ax_ws b = upd ?a rest s q" "semr e ?a v s q"
    using e r unfolding cU_def by blast
  let ?v = "if c = CHR ''-'' then 0 - v else if c = CHR ''!'' then ax_bool (v = 0) else if c = CHR ''~'' then NOT v else v"
  have "evt (\<lambda>f. ax_ev rd wr f XUn a) (?v, b\<lparr>ax_depth := ax_depth b - 1\<rparr>)"
    using ok d by (intro prefix_un [OF p _ _ b(1)]) auto
  moreover have "ax_ws (b\<lparr>ax_depth := ax_depth b - 1\<rparr>) = upd a rest s q"
  proof -
    have "ax_ws (b\<lparr>ax_depth := k\<rparr>) = (ax_ws b)\<lparr>ax_depth := k\<rparr>" for k by (simp add: ax_ws_def)
    moreover have "ax_depth b = ax_depth a + 1" using ax_ws_fields [OF b(2)] by simp
    ultimately show ?thesis unfolding b(2) by (cases a) (simp add: ax_adv_def ax_ws_def)
  qed
  moreover have "semr (EUn c e) a ?v s q" using b(3) af by (auto simp: semr_def split: if_splits)
  ultimately show "\<exists>v b s q. evt (\<lambda>f. ax_ev rd wr f XUn a) (v, b) \<and> ax_ws b = upd a rest s q \<and> semr (EUn c e) a v s q" by blast
qed

text \<open>Parentheses make any expression an operand.\<close>

lemma cU_paren:
  assumes e: "cC (etxt e) (dep e) e" and ok: "axe_ok N e"
  shows "cU (''('' @ etxt e @ '')'') (dep e + 1) e"
  unfolding cU_def
proof (intro allI impI)
  fix a rest assume r: "ready e a (''('' @ etxt e @ '')'') (dep e + 1) rest \<and> \<not> ax_inc (nxt rest)"
  note rD = readyD [OF conjunct1 [OF r]]
  have p: "nxt (ax_p a) = CHR ''('' # etxt e @ CHR '')'' # rest" using rD(1) by simp
  have d: "ax_depth a + 1 \<le> AXDEPTH" "ax_depth a + 1 + dep e \<le> AXDEPTH" using rD(4) by simp_all
  let ?a = "ax_adv 1 ((ax_ws a)\<lparr>ax_depth := ax_depth a + 1\<rparr>)"
  have ap: "ax_p ?a = etxt e @ CHR '')'' # rest" using p by (simp add: ax_adv_def ax_ws_p)
  have af: "ax_st ?a = ax_st a" "ax_hasq ?a = ax_hasq a" "ax_bad ?a = ax_bad a" "ax_skip ?a = ax_skip a" "ax_depth ?a = ax_depth a + 1"
    by simp_all
  obtain c t where c: "etxt e = c # t" "\<not> axsp c" using etxt_head [OF ok] by blast
  have q: "nxt (CHR '')'' # rest) = CHR '')'' # rest" by (simp add: axsp_def)
  have "ready e ?a (etxt e) (dep e) (CHR '')'' # rest)" using rD(2,3) d ap af c unfolding ready_def by simp
  moreover have "endA (CHR '')'' # rest)" using q by (simp add: endA_def)
  ultimately obtain v s k where b: "semr e ?a v s k"
      "\<And>r. evt (\<lambda>f. ax_ev rd wr f (XCommas v) (upd ?a (CHR '')'' # rest) s k)) r \<Longrightarrow> evt (\<lambda>f. ax_ev rd wr f XComma ?a) r"
    using e unfolding cC_def by blast
  let ?u = "upd ?a (CHR '')'' # rest) s k"
  have "evt (\<lambda>f. ax_ev rd wr f (XCommas v) ?u) (v, ax_ws ?u)" using q by (intro commas_stop) simp
  then have cm: "evt (\<lambda>f. ax_ev rd wr f XComma ?a) (v, ?u)" unfolding upd_ws by (rule b(2))
  let ?b = "ax_adv 1 (?u\<lparr>ax_depth := ax_depth a\<rparr>)"
  have w: "ax_ws (?u\<lparr>ax_depth := ax_depth ?u - 1\<rparr>) = ?u\<lparr>ax_depth := ax_depth a\<rparr>" using q by (simp add: ax_ws_def)
  have "evt (\<lambda>f. ax_ev rd wr f XPrim (ax_ws a)) (v, ?b)"
  proof (rule ev_steps)
    have "evt (\<lambda>f. ax_ev rd wr f XComma ?a \<bind> (\<lambda>(v, a2).
        let a3 = ax_ws (a2\<lparr>ax_depth := ax_depth a2 - 1\<rparr>)
        in Some (v, if at (ax_p a3) 0 = CHR '')'' then ax_adv 1 a3 else ax_err a3))) (v, ?b)"
      by (rule evt_bind [OF cm]) (simp only: prod.case w Let_def, simp add: axsp_def)
    then show "evt (\<lambda>f. ax_prim rd wr (ax_ev rd wr f) (ax_ws a)) (v, ?b)"
      using d p by (simp add: ax_prim_def ax_ws_p)
  qed
  then have "evt (\<lambda>f. ax_ev rd wr f XUn a) (v, ?b)" by (intro prim_from_un [OF p]) simp_all
  moreover have "ax_ws ?b = upd a rest s k" by (simp add: ax_ws_def ax_adv_def axsp_def)
  moreover have "semr e a v s k" using b(1) semr_cong [OF af(1,3,4)] by blast
  ultimately show "\<exists>v b s q. evt (\<lambda>f. ax_ev rd wr f XUn a) (v, b) \<and> ax_ws b = upd a rest s q \<and> semr e a v s q" by blast
qed

text \<open>An operand is an operand of any operator; an operation no operator takes up is an assignment's
  right side; that is a part of a sequence.\<close>

lemma cB_of_cU: "cU t d e \<Longrightarrow> cB mp S t d e"
  unfolding cU_def cB_def
proof (intro allI impI)
  fix a rest
  assume u: "\<forall>a rest. ready e a t d rest \<and> \<not> ax_inc (nxt rest) \<longrightarrow>
      (\<exists>v b s q. evt (\<lambda>f. ax_ev rd wr f XUn a) (v, b) \<and> ax_ws b = upd a rest s q \<and> semr e a v s q)"
    and "ready e a t d rest \<and> \<not> ax_inc (nxt rest) \<and> S rest"
  then obtain v b s q where b: "evt (\<lambda>f. ax_ev rd wr f XUn a) (v, b)" "ax_ws b = upd a rest s q" "semr e a v s q" by blast
  have "evt (\<lambda>f. ax_ev rd wr f (XBin mp) a) r" if "evt (\<lambda>f. ax_ev rd wr f (XLoop mp v) (upd a rest s q)) r" for r
    using that bin_from_un [OF b(1)] loop_from_ws [of rd wr mp v b r] b(2) by simp
  with b(3) show "\<exists>v s q. semr e a v s q \<and>
      (\<forall>r. evt (\<lambda>f. ax_ev rd wr f (XLoop mp v) (upd a rest s q)) r \<longrightarrow> evt (\<lambda>f. ax_ev rd wr f (XBin mp) a) r)" by blast
qed

lemma cC_of_cA: "cA t d e \<Longrightarrow> cC t d e"
  unfolding cA_def cC_def
proof (intro allI impI)
  fix a rest
  assume u: "\<forall>a rest. ready e a t d rest \<and> endA rest \<longrightarrow>
      (\<exists>v b s q. evt (\<lambda>f. ax_ev rd wr f XAssign a) (v, b) \<and> ax_ws b = upd a rest s q \<and> semr e a v s q)"
    and "ready e a t d rest \<and> endA rest"
  then obtain v b s q where b: "evt (\<lambda>f. ax_ev rd wr f XAssign a) (v, b)" "ax_ws b = upd a rest s q" "semr e a v s q" by blast
  have "evt (\<lambda>f. ax_ev rd wr f XComma a) r" if "evt (\<lambda>f. ax_ev rd wr f (XCommas v) (upd a rest s q)) r" for r
  proof (rule ev_steps)
    have "evt (\<lambda>f. ax_ev rd wr f (XCommas v) b) r" using that b(2) commas_from_ws [of rd wr v b r] by simp
    then show "evt (\<lambda>f. ax_comma (ax_ev rd wr f) a) r" unfolding ax_comma_def by (intro evt_bind [OF b(1)]) simp
  qed
  with b(3) show "\<exists>v s q. semr e a v s q \<and>
      (\<forall>r. evt (\<lambda>f. ax_ev rd wr f (XCommas v) (upd a rest s q)) r \<longrightarrow> evt (\<lambda>f. ax_ev rd wr f XComma a) r)" by blast
qed

text \<open>An operand that starts with a name is not taken for an assignment.\<close>

definition noasg :: "string \<Rightarrow> bool" where
  "noasg t \<longleftrightarrow> (\<not> ax_idstart (at t 0) \<or>
    (\<exists>nm r. t = nm @ r \<and> ident nm \<and> (r = [] \<or> \<not> ax_idch (hd r)) \<and> at r 0 \<noteq> CHR ''['' \<and> ax_asop (nxt r) = None))"

lemma noasg_wrap:
  assumes ok: "axe_ok N e" and n: "2 \<le> n" and r: "aft r" "ax_asop (nxt r) = None"
  shows "noasg (wrap n (lev e) (etxt e) @ r)"
  using assms
proof (induction e arbitrary: n r)
  case (ENum k)
  obtain c cs where c: "putdig k [] = c # cs" "isdigit c" by (rule putdig_Cons)
  then have "\<not> ax_idstart c" by (auto simp: ax_idstart_def byte_simps)
  with c show ?case by (simp add: noasg_def wrap_def s_num_def ax_idstart_def byte_simps)
next
  case (EVar nm)
  show ?case
  proof (cases "15 < n")
    case False
    have "ident nm" using EVar.prems(1) names by simp
    with False EVar.prems(4) aft_noid [OF EVar.prems(3)] show ?thesis by (auto simp: noasg_def wrap_def)
  qed (simp add: noasg_def wrap_def ax_idstart_def byte_simps)
next
  case (EPost up nm)
  let ?r = "(if up then ''++'' else ''--'') @ r"
  show ?case
  proof (cases "15 < n")
    case False
    have "ident nm" using EPost.prems(1) names by simp
    moreover have "?r = [] \<or> \<not> ax_idch (hd ?r)" "at ?r 0 \<noteq> CHR ''[''" by (auto simp: ax_idch_def byte_simps)
    moreover have "ax_asop (nxt ?r) = None" by (auto simp: ax_asop_def ax_as_def axsp_def)
    moreover have "wrap n (lev (EPost up nm)) (etxt (EPost up nm)) @ r = nm @ ?r" using False by (simp add: wrap_def)
    ultimately show ?thesis unfolding noasg_def by blast
  qed (simp add: noasg_def wrap_def ax_idstart_def byte_simps)
next
  case (EUn c e)
  then show ?case by (auto simp: noasg_def wrap_def ax_idstart_def byte_simps)
next
  case (EBin op a b)
  show ?case
  proof (cases "lev (EBin op a b) < n")
    case False
    have op: "op < 19" "axe_ok N a" using EBin.prems(1) by simp_all
    let ?r = "'' '' @ opname op @ '' '' @ wrap (rlev op) (lev b) (etxt b) @ r"
    have "noasg (wrap (llev op) (lev a) (etxt a) @ ?r)"
    proof (rule EBin.IH(1) [OF op(2)])
      show "2 \<le> llev op" using ax_op_name(6) [OF op(1)] by (simp add: llev_def)
      show "aft ?r" by simp
      show "ax_asop (nxt ?r) = None" using ax_op_name(3,4) [OF op(1)] by simp
    qed
    with False show ?thesis by (simp add: wrap_def)
  qed (simp add: noasg_def wrap_def ax_idstart_def byte_simps)
qed (auto simp: noasg_def wrap_def ax_idstart_def byte_simps)

lemma tern_from_assign:
  assumes "noasg (nxt (ax_p a))" "evt (\<lambda>f. ax_ev rd wr f XTern (ax_ws a)) r"
  shows "evt (\<lambda>f. ax_ev rd wr f XAssign a) r"
proof (rule ev_steps)
  show "evt (\<lambda>f. ax_assign rd wr (ax_ev rd wr f) a) r"
  proof (cases "ax_hasq a \<and> ax_idstart (at (nxt (ax_p a)) 0)")
    case False
    with assms(2) show ?thesis by (simp add: ax_assign_def ax_ws_p)
  next
    case True
    have w: "(ax_ws a)\<lparr>ax_p := nxt (ax_p a)\<rparr> = ax_ws a" by (simp add: ax_ws_def)
    from True assms(1) obtain nm q where q: "nxt (ax_p a) = nm @ q" "ident nm" "q = [] \<or> \<not> ax_idch (hd q)" "at q 0 \<noteq> CHR ''[''" "ax_asop (nxt q) = None"
      unfolding noasg_def by blast
    then have "ax_name (ax_ws a) = ((ax_ws a)\<lparr>ax_p := q\<rparr>, Some nm)" by (intro ax_name_ident) (simp_all add: ax_ws_p)
    moreover have "ax_asop (ax_p (ax_ws ((ax_ws a)\<lparr>ax_p := q\<rparr>))) = None" using q(5) by (simp add: ax_ws_def)
    ultimately show ?thesis using True assms(2) by (simp add: ax_assign_def ax_ws_p w)
  qed
qed

lemma ready_ws: "ready e a t d rest \<Longrightarrow> ready e (ax_ws a) t d rest"
  by (unfold ready_def ax_ws_p nxt_nxt ax_ws_depth, assumption)

lemma ws_upd: "upd (ax_ws a) rest s q = upd a rest s q"
  by (simp add: ax_ws_def)

lemma cA_of_cB:
  assumes b: "cB 1 S t d e" and S: "\<And>rest. endA rest \<Longrightarrow> aft rest \<Longrightarrow> S rest"
    and n: "\<And>rest. aft rest \<Longrightarrow> ax_asop (nxt rest) = None \<Longrightarrow> noasg (t @ rest)"
  shows "cA t d e"
  unfolding cA_def
proof (intro allI impI)
  fix a rest assume r: "ready e a t d rest \<and> endA rest"
  note rD = readyD [OF conjunct1 [OF r]] and E = endA_no_op [OF conjunct2 [OF r]]
  obtain v s q where v: "semr e (ax_ws a) v s q"
      "\<And>r. evt (\<lambda>f. ax_ev rd wr f (XLoop 1 v) (upd (ax_ws a) rest s q)) r \<Longrightarrow> evt (\<lambda>f. ax_ev rd wr f (XBin 1) (ax_ws a)) r"
    using b r E S ready_ws rD(5) unfolding cB_def by meson
  let ?u = "upd a rest s q"
  have "evt (\<lambda>f. ax_ev rd wr f (XLoop 1 v) ?u) (v, ax_ws ?u)" using E by (intro loop_stop) (simp add: nxpr_def)
  then have bn: "evt (\<lambda>f. ax_ev rd wr f (XBin 1) (ax_ws a)) (v, ?u)" unfolding upd_ws by (intro v(2)) (simp only: ws_upd)
  have "evt (\<lambda>f. ax_ev rd wr f XTern (ax_ws a)) (v, ?u)"
  proof (rule ev_steps)
    show "evt (\<lambda>f. ax_tern (ax_ev rd wr f) (ax_ws a)) (v, ?u)"
      unfolding ax_tern_def by (rule evt_bind [OF bn]) (use E in \<open>simp only: prod.case Let_def upd_ws, simp\<close>)
  qed
  then have "evt (\<lambda>f. ax_ev rd wr f XAssign a) (v, ?u)" using n [of rest] rD(1,5) E by (intro tern_from_assign) simp_all
  moreover have "semr e a v s q" using v(1) semr_cong [of "ax_ws a" a] by simp
  ultimately show "\<exists>v b s q. evt (\<lambda>f. ax_ev rd wr f XAssign a) (v, b) \<and> ax_ws b = upd a rest s q \<and> semr e a v s q"
    using upd_ws by blast
qed

end

context axcells
begin

text \<open>Every way an expression is used: as an operand of an operator, a prefix, a right side, a sequence.\<close>

definition stops :: "nat \<Rightarrow> axe \<Rightarrow> string \<Rightarrow> bool" where
  "stops n e rest \<longleftrightarrow> (case e of EBin op a b \<Rightarrow> n \<le> lev e \<longrightarrow> nxpr rest < (if op = 18 then 12 else ax_pr ! op + 1) | _ \<Rightarrow> True)"

definition works :: "axe \<Rightarrow> bool" where
  "works e \<longleftrightarrow>
    (\<forall>n mp. mp + 1 \<le> n \<and> 2 \<le> n \<and> n \<le> 14 \<longrightarrow> cB mp (stops n e) (wrap n (lev e) (etxt e)) (wd n (lev e) (dep e)) e) \<and>
    cU (wrap 14 (lev e) (etxt e)) (wd 14 (lev e) (dep e)) e \<and>
    cA (wrap 1 (lev e) (etxt e)) (wd 1 (lev e) (dep e)) e \<and>
    cC (wrap 0 (lev e) (etxt e)) (wd 0 (lev e) (dep e)) e"

lemma ready_sub:
  assumes "axe_ok N e" "ax_p x = CHR '' '' # wrap n (lev e) (etxt e) @ rest" "I (ax_st x)" "asgs e \<Longrightarrow> ax_hasq x"
    "ax_depth x + wd n (lev e) (dep e) \<le> AXDEPTH" "aft rest"
  shows "ready e x (wrap n (lev e) (etxt e)) (wd n (lev e) (dep e)) rest"
  using assms nxt_wrap [OF assms(1)] by (simp add: ready_def)

lemma loop_op:
  assumes op: "op < 19" and p: "nxt (ax_p c) = opname op @ CHR '' '' # t" and mp: "mp \<le> ax_pr ! op"
  defines "c1 \<equiv> (ax_ws c)\<lparr>ax_p := CHR '' '' # t\<rparr>"
  shows "op = 0 \<and> l \<noteq> 0 \<or> op = 1 \<and> l = 0 \<Longrightarrow>
      evt (\<lambda>f. ax_ev rd wr f (XBin (ax_pr ! op + 1)) (c1\<lparr>ax_skip := ax_skip c + 1\<rparr>)) (v, b) \<Longrightarrow>
      evt (\<lambda>f. ax_ev rd wr f (XLoop mp (ax_bool (op = 0))) (b\<lparr>ax_skip := ax_skip b - 1\<rparr>)) r \<Longrightarrow>
      evt (\<lambda>f. ax_ev rd wr f (XLoop mp l) c) r"
    and "\<not> (op = 0 \<and> l \<noteq> 0 \<or> op = 1 \<and> l = 0) \<Longrightarrow>
      evt (\<lambda>f. ax_ev rd wr f (XBin (if op = 18 then ax_pr ! op else ax_pr ! op + 1)) c1) (v, b) \<Longrightarrow>
      evt (\<lambda>f. ax_ev rd wr f (XLoop mp (fst (ax_do b op l v))) (snd (ax_do b op l v))) r \<Longrightarrow>
      evt (\<lambda>f. ax_ev rd wr f (XLoop mp l) c) r"
proof -
  have o: "ax_op (ax_p (ax_ws c)) = Some (op, ax_pr ! op, ax_ln ! op)" using p ax_op_name(1) [OF op] by (simp add: ax_ws_p)
  have a: "ax_adv (ax_ln ! op) (ax_ws c) = c1" using p ax_op_name(2) [OF op] by (simp add: ax_adv_def ax_ws_p c1_def)
  have k: "ax_skip c1 = ax_skip c" by (simp add: c1_def)
  show "evt (\<lambda>f. ax_ev rd wr f (XLoop mp l) c) r" if "op = 0 \<and> l \<noteq> 0 \<or> op = 1 \<and> l = 0"
      "evt (\<lambda>f. ax_ev rd wr f (XBin (ax_pr ! op + 1)) (c1\<lparr>ax_skip := ax_skip c + 1\<rparr>)) (v, b)"
      "evt (\<lambda>f. ax_ev rd wr f (XLoop mp (ax_bool (op = 0))) (b\<lparr>ax_skip := ax_skip b - 1\<rparr>)) r"
  proof (rule ev_steps)
    have "evt (\<lambda>f. ax_ev rd wr f (XBin (ax_pr ! op + 1)) (c1\<lparr>ax_skip := ax_skip c + 1\<rparr>) \<bind>
        (\<lambda>(r, a2). ax_ev rd wr f (XLoop mp (ax_bool (op = 0))) (a2\<lparr>ax_skip := ax_skip a2 - 1\<rparr>))) r"
      by (rule evt_bind [OF that(2)]) (simp only: prod.case that(3))
    moreover have "\<not> ax_pr ! op < mp" using mp by simp
    ultimately show "evt (\<lambda>f. ax_loop (ax_ev rd wr f) mp l c) r"
      using that(1) unfolding ax_loop_def Let_def o a k option.case prod.case by (simp only: if_True if_False simp_thms)
  qed
  show "evt (\<lambda>f. ax_ev rd wr f (XLoop mp l) c) r" if "\<not> (op = 0 \<and> l \<noteq> 0 \<or> op = 1 \<and> l = 0)"
      "evt (\<lambda>f. ax_ev rd wr f (XBin (if op = 18 then ax_pr ! op else ax_pr ! op + 1)) c1) (v, b)"
      "evt (\<lambda>f. ax_ev rd wr f (XLoop mp (fst (ax_do b op l v))) (snd (ax_do b op l v))) r"
  proof (rule ev_steps)
    have "evt (\<lambda>f. ax_ev rd wr f (XBin (if op = 18 then ax_pr ! op else ax_pr ! op + 1)) c1 \<bind>
        (\<lambda>(r, a2). case ax_do a2 op l r of (v, a3) \<Rightarrow> ax_ev rd wr f (XLoop mp v) a3)) r"
      by (rule evt_bind [OF that(2)]) (simp only: prod.case case_prod_unfold fst_conv snd_conv that(3))
    moreover have "\<not> ax_pr ! op < mp" using mp by simp
    ultimately show "evt (\<lambda>f. ax_loop (ax_ev rd wr f) mp l c) r"
      using that(1) unfolding ax_loop_def Let_def o a k option.case prod.case by (simp only: if_False)
  qed
qed

lemma do_keep: "\<exists>w q. ax_do b op l v = (w, b\<lparr>ax_st := ax_st b, ax_bad := q\<rparr>) \<and>
    (if ax_skip b = 0 then calc (ax_st b, ax_bad b) op l v = (w, ax_st b, q) else q = ax_bad b)"
proof -
  have same: "b\<lparr>ax_st := ax_st b, ax_bad := ax_bad b\<rparr> = b" by (cases b) simp
  have err: "b\<lparr>ax_st := ax_st b, ax_bad := True\<rparr> = ax_err b" by (cases b) (simp add: ax_err_def)
  show ?thesis
  proof (cases "ax_skip b = 0")
    case True
    then have d: "ax_do b op l v = (case ax_calc op l v of Some v \<Rightarrow> (v, b) | None \<Rightarrow> (0, ax_err b))" by (simp add: ax_do_def)
    show ?thesis
    proof (cases "ax_calc op l v")
      case None
      then have "ax_do b op l v = (0, b\<lparr>ax_st := ax_st b, ax_bad := True\<rparr>)" unfolding d err by simp
      moreover have "calc (ax_st b, ax_bad b) op l v = (0, ax_st b, True)" using None by (simp add: calc_def)
      ultimately show ?thesis using True by auto
    next
      case (Some w)
      then have "ax_do b op l v = (w, b\<lparr>ax_st := ax_st b, ax_bad := ax_bad b\<rparr>)" unfolding d same by simp
      moreover have "calc (ax_st b, ax_bad b) op l v = (w, ax_st b, ax_bad b)" using Some by (simp add: calc_def)
      ultimately show ?thesis using True by auto
    qed
  next
    case False
    then have "ax_do b op l v = (0, b\<lparr>ax_st := ax_st b, ax_bad := ax_bad b\<rparr>)" unfolding same by (simp add: ax_do_def)
    with False show ?thesis by auto
  qed
qed

lemma do_upd: "\<exists>w q'. ax_do (upd x rest s q) op l v = (w, upd x rest s q') \<and>
    (if ax_skip x = 0 then calc (s, q) op l v = (w, s, q') else q' = q)"
proof -
  have u: "(upd x rest s q)\<lparr>ax_st := s, ax_bad := q'\<rparr> = upd x rest s q'"
    "ax_skip (upd x rest s q) = ax_skip x" "ax_st (upd x rest s q) = s" "ax_bad (upd x rest s q) = q" for q'
    by simp_all
  show ?thesis using do_keep [of "upd x rest s q" op l v] unfolding u .
qed

lemma cB_bin:
  assumes a: "works a" and b: "works b" and ok: "axe_ok N (EBin op a b)" and mp: "mp \<le> ax_pr ! op"
  shows "cB mp (\<lambda>rest. nxpr rest < (if op = 18 then 12 else ax_pr ! op + 1)) (etxt (EBin op a b)) (dep (EBin op a b)) (EBin op a b)"
  unfolding cB_def
proof (intro allI impI)
  let ?e = "EBin op a b" and ?ta = "wrap (llev op) (lev a) (etxt a)" and ?tb = "wrap (rlev op) (lev b) (etxt b)"
  fix x rest assume r: "ready ?e x (etxt ?e) (dep ?e) rest \<and> \<not> ax_inc (nxt rest) \<and> nxpr rest < (if op = 18 then 12 else ax_pr ! op + 1)"
  note rD = readyD [OF conjunct1 [OF r]]
  have op: "op < 19" "axe_ok N a" "axe_ok N b" using ok by simp_all
  note O = ax_op_name [OF op(1)]
  let ?r1 = "CHR '' '' # opname op @ CHR '' '' # ?tb @ rest"
  have r1: "aft ?r1" "nxt ?r1 = opname op @ CHR '' '' # ?tb @ rest" "\<not> ax_inc (nxt ?r1)" "nxpr ?r1 = ax_pr ! op"
    using O(1,3,5) by (simp_all add: nxpr_def)
  have ra: "ready a x ?ta (wd (llev op) (lev a) (dep a)) ?r1" using rD r1 by (auto simp: ready_def)
  have sa: "stops (llev op) a ?r1"
  proof (cases a)
    case (EBin o1 a1 a2)
    with op(2) have "o1 < 19" by simp
    from ax_op_name(6) [OF this] O(6) r1(4) EBin show ?thesis by (auto simp: stops_def llev_def)
  qed (simp_all add: stops_def)
  have "mp + 1 \<le> llev op \<and> 2 \<le> llev op \<and> llev op \<le> 14" using mp O(6) by (auto simp: llev_def)
  then have "cB mp (stops (llev op) a) ?ta (wd (llev op) (lev a) (dep a)) a" using a by (simp add: works_def)
  then obtain v1 s1 q1 where a1: "semr a x v1 s1 q1"
      "\<And>r. evt (\<lambda>f. ax_ev rd wr f (XLoop mp v1) (upd x ?r1 s1 q1)) r \<Longrightarrow> evt (\<lambda>f. ax_ev rd wr f (XBin mp) x) r"
    using ra r1(3) sa unfolding cB_def by blast
  have I1: "I s1" using semr_ok [OF op(2) rD(2) a1(1)] .
  let ?c = "upd x ?r1 s1 q1" and ?mp = "if op = 18 then ax_pr ! op else ax_pr ! op + 1"
  let ?c1 = "(ax_ws ?c)\<lparr>ax_p := CHR '' '' # ?tb @ rest\<rparr>"
  have cp: "nxt (ax_p ?c) = opname op @ CHR '' '' # ?tb @ rest" using r1(2) by simp
  have m: "?mp + 1 \<le> rlev op \<and> 2 \<le> rlev op \<and> rlev op \<le> 14" using O(6) by (auto simp: rlev_def)
  have sb: "stops (rlev op) b rest"
  proof (cases b)
    case (EBin o1 a1 a2)
    with op(3) have "o1 < 19" by simp
    from ax_op_name(6) [OF this] O(6) r EBin show ?thesis by (auto simp: stops_def rlev_def split: if_splits)
  qed (simp_all add: stops_def)
  have st: "nxpr rest < ?mp" using r O(6) by (auto split: if_splits)
  have right: "\<exists>v2 s2 q2. semr b y v2 s2 q2 \<and> evt (\<lambda>f. ax_ev rd wr f (XBin ?mp) y) (v2, upd y rest s2 q2)"
    if "ax_p y = CHR '' '' # ?tb @ rest" "ax_st y = s1" "ax_hasq y = ax_hasq x" "ax_depth y = ax_depth x" for y
  proof -
    have "ready b y ?tb (wd (rlev op) (lev b) (dep b)) rest"
      using rD I1 that by (intro ready_sub [OF op(3)]) auto
    moreover have "cB ?mp (stops (rlev op) b) ?tb (wd (rlev op) (lev b) (dep b)) b" using b m unfolding works_def by blast
    ultimately obtain v2 s2 q2 where b2: "semr b y v2 s2 q2"
        "\<And>r. evt (\<lambda>f. ax_ev rd wr f (XLoop ?mp v2) (upd y rest s2 q2)) r \<Longrightarrow> evt (\<lambda>f. ax_ev rd wr f (XBin ?mp) y) r"
      using r sb unfolding cB_def by blast
    have "evt (\<lambda>f. ax_ev rd wr f (XLoop ?mp v2) (upd y rest s2 q2)) (v2, ax_ws (upd y rest s2 q2))"
      using st by (intro loop_stop) (simp add: nxpr_def)
    then have "evt (\<lambda>f. ax_ev rd wr f (XBin ?mp) y) (v2, upd y rest s2 q2)" unfolding upd_ws by (rule b2(2))
    with b2(1) show ?thesis by blast
  qed
  show "\<exists>v s q. semr ?e x v s q \<and> (\<forall>r. evt (\<lambda>f. ax_ev rd wr f (XLoop mp v) (upd x rest s q)) r \<longrightarrow> evt (\<lambda>f. ax_ev rd wr f (XBin mp) x) r)"
  proof (cases "op = 0 \<and> v1 \<noteq> 0 \<or> op = 1 \<and> v1 = 0")
    case True
    let ?y = "?c1\<lparr>ax_skip := ax_skip ?c + 1\<rparr>"
    from right [of ?y] obtain v2 s2 q2 where y: "semr b ?y v2 s2 q2" "evt (\<lambda>f. ax_ev rd wr f (XBin ?mp) ?y) (v2, upd ?y rest s2 q2)"
      by auto
    have sk: "s2 = s1" "q2 = q1" using y(1) by (simp_all add: semr_def)
    have bk: "(upd ?y rest s1 q1)\<lparr>ax_skip := ax_skip (upd ?y rest s1 q1) - 1\<rparr> = upd x rest s1 q1" by (simp add: ax_ws_def)
    have mpr: "?mp = ax_pr ! op + 1" using True by auto
    have "evt (\<lambda>f. ax_ev rd wr f (XBin mp) x) r"
      if "evt (\<lambda>f. ax_ev rd wr f (XLoop mp (ax_bool (op = 0))) (upd x rest s1 q1)) r" for r
    proof (intro a1(2) loop_op(1) [OF op(1) cp mp True])
      show "evt (\<lambda>f. ax_ev rd wr f (XBin (ax_pr ! op + 1)) ?y) (v2, upd ?y rest s1 q1)" using y(2) unfolding mpr sk .
      show "evt (\<lambda>f. ax_ev rd wr f (XLoop mp (ax_bool (op = 0))) ((upd ?y rest s1 q1)\<lparr>ax_skip := ax_skip (upd ?y rest s1 q1) - 1\<rparr>)) r"
        using that unfolding bk .
    qed
    moreover have "semr ?e x (ax_bool (op = 0)) s1 q1" using a1(1) True by (auto simp: semr_def)
    ultimately show ?thesis by blast
  next
    case False
    from right [of ?c1] obtain v2 s2 q2 where y: "semr b ?c1 v2 s2 q2" "evt (\<lambda>f. ax_ev rd wr f (XBin ?mp) ?c1) (v2, upd ?c1 rest s2 q2)"
      by auto
    have u: "upd ?c1 rest s2 q2 = upd x rest s2 q2" by (simp add: ax_ws_def)
    obtain w q' where w: "ax_do (upd x rest s2 q2) op v1 v2 = (w, upd x rest s2 q')"
        "if ax_skip x = 0 then calc (s2, q2) op v1 v2 = (w, s2, q') else q' = q2"
      using do_upd by blast
    have "evt (\<lambda>f. ax_ev rd wr f (XBin mp) x) r" if "evt (\<lambda>f. ax_ev rd wr f (XLoop mp w) (upd x rest s2 q')) r" for r
    proof (intro a1(2) loop_op(2) [OF op(1) cp mp False])
      show "evt (\<lambda>f. ax_ev rd wr f (XBin ?mp) ?c1) (v2, upd x rest s2 q2)" using y(2) by (simp only: u)
      show "evt (\<lambda>f. ax_ev rd wr f (XLoop mp (fst (ax_do (upd x rest s2 q2) op v1 v2))) (snd (ax_do (upd x rest s2 q2) op v1 v2))) r"
        using that by (simp only: w(1) fst_conv snd_conv)
    qed
    moreover have "semr ?e x w s2 q'"
    proof (cases "ax_skip x = 0")
      case True
      then have "sem g wr a (ax_st x, ax_bad x) = (v1, s1, q1)" "sem g wr b (s1, q1) = (v2, s2, q2)"
        using a1(1) y(1) by (simp_all add: semr_def)
      then show ?thesis using True w(2) False by (auto simp: semr_def)
    next
      case False
      then show ?thesis using a1(1) y(1) w(2) by (simp add: semr_def)
    qed
    ultimately show ?thesis by blast
  qed
qed

end
context axcells
begin

lemma cA_use:
  assumes c: "cA (wrap 1 (lev e) (etxt e)) (wd 1 (lev e) (dep e)) e" and ok: "axe_ok N e"
    and x: "ax_p x = CHR '' '' # wrap 1 (lev e) (etxt e) @ rest" "I (ax_st x)" "asgs e \<Longrightarrow> ax_hasq x"
      "ax_depth x + wd 1 (lev e) (dep e) \<le> AXDEPTH" "aft rest" "endA rest"
  obtains v b s q where "evt (\<lambda>f. ax_ev rd wr f XAssign x) (v, b)" "ax_ws b = upd x rest s q" "semr e x v s q"
  using c ready_sub [OF ok x(1-5)] x(6) unfolding cA_def by blast

lemma endA_sp: "c \<in> {CHR '','', CHR '':''} \<Longrightarrow> endA (CHR '' '' # c # t)"
  by (auto simp: endA_def)

lemma cA_asg:
  assumes e: "works e" and ok: "axe_ok N (EAsg nm i e)"
  shows "cA (etxt (EAsg nm i e)) (dep (EAsg nm i e)) (EAsg nm i e)"
  unfolding cA_def
proof (intro allI impI)
  let ?e = "EAsg nm i e" and ?t = "wrap 1 (lev e) (etxt e)"
  fix x rest assume r: "ready ?e x (etxt ?e) (dep ?e) rest \<and> endA rest"
  note rD = readyD [OF conjunct1 [OF r]]
  have nm: "nm \<in> N" "ident nm" "i < 12" "axe_ok N e" using ok names by auto
  let ?o = "fst (ax_as ! i)" and ?r = "CHR '' '' # fst (ax_as ! i) @ CHR '' '' # ?t @ rest"
  note A = ax_asop_name [OF nm(3)]
  obtain c cs where c: "nm = c # cs" "ax_idstart c" using ident_shape [OF nm(2)] by blast
  have p: "ax_p (ax_ws x) = nm @ ?r" using rD(1) by (simp add: ax_ws_p)
  have h: "at (ax_p (ax_ws x)) 0 = c" using p c(1) by simp
  have n: "ax_name (ax_ws x) = ((ax_ws x)\<lparr>ax_p := ?r\<rparr>, Some nm)"
    using p nm(2) by (intro ax_name_ident) (simp_all add: ax_idch_def byte_simps)
  let ?n = "(ax_ws x)\<lparr>ax_p := ?r\<rparr>"
  have np: "ax_p (ax_ws ?n) = ?o @ CHR '' '' # ?t @ rest" using A(2) by (simp add: ax_ws_p)
  have o: "ax_asop (ax_p (ax_ws ?n)) = Some (length ?o, snd (ax_as ! i))" unfolding np by (rule A(1))
  let ?y = "ax_adv (length ?o) (ax_ws ?n)"
  have y: "ax_p ?y = CHR '' '' # ?t @ rest" "ax_st ?y = ax_st x" "ax_bad ?y = ax_bad x" "ax_skip ?y = ax_skip x"
      "ax_depth ?y = ax_depth x" "ax_hasq ?y = ax_hasq x"
    using np by (simp_all add: ax_adv_def)
  have q: "ax_hasq x" using rD(3) by simp
  have we: "cA ?t (wd 1 (lev e) (dep e)) e" using e unfolding works_def by blast
  have pre: "I (ax_st ?y)" "asgs e \<Longrightarrow> ax_hasq ?y" "ax_depth ?y + wd 1 (lev e) (dep e) \<le> AXDEPTH"
    using rD(2,4) q unfolding y by simp_all
  obtain v b s k where b: "evt (\<lambda>f. ax_ev rd wr f XAssign ?y) (v, b)" "ax_ws b = upd ?y rest s k" "semr e ?y v s k"
    by (rule cA_use [OF we nm(4) y(1) pre rD(5) conjunct2 [OF r]])
  have yu: "upd ?y rest s k = upd x rest s k" by (simp add: ax_adv_def ax_ws_def)
  have bf: "ax_st b = s" "ax_bad b = k" "ax_skip b = ax_skip x" using ax_ws_fields [OF b(2)] y by simp_all
  have I1: "I s" using semr_ok [OF nm(4) _ b(3)] rD(2) y by simp
  have sb: "semr e x v s k" using b(3) semr_cong [OF y(2-4)] by blast
  have wsw: "ax_ws (b\<lparr>ax_st := s', ax_bad := k'\<rparr>) = upd x rest s' k'" for s' k'
  proof -
    have "ax_ws (b\<lparr>ax_st := s', ax_bad := k'\<rparr>) = (ax_ws b)\<lparr>ax_st := s', ax_bad := k'\<rparr>" by (simp add: ax_ws_def)
    then show ?thesis unfolding b(2) yu by simp
  qed
  let ?F = "\<lambda>f. \<lambda>(r, a2). case snd (ax_as ! i) of None \<Rightarrow> Some (r, ax_set wr a2 nm r)
      | Some op \<Rightarrow> ax_get rd (\<lambda>t. ax_ev rd wr f (XSub t)) a2 nm \<bind> (\<lambda>(l, a3). let (v, a4) = ax_do a3 op l r in Some (v, ax_set wr a4 nm v))"
  have ev: "evt (\<lambda>f. ax_ev rd wr f XAssign x) z" if "evt (\<lambda>f. ?F f (v, b)) z" for z
  proof (rule ev_steps)
    have "evt (\<lambda>f. ax_ev rd wr f XAssign ?y \<bind> ?F f) z" by (rule evt_bind [OF b(1), where h = "?F"]) (rule that)
    then show "evt (\<lambda>f. ax_assign rd wr (ax_ev rd wr f) x) z"
      using q c(2) by (simp only: ax_assign_def Let_def h n prod.case option.case o ax_ws_depth simp_thms if_False)
  qed
  show "\<exists>v b s q. evt (\<lambda>f. ax_ev rd wr f XAssign x) (v, b) \<and> ax_ws b = upd x rest s q \<and> semr ?e x v s q"
  proof (cases "snd (ax_as ! i)")
    case None
    let ?s = "if ax_skip x > 0 then s else fst (put wr (s, k) nm v)"
    have "ax_set wr b nm v = b\<lparr>ax_st := ?s, ax_bad := k\<rparr>" using bf by (cases b) (simp add: set_upd)
    then have "ax_ws (ax_set wr b nm v) = upd x rest ?s k" using wsw by simp
    moreover have "evt (\<lambda>f. ax_ev rd wr f XAssign x) (v, ax_set wr b nm v)" using None by (intro ev) simp
    moreover have "semr ?e x v ?s k" using sb None by (auto simp: semr_def put_def)
    ultimately show ?thesis by blast
  next
    case (Some op)
    have gt: "ax_get rd sub b nm = Some (g s nm, b)" for sub using get [of b nm sub] I1 bf nm(1) by simp
    let ?d = "ax_do b op (g s nm) v"
    obtain w k' where w: "?d = (w, b\<lparr>ax_st := s, ax_bad := k'\<rparr>)"
        "if ax_skip x = 0 then calc (s, k) op (g s nm) v = (w, s, k') else k' = k"
      using do_keep [of b op "g s nm" v] unfolding bf by blast
    let ?s = "if ax_skip x > 0 then s else fst (put wr (s, k') nm w)"
    have "ax_set wr (b\<lparr>ax_st := s, ax_bad := k'\<rparr>) nm w = b\<lparr>ax_st := ?s, ax_bad := k'\<rparr>"
      using bf by (cases b) (simp add: set_upd)
    then have "ax_ws (ax_set wr (b\<lparr>ax_st := s, ax_bad := k'\<rparr>) nm w) = upd x rest ?s k'" using wsw by simp
    moreover have "evt (\<lambda>f. ax_ev rd wr f XAssign x) (w, ax_set wr (b\<lparr>ax_st := s, ax_bad := k'\<rparr>) nm w)"
      using Some by (intro ev) (simp add: gt w(1))
    moreover have "semr ?e x w ?s k'" using sb Some w(2) by (auto simp: semr_def put_def split: if_splits)
    ultimately show ?thesis by blast
  qed
qed

lemma cA_cond:
  assumes c: "works c" and a: "works a" and b: "works b" and ok: "axe_ok N (ECond c a b)"
  shows "cA (etxt (ECond c a b)) (dep (ECond c a b)) (ECond c a b)"
  unfolding cA_def
proof (intro allI impI)
  let ?e = "ECond c a b" and ?tc = "wrap 2 (lev c) (etxt c)" and ?ta = "wrap 1 (lev a) (etxt a)" and ?tb = "wrap 1 (lev b) (etxt b)"
  fix x rest assume r: "ready ?e x (etxt ?e) (dep ?e) rest \<and> endA rest"
  note rD = readyD [OF conjunct1 [OF r]]
  have okc: "axe_ok N c" "axe_ok N a" "axe_ok N b" using ok by simp_all
  let ?r2 = "CHR '' '' # CHR '':'' # CHR '' '' # ?tb @ rest"
  let ?r1 = "CHR '' '' # CHR ''?'' # CHR '' '' # ?ta @ ?r2"
  have q1: "nxt ?r1 = CHR ''?'' # CHR '' '' # ?ta @ ?r2" and q2: "nxt ?r2 = CHR '':'' # CHR '' '' # ?tb @ rest" by simp_all
  have o1: "nxpr ?r1 = 0" "\<not> ax_inc (nxt ?r1)" "ax_asop (nxt ?r1) = None"
    using ax_no_op [of "nxt ?r1"] by (simp_all add: nxpr_def opchars_def)
  have p: "nxt (ax_p x) = ?tc @ ?r1" using rD(1) by simp
  have rc: "ready c (ax_ws x) ?tc (wd 2 (lev c) (dep c)) ?r1" using rD p by (intro ready_ws) (auto simp: ready_def)
  have "cB 1 (stops 2 c) ?tc (wd 2 (lev c) (dep c)) c" using c unfolding works_def by simp
  moreover have "stops 2 c ?r1" using o1(1) by (auto simp: stops_def split: axe.split)
  ultimately obtain v s k where v: "semr c (ax_ws x) v s k"
      "\<And>r. evt (\<lambda>f. ax_ev rd wr f (XLoop 1 v) (upd (ax_ws x) ?r1 s k)) r \<Longrightarrow> evt (\<lambda>f. ax_ev rd wr f (XBin 1) (ax_ws x)) r"
    using rc o1(2) unfolding cB_def by blast
  let ?u = "upd x ?r1 s k"
  have "evt (\<lambda>f. ax_ev rd wr f (XLoop 1 v) ?u) (v, ax_ws ?u)" using o1(1) by (intro loop_stop) (simp add: nxpr_def)
  then have bn: "evt (\<lambda>f. ax_ev rd wr f (XBin 1) (ax_ws x)) (v, ?u)" unfolding upd_ws by (intro v(2)) (simp only: ws_upd)
  have sc: "semr c x v s k" using v(1) semr_cong [of "ax_ws x" x] by simp
  have I1: "I s" using semr_ok [OF okc(1) rD(2) sc] .
  let ?sk = "\<lambda>b n. if b then n + 1 else n :: nat" and ?un = "\<lambda>b n. if b then n - 1 else n :: nat"
  let ?y = "(ax_adv 1 ?u)\<lparr>ax_skip := ?sk (v = 0) (ax_skip (ax_adv 1 ?u))\<rparr>"
  have yf: "ax_p ?y = CHR '' '' # ?ta @ ?r2" "ax_st ?y = s" "ax_bad ?y = k" "ax_skip ?y = ?sk (v = 0) (ax_skip x)"
      "ax_depth ?y = ax_depth x" "ax_hasq ?y = ax_hasq x"
    using q1 by (simp_all add: ax_adv_def)
  have ypre: "I (ax_st ?y)" "asgs a \<Longrightarrow> ax_hasq ?y" "ax_depth ?y + wd 1 (lev a) (dep a) \<le> AXDEPTH" "aft ?r2" "endA ?r2"
    using rD I1 endA_sp [of "CHR '':''"] unfolding yf by simp_all
  have wa: "cA ?ta (wd 1 (lev a) (dep a)) a" and wb: "cA ?tb (wd 1 (lev b) (dep b)) b" using a b unfolding works_def by blast+
  obtain t b3 s3 k3 where b3: "evt (\<lambda>f. ax_ev rd wr f XAssign ?y) (t, b3)" "ax_ws b3 = upd ?y ?r2 s3 k3" "semr a ?y t s3 k3"
    by (rule cA_use [OF wa okc(2) yf(1) ypre])
  have I3: "I s3" using semr_ok [OF okc(2) ypre(1) b3(3)] .
  let ?a4 = "upd x ?r2 s3 k3"
  have a4: "ax_ws (b3\<lparr>ax_skip := ?un (v = 0) (ax_skip b3)\<rparr>) = ?a4"
  proof -
    have "ax_skip b3 = ?sk (v = 0) (ax_skip x)" using ax_ws_fields [OF b3(2)] yf(4) by simp
    moreover have "ax_ws (b3\<lparr>ax_skip := n\<rparr>) = (ax_ws b3)\<lparr>ax_skip := n\<rparr>" for n by (simp add: ax_ws_def)
    ultimately show ?thesis unfolding b3(2) by (cases x) (simp add: ax_adv_def)
  qed
  let ?z = "(ax_adv 1 ?a4)\<lparr>ax_skip := ?sk (v \<noteq> 0) (ax_skip (ax_adv 1 ?a4))\<rparr>"
  have zf: "ax_p ?z = CHR '' '' # ?tb @ rest" "ax_st ?z = s3" "ax_bad ?z = k3" "ax_skip ?z = ?sk (v \<noteq> 0) (ax_skip x)"
      "ax_depth ?z = ax_depth x" "ax_hasq ?z = ax_hasq x"
    using q2 by (simp_all add: ax_adv_def)
  have zpre: "I (ax_st ?z)" "asgs b \<Longrightarrow> ax_hasq ?z" "ax_depth ?z + wd 1 (lev b) (dep b) \<le> AXDEPTH"
    using rD I3 unfolding zf by simp_all
  obtain e b6 s6 k6 where b6: "evt (\<lambda>f. ax_ev rd wr f XAssign ?z) (e, b6)" "ax_ws b6 = upd ?z rest s6 k6" "semr b ?z e s6 k6"
    by (rule cA_use [OF wb okc(3) zf(1) zpre rD(5) conjunct2 [OF r]])
  let ?w = "if v \<noteq> 0 then t else e" and ?b = "b6\<lparr>ax_skip := ?un (v \<noteq> 0) (ax_skip b6)\<rparr>"
  have "evt (\<lambda>f. ax_ev rd wr f XTern (ax_ws x)) (?w, ?b)"
  proof (rule ev_steps)
    have in2: "evt (\<lambda>f. ax_ev rd wr f XAssign ?z \<bind> (\<lambda>(e, a6). Some (if v \<noteq> 0 then t else e, a6\<lparr>ax_skip := ?un (v \<noteq> 0) (ax_skip a6)\<rparr>))) (?w, ?b)"
      by (rule evt_bind [OF b6(1)]) simp
    have in1: "evt (\<lambda>f. ax_ev rd wr f XAssign ?y \<bind> (\<lambda>(t, a3).
          let a4 = ax_ws (a3\<lparr>ax_skip := ?un (v = 0) (ax_skip a3)\<rparr>) in
          if at (ax_p a4) 0 \<noteq> CHR '':'' then Some (0, ax_err a4)
          else let a5 = ax_adv 1 a4 in
            ax_ev rd wr f XAssign (a5\<lparr>ax_skip := ?sk (v \<noteq> 0) (ax_skip a5)\<rparr>) \<bind> (\<lambda>(e, a6).
              Some (if v \<noteq> 0 then t else e, a6\<lparr>ax_skip := ?un (v \<noteq> 0) (ax_skip a6)\<rparr>)))) (?w, ?b)"
    proof (rule evt_bind [OF b3(1)], unfold prod.case Let_def a4)
      have "at (ax_p ?a4) 0 = CHR '':''" using q2 by simp
      then show "evt (\<lambda>f. if at (ax_p ?a4) 0 \<noteq> CHR '':'' then Some (0, ax_err ?a4) else
            ax_ev rd wr f XAssign ?z \<bind> (\<lambda>(e, a6). Some (if v \<noteq> 0 then t else e, a6\<lparr>ax_skip := ?un (v \<noteq> 0) (ax_skip a6)\<rparr>))) (?w, ?b)"
        using in2 by (simp only: not_not simp_thms if_False)
    qed
    show "evt (\<lambda>f. ax_tern (ax_ev rd wr f) (ax_ws x)) (?w, ?b)"
      unfolding ax_tern_def
    proof (rule evt_bind [OF bn], unfold prod.case Let_def upd_ws)
      have "at (ax_p ?u) 0 = CHR ''?''" using q1 by simp
      then show "evt (\<lambda>f. if at (ax_p ?u) 0 \<noteq> CHR ''?'' then Some (v, ?u) else
          ax_ev rd wr f XAssign ?y \<bind> (\<lambda>(t, a3).
          if at (ax_p (ax_ws (a3\<lparr>ax_skip := ?un (v = 0) (ax_skip a3)\<rparr>))) 0 \<noteq> CHR '':'' then Some (0, ax_err (ax_ws (a3\<lparr>ax_skip := ?un (v = 0) (ax_skip a3)\<rparr>)))
          else
            ax_ev rd wr f XAssign ((ax_adv 1 (ax_ws (a3\<lparr>ax_skip := ?un (v = 0) (ax_skip a3)\<rparr>)))\<lparr>ax_skip := ?sk (v \<noteq> 0) (ax_skip (ax_adv 1 (ax_ws (a3\<lparr>ax_skip := ?un (v = 0) (ax_skip a3)\<rparr>))))\<rparr>) \<bind> (\<lambda>(e, a6).
              Some (if v \<noteq> 0 then t else e, a6\<lparr>ax_skip := ?un (v \<noteq> 0) (ax_skip a6)\<rparr>)))) (?w, ?b)"
        using in1 by (simp only: Let_def not_not simp_thms if_False)
    qed
  qed
  then have "evt (\<lambda>f. ax_ev rd wr f XAssign x) (?w, ?b)"
  proof (rule tern_from_assign [rotated])
    show "noasg (nxt (ax_p x))" unfolding p using o1 by (intro noasg_wrap [OF okc(1)]) simp_all
  qed
  moreover have "ax_ws ?b = upd x rest s6 k6"
  proof -
    have "ax_skip b6 = ?sk (v \<noteq> 0) (ax_skip x)" using ax_ws_fields [OF b6(2)] zf(4) by simp
    moreover have "ax_ws (b6\<lparr>ax_skip := n\<rparr>) = (ax_ws b6)\<lparr>ax_skip := n\<rparr>" for n by (simp add: ax_ws_def)
    ultimately show ?thesis unfolding b6(2) by (cases x) (simp add: ax_adv_def)
  qed
  moreover have "semr ?e x ?w s6 k6"
  proof (cases "ax_skip x = 0")
    case True
    then have s1: "sem g wr c (ax_st x, ax_bad x) = (v, s, k)" using sc by (simp add: semr_def)
    show ?thesis
    proof (cases "v = 0")
      case v0: True
      then have "s3 = s" "k3 = k" using b3(3) unfolding semr_def yf by simp_all
      moreover have "sem g wr b (s3, k3) = (e, s6, k6)" using b6(3) True v0 unfolding semr_def zf by simp
      ultimately show ?thesis using True s1 v0 by (simp add: semr_def)
    next
      case v1: False
      then have "s6 = s3" "k6 = k3" using b6(3) unfolding semr_def zf by simp_all
      moreover have "sem g wr a (s, k) = (t, s3, k3)" using b3(3) True v1 unfolding semr_def yf by simp
      ultimately show ?thesis using True s1 v1 by (simp add: semr_def)
    qed
  next
    case False
    then have "s = ax_st x" "k = ax_bad x" using sc by (simp_all add: semr_def)
    moreover have "s3 = s" "k3 = k" using b3(3) False unfolding semr_def yf by (simp_all split: if_splits)
    moreover have "s6 = s3" "k6 = k3" using b6(3) False unfolding semr_def zf by (simp_all split: if_splits)
    ultimately show ?thesis using False by (simp add: semr_def)
  qed
  ultimately show "\<exists>v b s q. evt (\<lambda>f. ax_ev rd wr f XAssign x) (v, b) \<and> ax_ws b = upd x rest s q \<and> semr ?e x v s q" by blast
qed

lemma cC_seq:
  assumes a: "works a" and b: "works b" and ok: "axe_ok N (ESeq a b)"
  shows "cC (etxt (ESeq a b)) (dep (ESeq a b)) (ESeq a b)"
  unfolding cC_def
proof (intro allI impI)
  let ?e = "ESeq a b" and ?ta = "wrap 0 (lev a) (etxt a)" and ?tb = "wrap 1 (lev b) (etxt b)"
  fix x rest assume r: "ready ?e x (etxt ?e) (dep ?e) rest \<and> endA rest"
  note rD = readyD [OF conjunct1 [OF r]]
  have okc: "axe_ok N a" "axe_ok N b" using ok by simp_all
  let ?r1 = "CHR '' '' # CHR '','' # CHR '' '' # ?tb @ rest"
  have ra: "ready a x ?ta (wd 0 (lev a) (dep a)) ?r1" using rD by (auto simp: ready_def)
  have wa: "cC ?ta (wd 0 (lev a) (dep a)) a" and wb: "cA ?tb (wd 1 (lev b) (dep b)) b" using a b unfolding works_def by blast+
  have "endA ?r1" by (rule endA_sp) simp
  with wa ra obtain v s k where v: "semr a x v s k"
      "\<And>r. evt (\<lambda>f. ax_ev rd wr f (XCommas v) (upd x ?r1 s k)) r \<Longrightarrow> evt (\<lambda>f. ax_ev rd wr f XComma x) r"
    unfolding cC_def by blast
  have I1: "I s" using semr_ok [OF okc(1) rD(2) v(1)] .
  let ?u = "upd x ?r1 s k"
  let ?y = "ax_adv 1 ?u"
  have up: "ax_p ?u = CHR '','' # CHR '' '' # ?tb @ rest" by simp
  have yf: "ax_p ?y = CHR '' '' # ?tb @ rest" "ax_st ?y = s" "ax_bad ?y = k" "ax_skip ?y = ax_skip x"
      "ax_depth ?y = ax_depth x" "ax_hasq ?y = ax_hasq x"
    using up by (simp_all add: ax_adv_def)
  have ypre: "I (ax_st ?y)" "asgs b \<Longrightarrow> ax_hasq ?y" "ax_depth ?y + wd 1 (lev b) (dep b) \<le> AXDEPTH"
    using rD I1 unfolding yf by simp_all
  obtain w d s2 k2 where d: "evt (\<lambda>f. ax_ev rd wr f XAssign ?y) (w, d)" "ax_ws d = upd ?y rest s2 k2" "semr b ?y w s2 k2"
    by (rule cA_use [OF wb okc(2) yf(1) ypre rD(5) conjunct2 [OF r]])
  have du: "upd ?y rest s2 k2 = upd x rest s2 k2" by (simp add: ax_adv_def)
  have "evt (\<lambda>f. ax_ev rd wr f XComma x) z" if "evt (\<lambda>f. ax_ev rd wr f (XCommas w) (upd x rest s2 k2)) z" for z
  proof (rule v(2), rule ev_steps)
    have "evt (\<lambda>f. ax_ev rd wr f (XCommas w) d) z" using that commas_from_ws [of rd wr w d z] unfolding d(2) du by blast
    then have "evt (\<lambda>f. ax_ev rd wr f XAssign ?y \<bind> (\<lambda>(v, a). ax_ev rd wr f (XCommas v) a)) z"
      by (intro evt_bind [OF d(1)]) simp
    then show "evt (\<lambda>f. ax_commas (ax_ev rd wr f) v ?u) z"
      unfolding ax_commas_def Let_def upd_ws up by simp
  qed
  moreover have "semr ?e x w s2 k2" using v(1) d(3) unfolding semr_def yf by (auto split: if_splits)
  ultimately show "\<exists>v s q. semr ?e x v s q \<and> (\<forall>r. evt (\<lambda>f. ax_ev rd wr f (XCommas v) (upd x rest s q)) r \<longrightarrow> evt (\<lambda>f. ax_ev rd wr f XComma x) r)"
    by blast
qed

end

subsection \<open>The text of an assignment is taken for one\<close>

lemma hasasg_reach:
  assumes "i < length t" "t ! i = CHR ''=''" "at t (i + 1) \<noteq> CHR ''=''" "0 < i" "t ! (i - 1) \<noteq> CHR ''=''"
    "t ! (i - 1) \<in> {CHR ''!'', CHR ''<'', CHR ''>''} \<longrightarrow> 1 < i \<and> t ! (i - 2) = t ! (i - 1)" "j \<le> i"
  shows "ax_hasasg_at t j"
  using assms(7)
proof (induction "i - j" arbitrary: j rule: less_induct)
  case less
  show ?case
  proof (cases "j = i")
    case True
    with assms show ?thesis by (subst ax_hasasg_at.simps) auto
  next
    case False
    then have j: "j < i" using less.prems by simp
    have "j + 1 \<noteq> i" if "t ! j = CHR ''=''" using that assms(5) by auto
    with j less.hyps [of "j + 1"] less.hyps [of "j + 2"] assms(1) show ?thesis by (subst ax_hasasg_at.simps) auto
  qed
qed

definition asg_in :: "string \<Rightarrow> bool" where
  "asg_in t \<longleftrightarrow> (\<exists>u o' w. o' \<in> set (map fst ax_as) \<and> t = u @ CHR '' '' # o' @ CHR '' '' # w)"

lemma ax_as_tail: "\<forall>o' \<in> set (map fst ax_as).
    0 < length o' \<and> (CHR '' '' # o') ! length o' = CHR ''='' \<and> (CHR '' '' # o') ! (length o' - 1) \<noteq> CHR ''='' \<and>
    ((CHR '' '' # o') ! (length o' - 1) \<in> {CHR ''!'', CHR ''<'', CHR ''>''} \<longrightarrow>
      1 < length o' \<and> (CHR '' '' # o') ! (length o' - 2) = (CHR '' '' # o') ! (length o' - 1))"
  by code_simp

lemma asg_in_hasasg: "asg_in t \<Longrightarrow> ax_hasasg t"
proof -
  assume "asg_in t"
  then obtain u o' w where i: "o' \<in> set (map fst ax_as)" "t = u @ (CHR '' '' # o') @ CHR '' '' # w" unfolding asg_in_def by auto
  let ?o = "CHR '' '' # o'" and ?n = "length o'"
  note o = bspec [OF ax_as_tail i(1)]
  have a: "t ! (length u + k) = ?o ! k" if "k \<le> ?n" for k
    using that nth_append [of ?o "CHR '' '' # w" k] unfolding i(2) nth_append_length_plus by simp
  have b: "at t (length u + ?n + 1) = CHR '' ''" unfolding i(2) by (simp add: at_def nth_append)
  have "ax_hasasg_at t 0"
  proof (rule hasasg_reach [of "length u + ?n"])
    show "length u + ?n < length t" unfolding i(2) by simp
    show "t ! (length u + ?n) = CHR ''=''" unfolding a [OF order_refl] using o by blast
    show "at t (length u + ?n + 1) \<noteq> CHR ''=''" unfolding b by simp
    have n: "0 < ?n" using o by blast
    then have "length u + ?n - 1 = length u + (?n - 1)" by linarith
    then have m: "t ! (length u + ?n - 1) = ?o ! (?n - 1)" by (simp only: a [of "?n - 1"] diff_le_self)
    show "t ! (length u + ?n - 1) \<noteq> CHR ''=''" unfolding m using o by blast
    show "0 < length u + ?n" using n by simp
    show "t ! (length u + ?n - 1) \<in> {CHR ''!'', CHR ''<'', CHR ''>''} \<longrightarrow>
        1 < length u + ?n \<and> t ! (length u + ?n - 2) = t ! (length u + ?n - 1)"
      unfolding m
    proof
      assume "?o ! (?n - 1) \<in> {CHR ''!'', CHR ''<'', CHR ''>''}"
      then have k: "1 < ?n" "?o ! (?n - 2) = ?o ! (?n - 1)" using o by blast+
      from k(1) have "length u + ?n - 2 = length u + (?n - 2)" by linarith
      then have "t ! (length u + ?n - 2) = ?o ! (?n - 2)" by (simp only: a [of "?n - 2"] diff_le_self)
      then show "1 < length u + ?n \<and> t ! (length u + ?n - 2) = ?o ! (?n - 1)" using k by simp
    qed
  qed simp
  then show ?thesis by (simp add: ax_hasasg_def)
qed

lemma asg_in_app: "asg_in t \<Longrightarrow> asg_in (u @ t)" "asg_in t \<Longrightarrow> asg_in (t @ u)"
proof -
  assume "asg_in t"
  then obtain v o' w where i: "o' \<in> set (map fst ax_as)" "t = v @ CHR '' '' # o' @ CHR '' '' # w" unfolding asg_in_def by blast
  then have "u @ t = (u @ v) @ CHR '' '' # o' @ CHR '' '' # w" "t @ u = v @ CHR '' '' # o' @ CHR '' '' # (w @ u)" by simp_all
  then show "asg_in (u @ t)" "asg_in (t @ u)" using i(1) unfolding asg_in_def by blast+
qed

lemma asg_in_Cons: "asg_in t \<Longrightarrow> asg_in (c # t)"
  using asg_in_app(1) [of t "[c]"] by simp

lemma asg_in_wrap: "asg_in t \<Longrightarrow> asg_in (wrap n l t)"
  by (simp add: wrap_def asg_in_app asg_in_Cons)

lemma asgs_text: "axe_ok N e \<Longrightarrow> asgs e \<Longrightarrow> asg_in (etxt e)"
proof (induction e)
  case (EAsg nm i e)
  then have "i < length ax_as" by (simp add: ax_as_def)
  then have "fst (ax_as ! i) \<in> set (map fst ax_as)" by (metis image_eqI list.set_map nth_mem)
  then show ?case unfolding asg_in_def
    by (intro exI [of _ nm] exI [of _ "fst (ax_as ! i)"] exI [of _ "wrap 1 (lev e) (etxt e)"]) simp
qed (auto, (blast intro: asg_in_wrap asg_in_app asg_in_Cons)+)

context axcells
begin

text \<open>An expression in parentheses, and one that binds as tight as it is asked to.\<close>

lemma works_of:
  assumes ok: "axe_ok N e" and cc: "cC (etxt e) (dep e) e"
    and nb: "\<And>n mp. mp + 1 \<le> n \<Longrightarrow> 2 \<le> n \<Longrightarrow> n \<le> lev e \<Longrightarrow> n \<le> 14 \<Longrightarrow> cB mp (stops n e) (etxt e) (dep e) e"
    and nu: "14 \<le> lev e \<Longrightarrow> cU (etxt e) (dep e) e" and na: "1 \<le> lev e \<Longrightarrow> cA (etxt e) (dep e) e"
  shows "works e"
proof -
  note U = cU_paren [OF cc ok]
  note B = cB_of_cU [OF U]
  have A: "cA (''('' @ etxt e @ '')'') (dep e + 1) e"
    by (rule cA_of_cB [OF B, of "\<lambda>_. True"]) (simp_all add: noasg_def ax_idstart_def byte_simps)
  show ?thesis unfolding works_def
  proof (intro conjI allI impI)
    fix n mp :: nat assume n: "mp + 1 \<le> n \<and> 2 \<le> n \<and> n \<le> 14"
    show "cB mp (stops n e) (wrap n (lev e) (etxt e)) (wd n (lev e) (dep e)) e"
    proof (cases "lev e < n")
      case True
      then show ?thesis using B [of mp "stops n e"] by (simp add: wrap_def wd_def)
    next
      case False
      then show ?thesis using nb n by (simp add: wrap_def wd_def)
    qed
  next
    show "cU (wrap 14 (lev e) (etxt e)) (wd 14 (lev e) (dep e)) e" using U nu by (cases "lev e < 14") (simp_all add: wrap_def wd_def)
    show "cA (wrap 1 (lev e) (etxt e)) (wd 1 (lev e) (dep e)) e" using A na by (cases "lev e < 1") (simp_all add: wrap_def wd_def)
    show "cC (wrap 0 (lev e) (etxt e)) (wd 0 (lev e) (dep e)) e" using cc by (simp add: wrap_def wd_def)
  qed
qed

lemma cA_native:
  assumes ok: "axe_ok N e" and l: "2 \<le> lev e" and b: "cB 1 S (etxt e) (dep e) e" and S: "\<And>rest. endA rest \<Longrightarrow> aft rest \<Longrightarrow> S rest"
  shows "cA (etxt e) (dep e) e"
proof (rule cA_of_cB [OF b S])
  fix rest assume "aft rest" "ax_asop (nxt rest) = None"
  then show "noasg (etxt e @ rest)" using noasg_wrap [OF ok, of 2 rest] l by (simp add: wrap_def)
qed

lemma works_operand:
  assumes ok: "axe_ok N e" and l: "14 \<le> lev e" and u: "cU (etxt e) (dep e) e"
  shows "works e"
proof (rule works_of [OF ok])
  have a: "cA (etxt e) (dep e) e" using l by (intro cA_native [OF ok _ cB_of_cU [OF u], of "\<lambda>_. True"]) simp_all
  then show "cC (etxt e) (dep e) e" by (rule cC_of_cA)
  show "cA (etxt e) (dep e) e" by (rule a)
qed (use u cB_of_cU [OF u] in simp_all)

lemma works_all: "axe_ok N e \<Longrightarrow> works e"
proof (induction e)
  case (ENum n)
  then show ?case using cU_num by (intro works_operand) simp_all
next
  case (EVar nm)
  then show ?case using cU_var by (intro works_operand) simp_all
next
  case (EPre up nm)
  then show ?case using cU_pre by (intro works_operand) simp_all
next
  case (EPost up nm)
  then show ?case using cU_post by (intro works_operand) simp_all
next
  case (EUn c e)
  then have "cU (wrap 14 (lev e) (etxt e)) (wd 14 (lev e) (dep e)) e" by (simp add: works_def)
  with EUn.prems show ?case using cU_un by (intro works_operand) simp_all
next
  case (EBin op a b)
  let ?e = "EBin op a b" and ?S = "\<lambda>rest. nxpr rest < (if op = 18 then 12 else ax_pr ! op + 1)"
  have op: "op < 19" "1 \<le> ax_pr ! op" using EBin.prems ax_op_name(6) by auto
  have b: "cB mp ?S (etxt ?e) (dep ?e) ?e" if "mp \<le> ax_pr ! op" for mp
    using cB_bin [OF _ _ EBin.prems that] EBin by simp
  have a: "cA (etxt ?e) (dep ?e) ?e"
    using op endA_no_op by (intro cA_native [OF EBin.prems _ b]) simp_all
  show ?case
  proof (rule works_of [OF EBin.prems cC_of_cA [OF a]])
    fix n mp :: nat assume n: "mp + 1 \<le> n" "2 \<le> n" "n \<le> lev ?e"
    then have "cB mp ?S (etxt ?e) (dep ?e) ?e" by (intro b) simp
    moreover have "stops n ?e = ?S" using n(3) by (simp add: stops_def fun_eq_iff)
    ultimately show "cB mp (stops n ?e) (etxt ?e) (dep ?e) ?e" by simp
  next
    assume "14 \<le> lev ?e"
    then show "cU (etxt ?e) (dep ?e) ?e" using ax_op_name(6) [OF op(1)] by simp
  qed (rule a)
next
  case (ECond c a b)
  then have x: "cA (etxt (ECond c a b)) (dep (ECond c a b)) (ECond c a b)" by (intro cA_cond) simp_all
  show ?case by (rule works_of [OF ECond.prems cC_of_cA [OF x]]) (use x in simp_all)
next
  case (EAsg nm i e)
  then have x: "cA (etxt (EAsg nm i e)) (dep (EAsg nm i e)) (EAsg nm i e)" by (intro cA_asg) simp_all
  show ?case by (rule works_of [OF EAsg.prems cC_of_cA [OF x]]) (use x in simp_all)
next
  case (ESeq a b)
  then have x: "cC (etxt (ESeq a b)) (dep (ESeq a b)) (ESeq a b)" by (intro cC_seq) simp_all
  show ?case by (rule works_of [OF ESeq.prems x]) simp_all
qed

lemma run_expr:
  assumes ok: "axe_ok N e" and d: "dep e \<le> AXDEPTH" and s: "I s"
  shows "evt (\<lambda>f. ax_run rd wr f s (etxt e)) (case sem g wr e (s, False) of (v, s', q) \<Rightarrow> (s', if q then None else Some v))"
proof -
  let ?a = "ax_start s (etxt e)"
  have cc: "cC (etxt e) (dep e) e" using works_all [OF ok] by (simp add: works_def wrap_def wd_def)
  have "nxt (etxt e) = etxt e" using nxt_wrap [OF ok, of 0 "[]"] by (simp add: wrap_def)
  moreover have "asgs e \<Longrightarrow> ax_hasasg (etxt e)" using asgs_text [OF ok] asg_in_hasasg by blast
  ultimately have "ready e ?a (etxt e) (dep e) [] \<and> endA []" using d s by (simp add: ready_def ax_start_def endA_def)
  with cc obtain v s' q where v: "semr e ?a v s' q"
      "\<And>r. evt (\<lambda>f. ax_ev rd wr f (XCommas v) (upd ?a [] s' q)) r \<Longrightarrow> evt (\<lambda>f. ax_ev rd wr f XComma ?a) r"
    unfolding cC_def by blast
  have "evt (\<lambda>f. ax_ev rd wr f (XCommas v) (upd ?a [] s' q)) (v, ax_ws (upd ?a [] s' q))"
    by (rule commas_stop) simp
  then have c: "evt (\<lambda>f. ax_ev rd wr f XComma ?a) (v, upd ?a [] s' q)" unfolding upd_ws by (rule v(2))
  have "sem g wr e (s, False) = (v, s', q)" using v(1) by (simp add: semr_def ax_start_def)
  moreover have "evt (\<lambda>f. ax_run rd wr f s (etxt e)) (s', if q then None else Some v)"
    unfolding ax_run_def by (rule evt_bind [OF c]) (simp add: ax_ws_def)
  ultimately show ?thesis by simp
qed

end


subsection \<open>On the shell's variables\<close>

text \<open>The values of the names, in a map from names to numbers.\<close>


text \<open>A map from names to numbers, as a store.\<close>

definition mget :: "(string \<Rightarrow> long) \<Rightarrow> string \<Rightarrow> long" where
  "mget \<sigma> nm = \<sigma> nm"

definition mput :: "(string \<Rightarrow> long) \<Rightarrow> string \<Rightarrow> long \<Rightarrow> string \<Rightarrow> long" where
  "mput \<sigma> nm v = \<sigma>(nm := v)"

lemma sem_refines:
  assumes g: "\<And>\<sigma> s nm. R \<sigma> s \<Longrightarrow> nm \<in> N \<Longrightarrow> g s nm = mget \<sigma> nm"
    and wr: "\<And>\<sigma> s nm v. R \<sigma> s \<Longrightarrow> nm \<in> N \<Longrightarrow> R (mput \<sigma> nm v) (wr s nm v)"
  shows "axe_ok N e \<Longrightarrow> R \<sigma> s \<Longrightarrow> sem g wr e (s, k) = (v, s', q) \<Longrightarrow>
    \<exists>\<sigma>'. sem mget mput e (\<sigma>, k) = (v, \<sigma>', q) \<and> R \<sigma>' s'"
proof (induction e arbitrary: \<sigma> s k v s' q)
  case (EUn c e)
  obtain l s1 k1 where a: "sem g wr e (s, k) = (l, s1, k1)" by (rule prod_cases3)
  have "axe_ok N e" using EUn.prems(1) by simp
  from EUn.IH [OF this EUn.prems(2) a] obtain \<sigma>1 where "sem mget mput e (\<sigma>, k) = (l, \<sigma>1, k1)" "R \<sigma>1 s1" by blast
  with a EUn.prems(3) show ?case by simp
next
  case (EBin op a b)
  have ok: "axe_ok N a" "axe_ok N b" using EBin.prems(1) by simp_all
  obtain l s1 k1 where a: "sem g wr a (s, k) = (l, s1, k1)" by (rule prod_cases3)
  from EBin.IH(1) [OF ok(1) EBin.prems(2) a] obtain \<sigma>1 where a': "sem mget mput a (\<sigma>, k) = (l, \<sigma>1, k1)" "R \<sigma>1 s1" by blast
  obtain r s2 k2 where b: "sem g wr b (s1, k1) = (r, s2, k2)" by (rule prod_cases3)
  from EBin.IH(2) [OF ok(2) a'(2) b] obtain \<sigma>2 where b': "sem mget mput b (\<sigma>1, k1) = (r, \<sigma>2, k2)" "R \<sigma>2 s2" by blast
  show ?case
  proof (cases "op = 0 \<and> l \<noteq> 0 \<or> op = 1 \<and> l = 0")
    case True
    with a a' EBin.prems(3) show ?thesis by simp
  next
    case False
    have "case calc (s2, k2) op l r of (v, s', q) \<Rightarrow> calc (\<sigma>2, k2) op l r = (v, \<sigma>2, q) \<and> s' = s2"
      by (simp add: calc_def split: option.split)
    with False a b a' b' EBin.prems(3) show ?thesis by auto
  qed
next
  case (ECond c a b)
  have ok: "axe_ok N c" "axe_ok N a" "axe_ok N b" using ECond.prems(1) by simp_all
  obtain l s1 k1 where c: "sem g wr c (s, k) = (l, s1, k1)" by (rule prod_cases3)
  from ECond.IH(1) [OF ok(1) ECond.prems(2) c] obtain \<sigma>1 where c': "sem mget mput c (\<sigma>, k) = (l, \<sigma>1, k1)" "R \<sigma>1 s1" by blast
  show ?case using c c' ECond.prems(3) ECond.IH(2) [OF ok(2) c'(2), of k1 v s' q] ECond.IH(3) [OF ok(3) c'(2), of k1 v s' q]
    by (cases "l = 0") simp_all
next
  case (EAsg nm i e)
  have ok: "axe_ok N e" "nm \<in> N" using EAsg.prems(1) by simp_all
  obtain r s1 k1 where e: "sem g wr e (s, k) = (r, s1, k1)" by (rule prod_cases3)
  from EAsg.IH [OF ok(1) EAsg.prems(2) e] obtain \<sigma>1 where e': "sem mget mput e (\<sigma>, k) = (r, \<sigma>1, k1)" "R \<sigma>1 s1" by blast
  show ?case using e e' EAsg.prems(3) g [OF e'(2) ok(2)] wr [OF e'(2) ok(2)]
    by (auto simp: calc_def put_def split: option.splits if_splits)
next
  case (ESeq a b)
  have ok: "axe_ok N a" "axe_ok N b" using ESeq.prems(1) by simp_all
  obtain l s1 k1 where a: "sem g wr a (s, k) = (l, s1, k1)" by (rule prod_cases3)
  from ESeq.IH(1) [OF ok(1) ESeq.prems(2) a] obtain \<sigma>1 where "sem mget mput a (\<sigma>, k) = (l, \<sigma>1, k1)" "R \<sigma>1 s1" by blast
  with a ESeq.prems(3) ESeq.IH(2) [OF ok(2)] show ?case by simp
qed (auto simp: put_def Let_def g wr)

text \<open>The names are plain variables, set to the numbers of \<open>\<sigma>\<close>.\<close>

definition cells :: "string set \<Rightarrow> (string \<Rightarrow> long) \<Rightarrow> xst \<Rightarrow> bool" where
  "cells N \<sigma> x \<longleftrightarrow> sh_ok (xs x) \<and>
    (\<forall>nm \<in> N. \<exists>e. v_find (xs x) nm = Some e \<and> \<not> vro e \<and> vat e = 0 \<and> vv e = Some (s_num (sint (\<sigma> nm))))"

definition plain_names :: "string set \<Rightarrow> bool" where
  "plain_names N \<longleftrightarrow> (\<forall>nm \<in> N. ident nm \<and> \<not> is_dyn nm)"

definition cell :: "xst \<Rightarrow> string \<Rightarrow> long" where
  "cell x nm = (case hibr_get (xs x) nm of None \<Rightarrow> 0 | Some t \<Rightarrow> fst (ax_num t))"

lemma cell_get: "cells N \<sigma> x \<Longrightarrow> nm \<in> N \<Longrightarrow> hibr_get (xs x) nm = Some (s_num (sint (\<sigma> nm)))"
proof -
  assume "cells N \<sigma> x" "nm \<in> N"
  then obtain e where e: "v_find (xs x) nm = Some e" "vat e = 0" "vv e = Some (s_num (sint (\<sigma> nm)))"
    unfolding cells_def by blast
  then have "\<not> follows e" by (simp add: follows_def is_ref_def)
  with hibr_get_plain [OF e(1)] e(3) show ?thesis by simp
qed

lemma cell_val: "cells N \<sigma> x \<Longrightarrow> nm \<in> N \<Longrightarrow> cell x nm = mget \<sigma> nm"
  using cell_get [of N \<sigma> x nm] ax_num_s_num [of "sint (\<sigma> nm)" "[]"] sint_bounds [of "\<sigma> nm"] by (simp add: cell_def mget_def)

lemma ident_no_sub: "ident nm \<Longrightarrow> CHR ''['' \<notin> set nm"
  by (auto simp: ident_def list_all_iff ax_idch_def byte_simps)

lemma cell_put:
  assumes c: "cells N \<sigma> x" and nm: "nm \<in> N" "plain_names N"
  shows "cells N (mput \<sigma> nm v) (ax_wr E ax x nm v)"
proof -
  from c nm(1) obtain e where e: "v_find (xs x) nm = Some e" "\<not> vro e" "vat e = 0" and ok: "sh_ok (xs x)"
    unfolding cells_def by blast
  have n: "\<not> is_dyn nm" "CHR ''['' \<notin> set nm" using nm ident_no_sub by (auto simp: plain_names_def)
  let ?t = "xnum (sint v)"
  have co: "v_coerce ax (v_room (xs x)) e ?t = (v_room (xs x), Some ?t)" using e(3) by (simp add: v_coerce_def v_tyname_def)
  let ?s = "v_store (v_room (xs x)) nm ?t (exports (xs x) nm False)"
  have "fst (hibr_set ax (xs x) nm ?t False) = ?s"
    using step_old [OF ok n(1) e(1,2)] e(3) co by (simp add: hibr_set_assign hibr_set_def is_ref_def)
  then have w: "xs (ax_wr E ax x nm v) = ?s" using n(2) by (simp add: ax_wr_def)
  note r = v_room_ok [OF ok]
  have f: "v_find (v_room (xs x)) nm = Some e" using e(1) r(2) by simp
  note st = v_store_ok [OF r(1) f, of ?t "exports (xs x) nm False"]
  show ?thesis using c e st(1) unfolding cells_def w st(2) r(2) by (auto simp: xnum_s_num mput_def)
qed

interpretation shell_cells: axcells "ax_rd E" "ax_wr E ax" cell "{nm \<in> N. plain_names {nm}}" "\<lambda>x. \<exists>\<sigma>. cells {nm \<in> N. plain_names {nm}} \<sigma> x" for E ax N
proof
  let ?N = "{nm \<in> N. plain_names {nm}}"
  have p: "plain_names ?N" by (auto simp: plain_names_def)
  fix nm v assume nm: "nm \<in> ?N"
  then show "ident nm" by (simp add: plain_names_def)
  fix x k assume "\<exists>\<sigma>. cells ?N \<sigma> x"
  then obtain \<sigma> where x: "cells ?N \<sigma> x" ..
  have "CHR ''['' \<notin> set nm" using nm by (simp add: plain_names_def ident_no_sub)
  then show "ax_rd E x k nm = (x, None, False) \<and> cell x nm = 0 \<or> ax_rd E x k nm = (x, Some (s_num (sint (cell x nm))), False)"
    using cell_get [OF x nm] cell_val [OF x nm] by (simp add: ax_rd_def xval_name_def mget_def)
  show "\<exists>\<sigma>. cells ?N \<sigma> (ax_wr E ax x nm v)" using cell_put [OF x nm p] by blast
qed

text \<open>C30: the text of an expression over plain variables that hold numbers evaluates, to the value that the
  expression has over a map from names to numbers (precedence, grouping, short circuits, assignments in
  order, wrapping and errors), and leaves the variables holding the numbers of that map.\<close>

theorem arith_expression:
  assumes "axe_ok N e" "plain_names N" "dep e \<le> AXDEPTH" "cells N \<sigma> x"
    and "sem mget mput e (\<sigma>, False) = (v, \<sigma>', q)"
  shows "\<exists>x'. (\<exists>k. \<forall>f\<ge>k. ax_run (ax_rd E) (ax_wr E ax) f x (etxt e) = Some (x', if q then None else Some v)) \<and> cells N \<sigma>' x'"
proof -
  have N: "{nm \<in> N. plain_names {nm}} = N" using assms(2) by (auto simp: plain_names_def)
  obtain w s r where s: "sem cell (ax_wr E ax) e (x, False) = (w, s, r)" by (rule prod_cases3)
  have run: "evt (\<lambda>f. ax_run (ax_rd E) (ax_wr E ax) f x (etxt e)) (s, if r then None else Some w)"
    using shell_cells.run_expr [of N e x E ax] assms(1,3,4) s unfolding N by (metis case_prod_conv)
  obtain \<sigma>2 where m: "sem mget mput e (\<sigma>, False) = (w, \<sigma>2, r)" "cells N \<sigma>2 s"
    using sem_refines [of "cells N" N cell "ax_wr E ax", OF _ _ assms(1,4) s] cell_val cell_put assms(2) by blast
  then have "w = v" "\<sigma>2 = \<sigma>'" "r = q" using assms(5) by simp_all
  with run m(2) show ?thesis unfolding evt_def by blast
qed

theorem arith_expression_witness:
  "\<exists>x'. (\<exists>k. \<forall>f\<ge>k. ax_run (ax_rd env0) (ax_wr env0 (\<lambda>s t. (s, 0))) f
      (xst0\<lparr>xs := fst (hibr_set (\<lambda>s t. (s, 0)) sh0 ''x'' ''7'' False)\<rparr>)
      ''x += (x + 2) * 3'' = Some (x', Some 34)) \<and> cells {''x''} ((\<lambda>_. 0)(''x'' := 34)) x'"
proof -
  let ?e = "EAsg ''x'' 3 (EBin 15 (EBin 13 (EVar ''x'') (ENum 2)) (ENum 3))"
  let ?x = "xst0\<lparr>xs := fst (hibr_set (\<lambda>s t. (s, 0)) sh0 ''x'' ''7'' False)\<rparr>"
  have t: "etxt ?e = ''x += (x + 2) * 3''"
  proof -
    have "s_num 2 = ''2''" "s_num 3 = ''3''" by code_simp+
    then show ?thesis by (simp add: opname_def ax_as_def ax_pr_def wrap_def llev_def rlev_def)
  qed
  have "ident ''x''" by code_simp
  then have ok: "axe_ok {''x''} ?e" "plain_names {''x''}" "dep ?e \<le> AXDEPTH"
    by (simp_all add: plain_names_def is_dyn_def wd_def)
  have f: "v_find (xs ?x) ''x'' = Some (new_var ''x'' ''7'' False)"
    using step_new [of sh0 "''x''" "\<lambda>s t. (s, 0)" _ _ "''7''" False False] v_create_ok(2) [OF v_room_ok(1) [of sh0] v_room_ok(3) [of sh0], of "''x''" "''7''"]
    by (simp add: hibr_set_def is_dyn_def v_room_ok(2) exports_def)
  have "sh_ok (xs ?x)" by (simp add: hibr_set_ok ax_keeps_def)
  moreover have seven: "s_num 7 = ''7''" by code_simp
  ultimately have c: "cells {''x''} ((\<lambda>_. 0)(''x'' := 7)) ?x"
    using f seven by (simp add: cells_def)
  have s: "sem mget mput ?e ((\<lambda>_. 0)(''x'' := 7), False) = (34, (\<lambda>_. 0)(''x'' := 34), False)"
    by (simp add: ax_as_def calc_def ax_calc_def put_def mget_def mput_def)
  from arith_expression [OF ok c s] show ?thesis unfolding t by simp
qed

end
