(* ===== verification/FnTab.thy ===== *)
theory FnTab
  imports MapChain "HOL-Library.Multiset"
begin

text \<open>
  The function table of src/exec.c and src/bi.c: the functions in a vector, with the file each was
  defined in, and from 16 functions on an open-addressing index over them that is built when it is
  stale. A function's body is an argument of the type.
\<close>

subsection \<open>The table\<close>

record 'n ftab =
  ffns :: "(string \<times> 'n) list"
  fsrc :: "string option list"
  fht :: "nat list"
  fok :: bool
  fni :: nat

abbreviation (input) FNHASH :: nat where "FNHASH \<equiv> 16"

text \<open>The first empty slot from \<open>j\<close> on; \<open>None\<close> is a probe that has seen every slot.\<close>

fun fh_free :: "nat list \<Rightarrow> nat \<Rightarrow> nat \<Rightarrow> nat option" where
  "fh_free h 0 j = None"
| "fh_free h (Suc f) j = (if h ! j = 0 then Some j else fh_free h f ((j + 1) AND (length h - 1)))"

definition fh_put :: "nat list \<Rightarrow> string \<Rightarrow> nat \<Rightarrow> nat list" where
  "fh_put h nm i =
    (case fh_free h (length h) (unat (vh nm) AND (length h - 1)) of None \<Rightarrow> h | Some j \<Rightarrow> h[j := i])"

definition fn_hash :: "'n ftab \<Rightarrow> 'n ftab" where
  "fn_hash t =
    t\<lparr>fht := foldl (\<lambda>h i. fh_put h (fst (ffns t ! i)) (i + 1)) (replicate (dbl 64 (length (ffns t) * 2)) 0) [0..<length (ffns t)],
      fok := True\<rparr>"

fun fh_get :: "(string \<times> 'n) list \<Rightarrow> nat list \<Rightarrow> string \<Rightarrow> nat \<Rightarrow> nat \<Rightarrow> nat option" where
  "fh_get fs h nm 0 i = None"
| "fh_get fs h nm (Suc f) i =
    (if h ! i = 0 then None
     else if fst (fs ! (h ! i - 1)) = nm then Some (h ! i - 1)
     else fh_get fs h nm f ((i + 1) AND (length h - 1)))"

definition fn_hfind :: "'n ftab \<Rightarrow> string \<Rightarrow> 'n ftab \<times> 'n option" where
  "fn_hfind t0 nm =
    (let t = (if fok t0 then t0 else fn_hash t0) in
     case fh_get (ffns t) (fht t) nm (length (fht t)) (unat (vh nm) AND (length (fht t) - 1)) of
       None \<Rightarrow> (t, None)
     | Some i \<Rightarrow> (t\<lparr>fni := i\<rparr>, Some (snd (ffns t ! i))))"

text \<open>The vector walked from its \<open>i\<close>-th function on.\<close>

fun fn_walk :: "(string \<times> 'n) list \<Rightarrow> string \<Rightarrow> nat \<Rightarrow> nat option" where
  "fn_walk [] nm i = None"
| "fn_walk (f # fs) nm i = (if fst f = nm then Some i else fn_walk fs nm (i + 1))"

definition fn_find :: "'n ftab \<Rightarrow> string \<Rightarrow> 'n ftab \<times> 'n option" where
  "fn_find t nm =
    (if length (ffns t) \<ge> FNHASH then fn_hfind t nm
     else case fn_walk (ffns t) nm 0 of
            None \<Rightarrow> (t, None)
          | Some i \<Rightarrow> (t\<lparr>fni := i\<rparr>, Some (snd (ffns t ! i))))"

text \<open>The file of the function found last.\<close>

definition fn_src :: "'n ftab \<Rightarrow> string option" where
  "fn_src t = fsrc t ! fni t"

text \<open>\<open>ro\<close>: the name is readonly; \<open>strict\<close>: the running file asks for strict functions.\<close>

definition fn_add :: "bool \<Rightarrow> bool \<Rightarrow> string option \<Rightarrow> 'n ftab \<Rightarrow> string \<Rightarrow> 'n \<Rightarrow> 'n ftab \<times> int" where
  "fn_add ro strict src t0 nm f =
    (if ro then (t0, 1)
     else case fn_find t0 nm of
            (t, Some _) \<Rightarrow>
              if strict \<and> fsrc t ! fni t = src then (t, 2)
              else (t\<lparr>ffns := (ffns t)[fni t := (nm, f)], fsrc := (fsrc t)[fni t := src]\<rparr>, 0)
          | (t, None) \<Rightarrow>
              let t1 = t\<lparr>ffns := ffns t @ [(nm, f)], fsrc := fsrc t @ [src]\<rparr> in
              (if fok t1 \<and> length (ffns t1) * 2 \<le> length (fht t1)
               then t1\<lparr>fht := fh_put (fht t1) nm (length (ffns t1))\<rparr> else t1\<lparr>fok := False\<rparr>, 0))"

definition bi_unfn :: "'n ftab \<Rightarrow> string \<Rightarrow> 'n ftab" where
  "bi_unfn t0 nm =
    (case fn_find t0 nm of
       (t, None) \<Rightarrow> t
     | (t, Some _) \<Rightarrow>
         t\<lparr>ffns := butlast ((ffns t)[fni t := last (ffns t)]), fsrc := butlast ((fsrc t)[fni t := last (fsrc t)]), fok := False\<rparr>)"

subsection \<open>The index\<close>

text \<open>The slot the name's probe reaches after \<open>d\<close> steps.\<close>

definition fpos :: "nat list \<Rightarrow> string \<Rightarrow> nat \<Rightarrow> nat" where
  "fpos h nm d = ((unat (vh nm) AND (length h - 1)) + d) mod length h"

definition fh_ok :: "(string \<times> 'n) list \<Rightarrow> nat list \<Rightarrow> bool" where
  "fh_ok fs h \<longleftrightarrow> (\<exists>j. length h = 2 ^ j) \<and> (\<forall>i < length h. h ! i \<le> length fs) \<and>
    card {i. i < length h \<and> h ! i \<noteq> 0} \<le> length fs \<and>
    (\<forall>k < length fs. \<exists>d < length h. h ! fpos h (fst (fs ! k)) d = k + 1 \<and> (\<forall>e < d. h ! fpos h (fst (fs ! k)) e \<noteq> 0))"

definition ftab_ok :: "'n ftab \<Rightarrow> bool" where
  "ftab_ok t \<longleftrightarrow> distinct (map fst (ffns t)) \<and> length (fsrc t) = length (ffns t) \<and>
    (fok t \<longrightarrow> fh_ok (ffns t) (fht t) \<and> length (ffns t) * 2 \<le> length (fht t))"

lemma fpos_next: "length h = 2 ^ j \<Longrightarrow> (fpos h nm d + 1) AND (length h - 1) = fpos h nm (Suc d)"
  by (simp add: fpos_def and_pow2_minus1 [unfolded One_nat_def] mod_Suc_eq)

lemma fpos_0: "length h = 2 ^ j \<Longrightarrow> unat (vh nm) AND (length h - 1) = fpos h nm 0"
  by (simp add: fpos_def and_pow2_minus1 [unfolded One_nat_def])

lemma fpos_less: "length h = 2 ^ j \<Longrightarrow> fpos h nm d < length h"
  by (simp add: fpos_def)

lemma fpos_update [simp]: "fpos (h[i := x]) nm d = fpos h nm d"
  by (simp add: fpos_def)

text \<open>Every slot is reached.\<close>

lemma fpos_surj:
  assumes "length h = 2 ^ j" "i < length h"
  obtains d where "d < length h" "fpos h nm d = i"
proof -
  let ?c = "length h" and ?h = "unat (vh nm) AND (length h - 1)"
  have h: "?h < ?c" using assms(1) by (simp add: and_pow2_minus1 [unfolded One_nat_def])
  show ?thesis
  proof (cases "?h \<le> i")
    case True
    then show ?thesis using that [of "i - ?h"] assms(2) by (simp add: fpos_def)
  next
    case False
    then have "(?h + (?c + i - ?h)) mod ?c = i" using assms(2) h by simp
    moreover have "?c + i - ?h < ?c" using False h by linarith
    ultimately show ?thesis using that [of "?c + i - ?h"] by (simp add: fpos_def)
  qed
qed

lemma fh_zero:
  assumes "length h = 2 ^ j" "card {i. i < length h \<and> h ! i \<noteq> 0} < length h"
  obtains d where "d < length h" "h ! fpos h nm d = 0"
proof -
  let ?S = "{i. i < length h \<and> h ! i \<noteq> 0}"
  have "card ?S < card {..<length h}" using assms(2) unfolding card_lessThan .
  moreover have "finite ?S" by simp
  ultimately have "\<not> {..<length h} \<subseteq> ?S" using card_mono [of ?S "{..<length h}"] by linarith
  then obtain i where i: "i < length h" "h ! i = 0" by blast
  obtain d where "d < length h" "fpos h nm d = i" by (rule fpos_surj [OF assms(1) i(1)])
  then show ?thesis using i that by blast
qed

lemma fh_free_some:
  assumes "length h = 2 ^ j"
  shows "d \<le> z \<Longrightarrow> z < d + f \<Longrightarrow> h ! fpos h nm z = 0 \<Longrightarrow>
    \<exists>e. d \<le> e \<and> e \<le> z \<and> fh_free h f (fpos h nm d) = Some (fpos h nm e) \<and> h ! fpos h nm e = 0 \<and> (\<forall>k. d \<le> k \<and> k < e \<longrightarrow> h ! fpos h nm k \<noteq> 0)"
proof (induction f arbitrary: d)
  case (Suc f)
  show ?case
  proof (cases "h ! fpos h nm d = 0")
    case True
    then show ?thesis using Suc.prems by (intro exI [of _ d]) auto
  next
    case False
    then have "d \<noteq> z" using Suc.prems by auto
    with Suc obtain e where e: "Suc d \<le> e" "e \<le> z" "fh_free h f (fpos h nm (Suc d)) = Some (fpos h nm e)" "h ! fpos h nm e = 0"
        "\<forall>k. Suc d \<le> k \<and> k < e \<longrightarrow> h ! fpos h nm k \<noteq> 0"
      by (metis Suc_leI add_Suc_right add_Suc_shift order_le_imp_less_or_eq)
    have "h ! fpos h nm k \<noteq> 0" if "d \<le> k" "k < e" for k
      using that False e(5) by (cases "k = d") auto
    with e False fpos_next [OF assms, of nm d] show ?thesis by (intro exI [of _ e]) (auto simp del: neq0_conv)
  qed
qed simp

text \<open>A new name put in: the first empty slot of its probe.\<close>

lemma fh_put_ok:
  assumes ok: "fh_ok fs h" and room: "length fs < length h"
  shows "fh_ok (fs @ [(nm, x)]) (fh_put h nm (length fs + 1))" "length (fh_put h nm i) = length h"
proof -
  obtain j where j: "length h = 2 ^ j" using ok by (auto simp: fh_ok_def)
  have "card {i. i < length h \<and> h ! i \<noteq> 0} < length h" using ok room by (auto simp: fh_ok_def)
  from fh_zero [OF j this, of nm] obtain z where z: "z < length h" "h ! fpos h nm z = 0" by blast
  from fh_free_some [OF j, of 0 z "length h" nm] z obtain e where e: "e \<le> z" "fh_free h (length h) (fpos h nm 0) = Some (fpos h nm e)"
      "h ! fpos h nm e = 0" "\<forall>k < e. h ! fpos h nm k \<noteq> 0" by auto
  have put: "fh_put h nm i = h[fpos h nm e := i]" for i using e(2) by (simp add: fh_put_def fpos_0 [OF j, simplified])
  then show "length (fh_put h nm i) = length h" by simp
  let ?p = "fpos h nm e" and ?n = "length fs + 1"
  have p: "?p < length h" by (rule fpos_less [OF j])
  have "{i. i < length h \<and> h[?p := ?n] ! i \<noteq> 0} \<subseteq> insert ?p {i. i < length h \<and> h ! i \<noteq> 0}" by (auto simp: nth_list_update)
  then have "card {i. i < length h \<and> h[?p := ?n] ! i \<noteq> 0} \<le> card (insert ?p {i. i < length h \<and> h ! i \<noteq> 0})"
    by (intro card_mono) auto
  also have "\<dots> \<le> Suc (card {i. i < length h \<and> h ! i \<noteq> 0})" by (rule card_insert_le_m1) auto
  finally have c: "card {i. i < length h \<and> h[?p := ?n] ! i \<noteq> 0} \<le> length (fs @ [(nm, x)])" using ok by (simp add: fh_ok_def)
  have "\<exists>d < length h. h[?p := ?n] ! fpos h (fst ((fs @ [(nm, x)]) ! k)) d = k + 1 \<and>
      (\<forall>e' < d. h[?p := ?n] ! fpos h (fst ((fs @ [(nm, x)]) ! k)) e' \<noteq> 0)" if k: "k < length (fs @ [(nm, x)])" for k
  proof (cases "k = length fs")
    case True
    then show ?thesis using e z(1) p by (intro exI [of _ e]) (auto simp: nth_list_update)
  next
    case False
    with k have k': "k < length fs" by simp
    with ok obtain d where d: "d < length h" "h ! fpos h (fst (fs ! k)) d = k + 1" "\<forall>e < d. h ! fpos h (fst (fs ! k)) e \<noteq> 0"
      by (auto simp: fh_ok_def)
    have "fpos h (fst (fs ! k)) d \<noteq> ?p" using d(2) e(3) by auto
    with d k' p show ?thesis by (intro exI [of _ d]) (auto simp: nth_list_update nth_append)
  qed
  moreover have "h[?p := ?n] ! i \<le> length (fs @ [(nm, x)])" if "i < length h" for i
    using ok that by (cases "i = ?p") (auto simp: fh_ok_def le_SucI)
  ultimately show "fh_ok (fs @ [(nm, x)]) (fh_put h nm (length fs + 1))"
    using c j unfolding fh_ok_def put by auto
qed

lemma fh_ok_prefix:
  "n \<le> length fs \<Longrightarrow> length fs \<le> 2 ^ j \<Longrightarrow>
    fh_ok (take n fs) (foldl (\<lambda>h i. fh_put h (fst (fs ! i)) (i + 1)) (replicate (2 ^ j) 0) [0..<n]) \<and>
    length (foldl (\<lambda>h i. fh_put h (fst (fs ! i)) (i + 1)) (replicate (2 ^ j) 0) [0..<n]) = 2 ^ j"
proof (induction n)
  case 0
  have "{i. i < (2::nat) ^ j \<and> replicate (2 ^ j) (0::nat) ! i \<noteq> 0} = {}" by auto
  then show ?case by (auto simp: fh_ok_def)
next
  case (Suc n)
  let ?h = "foldl (\<lambda>h i. fh_put h (fst (fs ! i)) (i + 1)) (replicate (2 ^ j) 0) [0..<n]"
  from Suc have ok: "fh_ok (take n fs) ?h" and l: "length ?h = 2 ^ j" by simp_all
  have r: "length (take n fs) < length ?h" using Suc.prems l by simp
  have t: "take (Suc n) fs = take n fs @ [(fst (fs ! n), snd (fs ! n))]" using Suc.prems by (simp add: take_Suc_conv_app_nth)
  have n: "length (take n fs) = n" using Suc.prems by simp
  from fh_put_ok(1) [OF ok r, where nm = "fst (fs ! n)" and x = "snd (fs ! n)"] fh_put_ok(2) [OF ok r] l
  show ?case unfolding t n by simp
qed

lemma fn_hash_ok: "ftab_ok t \<Longrightarrow> ftab_ok (fn_hash t)"
proof -
  assume t: "ftab_ok t"
  let ?n = "length (ffns t)"
  obtain j where "dbl 64 (?n * 2) = 64 * 2 ^ j" using dbl_pow2 by blast
  then have j: "dbl 64 (?n * 2) = 2 ^ (6 + j)" by (simp add: power_add)
  have n: "?n * 2 \<le> dbl 64 (?n * 2)" by (rule dbl_ge) simp
  then have "?n \<le> 2 ^ (6 + j)" unfolding j by simp
  from fh_ok_prefix [OF order_refl this] t n show ?thesis by (simp add: ftab_ok_def fn_hash_def j)
qed

lemma fn_hash_fns [simp]: "ffns (fn_hash t) = ffns t" "fsrc (fn_hash t) = fsrc t" "fok (fn_hash t)"
  by (simp_all add: fn_hash_def)

subsection \<open>Finding\<close>

lemma fn_walk_some: "fn_walk fs nm i = Some k \<Longrightarrow> i \<le> k \<and> k < i + length fs \<and> fst (fs ! (k - i)) = nm"
  by (induction fs nm i rule: fn_walk.induct) (auto simp: nth_Cons' split: if_splits)

lemma fn_walk_none: "fn_walk fs nm i = None \<longleftrightarrow> nm \<notin> fst ` set fs"
  by (induction fs nm i rule: fn_walk.induct) auto

lemma fh_get_some:
  assumes "length h = 2 ^ j" "\<And>i. i < length h \<Longrightarrow> h ! i \<le> length fs"
  shows "fh_get fs h nm f (fpos h nm d) = Some k \<Longrightarrow> k < length fs \<and> fst (fs ! k) = nm"
proof (induction f arbitrary: d)
  case (Suc f)
  show ?case
  proof (cases "h ! fpos h nm d = 0 \<or> fst (fs ! (h ! fpos h nm d - 1)) = nm")
    case True
    with Suc.prems assms(2) [OF fpos_less [OF assms(1)], of nm d] show ?thesis by (auto split: if_splits)
  next
    case False
    with Suc.prems have "fh_get fs h nm f (fpos h nm (Suc d)) = Some k" by (simp add: fpos_next [OF assms(1), simplified])
    then show ?thesis by (rule Suc.IH)
  qed
qed simp

lemma fh_get_hit:
  assumes "length h = 2 ^ j"
  shows "d \<le> z \<Longrightarrow> z < d + f \<Longrightarrow> h ! fpos h nm z = k + 1 \<Longrightarrow> fst (fs ! k) = nm \<Longrightarrow>
    (\<And>e. d \<le> e \<Longrightarrow> e < z \<Longrightarrow> h ! fpos h nm e \<noteq> 0) \<Longrightarrow> fh_get fs h nm f (fpos h nm d) \<noteq> None"
proof (induction f arbitrary: d)
  case (Suc f)
  show ?case
  proof (cases "d = z")
    case False
    then have d: "Suc d \<le> z" "h ! fpos h nm d \<noteq> 0" using Suc.prems by simp_all
    from Suc.IH [OF d(1)] Suc.prems have "fh_get fs h nm f (fpos h nm (Suc d)) \<noteq> None" by simp
    with d(2) show ?thesis by (simp add: fpos_next [OF assms, simplified])
  qed (use Suc.prems in simp)
qed simp

lemma distinct_fst_nth: "distinct (map fst fs) \<Longrightarrow> i < length fs \<Longrightarrow> k < length fs \<Longrightarrow> fst (fs ! i) = fst (fs ! k) \<Longrightarrow> i = k"
  using nth_eq_iff_index_eq [of "map fst fs" i k] by simp

lemma map_of_nth: "distinct (map fst fs) \<Longrightarrow> k < length fs \<Longrightarrow> map_of fs (fst (fs ! k)) = Some (snd (fs ! k))"
  by (simp add: map_of_eq_Some_iff)

text \<open>Whether by the index or by the walk, the function of the name.\<close>

lemma fn_find_ok:
  assumes "ftab_ok t"
  shows "snd (fn_find t nm) = map_of (ffns t) nm" "ftab_ok (fst (fn_find t nm))"
    "ffns (fst (fn_find t nm)) = ffns t" "fsrc (fst (fn_find t nm)) = fsrc t"
    "nm \<in> fst ` set (ffns t) \<Longrightarrow> fni (fst (fn_find t nm)) < length (ffns t) \<and> fst (ffns t ! fni (fst (fn_find t nm))) = nm"
proof -
  define u where "u = (if length (ffns t) \<ge> FNHASH \<and> \<not> fok t then fn_hash t else t)"
  have u: "ftab_ok u" "ffns u = ffns t" "fsrc u = fsrc t" "length (ffns t) \<ge> FNHASH \<Longrightarrow> fok u"
    using assms fn_hash_ok [OF assms] by (simp_all add: u_def)
  define r where "r = (if length (ffns t) \<ge> FNHASH
      then fh_get (ffns u) (fht u) nm (length (fht u)) (unat (vh nm) AND (length (fht u) - 1)) else fn_walk (ffns t) nm 0)"
  have f: "fn_find t nm = (case r of None \<Rightarrow> (u, None) | Some i \<Rightarrow> (u\<lparr>fni := i\<rparr>, Some (snd (ffns t ! i))))"
    unfolding fn_find_def fn_hfind_def r_def Let_def
    by (cases "length (ffns t) \<ge> FNHASH"; cases "fok t") (simp_all add: u_def cong: option.case_cong)
  have hit: "k < length (ffns t) \<and> fst (ffns t ! k) = nm" if "r = Some k" for k
  proof (cases "length (ffns t) \<ge> FNHASH")
    case True
    then have h: "fh_ok (ffns u) (fht u)" using u(1,4) by (simp add: ftab_ok_def)
    then obtain j where j: "length (fht u) = 2 ^ j" by (auto simp: fh_ok_def)
    have "fh_get (ffns u) (fht u) nm (length (fht u)) (fpos (fht u) nm 0) = Some k"
      using that True by (simp add: r_def fpos_0 [OF j, simplified])
    from fh_get_some [OF j _ this] h show ?thesis unfolding u(2) by (auto simp: fh_ok_def)
  next
    case False
    then show ?thesis using that fn_walk_some [of "ffns t" nm 0 k] by (simp add: r_def)
  qed
  have miss: "nm \<notin> fst ` set (ffns t)" if "r = None"
  proof (cases "length (ffns t) \<ge> FNHASH")
    case True
    then have h: "fh_ok (ffns u) (fht u)" using u(1,4) by (simp add: ftab_ok_def)
    then obtain j where j: "length (fht u) = 2 ^ j" by (auto simp: fh_ok_def)
    have n: "fh_get (ffns u) (fht u) nm (length (fht u)) (fpos (fht u) nm 0) = None"
      using that True by (simp add: r_def fpos_0 [OF j, simplified])
    have "nm \<noteq> fst (ffns u ! k)" if k: "k < length (ffns u)" for k
    proof
      assume nm: "nm = fst (ffns u ! k)"
      with h k obtain d where d: "d < length (fht u)" "fht u ! fpos (fht u) nm d = k + 1" "\<forall>e < d. fht u ! fpos (fht u) nm e \<noteq> 0"
        by (auto simp: fh_ok_def)
      have "0 \<le> d" "d < 0 + length (fht u)" using d(1) by simp_all
      from fh_get_hit [OF j this, of nm k "ffns u"] d(2,3) n show False unfolding nm by simp
    qed
    then have "\<forall>k < length (ffns t). nm \<noteq> fst (ffns t ! k)" unfolding u(2) by blast
    then show ?thesis by (metis (no_types, lifting) image_iff in_set_conv_nth)
  next
    case False
    then show ?thesis using that fn_walk_none [of "ffns t" nm 0] by (simp add: r_def)
  qed
  have d: "distinct (map fst (ffns t))" using assms by (simp add: ftab_ok_def)
  show "snd (fn_find t nm) = map_of (ffns t) nm"
    using hit miss map_of_nth [OF d] map_of_eq_None_iff [of "ffns t" nm] unfolding f by (auto split: option.split)
  show "ftab_ok (fst (fn_find t nm))" "ffns (fst (fn_find t nm)) = ffns t" "fsrc (fst (fn_find t nm)) = fsrc t"
    using u unfolding f by (auto simp: ftab_ok_def split: option.split)
  show "fni (fst (fn_find t nm)) < length (ffns t) \<and> fst (ffns t ! fni (fst (fn_find t nm))) = nm" if "nm \<in> fst ` set (ffns t)"
    using hit miss that unfolding f by (auto split: option.split)
qed


subsection \<open>Defining and removing\<close>

lemma map_of_update:
  "distinct (map fst fs) \<Longrightarrow> i < length fs \<Longrightarrow> map_of (fs[i := (fst (fs ! i), f)]) = (map_of fs)(fst (fs ! i) \<mapsto> f)"
proof (induction fs arbitrary: i)
  case (Cons a fs)
  show ?case
  proof (cases i)
    case (Suc j)
    then have "fst (fs ! j) \<noteq> fst a" using Cons.prems by (auto simp: image_iff) (metis nth_mem)
    with Suc Cons show ?thesis by (auto simp: fun_eq_iff)
  qed (auto simp: fun_eq_iff)
qed simp

lemma map_of_append_fresh: "nm \<notin> fst ` set fs \<Longrightarrow> map_of (fs @ [(nm, f)]) = (map_of fs)(nm \<mapsto> f)"
  by (induction fs) (auto simp: fun_eq_iff)

text \<open>The last one moved over the one removed.\<close>

lemma butlast_swap:
  assumes "i < length xs"
  shows "mset (butlast (xs[i := last xs])) = mset xs - {#xs ! i#}"
proof -
  let ?y = "xs[i := last xs]"
  have ne: "xs \<noteq> []" using assms by auto
  have l: "last ?y = last xs" using assms ne by (cases "i = length xs - 1") (auto simp: last_conv_nth)
  have "mset (butlast ?y @ [last ?y]) = mset ?y" using ne by (simp only: append_butlast_last_id list_update_nonempty not_False_eq_True)
  then have "mset (butlast ?y) + {#last xs#} = mset xs - {#xs ! i#} + {#last xs#}" using assms by (simp add: l mset_update)
  then show ?thesis by simp
qed

lemma map_of_mset: "distinct (map fst xs) \<Longrightarrow> mset xs = mset ys \<Longrightarrow> map_of xs = map_of ys"
proof -
  assume d: "distinct (map fst xs)" and m: "mset xs = mset ys"
  then have "distinct (map fst ys)" by (metis mset_eq_imp_distinct_iff mset_map)
  with d m show ?thesis by (metis map_of_inject_set mset_eq_setD)
qed

lemma ftab_ok_nth: "ftab_ok t \<Longrightarrow> i < length (ffns t) \<Longrightarrow> map_of (ffns t) (fst (ffns t ! i)) = Some (snd (ffns t ! i))"
  by (simp add: ftab_ok_def)

lemma distinct_map_remove1: "distinct (map fst xs) \<Longrightarrow> distinct (map fst (remove1 x xs))"
proof (induction xs)
  case (Cons a xs)
  have "fst ` set (remove1 x xs) \<subseteq> fst ` set xs" by (intro image_mono set_remove1_subset)
  with Cons show ?case by auto
qed simp

lemma map_of_remove1:
  "distinct (map fst xs) \<Longrightarrow> i < length xs \<Longrightarrow> map_of (remove1 (xs ! i) xs) = (map_of xs)(fst (xs ! i) := None)"
proof (induction xs arbitrary: i)
  case (Cons a xs)
  show ?case
  proof (cases i)
    case 0
    have "map_of xs (fst a) = None" using Cons.prems(1) by (simp add: map_of_eq_None_iff)
    with 0 show ?thesis by (auto simp: fun_eq_iff)
  next
    case (Suc j)
    then have "fst (xs ! j) \<noteq> fst a" using Cons.prems by (auto simp: image_iff) (metis nth_mem)
    moreover from this have "xs ! j \<noteq> a" by auto
    ultimately show ?thesis using Suc Cons by (auto simp: fun_eq_iff)
  qed
qed simp

lemma fn_add_new:
  assumes ok: "ftab_ok t" and nm: "nm \<notin> fst ` set (ffns t)"
  shows "ftab_ok (fst (fn_add False strict src t nm f))" "snd (fn_add False strict src t nm f) = 0"
    "ffns (fst (fn_add False strict src t nm f)) = ffns t @ [(nm, f)]"
proof -
  note o = fn_find_ok [OF ok, of nm]
  obtain u where u: "fn_find t nm = (u, None)"
    using o(1) nm by (cases "fn_find t nm") (auto simp: map_of_eq_None_iff [THEN iffD2])
  have uok: "ftab_ok u" "ffns u = ffns t" using o(2,3) by (simp_all add: u)
  show "snd (fn_add False strict src t nm f) = 0" "ffns (fst (fn_add False strict src t nm f)) = ffns t @ [(nm, f)]"
    using uok(2) by (simp_all add: fn_add_def u Let_def)
  have d: "distinct (map fst (ffns u @ [(nm, f)]))" using uok nm by (simp add: ftab_ok_def)
  show "ftab_ok (fst (fn_add False strict src t nm f))"
  proof (cases "fok u \<and> length (ffns u @ [(nm, f)]) * 2 \<le> length (fht u)")
    case True
    then have h: "fh_ok (ffns u) (fht u)" "length (ffns u) < length (fht u)" using uok(1) by (simp_all add: ftab_ok_def)
    from fh_put_ok(1) [OF this, where nm = nm and x = f] fh_put_ok(2) [OF this, where nm = nm] True d uok(1)
    show ?thesis by (simp add: fn_add_def u Let_def ftab_ok_def)
  next
    case False
    with d uok(1) show ?thesis by (auto simp: fn_add_def u Let_def ftab_ok_def)
  qed
qed

lemma fh_ok_cong: "fh_ok fs h \<Longrightarrow> map fst fs = map fst gs \<Longrightarrow> fh_ok gs h"
proof -
  assume o: "fh_ok fs h" and e: "map fst fs = map fst gs"
  have l: "length fs = length gs" using arg_cong [OF e, of length] by simp
  have "fst (fs ! k) = fst (gs ! k)" if "k < length gs" for k
    using arg_cong [OF e, of "\<lambda>l. l ! k"] that l by simp
  then show ?thesis using o unfolding fh_ok_def l by auto
qed

lemma fn_add_old:
  assumes ok: "ftab_ok t" and nm: "nm \<in> fst ` set (ffns t)" and s: "\<not> (strict \<and> fsrc t ! fni (fst (fn_find t nm)) = src)"
  shows "ftab_ok (fst (fn_add False strict src t nm f))" "snd (fn_add False strict src t nm f) = 0"
    "map_of (ffns (fst (fn_add False strict src t nm f))) = (map_of (ffns t))(nm \<mapsto> f)"
proof -
  note o = fn_find_ok [OF ok, of nm]
  obtain u g where u: "fn_find t nm = (u, Some g)"
    using o(1) nm by (cases "fn_find t nm"; cases "map_of (ffns t) nm") (simp_all add: map_of_eq_None_iff)
  have uok: "ftab_ok u" "ffns u = ffns t" "fsrc u = fsrc t" "fni u < length (ffns t)" "fst (ffns t ! fni u) = nm"
    using o(2-5) nm by (simp_all add: u)
  have a: "fn_add False strict src t nm f =
      (u\<lparr>ffns := (ffns u)[fni u := (nm, f)], fsrc := (fsrc u)[fni u := src]\<rparr>, 0)"
    using s uok(3) by (simp add: fn_add_def u)
  then show "snd (fn_add False strict src t nm f) = 0" by simp
  have d: "distinct (map fst (ffns t))" using ok by (simp add: ftab_ok_def)
  show "map_of (ffns (fst (fn_add False strict src t nm f))) = (map_of (ffns t))(nm \<mapsto> f)"
    using map_of_update [OF d uok(4), of f] by (simp add: a uok(2,5))
  have m: "map fst ((ffns u)[fni u := (nm, f)]) = map fst (ffns u)"
    unfolding map_update fst_conv using uok(2,4,5) by (metis list_update_id map_update nth_map fst_conv)
  have "fh_ok (ffns u) (fht u) \<Longrightarrow> fh_ok ((ffns u)[fni u := (nm, f)]) (fht u)"
    by (rule fh_ok_cong) (simp_all only: m)
  then show "ftab_ok (fst (fn_add False strict src t nm f))" using uok(1) m by (simp add: a ftab_ok_def)
qed

lemma fn_unset_ok:
  assumes ok: "ftab_ok t"
  shows "ftab_ok (bi_unfn t nm)" "map_of (ffns (bi_unfn t nm)) = (map_of (ffns t))(nm := None)"
proof -
  note o = fn_find_ok [OF ok, of nm]
  obtain u g where u: "fn_find t nm = (u, g)" by fastforce
  have uok: "ftab_ok u" "ffns u = ffns t" "fsrc u = fsrc t" "g = map_of (ffns t) nm" using o(1-4) by (simp_all add: u)
  have d: "distinct (map fst (ffns t))" using ok by (simp add: ftab_ok_def)
  have "ftab_ok (bi_unfn t nm) \<and> map_of (ffns (bi_unfn t nm)) = (map_of (ffns t))(nm := None)"
  proof (cases g)
    case None
    then show ?thesis using uok by (auto simp: bi_unfn_def u)
  next
    case (Some f)
    then have "nm \<in> fst ` set (ffns t)" using uok(4) by (metis map_of_eq_None_iff option.distinct(1))
    then have i: "fni u < length (ffns t)" "fst (ffns t ! fni u) = nm" using o(5) by (simp_all add: u)
    let ?l = "butlast ((ffns t)[fni u := last (ffns t)])"
    have b: "bi_unfn t nm = u\<lparr>ffns := ?l, fsrc := butlast ((fsrc u)[fni u := last (fsrc u)]), fok := False\<rparr>"
      using uok(2) by (simp add: bi_unfn_def u Some)
    have m: "mset ?l = mset (ffns t) - {#ffns t ! fni u#}" by (rule butlast_swap [OF i(1)])
    have sub: "mset ?l = mset (remove1 (ffns t ! fni u) (ffns t))" by (simp add: m)
    have dr: "distinct (map fst (remove1 (ffns t ! fni u) (ffns t)))" using d by (rule distinct_map_remove1)
    have dl: "distinct (map fst ?l)" using sub dr by (metis mset_eq_imp_distinct_iff mset_map)
    have "map_of ?l = map_of (remove1 (ffns t ! fni u) (ffns t))" by (rule map_of_mset [OF dl sub])
    also have "\<dots> = (map_of (ffns t))(nm := None)" using map_of_remove1 [OF d i(1)] i(2) by simp
    finally show ?thesis using dl uok(1,2) by (simp add: b ftab_ok_def)
  qed
  then show "ftab_ok (bi_unfn t nm)" "map_of (ffns (bi_unfn t nm)) = (map_of (ffns t))(nm := None)" by simp_all
qed

definition ftab0 :: "'n ftab" where
  "ftab0 = \<lparr>ffns = [], fsrc = [], fht = [], fok = False, fni = 0\<rparr>"

lemma ftab0_ok [simp]: "ftab_ok ftab0" "ffns ftab0 = []"
  by (simp_all add: ftab0_def ftab_ok_def)

text \<open>What a run of definitions and removals makes of a table, by name alone.\<close>

datatype 'n fop = FAdd string 'n "string option" | FUnset string

fun f_run :: "'n ftab \<Rightarrow> 'n fop list \<Rightarrow> 'n ftab" where
  "f_run t [] = t"
| "f_run t (FAdd nm f src # os) = f_run (fst (fn_add False False src t nm f)) os"
| "f_run t (FUnset nm # os) = f_run (bi_unfn t nm) os"

fun f_map :: "(string \<rightharpoonup> 'n) \<Rightarrow> 'n fop list \<Rightarrow> string \<rightharpoonup> 'n" where
  "f_map m [] = m"
| "f_map m (FAdd nm f src # os) = f_map (m(nm \<mapsto> f)) os"
| "f_map m (FUnset nm # os) = f_map (m(nm := None)) os"

lemma fn_add_map:
  assumes "ftab_ok t"
  shows "ftab_ok (fst (fn_add False False src t nm f)) \<and> map_of (ffns (fst (fn_add False False src t nm f))) = (map_of (ffns t))(nm \<mapsto> f)"
  using fn_add_new [OF assms, of nm False src f] fn_add_old [OF assms, of nm False src f] map_of_append_fresh
  by (cases "nm \<in> fst ` set (ffns t)") simp_all

lemma f_run_map: "ftab_ok t \<Longrightarrow> ftab_ok (f_run t os) \<and> map_of (ffns (f_run t os)) = f_map (map_of (ffns t)) os"
proof (induction t os rule: f_run.induct)
  case (2 t nm f src os)
  then show ?case using fn_add_map [of t src nm f] by (simp del: fun_upd_apply)
next
  case (3 t nm os)
  then show ?case using fn_unset_ok [of t nm] by (simp del: fun_upd_apply)
qed simp

text \<open>C22: after any run of definitions and removals, whether a lookup walks the vector or probes the
  index, and whether the index had to be rebuilt, it finds the last definition of the name that was not removed.\<close>

theorem fn_table: "snd (fn_find (f_run ftab0 os) nm) = f_map Map.empty os nm"
  using f_run_map [of ftab0 os] fn_find_ok(1) [of "f_run ftab0 os" nm] by simp

text \<open>A readonly function, and one a strict file defines twice, is refused and stays as it was.\<close>

lemma fn_add_refused:
  assumes ok: "ftab_ok t" and r: "ro \<or> strict \<and> nm \<in> fst ` set (ffns t) \<and> fsrc t ! fni (fst (fn_find t nm)) = src"
  shows "snd (fn_add ro strict src t nm f) \<noteq> 0" "ffns (fst (fn_add ro strict src t nm f)) = ffns t"
proof -
  have "snd (fn_add ro strict src t nm f) \<noteq> 0 \<and> ffns (fst (fn_add ro strict src t nm f)) = ffns t"
  proof (cases ro)
    case False
    note o = fn_find_ok [OF ok, of nm]
    from False r have "nm \<in> fst ` set (ffns t)" by blast
    then obtain u g where u: "fn_find t nm = (u, Some g)"
      using o(1) by (cases "fn_find t nm"; cases "map_of (ffns t) nm") (simp_all add: map_of_eq_None_iff)
    with False r o(3,4) show ?thesis by (simp add: fn_add_def)
  qed (simp add: fn_add_def)
  then show "snd (fn_add ro strict src t nm f) \<noteq> 0" "ffns (fst (fn_add ro strict src t nm f)) = ffns t" by simp_all
qed

end
