(* ===== verification/Exec.thy ===== *)
theory Exec
  imports Arith FnTab
begin

text \<open>
  The executor of src/exec.c: the tree the parser makes, the state the shell keeps while it runs one,
  and \<open>ex\<close> with everything it calls on the way from a list to a simple command: loops, \<open>case\<close>,
  functions and their parameters, assignments, aliases, \<open>eval\<close>, \<open>try\<close>, the traps and the builtins
  that leave loops and functions. What is read elsewhere (expanding words, redirections, running a
  program, the other builtins, the parser) is a field of \<open>exk\<close>. The evaluator has fuel, one per
  call; ExecLaws shows that more fuel never changes a result.
\<close>

subsection \<open>The tree\<close>

datatype part = Part (pk: nat) (pt: string) (pop: int) (pq: nat) (pcol: bool) (parr: bool)
  (parg: "part list list") (pidx: "part list list")

type_synonym wd = "part list"

record redir =
  rd_w :: wd
  rd_var :: "string option"
  rd_fd :: int
  rd_k :: nat
  rd_fl :: nat

text \<open>An array clause \<open>name=(\<dots>)\<close>; \<open>ar_late\<close>: it waits for the declaration builtin.\<close>

record arrasg =
  ar_nm :: string
  ar_w :: "wd list"
  ar_late :: bool

text \<open>A simple command; \<open>c_bind\<close> is the name of \<open>x := command\<close>, or its target is the word \<open>c_bw\<close>.\<close>

record cmd =
  c_w :: "wd list"
  c_aw :: "wd list"
  c_bw :: "wd option"
  c_rd :: "redir list"
  c_arr :: "arrasg list"
  c_bind :: "string option"
  c_bound :: bool
  c_tx :: string
  c_ln :: nat

record param =
  pm_nm :: string
  pm_f :: nat
  pm_w :: "wd option"
  pm_tx :: string

text \<open>\<open>N0\<close> is the null pointer.\<close>

datatype node =
    N0
  | NCmd cmd
  | NPipe nat string node node
  | NAnd node node
  | NOr node node
  | NSeq node node
  | NBg string node
  | NNot node
  | NSub nat "redir list" node
  | NGrp nat "redir list" node
  | NIf nat "redir list" node node node
  | NLoop bool nat "redir list" node node
  | NFor nat "redir list" string "wd list option" node
  | NSelect nat "redir list" string "wd list option" node
  | NCfor nat "redir list" "part option" "part option" "part option" node
  | NCase nat "redir list" wd "(wd list \<times> nat \<times> node) list"
  | NArith nat "redir list" part
  | NCond nat "redir list" "wd list"
  | NFunc fn
  | NTime nat bool node
and fn = Fn (fn_nm: string) (fn_ln: nat) (fn_typed: bool) (fn_pm: "param list") (fn_rt: "string option") (fn_body: node)

subsection \<open>The state\<close>

text \<open>
  The fields of \<open>struct sh\<close> the executor uses, with its globals (\<open>ex_loops\<close>, \<open>ex_abline\<close>,
  \<open>ex_retd\<close>, \<open>ex_lastret\<close>, the PIPESTATUS numbers), over the variable table \<open>e_sh\<close>. The rest of
  the process and of the system is \<open>e_os\<close>. \<open>e_tst\<close> says the status about to be made is tested,
  \<open>e_errx\<close> is errexit (2 in a forked child), \<open>e_try\<close> is \<open>intry\<close>.
\<close>

record 'o exs =
  e_sh :: sh
  e_os :: 'o
  e_tst :: bool
  e_quit :: bool
  e_stop :: bool
  e_ret :: bool
  e_brk :: nat
  e_cont :: nat
  e_errx :: nat
  e_try :: bool
  e_it :: bool
  e_noexec :: bool
  e_xerr :: nat
  e_loops :: nat
  e_dep :: nat
  e_srcs :: nat
  e_run :: nat
  e_pfs :: int
  e_ps :: "int list"
  e_pslive :: bool
  e_nofork :: bool
  e_abline :: bool
  e_retd :: bool
  e_lastret :: bool
  e_bind :: bool
  e_ncap :: nat
  e_fnnest :: int
  e_av :: "string list"
  e_amask :: "bool list option list"
  e_ln :: nat
  e_src :: "string option"
  e_rty :: "string option"
  e_etrap :: "string option"
  e_dtrap :: "string option"
  e_rtrap :: "string option"
  e_errkid :: bool
  e_fns :: "fn ftab"
  e_ros :: "string list"
  e_als :: "(string \<times> string) list"
  e_axp :: "string list"
  e_sf :: "(string option \<times> 32 word) list"
  e_strictg :: bool
  e_strict :: bool
  e_retwarned :: "string list"
  e_noclob :: bool
  e_rdshut :: bool
  e_uset :: bool
  e_arg0 :: "string option"
  e_pid :: int

abbreviation est :: "'o exs \<Rightarrow> int" where
  "est s \<equiv> st (e_sh s)"

definition with_st :: "int \<Rightarrow> 'o exs \<Rightarrow> 'o exs" where
  "with_st v s = s\<lparr>e_sh := (e_sh s)\<lparr>st := v\<rparr>\<rparr>"

definition on_sh :: "(sh \<Rightarrow> sh) \<Rightarrow> 'o exs \<Rightarrow> 'o exs" where
  "on_sh f s = s\<lparr>e_sh := f (e_sh s)\<rparr>"

text \<open>\<open>return s->st = st\<close>.\<close>

definition ret_st :: "'o exs \<Rightarrow> int \<Rightarrow> ('o exs \<times> int) option" where
  "ret_st s v = Some (with_st v s, v)"

text \<open>What a line of text parses to: nothing left, an unfinished command, an error, or a command with the
  text after it and whether that is the end.\<close>

datatype pline = PEnd | PMore | PErr | PLine node string bool

text \<open>A command word's builtin or program.\<close>

type_synonym 'o exbi = "string list \<Rightarrow> 'o exs \<Rightarrow> 'o exs \<times> int"

datatype 'o target = TBuiltin "'o exbi" | TPath string | TNone

record 'o exk =
  k_eval :: evalr
  k_pend :: "'o exs \<Rightarrow> 'o exs \<times> string list"
  k_line :: "'o exs \<Rightarrow> string \<Rightarrow> pline"
  k_deep :: "'o exs \<Rightarrow> bool \<Rightarrow> bool"
  k_argv :: "'o exs \<Rightarrow> wd list \<Rightarrow> 'o exs \<times> (string \<times> bool list option) list"
  k_asg :: "'o exs \<Rightarrow> wd \<Rightarrow> 'o exs \<times> string \<times> bool list option"
  k_one :: "'o exs \<Rightarrow> wd \<Rightarrow> 'o exs \<times> string"
  k_oneq :: "'o exs \<Rightarrow> wd \<Rightarrow> 'o exs \<times> string \<times> bool list option"
  k_words :: "'o exs \<Rightarrow> wd \<Rightarrow> 'o exs \<times> string list"
  k_pat :: "'o exs \<Rightarrow> wd \<Rightarrow> 'o exs \<times> string"
  k_match :: "'o exs \<Rightarrow> string \<Rightarrow> string \<Rightarrow> bool"
  k_text :: "'o exs \<Rightarrow> part \<Rightarrow> 'o exs \<times> long"
  k_ax :: "'o exs \<Rightarrow> string \<Rightarrow> 'o exs \<times> long"
  k_key :: "'o exs \<Rightarrow> string \<Rightarrow> string \<Rightarrow> 'o exs \<times> string"
  k_keys :: "'o exs \<Rightarrow> string \<Rightarrow> bool list option \<Rightarrow> 'o exs \<times> string \<times> string list"
  k_cond :: "'o exs \<Rightarrow> wd list \<Rightarrow> 'o exs \<times> int"
  k_rd :: "bool \<Rightarrow> 'o exs \<Rightarrow> redir list \<Rightarrow> 'o exs \<times> (int \<times> int) list \<times> bool"
  k_undo :: "'o exs \<Rightarrow> (int \<times> int) list \<Rightarrow> 'o exs"
  k_mod :: "'o exs \<Rightarrow> string \<Rightarrow> 'o exbi option"
  k_bi :: "'o exs \<Rightarrow> string \<Rightarrow> 'o exbi option"
  k_find :: "'o exs \<Rightarrow> string \<Rightarrow> 'o exs \<times> 'o target"
  k_why :: "'o exs \<Rightarrow> string \<Rightarrow> int"
  k_plan :: "'o exs \<Rightarrow> string list \<Rightarrow> string \<Rightarrow> string list option"
  k_prog :: "'o exs \<Rightarrow> string \<Rightarrow> string list \<Rightarrow> string list \<Rightarrow> redir list \<Rightarrow> bool \<Rightarrow> bool \<Rightarrow> 'o exs \<times> int \<times> string"
  k_child :: "'o exs \<Rightarrow> 'o exs"
  k_exit :: "'o exs \<Rightarrow> 'o exs"
  k_join :: "'o exs \<Rightarrow> 'o exs \<Rightarrow> 'o exs"
  k_fork :: "'o exs \<Rightarrow> bool"
  k_pipe :: "'o exs \<Rightarrow> bool \<Rightarrow> string \<Rightarrow> node list \<Rightarrow> 'o exs \<times> int list \<times> int option \<times> bool"
  k_bg :: "'o exs \<Rightarrow> string \<Rightarrow> node \<Rightarrow> 'o exs \<times> int option"
  k_menu :: "'o exs \<Rightarrow> bool \<Rightarrow> string list \<Rightarrow> 'o exs \<times> string option"
  k_reap :: "'o exs \<Rightarrow> 'o exs"
  k_psub :: "'o exs \<Rightarrow> 'o exs"
  k_time :: "'o exs \<Rightarrow> bool \<Rightarrow> 'o exs"
  k_decl :: "string \<Rightarrow> bool"

text \<open>The calls the functions make of one another.\<close>

datatype xcall =
    XNode node
  | XLoop bool node node int
  | XCfor "part option" "part option" node int
  | XSelect string "string list" node bool
  | XLines string

type_synonym 'o exev = "xcall \<Rightarrow> 'o exs \<Rightarrow> ('o exs \<times> int) option"

abbreviation (input) SF_FN :: "32 word" where "SF_FN \<equiv> 1"
abbreviation (input) SF_VAR :: "32 word" where "SF_VAR \<equiv> 2"
abbreviation (input) SF_EXP :: "32 word" where "SF_EXP \<equiv> 4"
abbreviation (input) O_KEEPGOING :: "32 word" where "O_KEEPGOING \<equiv> 512"
abbreviation (input) O_PLAN :: "32 word" where "O_PLAN \<equiv> 256"
abbreviation (input) O_ALLEXP :: "32 word" where "O_ALLEXP \<equiv> 65536"
abbreviation (input) HIBR_NOCMD :: int where "HIBR_NOCMD \<equiv> 127"
abbreviation (input) TY_REST :: nat where "TY_REST \<equiv> 1"

text \<open>Something is to be left: a loop, a function, the line or the shell.\<close>

definition leaving :: "'o exs \<Rightarrow> bool" where
  "leaving s \<longleftrightarrow> e_quit s \<or> e_stop s \<or> e_ret s \<or> e_brk s > 0 \<or> e_cont s > 0"

definition ended :: "'o exs \<Rightarrow> bool" where
  "ended s \<longleftrightarrow> e_quit s \<or> e_stop s \<or> e_ret s"


subsection \<open>PIPESTATUS\<close>

definition ex_psdrop :: "'o exs \<Rightarrow> 'o exs" where
  "ex_psdrop s = on_sh (\<lambda>h. v_del h ''PIPESTATUS'') (s\<lparr>e_pslive := False\<rparr>)"

definition ex_psone :: "'o exs \<Rightarrow> int \<Rightarrow> 'o exs" where
  "ex_psone s v = (let s1 = s\<lparr>e_ps := [v]\<rparr> in if e_pslive s1 then ex_psdrop s1 else s1)"

text \<open>Stage \<open>i\<close> of \<open>n\<close>; the statuses of the stages not yet waited for are not read before they are set.\<close>

definition ex_psat :: "'o exs \<Rightarrow> nat \<Rightarrow> nat \<Rightarrow> int \<Rightarrow> 'o exs" where
  "ex_psat s i n v =
    (let s1 = (if i = 0 then ex_psone s v else s) in s1\<lparr>e_ps := (take n (e_ps s1 @ replicate n 0))[i := v]\<rparr>)"

definition ex_psmake :: "'o exk \<Rightarrow> 'o exs \<Rightarrow> 'o exs" where
  "ex_psmake K s = (on_sh (\<lambda>h. v_arr (k_eval K) h ''PIPESTATUS'' (map (\<lambda>v. xnum v) (e_ps s))) s)\<lparr>e_pslive := True\<rparr>"

subsection \<open>Running text, and the traps\<close>

definition sh_lines :: "'o exk \<Rightarrow> 'o exev \<Rightarrow> string \<Rightarrow> 'o exs \<Rightarrow> ('o exs \<times> int) option" where
  "sh_lines K ev t s =
    (case k_line K s t of
       PEnd \<Rightarrow> Some (s, est s)
     | PMore \<Rightarrow> ret_st s 2
     | PErr \<Rightarrow> ret_st s 2
     | PLine n rest eof \<Rightarrow>
         (if n \<noteq> N0 \<and> \<not> e_noexec s then ev (XNode n) s else Some (s, est s)) \<bind> (\<lambda>(s1, _).
           let s2 = (if e_noexec s1 \<and> e_run s1 = 1 \<or> e_abline s1 then s1\<lparr>e_stop := False, e_abline := False\<rparr> else s1)
           in if eof \<or> leaving s2 then Some (s2, est s2) else ev (XLines rest) s2))"

definition hibr_run :: "'o exev \<Rightarrow> 'o exs \<Rightarrow> string \<Rightarrow> ('o exs \<times> int) option" where
  "hibr_run ev s t =
    ev (XLines t) (s\<lparr>e_run := e_run s + 1\<rparr>) \<bind> (\<lambda>(s1, _). Some (s1\<lparr>e_run := e_run s1 - 1\<rparr>, est s1))"

definition tr_err :: "'o exev \<Rightarrow> 'o exs \<Rightarrow> int \<Rightarrow> 'o exs option" where
  "tr_err ev s v =
    (case e_etrap s of
       None \<Rightarrow> Some s
     | Some cmd \<Rightarrow>
         if e_try s \<or> e_errkid s then Some s
         else hibr_run ev (with_st v (s\<lparr>e_etrap := None\<rparr>)) cmd \<bind> (\<lambda>(s1, _).
           let s2 = (if e_noexec s1 then s1 else s1\<lparr>e_stop := False\<rparr>)
           in Some (with_st (est s) (s2\<lparr>e_etrap := Some cmd\<rparr>))))"

definition tr_debug :: "'o exk \<Rightarrow> 'o exev \<Rightarrow> 'o exs \<Rightarrow> string \<Rightarrow> 'o exs option" where
  "tr_debug K ev s what =
    (case e_dtrap s of
       None \<Rightarrow> Some s
     | Some cmd \<Rightarrow>
         hibr_run ev (on_sh (\<lambda>h. fst (hibr_set (k_eval K) h ''CMD'' what False)) (s\<lparr>e_dtrap := None\<rparr>)) cmd \<bind> (\<lambda>(s1, _).
           Some (with_st (est s)
             (s1\<lparr>e_dtrap := Some cmd, e_stop := e_stop s, e_bind := e_bind s, e_xerr := e_xerr s,
               e_brk := e_brk s, e_cont := e_cont s, e_ret := e_ret s\<rparr>))))"

definition tr_return :: "'o exev \<Rightarrow> 'o exs \<Rightarrow> 'o exs option" where
  "tr_return ev s =
    (case e_rtrap s of
       None \<Rightarrow> Some s
     | Some cmd \<Rightarrow>
         hibr_run ev (s\<lparr>e_rtrap := None\<rparr>) cmd \<bind> (\<lambda>(s1, _).
           Some (with_st (est s) (s1\<lparr>e_stop := e_stop s, e_brk := e_brk s, e_cont := e_cont s, e_ret := e_ret s\<rparr>))))"

text \<open>The traps of the signals that have arrived, in their order.\<close>

fun tr_runs :: "'o exev \<Rightarrow> int \<Rightarrow> string list \<Rightarrow> 'o exs \<Rightarrow> 'o exs option" where
  "tr_runs ev ost [] s = Some (with_st ost s)"
| "tr_runs ev ost (c # cs) s =
    hibr_run ev s c \<bind> (\<lambda>(s1, _).
      let s2 = (if e_noexec s1 then s1 else s1\<lparr>e_stop := False\<rparr>)
      in if e_quit s2 then Some s2 else tr_runs ev ost cs s2)"

definition tr_run :: "'o exk \<Rightarrow> 'o exev \<Rightarrow> 'o exs \<Rightarrow> 'o exs option" where
  "tr_run K ev s = (case k_pend K s of (s1, cs) \<Rightarrow> if cs = [] then Some s1 else tr_runs ev (est s1) cs s1)"

text \<open>Errexit: an untested failure runs the error trap and stops the line, or the shell.\<close>

definition ex_chk :: "'o exev \<Rightarrow> 'o exs \<Rightarrow> int \<Rightarrow> bool \<Rightarrow> ('o exs \<times> int) option" where
  "ex_chk ev s v tested =
    (if v \<noteq> 0 \<and> \<not> tested \<and> \<not> e_stop s then tr_err ev s v else Some s) \<bind> (\<lambda>s1.
      if v = 0 \<or> e_errx s1 = 0 \<or> tested \<or> e_stop s1 \<or> e_try s1 \<or> e_quit s1 then Some (s1, v)
      else Some (with_st v (s1\<lparr>e_stop := True, e_quit := e_quit s1 \<or> \<not> e_it s1\<rparr>), v))"

subsection \<open>Assignments\<close>

definition asg_cat :: "'o exk \<Rightarrow> 'o exs \<Rightarrow> var option \<Rightarrow> string option \<Rightarrow> string \<Rightarrow> 'o exs \<times> string" where
  "asg_cat K s v old add =
    (case v of
       Some e \<Rightarrow>
         if has (vat e) A_INT then
           (let (s1, a) = (case old of Some (c # t) \<Rightarrow> k_ax K s (c # t) | _ \<Rightarrow> (s, 0));
                (s2, b) = k_ax K s1 add
            in (s2, s_num (sint (a + b))))
         else (s, (case old of None \<Rightarrow> [] | Some t \<Rightarrow> t) @ add)
     | None \<Rightarrow> (s, (case old of None \<Rightarrow> [] | Some t \<Rightarrow> t) @ add))"

text \<open>The keys of the subscripts from \<open>r\<close>, which is \<open>o\<close> bytes into the word its quotes are masked in.\<close>

function asg_keys :: "'o exk \<Rightarrow> 'o exs \<Rightarrow> string \<Rightarrow> string \<Rightarrow> nat \<Rightarrow> bool list option \<Rightarrow> 'o exs \<times> string list" where
  "asg_keys K s nm r p mk =
    (if r = [] then (s, [])
     else case strchr r CHR '']'' of
       None \<Rightarrow> (s, [])
     | Some e \<Rightarrow>
         let t = take e r;
             quoted = (case mk of None \<Rightarrow> False | Some m \<Rightarrow> list_ex (\<lambda>i. p + i < length m \<and> m ! (p + i)) [0..<length t]);
             (s1, k) = (if quoted then (s, t) else k_key K s nm t);
             r1 = drop (e + 1) r
         in if at r1 0 = CHR ''['' then (let (s2, ks) = asg_keys K s1 nm (tl r1) (p + e + 2) mk in (s2, k # ks))
            else (s1, [k]))"
  by pat_completeness auto
termination
  by (relation "measure (\<lambda>(K, s, nm, r, p, mk). length r)") auto

declare asg_keys.simps [simp del]

definition ex_asg :: "'o exk \<Rightarrow> 'o exs \<Rightarrow> string \<Rightarrow> bool list option \<Rightarrow> bool \<Rightarrow> 'o exs \<times> int" where
  "ex_asg K s kv mk exf0 =
    (case asg_eq kv of
       None \<Rightarrow> (s, HIBR_OK)
     | Some q \<Rightarrow>
         let exf = (exf0 \<or> has (sopt (e_sh s)) O_ALLEXP);
             plus = (q > 0 \<and> at kv (q - 1) = CHR ''+'');
             nm = take (if plus then q - 1 else q) kv;
             v = drop (q + 1) kv
         in case strchr nm CHR ''['' of
              None \<Rightarrow>
                let (s1, w) = (if plus then asg_cat K s (snd (v_findr (e_sh s) nm)) (hibr_get (e_sh s) nm) v else (s, v));
                    (h, rc) = v_assign (k_eval K) (e_sh s1) nm w exf True
                in (s1\<lparr>e_sh := h\<rparr>, rc)
            | Some b \<Rightarrow>
                let base = take b nm;
                    (s1, ks) = asg_keys K s base (drop (b + 1) nm) (b + 1) mk;
                    (s2, w) = (if plus then asg_cat K s1 (snd (v_findr (e_sh s1) base)) (v_getp (e_sh s1) base ks) v else (s1, v));
                    s3 = on_sh (\<lambda>h. v_setp (k_eval K) h base ks w) s2;
                    ro = (case snd (v_findr (e_sh s3) base) of None \<Rightarrow> False | Some e \<Rightarrow> vro e)
                in (s3, if e_stop s3 \<or> ro then HIBR_FAIL else HIBR_OK))"

text \<open>The elements of an array clause: one in brackets is one word, the rest split.\<close>

fun arr_elems :: "'o exk \<Rightarrow> 'o exs \<Rightarrow> wd list \<Rightarrow> 'o exs \<times> string list" where
  "arr_elems K s [] = (s, [])"
| "arr_elems K s (w # ws) =
    (let (s1, el) =
           (if w \<noteq> [] \<and> pk (hd w) = 0 \<and> pq (hd w) = 0 \<and> at (pt (hd w)) 0 = CHR ''[''
            then (let (s1, t) = k_one K s w in (s1, [t])) else k_words K s w);
         (s2, els) = arr_elems K s1 ws
     in (s2, el @ els))"

text \<open>The name of a clause, and whether it appends.\<close>

definition arr_nm :: "arrasg \<Rightarrow> string \<times> bool" where
  "arr_nm f =
    (let n = length (ar_nm f)
     in if n > 1 \<and> at (ar_nm f) (n - 1) = CHR ''+'' then (take (n - 1) (ar_nm f), True) else (ar_nm f, False))"

definition ex_arrasg :: "'o exk \<Rightarrow> 'o exs \<Rightarrow> arrasg \<Rightarrow> 'o exs" where
  "ex_arrasg K s f =
    (let (s1, el) = arr_elems K s (ar_w f); (nm0, app) = arr_nm f in
     if app then
       (let (nm, v) = v_findr (e_sh s1) nm0 in
        if (case v of Some e \<Rightarrow> vro e | None \<Rightarrow> False) then on_sh (\<lambda>h. h\<lparr>refused := 1\<rparr>) (with_st 1 s1)
        else
          let (h, nx) = v_arrnext (k_eval K) (e_sh s1) nm;
              h1 = v_arrput (k_eval K) h nm el nx;
              h2 = (if el = [] \<and> v_find h1 nm = None then v_arr (k_eval K) h1 nm [] else h1)
          in s1\<lparr>e_sh := h2\<rparr>)
     else on_sh (\<lambda>h. v_arr (k_eval K) h nm0 el) s1)"

definition is_ro :: "sh \<Rightarrow> string \<Rightarrow> bool" where
  "is_ro h k = (case v_find h k of Some v \<Rightarrow> vro v | None \<Rightarrow> False)"

definition ex_arrro :: "'o exs \<Rightarrow> cmd \<Rightarrow> int" where
  "ex_arrro s n =
    (if list_ex (\<lambda>d. ar_late d \<and> is_ro (e_sh s) (fst (arr_nm d))) (c_arr n) then HIBR_FAIL else HIBR_OK)"

definition ex_arrlate1 :: "'o exk \<Rightarrow> 'o exs \<Rightarrow> arrasg \<Rightarrow> 'o exs" where
  "ex_arrlate1 K s d =
    (if \<not> ar_late d then s
     else
       let nm = fst (arr_nm d); ro = is_ro (e_sh s) nm;
           s1 = (if ro then on_sh (\<lambda>h. v_upd h nm (\<lambda>v. v\<lparr>vro := False\<rparr>)) s else s);
           s2 = ex_arrasg K s1 d
       in if ro then on_sh (\<lambda>h. v_upd h nm (\<lambda>v. v\<lparr>vro := True\<rparr>)) s2 else s2)"

definition ex_arrlate :: "'o exk \<Rightarrow> 'o exs \<Rightarrow> cmd \<Rightarrow> 'o exs" where
  "ex_arrlate K s n = foldl (ex_arrlate1 K) s (c_arr n)"

text \<open>The assignments before a command: \<open>ac\<close> is whether a command follows, \<open>old\<close> what they hid.\<close>

fun ex_asgs :: "'o exk \<Rightarrow> bool \<Rightarrow> wd list \<Rightarrow> 'o exs \<times> string list \<times> sav list \<times> bool \<Rightarrow> 'o exs \<times> string list \<times> sav list \<times> bool" where
  "ex_asgs K ac [] r = r"
| "ex_asgs K ac (w # ws) (s, asg, old, bad) =
    (if e_xerr s \<noteq> 0 then (s, asg, old, bad)
     else
       let (s1, kv, mk) = k_asg K s w; asg1 = asg @ [kv] in
       if e_xerr s1 \<noteq> 0 then (s1, asg1, old, bad)
       else if ac then
         (let h = e_sh s1; (h1, old1) = asg_push (k_eval K) (h\<lparr>decl := decl h + 1\<rparr>) [kv] old
          in ex_asgs K ac ws (s1\<lparr>e_sh := h1\<lparr>decl := decl h1 - 1\<rparr>\<rparr>, asg1, old1, bad))
       else
         (let (s2, rc) = ex_asg K s1 kv mk False in
          if rc = HIBR_OK then ex_asgs K ac ws (s2, asg1, old, bad)
          else if refused (e_sh s2) \<noteq> 0 then (s2, asg1, old, True)
          else ex_asgs K ac ws (s2, asg1, old, True)))"

text \<open>What a refused assignment ends: nothing under keepgoing, the script, or the line.\<close>

definition ex_refuse :: "'o exs \<Rightarrow> 'o exs" where
  "ex_refuse s0 =
    (let s = with_st HIBR_FAIL s0 in
     if has (sopt (e_sh s)) O_KEEPGOING then s
     else if refused (e_sh s) = 2 \<and> \<not> e_it s then s\<lparr>e_quit := True\<rparr>
     else if e_errx s \<noteq> 0 \<and> \<not> e_tst s \<and> \<not> e_try s \<and> \<not> e_it s then s\<lparr>e_stop := True, e_quit := True\<rparr>
     else s\<lparr>e_stop := True, e_abline := True\<rparr>)"


subsection \<open>Functions\<close>

text \<open>What \<open>sh_sfl\<close> finds for the running file.\<close>

definition sh_sfl :: "'o exs \<Rightarrow> 'o exs" where
  "sh_sfl s =
    (let fl = (case find (\<lambda>(k, f). k = e_src s) (e_sf s) of Some (k, f) \<Rightarrow> f | None \<Rightarrow> 0)
     in (on_sh (\<lambda>h. h\<lparr>sfl := fl\<rparr>) s)\<lparr>e_strict := e_strictg s \<or> has fl SF_EXP\<rparr>)"

text \<open>Whether a level deeper is refused: past FUNCNEST, or with most of the stack used.\<close>

definition ex_deep :: "'o exk \<Rightarrow> 'o exs \<Rightarrow> bool \<Rightarrow> 'o exs \<times> bool" where
  "ex_deep K s0 fn =
    (let s = (if fn \<and> \<not> fnok (e_sh s0)
              then (on_sh (\<lambda>h. h\<lparr>fnok := True\<rparr>) s0)
                \<lparr>e_fnnest := (case hibr_get (e_sh s0) ''FUNCNEST'' of Some v \<Rightarrow> fst (strtol 10 v) | None \<Rightarrow> 0)\<rparr>
              else s0)
     in if fn \<and> e_fnnest s > 0 \<and> int (e_dep s) \<ge> e_fnnest s \<or> k_deep K s fn then
          (let s1 = (if \<not> e_try s \<and> \<not> has (sopt (e_sh s)) O_KEEPGOING
                     then (if e_it s then s\<lparr>e_stop := True\<rparr> else s\<lparr>e_quit := True\<rparr>) else s)
           in (with_st 1 s1, True))
        else (s, False))"

definition FNSELF :: string where
  "FNSELF = CHR 0x01 # ''fnself''"

text \<open>A name hidden in the running function's frame.\<close>

definition fr_hide :: "'o exs \<Rightarrow> string \<Rightarrow> 'o exs \<times> int" where
  "fr_hide s k =
    (let (h, fr, rc) = asg_hide (e_sh s) (last (scope (e_sh s))) k
     in (s\<lparr>e_sh := h\<lparr>scope := butlast (scope h) @ [fr]\<rparr>\<rparr>, rc))"

text \<open>One declared parameter bound to its value.\<close>

definition fn_bind1 :: "'o exk \<Rightarrow> 'o exs \<Rightarrow> param \<Rightarrow> string \<Rightarrow> 'o exs \<times> int" where
  "fn_bind1 K s pm v =
    (if pm_f pm AND (TY_KIND OR TY_OPT) \<noteq> 0 \<and> \<not> ty_fast (pm_f pm) v then (s, HIBR_FAIL)
     else
       let copy = (pm_f pm AND TY_KIND = TY_COPY); self = (copy \<and> v = pm_nm pm);
           s1 = (if self then on_sh (\<lambda>h. v_copy (k_eval K) h FNSELF v) s else s);
           v1 = (if self then FNSELF else v);
           (s2, rc) = fr_hide s1 (pm_nm pm);
           s3 = (if rc \<noteq> HIBR_OK then s2
                 else if copy then on_sh (\<lambda>h. v_copy (k_eval K) h (pm_nm pm) v1) s2
                 else on_sh (\<lambda>h. fst (hibr_set (k_eval K) h (pm_nm pm) v1 False)) s2)
       in (if self then on_sh (\<lambda>h. v_del h FNSELF) s3 else s3, if rc \<noteq> HIBR_OK then HIBR_FAIL else HIBR_OK))"

fun fn_bind :: "'o exk \<Rightarrow> 'o exs \<Rightarrow> param list \<Rightarrow> string list \<Rightarrow> 'o exs \<times> int" where
  "fn_bind K s [] av = (s, if av = [] then HIBR_OK else HIBR_FAIL)"
| "fn_bind K s (pm # pms) av =
    (if pm_f pm AND TY_REST \<noteq> 0 then
       (let (s1, rc) = fr_hide s (pm_nm pm) in
        if rc \<noteq> HIBR_OK then (s1, HIBR_FAIL) else (on_sh (\<lambda>h. v_arr (k_eval K) h (pm_nm pm) av) s1, HIBR_OK))
     else
       (case (case av of v # r \<Rightarrow> Some (s, v, r)
              | [] \<Rightarrow> (case pm_w pm of Some w \<Rightarrow> (let (s1, v) = k_one K s w in Some (s1, v, [])) | None \<Rightarrow> None)) of
          None \<Rightarrow> (s, HIBR_FAIL)
        | Some (s1, v, r) \<Rightarrow>
            let (s2, rc) = fn_bind1 K s1 pm v in if rc \<noteq> HIBR_OK then (s2, HIBR_FAIL) else fn_bind K s2 pms r))"

text \<open>The state a function's body runs in.\<close>

definition fn_enter :: "fn \<Rightarrow> string list \<Rightarrow> 'o exs \<Rightarrow> 'o exs" where
  "fn_enter f av s =
    (let src = fn_src (e_fns s); s1 = s\<lparr>e_src := src\<rparr>;
         s2 = (if e_sf s1 \<noteq> [] \<and> src \<noteq> e_src s then sh_sfl s1 else s1)
     in (on_sh (\<lambda>h. h\<lparr>scope := scope h @ [[]]\<rparr>) s2)\<lparr>e_av := tl av, e_dep := e_dep s2 + 1, e_loops := 0, e_rty := fn_rt f\<rparr>)"

text \<open>What the return puts back: the caller's state is \<open>s0\<close>.\<close>

definition fn_leave :: "'o exk \<Rightarrow> 'o exs \<Rightarrow> 'o exs \<Rightarrow> 'o exs" where
  "fn_leave K s0 s =
    (let h = e_sh s; fr = last (scope h);
         h1 = asg_pop (k_eval K) (h\<lparr>scope := butlast (scope h)\<rparr>) fr;
         s1 = s\<lparr>e_sh := h1, e_dep := e_dep s - 1, e_loops := e_loops s0, e_av := e_av s0, e_rty := e_rty s0\<rparr>;
         s2 = (if e_sf s1 \<noteq> [] \<and> e_src s1 \<noteq> e_src s0 then sh_sfl (s1\<lparr>e_src := e_src s0\<rparr>) else s1)
     in s2\<lparr>e_src := e_src s0\<rparr>)"

text \<open>The declared parameters, bound in the new frame.\<close>

definition fn_args :: "'o exk \<Rightarrow> fn \<Rightarrow> string list \<Rightarrow> 'o exs \<Rightarrow> 'o exs \<times> int" where
  "fn_args K f av s =
    (if fn_typed f then
       (let (t, rc) = fn_bind K (on_sh (\<lambda>h. h\<lparr>decl := decl h + 1\<rparr>) s) (fn_pm f) (tl av)
        in (on_sh (\<lambda>h. h\<lparr>decl := decl h - 1\<rparr>) t, rc))
     else (s, HIBR_OK))"

text \<open>After the body: a return ends here, and the trap of \<open>RETURN\<close> runs; \<open>rd\<close> is the caller's \<open>ex_retd\<close>.\<close>

definition fn_done :: "'o exev \<Rightarrow> bool \<Rightarrow> 'o exs \<Rightarrow> int \<Rightarrow> ('o exs \<times> int) option" where
  "fn_done ev rd s v =
    (let s1 = s\<lparr>e_lastret := e_retd s, e_retd := rd\<rparr>;
         v1 = (if e_ret s1 then est s1 else v); s2 = s1\<lparr>e_ret := False\<rparr>
     in if e_rtrap s2 = None then Some (s2, v1) else tr_return ev (with_st v1 s2) \<bind> (\<lambda>s3. Some (s3, est s3)))"

definition fn_call :: "'o exk \<Rightarrow> 'o exev \<Rightarrow> fn \<Rightarrow> string list \<Rightarrow> 'o exs \<Rightarrow> ('o exs \<times> int) option" where
  "fn_call K ev f av s =
    (case ex_deep K s True of
       (s1, True) \<Rightarrow> Some (s1, 1)
     | (s0, False) \<Rightarrow>
         let (s2, bnd) = fn_args K f av (fn_enter f av s0); s3 = s2\<lparr>e_retd := False\<rparr>
         in (if bnd \<noteq> HIBR_OK then Some (s3, 2) else ev (XNode (fn_body f)) s3) \<bind> (\<lambda>(s4, v).
           fn_done ev (e_retd s2) s4 v \<bind> (\<lambda>(s5, v5). Some (fn_leave K s0 s5, v5))))"

subsection \<open>The builtins that leave loops, functions and the shell\<close>

text \<open>A numeric operand: white space, a sign, decimal digits, blanks, nothing too large.\<close>

definition t_int :: "string \<Rightarrow> int option" where
  "t_int a0 =
    (let a = dropWhile (\<lambda>c. c = CHR '' '' \<or> 9 \<le> byte c \<and> byte c \<le> 13) a0; sg = (at a 0 = CHR ''-'' \<or> at a 0 = CHR ''+'') in
     if a = [] \<or> sg \<and> \<not> isdigit (at a 1) \<or> \<not> sg \<and> \<not> isdigit (at a 0) then None
     else let (v, e) = strtol_raw 10 a in
       if v < LONG_MIN \<or> v > LONG_MAX then None
       else if dropWhile (\<lambda>c. c = CHR '' '' \<or> c = CHR 0x09) e = [] then Some v else None)"

definition bi_many :: "'o exs \<Rightarrow> 'o exs \<times> int" where
  "bi_many s = (with_st 1 (s\<lparr>e_stop := True, e_abline := True\<rparr>), 1)"

definition set_st :: "'o exs \<Rightarrow> int \<Rightarrow> 'o exs \<times> int" where
  "set_st s v = (with_st v s, v)"

definition b_exit :: "'o exbi" where
  "b_exit av s =
    (case tl av of
       [] \<Rightarrow> (s\<lparr>e_quit := True\<rparr>, est s)
     | a # r \<Rightarrow>
         (case t_int a of
            None \<Rightarrow> set_st (s\<lparr>e_quit := True\<rparr>) 2
          | Some v \<Rightarrow> if r \<noteq> [] then bi_many s else set_st (s\<lparr>e_quit := True\<rparr>) (v mod 256)))"

definition b_retf :: "'o exbi" where
  "b_retf av s =
    (if e_dep s = 0 \<and> e_srcs s = 0 then set_st s 2
     else
       case tl av of
         [] \<Rightarrow> (s\<lparr>e_ret := True\<rparr>, est s)
       | a # r \<Rightarrow>
           (case t_int a of
              None \<Rightarrow> set_st (s\<lparr>e_ret := True\<rparr>) 2
            | Some v \<Rightarrow> if r \<noteq> [] then bi_many s else set_st (s\<lparr>e_ret := True\<rparr>) (v mod 256)))"

definition b_ret :: "'o exk \<Rightarrow> 'o exbi" where
  "b_ret K av s =
    (let bad = (\<lambda>v. e_rty s \<noteq> None \<and> e_rty s \<noteq> Some [] \<and> \<not> ty_ok (e_rty s) v);
         fin = (\<lambda>s. set_st (s\<lparr>e_ret := True, e_retd := True\<rparr>) HIBR_OK)
     in if e_dep s = 0 \<and> e_srcs s = 0 then set_st s 2
        else if tl av = [''-k''] then
          (if bad (case hibr_get (e_sh s) ''RET'' of Some k \<Rightarrow> k | None \<Rightarrow> []) then set_st (s\<lparr>e_ret := True\<rparr>) 2 else fin s)
        else if bad (case tl av of [] \<Rightarrow> [] | v # r \<Rightarrow> v) then set_st (s\<lparr>e_ret := True\<rparr>) 2
        else if length av > 2 then fin (on_sh (\<lambda>h. v_arr (k_eval K) h ''RET'' (tl av)) s)
        else fin (on_sh (\<lambda>h. fst (hibr_set (k_eval K) h ''RET'' (case tl av of [] \<Rightarrow> [] | v # r \<Rightarrow> v) False)) s))"

text \<open>How many loops; \<open>None\<close> is an error that has been dealt with.\<close>

definition bi_loops :: "'o exs \<Rightarrow> string list \<Rightarrow> 'o exs \<times> nat option" where
  "bi_loops s av =
    (case (case tl av of [] \<Rightarrow> Some 1 | a # r \<Rightarrow> t_int a) of
       None \<Rightarrow> (let s1 = with_st 128 s in if e_it s1 then s1 else s1\<lparr>e_quit := True\<rparr>, None)
     | Some v \<Rightarrow>
         if length av > 2 then (fst (bi_many s), None)
         else if v < 1 then (s, Some 0)
         else (s, Some (min (nat v) (e_loops s))))"

definition b_brk :: "'o exbi" where
  "b_brk av s =
    (if e_loops s = 0 then (s, HIBR_OK)
     else case bi_loops s av of
       (s1, None) \<Rightarrow> (s1, est s1)
     | (s1, Some 0) \<Rightarrow> (s1\<lparr>e_brk := e_loops s1\<rparr>, HIBR_FAIL)
     | (s1, Some n) \<Rightarrow> (s1\<lparr>e_brk := n\<rparr>, HIBR_OK))"

definition b_cont :: "'o exbi" where
  "b_cont av s =
    (if e_loops s = 0 then (s, HIBR_OK)
     else case bi_loops s av of
       (s1, None) \<Rightarrow> (s1, est s1)
     | (s1, Some 0) \<Rightarrow> (s1\<lparr>e_brk := e_loops s1\<rparr>, HIBR_FAIL)
     | (s1, Some n) \<Rightarrow> (s1\<lparr>e_cont := n\<rparr>, HIBR_OK))"

definition b_shift :: "'o exbi" where
  "b_shift av s =
    (case (case tl av of [] \<Rightarrow> Some 1 | a # r \<Rightarrow> t_int a) of
       None \<Rightarrow> (s, HIBR_FAIL)
     | Some n \<Rightarrow>
         if length av > 2 then bi_many s
         else if n < 0 \<or> n > int (length (e_av s)) then (s, HIBR_FAIL)
         else (s\<lparr>e_av := drop (nat n) (e_av s)\<rparr>, HIBR_OK))"

subsection \<open>The builtins that run text\<close>

definition join_sp :: "string list \<Rightarrow> string" where
  "join_sp ws = concat (case ws of [] \<Rightarrow> [] | w # r \<Rightarrow> w # map (\<lambda>t. CHR '' '' # t) r)"

definition b_eval :: "'o exk \<Rightarrow> 'o exev \<Rightarrow> string list \<Rightarrow> 'o exs \<Rightarrow> ('o exs \<times> int) option" where
  "b_eval K ev av s =
    (case ex_deep K s False of
       (s1, True) \<Rightarrow> Some (s1, 1)
     | (s1, False) \<Rightarrow>
         let t = join_sp (tl av) in if t = [] then Some (s1, est s1) else hibr_run ev s1 t)"

text \<open>The words of \<open>fail\<close>, a space between: after an empty start there is none.\<close>

definition fail_text :: "string list \<Rightarrow> string" where
  "fail_text ws = foldl (\<lambda>b w. (if b = [] then [] else b @ '' '') @ w) [] ws"

definition b_fail :: "'o exk \<Rightarrow> 'o exbi" where
  "b_fail K av s =
    (let sf = (length av > 2 \<and> av ! 1 = ''-s'');
         v = (if sf then sint (word_of_int (fst (strtol 10 (av ! 2))) :: 32 word) else 1);
         s1 = on_sh (\<lambda>h. fst (hibr_set (k_eval K) h ''ERRMSG'' (fail_text (drop (if sf then 3 else 1) av)) False)) s
     in set_st (if e_dep s1 > 0 then s1\<lparr>e_ret := True\<rparr> else s1) v)"

definition b_try :: "'o exk \<Rightarrow> 'o exev \<Rightarrow> string list \<Rightarrow> 'o exs \<Rightarrow> ('o exs \<times> int) option" where
  "b_try K ev av s =
    (if length av < 2 then Some (s, 2)
     else
       let set1 = (\<lambda>k v. on_sh (\<lambda>h. fst (hibr_set (k_eval K) h k v False))) in
       hibr_run ev ((set1 ''ERRMSG'' [] s)\<lparr>e_try := True\<rparr>) (join_sp (map s_sq (tl av))) \<bind> (\<lambda>(s1, _).
         let v = est s1; s2 = s1\<lparr>e_try := e_try s, e_stop := False\<rparr>;
             s3 = set1 ''ERRSTATUS'' (s_num v) (set1 ''ERR'' (if v \<noteq> 0 then ''1'' else ''0'') s2)
         in ret_st s3 HIBR_OK))"


subsection \<open>Aliases\<close>

definition al_plain :: "char \<Rightarrow> bool" where
  "al_plain c \<longleftrightarrow> isalnum c \<or> c \<in> set ''_+-%^=./:,@''"

definition al_esc :: "char \<Rightarrow> string" where
  "al_esc c = (if al_plain c then [c] else [CHR 0x5C, c])"

text \<open>A word with its quote mask: the quoted runs in single quotes, the rest escaped.\<close>

function al_qmask :: "(char \<times> bool) list \<Rightarrow> string" where
  "al_qmask [] = []"
| "al_qmask ((c, False) # t) = al_esc c @ al_qmask t"
| "al_qmask ((c, True) # t) = [SQ] @ s_sqb (c # map fst (takeWhile snd t)) @ [SQ] @ al_qmask (dropWhile snd t)"
  by pat_completeness auto
termination
  by (relation "measure length") (auto simp: length_dropWhile_le le_imp_less_Suc)

definition al_quote :: "string \<Rightarrow> bool list option \<Rightarrow> string" where
  "al_quote a mk =
    (case mk of
       Some m \<Rightarrow> if a = [] then [SQ, SQ] else al_qmask (zip a m)
     | None \<Rightarrow> if a = [] \<or> CHR 0x0A \<in> set a then s_sq a else concat (map al_esc a))"

definition al_run :: "'o exev \<Rightarrow> 'o exs \<Rightarrow> string \<Rightarrow> (string \<times> bool list option) list \<Rightarrow> ('o exs \<times> int) option" where
  "al_run ev s body av =
    hibr_run ev (s\<lparr>e_axp := e_axp s @ [fst (hd av)]\<rparr>) (body @ concat (map (\<lambda>(a, m). CHR '' '' # al_quote a m) (tl av))) \<bind> (\<lambda>(s1, v).
      Some (s1\<lparr>e_axp := butlast (e_axp s1)\<rparr>, v))"

subsection \<open>A simple command\<close>

definition ex_bind :: "'o exk \<Rightarrow> 'o exs \<Rightarrow> cmd \<Rightarrow> 'o exs" where
  "ex_bind K s n =
    (case c_bind n of
       Some k \<Rightarrow> on_sh (\<lambda>h. v_copy (k_eval K) h k ''RET'') s
     | None \<Rightarrow>
         (case c_bw n of
            None \<Rightarrow> s
          | Some w \<Rightarrow>
              let (s1, t, mk) = k_oneq K s w in
              if t = [] then s1
              else if CHR ''['' \<notin> set t then on_sh (\<lambda>h. v_copy (k_eval K) h t ''RET'') s1
              else let (s2, base, ks) = k_keys K s1 t mk in on_sh (\<lambda>h. v_copyp (k_eval K) h base ks ''RET'') s2))"

definition ex_retnone :: "'o exk \<Rightarrow> 'o exs \<Rightarrow> string \<Rightarrow> int \<Rightarrow> 'o exs" where
  "ex_retnone K s f v =
    (let some_text = (case hibr_get (e_sh s) ''RET'' of Some (c # t) \<Rightarrow> True | _ \<Rightarrow> False);
         isarr = (case v_find (e_sh s) ''RET'' of Some r \<Rightarrow> ents (vmap r) \<noteq> [] \<or> vam r | None \<Rightarrow> False)
     in if \<not> some_text \<and> \<not> isarr then s
        else
          let s1 = on_sh (\<lambda>h. fst (hibr_set (k_eval K) (v_del h ''RET'') ''RET'' [] False)) s
          in if v \<noteq> 0 \<or> f \<in> set (e_retwarned s1) then s1 else s1\<lparr>e_retwarned := e_retwarned s1 @ [f]\<rparr>)"

text \<open>A module's builtin, then those of this theory by name, then the others, which the argument gives.\<close>

definition bi_find :: "'o exk \<Rightarrow> 'o exev \<Rightarrow> 'o exs \<Rightarrow> string \<Rightarrow> (string list \<Rightarrow> 'o exs \<Rightarrow> ('o exs \<times> int) option) option" where
  "bi_find K ev s nm =
    (let pur = (\<lambda>b av s. Some (b av s)) in
     if k_mod K s nm \<noteq> None then map_option pur (k_mod K s nm)
     else if nm = ''break'' then Some (pur b_brk)
     else if nm = ''continue'' then Some (pur b_cont)
     else if nm = ''return'' then Some (pur b_retf)
     else if nm = ''ret'' then Some (pur (b_ret K))
     else if nm = ''exit'' then Some (pur b_exit)
     else if nm = ''shift'' then Some (pur b_shift)
     else if nm = ''fail'' then Some (pur (b_fail K))
     else if nm = ''true'' \<or> nm = '':'' then Some (\<lambda>av s. Some (s, HIBR_OK))
     else if nm = ''false'' then Some (\<lambda>av s. Some (s, HIBR_FAIL))
     else if nm = ''eval'' then Some (b_eval K ev)
     else if nm = ''try'' then Some (b_try K ev)
     else map_option pur (k_bi K s nm))"

text \<open>A call of a builtin: the array clauses of a declaration are refused before it and filled after it.\<close>

definition ex_builtin ::
    "'o exk \<Rightarrow> (string list \<Rightarrow> 'o exs \<Rightarrow> ('o exs \<times> int) option) \<Rightarrow> cmd \<Rightarrow> (string \<times> bool list option) list \<Rightarrow> 'o exs \<Rightarrow> ('o exs \<times> int) option" where
  "ex_builtin K b n avm s =
    (let av = map fst avm;
         dcl = (if has (sfl (e_sh s)) SF_VAR \<and> k_decl K (hd av) then 1 else 0);
         ro = ex_arrro s n;
         s1 = on_sh (\<lambda>h. h\<lparr>decl := decl h + dcl\<rparr>) (s\<lparr>e_amask := map snd avm\<rparr>)
     in (if ro = HIBR_OK then b av s1 else Some (s1, ro)) \<bind> (\<lambda>(s2, v).
       let s3 = (on_sh (\<lambda>h. h\<lparr>decl := decl h - dcl\<rparr>) s2)\<lparr>e_amask := e_amask s\<rparr>
       in Some (if v = HIBR_OK then ex_arrlate K s3 n else s3, v)))"

text \<open>A program, run and waited for, or its output taken into the result slot.\<close>

definition ex_prog :: "'o exk \<Rightarrow> cmd \<Rightarrow> string list \<Rightarrow> string list \<Rightarrow> bool \<Rightarrow> string \<Rightarrow> 'o exs \<Rightarrow> 'o exs \<times> int" where
  "ex_prog K n av asg nofork path s =
    (case (if has (sopt (e_sh s)) O_PLAN then k_plan K s av path else Some av) of
       None \<Rightarrow> (let (s1, sv, ok) = k_rd K True s (c_rd n) in (if c_rd n = [] then s else k_undo K s1 sv, HIBR_FAIL))
     | Some av1 \<Rightarrow>
         let cap = (c_bound n \<and> \<not> nofork);
             (s1, v, out) = k_prog K s path av1 (v_envp (e_sh s) asg) (c_rd n) nofork cap;
             t = rev (dropWhile (\<lambda>c. c = CHR 0x0A) (rev out))
         in (if cap then on_sh (\<lambda>h. fst (hibr_set (k_eval K) h ''RET'' t False)) s1 else s1, v))"

definition ex_missing :: "'o exk \<Rightarrow> 'o exev \<Rightarrow> cmd \<Rightarrow> string list \<Rightarrow> 'o exs \<Rightarrow> ('o exs \<times> int) option" where
  "ex_missing K ev n av s =
    (if CHR ''/'' \<in> set (hd av) then
       (let (s1, sv, ok) = k_rd K True s (c_rd n)
        in Some (k_undo K s1 sv, if ok then k_why K s1 (hd av) else HIBR_FAIL))
     else
       case fn_find (e_fns s) ''command_not_found'' of
         (t, Some f) \<Rightarrow> fn_call K ev f (''command_not_found'' # av) (s\<lparr>e_fns := t\<rparr>)
       | (t, None) \<Rightarrow>
           let (s1, sv, ok) = k_rd K True (s\<lparr>e_fns := t\<rparr>) (c_rd n) in Some (k_undo K s1 sv, HIBR_NOCMD))"

text \<open>A call inside the command's redirections.\<close>

definition with_rd ::
    "'o exk \<Rightarrow> redir list \<Rightarrow> ('o exs \<Rightarrow> ('o exs \<times> int) option) \<Rightarrow> 'o exs \<Rightarrow> ('o exs \<times> int) option" where
  "with_rd K rd body s =
    (let (s1, sv, ok) = k_rd K True s rd
     in (if ok then body s1 else Some (s1, HIBR_FAIL)) \<bind> (\<lambda>(s2, v). Some (k_undo K s2 sv, v)))"

definition ex_fnrun :: "'o exk \<Rightarrow> 'o exev \<Rightarrow> cmd \<Rightarrow> fn \<Rightarrow> string list \<Rightarrow> 'o exs \<Rightarrow> ('o exs \<times> int) option" where
  "ex_fnrun K ev n f av =
    with_rd K (c_rd n) (\<lambda>s. fn_call K ev f av s \<bind> (\<lambda>(s1, v).
      Some (if c_bound n \<and> \<not> e_lastret s1 then ex_retnone K s1 (hd av) v else s1, v)))"

definition ex_birun ::
    "'o exk \<Rightarrow> (string list \<Rightarrow> 'o exs \<Rightarrow> ('o exs \<times> int) option) \<Rightarrow> cmd \<Rightarrow> (string \<times> bool list option) list \<Rightarrow> 'o exs \<Rightarrow> ('o exs \<times> int) option" where
  "ex_birun K b n avm s =
    (if map fst avm = [''exec''] then
       (let (s1, sv, ok) = k_rd K False s (c_rd n) in Some (s1, if ok then HIBR_OK else HIBR_FAIL))
     else with_rd K (c_rd n) (ex_builtin K b n avm) s)"

text \<open>What a module loaded for the word gives, a program, or nothing.\<close>

definition ex_found ::
    "'o exk \<Rightarrow> 'o exev \<Rightarrow> cmd \<Rightarrow> (string \<times> bool list option) list \<Rightarrow> string list \<Rightarrow> bool \<Rightarrow> 'o exs \<times> 'o target \<Rightarrow> ('o exs \<times> int) option" where
  "ex_found K ev n avm asg nofork r =
    (case r of
       (s, TBuiltin b) \<Rightarrow> with_rd K (c_rd n) (ex_builtin K (\<lambda>av s. Some (b av s)) n avm) s
     | (s, TPath p) \<Rightarrow> Some (ex_prog K n (map fst avm) asg nofork p s)
     | (s, TNone) \<Rightarrow> ex_missing K ev n (map fst avm) s)"

text \<open>The command word is an alias, a function, a builtin or looked for elsewhere, in that order.\<close>

definition ex_run ::
    "'o exk \<Rightarrow> 'o exev \<Rightarrow> cmd \<Rightarrow> (string \<times> bool list option) list \<Rightarrow> string list \<Rightarrow> bool \<Rightarrow> 'o exs \<Rightarrow> ('o exs \<times> int) option" where
  "ex_run K ev n avm asg nofork s0 =
    (let av = map fst avm; nm = hd av;
         s1 = (if c_bound n then (on_sh (\<lambda>h. fst (hibr_set (k_eval K) h ''RET'' [] False)) s0)\<lparr>e_bind := True\<rparr> else s0)
     in case (if nm \<in> set (e_axp s1) then None else map_of (e_als s1) nm) of
          Some body \<Rightarrow> with_rd K (c_rd n) (\<lambda>s. al_run ev s body avm) s1
        | None \<Rightarrow>
            (case fn_find (e_fns s1) nm of
               (t, Some f) \<Rightarrow> ex_fnrun K ev n f av (s1\<lparr>e_fns := t, e_bind := False\<rparr>)
             | (t, None) \<Rightarrow>
                 let s2 = s1\<lparr>e_fns := t\<rparr> in
                 case bi_find K ev s2 nm of
                   Some b \<Rightarrow> ex_birun K b n avm s2
                 | None \<Rightarrow> ex_found K ev n avm asg nofork (k_find K s2 nm)))"

text \<open>Words and assignments; \<open>Some v\<close> at the end is a command that is over with status \<open>v\<close>.\<close>

definition ex_prep1 ::
    "'o exk \<Rightarrow> cmd \<Rightarrow> bool \<Rightarrow> 'o exs \<Rightarrow> 'o exs \<times> string list \<times> sav list \<times> bool \<times> int option" where
  "ex_prep1 K n ac s =
    (if c_aw n \<noteq> [] \<and> e_xerr s = 0 \<and> \<not> e_stop s \<and> \<not> e_quit s then
       (let (s1, asg, old, bad) = ex_asgs K ac (c_aw n) (on_sh (\<lambda>h. h\<lparr>refused := 0\<rparr>) s, [], [], False) in
        if \<not> ac \<and> e_xerr s1 = 0 \<and> bad \<and> refused (e_sh s1) \<noteq> 0 then (ex_refuse s1, asg, old, bad, Some HIBR_FAIL)
        else (s1, asg, old, bad, None))
     else (s, [], [], False, None))"

definition ex_prep2 :: "'o exk \<Rightarrow> cmd \<Rightarrow> bool \<Rightarrow> 'o exs \<Rightarrow> 'o exs \<times> int option" where
  "ex_prep2 K n ac s =
    (if c_arr n = [] then (s, None)
     else
       let s1 = foldl (\<lambda>s f. if ar_late f then s else ex_arrasg K s f) (on_sh (\<lambda>h. h\<lparr>refused := 0\<rparr>) s) (c_arr n)
       in if \<not> ac \<and> e_xerr s1 = 0 \<and> refused (e_sh s1) \<noteq> 0 then (ex_refuse s1, Some HIBR_FAIL) else (s1, None))"

definition ex_xerr :: "'o exs \<Rightarrow> 'o exs \<times> int option" where
  "ex_xerr s =
    (if e_xerr s \<noteq> 0 then
       (let s1 = (if e_xerr s = 2 \<and> \<not> e_try s \<and> \<not> has (sopt (e_sh s)) O_KEEPGOING
                  then (if e_it s then s\<lparr>e_stop := True\<rparr> else s\<lparr>e_quit := True\<rparr>) else s)
        in (with_st 1 (s1\<lparr>e_xerr := 0\<rparr>), Some 1))
     else if e_stop s \<or> e_quit s then (s, Some (if est s \<noteq> 0 then est s else HIBR_FAIL))
     else (s, None))"

text \<open>A command with no words: the status of a substitution in it, and its redirections.\<close>

definition ex_empty :: "'o exk \<Rightarrow> cmd \<Rightarrow> nat \<Rightarrow> bool \<Rightarrow> int \<Rightarrow> 'o exs \<Rightarrow> 'o exs \<times> int" where
  "ex_empty K n ncap0 bad v0 s =
    (let v = (if bad then v0 else if e_ncap s \<noteq> ncap0 then est s else 0) in
     if c_rd n = [] then (s, v)
     else let (s1, sv, ok) = k_rd K True s (c_rd n) in if ok then (k_undo K s1 sv, v) else (s1, HIBR_FAIL))"

text \<open>The end of every command: the bound name, what the assignments hid, the status.\<close>

definition ex_out :: "'o exk \<Rightarrow> cmd \<Rightarrow> sav list \<Rightarrow> 'o exs \<Rightarrow> int \<Rightarrow> 'o exs \<times> int" where
  "ex_out K n old s0 v0 =
    (let s1 = k_reap K s0;
         s2 = (if c_bound n then (ex_bind K s1 n)\<lparr>e_bind := False\<rparr> else s1);
         (s3, v) = (if srefuse (e_sh s2) then (on_sh (\<lambda>h. h\<lparr>srefuse := False\<rparr>) s2, 1) else (s2, v0));
         s4 = on_sh (\<lambda>h. asg_pop (k_eval K) h old) s3
     in set_st (ex_psone (k_psub K s4) v) v)"

definition ex_cmd :: "'o exk \<Rightarrow> 'o exev \<Rightarrow> cmd \<Rightarrow> 'o exs \<Rightarrow> ('o exs \<times> int) option" where
  "ex_cmd K ev n s =
    tr_debug K ev (s\<lparr>e_nofork := False, e_ln := c_ln n\<rparr>) (c_tx n) \<bind> (\<lambda>s1.
      let (s2, avm) = k_argv K s1 (c_w n); ac = (avm \<noteq> []);
          (s3, asg, old, bad, o3) = ex_prep1 K n ac s2;
          v0 = (if \<not> ac \<and> bad then if est s3 \<noteq> 0 then est s3 else HIBR_FAIL else 0);
          (s4, o4) = (case o3 of Some v \<Rightarrow> (s3, Some v) | None \<Rightarrow> ex_prep2 K n ac s3);
          (s5, o5) = (case o4 of Some v \<Rightarrow> (s4, Some v) | None \<Rightarrow> ex_xerr s4)
      in (case o5 of
            Some v \<Rightarrow> Some (s5, v)
          | None \<Rightarrow>
              if \<not> ac then Some (ex_empty K n (e_ncap s) bad v0 s5)
              else ex_run K ev n avm asg (e_nofork s) s5) \<bind> (\<lambda>(s6, v). Some (ex_out K n old s6 v)))"


subsection \<open>Loops, cases, children\<close>

text \<open>After a loop's body: what is left of a \<open>break\<close> or \<open>continue\<close>, and whether to go round again.\<close>

definition after_body :: "'o exs \<Rightarrow> 'o exs \<times> bool" where
  "after_body s =
    (if e_brk s > 0 then (s\<lparr>e_brk := e_brk s - 1\<rparr>, False)
     else
       let s1 = (if e_cont s > 0 then s\<lparr>e_cont := e_cont s - 1\<rparr> else s)
       in (s1, e_cont s1 = 0 \<and> \<not> ended s1))"

definition ex_loop :: "'o exev \<Rightarrow> bool \<Rightarrow> node \<Rightarrow> node \<Rightarrow> int \<Rightarrow> 'o exs \<Rightarrow> ('o exs \<times> int) option" where
  "ex_loop ev until c b v s =
    (if ended s then ret_st s v
     else ev (XNode c) (s\<lparr>e_tst := True\<rparr>) \<bind> (\<lambda>(s1, cv).
       let s2 = s1\<lparr>e_tst := False\<rparr> in
       if ended s2 then ret_st s2 cv
       else if (if until then cv = 0 else cv \<noteq> 0) then ret_st s2 v
       else ev (XNode b) s2 \<bind> (\<lambda>(s3, v3).
         let (s4, go) = after_body s3 in if go then ev (XLoop until c b v3) s4 else ret_st s4 v3)))"

fun ex_for :: "'o exk \<Rightarrow> 'o exev \<Rightarrow> string \<Rightarrow> node \<Rightarrow> string list \<Rightarrow> int \<Rightarrow> 'o exs \<Rightarrow> ('o exs \<times> int) option" where
  "ex_for K ev nm b [] v s = ret_st s v"
| "ex_for K ev nm b (w # ws) v s =
    (let (h, rc) = v_assign (k_eval K) (e_sh s) nm w False True; s1 = s\<lparr>e_sh := h\<rparr> in
     if rc \<noteq> HIBR_OK then ret_st (on_sh (\<lambda>h. h\<lparr>srefuse := False\<rparr>) s1) 1
     else ev (XNode b) s1 \<bind> (\<lambda>(s2, v2).
       let (s3, go) = after_body s2 in if go then ex_for K ev nm b ws v2 s3 else ret_st s3 v2))"

text \<open>The words of a \<open>for\<close> or \<open>select\<close>: a list, or the positional parameters.\<close>

fun for_words :: "'o exk \<Rightarrow> wd list \<Rightarrow> 'o exs \<Rightarrow> 'o exs \<times> string list" where
  "for_words K [] s = (s, [])"
| "for_words K (w # ws) s = (let (s1, a) = k_words K s w; (s2, b) = for_words K ws s1 in (s2, a @ b))"

definition loop_words :: "'o exk \<Rightarrow> wd list option \<Rightarrow> 'o exs \<Rightarrow> 'o exs \<times> string list" where
  "loop_words K ws s = (case ws of Some l \<Rightarrow> for_words K l s | None \<Rightarrow> (s, e_av s))"

text \<open>The condition of a C-style loop is read as an \<open>int\<close>, the low half of its value.\<close>

definition ex_cfor :: "'o exk \<Rightarrow> 'o exev \<Rightarrow> part option \<Rightarrow> part option \<Rightarrow> node \<Rightarrow> int \<Rightarrow> 'o exs \<Rightarrow> ('o exs \<times> int) option" where
  "ex_cfor K ev c step b v s =
    (if ended s then ret_st s v
     else
       let tested = (case c of Some p \<Rightarrow> dropWhile axsp (pt p) \<noteq> [] | None \<Rightarrow> False);
           (s1, n) = (if tested then k_text K s (the c) else (s, 1))
       in if tested \<and> e_xerr s1 \<noteq> 0 then ret_st (s1\<lparr>e_xerr := 0\<rparr>) HIBR_FAIL
          else if (ucast n :: 32 word) = 0 then ret_st s1 v
          else ev (XNode b) s1 \<bind> (\<lambda>(s2, v2).
            let (s3, go) = after_body s2 in
            if \<not> go then ret_st s3 v2
            else ev (XCfor c step b v2) (case step of Some p \<Rightarrow> if pt p \<noteq> [] then fst (k_text K s3 p) else s3 | None \<Rightarrow> s3)))"

definition ex_select :: "'o exk \<Rightarrow> 'o exev \<Rightarrow> string \<Rightarrow> string list \<Rightarrow> node \<Rightarrow> bool \<Rightarrow> 'o exs \<Rightarrow> ('o exs \<times> int) option" where
  "ex_select K ev nm ws b menu s =
    (case k_menu K s menu ws of
       (s1, None) \<Rightarrow> ret_st s1 HIBR_FAIL
     | (s1, Some line) \<Rightarrow>
         let s2 = on_sh (\<lambda>h. fst (hibr_set (k_eval K) h ''REPLY'' line False)) s1 in
         if line = [] then ev (XSelect nm ws b True) s2
         else
           let k = atol line; w = (if 1 \<le> k \<and> k \<le> int (length ws) then ws ! (nat k - 1) else []);
               s3 = on_sh (\<lambda>h. fst (v_assign (k_eval K) h nm w False True)) s2
           in ev (XNode b) s3 \<bind> (\<lambda>(s4, v).
             let (s5, go) = after_body s4 in if go then ev (XSelect nm ws b False) s5 else ret_st s5 v))"

fun case_match :: "'o exk \<Rightarrow> wd list \<Rightarrow> string \<Rightarrow> 'o exs \<Rightarrow> 'o exs \<times> bool" where
  "case_match K [] sub s = (s, False)"
| "case_match K (w # ws) sub s = (let (s1, p) = k_pat K s w in if k_match K s1 p sub then (s1, True) else case_match K ws sub s1)"

text \<open>\<open>;&\<close> (1) runs the next clause too, \<open>;;&\<close> (2) goes on testing.\<close>

fun ex_clauses :: "'o exk \<Rightarrow> 'o exev \<Rightarrow> string \<Rightarrow> bool \<Rightarrow> int \<Rightarrow> (wd list \<times> nat \<times> node) list \<Rightarrow> 'o exs \<Rightarrow> ('o exs \<times> int) option" where
  "ex_clauses K ev sub hit v [] s = ret_st s v"
| "ex_clauses K ev sub hit v ((ws, f, b) # cs) s =
    (let (s1, hit1) = (if hit then (s, True) else case_match K ws sub s) in
     if \<not> hit1 then ex_clauses K ev sub False v cs s1
     else ev (XNode b) s1 \<bind> (\<lambda>(s2, v2).
       if f = 1 then ex_clauses K ev sub True v2 cs s2
       else if f = 2 then ex_clauses K ev sub False v2 cs s2
       else ret_st s2 v2))"

text \<open>A subshell: the child runs in a copy, and only what it did outside the process is left.\<close>

definition ex_sub :: "'o exk \<Rightarrow> 'o exev \<Rightarrow> bool \<Rightarrow> redir list \<Rightarrow> node \<Rightarrow> 'o exs \<Rightarrow> ('o exs \<times> int) option" where
  "ex_sub K ev t rd body s =
    (if \<not> k_fork K s then ret_st s HIBR_FAIL
     else
       let c = k_child K s; (c1, sv, ok) = k_rd K False (c\<lparr>e_it := False, e_errx := (if e_errx c \<noteq> 0 then 2 else 0), e_loops := 0\<rparr>) rd in
       (if \<not> ok then Some (c1, HIBR_FAIL)
        else ev (XNode body) (c1\<lparr>e_tst := t, e_nofork := (case body of NCmd n \<Rightarrow> \<not> c_bound n \<or> e_nofork c1 | _ \<Rightarrow> e_nofork c1)\<rparr>)
          \<bind> (\<lambda>(c2, w). Some (k_exit K c2, w))) \<bind> (\<lambda>(c3, w).
       ret_st (k_join K s c3) (w mod 256)))"

fun pflat :: "node \<Rightarrow> node list" where
  "pflat (NPipe ln tx l r) = pflat l @ pflat r"
| "pflat n = [n]"

definition ps_all :: "'o exs \<Rightarrow> int list \<Rightarrow> 'o exs" where
  "ps_all s vs = foldl (\<lambda>s i. ex_psat s i (length vs) (vs ! i)) s [0..<length vs]"

text \<open>A pipeline's status is its last stage's; \<open>e_pfs\<close> is the first failure among them.\<close>

definition ex_pipe :: "'o exk \<Rightarrow> bool \<Rightarrow> string \<Rightarrow> node \<Rightarrow> 'o exs \<Rightarrow> ('o exs \<times> int) option" where
  "ex_pipe K t tx n s =
    (let (s1, vs, jb, tmo) = k_pipe K s t tx (pflat n); s2 = ps_all s1 vs in
     case jb of
       Some rc \<Rightarrow> ret_st s2 rc
     | None \<Rightarrow>
         let fs = (case find (\<lambda>v. v \<noteq> 0) vs of Some v \<Rightarrow> v | None \<Rightarrow> 0); rc = (if vs = [] then 0 else last vs)
         in if tmo then ret_st (s2\<lparr>e_pfs := 124\<rparr>) 124 else ret_st (s2\<lparr>e_pfs := fs\<rparr>) rc)"

definition ex_bg :: "'o exk \<Rightarrow> string \<Rightarrow> node \<Rightarrow> 'o exs \<Rightarrow> ('o exs \<times> int) option" where
  "ex_bg K tx n s =
    (case k_bg K s tx n of
       (s1, None) \<Rightarrow> ret_st s1 HIBR_FAIL
     | (s1, Some pid) \<Rightarrow> ret_st (on_sh (\<lambda>h. fst (hibr_set (k_eval K) h ''!'' (xnum pid) False)) s1) 0)"

definition ex_time :: "'o exk \<Rightarrow> 'o exev \<Rightarrow> bool \<Rightarrow> bool \<Rightarrow> node \<Rightarrow> 'o exs \<Rightarrow> ('o exs \<times> int) option" where
  "ex_time K ev t posix n s =
    (if n \<noteq> N0 then ev (XNode n) (s\<lparr>e_tst := t\<rparr>) else Some (s\<lparr>e_tst := t\<rparr>, 0)) \<bind> (\<lambda>(s1, v).
      ret_st (if e_ret s1 then s1 else k_time K s1 posix) v)"

subsection \<open>A node\<close>

text \<open>The list a sequence is, walked along its right spine.\<close>

fun seqs :: "node \<Rightarrow> node list" where
  "seqs (NSeq a r) = a # seqs r"
| "seqs n = [n]"

fun ex_seq :: "'o exev \<Rightarrow> bool \<Rightarrow> node list \<Rightarrow> 'o exs \<Rightarrow> ('o exs \<times> int) option" where
  "ex_seq ev t [] s = Some (s, est s)"
| "ex_seq ev t [n] s = ev (XNode n) s"
| "ex_seq ev t (n # m # ns) s = ev (XNode n) s \<bind> (\<lambda>(s1, _). ex_seq ev t (m # ns) (s1\<lparr>e_tst := t\<rparr>))"

text \<open>A body inside its redirections.\<close>

definition ex_rd :: "'o exk \<Rightarrow> redir list \<Rightarrow> nat \<Rightarrow> ('o exs \<Rightarrow> ('o exs \<times> int) option) \<Rightarrow> 'o exs \<Rightarrow> ('o exs \<times> int) option" where
  "ex_rd K rd ln body s =
    (let (s1, sv, ok) = k_rd K True (s\<lparr>e_ln := ln\<rparr>) rd in
     if \<not> ok then ret_st (k_undo K s1 sv) HIBR_FAIL
     else body s1 \<bind> (\<lambda>(s2, v). Some (k_undo K s2 sv, v)))"

definition ex_looped :: "('o exs \<Rightarrow> ('o exs \<times> int) option) \<Rightarrow> 'o exs \<Rightarrow> ('o exs \<times> int) option" where
  "ex_looped body s = body (s\<lparr>e_loops := e_loops s + 1\<rparr>) \<bind> (\<lambda>(s1, v). Some (s1\<lparr>e_loops := e_loops s1 - 1\<rparr>, v))"

definition ex_kind :: "'o exk \<Rightarrow> 'o exev \<Rightarrow> bool \<Rightarrow> node \<Rightarrow> 'o exs \<Rightarrow> ('o exs \<times> int) option" where
  "ex_kind K ev t n s =
    (case n of
       N0 \<Rightarrow> Some (s, est s)
     | NCmd c \<Rightarrow> ex_cmd K ev c s \<bind> (\<lambda>(s1, v). ex_chk ev s1 v t)
     | NSeq a r \<Rightarrow> ex_seq ev t (seqs n) s
     | NAnd l r \<Rightarrow> ev (XNode l) (s\<lparr>e_tst := True\<rparr>) \<bind> (\<lambda>(s1, v). if v \<noteq> 0 then Some (s1, v) else ev (XNode r) (s1\<lparr>e_tst := t\<rparr>))
     | NOr l r \<Rightarrow> ev (XNode l) (s\<lparr>e_tst := True\<rparr>) \<bind> (\<lambda>(s1, v). if v = 0 then Some (s1, v) else ev (XNode r) (s1\<lparr>e_tst := t\<rparr>))
     | NNot l \<Rightarrow> ev (XNode l) (s\<lparr>e_tst := True\<rparr>) \<bind> (\<lambda>(s1, v). ret_st s1 (if ended s1 then v else if v \<noteq> 0 then 0 else 1))
     | NPipe ln tx l r \<Rightarrow> ex_pipe K t tx n (s\<lparr>e_ln := ln\<rparr>) \<bind> (\<lambda>(s1, v).
         ex_chk ev s1 (if v \<noteq> 0 then v else e_pfs s1) t \<bind> (\<lambda>(s2, _). Some (s2, v)))
     | NBg tx l \<Rightarrow> ex_bg K tx l s
     | NSub ln rd l \<Rightarrow> ex_sub K ev t rd l (s\<lparr>e_ln := ln\<rparr>) \<bind> (\<lambda>(s1, v). ex_chk ev (ex_psone s1 v) v t)
     | NGrp ln rd l \<Rightarrow> ex_rd K rd ln (ev (XNode l)) s
     | NIf ln rd c a b \<Rightarrow>
         ex_rd K rd ln (\<lambda>s. ev (XNode c) (s\<lparr>e_tst := True\<rparr>) \<bind> (\<lambda>(s1, v).
           let s2 = s1\<lparr>e_tst := t\<rparr> in
           if ended s2 then Some (s2, v)
           else if v = 0 then ev (XNode a) s2
           else if b \<noteq> N0 then ev (XNode b) s2 else Some (s2, 0))) s \<bind> (\<lambda>(s3, v). ret_st s3 v)
     | NLoop until ln rd c b \<Rightarrow> ex_rd K rd ln (ex_looped (ev (XLoop until c b 0))) s
     | NFor ln rd nm ws b \<Rightarrow> ex_rd K rd ln (ex_looped (\<lambda>s. let (s1, l) = loop_words K ws s in ex_for K ev nm b l 0 s1)) s
     | NSelect ln rd nm ws b \<Rightarrow> ex_rd K rd ln (ex_looped (\<lambda>s. let (s1, l) = loop_words K ws s in
         if l = [] then ret_st s1 0 else ev (XSelect nm l b True) s1)) s
     | NCfor ln rd i c step b \<Rightarrow> ex_rd K rd ln (ex_looped (\<lambda>s.
         ev (XCfor c step b 0) (case i of Some p \<Rightarrow> if pt p \<noteq> [] then fst (k_text K s p) else s | None \<Rightarrow> s))) s
     | NCase ln rd w cs \<Rightarrow> ex_rd K rd ln (\<lambda>s. let (s1, sub) = k_one K s w in ex_clauses K ev sub False 0 cs s1) s
     | NArith ln rd p \<Rightarrow>
         (let (s1, sv, ok) = k_rd K True (s\<lparr>e_ln := ln\<rparr>) rd in
          if \<not> ok then ret_st (k_undo K s1 sv) HIBR_FAIL
          else
            let (s2, v) = k_text K s1 p; s3 = k_undo K s2 sv; rc = (if e_xerr s3 \<noteq> 0 then HIBR_FAIL else if v \<noteq> 0 then 0 else 1)
            in ret_st (ex_psone (s3\<lparr>e_xerr := 0\<rparr>) rc) rc)
     | NCond ln rd ws \<Rightarrow>
         (let (s1, sv, ok) = k_rd K True (s\<lparr>e_ln := ln\<rparr>) rd in
          if \<not> ok then ret_st (k_undo K s1 sv) HIBR_FAIL
          else let (s2, v) = k_cond K s1 ws in ex_chk ev (ex_psone (k_undo K s2 sv) v) v t)
     | NFunc f \<Rightarrow>
         (let (tb, rc) = fn_add (fn_nm f \<in> set (e_ros s)) (has (sfl (e_sh s)) SF_FN) (e_src s) (e_fns s) (fn_nm f) f
          in ret_st (s\<lparr>e_fns := tb\<rparr>) rc)
     | NTime ln posix l \<Rightarrow> ex_time K ev t posix l (s\<lparr>e_ln := ln\<rparr>))"

text \<open>Nothing runs while something is being left; the traps that are due run first, and whether the status is
  tested is the caller's to say for this node alone.\<close>

definition ex_node :: "'o exk \<Rightarrow> 'o exev \<Rightarrow> node \<Rightarrow> 'o exs \<Rightarrow> ('o exs \<times> int) option" where
  "ex_node K ev n s =
    (if n = N0 \<or> leaving s then Some (s, est s)
     else tr_run K ev s \<bind> (\<lambda>s1.
       if e_quit s1 \<or> e_stop s1 then Some (s1, est s1) else ex_kind K ev (e_tst s1) n (s1\<lparr>e_tst := False\<rparr>)))"

definition ex_call :: "'o exk \<Rightarrow> 'o exev \<Rightarrow> 'o exev" where
  "ex_call K ev c =
    (case c of
       XNode n \<Rightarrow> ex_node K ev n
     | XLoop until c b v \<Rightarrow> ex_loop ev until c b v
     | XCfor c step b v \<Rightarrow> ex_cfor K ev c step b v
     | XSelect nm ws b menu \<Rightarrow> ex_select K ev nm ws b menu
     | XLines t \<Rightarrow> sh_lines K ev t)"

primrec ex_ev :: "'o exk \<Rightarrow> nat \<Rightarrow> 'o exev" where
  "ex_ev K 0 = (\<lambda>c s. None)"
| "ex_ev K (Suc f) = ex_call K (ex_ev K f)"

definition ex :: "'o exk \<Rightarrow> nat \<Rightarrow> node \<Rightarrow> 'o exs \<Rightarrow> ('o exs \<times> int) option" where
  "ex K f n = ex_ev K f (XNode n)"

text \<open>A whole script.\<close>

definition run_text :: "'o exk \<Rightarrow> nat \<Rightarrow> string \<Rightarrow> 'o exs \<Rightarrow> ('o exs \<times> int) option" where
  "run_text K f t s = hibr_run (ex_ev K f) s t"

end
