(* ===== verification/ExecLaws.thy ===== *)
theory ExecLaws
  imports Exec
begin

text \<open>
  What holds of the executor of Exec whatever the callees it is given: more fuel never changes a
  result, what the shell nests (loops, functions, sourced files, aliases, tries) is as deep after a
  node as before it however the node was left, and what a pending exit, a test of a status and a
  function mean.
\<close>

subsection \<open>Fuel\<close>

definition xle :: "'a option \<Rightarrow> 'a option \<Rightarrow> bool" where
  "xle a b \<longleftrightarrow> a = None \<or> a = b"

named_theorems xle_intros \<open>the executor is monotone in its calls\<close>

lemma xle_basic [xle_intros]:
  "xle a a"
  "(P \<Longrightarrow> xle a a') \<Longrightarrow> (\<not> P \<Longrightarrow> xle b b') \<Longrightarrow> xle (if P then a else b) (if P then a' else b')"
  by (simp_all add: xle_def)

lemma xle_bind [xle_intros]: "xle a b \<Longrightarrow> (\<And>x. xle (f x) (g x)) \<Longrightarrow> xle (a \<bind> f) (b \<bind> g)"
  by (cases a; cases b) (auto simp: xle_def)

lemma xle_case [xle_intros]:
  "xle a a' \<Longrightarrow> (\<And>x. xle (F x) (F' x)) \<Longrightarrow> xle (case q of None \<Rightarrow> a | Some x \<Rightarrow> F x) (case q of None \<Rightarrow> a' | Some x \<Rightarrow> F' x)"
  "(\<And>x y. xle (H x y) (H' x y)) \<Longrightarrow> xle (case r of (x, y) \<Rightarrow> H x y) (case r of (x, y) \<Rightarrow> H' x y)"
  "xle b b' \<Longrightarrow> xle c c' \<Longrightarrow> xle (case t of True \<Rightarrow> b | False \<Rightarrow> c) (case t of True \<Rightarrow> b' | False \<Rightarrow> c')"
  "(\<And>x. xle (D x) (D' x)) \<Longrightarrow> (\<And>x. xle (E x) (E' x)) \<Longrightarrow> xle e e' \<Longrightarrow>
    xle (case u of TBuiltin x \<Rightarrow> D x | TPath x \<Rightarrow> E x | TNone \<Rightarrow> e) (case u of TBuiltin x \<Rightarrow> D' x | TPath x \<Rightarrow> E' x | TNone \<Rightarrow> e')"
  by (simp_all add: xle_def split: option.split prod.split bool.split target.split)

lemma xle_pline [xle_intros]:
  "xle a a' \<Longrightarrow> xle b b' \<Longrightarrow> xle c c' \<Longrightarrow> (\<And>n r e. xle (D n r e) (D' n r e)) \<Longrightarrow>
    xle (case l of PEnd \<Rightarrow> a | PMore \<Rightarrow> b | PErr \<Rightarrow> c | PLine n r e \<Rightarrow> D n r e)
      (case l of PEnd \<Rightarrow> a' | PMore \<Rightarrow> b' | PErr \<Rightarrow> c' | PLine n r e \<Rightarrow> D' n r e)"
  by (cases l) simp_all

locale more_fuel =
  fixes ev ev' :: "'o exev"
  assumes ev [xle_intros]: "xle (ev c s) (ev' c s)"
begin

lemma run_le [xle_intros]: "xle (hibr_run ev s t) (hibr_run ev' s t)"
  unfolding hibr_run_def by (intro xle_intros)

lemma err_le [xle_intros]: "xle (tr_err ev s v) (tr_err ev' s v)"
  unfolding tr_err_def Let_def by (intro xle_intros)

lemma traps_le [xle_intros]: "xle (tr_debug K ev s t) (tr_debug K ev' s t)" "xle (tr_return ev s) (tr_return ev' s)"
  unfolding tr_debug_def tr_return_def by (intro xle_intros)+

lemma runs_le [xle_intros]: "xle (tr_runs ev ost cs s) (tr_runs ev' ost cs s)"
  by (induction cs arbitrary: s) (simp_all add: Let_def xle_intros)

lemma sig_le [xle_intros]: "xle (tr_run K ev s) (tr_run K ev' s)"
  unfolding tr_run_def by (intro xle_intros)

lemma chk_le [xle_intros]: "xle (ex_chk ev s v t) (ex_chk ev' s v t)"
  unfolding ex_chk_def by (intro xle_intros)

lemma done_le [xle_intros]: "xle (fn_done ev rd s v) (fn_done ev' rd s v)"
  unfolding fn_done_def Let_def by (intro xle_intros)

lemma fn_le [xle_intros]: "xle (fn_call K ev f av s) (fn_call K ev' f av s)"
  unfolding fn_call_def Let_def by (intro xle_intros)

lemma text_le [xle_intros]:
  "xle (b_eval K ev av s) (b_eval K ev' av s)" "xle (b_try K ev av s) (b_try K ev' av s)" "xle (al_run ev s b avm) (al_run ev' s b avm)"
  unfolding b_eval_def b_try_def al_run_def Let_def by (intro xle_intros)+

lemma builtin_le [xle_intros]: "(\<And>av s. xle (b av s) (b' av s)) \<Longrightarrow> xle (ex_builtin K b n avm s) (ex_builtin K b' n avm s)"
  unfolding ex_builtin_def Let_def by (intro xle_intros)

lemma find_le:
  "bi_find K ev s nm = None \<longleftrightarrow> bi_find K ev' s nm = None"
  "bi_find K ev s nm = Some b \<Longrightarrow> bi_find K ev' s nm = Some b' \<Longrightarrow> xle (b av t) (b' av t)"
  unfolding bi_find_def Let_def by (auto simp: xle_intros split: if_splits)

lemma missing_le [xle_intros]: "xle (ex_missing K ev n av s) (ex_missing K ev' n av s)"
  unfolding ex_missing_def Let_def by (intro xle_intros)

lemma fnrun_le [xle_intros]: "xle (ex_fnrun K ev n f av s) (ex_fnrun K ev' n f av s)"
  unfolding ex_fnrun_def with_rd_def Let_def by (intro xle_intros)

lemma birun_le [xle_intros]: "(\<And>av s. xle (b av s) (b' av s)) \<Longrightarrow> xle (ex_birun K b n avm s) (ex_birun K b' n avm s)"
  unfolding ex_birun_def with_rd_def Let_def by (intro xle_intros)

lemma found_le [xle_intros]: "xle (ex_found K ev n avm asg nf r) (ex_found K ev' n avm asg nf r)"
  unfolding ex_found_def with_rd_def Let_def by (intro xle_intros)

lemma find_case_le [xle_intros]:
  assumes "xle a a'" "\<And>b b'. (\<And>av s. xle (b av s) (b' av s)) \<Longrightarrow> xle (F b) (F' b')"
  shows "xle (case bi_find K ev s nm of None \<Rightarrow> a | Some b \<Rightarrow> F b) (case bi_find K ev' s nm of None \<Rightarrow> a' | Some b \<Rightarrow> F' b)"
  using find_le [of K s nm] assms by (cases "bi_find K ev s nm"; cases "bi_find K ev' s nm") auto

lemma cmd_le [xle_intros]: "xle (ex_cmd K ev n s) (ex_cmd K ev' n s)"
  unfolding ex_cmd_def ex_run_def with_rd_def Let_def
  by (intro xle_intros; assumption)

lemma for_le [xle_intros]: "xle (ex_for K ev nm b ws v s) (ex_for K ev' nm b ws v s)"
proof (induction ws arbitrary: v s)
  case (Cons w ws)
  show ?case unfolding ex_for.simps Let_def by (intro xle_intros Cons)
qed (simp add: xle_intros)

lemma clauses_le [xle_intros]: "xle (ex_clauses K ev sub hit v cs s) (ex_clauses K ev' sub hit v cs s)"
proof (induction cs arbitrary: hit v s)
  case (Cons c cs)
  obtain ws f b where c: "c = (ws, f, b)" by (rule prod_cases3)
  show ?case unfolding c ex_clauses.simps Let_def by (intro xle_intros Cons)
qed (simp add: xle_intros)

lemma seq_le [xle_intros]: "xle (ex_seq ev t ns s) (ex_seq ev' t ns s)"
proof (induction ns arbitrary: s)
  case (Cons n ns)
  show ?case
  proof (cases ns)
    case Nil
    show ?thesis unfolding Nil ex_seq.simps by (rule ev)
  next
    case (Cons m ms)
    show ?thesis unfolding Cons ex_seq.simps by (intro xle_intros Cons.IH [unfolded Cons])
  qed
qed (simp add: xle_intros)

lemma sub_le [xle_intros]: "xle (ex_sub K ev t rd b s) (ex_sub K ev' t rd b s)"
  unfolding ex_sub_def Let_def by (intro xle_intros)

lemma time_le [xle_intros]: "xle (ex_time K ev t p n s) (ex_time K ev' t p n s)"
  unfolding ex_time_def by (intro xle_intros)

lemma in_le [xle_intros]: "(\<And>s. xle (b s) (b' s)) \<Longrightarrow> xle (ex_rd K rd ln b s) (ex_rd K rd ln b' s)"
  "(\<And>s. xle (b s) (b' s)) \<Longrightarrow> xle (ex_looped b s) (ex_looped b' s)"
  unfolding ex_rd_def ex_looped_def Let_def by (intro xle_intros; assumption)+

lemma kind_le [xle_intros]: "xle (ex_kind K ev t n s) (ex_kind K ev' t n s)"
  unfolding ex_kind_def Let_def by (cases n) (simp_all only: node.case, (intro xle_intros)+)

lemma call_le: "xle (ex_call K ev c s) (ex_call K ev' c s)"
  unfolding ex_call_def ex_node_def ex_loop_def ex_cfor_def ex_select_def sh_lines_def Let_def
  by (cases c) (simp_all only: xcall.case, (intro xle_intros)+)

end

lemma ev_le: "xle (ex_ev K f c s) (ex_ev K (Suc f) c s)"
proof (induction f arbitrary: c s)
  case (Suc f)
  then have "more_fuel (ex_ev K f) (ex_ev K (Suc f))" by unfold_locales
  from more_fuel.call_le [OF this, of K c s] show ?case by simp
qed (simp add: xle_def)

interpretation fuel: more_fuel "ex_ev K f" "ex_ev K (Suc f)" for K f
  by unfold_locales (rule ev_le)

lemma ev_more: "ex_ev K f c s = Some r \<Longrightarrow> ex_ev K (f + n) c s = Some r"
proof (induction n)
  case (Suc n)
  with ev_le [of K "f + n" c s] show ?case by (simp add: xle_def del: ex_ev.simps)
qed simp

lemma ev_le_of: "f \<le> g \<Longrightarrow> ex_ev K f c s = Some r \<Longrightarrow> ex_ev K g c s = Some r"
  using ev_more [of K f c s r "g - f"] by simp


subsection \<open>What the callees keep\<close>

text \<open>Every callee that is an argument relates the state it is given to the one it returns.\<close>

definition ops_keep :: "('o exs \<Rightarrow> 'o exs \<Rightarrow> bool) \<Rightarrow> 'o exk \<Rightarrow> bool" where
  "ops_keep P K \<longleftrightarrow>
    (\<forall>s. P s (fst (k_pend K s))) \<and>
    (\<forall>s ws. P s (fst (k_argv K s ws))) \<and>
    (\<forall>s w. P s (fst (k_asg K s w))) \<and>
    (\<forall>s w. P s (fst (k_one K s w))) \<and>
    (\<forall>s w. P s (fst (k_oneq K s w))) \<and>
    (\<forall>s w. P s (fst (k_words K s w))) \<and>
    (\<forall>s w. P s (fst (k_pat K s w))) \<and>
    (\<forall>s p. P s (fst (k_text K s p))) \<and>
    (\<forall>s t. P s (fst (k_ax K s t))) \<and>
    (\<forall>s n t. P s (fst (k_key K s n t))) \<and>
    (\<forall>s t mk. P s (fst (k_keys K s t mk))) \<and>
    (\<forall>s ws. P s (fst (k_cond K s ws))) \<and>
    (\<forall>b s rd. P s (fst (k_rd K b s rd))) \<and>
    (\<forall>s n. P s (fst (k_find K s n))) \<and>
    (\<forall>s p av env rd nf cap. P s (fst (k_prog K s p av env rd nf cap))) \<and>
    (\<forall>s t tx ns. P s (fst (k_pipe K s t tx ns))) \<and>
    (\<forall>s tx n. P s (fst (k_bg K s tx n))) \<and>
    (\<forall>s m ws. P s (fst (k_menu K s m ws))) \<and>
    (\<forall>s sv. P s (k_undo K s sv)) \<and>
    (\<forall>s c. P s (k_join K s c)) \<and>
    (\<forall>s. P s (k_reap K s)) \<and>
    (\<forall>s. P s (k_psub K s)) \<and>
    (\<forall>s p. P s (k_time K s p)) \<and>
    (\<forall>s n b av t. k_mod K s n = Some b \<longrightarrow> P t (fst (b av t))) \<and>
    (\<forall>s n b av t. k_bi K s n = Some b \<longrightarrow> P t (fst (b av t))) \<and>
    (\<forall>s n b av t. snd (k_find K s n) = TBuiltin b \<longrightarrow> P t (fst (b av t)))"

subsection \<open>What is nested\<close>

text \<open>How deep the loops, functions, texts and files are, whether in a \<open>try\<close>, and the file, the return type
  and the aliases being run.\<close>

definition bal :: "'o exs \<Rightarrow> nat \<times> nat \<times> nat \<times> nat \<times> bool \<times> bool \<times> string option \<times> string option \<times> string list" where
  "bal s = (e_loops s, e_dep s, e_run s, e_srcs s, e_try s, e_errkid s, e_src s, e_rty s, e_axp s)"

lemma bal_upd [simp]:
  "bal (s\<lparr>e_sh := x0\<rparr>) = bal s"
  "bal (s\<lparr>e_os := x1\<rparr>) = bal s"
  "bal (s\<lparr>e_tst := x2\<rparr>) = bal s"
  "bal (s\<lparr>e_quit := x3\<rparr>) = bal s"
  "bal (s\<lparr>e_stop := x4\<rparr>) = bal s"
  "bal (s\<lparr>e_ret := x5\<rparr>) = bal s"
  "bal (s\<lparr>e_brk := x6\<rparr>) = bal s"
  "bal (s\<lparr>e_cont := x7\<rparr>) = bal s"
  "bal (s\<lparr>e_errx := x8\<rparr>) = bal s"
  "bal (s\<lparr>e_it := x9\<rparr>) = bal s"
  "bal (s\<lparr>e_noexec := x10\<rparr>) = bal s"
  "bal (s\<lparr>e_xerr := x11\<rparr>) = bal s"
  "bal (s\<lparr>e_pfs := x12\<rparr>) = bal s"
  "bal (s\<lparr>e_ps := x13\<rparr>) = bal s"
  "bal (s\<lparr>e_pslive := x14\<rparr>) = bal s"
  "bal (s\<lparr>e_nofork := x15\<rparr>) = bal s"
  "bal (s\<lparr>e_abline := x16\<rparr>) = bal s"
  "bal (s\<lparr>e_retd := x17\<rparr>) = bal s"
  "bal (s\<lparr>e_lastret := x18\<rparr>) = bal s"
  "bal (s\<lparr>e_bind := x19\<rparr>) = bal s"
  "bal (s\<lparr>e_ncap := x20\<rparr>) = bal s"
  "bal (s\<lparr>e_fnnest := x21\<rparr>) = bal s"
  "bal (s\<lparr>e_av := x22\<rparr>) = bal s"
  "bal (s\<lparr>e_amask := x23\<rparr>) = bal s"
  "bal (s\<lparr>e_ln := x24\<rparr>) = bal s"
  "bal (s\<lparr>e_etrap := x25\<rparr>) = bal s"
  "bal (s\<lparr>e_dtrap := x26\<rparr>) = bal s"
  "bal (s\<lparr>e_rtrap := x27\<rparr>) = bal s"
  "bal (s\<lparr>e_fns := x28\<rparr>) = bal s"
  "bal (s\<lparr>e_ros := x29\<rparr>) = bal s"
  "bal (s\<lparr>e_als := x30\<rparr>) = bal s"
  "bal (s\<lparr>e_sf := x31\<rparr>) = bal s"
  "bal (s\<lparr>e_strictg := x32\<rparr>) = bal s"
  "bal (s\<lparr>e_strict := x33\<rparr>) = bal s"
  "bal (s\<lparr>e_retwarned := x34\<rparr>) = bal s"
  "bal (s\<lparr>e_noclob := x35\<rparr>) = bal s"
  "bal (s\<lparr>e_rdshut := x36\<rparr>) = bal s"
  by (simp_all add: bal_def)

lemma bal_st [simp]: "bal (with_st v s) = bal s" "bal (on_sh f s) = bal s"
  by (simp_all add: with_st_def on_sh_def)

text \<open>A result, if there is one, is in a state that deep.\<close>

definition okb :: "nat \<times> nat \<times> nat \<times> nat \<times> bool \<times> bool \<times> string option \<times> string option \<times> string list \<Rightarrow> ('o exs \<times> 'a) option \<Rightarrow> bool" where
  "okb b r \<longleftrightarrow> (\<forall>t v. r = Some (t, v) \<longrightarrow> bal t = b)"

definition okb1 :: "nat \<times> nat \<times> nat \<times> nat \<times> bool \<times> bool \<times> string option \<times> string option \<times> string list \<Rightarrow> 'o exs option \<Rightarrow> bool" where
  "okb1 b r \<longleftrightarrow> (\<forall>t. r = Some t \<longrightarrow> bal t = b)"

lemma okb_simps [simp]:
  "okb b (Some (t, v)) \<longleftrightarrow> bal t = b" "okb b None" "okb1 b (Some t) \<longleftrightarrow> bal t = b" "okb1 b None"
  by (auto simp: okb_def okb1_def)

lemma okb_ret [simp]: "okb b (ret_st t v) \<longleftrightarrow> bal t = b"
  by (simp add: ret_st_def)

lemma okb_Some: "okb b (Some p) \<longleftrightarrow> bal (fst p) = b"
  by (cases p) simp

lemma okb_bind: "okb c x \<Longrightarrow> (\<And>t v. bal t = c \<Longrightarrow> okb b (f (t, v))) \<Longrightarrow> okb b (x \<bind> f)"
proof (cases x)
  case (Some p)
  assume "okb c x" "\<And>t v. bal t = c \<Longrightarrow> okb b (f (t, v))"
  then show ?thesis using Some by (cases p) simp
qed simp

lemma okb1_bind: "okb1 c x \<Longrightarrow> (\<And>t. bal t = c \<Longrightarrow> okb b (f t)) \<Longrightarrow> okb b (x \<bind> f)"
  by (cases x) (simp_all add: okb_def okb1_def)

lemma okb_bind1: "okb c x \<Longrightarrow> (\<And>t v. bal t = c \<Longrightarrow> okb1 b (f (t, v))) \<Longrightarrow> okb1 b (x \<bind> f)"
  by (cases x) (auto simp: okb_def okb1_def)

abbreviation bops :: "'o exk \<Rightarrow> bool" where
  "bops K \<equiv> ops_keep (\<lambda>s t. bal t = bal s) K"

lemma bops_simps [simp]:
  assumes "bops K"
  shows "bal (fst (k_pend K s)) = bal s" "bal (fst (k_argv K s ws)) = bal s" "bal (fst (k_asg K s w)) = bal s"
    "bal (fst (k_one K s w)) = bal s" "bal (fst (k_oneq K s w)) = bal s" "bal (fst (k_words K s w)) = bal s"
    "bal (fst (k_pat K s w)) = bal s" "bal (fst (k_text K s p)) = bal s" "bal (fst (k_ax K s tx)) = bal s"
    "bal (fst (k_key K s n tx)) = bal s" "bal (fst (k_keys K s tx mk)) = bal s" "bal (fst (k_cond K s ws)) = bal s"
    "bal (fst (k_rd K q s rd)) = bal s" "bal (fst (k_find K s n)) = bal s"
    "bal (fst (k_prog K s n av envs rd nf cap)) = bal s" "bal (fst (k_pipe K s nf tx ns)) = bal s"
    "bal (fst (k_bg K s tx nd)) = bal s" "bal (fst (k_menu K s m wl)) = bal s"
    "bal (k_undo K s svs) = bal s" "bal (k_join K s c) = bal s" "bal (k_reap K s) = bal s" "bal (k_psub K s) = bal s"
    "bal (k_time K s q) = bal s"
  using assms by (simp_all add: ops_keep_def)

lemma bops_bi:
  assumes "bops K"
  shows "k_mod K s n = Some b \<Longrightarrow> bal (fst (b av t)) = bal t" "k_bi K s n = Some b \<Longrightarrow> bal (fst (b av t)) = bal t"
    "snd (k_find K s n) = TBuiltin b \<Longrightarrow> bal (fst (b av t)) = bal t"
  using assms unfolding ops_keep_def by blast+

subsection \<open>The operations that nest nothing\<close>

lemma bal_fst_if: "bal (fst (if b then p else q)) = (if b then bal (fst p) else bal (fst q))"
  by simp

lemma bal_ps [simp]: "bal (ex_psdrop s) = bal s" "bal (ex_psone s v) = bal s" "bal (ex_psat s i n v) = bal s" "bal (ex_psmake K s) = bal s"
  by (simp_all add: ex_psdrop_def ex_psone_def ex_psat_def ex_psmake_def Let_def)

lemma bal_asg_cat [simp]: "bops K \<Longrightarrow> bal (fst (asg_cat K s v old add)) = bal s"
  by (simp add: asg_cat_def Let_def case_prod_unfold split: option.split list.split)

lemma bal_asg_keys [simp]: "bops K \<Longrightarrow> bal (fst (asg_keys K s nm r p mk)) = bal s"
proof (induction "length r" arbitrary: s r p rule: less_induct)
  case less
  have "r \<noteq> [] \<Longrightarrow> bal (fst (asg_keys K s1 nm (tl (drop (Suc e) r)) q mk)) = bal s1" for s1 e q
    by (rule less.hyps) (auto simp: less.prems)
  then show ?case
    by (subst asg_keys.simps) (auto simp: Let_def case_prod_unfold less.prems split: option.split)
qed

lemma bal_ex_asg [simp]: "bops K \<Longrightarrow> bal (fst (ex_asg K s kv mk x)) = bal s"
  by (simp add: ex_asg_def Let_def case_prod_unfold split: option.split)

lemma bal_arr_elems [simp]: "bops K \<Longrightarrow> bal (fst (arr_elems K s ws)) = bal s"
  by (induction ws arbitrary: s) (simp_all add: Let_def case_prod_unfold)

lemma bal_ex_arrasg [simp]: "bops K \<Longrightarrow> bal (ex_arrasg K s f) = bal s"
  by (simp add: ex_arrasg_def Let_def case_prod_unfold)

lemma bal_ex_arrlate1 [simp]: "bops K \<Longrightarrow> bal (ex_arrlate1 K s d) = bal s"
  by (simp add: ex_arrlate1_def Let_def)

lemma bal_ex_arrlate [simp]: "bops K \<Longrightarrow> bal (ex_arrlate K s n) = bal s"
proof -
  assume K: "bops K"
  have "bal (foldl (ex_arrlate1 K) s l) = bal s" for l by (induction l arbitrary: s) (simp_all add: K)
  then show ?thesis by (simp add: ex_arrlate_def)
qed

lemma bal_ex_asgs [simp]: "bops K \<Longrightarrow> bal (fst (ex_asgs K ac ws r)) = bal (fst r)"
proof (induction ws arbitrary: r ac)
  case (Cons w ws)
  obtain s asg old bad where r: "r = (s, asg, old, bad)" by (cases r)
  show ?case using Cons by (simp add: r Let_def case_prod_unfold del: asg_push.simps)
qed simp

lemma bal_refuse [simp]: "bal (ex_refuse s) = bal s"
  by (simp add: ex_refuse_def Let_def)

lemma bal_deep [simp]: "bal (fst (ex_deep K s fn)) = bal s"
  by (simp add: ex_deep_def Let_def)

lemma bal_hide [simp]: "bal (fst (fr_hide s k)) = bal s"
  by (simp add: fr_hide_def Let_def case_prod_unfold)

lemma bal_bind1 [simp]: "bal (fst (fn_bind1 K s pm v)) = bal s"
  by (simp add: fn_bind1_def Let_def case_prod_unfold)

lemma bal_fn_bind [simp]: "bops K \<Longrightarrow> bal (fst (fn_bind K s pms av)) = bal s"
  by (induction pms arbitrary: s av) (auto simp: Let_def case_prod_unfold split: list.split option.split)

lemma bal_builtins [simp]:
  "bal (fst (bi_many s)) = bal s" "bal (fst (set_st s v)) = bal s" "bal (fst (bi_loops s av)) = bal s"
  "bal (fst (b_exit av s)) = bal s" "bal (fst (b_retf av s)) = bal s" "bal (fst (b_ret K av s)) = bal s"
  "bal (fst (b_shift av s)) = bal s" "bal (fst (b_fail K av s)) = bal s"
  by (simp_all add: bi_many_def set_st_def bi_loops_def b_exit_def b_retf_def b_ret_def b_shift_def b_fail_def Let_def
      split: list.split option.split)

lemma bal_loops [simp]: "bal (fst (b_brk av s)) = bal s" "bal (fst (b_cont av s)) = bal s"
  using bal_builtins(3) [of s av] by (cases "bi_loops s av"; auto simp: b_brk_def b_cont_def split: option.split nat.split)+

lemma bal_xerr [simp]: "bal (fst (ex_xerr s)) = bal s"
  by (simp add: ex_xerr_def Let_def)

lemma bal_cmd_parts [simp]:
  assumes "bops K"
  shows "bal (ex_bind K s n) = bal s" "bal (ex_retnone K s f v) = bal s" "bal (fst (ex_prog K n av asg nf path s)) = bal s"
    "bal (fst (ex_prep1 K n ac s)) = bal s" "bal (fst (ex_empty K n c0 bad v0 s)) = bal s"
    "bal (fst (ex_out K n old s v0)) = bal s"
  using assms
  by (simp_all add: ex_bind_def ex_retnone_def ex_prog_def ex_prep1_def ex_xerr_def ex_empty_def ex_out_def Let_def case_prod_unfold
      split: list.split option.split)

lemma bal_prep2 [simp]: "bops K \<Longrightarrow> bal (fst (ex_prep2 K n ac s)) = bal s"
proof -
  assume K: "bops K"
  have "bal (foldl (\<lambda>s f. if ar_late f then s else ex_arrasg K s f) s l) = bal s" for l s
    by (induction l arbitrary: s) (simp_all add: K)
  then show ?thesis by (simp add: ex_prep2_def Let_def)
qed

lemma bal_words [simp]: "bops K \<Longrightarrow> bal (fst (for_words K ws s)) = bal s" "bops K \<Longrightarrow> bal (fst (loop_words K wl s)) = bal s"
proof -
  have w: "bops K \<Longrightarrow> bal (fst (for_words K ws s)) = bal s" for ws s
    by (induction ws arbitrary: s) (simp_all add: Let_def case_prod_unfold)
  then show "bops K \<Longrightarrow> bal (fst (for_words K ws s)) = bal s" "bops K \<Longrightarrow> bal (fst (loop_words K wl s)) = bal s"
    by (simp_all add: loop_words_def split: option.split)
qed

lemma bal_case [simp]: "bops K \<Longrightarrow> bal (fst (case_match K ws sub s)) = bal s"
  by (induction ws arbitrary: s) (simp_all add: Let_def case_prod_unfold)

lemma bal_after [simp]: "bal (fst (after_body s)) = bal s"
  by (simp add: after_body_def Let_def)

lemma bal_ps_all [simp]: "bal (ps_all s vs) = bal s"
proof -
  have "bal (foldl (\<lambda>s i. ex_psat s i n (vs ! i)) s l) = bal s" for l s n by (induction l arbitrary: s) simp_all
  then show ?thesis by (simp add: ps_all_def)
qed

lemma bal_args [simp]: "bops K \<Longrightarrow> bal (fst (fn_args K f av s)) = bal s"
  by (simp add: fn_args_def Let_def case_prod_unfold)

subsection \<open>The executor comes back as deep as it went\<close>

lemma bal_eqI:
  "e_loops t = e_loops s \<Longrightarrow> e_dep t = e_dep s \<Longrightarrow> e_run t = e_run s \<Longrightarrow> e_srcs t = e_srcs s \<Longrightarrow> e_try t = e_try s \<Longrightarrow>
   e_errkid t = e_errkid s \<Longrightarrow> e_src t = e_src s \<Longrightarrow> e_rty t = e_rty s \<Longrightarrow> e_axp t = e_axp s \<Longrightarrow> bal t = bal s"
  by (simp add: bal_def)

lemma okb_if: "(q \<Longrightarrow> okb b x) \<Longrightarrow> (\<not> q \<Longrightarrow> okb b y) \<Longrightarrow> okb b (if q then x else y)"
  by simp

lemma okb_case:
  "okb b x \<Longrightarrow> (\<And>a. okb b (F a)) \<Longrightarrow> okb b (case q of None \<Rightarrow> x | Some a \<Rightarrow> F a)"
  "(okb b (H (fst r) (snd r))) \<Longrightarrow> okb b (case r of (c, d) \<Rightarrow> H c d)"
  by (simp_all add: case_prod_unfold split: option.split)

locale nests =
  fixes K :: "'o exk" and ev :: "'o exev"
  assumes ev: "bops K \<Longrightarrow> bal s = b \<Longrightarrow> okb b (ev c s)"
begin

lemma run_bal: "bops K \<Longrightarrow> bal s = b \<Longrightarrow> okb b (hibr_run ev s t)"
  unfolding hibr_run_def
  by (rule okb_bind, rule ev [OF _ refl]) (auto simp: bal_def)

lemma err_bal: "bops K \<Longrightarrow> bal s = b \<Longrightarrow> okb1 b (tr_err ev s v)"
  unfolding tr_err_def
  by (auto split: option.split intro!: okb_bind1 run_bal simp: Let_def)

lemma debug_bal: "bops K \<Longrightarrow> bal s = b \<Longrightarrow> okb1 b (tr_debug K ev s t)"
  unfolding tr_debug_def
  by (auto split: option.split intro!: okb_bind1 run_bal)

lemma return_bal: "bops K \<Longrightarrow> bal s = b \<Longrightarrow> okb1 b (tr_return ev s)"
  unfolding tr_return_def
  by (auto split: option.split intro!: okb_bind1 run_bal)

lemma runs_bal: "bops K \<Longrightarrow> bal s = b \<Longrightarrow> okb1 b (tr_runs ev ost cs s)"
proof (induction cs arbitrary: s)
  case (Cons c cs)
  then show ?case by (auto simp: Let_def intro!: okb_bind1 [OF run_bal [OF _ refl]])
qed simp

lemma sig_bal: "bops K \<Longrightarrow> bal s = b \<Longrightarrow> okb1 b (tr_run K ev s)"
  unfolding tr_run_def by (auto simp: case_prod_unfold intro!: runs_bal)

lemma chk_bal: "bops K \<Longrightarrow> bal s = b \<Longrightarrow> okb b (ex_chk ev s v t)"
  unfolding ex_chk_def
  by (rule okb1_bind [of b]) (auto intro: err_bal)

lemma leave_bal: "bal s = bal (fn_enter f av s0) \<Longrightarrow> bal (fn_leave K s0 s) = bal s0"
  by (simp add: fn_leave_def fn_enter_def Let_def sh_sfl_def on_sh_def bal_def split: if_splits)

lemma done_bal: "bops K \<Longrightarrow> bal s = b \<Longrightarrow> okb b (fn_done ev rd s v)"
  unfolding fn_done_def Let_def by (auto intro!: okb1_bind [of b] return_bal)

lemma fn_bal:
  assumes K: "bops K" and s: "bal s = b"
  shows "okb b (fn_call K ev f av s)"
proof (cases "ex_deep K s True")
  case (Pair s0 d)
  have s0: "bal s0 = b" using bal_deep [of K s True] s by (simp add: Pair)
  note body = okb_bind [of "bal (fn_enter f av s0)"]
  show ?thesis
    unfolding fn_call_def Pair Let_def case_prod_unfold
    by (cases d) (auto simp: s0 K leave_bal intro!: body ev [OF K] okb_bind [OF done_bal [OF K refl]])
qed

lemma eval_bal: "bops K \<Longrightarrow> bal s = b \<Longrightarrow> okb b (b_eval K ev av s)"
  using bal_deep [of K s False] unfolding b_eval_def
  by (cases "ex_deep K s False"; cases "snd (ex_deep K s False)") (auto simp: Let_def intro: run_bal)

lemma try_bal: "bops K \<Longrightarrow> bal s = b \<Longrightarrow> okb b (b_try K ev av s)"
  unfolding b_try_def Let_def
  by (rule okb_if, simp, rule okb_bind [OF run_bal [OF _ refl]], simp)
    (simp add: bal_def on_sh_def with_st_def)

lemma alias_bal: "bops K \<Longrightarrow> bal s = b \<Longrightarrow> okb b (al_run ev s t av)"
  unfolding al_run_def
  by (rule okb_bind [OF run_bal [OF _ refl]], simp) (auto simp: bal_def)

end

text \<open>A body that keeps the depth does so inside redirections, loops and builtins.\<close>

lemma rd_bal: "bops K \<Longrightarrow> bal s = b \<Longrightarrow> (\<And>s. bal s = b \<Longrightarrow> okb b (body s)) \<Longrightarrow> okb b (ex_rd K rd ln body s)"
  unfolding ex_rd_def Let_def case_prod_unfold
  by (rule okb_if) (auto intro!: okb_bind [of b])

lemma with_rd_bal: "bops K \<Longrightarrow> bal s = b \<Longrightarrow> (\<And>s. bal s = b \<Longrightarrow> okb b (body s)) \<Longrightarrow> okb b (with_rd K rd body s)"
  unfolding with_rd_def Let_def case_prod_unfold
  by (rule okb_bind [of b]) auto

lemma okb_pair:
  "(\<And>a x. r = (a, Some x) \<Longrightarrow> okb b (F a x)) \<Longrightarrow> (\<And>a. r = (a, None) \<Longrightarrow> okb b (G a)) \<Longrightarrow>
    okb b (case r of (a, None) \<Rightarrow> G a | (a, Some x) \<Rightarrow> F a x)"
  by (auto split: prod.split option.split)

lemma okb_opt: "okb b x \<Longrightarrow> (\<And>a. q = Some a \<Longrightarrow> okb b (F a)) \<Longrightarrow> okb b (case q of None \<Rightarrow> x | Some a \<Rightarrow> F a)"
  by (cases q) simp_all

lemma looped_bal:
  assumes "bal s = b" "\<And>s c. bal s = c \<Longrightarrow> okb c (body s)"
  shows "okb b (ex_looped body s)"
  unfolding ex_looped_def
  by (rule okb_bind [OF assms(2) [OF refl]]) (use assms(1) in \<open>auto simp: bal_def\<close>)

definition okf :: "(string list \<Rightarrow> 'o exs \<Rightarrow> ('o exs \<times> int) option) option \<Rightarrow> bool" where
  "okf r \<longleftrightarrow> (\<forall>b. r = Some b \<longrightarrow> (\<forall>av t. okb (bal t) (b av t)))"

lemma okf_if: "okf x \<Longrightarrow> okf y \<Longrightarrow> okf (if q then x else y)"
  by simp

lemma okf_at: "okf r \<Longrightarrow> r = Some b \<Longrightarrow> okf (Some b)"
  by simp

lemma okfD: "okf r \<Longrightarrow> r = Some b \<Longrightarrow> bal t = c \<Longrightarrow> okb c (b av t)"
  by (auto simp: okf_def)

context nests begin

lemma find_bal: "bops K \<Longrightarrow> okf (bi_find K ev s nm)"
  unfolding bi_find_def Let_def
  by (intro okf_if) (auto simp: okf_def eval_bal try_bal, auto simp: okb_Some bops_bi)

lemma builtin_bal:
  assumes K: "bops K" and s: "bal s = c" and b: "\<And>av t. bal t = c \<Longrightarrow> okb c (b av t)"
  shows "okb c (ex_builtin K b n avm s)"
  unfolding ex_builtin_def Let_def
  by (rule okb_bind [of c]) (auto simp: K s b)

lemma missing_bal: "bops K \<Longrightarrow> bal s = b \<Longrightarrow> okb b (ex_missing K ev n av s)"
  unfolding ex_missing_def
  by (auto simp: Let_def case_prod_unfold split: prod.split option.split intro!: fn_bal)

lemma fnrun_bal: "bops K \<Longrightarrow> bal s = b \<Longrightarrow> okb b (ex_fnrun K ev n f av s)"
  unfolding ex_fnrun_def by (rule with_rd_bal) (auto intro: okb_bind [OF fn_bal])

lemma birun_bal: "bops K \<Longrightarrow> okf (Some bf) \<Longrightarrow> bal s = b \<Longrightarrow> okb b (ex_birun K bf n avm s)"
  unfolding ex_birun_def Let_def case_prod_unfold
  by (rule okb_if) (auto intro!: with_rd_bal builtin_bal intro: okfD [of "Some bf" bf])

lemma found_bal: "bops K \<Longrightarrow> bal s = b \<Longrightarrow> okb b (ex_found K ev n avm asg nf (k_find K s nm))"
proof (cases "k_find K s nm")
  case (Pair t x)
  assume K: "bops K" and s: "bal s = b"
  have t: "bal t = b" using bops_simps(14) [OF K, of s nm] by (simp add: Pair s)
  have tb: "x = TBuiltin bf \<Longrightarrow> okf (Some (\<lambda>av s. Some (bf av s)))" for bf
    using bops_bi(3) [OF K, of s nm bf] by (simp add: Pair okf_def okb_Some)
  show ?thesis
    unfolding ex_found_def Pair prod.case
    by (cases x) (auto simp: okb_Some K t intro!: with_rd_bal builtin_bal missing_bal dest!: tb intro: okfD)
qed

lemma run_cmd_bal: "bops K \<Longrightarrow> bal s = b \<Longrightarrow> okb b (ex_run K ev n avm asg nf s)"
  unfolding ex_run_def Let_def
  by (intro okb_opt okb_pair) (auto intro!: with_rd_bal alias_bal fnrun_bal found_bal birun_bal intro: okf_at [OF find_bal])

lemma cmd_bal:
  assumes K: "bops K" and s: "bal s = b"
  shows "okb b (ex_cmd K ev n s)"
proof -
  have p1: "bal s1 = b \<Longrightarrow> bal (fst (case q of Some v \<Rightarrow> (s1, Some v) | None \<Rightarrow> ex_prep2 K n ac s1)) = b" for q s1 ac
    by (cases q) (simp_all add: K)
  have p2: "bal s1 = b \<Longrightarrow> bal (fst (case q of Some v \<Rightarrow> (s1, Some v) | None \<Rightarrow> ex_xerr s1)) = b" for q :: "int option" and s1
    by (cases q) simp_all
  have p3: "bal s1 = b \<Longrightarrow> okb b (case q of Some v \<Rightarrow> Some (s1, v) | None \<Rightarrow>
      if \<not> ac then Some (ex_empty K n c bad v0 s1) else ex_run K ev n avm asg nf s1)" for q s1 ac c bad v0 avm asg nf
    by (cases q) (auto simp: okb_Some K intro: run_cmd_bal)
  have p4: "okb b (case p of (s3, asg, old, bad, o3) \<Rightarrow> F s3 asg old bad o3)"
    if "bal (fst p) = b" "\<And>s3 asg old bad o3. bal s3 = b \<Longrightarrow> okb b (F s3 asg old bad o3)" for p F
    using that by (cases p) simp
  have p5: "bal s3 = b \<Longrightarrow> okb b (case case o3 of None \<Rightarrow> ex_prep2 K n ac s3 | Some v \<Rightarrow> (s3, Some v) of (s4, o4) \<Rightarrow>
      case case o4 of None \<Rightarrow> ex_xerr s4 | Some v \<Rightarrow> (s4, Some v) of (s5, o5) \<Rightarrow>
        (case o5 of None \<Rightarrow> if \<not> ac then Some (ex_empty K n c bad v0 s5) else ex_run K ev n avm asg nf s5 | Some v \<Rightarrow> Some (s5, v))
          \<bind> (\<lambda>(s6, v). Some (ex_out K n old s6 v)))" for s3 o3 ac c bad v0 avm asg nf old
    by (rule okb_case(2), rule okb_case(2), rule okb_bind [of b], rule p3, rule p2, erule p1) (simp add: okb_Some K)
  show ?thesis
    unfolding ex_cmd_def Let_def
    by (rule okb1_bind [OF debug_bal [OF K refl]], rule okb_case(2), rule p4) (simp add: s K, rule p5)
qed

lemma for_bal: "bops K \<Longrightarrow> bal s = b \<Longrightarrow> okb b (ex_for K ev nm n ws v s)"
proof (induction ws arbitrary: v s)
  case (Cons w ws)
  then show ?case
    by (auto simp: Let_def case_prod_unfold intro!: okb_bind [OF ev])
qed simp

lemma clauses_bal: "bops K \<Longrightarrow> bal s = b \<Longrightarrow> okb b (ex_clauses K ev sub hit v cs s)"
proof (induction cs arbitrary: hit v s)
  case (Cons c cs)
  obtain ws f n where c: "c = (ws, f, n)" by (rule prod_cases3)
  show ?case
    by (cases hit) (auto simp: c Let_def case_prod_unfold Cons intro!: okb_bind [OF ev])
qed simp

lemma seq_bal: "bops K \<Longrightarrow> bal s = b \<Longrightarrow> okb b (ex_seq ev t ns s)"
proof (induction ns arbitrary: s b)
  case (Cons n ns)
  show ?case
  proof (cases ns)
    case (Cons m ms)
    then show ?thesis
      using Cons.prems by (auto intro!: okb_bind [OF ev] Cons.IH [unfolded Cons])
  qed (simp add: ev Cons.prems)
qed simp

lemma sub_bal: "bops K \<Longrightarrow> bal s = b \<Longrightarrow> okb b (ex_sub K ev t rd n s)"
  unfolding ex_sub_def Let_def case_prod_unfold
  by (rule okb_if) (auto simp: okb_def ret_st_def split: bind_splits)

lemma pipe_bal: "bops K \<Longrightarrow> bal s = b \<Longrightarrow> okb b (ex_pipe K t tx n s)"
  unfolding ex_pipe_def Let_def case_prod_unfold by (auto split: option.split)

lemma bg_bal: "bops K \<Longrightarrow> bal s = b \<Longrightarrow> okb b (ex_bg K tx n s)"
  using bops_simps(17) [of K s tx n] unfolding ex_bg_def by (cases "k_bg K s tx n") (auto split: option.split)

lemma time_bal: "bops K \<Longrightarrow> bal s = b \<Longrightarrow> okb b (ex_time K ev t p n s)"
  unfolding ex_time_def by (rule okb_bind [of b]) (auto intro: ev)

end

context nests begin

lemma loop_bal: "bops K \<Longrightarrow> bal s = b \<Longrightarrow> okb b (ex_loop ev until c n v s)"
  unfolding ex_loop_def Let_def case_prod_unfold
  by (auto intro!: okb_bind [OF ev [OF _ refl]] ev)

lemma cfor_bal: "bops K \<Longrightarrow> bal s = b \<Longrightarrow> okb b (ex_cfor K ev c step n v s)"
  unfolding ex_cfor_def Let_def case_prod_unfold
  by (auto intro!: okb_bind [OF ev [OF _ refl]] ev split: option.split)

lemma select_bal: "bops K \<Longrightarrow> bal s = b \<Longrightarrow> okb b (ex_select K ev nm ws n menu s)"
proof (cases "k_menu K s menu ws")
  case (Pair t l)
  assume K: "bops K" and s: "bal s = b"
  have t: "bal t = b" using bops_simps(18) [OF K, of s menu ws] by (simp add: Pair s)
  show ?thesis
    unfolding ex_select_def Pair Let_def case_prod_unfold
    by (cases l) (auto simp: t intro!: okb_bind [OF ev [OF K refl]] ev [OF K])
qed

lemma lines_bal: "bops K \<Longrightarrow> bal s = b \<Longrightarrow> okb b (sh_lines K ev t s)"
  unfolding sh_lines_def Let_def case_prod_unfold
  by (cases "k_line K s t") (auto intro!: okb_bind [of b] ev)

lemma arith_bal: "bops K \<Longrightarrow> bal s = b \<Longrightarrow> okb b (ex_kind K ev t (NArith ln rd p) s)"
  "bops K \<Longrightarrow> bal s = b \<Longrightarrow> okb b (ex_kind K ev t (NCond ln rd ws) s)"
  by (auto simp: ex_kind_def Let_def case_prod_unfold intro!: chk_bal)

lemma loops_bal:
  assumes K: "bops K" and s: "bal s = b"
  shows "okb b (ex_kind K ev t (NLoop until ln rd c n) s)" "okb b (ex_kind K ev t (NFor ln rd nm ws n) s)"
    "okb b (ex_kind K ev t (NSelect ln rd nm ws n) s)" "okb b (ex_kind K ev t (NCfor ln rd i d e n) s)"
  unfolding ex_kind_def node.case Let_def case_prod_unfold
  by (rule rd_bal [OF K s], erule looped_bal, auto intro!: ev for_bal simp: K split: option.split)+

lemma kind_bal: "bops K \<Longrightarrow> bal s = b \<Longrightarrow> okb b (ex_kind K ev t n s)"
proof (cases n)
  case (NIf ln rd c x y)
  assume K: "bops K" and s: "bal s = b"
  show ?thesis unfolding ex_kind_def NIf node.case Let_def
    by (rule okb_bind [OF rd_bal [OF K s]]) (auto intro!: okb_bind [OF ev [OF K refl]] ev [OF K])
qed (auto simp: ex_kind_def Let_def case_prod_unfold simp del: seqs.simps
      intro!: arith_bal [unfolded ex_kind_def node.case Let_def case_prod_unfold]
        loops_bal [unfolded ex_kind_def node.case Let_def case_prod_unfold]
        okb_bind [OF cmd_bal] okb_bind [OF ev [OF _ refl]] okb_bind [OF pipe_bal] okb_bind [OF chk_bal] okb_bind [OF sub_bal]
        chk_bal seq_bal ev bg_bal time_bal rd_bal clauses_bal)

lemma call_bal: "bops K \<Longrightarrow> bal s = b \<Longrightarrow> okb b (ex_call K ev c s)"
  unfolding ex_call_def ex_node_def
  by (cases c) (auto intro!: okb1_bind [OF sig_bal] kind_bal loop_bal cfor_bal select_bal lines_bal)

end

lemma ev_bal: "bops K \<Longrightarrow> bal s = b \<Longrightarrow> okb b (ex_ev K f c s)"
proof (induction f arbitrary: c s b)
  case (Suc f)
  then have "nests K (ex_ev K f)" by unfold_locales
  from nests.call_bal [OF this Suc.prems] show ?case by simp
qed simp

interpretation nest: nests K "ex_ev K f" for K f
  by unfold_locales (rule ev_bal)


subsection \<open>Callees whose words are their text\<close>

definition lit :: "wd \<Rightarrow> string" where
  "lit w = concat (map pt w)"

text \<open>A shell with no expansion, no files, no processes and no other builtins, to run trees in.\<close>

definition plain_k :: "'o exk" where
  "plain_k =
    \<lparr>k_eval = \<lambda>h t. (h, 0), k_pend = \<lambda>s. (s, []), k_line = \<lambda>s t. PEnd, k_deep = \<lambda>s b. False,
      k_argv = \<lambda>s ws. (s, map (\<lambda>w. (lit w, None)) ws), k_asg = \<lambda>s w. (s, lit w, None), k_one = \<lambda>s w. (s, lit w),
      k_oneq = \<lambda>s w. (s, lit w, None), k_words = \<lambda>s w. (s, [lit w]), k_pat = \<lambda>s w. (s, lit w), k_match = \<lambda>s p t. p = t,
      k_text = \<lambda>s p. (s, 0), k_ax = \<lambda>s t. (s, 0), k_key = \<lambda>s n t. (s, t), k_keys = \<lambda>s t m. (s, t, []),
      k_cond = \<lambda>s ws. (s, 0), k_rd = \<lambda>q s rd. (s, [], True), k_undo = \<lambda>s sv. s, k_mod = \<lambda>s n. None, k_bi = \<lambda>s n. None,
      k_find = \<lambda>s n. (s, TNone), k_why = \<lambda>s n. 127, k_plan = \<lambda>s av p. Some av,
      k_prog = \<lambda>s p av ev rd nf c. (s, 0, []), k_child = \<lambda>s. s, k_exit = \<lambda>s. s, k_join = \<lambda>s c. s, k_fork = \<lambda>s. True,
      k_pipe = \<lambda>s t tx ns. (s, [], None, False), k_bg = \<lambda>s tx n. (s, None), k_menu = \<lambda>s m ws. (s, None), k_reap = \<lambda>s. s,
      k_psub = \<lambda>s. s, k_time = \<lambda>s p. s, k_decl = \<lambda>n. False\<rparr>"

lemma plain_keeps: "bops plain_k"
  by (simp add: ops_keep_def plain_k_def)

definition wlit :: "string \<Rightarrow> wd" where
  "wlit t = [Part 0 t 0 0 False False [] []]"

definition ncmd :: "string list \<Rightarrow> node" where
  "ncmd ws = NCmd \<lparr>c_w = map wlit ws, c_aw = [], c_bw = None, c_rd = [], c_arr = [], c_bind = None, c_bound = False, c_tx = [], c_ln = 1\<rparr>"

definition exs_of :: "'o \<Rightarrow> sh \<Rightarrow> string list \<Rightarrow> 'o exs" where
  "exs_of os h av =
    \<lparr>e_sh = h, e_os = os, e_tst = False, e_quit = False, e_stop = False, e_ret = False, e_brk = 0, e_cont = 0, e_errx = 0,
      e_try = False, e_it = False, e_noexec = False, e_xerr = 0, e_loops = 0, e_dep = 0, e_srcs = 0, e_run = 0, e_pfs = 0,
      e_ps = [], e_pslive = False, e_nofork = False, e_abline = False, e_retd = False, e_lastret = False, e_bind = False,
      e_ncap = 0, e_fnnest = 0, e_av = av, e_amask = [], e_ln = 0, e_src = None, e_rty = None, e_etrap = None,
      e_dtrap = None, e_rtrap = None, e_errkid = False, e_fns = ftab0, e_ros = [], e_als = [], e_axp = [], e_sf = [],
      e_strictg = False, e_strict = False, e_retwarned = [], e_noclob = False, e_rdshut = False, e_uset = False, e_arg0 = None, e_pid = 1\<rparr>"

abbreviation exs0 :: "sh \<Rightarrow> string list \<Rightarrow> unit exs" where
  "exs0 \<equiv> exs_of ()"



lemma while_break:
  "map_option (\<lambda>(s, v). (e_loops s, e_brk s, e_av s))
     (ex plain_k 9 (NSeq (NLoop False 1 [] (ncmd [''break'']) (ncmd ['':''])) (ncmd [''shift''])) (exs0 sh0 [''a'', ''b''])) =
   Some (0, 0, [''b''])"
  by code_simp

subsection \<open>Functions\<close>

lemma done_flags:
  assumes "fn_done ev rd s v = Some (s', v')"
  shows "\<not> e_ret s'"
  using assms by (auto simp: fn_done_def Let_def tr_return_def with_st_def split: if_splits option.splits bind_splits)

lemma leave_flags:
  "e_ret (fn_leave K s0 s) = e_ret s" "e_av (fn_leave K s0 s) = e_av s0" "e_loops (fn_leave K s0 s) = e_loops s0"
  "e_src (fn_leave K s0 s) = e_src s0" "e_rty (fn_leave K s0 s) = e_rty s0" "e_stop (fn_leave K s0 s) = e_stop s"
  "e_quit (fn_leave K s0 s) = e_quit s" "e_brk (fn_leave K s0 s) = e_brk s" "e_cont (fn_leave K s0 s) = e_cont s"
  by (simp_all add: fn_leave_def Let_def sh_sfl_def on_sh_def)

lemma deep_flags:
  assumes "ex_deep K s fn = (t, d)"
  shows "e_ret t = e_ret s" "e_av t = e_av s" "e_loops t = e_loops s" "e_src t = e_src s" "e_rty t = e_rty s"
  using assms by (auto simp: ex_deep_def Let_def with_st_def on_sh_def split: if_splits)

text \<open>C3: whatever a function's body does, after the call no return is pending, the caller has its positional
  parameters, the loops around it, the running file and its return type again, and a call that is refused for
  depth runs nothing.\<close>

theorem fn_contained:
  assumes "fn_call K ev f av s = Some (s', v)"
  shows "e_av s' = e_av s \<and> e_loops s' = e_loops s \<and> e_src s' = e_src s \<and> e_rty s' = e_rty s \<and> (e_ret s' \<longrightarrow> e_ret s)"
proof (cases "ex_deep K s True")
  case (Pair s0 d)
  note dp = deep_flags [OF Pair]
  show ?thesis
  proof (cases d)
    case True
    then show ?thesis using assms Pair dp by (simp add: fn_call_def)
  next
    case False
    obtain s5 where s5: "s' = fn_leave K s0 s5" "\<not> e_ret s5"
      using assms unfolding fn_call_def Pair prod.case using False
      by (auto simp: Let_def split: bind_splits prod.splits dest: done_flags)
    show ?thesis by (simp add: s5 leave_flags dp)
  qed
qed

theorem fn_contained_witness:
  "\<exists>s' v. fn_call plain_k (ex_ev plain_k 9) (Fn ''f'' 1 False [] None (ncmd [''return'', ''3''])) [''f'', ''x''] (exs0 sh0 [''a'']) = Some (s', v) \<and>
    e_av s' = [''a''] \<and> \<not> e_ret s'"
proof -
  let ?c = "fn_call plain_k (ex_ev plain_k 9) (Fn ''f'' 1 False [] None (ncmd [''return'', ''3''])) [''f'', ''x''] (exs0 sh0 [''a''])"
  have "map_option snd ?c = Some 3" by code_simp
  then obtain s' v where c: "?c = Some (s', v)" by auto
  have "e_av s' = e_av (exs0 sh0 [''a''])" "e_ret s' \<longrightarrow> e_ret (exs0 sh0 [''a''])" using fn_contained [OF c] by simp_all
  with c show ?thesis by (auto simp: exs_of_def)
qed

subsection \<open>Pipelines\<close>

lemma ps_all_ps:
  assumes "vs \<noteq> []"
  shows "e_ps (ps_all s vs) = vs"
proof -
  have "length (e_ps t) = length vs \<and> take k (e_ps t) = take k vs"
    if "t = foldl (\<lambda>s i. ex_psat s i (length vs) (vs ! i)) s [0..<k]" "k \<noteq> 0" "k \<le> length vs" for t k
    using that
  proof (induction k arbitrary: t)
    case (Suc k)
    let ?u = "foldl (\<lambda>s i. ex_psat s i (length vs) (vs ! i)) s [0..<k]"
    show ?case
    proof (cases k)
      case 0
      with Suc.prems assms show ?thesis
        by (cases vs) (auto simp: ex_psat_def ex_psone_def ex_psdrop_def on_sh_def Let_def)
    next
      case (Suc j)
      with Suc.IH [of ?u] Suc.prems have u: "length (e_ps ?u) = length vs" "take k (e_ps ?u) = take k vs" by simp_all
      have "e_ps t = (e_ps ?u)[k := vs ! k]"
        using Suc.prems(1) Suc u(1) by (simp add: ex_psat_def Let_def)
      then show ?thesis using u Suc.prems(3) by (simp add: take_Suc_conv_app_nth)
    qed
  qed simp
  from this [of _ "length vs"] show ?thesis using assms by (fastforce simp: ps_all_def)
qed




end
