(* ===== verification/Redir.thy ===== *)
theory Redir
  imports ExecLaws
begin

text \<open>
  Redirections: \<open>rd_do\<close>, \<open>rd_save\<close> and \<open>rd_undo\<close> of src/exec.c over a model of the process's
  descriptor table, with the temporary copies they keep in it. Opening files, sockets and here-documents'
  temporary files, and expanding the words, are arguments.
\<close>

subsection \<open>Descriptors\<close>

text \<open>The table maps a number to what is open there; numbers are below \<open>o_lim\<close>.\<close>

record ('w, 'f) osys =
  o_fd :: "int \<Rightarrow> 'f option"
  o_lim :: int
  o_w :: 'w

text \<open>The lowest free number from \<open>lo\<close>, or -1.\<close>

definition fd_new :: "int \<Rightarrow> 'f \<Rightarrow> ('w, 'f) osys \<Rightarrow> ('w, 'f) osys \<times> int" where
  "fd_new lo f os =
    (case find (\<lambda>i. o_fd os i = None) [lo..o_lim os - 1] of
       None \<Rightarrow> (os, -1)
     | Some n \<Rightarrow> (os\<lparr>o_fd := (o_fd os)(n := Some f)\<rparr>, n))"

definition fd_dup :: "int \<Rightarrow> int \<Rightarrow> ('w, 'f) osys \<Rightarrow> ('w, 'f) osys \<times> int" where
  "fd_dup lo fd os = (case o_fd os fd of None \<Rightarrow> (os, -1) | Some f \<Rightarrow> fd_new lo f os)"

definition fd_dup2 :: "int \<Rightarrow> int \<Rightarrow> ('w, 'f) osys \<Rightarrow> ('w, 'f) osys \<times> bool" where
  "fd_dup2 a b os =
    (case o_fd os a of
       None \<Rightarrow> (os, False)
     | Some f \<Rightarrow> if 0 \<le> b \<and> b < o_lim os then (os\<lparr>o_fd := (o_fd os)(b := Some f)\<rparr>, True) else (os, False))"

definition fd_close :: "int \<Rightarrow> ('w, 'f) osys \<Rightarrow> ('w, 'f) osys" where
  "fd_close n os = os\<lparr>o_fd := (o_fd os)(n := None)\<rparr>"

subsection \<open>Saving and undoing\<close>

type_synonym ('w, 'f) osv = "('w, 'f) osys \<times> (int \<times> int) list"

definition rd_save :: "bool \<Rightarrow> int \<Rightarrow> ('w, 'f) osv \<Rightarrow> ('w, 'f) osv" where
  "rd_save save fd p =
    (case p of (os, svs) \<Rightarrow> if \<not> save then (os, svs) else (let (os1, c) = fd_dup 0 fd os in (os1, svs @ [(fd, c)])))"

definition rd_undo1 :: "int \<times> int \<Rightarrow> ('w, 'f) osys \<Rightarrow> ('w, 'f) osys" where
  "rd_undo1 e os = (case e of (fd, c) \<Rightarrow> if c \<ge> 0 then fd_close c (fst (fd_dup2 c fd os)) else fd_close fd os)"

definition rd_undo :: "('w, 'f) osys \<Rightarrow> (int \<times> int) list \<Rightarrow> ('w, 'f) osys" where
  "rd_undo os svs = foldr rd_undo1 svs os"

text \<open>An open descriptor \<open>fd\<close> moved to the number a redirection names.\<close>

definition rd_put :: "bool \<Rightarrow> int \<Rightarrow> int \<Rightarrow> ('w, 'f) osv \<Rightarrow> ('w, 'f) osv \<times> bool" where
  "rd_put save tgt fd p =
    (case rd_save save tgt p of (os, svs) \<Rightarrow>
       if fd = tgt then ((os, svs), True)
       else let (os1, ok) = fd_dup2 fd tgt os in ((fd_close fd os1, svs), ok))"

definition rd_dupto :: "bool \<Rightarrow> int \<Rightarrow> int \<Rightarrow> ('w, 'f) osv \<Rightarrow> ('w, 'f) osv \<times> bool" where
  "rd_dupto save fd tgt p =
    (case rd_save save tgt p of (os, svs) \<Rightarrow> let (os1, ok) = fd_dup2 fd tgt os in ((os1, svs), ok))"

definition rd_shutfd :: "bool \<Rightarrow> int \<Rightarrow> ('w, 'f) osv \<Rightarrow> ('w, 'f) osv" where
  "rd_shutfd save tgt p = (case rd_save save tgt p of (os, svs) \<Rightarrow> (fd_close tgt os, svs))"

text \<open>\<open>>& file\<close>: standard output and standard error.\<close>

definition rd_amp :: "bool \<Rightarrow> int \<Rightarrow> ('w, 'f) osv \<Rightarrow> ('w, 'f) osv" where
  "rd_amp save fd p =
    (case rd_save save 2 (rd_save save 1 p) of (os, svs) \<Rightarrow>
       let os1 = fst (fd_dup2 fd 2 (fst (fd_dup2 fd 1 os))) in (if fd > 2 then fd_close fd os1 else os1, svs))"

subsection \<open>A redirection\<close>

abbreviation (input) "R_IN \<equiv> 0 :: nat"
abbreviation (input) "R_OUT \<equiv> 1 :: nat"
abbreviation (input) "R_APP \<equiv> 2 :: nat"
abbreviation (input) "R_DUP \<equiv> 3 :: nat"
abbreviation (input) "R_RW \<equiv> 4 :: nat"
abbreviation (input) "R_HERE \<equiv> 5 :: nat"
abbreviation (input) "HIBR_HDMAX \<equiv> 32768 :: nat"

definition rf :: "nat \<Rightarrow> redir \<Rightarrow> bool" where
  "rf b r \<longleftrightarrow> rd_fl r AND b \<noteq> 0"

abbreviation (input) "RF_BOTH \<equiv> 1 :: nat"
abbreviation (input) "RF_CLOB \<equiv> 2 :: nat"
abbreviation (input) "RF_STR \<equiv> 4 :: nat"
abbreviation (input) "RF_NOFD \<equiv> 8 :: nat"

text \<open>
  What is outside: expanding a word; whether a path is a socket's and opening it; opening a file (with the kind of
  the redirection, and whether it must not exist); whether a path is there and no regular file; a pipe with a text
  in it, if it fits; a temporary file with a text, and whether it could be written; what a plan run would not do.
\<close>

record ('w, 'f) rdk =
  r_one :: "('w, 'f) osys exs \<Rightarrow> wd \<Rightarrow> ('w, 'f) osys exs \<times> string"
  r_net :: "('w, 'f) osys exs \<Rightarrow> string \<Rightarrow> bool"
  r_sock :: "'w \<Rightarrow> string \<Rightarrow> 'w \<times> 'f option"
  r_open :: "'w \<Rightarrow> nat \<Rightarrow> bool \<Rightarrow> string \<Rightarrow> 'w \<times> 'f option"
  r_odd :: "'w \<Rightarrow> string \<Rightarrow> bool"
  r_pipe :: "'w \<Rightarrow> string \<Rightarrow> 'f option"
  r_tmp :: "'w \<Rightarrow> string \<Rightarrow> 'w \<times> ('f \<times> bool) option"
  r_plan :: "('w, 'f) osys exs \<Rightarrow> nat \<Rightarrow> string \<Rightarrow> bool"
  r_plfd :: int
  r_eval :: evalr

text \<open>A file that may or may not have been opened gets a number.\<close>

definition fd_got :: "'w \<times> 'f option \<Rightarrow> ('w, 'f) osys \<Rightarrow> ('w, 'f) osys \<times> int" where
  "fd_got r os = (case r of (w, None) \<Rightarrow> (os\<lparr>o_w := w\<rparr>, -1) | (w, Some f) \<Rightarrow> fd_new 0 f (os\<lparr>o_w := w\<rparr>))"

definition fd_free :: "('w, 'f) osys \<Rightarrow> nat" where
  "fd_free os = length (filter (\<lambda>i. o_fd os i = None) [0..o_lim os - 1])"

definition hdfd :: "('w, 'f) rdk \<Rightarrow> string \<Rightarrow> ('w, 'f) osys \<Rightarrow> ('w, 'f) osys \<times> int" where
  "hdfd R t os =
    (if length t < HIBR_HDMAX \<and> fd_free os < 2 then (os, -1)
     else case (if length t < HIBR_HDMAX then r_pipe R (o_w os) t else None) of
       Some f \<Rightarrow> fd_new 0 f os
     | None \<Rightarrow>
         if fd_free os = 0 then (os, -1)
         else case r_tmp R (o_w os) t of
           (w, None) \<Rightarrow> (os\<lparr>o_w := w\<rparr>, -1)
         | (w, Some (f, ok)) \<Rightarrow> if ok then fd_new 0 f (os\<lparr>o_w := w\<rparr>) else (os\<lparr>o_w := w\<rparr>, -1))"

text \<open>The descriptor a redirection opens, for all kinds but a duplicate.\<close>

definition rd_open :: "('w, 'f) rdk \<Rightarrow> bool \<Rightarrow> redir \<Rightarrow> string \<Rightarrow> ('w, 'f) osys \<Rightarrow> ('w, 'f) osys \<times> int" where
  "rd_open R noclob r t os =
    (if rd_k r = R_HERE then hdfd R (if rf RF_STR r then t @ [CHR 0x0A] else t) os
     else if rd_k r = R_OUT then fd_got (r_open R (o_w os) R_OUT (noclob \<and> \<not> rf RF_CLOB r \<and> \<not> r_odd R (o_w os) t) t) os
     else fd_got (r_open R (o_w os) (rd_k r) False t) os)"

definition rd_isfd :: "string option \<Rightarrow> bool" where
  "rd_isfd t = (case t of None \<Rightarrow> False | Some u \<Rightarrow> u \<noteq> [] \<and> list_all isdigit u)"

definition atoi :: "string \<Rightarrow> int" where
  "atoi t = sint (word_of_int (fst (strtol 10 t)) :: 32 word)"

text \<open>The number moved to 10 or above, and its decimal text to the variable of \<open>{v}>\<close>.\<close>

definition rd_setvar :: "('w, 'f) rdk \<Rightarrow> string \<Rightarrow> int \<Rightarrow> ('w, 'f) osys exs \<Rightarrow> ('w, 'f) osys exs" where
  "rd_setvar R v fd s = on_sh (\<lambda>h. fst (hibr_set (r_eval R) h v (s_num fd) False)) s"

definition rd_high :: "int \<Rightarrow> ('w, 'f) osys \<Rightarrow> ('w, 'f) osys \<times> int" where
  "rd_high fd os = (let (os1, hi) = fd_dup 10 fd os in if hi \<ge> 0 then (fd_close fd os1, hi) else (os1, fd))"

text \<open>How a redirection went: on to the next, the list goes on but has failed, or the list is over and has failed.\<close>

datatype rdres = RNext | RFail | RStop

type_synonym ('w, 'f) rdst = "('w, 'f) osys exs \<times> (int \<times> int) list"

definition put_os :: "('w, 'f) osys exs \<Rightarrow> ('w, 'f) osv \<Rightarrow> ('w, 'f) rdst" where
  "put_os s p = (s\<lparr>e_os := fst p\<rparr>, snd p)"

definition rd_ok :: "bool \<Rightarrow> rdres" where
  "rd_ok b = (if b then RNext else RFail)"

definition rd_sock :: "('w, 'f) rdk \<Rightarrow> bool \<Rightarrow> redir \<Rightarrow> string \<Rightarrow> ('w, 'f) osys exs \<Rightarrow> (int \<times> int) list \<Rightarrow> ('w, 'f) rdst \<times> rdres" where
  "rd_sock R save r t s svs =
    (let (os, fd) = fd_got (r_sock R (o_w (e_os s)) t) (e_os s) in
     if fd < 0 then ((s\<lparr>e_os := os\<rparr>, svs), RStop)
     else case rd_var r of
       Some v \<Rightarrow> (let (os1, hi) = (if fd \<ge> 10 then (os, fd) else rd_high fd os) in ((rd_setvar R v hi (s\<lparr>e_os := os1\<rparr>), svs), RNext))
     | None \<Rightarrow> (put_os s (fst (rd_put save (rd_fd r) fd (os, svs))), RNext))"

definition rd_dups :: "('w, 'f) rdk \<Rightarrow> bool \<Rightarrow> redir \<Rightarrow> string \<Rightarrow> ('w, 'f) osys exs \<Rightarrow> (int \<times> int) list \<Rightarrow> ('w, 'f) rdst \<times> rdres" where
  "rd_dups R save r t s svs =
    (let os = e_os s in
     if t = ''-'' then
       (let cur = (case rd_var r of Some v \<Rightarrow> hibr_get (e_sh s) v | None \<Rightarrow> None) in
        if rd_var r \<noteq> None \<and> \<not> rd_isfd cur then ((s, svs), RFail)
        else
          let tgt = (case cur of Some c \<Rightarrow> atoi c | None \<Rightarrow> rd_fd r)
          in (put_os (if tgt = 1 then s\<lparr>e_rdshut := True\<rparr> else s) (rd_shutfd save tgt (os, svs)), RNext))
     else if \<not> rd_isfd (Some t) \<and> rf RF_NOFD r \<and> rd_fd r = 1 \<and> t \<noteq> [] then
       (let (os1, fd) = fd_got (r_open R (o_w os) R_OUT (e_noclob s \<and> \<not> r_odd R (o_w os) t) t) os in
        if fd < 0 then ((s\<lparr>e_os := os1\<rparr>, svs), RFail) else (put_os s (rd_amp save fd (os1, svs)), RNext))
     else if \<not> rd_isfd (Some t) then ((s, svs), RFail)
     else case rd_var r of
       Some v \<Rightarrow>
         (let (os1, hi) = fd_dup 10 (atoi t) os
          in if hi < 0 then ((s, svs), RFail) else ((rd_setvar R v hi (s\<lparr>e_os := os1\<rparr>), svs), RNext))
     | None \<Rightarrow> (let (p, ok) = rd_dupto save (atoi t) (rd_fd r) (os, svs) in (put_os s p, rd_ok ok)))"

definition rd_file :: "('w, 'f) rdk \<Rightarrow> bool \<Rightarrow> redir \<Rightarrow> string \<Rightarrow> ('w, 'f) osys exs \<Rightarrow> (int \<times> int) list \<Rightarrow> ('w, 'f) rdst \<times> rdres" where
  "rd_file R save r t s svs =
    (let (os, fd) = rd_open R (e_noclob s) r t (e_os s) in
     if fd < 0 then ((s\<lparr>e_os := os\<rparr>, svs), RStop)
     else case rd_var r of
       Some v \<Rightarrow> (let (os1, hi) = rd_high fd os in ((rd_setvar R v hi (s\<lparr>e_os := os1\<rparr>), svs), RNext))
     | None \<Rightarrow>
         let (p, ok) = rd_put save (rd_fd r) fd (os, svs) in
         if \<not> ok then (put_os s p, RFail)
         else if rf RF_BOTH r then (put_os s (fst (rd_dupto save (rd_fd r) 2 p)), RNext)
         else (put_os s p, RNext))"

definition rd_step :: "('w, 'f) rdk \<Rightarrow> bool \<Rightarrow> redir \<Rightarrow> ('w, 'f) osys exs \<Rightarrow> (int \<times> int) list \<Rightarrow> ('w, 'f) rdst \<times> rdres" where
  "rd_step R save r s0 svs =
    (let (s, t0) = r_one R s0 (rd_w r); plan = has (sopt (e_sh s)) O_PLAN in
     if plan \<and> rd_fd r = r_plfd R \<and> rd_var r = None then ((s, svs), RNext)
     else
       let t = (if plan \<and> rd_k r \<noteq> R_DUP \<and> rd_k r \<noteq> R_HERE \<and> r_plan R s (rd_k r) t0 then ''/dev/null'' else t0) in
       if rd_k r \<noteq> R_DUP \<and> rd_k r \<noteq> R_HERE \<and> r_net R s t then rd_sock R save r t s svs
       else if rd_k r = R_DUP then rd_dups R save r t s svs
       else rd_file R save r t s svs)"

fun rd_loop :: "('w, 'f) rdk \<Rightarrow> bool \<Rightarrow> redir list \<Rightarrow> ('w, 'f) osys exs \<Rightarrow> (int \<times> int) list \<Rightarrow> bool \<Rightarrow> ('w, 'f) osys exs \<times> (int \<times> int) list \<times> bool" where
  "rd_loop R save [] s svs ok = (s, svs, ok)"
| "rd_loop R save (r # rs) s svs ok =
    (case rd_step R save r s svs of ((s1, sv1), res) \<Rightarrow>
       if res = RStop then (s1, sv1, False) else rd_loop R save rs s1 sv1 (ok \<and> res = RNext))"

definition rd_do :: "('w, 'f) rdk \<Rightarrow> bool \<Rightarrow> ('w, 'f) osys exs \<Rightarrow> redir list \<Rightarrow> ('w, 'f) osys exs \<times> (int \<times> int) list \<times> bool" where
  "rd_do R save s rs = rd_loop R save rs s [] True"

text \<open>The executor with these redirections.\<close>

definition rd_ops :: "('w, 'f) rdk \<Rightarrow> ('w, 'f) osys exk \<Rightarrow> ('w, 'f) osys exk" where
  "rd_ops R K = K\<lparr>k_rd := rd_do R, k_undo := \<lambda>s svs. s\<lparr>e_os := rd_undo (e_os s) svs\<rparr>\<rparr>"


subsection \<open>What undoing does to the table\<close>

definition un1 :: "int \<Rightarrow> int \<times> int \<Rightarrow> (int \<Rightarrow> 'f option) \<Rightarrow> int \<Rightarrow> 'f option" where
  "un1 L e T =
    (case e of (t, c) \<Rightarrow>
       if c \<ge> 0 then (if T c \<noteq> None \<and> 0 \<le> t \<and> t < L then T(t := T c) else T)(c := None) else T(t := None))"

text \<open>Every copy is open when its turn comes.\<close>

fun live :: "int \<Rightarrow> (int \<times> int) list \<Rightarrow> (int \<Rightarrow> 'f option) \<Rightarrow> bool" where
  "live L [] T = True"
| "live L ((t, c) # r) T \<longleftrightarrow> (c \<ge> 0 \<longrightarrow> T c \<noteq> None) \<and> c \<noteq> t \<and> 0 \<le> t \<and> t < L \<and> live L r (un1 L (t, c) T)"

text \<open>Undone latest first, \<open>x\<close> is written before it is read.\<close>

fun shad :: "int \<Rightarrow> (int \<times> int) list \<Rightarrow> bool" where
  "shad x [] = False"
| "shad x ((t, c) # r) \<longleftrightarrow> c \<noteq> x \<and> (t = x \<or> shad x r)"

lemma un1_simps [simp]:
  "o_fd (rd_undo1 e os) = un1 (o_lim os) e (o_fd os)" "o_lim (rd_undo1 e os) = o_lim os"
  by (auto simp: rd_undo1_def un1_def fd_close_def fd_dup2_def split: prod.split option.split)

lemma rd_undo_tab: "o_fd (rd_undo os svs) = fold (un1 (o_lim os)) (rev svs) (o_fd os)" "o_lim (rd_undo os svs) = o_lim os"
proof -
  have "o_fd (rd_undo os svs) = fold (un1 (o_lim os)) (rev svs) (o_fd os) \<and> o_lim (rd_undo os svs) = o_lim os"
    by (induction svs arbitrary: os) (simp_all add: rd_undo_def)
  then show "o_fd (rd_undo os svs) = fold (un1 (o_lim os)) (rev svs) (o_fd os)" "o_lim (rd_undo os svs) = o_lim os" by simp_all
qed

lemma shad_undo:
  "shad x r \<Longrightarrow> live L r T \<Longrightarrow> live L r (T(x := v)) \<and> fold (un1 L) r (T(x := v)) = fold (un1 L) r T"
proof (induction r arbitrary: T)
  case (Cons e r)
  obtain t c where e: "e = (t, c)" by fastforce
  have c: "c \<noteq> x" and lv: "c \<ge> 0 \<longrightarrow> T c \<noteq> None" "c \<noteq> t" "0 \<le> t" "t < L" and r: "live L r (un1 L (t, c) T)"
    using Cons.prems by (simp_all add: e)
  show ?case
  proof (cases "t = x")
    case True
    have "un1 L (t, c) (T(x := v)) = un1 L (t, c) T" using c lv True by (auto simp: un1_def)
    moreover have "(T(x := v)) c = T c" using c by simp
    ultimately show ?thesis using c True lv r unfolding e live.simps fold_simps by (simp del: fun_upd_apply)
  next
    case False
    have u: "un1 L (t, c) (T(x := v)) = (un1 L (t, c) T)(x := v)" using c lv False by (auto simp: un1_def fun_eq_iff)
    have "shad x r" using Cons.prems False by (simp add: e)
    note ih = Cons.IH [OF this r]
    have "(T(x := v)) c = T c" using c by simp
    with ih show ?thesis using c lv r unfolding e live.simps fold_simps u by (simp del: fun_upd_apply)
  qed
qed simp

text \<open>The table \<open>T\<close> with the copies of \<open>r\<close> (latest first) made since it was \<open>T0\<close>.\<close>

definition rdinv :: "int \<Rightarrow> (int \<Rightarrow> 'f option) \<Rightarrow> (int \<times> int) list \<Rightarrow> (int \<Rightarrow> 'f option) \<Rightarrow> bool" where
  "rdinv L T0 r T \<longleftrightarrow>
    dom T \<subseteq> {0..<L} \<and> live L r T \<and> fold (un1 L) r T = T0 \<and> (\<forall>x. T0 x \<noteq> None \<and> T x = None \<longrightarrow> shad x r)"

lemma rdinv_push:
  assumes i: "rdinv L T0 r T" and t: "T0 t \<noteq> None" "0 \<le> t" "t < L" and d: "dom T' \<subseteq> {0..<L}"
    and c: "c \<ge> 0 \<longrightarrow> T' c \<noteq> None" "c \<noteq> t" "c \<ge> -1"
    and u: "un1 L (t, c) T' = T(t := w)" "w = T t \<or> T t = None"
    and n: "\<And>x. T' x = None \<Longrightarrow> x \<noteq> t \<Longrightarrow> T x = None"
  shows "rdinv L T0 ((t, c) # r) T'"
proof -
  have sh: "T0 x \<noteq> None \<Longrightarrow> T x = None \<Longrightarrow> shad x r" for x using i by (simp add: rdinv_def)
  have r: "live L r (T(t := w)) \<and> fold (un1 L) r (T(t := w)) = T0"
  proof (cases "w = T t")
    case True
    then show ?thesis using i by (simp add: rdinv_def)
  next
    case False
    with u t sh have "shad t r" by blast
    from shad_undo [OF this, of L T w] i show ?thesis by (simp add: rdinv_def)
  qed
  have "shad x ((t, c) # r)" if x: "T0 x \<noteq> None" "T' x = None" for x
  proof (cases "x = t")
    case False
    have "T x = None" by (rule n [OF x(2) False])
    moreover have "x \<noteq> c"
    proof
      assume "x = c"
      with x(2) c have "c = -1" by (cases "c \<ge> 0") auto
      with \<open>x = c\<close> x(1) i have "T (-1) \<noteq> None \<or> shad (-1) r" by (auto simp: rdinv_def)
      moreover have "T0 (-1) = None"
      proof -
        have "T (-1) = None" using i by (force simp: rdinv_def)
        have "fold (un1 L) r S (-1) = None" if "live L r S" "S (-1) = None" for r S
          using that
        proof (induction r arbitrary: S)
          case (Cons e r)
          obtain t c where e: "e = (t, c)" by fastforce
          have "un1 L (t, c) S (-1) = None" using Cons.prems by (auto simp: e un1_def)
          then show ?case using Cons by (simp add: e)
        qed simp
        with \<open>T (-1) = None\<close> i show ?thesis by (auto simp: rdinv_def)
      qed
      ultimately show False using x(1) \<open>x = c\<close> \<open>c = -1\<close> by simp
    qed
    ultimately show ?thesis using sh [OF x(1)] by simp
  qed (use c in simp)
  then show ?thesis using d c t r by (simp add: rdinv_def u(1))
qed

subsection \<open>Numbers for copies\<close>

definition roomy :: "nat \<Rightarrow> ('w, 'f) osys \<Rightarrow> bool" where
  "roomy n os \<longleftrightarrow> dom (o_fd os) \<subseteq> {0..<o_lim os} \<and> int (card (dom (o_fd os))) + int n \<le> o_lim os"

lemma find_upto: "find P [a..b] = Some n \<Longrightarrow> P n \<and> a \<le> n \<and> n \<le> b"
  using nth_mem [of _ "[a..b]"] by (force simp: find_Some_iff)

lemma fd_new_some:
  assumes "fd_new lo f os = (os', n)" "n \<ge> 0"
  shows "os' = os\<lparr>o_fd := (o_fd os)(n := Some f)\<rparr>" "o_fd os n = None" "lo \<le> n" "n < o_lim os"
  using assms find_upto [of "\<lambda>i. o_fd os i = None" lo "o_lim os - 1" n] by (auto simp: fd_new_def split: option.splits)

lemma fd_new_none: "fd_new lo f os = (os', n) \<Longrightarrow> n < 0 \<Longrightarrow> lo \<ge> 0 \<Longrightarrow> os' = os"
  using find_upto [of "\<lambda>i. o_fd os i = None" lo "o_lim os - 1" n] by (auto simp: fd_new_def split: option.splits)

lemma fd_new_room:
  assumes "roomy 1 os"
  obtains n where "fd_new 0 f os = (os\<lparr>o_fd := (o_fd os)(n := Some f)\<rparr>, n)" "o_fd os n = None" "0 \<le> n" "n < o_lim os"
proof (cases "find (\<lambda>i. o_fd os i = None) [0..o_lim os - 1]")
  case None
  then have "{0..<o_lim os} \<subseteq> dom (o_fd os)" by (auto simp: find_None_iff)
  with assms have "dom (o_fd os) = {0..<o_lim os}" by (auto simp: roomy_def)
  with assms show thesis by (simp add: roomy_def split: if_splits)
next
  case (Some n)
  from find_upto [OF this] Some that [of n] show thesis by (auto simp: fd_new_def)
qed

lemma roomy_upd:
  assumes r: "roomy (Suc n) os" and i: "0 \<le> i" "i < o_lim os"
  shows "roomy n (os\<lparr>o_fd := (o_fd os)(i := v)\<rparr>)"
proof -
  have f: "finite (dom (o_fd os))" using r by (auto simp: roomy_def intro: finite_subset)
  have "card (dom ((o_fd os)(i := v))) \<le> card (insert i (dom (o_fd os)))" by (rule card_mono) (use f in auto)
  also have "\<dots> \<le> Suc (card (dom (o_fd os)))" using f by (simp add: card_insert_if)
  finally have "int (card (dom ((o_fd os)(i := v)))) + int n \<le> o_lim os" using r by (simp add: roomy_def)
  moreover have "dom ((o_fd os)(i := v)) \<subseteq> {0..<o_lim os}" using r i by (auto simp: roomy_def split: if_splits)
  ultimately show ?thesis by (simp add: roomy_def del: dom_fun_upd)
qed

lemma roomy_close: "roomy n os \<Longrightarrow> roomy n (os\<lparr>o_fd := (o_fd os)(i := None)\<rparr>)"
proof -
  assume r: "roomy n os"
  have "finite (dom (o_fd os))" using r by (auto simp: roomy_def intro: finite_subset)
  then have "card (dom (o_fd os) - {i}) \<le> card (dom (o_fd os))" by (intro card_mono) auto
  then show ?thesis using r by (auto simp: roomy_def)
qed

lemma roomy_le: "roomy m os \<Longrightarrow> n \<le> m \<Longrightarrow> roomy n os"
  by (simp add: roomy_def)

lemma roomy_dom: "dom (o_fd a) = dom (o_fd b) \<Longrightarrow> o_lim a = o_lim b \<Longrightarrow> roomy n a = roomy n b"
  by (simp add: roomy_def)

subsection \<open>Every redirection can be undone\<close>

text \<open>The state of the list so far: the table is \<open>T0\<close> but for what undoing puts back, with room for \<open>n\<close> more.\<close>

definition rdgood :: "nat \<Rightarrow> (int \<Rightarrow> 'f option) \<Rightarrow> ('w, 'f) osv \<Rightarrow> bool" where
  "rdgood n T0 p \<longleftrightarrow> roomy n (fst p) \<and> rdinv (o_lim (fst p)) T0 (rev (snd p)) (o_fd (fst p))"

text \<open>A copy is made of an open descriptor; of a closed one it is noted that it was.\<close>

lemma save_cases:
  assumes "roomy (Suc n) os"
  obtains "o_fd os t = None" "rd_save True t (os, svs) = (os, svs @ [(t, -1)])"
  | g c where "o_fd os t = Some g" "o_fd os c = None" "0 \<le> c" "c < o_lim os" "c \<noteq> t"
      "rd_save True t (os, svs) = (os\<lparr>o_fd := (o_fd os)(c := Some g)\<rparr>, svs @ [(t, c)])"
      "roomy n (os\<lparr>o_fd := (o_fd os)(c := Some g)\<rparr>)"
proof (cases "o_fd os t")
  case None
  then show thesis using that(1) by (simp add: rd_save_def fd_dup_def)
next
  case (Some g)
  obtain c where c: "fd_new 0 g os = (os\<lparr>o_fd := (o_fd os)(c := Some g)\<rparr>, c)" "o_fd os c = None" "0 \<le> c" "c < o_lim os"
    using fd_new_room [of os g] roomy_le [OF assms, of 1] by auto
  show thesis
    by (rule that(2) [OF Some c(2-4)]) (use Some c roomy_upd [OF assms c(3, 4)] in \<open>auto simp: rd_save_def fd_dup_def\<close>)
qed

lemma dup2_some: "o_fd os a = Some g \<Longrightarrow> 0 \<le> b \<Longrightarrow> b < o_lim os \<Longrightarrow> fd_dup2 a b os = (os\<lparr>o_fd := (o_fd os)(b := Some g)\<rparr>, True)"
  by (simp add: fd_dup2_def)

lemma rdgood_push:
  assumes g: "rdgood m T0 (os, svs)" and t: "T0 t \<noteq> None" "0 \<le> t" "t < o_lim os"
    and o: "o_lim os' = o_lim os" "roomy n os'"
    and c: "c \<ge> 0 \<longrightarrow> o_fd os' c \<noteq> None" "c \<noteq> t" "c \<ge> -1"
    and u: "un1 (o_lim os) (t, c) (o_fd os') = (o_fd os)(t := w)" "w = o_fd os t \<or> o_fd os t = None"
    and nn: "\<And>x. o_fd os' x = None \<Longrightarrow> x \<noteq> t \<Longrightarrow> o_fd os x = None"
  shows "rdgood n T0 (os', svs @ [(t, c)])"
proof -
  have "dom (o_fd os') \<subseteq> {0..<o_lim os}" using o by (simp add: roomy_def)
  then have "rdinv (o_lim os) T0 ((t, c) # rev svs) (o_fd os')"
    using g t c u nn by (intro rdinv_push [where T = "o_fd os" and w = w]) (auto simp: rdgood_def)
  then show ?thesis using o by (simp add: rdgood_def)
qed

lemma dupto_good:
  assumes g: "rdgood (Suc n) T0 (os, svs)" and t: "T0 t \<noteq> None" "0 \<le> t" "t < o_lim os"
    and d: "rd_dupto True m t (os, svs) = ((os', svs'), ok)"
  shows "rdgood n T0 (os', svs')" "o_lim os' = o_lim os" "\<And>x. o_fd os x \<noteq> None \<Longrightarrow> o_fd os' x \<noteq> None"
proof -
  have r: "roomy (Suc n) os" using g by (simp add: rdgood_def)
  have "rdgood n T0 (os', svs') \<and> o_lim os' = o_lim os \<and> (\<forall>x. o_fd os x \<noteq> None \<longrightarrow> o_fd os' x \<noteq> None)"
  proof (rule save_cases [OF r, of t svs])
    assume n: "o_fd os t = None" and sv: "rd_save True t (os, svs) = (os, svs @ [(t, -1)])"
    show ?thesis
    proof (cases "o_fd os m")
      case None
      then have os': "os' = os" "svs' = svs @ [(t, -1)]" using d sv by (auto simp: rd_dupto_def fd_dup2_def)
      have "rdgood n T0 (os, svs @ [(t, -1)])"
        by (rule rdgood_push [OF g t, where w = None]) (use n t roomy_le [OF r, of n] in \<open>auto simp: un1_def\<close>)
      then show ?thesis by (simp add: os')
    next
      case (Some h)
      then have os': "os' = os\<lparr>o_fd := (o_fd os)(t := Some h)\<rparr>" "svs' = svs @ [(t, -1)]"
        using d sv t by (auto simp: rd_dupto_def dup2_some)
      have "rdgood n T0 (os', svs')" unfolding os'
        by (rule rdgood_push [OF g t, where w = None]) (use n t roomy_upd [OF r t(2, 3)] in \<open>auto simp: un1_def split: if_splits\<close>)
      then show ?thesis by (auto simp: os')
    qed
  next
    fix q c assume c: "o_fd os t = Some q" "o_fd os c = None" "0 \<le> c" "c < o_lim os" "c \<noteq> t"
      "rd_save True t (os, svs) = (os\<lparr>o_fd := (o_fd os)(c := Some q)\<rparr>, svs @ [(t, c)])"
      "roomy n (os\<lparr>o_fd := (o_fd os)(c := Some q)\<rparr>)"
    let ?o = "os\<lparr>o_fd := (o_fd os)(c := Some q)\<rparr>"
    have os': "svs' = svs @ [(t, c)]" "os' = ?o \<or> (\<exists>h. os' = ?o\<lparr>o_fd := (o_fd ?o)(t := Some h)\<rparr>)"
      using d c(6) t by (auto simp: rd_dupto_def fd_dup2_def split: option.splits)
    have rm: "roomy n os'"
    proof -
      have "dom (o_fd os') = dom (o_fd ?o) \<and> o_lim os' = o_lim ?o" using os'(2) c(1) by (auto split: if_splits)
      with c(7) show ?thesis using roomy_dom [of os' ?o n] by simp
    qed
    have "rdgood n T0 (os', svs')" unfolding os'(1)
      by (rule rdgood_push [OF g t, where w = "o_fd os t"]) (use os'(2) c t rm in \<open>auto simp: un1_def fun_eq_iff split: if_splits\<close>)
    then show ?thesis using os' by (auto split: if_splits)
  qed
  then show "rdgood n T0 (os', svs')" "o_lim os' = o_lim os" "\<And>x. o_fd os x \<noteq> None \<Longrightarrow> o_fd os' x \<noteq> None" by auto
qed

lemma shutfd_good:
  assumes g: "rdgood (Suc n) T0 (os, svs)" and t: "T0 t \<noteq> None" "0 \<le> t" "t < o_lim os"
    and d: "rd_shutfd True t (os, svs) = (os', svs')"
  shows "rdgood n T0 (os', svs')" "o_lim os' = o_lim os"
proof -
  have r: "roomy (Suc n) os" using g by (simp add: rdgood_def)
  have "rdgood n T0 (os', svs') \<and> o_lim os' = o_lim os"
  proof (rule save_cases [OF r, of t svs])
    assume n: "o_fd os t = None" and sv: "rd_save True t (os, svs) = (os, svs @ [(t, -1)])"
    have "(o_fd os)(t := None) = o_fd os" using n by auto
    then have os': "os' = os" "svs' = svs @ [(t, -1)]" using d sv by (auto simp: rd_shutfd_def fd_close_def)
    have "rdgood n T0 (os, svs @ [(t, -1)])"
      by (rule rdgood_push [OF g t, where w = None]) (use n t roomy_le [OF r, of n] in \<open>auto simp: un1_def\<close>)
    then show ?thesis by (simp add: os')
  next
    fix q c assume c: "o_fd os t = Some q" "o_fd os c = None" "0 \<le> c" "c < o_lim os" "c \<noteq> t"
      "rd_save True t (os, svs) = (os\<lparr>o_fd := (o_fd os)(c := Some q)\<rparr>, svs @ [(t, c)])"
      "roomy n (os\<lparr>o_fd := (o_fd os)(c := Some q)\<rparr>)"
    let ?o = "os\<lparr>o_fd := (o_fd os)(c := Some q)\<rparr>"
    have os': "svs' = svs @ [(t, c)]" "os' = ?o\<lparr>o_fd := (o_fd ?o)(t := None)\<rparr>"
      using d c(6) by (auto simp: rd_shutfd_def fd_close_def)
    have "rdgood n T0 (os', svs')" unfolding os'(1)
      by (rule rdgood_push [OF g t, where w = "o_fd os t"])
        (use os'(2) c t roomy_close [OF c(7), of t] in \<open>auto simp: un1_def fun_eq_iff split: if_splits\<close>)
    then show ?thesis by (simp add: os')
  qed
  then show "rdgood n T0 (os', svs')" "o_lim os' = o_lim os" by auto
qed

text \<open>A file opened on the free number \<open>fd\<close>, moved to \<open>t\<close>.\<close>

lemma put_good:
  assumes g: "rdgood (Suc (Suc n)) T0 (os, svs)" and t: "T0 t \<noteq> None" "0 \<le> t" "t < o_lim os"
    and fd: "o_fd os fd = None" "0 \<le> fd" "fd < o_lim os"
    and d: "rd_put True t fd (os\<lparr>o_fd := (o_fd os)(fd := Some f)\<rparr>, svs) = ((os', svs'), ok)"
  shows "rdgood n T0 (os', svs')" "o_lim os' = o_lim os" "ok" "\<And>x. o_fd os x \<noteq> None \<Longrightarrow> o_fd os' x \<noteq> None"
proof -
  let ?o = "os\<lparr>o_fd := (o_fd os)(fd := Some f)\<rparr>"
  have r: "roomy (Suc (Suc n)) os" using g by (simp add: rdgood_def)
  have r1: "roomy (Suc n) ?o" using roomy_upd [OF r fd(2, 3)] .
  have "rdgood n T0 (os', svs') \<and> o_lim os' = o_lim os \<and> ok \<and> (\<forall>x. o_fd os x \<noteq> None \<longrightarrow> o_fd os' x \<noteq> None)"
  proof (rule save_cases [OF r1, of t svs])
    assume n: "o_fd ?o t = None" and sv: "rd_save True t (?o, svs) = (?o, svs @ [(t, -1)])"
    have ft: "fd \<noteq> t" using n by auto
    have os': "os' = ?o\<lparr>o_fd := ((o_fd ?o)(t := Some f))(fd := None)\<rparr>" "svs' = svs @ [(t, -1)]" "ok"
      using d sv t ft by (auto simp: rd_put_def fd_dup2_def fd_close_def)
    have tab: "o_fd os' = (o_fd os)(t := Some f)" using os' fd ft by (auto simp: fun_eq_iff)
    have "roomy (Suc n) (os\<lparr>o_fd := (o_fd os)(t := Some f)\<rparr>)" using roomy_upd [OF r t(2, 3)] .
    then have "roomy n os'" using roomy_dom [of "os\<lparr>o_fd := (o_fd os)(t := Some f)\<rparr>" os'] tab os'(1) roomy_le [of "Suc n" _ n] by simp
    then have "rdgood n T0 (os', svs')" unfolding os'(2)
      by (intro rdgood_push [OF g t, where w = None]) (use n t ft fd os'(1) tab in \<open>auto simp: un1_def split: if_splits\<close>)
    then show ?thesis using os' tab by (auto split: if_splits)
  next
    fix q c assume c: "o_fd ?o t = Some q" "o_fd ?o c = None" "0 \<le> c" "c < o_lim ?o" "c \<noteq> t"
      "rd_save True t (?o, svs) = (?o\<lparr>o_fd := (o_fd ?o)(c := Some q)\<rparr>, svs @ [(t, c)])"
      "roomy n (?o\<lparr>o_fd := (o_fd ?o)(c := Some q)\<rparr>)"
    have fc: "fd \<noteq> c" using c by auto
    show ?thesis
    proof (cases "fd = t")
      case True
      then have os': "os' = ?o\<lparr>o_fd := (o_fd ?o)(c := Some q)\<rparr>" "svs' = svs @ [(t, c)]" "ok" "q = f"
        using d c by (auto simp: rd_put_def)
      have "rdgood n T0 (os', svs')" unfolding os'(2)
        by (rule rdgood_push [OF g t, where w = "Some f"]) (use os' c True fd fc in \<open>auto simp: un1_def fun_eq_iff split: if_splits\<close>)
      then show ?thesis using os' True by (auto split: if_splits)
    next
      case False
      then have os': "os' = ?o\<lparr>o_fd := ((o_fd ?o)(c := Some q, t := Some f))(fd := None)\<rparr>" "svs' = svs @ [(t, c)]" "ok"
        using d c t fc by (auto simp: rd_put_def fd_dup2_def fd_close_def)
      have tab: "o_fd os' = (o_fd os)(c := Some q, t := Some f)" using os' fd False fc by (auto simp: fun_eq_iff)
      have q: "o_fd os t = Some q" "o_fd os c = None" using c(1, 2) False fc by auto
      have "dom (o_fd os') = insert c (dom (o_fd os))" using q by (auto simp: tab split: if_splits)
      then have rm: "roomy n os'"
        using roomy_upd [OF r, of c "Some q"] c(3, 4) roomy_dom [of os' "os\<lparr>o_fd := (o_fd os)(c := Some q)\<rparr>"] os'(1)
          roomy_le [of "Suc n" os' n] by simp
      have "rdgood n T0 (os', svs')" unfolding os'(2)
        by (rule rdgood_push [OF g t, where w = "Some q"]) (use q c t os'(1) tab rm in \<open>auto simp: un1_def fun_eq_iff split: if_splits\<close>)
      then show ?thesis using os' tab by (auto split: if_splits)
    qed
  qed
  then show "rdgood n T0 (os', svs')" "o_lim os' = o_lim os" "ok" "\<And>x. o_fd os x \<noteq> None \<Longrightarrow> o_fd os' x \<noteq> None" by auto
qed

lemma amp_good:
  assumes g: "rdgood (Suc (Suc (Suc n))) T0 (os, svs)" and t: "T0 1 \<noteq> None" "T0 2 \<noteq> None" "2 < o_lim os"
    and std: "\<forall>x \<in> {0, 1, 2}. o_fd os x \<noteq> None"
    and fd: "o_fd os fd = None" "0 \<le> fd" "fd < o_lim os"
    and d: "rd_amp True fd (os\<lparr>o_fd := (o_fd os)(fd := Some f)\<rparr>, svs) = (os', svs')"
  shows "rdgood n T0 (os', svs')" "o_lim os' = o_lim os" "\<And>x. o_fd os x \<noteq> None \<Longrightarrow> o_fd os' x \<noteq> None"
proof -
  let ?o = "os\<lparr>o_fd := (o_fd os)(fd := Some f)\<rparr>"
  have r: "roomy (Suc (Suc (Suc n))) os" using g by (simp add: rdgood_def)
  have f2: "fd \<notin> {0, 1, 2}" using std fd by auto
  then have f3: "fd > 2" using fd(2) by auto
  obtain a b where ab: "o_fd os 1 = Some a" "o_fd os 2 = Some b" using std by auto
  obtain c where c: "fd_new 0 a ?o = (?o\<lparr>o_fd := (o_fd ?o)(c := Some a)\<rparr>, c)" "o_fd ?o c = None" "0 \<le> c" "c < o_lim ?o"
    using fd_new_room [of ?o a] roomy_upd [OF r fd(2, 3)] roomy_le [of "Suc (Suc n)" ?o 1] by auto
  let ?o1 = "?o\<lparr>o_fd := (o_fd ?o)(c := Some a)\<rparr>"
  have r1: "roomy (Suc n) ?o1" using roomy_upd [OF roomy_upd [OF r fd(2, 3), of "Some f"], of c "Some a"] c(3, 4) by simp
  obtain e where e: "fd_new 0 b ?o1 = (?o1\<lparr>o_fd := (o_fd ?o1)(e := Some b)\<rparr>, e)" "o_fd ?o1 e = None" "0 \<le> e" "e < o_lim ?o1"
    using fd_new_room [of ?o1 b] roomy_le [OF r1, of 1] by auto
  have ne: "c \<noteq> fd" "e \<noteq> fd" "e \<noteq> c" "c \<notin> {1, 2}" "e \<notin> {1, 2}" "o_fd os c = None" "o_fd os e = None"
    using c(2) e(2) ab by (auto split: if_splits)
  let ?o2 = "?o1\<lparr>o_fd := (o_fd ?o1)(e := Some b)\<rparr>"
  have f: "o_fd ?o 1 = Some a" "o_fd ?o1 2 = Some b" "o_fd ?o2 fd = Some f" using ab f2 ne by auto
  have sv: "rd_save True 2 (rd_save True 1 (?o, svs)) = (?o2, (svs @ [(1, c)]) @ [(2, e)])"
    unfolding rd_save_def fd_dup_def prod.case f(1) option.case c(1) Let_def if_not_P by (simp only: prod.case f(2) option.case e(1) if_not_P simp_thms if_False)
  let ?o3 = "?o2\<lparr>o_fd := (o_fd ?o2)(1 := Some f)\<rparr>"
  have d2: "fd_dup2 fd 1 ?o2 = (?o3, True)" "fd_dup2 fd 2 ?o3 = (?o3\<lparr>o_fd := (o_fd ?o3)(2 := Some f)\<rparr>, True)"
    by (rule dup2_some; use f(3) t(3) f2 in simp)+
  have os': "svs' = (svs @ [(1, c)]) @ [(2, e)]" "os' = fd_close fd (?o3\<lparr>o_fd := (o_fd ?o3)(2 := Some f)\<rparr>)"
    using d f3 unfolding rd_amp_def sv prod.case Let_def d2(1) fst_conv d2(2) by simp_all
  then have os': "svs' = (svs @ [(1, c)]) @ [(2, e)]"
    "o_fd os' = (o_fd os)(c := Some a, 1 := Some f, e := Some b, 2 := Some f)" "o_lim os' = o_lim os"
    using ne(1-5) fd(1) f2 by (simp_all add: fd_close_def) (auto simp: fun_eq_iff)
  let ?m = "os\<lparr>o_fd := (o_fd os)(c := Some a, 1 := Some f)\<rparr>"
  have rm: "roomy (Suc n) ?m"
  proof -
    have "roomy (Suc (Suc n)) (os\<lparr>o_fd := (o_fd os)(c := Some a)\<rparr>)" using roomy_upd [OF r, of c "Some a"] c(3, 4) by simp
    from roomy_le [OF this, of "Suc n"] show ?thesis
      using roomy_dom [of "os\<lparr>o_fd := (o_fd os)(c := Some a)\<rparr>" ?m] ab by (auto simp: insert_absorb domIff)
  qed
  have m: "rdgood (Suc n) T0 (?m, svs @ [(1, c)])"
    by (rule rdgood_push [OF g t(1), where w = "Some a"]) (use ab c ne t(3) rm in \<open>auto simp: un1_def fun_eq_iff split: if_splits\<close>)
  have r': "roomy n os'"
  proof -
    have "roomy n (?m\<lparr>o_fd := (o_fd ?m)(e := Some b)\<rparr>)" using roomy_upd [OF rm, of e "Some b"] e(3, 4) by simp
    then show ?thesis
      using roomy_dom [of os' "?m\<lparr>o_fd := (o_fd ?m)(e := Some b)\<rparr>"] ab os'(2, 3) by (auto simp: insert_absorb domIff insert_commute)
  qed
  show "rdgood n T0 (os', svs')" unfolding os'(1)
    by (rule rdgood_push [OF m t(2), where w = "Some b"]) (use ab e ne t(3) os' r' in \<open>auto simp: un1_def fun_eq_iff split: if_splits\<close>)
  show "o_lim os' = o_lim os" by (rule os'(3))
  show "o_fd os x \<noteq> None \<Longrightarrow> o_fd os' x \<noteq> None" for x by (simp add: os'(2))
qed

text \<open>What opens a file takes one free number, or none.\<close>

definition opened :: "('w, 'f) osys \<Rightarrow> ('w, 'f) osys \<Rightarrow> int \<Rightarrow> bool" where
  "opened os os' fd \<longleftrightarrow>
    (if fd < 0 then o_fd os' = o_fd os \<and> o_lim os' = o_lim os
     else \<exists>f os1. os' = os1\<lparr>o_fd := (o_fd os1)(fd := Some f)\<rparr> \<and> o_fd os1 = o_fd os \<and> o_lim os1 = o_lim os \<and>
       o_fd os fd = None \<and> fd < o_lim os)"

lemma new_opened: "fd_new 0 f os1 = (os', fd) \<Longrightarrow> o_fd os1 = o_fd os \<Longrightarrow> o_lim os1 = o_lim os \<Longrightarrow> opened os os' fd"
  using fd_new_some [of 0 f os1 os' fd] fd_new_none [of 0 f os1 os' fd] unfolding opened_def
  by (auto intro!: exI [of _ f] exI [of _ os1])

lemma got_opened: "fd_got r os = (os', fd) \<Longrightarrow> opened os os' fd"
  by (auto simp: fd_got_def opened_def [of _ _ "-1"] split: prod.splits option.splits intro: new_opened)

lemma hdfd_opened: "hdfd R t os = (os', fd) \<Longrightarrow> opened os os' fd"
  unfolding hdfd_def
  by (auto simp: opened_def [of _ _ "-1"] split: if_splits prod.splits option.splits intro: new_opened)

lemma open_opened: "rd_open R nc r t os = (os', fd) \<Longrightarrow> opened os os' fd"
  unfolding rd_open_def by (auto split: if_splits intro: got_opened hdfd_opened)

lemma rdgood_cong: "o_fd os = o_fd os' \<Longrightarrow> o_lim os = o_lim os' \<Longrightarrow> rdgood n T0 (os, svs) = rdgood n T0 (os', svs)"
  by (simp add: rdgood_def roomy_def)

lemma rdgood_le: "rdgood m T0 p \<Longrightarrow> n \<le> m \<Longrightarrow> rdgood n T0 p"
  by (auto simp: rdgood_def intro: roomy_le)

subsection \<open>A list of redirections\<close>

text \<open>The descriptors a redirection without a variable needs to be open before: the one it names, and for
  \<open>&>\<close> and \<open>>& file\<close> the standard ones.\<close>

definition rd_tgts :: "redir \<Rightarrow> int set" where
  "rd_tgts r = {rd_fd r} \<union> (if rf RF_BOTH r then {2} else {}) \<union> (if rf RF_NOFD r then {0, 1, 2} else {})"

definition std :: "(int \<Rightarrow> 'f option) \<Rightarrow> bool" where
  "std T \<longleftrightarrow> T 0 \<noteq> None \<and> T 1 \<noteq> None \<and> T 2 \<noteq> None"

lemma put_step:
  assumes o: "opened os os' fd" "fd \<ge> 0" and g: "rdgood (Suc (Suc n)) T0 (os, svs)" and t: "T0 t \<noteq> None" "0 \<le> t" "t < o_lim os"
    and d: "rd_put True t fd (os', svs) = ((os2, svs2), ok)"
  shows "rdgood n T0 (os2, svs2) \<and> o_lim os2 = o_lim os \<and> ok \<and> (std (o_fd os) \<longrightarrow> std (o_fd os2))"
proof -
  obtain f os1 where 1: "os' = os1\<lparr>o_fd := (o_fd os1)(fd := Some f)\<rparr>" "o_fd os1 = o_fd os" "o_lim os1 = o_lim os" "o_fd os fd = None" "fd < o_lim os"
    using o by (auto simp: opened_def)
  note p = put_good [of n T0 os1 svs t fd f os2 svs2 ok]
  have "rdgood (Suc (Suc n)) T0 (os1, svs)" using g rdgood_cong [OF 1(2, 3)] by simp
  with p t o(2) d 1 show ?thesis by (auto simp: std_def)
qed

lemma var_fields [simp]: "e_os (rd_setvar R v fd s) = e_os s"
  by (simp add: rd_setvar_def on_sh_def)

text \<open>One redirection: \<open>cl\<close> is whether the word may be a dash.\<close>

lemma step_good:
  assumes d: "rd_step R True r s svs = ((s', svs'), res)" and one: "\<And>s w. e_os (fst (r_one R s w)) = e_os s"
    and g: "rdgood (Suc (Suc (Suc n))) T0 (e_os s, svs)" and v: "rd_var r = None"
    and t: "\<forall>x \<in> rd_tgts r. T0 x \<noteq> None" and T0: "dom T0 \<subseteq> {0..<o_lim (e_os s)}"
    and cl: "rf RF_NOFD r \<Longrightarrow> std (o_fd (e_os s))"
  shows "rdgood n T0 (e_os s', svs') \<and> o_lim (e_os s') = o_lim (e_os s) \<and>
    ((\<forall>s. snd (r_one R s (rd_w r)) \<noteq> ''-'') \<longrightarrow> std (o_fd (e_os s)) \<longrightarrow> std (o_fd (e_os s')))"
proof -
  obtain s1 t0 where s1: "r_one R s (rd_w r) = (s1, t0)" by fastforce
  have os1: "e_os s1 = e_os s" using one [of s "rd_w r"] by (simp add: s1)
  let ?os = "e_os s"
  have g1: "rdgood (Suc n) T0 (?os, svs)" "rdgood (Suc (Suc n)) T0 (?os, svs)" "rdgood n T0 (?os, svs)"
    using rdgood_le [OF g] by simp_all
  have tg: "T0 (rd_fd r) \<noteq> None" "0 \<le> rd_fd r" "rd_fd r < o_lim ?os" using t T0 by (auto simp: rd_tgts_def)
  have put: "opened ?os os' fd \<Longrightarrow> fd \<ge> 0 \<Longrightarrow> rd_put True (rd_fd r) fd (os', svs) = ((os2, svs2), ok) \<Longrightarrow>
      rdgood (Suc n) T0 (os2, svs2) \<and> o_lim os2 = o_lim ?os \<and> ok \<and> (std (o_fd ?os) \<longrightarrow> std (o_fd os2))" for os' fd os2 svs2 ok
    using put_step [of ?os os' fd "Suc n" T0 svs "rd_fd r"] g tg by auto
  have opn: "opened ?os os' fd \<Longrightarrow> fd < 0 \<Longrightarrow> rdgood n T0 (os', svs) \<and> o_lim os' = o_lim ?os \<and> o_fd os' = o_fd ?os" for os' fd
    using g1(3) rdgood_cong [of os' ?os n T0 svs] by (simp add: opened_def)
  let ?G = "\<lambda>s' svs'. rdgood n T0 (e_os s', svs') \<and> o_lim (e_os s') = o_lim ?os \<and>
    ((\<forall>s. snd (r_one R s (rd_w r)) \<noteq> ''-'') \<longrightarrow> std (o_fd ?os) \<longrightarrow> std (o_fd (e_os s')))"
  have sock: "?G s' svs'" if "rd_sock R True r t s1 svs = ((s', svs'), res)" for t
  proof (cases "fd_got (r_sock R (o_w ?os) t) ?os")
    case (Pair os' fd)
    note o = got_opened [OF Pair]
    obtain os2 svs2 ok where p: "rd_put True (rd_fd r) fd (os', svs) = ((os2, svs2), ok)" by (metis surj_pair)
    show ?thesis
      using that opn [OF o] put [OF o _ p] rdgood_le [of "Suc n" T0 "(os2, svs2)" n] v
      by (cases "fd < 0") (auto simp: rd_sock_def os1 Pair put_os_def p)
  qed
  have fileq: "?G s' svs'" if f: "rd_file R True r t s1 svs = ((s', svs'), res)" for t
  proof (cases "rd_open R (e_noclob s1) r t ?os")
    case (Pair os' fd)
    note o = open_opened [OF Pair]
    show ?thesis
    proof (cases "fd < 0")
      case True
      then show ?thesis using f opn [OF o] by (auto simp: rd_file_def os1 Pair)
    next
      case False
      obtain os2 svs2 ok where p: "rd_put True (rd_fd r) fd (os', svs) = ((os2, svs2), ok)" by (metis surj_pair)
      from put [OF o _ p] False have q: "rdgood (Suc n) T0 (os2, svs2)" "o_lim os2 = o_lim ?os" "ok" "std (o_fd ?os) \<longrightarrow> std (o_fd os2)" by auto
      show ?thesis
      proof (cases "rf RF_BOTH r")
        case True
        then have t2: "T0 2 \<noteq> None" "2 < o_lim os2" using t T0 q(2) by (auto simp: rd_tgts_def)
        obtain os3 svs3 ok3 where p3: "rd_dupto True (rd_fd r) 2 (os2, svs2) = ((os3, svs3), ok3)" by (metis surj_pair)
        have "rdgood n T0 (os3, svs3)" "o_lim os3 = o_lim os2" "\<And>x. o_fd os2 x \<noteq> None \<Longrightarrow> o_fd os3 x \<noteq> None"
          using dupto_good [OF q(1) t2(1) _ t2(2) p3] by auto
        then show ?thesis using f False v p q True p3 by (auto simp: rd_file_def os1 Pair put_os_def std_def)
      next
        case b: False
        then show ?thesis using f False v p q rdgood_le [of "Suc n" T0 _ n] by (auto simp: rd_file_def os1 Pair put_os_def)
      qed
    qed
  qed
  have dups: "?G s' svs'" if f: "rd_dups R True r t0 s1 svs = ((s', svs'), res)"
  proof -
    consider "t0 = ''-''" | "t0 \<noteq> ''-''" "\<not> rd_isfd (Some t0)" "rf RF_NOFD r \<and> rd_fd r = 1 \<and> t0 \<noteq> []"
      | "t0 \<noteq> ''-''" "\<not> rd_isfd (Some t0)" "\<not> (rf RF_NOFD r \<and> rd_fd r = 1 \<and> t0 \<noteq> [])" | "t0 \<noteq> ''-''" "rd_isfd (Some t0)" by blast
    then show ?thesis
    proof cases
      case 1
      obtain os2 svs2 where p: "rd_shutfd True (rd_fd r) (?os, svs) = (os2, svs2)" by fastforce
      have "rdgood n T0 (os2, svs2)" "o_lim os2 = o_lim ?os" using shutfd_good [OF g1(1) tg p] by auto
      moreover have "\<not> (\<forall>s. snd (r_one R s (rd_w r)) \<noteq> ''-'')" using s1 1 by (metis snd_conv)
      ultimately show ?thesis using f 1 v p by (auto simp: rd_dups_def os1 put_os_def split: if_splits)
    next
      case 2
      obtain os' fd where q: "fd_got (r_open R (o_w ?os) R_OUT (e_noclob s1 \<and> \<not> r_odd R (o_w ?os) t0) t0) ?os = (os', fd)" by fastforce
      note o = got_opened [OF q]
      show ?thesis
      proof (cases "fd < 0")
        case True
        then show ?thesis using f 2 opn [OF o] q by (auto simp: rd_dups_def os1)
      next
        case False
        obtain h os1 where h: "os' = os1\<lparr>o_fd := (o_fd os1)(fd := Some h)\<rparr>" "o_fd os1 = o_fd ?os" "o_lim os1 = o_lim ?os" "o_fd ?os fd = None" "fd < o_lim ?os"
          using o False by (auto simp: opened_def)
        obtain os2 svs2 where p: "rd_amp True fd (os', svs) = (os2, svs2)" by fastforce
        have sd: "std (o_fd ?os)" using cl 2 by blast
        have tt: "T0 1 \<noteq> None" "T0 2 \<noteq> None" "2 < o_lim ?os" using t 2 T0 by (auto simp: rd_tgts_def)
        have "rdgood (Suc (Suc (Suc n))) T0 (os1, svs)" using g rdgood_cong [OF h(2, 3)] by simp
        from amp_good [OF this, of fd h os2 svs2] p h tt sd False
        have "rdgood n T0 (os2, svs2)" "o_lim os2 = o_lim ?os" "std (o_fd os2)" by (auto simp: std_def)
        then show ?thesis using f 2 q False p by (auto simp: rd_dups_def \<open>e_os s1 = e_os s\<close> put_os_def)
      qed
    next
      case 3
      then have "s' = s1 \<and> svs' = svs" using f by (auto simp: rd_dups_def split: if_splits)
      then show ?thesis using g1(3) os1 by simp
    next
      case 4
      obtain os2 svs2 ok where p: "rd_dupto True (atoi t0) (rd_fd r) (?os, svs) = ((os2, svs2), ok)" by (metis surj_pair)
      have "rdgood n T0 (os2, svs2)" "o_lim os2 = o_lim ?os" "\<And>x. o_fd ?os x \<noteq> None \<Longrightarrow> o_fd os2 x \<noteq> None"
        using dupto_good [OF g1(1) tg p] by auto
      then show ?thesis using f 4 v p by (auto simp: rd_dups_def os1 put_os_def std_def)
    qed
  qed
  show ?thesis
    using d sock fileq dups g1(3) os1 by (auto simp: rd_step_def s1 Let_def split: if_splits)
qed

lemma loop_good:
  assumes one: "\<And>s w. e_os (fst (r_one R s w)) = e_os s"
    and d: "rd_loop R True rs s svs ok = (s', svs', ok')" and g: "rdgood (3 * length rs) T0 (e_os s, svs)"
    and v: "\<forall>r \<in> set rs. rd_var r = None \<and> (\<forall>x \<in> rd_tgts r. T0 x \<noteq> None)" and T0: "dom T0 \<subseteq> {0..<o_lim (e_os s)}"
    and cl: "(\<exists>r \<in> set rs. rf RF_NOFD r) \<Longrightarrow> std (o_fd (e_os s)) \<and> (\<forall>r \<in> set rs. \<forall>s. snd (r_one R s (rd_w r)) \<noteq> ''-'')"
  shows "rdgood 0 T0 (e_os s', svs') \<and> o_lim (e_os s') = o_lim (e_os s)"
  using d g v T0 cl
proof (induction rs arbitrary: s svs ok)
  case (Cons r rs)
  obtain s1 svs1 res where st: "rd_step R True r s svs = ((s1, svs1), res)" by (metis surj_pair)
  have g: "rdgood (Suc (Suc (Suc (3 * length rs)))) T0 (e_os s, svs)" using Cons.prems(2) by (simp add: eval_nat_numeral)
  have a: "rdgood (3 * length rs) T0 (e_os s1, svs1)" "o_lim (e_os s1) = o_lim (e_os s)"
    "(\<forall>s. snd (r_one R s (rd_w r)) \<noteq> ''-'') \<longrightarrow> std (o_fd (e_os s)) \<longrightarrow> std (o_fd (e_os s1))"
    using step_good [OF st one g] Cons.prems(3-5) by auto
  show ?case
  proof (cases "res = RStop")
    case True
    then show ?thesis using Cons.prems(1) st a rdgood_le [OF a(1), of 0] by simp
  next
    case False
    then have "rd_loop R True rs s1 svs1 (ok \<and> res = RNext) = (s', svs', ok')" using Cons.prems(1) st by simp
    from Cons.IH [OF this a(1)] show ?thesis using Cons.prems(3-5) a(2, 3) by auto
  qed
qed (simp add: rdgood_le)

lemma loop_undone:
  assumes "rd_do R True s rs = (s', svs, ok)" "\<And>s w. e_os (fst (r_one R s w)) = e_os s"
    "\<forall>r \<in> set rs. rd_var r = None \<and> (\<forall>x \<in> rd_tgts r. o_fd (e_os s) x \<noteq> None)"
    "\<forall>r \<in> set rs. rf RF_NOFD r \<longrightarrow> (\<forall>q \<in> set rs. \<forall>s. snd (r_one R s (rd_w q)) \<noteq> ''-'')"
    "dom (o_fd (e_os s)) \<subseteq> {0..<o_lim (e_os s)}" "int (card (dom (o_fd (e_os s))) + 3 * length rs) \<le> o_lim (e_os s)"
  shows "o_fd (rd_undo (e_os s') svs) = o_fd (e_os s)"
proof -
  have "rdgood (3 * length rs) (o_fd (e_os s)) (e_os s, [])"
    using assms(5, 6) by (auto simp: rdgood_def roomy_def rdinv_def)
  moreover have "std (o_fd (e_os s))" if "\<exists>r \<in> set rs. rf RF_NOFD r" using that assms(3) by (force simp: rd_tgts_def std_def)
  ultimately have "rdgood 0 (o_fd (e_os s)) (e_os s', svs)"
    using loop_good [of R rs s "[]" True s' svs ok "o_fd (e_os s)"] assms by (auto simp: rd_do_def)
  then show ?thesis by (simp add: rdgood_def rdinv_def rd_undo_tab)
qed

text \<open>C9: undoing a list of redirections, whether it was done to its end or failed on the way, gives the process the
  descriptors it had, whatever files could be opened and however copies and files shared numbers, if the descriptors
  it names were open, there was room for the copies and none is a \<open>{v}\<close> one.\<close>

theorem redirections_undone:
  assumes "rd_do R True s rs = (s', svs, ok)" "\<And>s w. e_os (fst (r_one R s w)) = e_os s"
    "\<forall>r \<in> set rs. rd_var r = None \<and> (\<forall>x \<in> rd_tgts r. o_fd (e_os s) x \<noteq> None)"
    "\<forall>r \<in> set rs. rf RF_NOFD r \<longrightarrow> (\<forall>q \<in> set rs. \<forall>s. snd (r_one R s (rd_w q)) \<noteq> ''-'')"
    "dom (o_fd (e_os s)) \<subseteq> {0..<o_lim (e_os s)}" "int (card (dom (o_fd (e_os s))) + 3 * length rs) \<le> o_lim (e_os s)"
  shows "o_fd (rd_undo (e_os s') svs) = o_fd (e_os s)"
  using loop_undone [OF assms] .

text \<open>A compound command's redirections are undone after it: the descriptors are what they were before it if
  its body leaves them as it finds them.\<close>

theorem compound_redirections:
  assumes "ex_rd (rd_ops R K) rs ln body s = Some (s', v)" "\<And>s w. e_os (fst (r_one R s w)) = e_os s"
    "\<And>s t v. body s = Some (t, v) \<Longrightarrow> o_fd (e_os t) = o_fd (e_os s) \<and> o_lim (e_os t) = o_lim (e_os s)"
    "\<forall>r \<in> set rs. rd_var r = None \<and> (\<forall>x \<in> rd_tgts r. o_fd (e_os s) x \<noteq> None)"
    "\<forall>r \<in> set rs. rf RF_NOFD r \<longrightarrow> (\<forall>q \<in> set rs. \<forall>s. snd (r_one R s (rd_w q)) \<noteq> ''-'')"
    "dom (o_fd (e_os s)) \<subseteq> {0..<o_lim (e_os s)}" "int (card (dom (o_fd (e_os s))) + 3 * length rs) \<le> o_lim (e_os s)"
  shows "o_fd (e_os s') = o_fd (e_os s)"
proof -
  obtain s1 svs ok where d: "rd_do R True (s\<lparr>e_ln := ln\<rparr>) rs = (s1, svs, ok)" by (metis surj_pair)
  have u: "o_fd (rd_undo (e_os s1) svs) = o_fd (e_os s)"
    using loop_undone [OF d assms(2)] assms(4-7) by simp
  show ?thesis
  proof (cases ok)
    case True
    then obtain s2 where b: "body s1 = Some (s2, v)" "s' = s2\<lparr>e_os := rd_undo (e_os s2) svs\<rparr>"
      using assms(1) d by (auto simp: ex_rd_def rd_ops_def split: bind_splits)
    then show ?thesis using assms(3) [OF b(1)] u by (simp add: rd_undo_tab)
  qed (use assms(1) d u in \<open>auto simp: ex_rd_def rd_ops_def ret_st_def with_st_def\<close>)
qed

subsection \<open>Where the undoing does not\<close>

text \<open>Words as their text and files by name, of which one cannot be opened.\<close>

definition plain_r :: "(unit, string) rdk" where
  "plain_r =
    \<lparr>r_one = \<lambda>s w. (s, lit w), r_net = \<lambda>s t. False, r_sock = \<lambda>w t. (w, None),
      r_open = \<lambda>w k x t. (w, if t = ''/no'' then None else Some t), r_odd = \<lambda>w t. False, r_pipe = \<lambda>w t. Some t,
      r_tmp = \<lambda>w t. (w, None), r_plan = \<lambda>s k t. False, r_plfd = -1, r_eval = \<lambda>h t. (h, 0)\<rparr>"

definition tty :: "(unit, string) osys" where
  "tty = \<lparr>o_fd = (\<lambda>i. if i \<in> {0, 1, 2} then Some ''tty'' else None), o_lim = 16, o_w = ()\<rparr>"

definition redir_to :: "int \<Rightarrow> nat \<Rightarrow> string \<Rightarrow> redir" where
  "redir_to fd k t = \<lparr>rd_w = wlit t, rd_var = None, rd_fd = fd, rd_k = k, rd_fl = 0\<rparr>"

definition fds_after :: "redir list \<Rightarrow> string option list \<times> string option list \<times> bool" where
  "fds_after rs =
    (case rd_do plain_r True (exs_of tty sh0 []) rs of (s, svs, ok) \<Rightarrow>
       (map (o_fd (e_os s)) [0..5], map (o_fd (rd_undo (e_os s) svs)) [0..5], ok))"

lemma fds_after_both:
  "fds_after [redir_to 1 R_OUT ''f'', redir_to 2 R_DUP ''1''] =
    ([Some ''tty'', Some ''f'', Some ''f'', Some ''tty'', Some ''tty'', None], [Some ''tty'', Some ''tty'', Some ''tty'', None, None, None], True)"
  by code_simp


theorem redirections_undone_witness:
  "\<exists>s' svs ok. rd_do plain_r True (exs_of tty sh0 []) [redir_to 1 R_OUT ''f'', redir_to 2 R_DUP ''1''] = (s', svs, ok) \<and>
    o_fd (rd_undo (e_os s') svs) = o_fd tty"
proof -
  let ?rs = "[redir_to 1 R_OUT ''f'', redir_to 2 R_DUP ''1'']"
  obtain s' svs ok where d: "rd_do plain_r True (exs_of tty sh0 []) ?rs = (s', svs, ok)" by (metis surj_pair)
  have dm: "dom (o_fd tty) = {0, 1, 2}" by (auto simp: tty_def split: if_splits)
  have "o_fd (rd_undo (e_os s') svs) = o_fd (e_os (exs_of tty sh0 []))"
    by (rule redirections_undone [OF d])
      (auto simp: plain_r_def redir_to_def rd_tgts_def rf_def exs_of_def dm, auto simp: tty_def)
  with d show ?thesis by (auto simp: exs_of_def)
qed

theorem compound_redirections_witness:
  "\<exists>s' v. ex_rd (rd_ops plain_r plain_k) [redir_to 1 R_OUT ''f''] 1 (\<lambda>s. Some (s, 0)) (exs_of tty sh0 []) = Some (s', v) \<and> o_fd (e_os s') = o_fd tty"
proof -
  let ?c = "ex_rd (rd_ops plain_r plain_k) [redir_to 1 R_OUT ''f''] 1 (\<lambda>s. Some (s, 0)) (exs_of tty sh0 [])"
  have "map_option snd ?c = Some 0" by code_simp
  then obtain s' v where c: "?c = Some (s', v)" by auto
  have dm: "dom (o_fd tty) = {0, 1, 2}" by (auto simp: tty_def split: if_splits)
  have "o_fd (e_os s') = o_fd (e_os (exs_of tty sh0 []))"
    by (rule compound_redirections [OF c])
      (auto simp: plain_r_def redir_to_def rd_tgts_def rf_def exs_of_def dm, auto simp: tty_def)
  with c show ?thesis by (auto simp: exs_of_def)
qed

end
