(* ===== verification/FieldSplit.thy ===== *)
theory FieldSplit
  imports Prelude
begin

text \<open>
  Field splitting of src/expand.c: \<open>xifs\<close>, \<open>xsplitn\<close>, \<open>xsplit\<close>, \<open>xunbrk\<close>. Expanded text is a list of
  bytes with their quote marks: 0 unquoted, 1 quoted, and 2 and 3 on the space that stands for a field break of
  a quoted and of an unquoted list.
\<close>

type_synonym mtext = "(char \<times> nat) list"

subsection \<open>The next field\<close>

definition ifs_ws :: "char \<Rightarrow> bool" where
  "ifs_ws c \<longleftrightarrow> c = CHR '' '' \<or> c = CHR 0x09 \<or> c = CHR 0x0A"

definition xifsnws :: "string \<Rightarrow> bool" where
  "xifsnws ifs \<longleftrightarrow> dropWhile ifs_ws ifs \<noteq> []"

definition xifsat :: "string \<Rightarrow> char \<times> nat \<Rightarrow> bool" where
  "xifsat ifs b \<longleftrightarrow> snd b = 0 \<and> strchr ifs (fst b) \<noteq> None"

definition xifsws :: "string \<Rightarrow> char \<times> nat \<Rightarrow> bool" where
  "xifsws ifs b \<longleftrightarrow> ifs_ws (fst b) \<and> xifsat ifs b"

text \<open>What is left of the text after the field and its delimiter, or no field; \<open>first\<close> is at the text's start.\<close>

definition xifs :: "string \<Rightarrow> bool \<Rightarrow> mtext \<Rightarrow> (mtext \<times> mtext) option" where
  "xifs ifs first b0 =
    (let b = (if first then dropWhile (xifsws ifs) b0 else b0) in
     if b = [] then None
     else
       let f = takeWhile (\<lambda>c. \<not> xifsat ifs c) b; r = dropWhile (\<lambda>c. \<not> xifsat ifs c) b in
       if r = [] then (if f \<noteq> [] then Some (f, []) else None)
       else if xifsws ifs (hd r) then
         (let r1 = dropWhile (xifsws ifs) r; r2 = (if r1 \<noteq> [] \<and> xifsat ifs (hd r1) then tl r1 else r1)
          in Some (f, dropWhile (xifsws ifs) r2))
       else Some (f, dropWhile (xifsws ifs) (tl r)))"

lemma length_dropWhile_less: "b \<noteq> [] \<Longrightarrow> P (hd b) \<Longrightarrow> length (dropWhile P b) < length b"
  by (cases b) (simp_all add: length_dropWhile_le le_imp_less_Suc)

lemma xifs_shorter:
  assumes "xifs ifs first b = Some (f, r)"
  shows "length r < length b"
proof -
  define b1 where "b1 = (if first then dropWhile (xifsws ifs) b else b)"
  have b1: "length b1 \<le> length b" by (simp add: b1_def length_dropWhile_le)
  define r0 where "r0 = dropWhile (\<lambda>c. \<not> xifsat ifs c) b1"
  have r0: "length r0 \<le> length b1" by (simp add: r0_def length_dropWhile_le)
  have le: "length (dropWhile (xifsws ifs) x) \<le> length x" for x by (rule length_dropWhile_le)
  have pos: "r0 \<noteq> [] \<Longrightarrow> length r0 - Suc 0 < length b" using b1 r0 by (cases r0) auto
  show ?thesis
    using assms b1 r0 pos le [of "tl r0"] le [of r0] le [of "dropWhile (xifsws ifs) r0"] le [of "tl (dropWhile (xifsws ifs) r0)"]
      length_dropWhile_less [of r0 "xifsws ifs"]
    by (auto simp: xifs_def Let_def simp flip: b1_def r0_def split: if_splits)
qed

function xifs_all :: "string \<Rightarrow> bool \<Rightarrow> mtext \<Rightarrow> mtext list" where
  "xifs_all ifs first b = (case xifs ifs first b of None \<Rightarrow> [] | Some (f, r) \<Rightarrow> f # xifs_all ifs False r)"
  by pat_completeness auto
termination
  by (relation "measure (\<lambda>(ifs, first, b). length b)") (auto dest: xifs_shorter)

declare xifs_all.simps [simp del]

subsection \<open>Splitting a buffer\<close>

text \<open>The loop taken when IFS is white space only.\<close>

function xws_all :: "string \<Rightarrow> mtext \<Rightarrow> mtext list" where
  "xws_all ifs b =
    (let b1 = dropWhile (xifsat ifs) b in
     if b1 = [] then []
     else takeWhile (\<lambda>c. \<not> xifsat ifs c) b1 # xws_all ifs (dropWhile (\<lambda>c. \<not> xifsat ifs c) b1))"
  by pat_completeness auto
termination
proof (relation "measure (\<lambda>(ifs, b). length b)")
  fix ifs :: string and b b1 :: mtext
  assume b: "b1 = dropWhile (xifsat ifs) b" "b1 \<noteq> []"
  then have "\<not> xifsat ifs (hd b1)" by (simp add: hd_dropWhile)
  with b show "((ifs, dropWhile (\<lambda>c. \<not> xifsat ifs c) b1), ifs, b) \<in> measure (\<lambda>(ifs, b). length b)"
    using length_dropWhile_less [of b1 "\<lambda>c. \<not> xifsat ifs c"] length_dropWhile_le [of "xifsat ifs" b] by simp
qed simp

declare xws_all.simps [simp del]

definition xsplitn :: "string option \<Rightarrow> mtext \<Rightarrow> mtext list" where
  "xsplitn ifso b =
    (let ifs = (case ifso of Some i \<Rightarrow> i | None \<Rightarrow> [CHR '' '', CHR 0x09, CHR 0x0A]) in
     if xifsnws ifs then xifs_all ifs True b else xws_all ifs b)"

text \<open>A piece between two field breaks (\<open>pb\<close> and \<open>nb\<close>, 0 at an end of the text).\<close>

definition xpiece :: "string option \<Rightarrow> nat \<Rightarrow> nat \<Rightarrow> mtext \<Rightarrow> mtext list" where
  "xpiece ifso pb nb cur = (if cur \<noteq> [] then xsplitn ifso cur else if pb = 2 \<or> nb = 2 then [[]] else [])"

fun xsplit_brk :: "string option \<Rightarrow> nat \<Rightarrow> mtext \<Rightarrow> mtext \<Rightarrow> mtext list" where
  "xsplit_brk ifso pb cur [] = xpiece ifso pb 0 cur"
| "xsplit_brk ifso pb cur ((c, m) # b) =
    (if m < 2 then xsplit_brk ifso pb (cur @ [(c, m)]) b else xpiece ifso pb m cur @ xsplit_brk ifso m [] b)"

definition xsplit :: "string option \<Rightarrow> bool \<Rightarrow> mtext \<Rightarrow> mtext list" where
  "xsplit ifso brk b = (if brk then xsplit_brk ifso 0 [] b else xsplitn ifso b)"

definition xunbrk :: "mtext \<Rightarrow> mtext" where
  "xunbrk = map (\<lambda>(c, m). (c, if m \<ge> 2 then (if m = 2 then 1 else 0) else m))"

subsection \<open>Delimiters\<close>

text \<open>A delimiter of POSIX: IFS white space, or one other IFS character with IFS white space around it.\<close>

definition dlm_ws :: "string \<Rightarrow> mtext \<Rightarrow> bool" where
  "dlm_ws ifs d \<longleftrightarrow> d \<noteq> [] \<and> (\<forall>c \<in> set d. xifsws ifs c)"

definition dlm_ch :: "string \<Rightarrow> mtext \<Rightarrow> bool" where
  "dlm_ch ifs d \<longleftrightarrow> (\<exists>u c v. d = u @ c # v \<and> xifsat ifs c \<and> \<not> xifsws ifs c \<and> (\<forall>x \<in> set u \<union> set v. xifsws ifs x))"

definition dlm :: "string \<Rightarrow> mtext \<Rightarrow> bool" where
  "dlm ifs d \<longleftrightarrow> dlm_ws ifs d \<or> dlm_ch ifs d"

definition plainf :: "string \<Rightarrow> mtext \<Rightarrow> bool" where
  "plainf ifs f \<longleftrightarrow> (\<forall>c \<in> set f. \<not> xifsat ifs c)"

text \<open>Fields with the delimiter after each: an empty field needs a delimiter of its own, which is no white space.\<close>

fun fseq :: "string \<Rightarrow> (mtext \<times> mtext) list \<Rightarrow> mtext \<Rightarrow> bool" where
  "fseq ifs [] l \<longleftrightarrow> plainf ifs l"
| "fseq ifs ((f, d) # r) l \<longleftrightarrow>
    plainf ifs f \<and> dlm ifs d \<and> (f = [] \<longrightarrow> dlm_ch ifs d \<and> xifsat ifs (hd d) \<and> \<not> xifsws ifs (hd d)) \<and>
    (dlm_ws ifs d \<longrightarrow> (r = [] \<or> fst (hd r) \<noteq> [])) \<and> fseq ifs r l"

definition fcat :: "(mtext \<times> mtext) list \<Rightarrow> mtext \<Rightarrow> mtext" where
  "fcat fs l = concat (map (\<lambda>(f, d). f @ d) fs) @ l"

lemma ws_at: "xifsws ifs c \<Longrightarrow> xifsat ifs c"
  by (simp add: xifsws_def)

lemma take_field: "(\<forall>x \<in> set u. P x) \<Longrightarrow> (v = [] \<or> \<not> P (hd v)) \<Longrightarrow> takeWhile P (u @ v) = u \<and> dropWhile P (u @ v) = v"
  by (induction u) (cases v; simp)+

text \<open>What a delimiter leaves: nothing of itself, if what follows does not start with IFS white space.\<close>

lemma xifs_field:
  assumes f: "plainf ifs f" and d: "dlm ifs d" and t: "t = [] \<or> \<not> xifsws ifs (hd t)"
    and w: "dlm_ws ifs d \<Longrightarrow> t = [] \<or> \<not> xifsat ifs (hd t)" and e: "first \<Longrightarrow> f = [] \<Longrightarrow> \<not> xifsws ifs (hd d)"
  shows "xifs ifs first (f @ d @ t) = Some (f, t)"
proof -
  have dn: "d \<noteq> []" "xifsat ifs (hd d)" using d by (auto simp: dlm_def dlm_ws_def dlm_ch_def hd_append ws_at split: list.splits)
  have hd: "\<not> xifsws ifs (hd (f @ d @ t))" if first
    using e that f dn by (cases f) (auto simp: plainf_def dest: ws_at)
  then have b: "(if first then dropWhile (xifsws ifs) (f @ d @ t) else f @ d @ t) = f @ d @ t"
    using dn(1) by (cases "f @ d @ t") auto
  have tk: "takeWhile (\<lambda>c. \<not> xifsat ifs c) (f @ d @ t) = f \<and> dropWhile (\<lambda>c. \<not> xifsat ifs c) (f @ d @ t) = d @ t"
    by (rule take_field) (use f dn in \<open>auto simp: plainf_def\<close>)
  have dt: "dropWhile (xifsws ifs) t = t" using t by (cases t) auto
  have hd: "hd (d @ t) = hd d" "d @ t \<noteq> []" "f @ d @ t \<noteq> []" using dn(1) by (cases d; simp)+
  have x: "xifs ifs first (f @ d @ t) =
    (if xifsws ifs (hd d) then
       (let r1 = dropWhile (xifsws ifs) (d @ t); r2 = (if r1 \<noteq> [] \<and> xifsat ifs (hd r1) then tl r1 else r1)
        in Some (f, dropWhile (xifsws ifs) r2))
     else Some (f, dropWhile (xifsws ifs) (tl (d @ t))))"
    unfolding xifs_def b Let_def tk [THEN conjunct1] tk [THEN conjunct2] hd(1) using hd(2, 3) by presburger
  show ?thesis
  proof (cases "dlm_ws ifs d")
    case True
    then have e: "dropWhile (xifsws ifs) (d @ t) = t" using take_field [of d "xifsws ifs" t] t by (auto simp: dlm_ws_def)
    have "xifsws ifs (hd d)" using True dn by (auto simp: dlm_ws_def)
    then show ?thesis unfolding x Let_def e using w [OF True] dt by auto
  next
    case False
    with d obtain u c v where dd: "d = u @ c # v" "xifsat ifs c" "\<not> xifsws ifs c" "\<forall>x \<in> set u \<union> set v. xifsws ifs x"
      by (auto simp: dlm_def dlm_ch_def)
    have v: "dropWhile (xifsws ifs) (v @ t) = t" using take_field [of v "xifsws ifs" t] dd(4) t by auto
    show ?thesis
    proof (cases u)
      case Nil
      then show ?thesis unfolding x using dd v by simp
    next
      case (Cons a u')
      then have a: "xifsws ifs (hd d)" using dd by simp
      have e: "dropWhile (xifsws ifs) (d @ t) = c # v @ t"
        using take_field [of u "xifsws ifs" "c # v @ t"] dd by auto
      show ?thesis unfolding x Let_def e using a dd v by simp
    qed
  qed
qed

text \<open>C13: the fields of any run of fields and POSIX delimiters are split out again as they were, empty ones between
  delimiters that are no white space included; an empty one at the very end is not one.\<close>

theorem fields_split:
  assumes "fseq ifs fs l" "dlm_ws ifs w \<or> w = []"
    "xifsnws ifs"
  shows "xsplitn (Some ifs) (w @ fcat fs l) = map fst fs @ (if l = [] then [] else [l])"
proof -
  have hd: "fcat fs l = [] \<or> \<not> xifsws ifs (hd (fcat fs l))" if "fseq ifs fs l" for fs
  proof (cases fs)
    case Nil
    then show ?thesis using that by (cases l) (auto simp: fcat_def plainf_def dest: ws_at)
  next
    case (Cons p r)
    obtain f d where p: "p = (f, d)" by fastforce
    show ?thesis using that by (cases f; cases d) (auto simp: Cons p fcat_def plainf_def dlm_def dlm_ws_def dlm_ch_def dest: ws_at)
  qed
  have all: "xifs_all ifs first (fcat fs l) = map fst fs @ (if l = [] then [] else [l])" if "fseq ifs fs l" for first fs
    using that
  proof (induction fs arbitrary: first)
    case Nil
    have d: "dropWhile (xifsws ifs) l = l" using hd [OF Nil] by (cases l) (auto simp: fcat_def)
    have "dropWhile (\<lambda>c. \<not> xifsat ifs c) l = []" "takeWhile (\<lambda>c. \<not> xifsat ifs c) l = l"
      using Nil by (auto simp: plainf_def takeWhile_eq_all_conv)
    then have "xifs ifs first l = (if l = [] then None else Some (l, []))"
      by (simp add: xifs_def d Let_def del: takeWhile_eq_all_conv dropWhile_eq_Nil_conv)
    moreover have "xifs_all ifs False [] = []" by (subst xifs_all.simps) (simp add: xifs_def)
    ultimately show ?case by (subst xifs_all.simps) (simp add: fcat_def)
  next
    case (Cons p r)
    obtain f d where p: "p = (f, d)" by fastforce
    have q: "plainf ifs f" "dlm ifs d" "f = [] \<longrightarrow> \<not> xifsws ifs (hd d)" "dlm_ws ifs d \<longrightarrow> r = [] \<or> fst (hd r) \<noteq> []" "fseq ifs r l"
      using Cons.prems by (auto simp: p)
    have w: "fcat r l = [] \<or> \<not> xifsat ifs (hd (fcat r l))" if ws: "dlm_ws ifs d"
    proof (cases r)
      case Nil
      then show ?thesis using q(5) by (cases l) (auto simp: fcat_def plainf_def)
    next
      case (Cons e r')
      then obtain g h where e: "e = (g, h)" "g \<noteq> []" using q(4) ws by (cases e) auto
      then show ?thesis using q(5) Cons by (cases g) (auto simp: fcat_def plainf_def)
    qed
    have "xifs ifs first (f @ d @ fcat r l) = Some (f, fcat r l)"
      by (rule xifs_field [OF q(1, 2) hd [OF q(5)] w]) (use q(3) in auto)
    then show ?case by (subst xifs_all.simps) (simp add: p fcat_def Cons.IH [OF q(5), unfolded fcat_def])
  qed
  have lead: "xifs ifs True (w @ t) = xifs ifs True t" if "t = [] \<or> \<not> xifsws ifs (hd t)" for t
  proof -
    have "dropWhile (xifsws ifs) (w @ t) = t" "dropWhile (xifsws ifs) t = t"
      using take_field [of w "xifsws ifs" t] take_field [of "[]" "xifsws ifs" t] assms(2) that by (auto simp: dlm_ws_def)
    then show ?thesis by (simp add: xifs_def)
  qed
  have "xifs_all ifs True (w @ fcat fs l) = xifs_all ifs True (fcat fs l)"
    by (subst (1 2) xifs_all.simps) (simp add: lead [OF hd [OF assms(1)]])
  then show ?thesis using assms(3) all [OF assms(1)] by (simp add: xsplitn_def)
qed

theorem fields_split_witness:
  "xsplitn (Some ''a:'') (map (\<lambda>c. (c, 0)) ''x::y'') = [[(CHR ''x'', 0)], [], [(CHR ''y'', 0)]]"
proof -
  have c: "dlm ''a:'' [(CHR '':'', 0)] \<and> dlm_ch ''a:'' [(CHR '':'', 0)] \<and> \<not> dlm_ws ''a:'' [(CHR '':'', 0)]"
    by (auto simp: dlm_def dlm_ch_def dlm_ws_def xifsat_def xifsws_def ifs_ws_def Cons_eq_append_conv intro!: exI [of _ "[]"])
  have "fseq ''a:'' [([(CHR ''x'', 0)], [(CHR '':'', 0)]), ([], [(CHR '':'', 0)])] [(CHR ''y'', 0)]"
    using c by (auto simp: plainf_def xifsat_def xifsws_def ifs_ws_def)
  from fields_split [OF this, of "[]"] show ?thesis by (simp add: fcat_def xifsnws_def ifs_ws_def)
qed

text \<open>The loop for an IFS of white space alone gives the fields the POSIX loop would.\<close>

theorem ws_shortcut:
  assumes "\<not> xifsnws ifs"
  shows "xws_all ifs b = xifs_all ifs True b"
proof -
  have at: "xifsat ifs = xifsws ifs"
    using assms by (intro ext) (auto simp: xifsnws_def xifsws_def xifsat_def strchr_None)
  have sk: "xifs_all ifs True (dropWhile (xifsws ifs) b) = xifs_all ifs True b" for b
    by (subst (1 2) xifs_all.simps) (simp add: xifs_def)
  have first: "xifs_all ifs False b = xifs_all ifs True b" if "b = [] \<or> \<not> xifsws ifs (hd b)" for b
    using that by (subst (1 2) xifs_all.simps) (cases b; auto simp: xifs_def)
  show ?thesis
  proof (induction "length b" arbitrary: b rule: less_induct)
    case less
    define b1 where "b1 = dropWhile (xifsat ifs) b"
    show ?case
    proof (cases "b1 = []")
      case True
      then show ?thesis
        by (subst xws_all.simps, subst xifs_all.simps) (simp add: xifs_def flip: at b1_def)
    next
      case False
      define r where "r = dropWhile (\<lambda>c. \<not> xifsat ifs c) b1"
      define f where "f = takeWhile (\<lambda>c. \<not> xifsat ifs c) b1"
      have nh: "\<not> xifsat ifs (hd b1)" using False by (simp add: b1_def hd_dropWhile)
      then have fn: "f \<noteq> []" using False by (cases b1) (auto simp: f_def)
      have rl: "length r < length b"
        using length_dropWhile_less [OF False, of "\<lambda>c. \<not> xifsat ifs c"] nh length_dropWhile_le [of "xifsat ifs" b] by (simp add: r_def b1_def)
      have x: "xifs ifs True b = Some (f, dropWhile (xifsws ifs) r)"
      proof (cases "r = []")
        case True
        then show ?thesis using False fn by (simp add: xifs_def Let_def flip: at b1_def f_def r_def)
      next
        case r: False
        have h: "xifsat ifs (hd r)" using r hd_dropWhile [of "\<lambda>c. \<not> xifsat ifs c" b1] by (simp add: r_def)
        define r1 where "r1 = dropWhile (xifsat ifs) r"
        have "r1 = [] \<or> \<not> xifsat ifs (hd r1)" using hd_dropWhile [of "xifsat ifs" r] by (auto simp: r1_def)
        moreover then have "dropWhile (xifsat ifs) r1 = r1" by (cases r1) auto
        ultimately show ?thesis using False h r by (auto simp: xifs_def Let_def simp flip: at b1_def f_def r_def r1_def)
      qed
      have "dropWhile (xifsws ifs) r = [] \<or> \<not> xifsws ifs (hd (dropWhile (xifsws ifs) r))"
        using hd_dropWhile [of "xifsws ifs" r] by auto
      then have "xifs_all ifs False (dropWhile (xifsws ifs) r) = xws_all ifs r"
        using first sk less [OF rl] by simp
      then show ?thesis
        using False x by (subst xws_all.simps, subst xifs_all.simps) (simp add: Let_def flip: b1_def f_def r_def)
    qed
  qed
qed

theorem ws_shortcut_witness: "xws_all '' '' [(CHR ''a'', 0), (CHR '' '', 0)] = xifs_all '' '' True [(CHR ''a'', 0), (CHR '' '', 0)]"
  by (rule ws_shortcut) (simp add: xifsnws_def ifs_ws_def)

subsection \<open>Lists\<close>

definition quoted :: "string \<Rightarrow> mtext" where
  "quoted t = map (\<lambda>c. (c, 1)) t"

text \<open>What \<open>"$@"\<close> expands to: its elements quoted, a quoted break between.\<close>

definition qlist :: "string list \<Rightarrow> mtext" where
  "qlist ts = (case ts of [] \<Rightarrow> [] | t # r \<Rightarrow> quoted t @ concat (map (\<lambda>t. (CHR '' '', 2) # quoted t) r))"

text \<open>Text with nothing to split at is one field.\<close>

lemma split_none:
  assumes "b \<noteq> []" "\<forall>c \<in> set b. \<not> xifsat (case ifso of Some i \<Rightarrow> i | None \<Rightarrow> [CHR '' '', CHR 0x09, CHR 0x0A]) c"
  shows "xsplitn ifso b = [b]"
proof -
  define ifs where "ifs = (case ifso of Some i \<Rightarrow> i | None \<Rightarrow> [CHR '' '', CHR 0x09, CHR 0x0A])"
  have q: "\<forall>c \<in> set b. \<not> xifsat ifs c" using assms(2) by (simp add: ifs_def)
  then have n: "\<forall>c \<in> set b. \<not> xifsws ifs c" using ws_at by blast
  have d: "dropWhile (xifsat ifs) b = b" "dropWhile (xifsws ifs) b = b"
    using assms(1) q n by (cases b; auto)+
  have tk: "takeWhile (\<lambda>c. \<not> xifsat ifs c) b = b" "dropWhile (\<lambda>c. \<not> xifsat ifs c) b = []"
    using q by (auto simp: takeWhile_eq_all_conv)
  have nil: "xws_all ifs [] = []" "xifs_all ifs False [] = []"
    by (subst xws_all.simps; simp) (subst xifs_all.simps; simp add: xifs_def)
  have "xifs ifs True b = Some (b, [])"
    unfolding xifs_def Let_def if_True d tk using assms(1) by simp
  then have "xifs_all ifs True b = [b]" by (subst xifs_all.simps) (simp add: nil)
  moreover have "xws_all ifs b = [b]"
    by (subst xws_all.simps) (simp only: Let_def d tk assms(1) if_False nil)
  ultimately show ?thesis by (simp add: xsplitn_def Let_def ifs_def)
qed

lemma quoted_one: "t \<noteq> [] \<Longrightarrow> xsplitn ifso (quoted t) = [quoted t]"
  by (rule split_none) (auto simp: quoted_def xifsat_def)

lemma brk_quoted: "xsplit_brk ifso pb cur (quoted t @ b) = xsplit_brk ifso pb (cur @ quoted t) b"
  by (induction t arbitrary: cur) (simp_all add: quoted_def)

lemma brk_list:
  "xsplit_brk ifso pb (quoted t) (concat (map (\<lambda>t. (CHR '' '', 2) # quoted t) r)) =
    (if r = [] then xpiece ifso pb 0 (quoted t) else map quoted (t # r))"
proof (induction r arbitrary: t pb)
  case (Cons u r)
  have p: "xpiece ifso pb 2 (quoted t) = [quoted t]" by (cases "t = []") (simp_all add: xpiece_def quoted_one, simp_all add: quoted_def)
  have e: "xpiece ifso 2 0 (quoted u) = [quoted u]" by (cases "u = []") (simp_all add: xpiece_def quoted_one, simp_all add: quoted_def)
  show ?case using brk_quoted [of ifso 2 "[]" u "concat (map (\<lambda>t. (CHR '' '', 2) # quoted t) r)"] by (simp add: p Cons.IH e)
qed simp

text \<open>Two or more elements of a quoted list are one field each, empty ones too, whatever they hold and
  whatever IFS is.\<close>

theorem quoted_list_fields:
  assumes "2 \<le> length ts"
  shows "xsplit ifso True (qlist ts) = map quoted ts"
proof (cases ts)
  case (Cons t r)
  then have "r \<noteq> []" using assms by auto
  then show ?thesis
    using brk_quoted [of ifso 0 "[]" t] by (simp add: Cons qlist_def xsplit_def brk_list)
qed (use assms in simp)

theorem quoted_list_fields_witness: "xsplit (Some '' '') True (qlist [''a b'', []]) = map quoted [''a b'', []]"
  by (rule quoted_list_fields) simp

end
