(* ===== verification/Brace.thy ===== *)
theory Brace
  imports Exec "HOL-Library.Multiset"
begin

text \<open>
  Brace expansion of src/expand.c: \<open>br_int\<close>, \<open>br_long\<close>, \<open>br_width\<close>, \<open>br_range\<close>, \<open>br_split\<close>, \<open>br_make\<close>
  and \<open>br_expand\<close>, on the words of Exec.
\<close>

subsection \<open>Ranges\<close>

definition sgn_at :: "string \<Rightarrow> bool" where
  "sgn_at p \<longleftrightarrow> at p 0 = CHR ''-'' \<or> at p 0 = CHR ''+''"

definition br_int :: "string \<Rightarrow> bool" where
  "br_int p = (let d = (if sgn_at p then tl p else p) in d \<noteq> [] \<and> list_all isdigit d)"

definition br_long :: "string \<Rightarrow> int option" where
  "br_long p = (let v = fst (strtol_raw 10 p) in if v < LONG_MIN \<or> v > LONG_MAX then None else Some v)"

definition br_width :: "string \<Rightarrow> nat" where
  "br_width p =
    (let d = (if sgn_at p then tl p else p) in if length d > 1 \<and> hd d = CHR ''0'' then length p else 0)"

text \<open>The parts of \<open>a..b\<close> and \<open>a..b..step\<close>.\<close>

definition br_dots :: "string \<Rightarrow> (string \<times> string \<times> string option) option" where
  "br_dots b =
    (case strstr b ''..'' of
       None \<Rightarrow> None
     | Some i \<Rightarrow>
         let r = drop (i + 2) b in
         (case strstr r ''..'' of
            None \<Rightarrow> Some (take i b, r, None)
          | Some j \<Rightarrow> Some (take i b, take j r, Some (drop (j + 2) r))))"

definition br_step :: "string option \<Rightarrow> int option" where
  "br_step so =
    (case so of
       None \<Rightarrow> Some 1
     | Some t \<Rightarrow>
         if \<not> br_int t then None
         else case br_long t of
           None \<Rightarrow> None
         | Some v \<Rightarrow> if v = LONG_MIN then None else if v = 0 then Some 1 else Some (abs v))"

text \<open>The ends, and the width numbers are padded to, or that they are letters.\<close>

definition br_ends :: "string \<Rightarrow> string \<Rightarrow> (bool \<times> int \<times> int \<times> nat) option" where
  "br_ends x y =
    (if length x = 1 \<and> length y = 1 \<and> isalpha (at x 0) \<and> isalpha (at y 0)
     then Some (True, int (byte (at x 0)), int (byte (at y 0)), 0)
     else if br_int x \<and> br_int y then
       (case (br_long x, br_long y) of
          (Some lo, Some hi) \<Rightarrow>
            let p = max (br_width x) (br_width y) in Some (False, lo, hi, if p = 0 then 0 else max p (max (length x) (length y)))
        | _ \<Rightarrow> None)
     else None)"

definition br_num :: "nat \<Rightarrow> int \<Rightarrow> string" where
  "br_num pad v =
    (let d = s_num (abs v); sg = (if v < 0 then ''-'' else [])
     in sg @ replicate (pad - length d - length sg) CHR ''0'' @ d)"

text \<open>\<open>i * step\<close> stays within the span, so the unsigned sums of the code are these.\<close>

definition br_range :: "string \<Rightarrow> string list option" where
  "br_range b =
    (case br_dots b of
       None \<Rightarrow> None
     | Some (x, y, so) \<Rightarrow>
         (case br_step so of
            None \<Rightarrow> None
          | Some step \<Rightarrow>
              (case br_ends x y of
                 None \<Rightarrow> None
               | Some (alpha, lo, hi, pad) \<Rightarrow>
                   Some (map (\<lambda>i. let v = (if lo \<le> hi then lo + int i * step else lo - int i * step)
                                  in if alpha then [chr (nat v)] else br_num pad v)
                          [0..<nat (abs (hi - lo) div step) + 1]))))"

subsection \<open>Groups\<close>

text \<open>Where the brace that closes the group is, \<open>d\<close> being open.\<close>

fun br_close :: "nat \<Rightarrow> string \<Rightarrow> nat option" where
  "br_close d [] = None"
| "br_close d (c # t) =
    (if c = CHR ''{'' then map_option Suc (br_close (d + 1) t)
     else if c = CHR ''}'' then (if d = 1 then Some 0 else map_option Suc (br_close (d - 1) t))
     else map_option Suc (br_close d t))"

text \<open>The text between the commas that are in no inner group.\<close>

fun br_commas :: "nat \<Rightarrow> string \<Rightarrow> string \<Rightarrow> string list" where
  "br_commas d cur [] = [cur]"
| "br_commas d cur (c # t) =
    (if c = CHR '','' \<and> d = 0 then cur # br_commas d [] t
     else br_commas (if c = CHR ''{'' then d + 1 else if c = CHR ''}'' then d - 1 else d) (cur @ [c]) t)"

text \<open>A group whose text after the brace is \<open>t\<close>: what it stands for, and what is after it.\<close>

definition br_group :: "string \<Rightarrow> (string list \<times> string) option" where
  "br_group t =
    (case br_close 1 t of
       None \<Rightarrow> None
     | Some k \<Rightarrow>
         let inner = take k t; ps = br_commas 0 [] inner in
         if length ps > 1 then Some (ps, drop (k + 1) t) else map_option (\<lambda>a. (a, drop (k + 1) t)) (br_range inner))"

fun br_find :: "string \<Rightarrow> string \<Rightarrow> (string \<times> string list \<times> string) option" where
  "br_find pre [] = None"
| "br_find pre (c # t) =
    (if length t < 2 then None
     else if c \<noteq> CHR ''{'' then br_find (pre @ [c]) t
     else case br_group t of
       Some (alts, post) \<Rightarrow> Some (pre, alts, post)
     | None \<Rightarrow> br_find (pre @ [c]) t)"

definition br_open :: "part \<Rightarrow> bool" where
  "br_open p \<longleftrightarrow> pk p = 0 \<and> pq p = 0"

definition br_make :: "wd \<Rightarrow> wd \<Rightarrow> string \<Rightarrow> wd" where
  "br_make before after t = before @ Part 0 t 0 0 False False [] [] # after"

fun br_words :: "wd \<Rightarrow> wd \<Rightarrow> wd list" where
  "br_words before [] = []"
| "br_words before (p # ps) =
    (case (if br_open p then br_find [] (pt p) else None) of
       Some (pre, alts, post) \<Rightarrow> map (\<lambda>a. br_make before ps (pre @ a @ post)) alts
     | None \<Rightarrow> br_words (before @ [p]) ps)"

definition br_split :: "wd \<Rightarrow> wd list" where
  "br_split w = br_words [] w"

subsection \<open>Every group\<close>

definition br_cnt :: "wd \<Rightarrow> nat" where
  "br_cnt w = sum_list (map (\<lambda>p. if br_open p then count_list (pt p) CHR ''{'' else 0) w)"

abbreviation (input) braces :: "string \<Rightarrow> nat" where
  "braces t \<equiv> count_list t CHR ''{''"

lemma commas_cnt: "a \<in> set (br_commas d cur t) \<Longrightarrow> braces a \<le> braces cur + braces t"
proof (induction t arbitrary: d cur)
  case (Cons c t)
  show ?case
  proof (cases "c = CHR '','' \<and> d = 0")
    case True
    then have "a = cur \<or> a \<in> set (br_commas d [] t)" using Cons.prems by auto
    then show ?thesis using Cons.IH [of d "[]"] True by auto
  next
    case False
    then show ?thesis using Cons.prems Cons.IH [of _ "cur @ [c]"] by (fastforce split: if_splits)
  qed
qed simp

lemma span_le: "0 < step \<Longrightarrow> i < nat (abs (hi - lo) div step) + 1 \<Longrightarrow> int i * step \<le> abs (hi - lo)"
proof -
  assume s: "0 < step" "i < nat (abs (hi - lo) div step) + 1"
  have "0 \<le> abs (hi - lo) div step" using s by (simp add: pos_imp_zdiv_nonneg_iff)
  then have "int i \<le> abs (hi - lo) div step" using s(2) by linarith
  then have "int i * step \<le> abs (hi - lo) div step * step" using s by (simp add: mult_right_mono)
  also have "\<dots> \<le> abs (hi - lo)" using s by (metis div_mult_mod_eq le_add_same_cancel1 pos_mod_sign)
  finally show ?thesis .
qed

lemma step_pos: "br_step so = Some step \<Longrightarrow> 0 < step"
  by (auto simp: br_step_def split: option.splits if_splits)

lemma num_braces: "CHR ''{'' \<notin> set (br_num pad v)"
proof -
  have "CHR ''{'' \<notin> set (s_num (abs v))"
    using putdig_digits [of "[]" "nat \<bar>v\<bar>"] by (auto simp: s_num_def isdigit_def byte_simps)
  then show ?thesis by (auto simp: br_num_def Let_def)
qed

lemma ends_alpha: "br_ends x y = Some (True, lo, hi, p) \<Longrightarrow> 0 \<le> lo \<and> lo < 123 \<and> 0 \<le> hi \<and> hi < 123"
  by (auto simp: br_ends_def isalpha_def islower_def isupper_def split: if_splits option.splits)

lemma range_cnt: "br_range b = Some as \<Longrightarrow> a \<in> set as \<Longrightarrow> CHR ''{'' \<notin> set a"
proof -
  assume r: "br_range b = Some as" "a \<in> set as"
  obtain x y so where d: "br_dots b = Some (x, y, so)" using r by (auto simp: br_range_def split: option.splits)
  obtain step where p: "br_step so = Some step" using r d by (cases "br_step so") (auto simp: br_range_def)
  obtain alpha lo hi pad where en: "br_ends x y = Some (alpha, lo, hi, pad)"
    using r d p by (cases "br_ends x y") (auto simp: br_range_def)
  obtain i where i: "i < nat (abs (hi - lo) div step) + 1"
    and a: "a = (let v = (if lo \<le> hi then lo + int i * step else lo - int i * step) in if alpha then [chr (nat v)] else br_num pad v)"
    using r d p en by (auto simp: br_range_def simp del: upt_Suc)
  have st: "0 < step" by (rule step_pos [OF p])
  have e: "alpha \<longrightarrow> 0 \<le> lo \<and> lo < 123 \<and> 0 \<le> hi \<and> hi < 123" using ends_alpha [of x y lo hi pad] en by (cases alpha) auto
  have "int i * step \<le> abs (hi - lo)" by (rule span_le [OF st i])
  moreover have "0 \<le> int i * step" using st by simp
  ultimately have v: "alpha \<longrightarrow> 0 \<le> (if lo \<le> hi then lo + int i * step else lo - int i * step) \<and>
      (if lo \<le> hi then lo + int i * step else lo - int i * step) < 123" using e by auto
  have "chr k \<noteq> CHR ''{''" if "k < 123" for k
  proof
    assume "chr k = CHR ''{''"
    then have "byte (chr k) = byte CHR ''{''" by simp
    then show False using that by (simp add: byte_simps)
  qed
  then have "alpha \<Longrightarrow> chr (nat (if lo \<le> hi then lo + int i * step else lo - int i * step)) \<noteq> CHR ''{''" using v by (cases "lo \<le> hi") auto
  then show ?thesis using num_braces by (cases alpha) (auto simp: a Let_def)
qed

lemma no_brace: "CHR ''{'' \<notin> set t \<Longrightarrow> braces t = 0"
  by (simp add: count_list_0_iff)

lemma group_cnt:
  assumes "br_group t = Some (alts, post)" "a \<in> set alts"
  shows "braces a + braces post \<le> braces t"
proof -
  obtain k where k: "br_close 1 t = Some k" using assms by (auto simp: br_group_def split: option.splits)
  have t: "braces t = braces (take k t) + braces (drop k t)" by (metis append_take_drop_id count_list_append)
  have "drop (k + 1) t = drop 1 (drop k t)" by simp
  then have p: "braces (drop (k + 1) t) \<le> braces (drop k t)" by (cases "drop k t") (simp_all del: drop_drop)
  have "post = drop (k + 1) t" "braces a \<le> braces (take k t)"
    using assms k commas_cnt [of a 0 "[]" "take k t"] range_cnt no_brace
    by (auto simp: br_group_def Let_def split: if_splits)
  then show ?thesis using t p by simp
qed

lemma find_cnt: "br_find pre t = Some (pre', alts, post) \<Longrightarrow> a \<in> set alts \<Longrightarrow> braces (pre' @ a @ post) < braces (pre @ t)"
proof (induction t arbitrary: pre)
  case (Cons c t)
  show ?case
  proof (cases "c = CHR ''{'' \<and> br_group t \<noteq> None")
    case True
    then have "br_group t = Some (alts, post)" "pre' = pre" using Cons.prems by (auto split: if_splits)
    then show ?thesis using group_cnt [of t alts post a] Cons.prems(2) True by simp
  next
    case False
    then have "br_find (pre @ [c]) t = Some (pre', alts, post)" using Cons.prems(1) by (cases "br_group t") (auto split: if_splits)
    from Cons.IH [OF this Cons.prems(2)] show ?thesis by simp
  qed
qed simp

lemma words_cnt: "w' \<in> set (br_words before w) \<Longrightarrow> br_cnt w' < br_cnt (before @ w)"
proof (induction w arbitrary: before)
  case (Cons p ps)
  show ?case
  proof (cases "if br_open p then br_find [] (pt p) else None")
    case None
    then show ?thesis using Cons.prems Cons.IH [of "before @ [p]"] by simp
  next
    case (Some r)
    obtain pre alts post where r: "r = (pre, alts, post)" by (cases r)
    have o: "br_open p" and f: "br_find [] (pt p) = Some (pre, alts, post)" using Some r by (auto split: if_splits)
    obtain a where a: "a \<in> set alts" "w' = br_make before ps (pre @ a @ post)" using Cons.prems Some r by auto
    show ?thesis using find_cnt [OF f a(1)] o by (simp add: a(2) br_make_def br_cnt_def br_open_def)
  qed
qed simp

lemma split_cnt: "w' \<in> set (br_split w) \<Longrightarrow> br_cnt w' < br_cnt w"
  using words_cnt [of w' "[]" w] by (simp add: br_split_def)

text \<open>The words after a round; the rounds go on until one splits nothing.\<close>

definition br_round :: "wd list \<Rightarrow> wd list" where
  "br_round todo = concat (map (\<lambda>w. case br_split w of [] \<Rightarrow> [w] | ws \<Rightarrow> ws) todo)"

lemma round_cnt:
  assumes "\<exists>w \<in> set todo. br_split w \<noteq> []"
  shows "(mset (map br_cnt (br_round todo)), mset (map br_cnt todo)) \<in> mult {(x, y). x < (y::nat)}"
proof -
  define I where "I = filter (\<lambda>w. br_split w = []) todo"
  define J where "J = filter (\<lambda>w. br_split w \<noteq> []) todo"
  have m: "mset (map br_cnt todo) = mset (map br_cnt I) + mset (map br_cnt J)"
    unfolding I_def J_def by (induction todo) auto
  have r: "mset (map br_cnt (br_round todo)) = mset (map br_cnt I) + mset (map br_cnt (concat (map br_split J)))"
    unfolding I_def J_def br_round_def by (induction todo) (auto split: list.splits)
  have "J \<noteq> []" using assms by (auto simp: J_def filter_empty_conv)
  moreover have "\<forall>k \<in> set_mset (mset (map br_cnt (concat (map br_split J)))). \<exists>j \<in> set_mset (mset (map br_cnt J)). (k, j) \<in> {(x, y). x < y}"
    by (auto dest: split_cnt)
  ultimately show ?thesis unfolding m r by (intro one_step_implies_mult) auto
qed

function br_rounds :: "wd list \<Rightarrow> wd list" where
  "br_rounds todo = (if list_ex (\<lambda>w. br_split w \<noteq> []) todo then br_rounds (br_round todo) else todo)"
  by pat_completeness auto
termination
proof (relation "inv_image (mult {(x, y). x < y}) (\<lambda>todo. mset (map br_cnt todo))")
  show "wf (inv_image (mult {(x, y). x < (y::nat)}) (\<lambda>todo. mset (map br_cnt todo)))"
    by (intro wf_inv_image wf_mult) (simp add: wf)
  show "(br_round todo, todo) \<in> inv_image (mult {(x, y). x < y}) (\<lambda>todo. mset (map br_cnt todo))"
    if "list_ex (\<lambda>w. br_split w \<noteq> []) todo" for todo
    using that round_cnt [of todo] by (simp add: list_ex_iff)
qed

declare br_rounds.simps [simp del]

definition br_expand :: "wd \<Rightarrow> wd list" where
  "br_expand w = (if list_ex (\<lambda>p. br_open p \<and> CHR ''{'' \<in> set (pt p)) w then br_rounds [w] else [w])"

subsection \<open>What brace expansion gives\<close>

text \<open>The specification: the first group of a word is replaced by each of its words in turn, and each result
  is expanded the same way, on the left first.\<close>

function br_all :: "wd \<Rightarrow> wd list" where
  "br_all w = (if br_split w = [] then [w] else concat (map br_all (br_split w)))"
  by pat_completeness auto
termination
  by (relation "measure br_cnt") (simp_all add: split_cnt)

declare br_all.simps [simp del]

lemma round_all: "concat (map br_all (br_round todo)) = concat (map br_all todo)"
proof -
  have "concat (map br_all (case br_split w of [] \<Rightarrow> [w] | ws \<Rightarrow> ws)) = br_all w" for w
    by (cases "br_split w") (simp_all add: br_all.simps [of w])
  then show ?thesis by (induction todo) (simp_all add: br_round_def)
qed

lemma rounds_all: "br_rounds todo = concat (map br_all todo)"
proof (induction todo rule: br_rounds.induct)
  case (1 todo)
  show ?case
  proof (cases "list_ex (\<lambda>w. br_split w \<noteq> []) todo")
    case True
    then show ?thesis using 1 [OF True] round_all [of todo] by (subst br_rounds.simps) simp
  next
    case False
    then have "\<forall>w \<in> set todo. br_all w = [w]" by (auto simp: list_ex_iff br_all.simps)
    then have "concat (map br_all todo) = todo" by (induction todo) auto
    with False show ?thesis by (subst br_rounds.simps) simp
  qed
qed

lemma find_open: "br_find pre t = Some r \<Longrightarrow> CHR ''{'' \<in> set t"
  by (induction t arbitrary: pre) (auto split: if_splits)

lemma words_open: "br_words before w \<noteq> [] \<Longrightarrow> list_ex (\<lambda>p. br_open p \<and> CHR ''{'' \<in> set (pt p)) w"
proof (induction w arbitrary: before)
  case (Cons p ps)
  then show ?case by (cases "if br_open p then br_find [] (pt p) else None") (auto dest: find_open split: if_splits)
qed simp

lemma all_final: "u \<in> set (br_all w) \<Longrightarrow> br_split u = []"
proof (induction w rule: br_all.induct)
  case (1 w)
  then show ?case by (subst (asm) br_all.simps) (auto split: if_splits)
qed

text \<open>C21: the rounds over the list of words stop, and give what expanding each first group in turn gives, in its
  order; no word of it has a group left that could be expanded.\<close>

theorem brace_expand: "br_expand w = br_all w \<and> list_all (\<lambda>u. br_split u = []) (br_expand w)"
proof -
  have "br_expand w = br_all w"
  proof (cases "list_ex (\<lambda>p. br_open p \<and> CHR ''{'' \<in> set (pt p)) w")
    case False
    then have "br_split w = []" using words_open [of "[]" w] by (auto simp: br_split_def)
    then show ?thesis using False by (simp add: br_expand_def br_all.simps)
  qed (simp add: br_expand_def rounds_all)
  then show ?thesis using all_final by (auto simp: list_all_iff)
qed


lemma brace_product:
  "map (\<lambda>w. concat (map pt w)) (br_expand [Part 0 ''a{b,c{1..3}}d{,e}'' 0 0 False False [] []]) =
    [''abd'', ''abde'', ''ac1d'', ''ac1de'', ''ac2d'', ''ac2de'', ''ac3d'', ''ac3de'']"
  by code_simp

lemma num_digits: "set (putdig n []) \<subseteq> {c. isdigit c}"
  by (rule putdig_digits) simp

lemma strstr_dots: "CHR ''.'' \<notin> set a \<Longrightarrow> strstr (a @ ''..'' @ b) ''..'' = Some (length a)"
  by (induction a) (auto simp: prefix_def)

lemma strstr_none: "CHR ''.'' \<notin> set a \<Longrightarrow> strstr a ''..'' = None"
  by (induction a) (auto simp: prefix_def)

lemma br_putdig_hd: "hd (putdig t []) = CHR ''0'' \<Longrightarrow> t = 0"
proof (induction t rule: less_induct)
  case (less t)
  show ?case
  proof (cases "t < 10")
    case True
    then have "putdig t [] = [chr (48 + t)]" by (subst putdig.simps) simp
    then have "byte (chr (48 + t)) = byte CHR ''0''" using less.prems by simp
    then show ?thesis using True by (simp add: byte_simps)
  next
    case False
    then have "putdig t [] = putdig (t div 10) [] @ [chr (48 + t mod 10)]"
      using putdig_append [of "t div 10" "[chr (48 + t mod 10)]"] by (subst putdig.simps) (simp add: Let_def)
    then have "hd (putdig (t div 10) []) = CHR ''0''" using less.prems putdig_ne [of "t div 10" "[]"] by (simp add: hd_append)
    with less.IH [of "t div 10"] False show ?thesis by simp
  qed
qed

lemma digit_neq: "isdigit c \<Longrightarrow> c \<noteq> CHR ''.'' \<and> c \<noteq> CHR ''-'' \<and> c \<noteq> CHR ''+'' \<and> \<not> isalpha c"
  by (auto simp: isdigit_def isalpha_def islower_def isupper_def byte_simps)

lemma s_num_shape:
  "br_int (s_num v)" "CHR ''.'' \<notin> set (s_num v)" "br_width (s_num v) = 0" "\<not> isalpha (at (s_num v) 0)"
proof -
  define p where "p = putdig (nat \<bar>v\<bar>) []"
  obtain c cs where c: "p = c # cs" "isdigit c" "set cs \<subseteq> {c. isdigit c}" unfolding p_def by (rule putdig_Cons)
  have z: "c = CHR ''0'' \<Longrightarrow> cs = []"
  proof -
    assume "c = CHR ''0''"
    then have "nat \<bar>v\<bar> = 0" using br_putdig_hd [of "nat \<bar>v\<bar>"] c(1) by (simp add: p_def)
    then have "length p = 1" unfolding p_def by (subst putdig.simps) simp
    then show "cs = []" using c(1) by simp
  qed
  have n: "s_num v = (if v < 0 then ''-'' else []) @ c # cs" using c(1) by (simp add: s_num_def p_def)
  note d = digit_neq [OF c(2)]
  show "br_int (s_num v)" using c d by (auto simp: n br_int_def sgn_at_def Let_def list_all_iff)
  show "CHR ''.'' \<notin> set (s_num v)" using c d digit_neq by (auto simp: n)
  show "br_width (s_num v) = 0" using z d by (auto simp: n br_width_def sgn_at_def Let_def)
  show "\<not> isalpha (at (s_num v) 0)" using d by (auto simp: n isalpha_def islower_def isupper_def byte_simps)
qed

lemma num_plain: "br_num 0 v = s_num v"
  by (simp add: br_num_def s_num_def Let_def)

lemma upto_up: "lo \<le> hi \<Longrightarrow> map (\<lambda>i. lo + int i) [0..<nat (hi - lo) + 1] = [lo..hi]"
proof (rule nth_equalityI)
  show "lo \<le> hi \<Longrightarrow> length (map (\<lambda>i. lo + int i) [0..<nat (hi - lo) + 1]) = length [lo..hi]" by simp
  show "lo \<le> hi \<Longrightarrow> i < length (map (\<lambda>i. lo + int i) [0..<nat (hi - lo) + 1]) \<Longrightarrow>
    map (\<lambda>i. lo + int i) [0..<nat (hi - lo) + 1] ! i = [lo..hi] ! i" for i by (simp del: upt_Suc add: nth_upto)
qed

lemma upto_down: "hi \<le> lo \<Longrightarrow> map (\<lambda>i. lo - int i) [0..<nat (lo - hi) + 1] = rev [hi..lo]"
proof (rule nth_equalityI)
  show "hi \<le> lo \<Longrightarrow> length (map (\<lambda>i. lo - int i) [0..<nat (lo - hi) + 1]) = length (rev [hi..lo])" by simp
  show "hi \<le> lo \<Longrightarrow> i < length (map (\<lambda>i. lo - int i) [0..<nat (lo - hi) + 1]) \<Longrightarrow>
    map (\<lambda>i. lo - int i) [0..<nat (lo - hi) + 1] ! i = rev [hi..lo] ! i" for i
    by (simp del: upt_Suc add: rev_nth nth_upto)
qed

text \<open>Between two numbers written plainly a range is every number from the first to the last, up or down.\<close>

theorem brace_range:
  assumes "LONG_MIN \<le> lo" "lo \<le> LONG_MAX" "LONG_MIN \<le> hi" "hi \<le> LONG_MAX"
  shows "br_range (s_num lo @ ''..'' @ s_num hi) = Some (map s_num (if lo \<le> hi then [lo..hi] else rev [hi..lo]))"
proof -
  have "br_dots (s_num lo @ ''..'' @ s_num hi) = Some (s_num lo, s_num hi, None)"
    using s_num_shape(2) [of lo] s_num_shape(2) [of hi] using strstr_dots [of "s_num lo" "s_num hi"] strstr_none [of "s_num hi"] by (simp add: br_dots_def)
  moreover have "br_long (s_num lo) = Some lo" "br_long (s_num hi) = Some hi"
    using assms strtol_raw_s_num [of "[]" lo] strtol_raw_s_num [of "[]" hi] by (simp_all add: br_long_def)
  then have "br_ends (s_num lo) (s_num hi) = Some (False, lo, hi, 0)"
    using s_num_shape [of lo] s_num_shape [of hi] by (simp add: br_ends_def)
  moreover have "map (\<lambda>i. s_num (if lo \<le> hi then lo + int i else lo - int i)) [0..<nat (abs (hi - lo)) + 1] =
      map s_num (if lo \<le> hi then [lo..hi] else rev [hi..lo])"
    using arg_cong [OF upto_up [of lo hi], of "map s_num"] arg_cong [OF upto_down [of hi lo], of "map s_num"]
    by (simp add: comp_def del: upt_Suc)
  ultimately show ?thesis by (cases "lo \<le> hi") (simp_all add: br_range_def br_step_def num_plain del: upt_Suc)
qed

theorem brace_range_witness: "br_range ''3..-1'' = Some [''3'', ''2'', ''1'', ''0'', ''-1'']"
proof -
  have "br_range (s_num 3 @ ''..'' @ s_num (-1)) = Some (map s_num (rev [-1..3]))"
    using brace_range [of 3 "-1"] by (simp add: LONG_MIN_def LONG_MAX_def)
  moreover have "s_num 3 @ ''..'' @ s_num (-1) = ''3..-1''" "map s_num (rev [-1..3]) = [''3'', ''2'', ''1'', ''0'', ''-1'']"
    by code_simp+
  ultimately show ?thesis by simp
qed

end
