(* ===== verification/Quote.thy ===== *)
theory Quote
  imports Vars
begin

text \<open>
  Writing values so that the shell reads them back: \<open>xqsafe\<close> and \<open>xquote\<close> of src/expand.c, and what
  \<open>declare -p\<close> and \<open>set\<close> print of a variable, \<open>b_qval\<close> to \<open>b_vlist\<close> of src/bi.c.
\<close>

subsection \<open>A word\<close>

definition xqsafe :: "char \<Rightarrow> bool \<Rightarrow> bool" where
  "xqsafe c first \<longleftrightarrow>
    byte c \<ge> 0x80 \<or> isalnum c \<or> c \<in> set ''_./-:=@+%'' \<or> \<not> first \<and> (c = CHR ''~'' \<or> c = CHR ''#'')"

definition qctl :: "char \<Rightarrow> bool" where
  "qctl c \<longleftrightarrow> byte c < 32 \<or> byte c = 127"

text \<open>Each byte with a backslash where it needs one.\<close>

fun xquote_bs :: "bool \<Rightarrow> string \<Rightarrow> string" where
  "xquote_bs first [] = []"
| "xquote_bs first (c # v) = (if xqsafe c first then [c] else [BS, c]) @ xquote_bs False v"

definition xquote_ch :: "char \<Rightarrow> string" where
  "xquote_ch c =
    (if c = CHR 0x0A then [BS, CHR ''n'']
     else if c = CHR 0x09 then [BS, CHR ''t'']
     else if c = CHR 0x0D then [BS, CHR ''r'']
     else if c = BS \<or> c = SQ then [BS, c]
     else if qctl c then
       [BS, chr (48 + (drop_bit 6 (byte c) AND 7)), chr (48 + (drop_bit 3 (byte c) AND 7)), chr (48 + (byte c AND 7))]
     else [c])"

definition xquote :: "string \<Rightarrow> bool \<Rightarrow> string" where
  "xquote v bs =
    (if list_ex qctl v then [CHR ''$'', SQ] @ concat (map xquote_ch v) @ [SQ]
     else if bs \<and> v \<noteq> [] then xquote_bs True v
     else s_sq v)"

subsection \<open>Values and keys\<close>

definition qbare :: "string \<Rightarrow> bool" where
  "qbare v \<longleftrightarrow> (case v of [] \<Rightarrow> True | c # r \<Rightarrow> xqsafe c True \<and> list_all (\<lambda>d. xqsafe d False) r)"

definition b_qval :: "string \<Rightarrow> bool \<Rightarrow> string" where
  "b_qval v pl =
    (if list_ex qctl v then xquote v False
     else if pl then (if qbare v then v else xquote v False)
     else [DQ] @ concat (map (\<lambda>c. if c \<in> {DQ, CHR ''$'', CHR 0x60, BS} then [BS, c] else [c]) v) @ [DQ])"

definition b_qkey :: "string \<Rightarrow> bool \<Rightarrow> string" where
  "b_qkey k assoc = (if k \<noteq> [] \<and> (if assoc then qbare k else list_all isdigit k) then k else b_qval k False)"

definition b_emap :: "ent \<Rightarrow> bool" where
  "b_emap e \<longleftrightarrow> ents (emap e) \<noteq> [] \<or> ety e = J_OBJ \<or> ety e = J_ARR"

definition or_nil :: "string option \<Rightarrow> string" where
  "or_nil t = (case t of Some v \<Rightarrow> v | None \<Rightarrow> [])"

subsection \<open>Maps\<close>

fun b_mitems :: "bool \<Rightarrow> ent list \<Rightarrow> string" where
  "b_mitems assoc [] = []"
| "b_mitems assoc (e # es) =
    ''['' @ b_qkey (ekey e) assoc @ '']='' @ b_qval (or_nil (estr e)) False @ (if es \<noteq> [] \<or> assoc then '' '' else []) @
    b_mitems assoc es"

definition b_mflat :: "chain \<Rightarrow> bool \<Rightarrow> string" where
  "b_mflat m assoc = ''('' @ b_mitems assoc (ents m) @ '')''"

text \<open>One assignment for each value below a path.\<close>

fun b_mleaf :: "string \<Rightarrow> bool \<Rightarrow> chain \<Rightarrow> string"
  and b_mleaf1 :: "string \<Rightarrow> bool \<Rightarrow> ent \<Rightarrow> string" where
  "b_mleaf path pl (Chain es ct ix) = concat (map (b_mleaf1 path pl) es)"
| "b_mleaf1 path pl (Ent k v m n ty) =
    (let p = path @ ''['' @ b_qval k False @ '']'' in
     if b_emap (Ent k v m n ty) then b_mleaf p pl m else p @ ''='' @ b_qval (or_nil v) pl @ [CHR 0x0A])"

subsection \<open>Variables\<close>

abbreviation (input) A_ASSOC :: "32 word" where "A_ASSOC \<equiv> 16"

definition b_flags :: "var \<Rightarrow> string" where
  "b_flags v =
    (if vam v then (if has (vat v) A_ASSOC then ''A'' else ''a'') else []) @ (if has (vat v) A_INT then ''i'' else []) @
    (if has (vat v) A_REF then ''n'' else []) @ (if vro v then ''r'' else []) @ (if vex v then ''x'' else []) @
    (if has (vat v) A_LOW then ''l'' else []) @ (if has (vat v) A_UPP then ''u'' else [])"

definition b_decl1 :: "var \<Rightarrow> bool \<Rightarrow> string" where
  "b_decl1 v pl =
    (let ty = v_tyname (vat v); f = b_flags v in
     (if pl then []
      else if ty \<noteq> [] then ''declare '' @ (if f \<noteq> [] then ''-'' @ f @ '' '' else []) @ ty @ '' ''
      else ''declare -'' @ (if f \<noteq> [] then f else ''-'') @ '' '') @
     vk v @ ''='' @
     (if \<not> vam v then b_qval (or_nil (vv v)) pl @ [CHR 0x0A]
      else if \<not> list_ex b_emap (ents (vmap v)) then b_mflat (vmap v) (has (vat v) A_ASSOC) @ [CHR 0x0A]
      else ''()'' @ [CHR 0x0A] @ b_mleaf (vk v) pl (vmap v)))"

definition b_vlist :: "sh \<Rightarrow> nat \<Rightarrow> bool \<Rightarrow> string" where
  "b_vlist s which pl =
    concat (map (\<lambda>v. b_decl1 v pl)
      (sort_key vk (filter (\<lambda>v. \<not> (which = 1 \<and> \<not> vex v) \<and> \<not> (which = 2 \<and> \<not> vro v)) (concat (tab s)))))"

end
