(* ===== verification/Expand.thy ===== *)
theory Expand
  imports Exec FieldSplit Brace Quote Subst
begin

text \<open>
  Parameter expansion and the expansion of words, src/expand.c: \<open>xval\<close>, the operators of \<open>${...}\<close> on values
  and on lists (\<open>xvar\<close>, \<open>xvar2\<close>), tildes, a word's fields (\<open>xwm\<close>) and a command's words (\<open>xargv\<close>). Expanded
  text carries the quote marks of FieldSplit; the counter \<open>x_brkn\<close> asks whether a text holds a field break, which
  its marks say too, and the globals \<open>x_aks\<close>, \<open>x_ank\<close> are an argument of \<open>xvar2\<close>. A function that expands words
  of its own is given the evaluator of words \<open>ev\<close>; \<open>xw_ev\<close> ties them with fuel, one for each word within a word.
  A field is its text and its marks, \<open>None\<close> for a null mask.
\<close>

subsection \<open>What expansion is given\<close>

type_synonym xfld = "string \<times> nat list option"

text \<open>
  The evaluator of integer variables and of \<open>$((...))\<close> (Arith), the fuel of a pattern match, command and process
  substitution, the lexer, \<open>rand\<close>, the clock, \<open>$-\<close>, whether this is the shell's own process, the directory stack,
  the home of a user, the paths a pattern matches, a prompt, the escapes of \<open>@E\<close>.
\<close>

record 'o xpk =
  x_eval :: evalr
  x_ax :: "'o exs \<Rightarrow> string \<Rightarrow> 'o exs \<times> long"
  x_fu :: nat
  x_cap :: "'o exs \<Rightarrow> string \<Rightarrow> 'o exs \<times> string"
  x_psub :: "'o exs \<Rightarrow> part \<Rightarrow> 'o exs \<times> string"
  x_lex :: "string \<Rightarrow> wd option"
  x_rand :: "'o exs \<Rightarrow> 'o exs \<times> int"
  x_clock :: "'o exs \<Rightarrow> string"
  x_dash :: "'o exs \<Rightarrow> string"
  x_main :: "'o exs \<Rightarrow> bool"
  x_dir :: "'o exs \<Rightarrow> int \<Rightarrow> string option"
  x_user :: "string \<Rightarrow> string option"
  x_glob :: "'o exs \<Rightarrow> string \<Rightarrow> string list"
  x_prompt :: "'o exs \<Rightarrow> string \<Rightarrow> 'o exs \<times> string"
  x_esc :: "string \<Rightarrow> string"

type_synonym 'o xev = "32 word \<Rightarrow> wd \<Rightarrow> 'o exs \<Rightarrow> ('o exs \<times> xfld list) option"

abbreviation (input) XONE :: "32 word" where "XONE \<equiv> 1"
abbreviation (input) XPAT :: "32 word" where "XPAT \<equiv> 2"
abbreviation (input) XASG :: "32 word" where "XASG \<equiv> 4"
abbreviation (input) XNOTIL :: "32 word" where "XNOTIL \<equiv> 8"
abbreviation (input) XBRK :: "32 word" where "XBRK \<equiv> 16"

abbreviation (input) P_TXT :: nat where "P_TXT \<equiv> 0"
abbreviation (input) P_VAR :: nat where "P_VAR \<equiv> 1"
abbreviation (input) P_CMD :: nat where "P_CMD \<equiv> 2"
abbreviation (input) P_ARI :: nat where "P_ARI \<equiv> 3"
abbreviation (input) P_PSUB :: nat where "P_PSUB \<equiv> 4"

abbreviation (input) V_NONE :: nat where "V_NONE \<equiv> 0"
abbreviation (input) V_DEF :: nat where "V_DEF \<equiv> 1"
abbreviation (input) V_ASG :: nat where "V_ASG \<equiv> 2"
abbreviation (input) V_ERR :: nat where "V_ERR \<equiv> 3"
abbreviation (input) V_ALT :: nat where "V_ALT \<equiv> 4"
abbreviation (input) V_LEN :: nat where "V_LEN \<equiv> 5"
abbreviation (input) V_SUB :: nat where "V_SUB \<equiv> 10"
abbreviation (input) V_SUBA :: nat where "V_SUBA \<equiv> 11"
abbreviation (input) V_KEYS :: nat where "V_KEYS \<equiv> 12"
abbreviation (input) V_SUBSTR :: nat where "V_SUBSTR \<equiv> 13"
abbreviation (input) V_UP :: nat where "V_UP \<equiv> 14"
abbreviation (input) V_UPALL :: nat where "V_UPALL \<equiv> 15"
abbreviation (input) V_LOW :: nat where "V_LOW \<equiv> 16"
abbreviation (input) V_LOWALL :: nat where "V_LOWALL \<equiv> 17"
abbreviation (input) V_SUBP :: nat where "V_SUBP \<equiv> 18"
abbreviation (input) V_SUBF :: nat where "V_SUBF \<equiv> 19"
abbreviation (input) V_IND :: nat where "V_IND \<equiv> 20"
abbreviation (input) V_NAMES :: nat where "V_NAMES \<equiv> 21"
abbreviation (input) V_XQ :: nat where "V_XQ \<equiv> 22"
abbreviation (input) V_XE :: nat where "V_XE \<equiv> 23"
abbreviation (input) V_XA :: nat where "V_XA \<equiv> 24"
abbreviation (input) V_XAT :: nat where "V_XAT \<equiv> 25"
abbreviation (input) V_XP :: nat where "V_XP \<equiv> 26"
abbreviation (input) V_XK :: nat where "V_XK \<equiv> 27"
abbreviation (input) V_XKW :: nat where "V_XKW \<equiv> 28"
abbreviation (input) V_INDF :: nat where "V_INDF \<equiv> 0x100"

abbreviation (input) O_NULLGLOB :: "32 word" where "O_NULLGLOB \<equiv> 1"
abbreviation (input) O_FAILGLOB :: "32 word" where "O_FAILGLOB \<equiv> 8"
abbreviation (input) O_NOGLOB :: "32 word" where "O_NOGLOB \<equiv> 8192"
abbreviation (input) O_PATSUB :: "32 word" where "O_PATSUB \<equiv> 16384"

subsection \<open>Text and lists\<close>

definition xput :: "string \<Rightarrow> bool \<Rightarrow> mtext" where
  "xput t q = map (\<lambda>c. (c, if q then 1 else 0)) t"

text \<open>\<open>p->q || s->strict\<close>, and \<open>XV\<close>.\<close>

definition xq :: "part \<Rightarrow> 'o exs \<Rightarrow> bool" where
  "xq p s \<longleftrightarrow> pq p \<noteq> 0 \<or> e_strict s"

definition xv :: "part \<Rightarrow> 'o exs \<Rightarrow> string \<Rightarrow> mtext" where
  "xv p s t = xput t (xq p s)"

definition xbrk :: "bool \<Rightarrow> mtext" where
  "xbrk q = [(CHR '' '', if q then 2 else 3)]"

definition x_ifs :: "'o exs \<Rightarrow> 'o exs \<times> string option" where
  "x_ifs s = (let (h, f) = sh_ifs (e_sh s) in (s\<lparr>e_sh := h\<rparr>, f))"

definition xjoin :: "string \<Rightarrow> string list \<Rightarrow> string" where
  "xjoin sep ws = (case ws of [] \<Rightarrow> [] | w # r \<Rightarrow> w @ concat (map (\<lambda>t. sep @ t) r))"

definition xsep :: "bool \<Rightarrow> 'o exs \<Rightarrow> 'o exs \<times> string" where
  "xsep q s =
    (let (s1, f) = x_ifs s in
     (s1, case f of
        None \<Rightarrow> '' ''
      | Some [] \<Rightarrow> if q then [] else '' ''
      | Some (c # r) \<Rightarrow> if byte c \<ge> 0xC0 then c # takeWhile u8cont (take 3 r) else [c]))"

definition x_av0 :: "'o exs \<Rightarrow> string" where
  "x_av0 s = (case e_arg0 s of Some t \<Rightarrow> t | None \<Rightarrow> ''hibr'')"

definition xposlist :: "'o exs \<Rightarrow> string list" where
  "xposlist s = x_av0 s # e_av s"

text \<open>The name of all the positional parameters.\<close>

definition xpar :: "part \<Rightarrow> bool" where
  "xpar p \<longleftrightarrow> pt p = ''@'' \<or> pt p = ''*''"

definition xop :: "part \<Rightarrow> nat" where
  "xop p = nat (pop p)"

definition with_op :: "nat \<Rightarrow> part \<Rightarrow> part" where
  "with_op k p = Part (pk p) (pt p) (int k) (pq p) (pcol p) (parr p) (parg p) (pidx p)"

definition with_t :: "string \<Rightarrow> part \<Rightarrow> part" where
  "with_t t p = Part (pk p) t (pop p) (pq p) (pcol p) (parr p) (parg p) (pidx p)"

definition with_arg :: "wd list \<Rightarrow> part \<Rightarrow> part" where
  "with_arg ws p = Part (pk p) (pt p) (pop p) (pq p) (pcol p) (parr p) ws (pidx p)"

definition no_arr :: "part \<Rightarrow> part" where
  "no_arr p = Part (pk p) (pt p) (pop p) (pq p) (pcol p) False (parg p) (pidx p)"

definition arg1 :: "part \<Rightarrow> wd option" where
  "arg1 p = (case parg p of [] \<Rightarrow> None | w # ws \<Rightarrow> Some w)"

definition arg2 :: "part \<Rightarrow> wd option" where
  "arg2 p = (case parg p of a # w # ws \<Rightarrow> Some w | _ \<Rightarrow> None)"

definition xper :: "nat \<Rightarrow> bool" where
  "xper op \<longleftrightarrow> op \<in> {V_XQ, V_XE, V_XP, V_XAT, V_UP, V_UPALL, V_LOW, V_LOWALL, V_RS, V_RL, V_SS, V_SL, V_SUB, V_SUBA, V_SUBP, V_SUBF}"

definition xucheck :: "nat \<Rightarrow> bool" where
  "xucheck op \<longleftrightarrow> op \<notin> {V_DEF, V_ASG, V_ERR, V_ALT, V_KEYS, V_IND, V_NAMES} \<and> op AND V_INDF = 0"

text \<open>\<open>set -u\<close> found an unset variable, or an operator refused one: the shell stops.\<close>

definition x_die :: "'o exs \<Rightarrow> int \<Rightarrow> 'o exs" where
  "x_die s v = (with_st v s)\<lparr>e_stop := True, e_quit := e_quit s \<or> \<not> e_it s\<rparr>"

definition x_unset :: "'o xpk \<Rightarrow> 'o exs \<Rightarrow> 'o exs" where
  "x_unset X s = x_die s (if \<not> e_it s \<and> has (sopt (e_sh s)) O_DASHC \<and> x_main X s then 127 else 1)"

subsection \<open>A parameter's value\<close>

definition xval_env :: "'o xpk \<Rightarrow> 'o exs \<Rightarrow> xenv" where
  "xval_env X s = env0\<lparr>xenv.e_src := exs.e_src s, xenv.e_ln := int (exs.e_ln s), e_clock := x_clock X s\<rparr>"

definition xval :: "'o xpk \<Rightarrow> 'o exs \<Rightarrow> string \<Rightarrow> 'o exs \<times> string option" where
  "xval X s k =
    (if k = ''?'' then (s, Some (xnum (est s)))
     else if k = ''#'' then (s, Some (xnum (int (length (e_av s)))))
     else if k = ''$'' then (s, Some (xnum (e_pid s)))
     else if k = ''0'' then (s, Some (x_av0 s))
     else if k = ''*'' then (let (s1, sep) = xsep False s in (s1, Some (xjoin sep (e_av s))))
     else if k = ''@'' then (s, Some (xjoin '' '' (e_av s)))
     else if k = ''-'' then (s, Some (x_dash X s))
     else if length k = 1 \<and> isdigit (at k 0) then
       (let i = digval (at k 0) in (s, if 1 \<le> i \<and> i \<le> length (e_av s) then Some (e_av s ! (i - 1)) else None))
     else
       (case hibr_get (e_sh s) k of
          Some r \<Rightarrow> (s, Some r)
        | None \<Rightarrow>
            if k = ''RANDOM'' then (let (s1, n) = x_rand X s in (s1, Some (xnum (n mod 32768))))
            else (s, xval_dyn (xval_env X s) (e_sh s) k)))"

definition xvref :: "'o exs \<Rightarrow> string \<Rightarrow> var option" where
  "xvref s k = get_chase (e_sh s) 16 (v_find (e_sh s) k)"

definition xassoc :: "'o exs \<Rightarrow> string \<Rightarrow> bool" where
  "xassoc s nm \<longleftrightarrow> (case v_find (e_sh s) nm of Some v \<Rightarrow> has (vat v) A_ASSOC | None \<Rightarrow> False)"

text \<open>One element; a scalar is its own element 0.\<close>

definition xgetk :: "'o exs \<Rightarrow> string \<Rightarrow> string list \<Rightarrow> string option" where
  "xgetk s nm ks =
    (case v_getp (e_sh s) nm ks of
       Some v \<Rightarrow> Some v
     | None \<Rightarrow>
         if ks = [''0''] then
           (case v_find (e_sh s) nm of
              Some e \<Rightarrow> if vv e \<noteq> None \<and> ents (vmap e) = [] \<and> \<not> vam e then vv e else None
            | None \<Rightarrow> None)
         else None)"

subsection \<open>Subscripts\<close>

definition isname :: "string \<Rightarrow> bool" where
  "isname t \<longleftrightarrow> t \<noteq> [] \<and> \<not> isdigit (hd t) \<and> list_all (\<lambda>c. isalnum c \<or> c = CHR ''_'') t"

definition xall :: "string \<Rightarrow> bool" where
  "xall i \<longleftrightarrow> i = ''@'' \<or> i = ''*''"

definition xallw :: "wd \<Rightarrow> bool" where
  "xallw w \<longleftrightarrow> (case w of [p] \<Rightarrow> pk p = P_TXT \<and> pq p = 0 \<and> xall (pt p) | _ \<Rightarrow> False)"

definition xlastat :: "part \<Rightarrow> bool" where
  "xlastat p \<longleftrightarrow> pidx p \<noteq> [] \<and> xallw (last (pidx p)) \<and> pt (hd (last (pidx p))) = ''@''"

definition w_hasq :: "wd \<Rightarrow> bool" where
  "w_hasq w \<longleftrightarrow> list_ex (\<lambda>p. pq p \<noteq> 0) w"

definition xkey :: "'o xpk \<Rightarrow> string \<Rightarrow> string \<Rightarrow> 'o exs \<Rightarrow> 'o exs \<times> string" where
  "xkey X nm t s =
    (if t = [] \<or> list_all isdigit t then (s, t)
     else if list_ex (\<lambda>c. c \<in> set ''+-*/%()<>=!&|^ '') t \<or> hd t = CHR ''~'' \<or>
             (case strchr t CHR ''?'' of Some i \<Rightarrow> CHR '':'' \<in> set (drop i t) | None \<Rightarrow> False) then
       (if xassoc s nm then (s, t) else (let (s1, n) = x_ax X s t in (s1, xnum (sint n))))
     else if isname t then
       (case hibr_get (e_sh s) t of
          None \<Rightarrow> (s, t)
        | Some v \<Rightarrow> if v = [] \<or> \<not> list_all isdigit v \<or> xassoc s nm then (s, t) else (s, v))
     else (s, t))"

text \<open>A negative subscript counts back from the highest key.\<close>

definition xneg :: "'o exs \<Rightarrow> string \<Rightarrow> string list \<Rightarrow> string \<Rightarrow> string" where
  "xneg s nm ks t =
    (let k = foldl (\<lambda>m l. max m (atol l)) (-1) (v_list (e_sh s) nm ks True) + 1 + atol t in if k < 0 then t else xnum k)"

fun xkeys_loop :: "'o xpk \<Rightarrow> 'o xev \<Rightarrow> string \<Rightarrow> string list \<Rightarrow> wd list \<Rightarrow> 'o exs \<Rightarrow> ('o exs \<times> string list) option" where
  "xkeys_loop X ev nm ks [] s = Some (s, ks)"
| "xkeys_loop X ev nm ks (w # ws) s =
    ev XONE w s \<bind> (\<lambda>(s1, fs).
      let t = (case fs of [] \<Rightarrow> [] | f # r \<Rightarrow> fst f);
          (s2, t2) =
            (if xall t \<or> w_hasq w then (s1, t)
             else
               let (s2, t1) = xkey X nm t s1 in
               (s2, if at t1 0 = CHR ''-'' \<and> isdigit (at t1 1) \<and> \<not> xassoc s2 nm then xneg s2 nm ks t1 else t1))
      in xkeys_loop X ev nm (ks @ [t2]) ws s2)"

text \<open>The keys, how many of them count, and whether the last stands for every element.\<close>

definition xkeys :: "'o xpk \<Rightarrow> 'o xev \<Rightarrow> part \<Rightarrow> 'o exs \<Rightarrow> ('o exs \<times> string list \<times> nat \<times> bool) option" where
  "xkeys X ev p s =
    xkeys_loop X ev (pt p) [] (pidx p) s \<bind> (\<lambda>(s1, ks).
      let n = length (pidx p); al = (n \<noteq> 0 \<and> xallw (last (pidx p))) in Some (s1, ks, if al then n - 1 else n, al))"

text \<open>With no such form the code reads the pointer after the last key; here it is null.\<close>

definition xstar :: "string list \<Rightarrow> nat \<Rightarrow> bool" where
  "xstar ks nk \<longleftrightarrow> nk < length ks \<and> at (ks ! nk) 0 = CHR ''*''"

text \<open>The variable a text names, with its subscripts.\<close>

function xby_keys :: "'o xpk \<Rightarrow> string \<Rightarrow> string \<Rightarrow> 'o exs \<Rightarrow> 'o exs \<times> string list" where
  "xby_keys X nm q s =
    (case strchr q CHR '']'' of
       None \<Rightarrow> (s, [])
     | Some i \<Rightarrow>
         let (s1, k) = xkey X nm (take i q) s in
         if at q (i + 1) = CHR ''['' then (let (s2, ks) = xby_keys X nm (drop (i + 2) q) s1 in (s2, k # ks)) else (s1, [k]))"
  by pat_completeness auto
termination
  by (relation "measure (\<lambda>(X, nm, q, s). length q)") (auto dest: strchr_Some)

declare xby_keys.simps [simp del]

definition xbyname :: "'o xpk \<Rightarrow> 'o exs \<Rightarrow> string \<Rightarrow> 'o exs \<times> string option" where
  "xbyname X s r =
    (case strchr r CHR ''['' of
       None \<Rightarrow> xval X s r
     | Some i \<Rightarrow> (let nm = take i r; (s1, ks) = xby_keys X nm (drop (i + 1) r) s in (s1, v_getp (e_sh s1) nm ks)))"

subsection \<open>Words within words\<close>

definition xonef :: "'o xev \<Rightarrow> 32 word \<Rightarrow> wd option \<Rightarrow> 'o exs \<Rightarrow> ('o exs \<times> string) option" where
  "xonef ev fl wo s =
    (case wo of
       None \<Rightarrow> Some (s, [])
     | Some w \<Rightarrow> ev fl w s \<bind> (\<lambda>(s1, fs). Some (s1, case fs of [] \<Rightarrow> [] | f # r \<Rightarrow> fst f)))"

definition xone_fq :: "'o xev \<Rightarrow> 32 word \<Rightarrow> wd option \<Rightarrow> 'o exs \<Rightarrow> ('o exs \<times> xfld) option" where
  "xone_fq ev fl wo s =
    (case wo of
       None \<Rightarrow> Some (s, [], None)
     | Some w \<Rightarrow> ev fl w s \<bind> (\<lambda>(s1, fs). Some (s1, case fs of [] \<Rightarrow> ([], None) | f # r \<Rightarrow> f)))"

abbreviation (input) xone :: "'o xev \<Rightarrow> wd option \<Rightarrow> 'o exs \<Rightarrow> ('o exs \<times> string) option" where
  "xone ev \<equiv> xonef ev XONE"

abbreviation (input) xpat :: "'o xev \<Rightarrow> wd option \<Rightarrow> 'o exs \<Rightarrow> ('o exs \<times> string) option" where
  "xpat ev \<equiv> xonef ev XPAT"

text \<open>The replacement of \<open>${x/pat/rep}\<close>, with its mask when an unquoted \<open>&\<close> stands for the match.\<close>

definition xrepw :: "'o xev \<Rightarrow> part \<Rightarrow> 'o exs \<Rightarrow> ('o exs \<times> string \<times> bool list option) option" where
  "xrepw ev p s =
    (if arg2 p = None then Some (s, [], None)
     else if \<not> has (sopt (e_sh s)) O_PATSUB then xone ev (arg2 p) s \<bind> (\<lambda>(s1, r). Some (s1, r, None))
     else xone_fq ev XONE (arg2 p) s \<bind> (\<lambda>(s1, r, mk).
       Some (s1, r, Some (case mk of Some ms \<Rightarrow> map (\<lambda>m. m \<noteq> 0) ms | None \<Rightarrow> replicate (length r) False))))"

subsection \<open>Slices\<close>

text \<open>
  Offset and length against \<open>n\<close> elements. The sum of the two is taken on integers: an offset and a length that
  add up past a long are undefined in C.
\<close>

definition xslice :: "'o xpk \<Rightarrow> 'o xev \<Rightarrow> part \<Rightarrow> nat \<Rightarrow> 'o exs \<Rightarrow> ('o exs \<times> nat \<times> nat) option" where
  "xslice X ev p n s =
    xone ev (arg1 p) s \<bind> (\<lambda>(s1, spec).
      let c = strchr spec CHR '':'';
          (s2, v) = x_ax X s1 (case c of Some i \<Rightarrow> take i spec | None \<Rightarrow> spec);
          o1 = (if sint v < 0 then sint v + int n else sint v);
          off = min (max o1 0) (int n);
          (s3, l) = (case c of
              Some i \<Rightarrow> (let (s3, l) = x_ax X s2 (drop (i + 1) spec) in (s3, sint l))
            | None \<Rightarrow> (s2, int n - off));
          l1 = max (if l < 0 then int n - off + l else l) 0;
          ln = (if off + l1 > int n then int n - off else l1)
      in Some (s3, nat off, nat ln))"

text \<open>An indexed array is sliced by its indexes; \<open>None\<close>: a key is not one, before anything is expanded.\<close>

definition xslicek :: "'o xpk \<Rightarrow> 'o xev \<Rightarrow> part \<Rightarrow> string list \<Rightarrow> string list \<Rightarrow> 'o exs \<Rightarrow> ('o exs \<times> string list \<times> nat) option option" where
  "xslicek X ev p kl lst s =
    (if \<not> list_all (\<lambda>k. k \<noteq> [] \<and> list_all isdigit k) kl then None
     else Some (xone ev (arg1 p) s \<bind> (\<lambda>(s1, spec).
       let top = foldl (\<lambda>m k. max m (atol k + 1)) 0 kl;
           c = strchr spec CHR '':'';
           (s2, v) = x_ax X s1 (case c of Some i \<Rightarrow> take i spec | None \<Rightarrow> spec);
           off = (if sint v < 0 then sint v + top else sint v);
           l2 = (if off \<ge> 0 then map snd (filter (\<lambda>(k, t). atol k \<ge> off) (zip kl lst)) else []);
           j = int (length l2);
           (s3, l) = (case c of
               Some i \<Rightarrow> (let (s3, l) = x_ax X s2 (drop (i + 1) spec) in (s3, sint l))
             | None \<Rightarrow> (s2, j));
           l1 = max (if l < 0 then j + l else l) 0
       in Some (s3, l2, nat (min l1 j)))))"

text \<open>The elements from \<open>off\<close> on, as many as \<open>len\<close>.\<close>

definition xaslice :: "'o xpk \<Rightarrow> 'o xev \<Rightarrow> part \<Rightarrow> string list \<Rightarrow> 'o exs \<Rightarrow> ('o exs \<times> string list) option" where
  "xaslice X ev p ks s =
    (let lst = v_list (e_sh s) (pt p) ks False;
         pos = xslice X ev p (length lst) s \<bind> (\<lambda>(s1, off, ln). Some (s1, take ln (drop off lst)))
     in if \<not> xassoc s (pt p) \<and> length ks \<le> 1 then
          (case xslicek X ev p (v_list (e_sh s) (pt p) ks True) lst s of
             None \<Rightarrow> pos
           | Some r \<Rightarrow> r \<bind> (\<lambda>(s1, l2, ln). Some (s1, take ln l2)))
        else pos)"

subsection \<open>Lists in the text\<close>

text \<open>Whether a list counts as set for \<open>-\<close>, \<open>=\<close> and \<open>?\<close>.\<close>

definition xlistok :: "part \<Rightarrow> string list \<Rightarrow> bool \<Rightarrow> 'o exs \<Rightarrow> 'o exs \<times> bool" where
  "xlistok p lst star s =
    (if lst = [] then (s, False)
     else if \<not> pcol p \<or> list_ex (\<lambda>t. t \<noteq> []) lst then (s, True)
     else (let (s1, sep) = (if star then xsep (xq p s) s else (s, '' '')) in (s1, length lst > 1 \<and> sep \<noteq> [])))"

definition xlist :: "part \<Rightarrow> string list \<Rightarrow> bool \<Rightarrow> 'o exs \<Rightarrow> 'o exs \<times> mtext" where
  "xlist p lst star0 s0 =
    (let q = xq p s0;
         (s1, sep) = (if star0 then xsep q s0 else (s0, []));
         (s, f) = (if star0 \<and> \<not> q then x_ifs s1 else (s1, None));
         star = (star0 \<and> f \<noteq> Some []);
         brk = (if star then xv p s sep else xbrk q)
     in (s, case lst of [] \<Rightarrow> [] | t # ts \<Rightarrow> xv p s t @ concat (map (\<lambda>t. brk @ xv p s t) ts)))"

text \<open>The runs of a replacement that are literal and those that stand for the match.\<close>

function xruns :: "bool list option \<Rightarrow> string \<Rightarrow> part list" where
  "xruns mk [] = []"
| "xruns mk (c # r) =
    (let lit = (\<lambda>i. case mk of None \<Rightarrow> True | Some b \<Rightarrow> i < length b \<and> b ! i \<or> (c # r) ! i \<noteq> CHR ''&'');
         j = length (takeWhile (\<lambda>i. lit i = lit 0) [0..<length (c # r)])
     in Part P_TXT (take j (c # r)) 0 (if lit 0 then 1 else 0) False False [] [] #
        xruns (map_option (drop j) mk) (drop j (c # r)))"
  by pat_completeness auto
termination
  by (relation "measure (\<lambda>(mk, t). length t)") (auto simp: upt_conv_Cons simp del: upt_Suc)

declare xruns.simps [simp del]

text \<open>A copy of the part whose pattern and replacement are expanded once for a whole list.\<close>

definition xprep :: "'o xev \<Rightarrow> part \<Rightarrow> 'o exs \<Rightarrow> ('o exs \<times> part) option" where
  "xprep ev p s =
    (if parg p = [] then Some (s, p)
     else xpat ev (arg1 p) s \<bind> (\<lambda>(s1, pat).
       let wp = [Part P_TXT ((if at pat 0 = CHR ''~'' then [BS] else []) @ pat) 0 0 False False [] []] in
       if arg2 p = None then Some (s1, with_arg [wp] p)
       else xrepw ev p s1 \<bind> (\<lambda>(s2, r, mk).
         Some (s2, with_arg [wp, if r = [] then [Part P_TXT [] 0 1 False False [] []] else xruns mk r] p))))"

subsection \<open>Operators on one value\<close>

text \<open>\<open>@Q\<close>, \<open>@K\<close>, \<open>@k\<close>, \<open>@a\<close>, \<open>@A\<close>, \<open>@P\<close> and \<open>@E\<close>.\<close>

definition xvar2_at :: "'o xpk \<Rightarrow> part \<Rightarrow> string option \<Rightarrow> 'o exs \<Rightarrow> 'o exs \<times> mtext" where
  "xvar2_at X p v s =
    (let op = xop p in
     if op = V_XQ \<or> op = V_XK \<or> op = V_XKW then (s, case v of None \<Rightarrow> [] | Some t \<Rightarrow> xput (xquote t False) True)
     else if op = V_XAT then
       (s, case (if v = None then None else xvref s (pt p)) of None \<Rightarrow> [] | Some e \<Rightarrow> xv p s (b_flags e))
     else if op = V_XA then
       (s, case xvref s (pt p) of
             None \<Rightarrow> []
           | Some e \<Rightarrow>
               if v = None \<and> \<not> vam e then []
               else
                 let t = (if vam e then v_getp (e_sh s) (vk e) [''0''] else v); f = b_flags e in
                 xv p s ((if f \<noteq> [] then ''declare -'' @ f @ '' '' else []) @ vk e @
                   (case t of None \<Rightarrow> [] | Some u \<Rightarrow> ''='' @ xquote u False)))
     else if op = V_XP then
       (case v of None \<Rightarrow> (s, []) | Some t \<Rightarrow> (let (s1, u) = x_prompt X s t in (s1, xv p s1 u)))
     else (s, xv p s (x_esc X (or_nil v))))"

text \<open>The word of an operator as written; \<open>keep\<close>: a list inside it stays one.\<close>

definition xarg :: "'o xev \<Rightarrow> part \<Rightarrow> bool \<Rightarrow> 'o exs \<Rightarrow> ('o exs \<times> mtext \<times> string) option" where
  "xarg ev p keep s =
    (let q = (pq p \<noteq> 0) in
     xone_fq ev ((if keep then XBRK else 0) OR (if q then XONE OR XNOTIL else XONE)) (arg1 p) s \<bind> (\<lambda>(s1, a, mk).
       Some (s1,
         case mk of
           None \<Rightarrow> xput a q
         | Some ms \<Rightarrow> map (\<lambda>(c, m). (c, if m \<ge> 2 then (if q then 2 else m) else if q \<or> m \<noteq> 0 then 1 else 0)) (zip a ms),
         a)))"

text \<open>\<open>-\<close>, \<open>=\<close>, \<open>?\<close> and \<open>+\<close> when they do not give the value itself.\<close>

definition xvar2_word :: "'o xpk \<Rightarrow> 'o xev \<Rightarrow> part \<Rightarrow> string list option \<Rightarrow> 'o exs \<Rightarrow> ('o exs \<times> mtext) option" where
  "xvar2_word X ev p aks s =
    (let op = xop p in
     if op = V_DEF \<or> op = V_ALT then xarg ev p True s \<bind> (\<lambda>(s1, m, a). Some (s1, m))
     else if op = V_ASG then
       (case (if parr p then aks else None) of
          Some ks \<Rightarrow>
            xarg ev p False s \<bind> (\<lambda>(s1, m, a). Some (s1\<lparr>e_sh := v_setp (x_eval X) (e_sh s1) (pt p) ks a\<rparr>, m))
        | None \<Rightarrow>
            if \<not> name_start (pt p) then Some (x_die s 1, [])
            else xarg ev p False s \<bind> (\<lambda>(s1, m, a).
              Some (s1\<lparr>e_sh := fst (hibr_set (x_eval X) (e_sh s1) (pt p) a False)\<rparr>, m)))
     else xone ev (arg1 p) s \<bind> (\<lambda>(s1, a). Some (x_die s1 1, [])))"

definition xcase :: "'o xpk \<Rightarrow> 'o xev \<Rightarrow> part \<Rightarrow> string \<Rightarrow> 'o exs \<Rightarrow> ('o exs \<times> string) option" where
  "xcase X ev p v s =
    (let op = xop p; up = (op = V_UP \<or> op = V_UPALL); first = (op = V_UP \<or> op = V_LOW) in
     if parg p \<noteq> [] then
       xpat ev (arg1 p) s \<bind> (\<lambda>(s1, pat). u8casep (x_fu X) v up first pat \<bind> (\<lambda>t. Some (s1, t)))
     else Some (s, u8cased v up first))"

definition xsubst :: "'o xpk \<Rightarrow> 'o xev \<Rightarrow> part \<Rightarrow> string \<Rightarrow> 'o exs \<Rightarrow> ('o exs \<times> string) option" where
  "xsubst X ev p v s =
    (let op = xop p in
     xrepw ev p s \<bind> (\<lambda>(s1, rep, mk). xpat ev (arg1 p) s1 \<bind> (\<lambda>(s2, pat).
       (if op = V_SUB \<or> op = V_SUBA then xrepl (x_fu X) v pat rep mk (op = V_SUBA)
        else xrepl_a (x_fu X) v pat rep mk (op = V_SUBF)) \<bind> (\<lambda>t. Some (s2, t)))))"

definition xsubstr :: "'o xpk \<Rightarrow> 'o xev \<Rightarrow> part \<Rightarrow> string option \<Rightarrow> 'o exs \<Rightarrow> ('o exs \<times> mtext) option" where
  "xsubstr X ev p v s =
    (if \<not> parr p \<and> xpar p then
       (let lst = xposlist s in
        xslice X ev p (length lst) s \<bind> (\<lambda>(s1, off, ln). Some (xlist p (take ln (drop off lst)) (pt p = ''*'') s1)))
     else
       (case v of
          None \<Rightarrow> Some (s, [])
        | Some t \<Rightarrow>
            xslice X ev p (u8n t) s \<bind> (\<lambda>(s1, off, ln).
              Some (s1, xv p s1 (drop (u8off t off) (take (u8off t (off + ln)) t))))))"

definition xvar2 :: "'o xpk \<Rightarrow> 'o xev \<Rightarrow> part \<Rightarrow> string list option \<Rightarrow> string option \<Rightarrow> 'o exs \<Rightarrow> ('o exs \<times> mtext) option" where
  "xvar2 X ev p aks v s =
    (let op = xop p;
         ok = (v \<noteq> None \<and> (\<not> pcol p \<or> v \<noteq> Some []));
         val = (\<lambda>f. case v of None \<Rightarrow> Some (s, []) | Some t \<Rightarrow> f t s \<bind> (\<lambda>(s1, a). Some (s1, xv p s1 a)))
     in if v = None \<and> e_uset s \<and> op \<noteq> V_NONE \<and> xucheck op then Some (x_unset X s, [])
        else if op \<in> {V_XQ, V_XK, V_XKW, V_XAT, V_XA, V_XP, V_XE} then Some (xvar2_at X p v s)
        else if op = V_LEN then Some (s, xput (xnum (int (u8n (or_nil v)))) True)
        else if op = V_ALT then (if ok then xvar2_word X ev p aks s else Some (s, []))
        else if op \<in> {V_DEF, V_ASG, V_ERR} \<and> \<not> ok then xvar2_word X ev p aks s
        else if op \<in> {V_RS, V_RL, V_SS, V_SL} then
          val (\<lambda>t s. xpat ev (arg1 p) s \<bind> (\<lambda>(s1, pat). xtrim (x_fu X) t pat op \<bind> (\<lambda>a. Some (s1, a))))
        else if op \<in> {V_UP, V_UPALL, V_LOW, V_LOWALL} then val (xcase X ev p)
        else if op = V_SUBSTR then xsubstr X ev p v s
        else if op \<in> {V_SUB, V_SUBA, V_SUBP, V_SUBF} then val (xsubst X ev p)
        else (case v of
                Some t \<Rightarrow> Some (s, xv p s t)
              | None \<Rightarrow> Some (if e_uset s \<and> op = V_NONE then x_unset X s else s, [])))"

subsection \<open>Operators on a list\<close>

definition xop1 :: "'o xpk \<Rightarrow> 'o xev \<Rightarrow> part \<Rightarrow> string \<Rightarrow> 'o exs \<Rightarrow> ('o exs \<times> string) option" where
  "xop1 X ev p v s = xvar2 X ev (no_arr p) None (Some v) s \<bind> (\<lambda>(s1, m). Some (s1, map fst m))"

fun xop_each :: "'o xpk \<Rightarrow> 'o xev \<Rightarrow> part \<Rightarrow> string list \<Rightarrow> 'o exs \<Rightarrow> ('o exs \<times> string list) option" where
  "xop_each X ev p [] s = Some (s, [])"
| "xop_each X ev p (v # vs) s =
    xop1 X ev p v s \<bind> (\<lambda>(s1, t). xop_each X ev p vs s1 \<bind> (\<lambda>(s2, ts). Some (s2, t # ts)))"

definition xlistop :: "'o xpk \<Rightarrow> 'o xev \<Rightarrow> part \<Rightarrow> string list \<Rightarrow> bool \<Rightarrow> 'o exs \<Rightarrow> ('o exs \<times> mtext) option" where
  "xlistop X ev p lst star s =
    xprep ev p s \<bind> (\<lambda>(s1, q). xop_each X ev q lst s1 \<bind> (\<lambda>(s2, ts). Some (xlist p ts star s2)))"

text \<open>The keys and values of a list, a missing key empty.\<close>

definition xkv :: "string list \<Rightarrow> string list \<Rightarrow> (string \<times> string) list" where
  "xkv kl vl = zip (kl @ replicate (length vl - length kl) []) vl"

definition xarrop :: "'o xpk \<Rightarrow> 'o xev \<Rightarrow> part \<Rightarrow> string list \<Rightarrow> string \<Rightarrow> 'o exs \<Rightarrow> ('o exs \<times> string) option" where
  "xarrop X ev p ks sep s =
    (case xvref s (pt p) of
       None \<Rightarrow> Some (s, [])
     | Some vr \<Rightarrow>
         let op = xop p; kl = v_list (e_sh s) (pt p) ks True; vl = v_list (e_sh s) (pt p) ks False;
             assoc = has (vat vr) A_ASSOC
         in if op = V_XA then Some (s, rev (dropWhile (\<lambda>c. c = CHR 0x0A) (rev (b_decl1 vr False))))
            else if op = V_XK then
              (let kv = map (\<lambda>(k, v). b_qkey k assoc @ '' '' @ b_qval v False) (xkv kl vl) in
               Some (s, if assoc then concat (map (\<lambda>t. t @ '' '') kv) else xjoin '' '' kv))
            else if op = V_XKW then Some (s, xjoin sep (map (\<lambda>(k, v). k @ sep @ v) (xkv kl vl)))
            else xop_each X ev p vl s \<bind> (\<lambda>(s1, ts). Some (s1, xjoin sep ts)))"

subsection \<open>A part that is a variable\<close>

definition xvar_one :: "'o xpk \<Rightarrow> 'o xev \<Rightarrow> part \<Rightarrow> string list \<Rightarrow> nat \<Rightarrow> bool \<Rightarrow> 'o exs \<Rightarrow> ('o exs \<times> mtext) option" where
  "xvar_one X ev p ks nk al s =
    (let op = xop p; kk = take nk ks; known = (v_find (e_sh s) (pt p) \<noteq> None);
         per = (op \<in> {V_XA, V_XK, V_XKW} \<or> xper op);
         (s1, sep) = (if al \<and> xstar ks nk \<and> (known \<or> per) then xsep (xq p s) s else (s, '' ''))
     in if al \<and> per then
          xarrop X ev p kk sep s1 \<bind> (\<lambda>(s2, j). Some (s2, xv p s2 j))
        else
          let v = (if al then (if known then Some (xjoin sep (v_list (e_sh s1) (pt p) kk False)) else None)
                   else xgetk s1 (pt p) kk);
              zero = (ks \<noteq> [] \<and> hd ks = ''0'')
          in if \<not> al \<and> v = None \<and> e_uset s1 \<and> xucheck op \<and> (known \<or> nk > 1 \<or> \<not> zero) then Some (x_unset X s1, [])
             else
               let (s2, v2) = (if v = None \<and> nk \<le> 1 \<and> (al \<or> zero) \<and> \<not> known then xval X s1 (pt p) else (s1, v))
               in xvar2 X ev p (if \<not> al \<and> op = V_ASG then Some kk else None) v2 s2)"

definition xvar_arr :: "'o xpk \<Rightarrow> 'o xev \<Rightarrow> part \<Rightarrow> 'o exs \<Rightarrow> ('o exs \<times> mtext) option" where
  "xvar_arr X ev p s0 =
    xkeys X ev p s0 \<bind> (\<lambda>(s, ks, nk, al).
      let op = xop p; kk = take nk ks; star = xstar ks nk; sh1 = e_sh s; known = (v_find sh1 (pt p) \<noteq> None);
          vl = v_list sh1 (pt p) kk False; kl = v_list sh1 (pt p) kk True
      in if op = V_LEN then
           Some (s, xput (xnum (int (if al then v_count sh1 (pt p) kk else u8n (or_nil (xgetk s (pt p) kk))))) True)
         else if op = V_KEYS \<and> al \<and> \<not> star then Some (xlist p kl False s)
         else if op = V_KEYS then
           (let (s1, sep) = (if star then xsep (xq p s) s else (s, '' '')) in Some (s1, xv p s1 (xjoin sep kl)))
         else if al \<and> op = V_SUBSTR then xaslice X ev p kk s \<bind> (\<lambda>(s1, l2). Some (xlist p l2 star s1))
         else if al \<and> xper op \<and> known then xlistop X ev p vl star s
         else if al \<and> known \<and> op \<in> {V_NONE, V_DEF, V_ASG, V_ERR} then
           (let (s1, ok) = (if op = V_NONE then (s, True) else xlistok p vl star s)
            in if ok then Some (xlist p vl star s1) else xvar_one X ev p ks nk al s1)
         else xvar_one X ev p ks nk al s)"

text \<open>The variables whose names start alike.\<close>

definition xvar_names :: "part \<Rightarrow> 'o exs \<Rightarrow> 'o exs \<times> mtext" where
  "xvar_names p s =
    (let ns = sort (v_names (e_sh s) (pt p)) in
     if \<not> pcol p then xlist p ns False s
     else (let (s1, sep) = (if length ns > 1 then xsep (xq p s) s else (s, [])) in (s1, xv p s1 (xjoin sep ns))))"

definition xvar :: "'o xpk \<Rightarrow> 'o xev \<Rightarrow> part \<Rightarrow> 'o exs \<Rightarrow> ('o exs \<times> mtext) option" where
  "xvar X ev p s =
    (let op = xop p; star = (pt p = ''*'') in
     if parr p then xvar_arr X ev p s
     else if op = V_KEYS then Some (s, xv p s (xjoin '' '' (v_list (e_sh s) (pt p) [] True)))
     else if op = V_NAMES then Some (xvar_names p s)
     else if op AND V_INDF \<noteq> 0 then
       (let (s1, r) = xval X s (pt p); op2 = op - V_INDF;
            p1 = (if (op2 = V_XA \<or> op2 = V_XAT) \<and> r \<noteq> None \<and> r \<noteq> Some [] then with_t (the r) p else p);
            (s2, v) = (if r \<noteq> None \<and> r \<noteq> Some [] then xbyname X s1 (the r) else (s1, None))
        in xvar2 X ev (with_op op2 p1) None v s2)
     else if op = V_IND then
       (let (s1, r) = xval X s (pt p) in
        if r = None \<or> r = Some [] then Some (s1, [])
        else (let (s2, v) = xbyname X s1 (the r) in xvar2 X ev p None v s2))
     else if op = V_LEN \<and> xpar p then Some (s, xput (xnum (int (length (e_av s)))) True)
     else
       let (s1, ok) = (if xpar p \<and> op \<in> {V_DEF, V_ASG, V_ERR} then xlistok p (e_av s) star s else (s, False)) in
       if ok then Some (xlist p (e_av s1) star s1)
       else if xpar p \<and> op = V_NONE then Some (xlist p (e_av s1) star s1)
       else if xpar p \<and> xper op then xlistop X ev p (e_av s1) star s1
       else if star then (let (s2, sep) = xsep (xq p s1) s1 in xvar2 X ev p None (Some (xjoin sep (e_av s2))) s2)
       else (let (s2, v) = xval X s1 (pt p) in xvar2 X ev p None v s2))"

subsection \<open>Arithmetic\<close>

definition ax_textq :: "'o xpk \<Rightarrow> 'o xev \<Rightarrow> string \<Rightarrow> 'o exs \<Rightarrow> ('o exs \<times> long) option" where
  "ax_textq X ev t s =
    xone_fq ev (XONE OR XNOTIL) (x_lex X t) s \<bind> (\<lambda>(s1, a, mk).
      Some (x_ax X s1 (case mk of None \<Rightarrow> a | Some ms \<Rightarrow> ax_requote 0 False (zip a (map (\<lambda>m. m \<noteq> 0) ms)))))"

text \<open>What the text needs, which the code keeps in \<open>op\<close> once it has looked.\<close>

definition ax_text :: "'o xpk \<Rightarrow> 'o xev \<Rightarrow> part \<Rightarrow> 'o exs \<Rightarrow> ('o exs \<times> long) option" where
  "ax_text X ev p s =
    (let t = pt p in
     if list_all axsp t then Some (s, 0)
     else if \<not> list_ex (\<lambda>c. c \<in> {CHR ''$'', CHR 0x60, SQ, DQ, BS}) t then Some (x_ax X s t)
     else if CHR ''['' \<in> set t \<and> list_ex (\<lambda>c. c = DQ \<or> c = SQ) t then ax_textq X ev t s
     else xonef ev (XONE OR XNOTIL) (x_lex X t) s \<bind> (\<lambda>(s1, a). Some (x_ax X s1 a)))"

definition xpart :: "'o xpk \<Rightarrow> 'o xev \<Rightarrow> part \<Rightarrow> 'o exs \<Rightarrow> ('o exs \<times> mtext) option" where
  "xpart X ev p s =
    (if pk p = P_TXT then Some (s, xput (pt p) (pq p \<noteq> 0))
     else if pk p = P_VAR then xvar X ev p s
     else if pk p = P_CMD then (let (s1, a) = x_cap X s (pt p) in Some (s1, xv p s1 a))
     else if pk p = P_PSUB then (let (s1, a) = x_psub X s p in Some (s1, xput a True))
     else if pk p = P_ARI then ax_text X ev p s \<bind> (\<lambda>(s1, n). Some (s1, xv p s1 (xnum (sint n))))
     else Some (s, []))"

fun xparts :: "'o xpk \<Rightarrow> 'o xev \<Rightarrow> wd \<Rightarrow> 'o exs \<Rightarrow> ('o exs \<times> mtext) option" where
  "xparts X ev [] s = Some (s, [])"
| "xparts X ev (p # ps) s =
    xpart X ev p s \<bind> (\<lambda>(s1, m). xparts X ev ps s1 \<bind> (\<lambda>(s2, m2). Some (s2, m @ m2)))"

subsection \<open>Tildes\<close>

definition xtilde1 :: "'o xpk \<Rightarrow> 'o exs \<Rightarrow> string \<Rightarrow> string option" where
  "xtilde1 X s t =
    (if t = [] then hibr_get (e_sh s) ''HOME''
     else if t = ''+'' then hibr_get (e_sh s) ''PWD''
     else if t = ''-'' then hibr_get (e_sh s) ''OLDPWD''
     else if isdigit (hd t) \<or> sgn_at t then
       (let k = atol (if sgn_at t then tl t else t) in x_dir X s (if hd t = CHR ''-'' then - (k + 1) else k))
     else x_user X t)"

text \<open>How much of the first part a leading tilde takes, and what it stands for.\<close>

definition xtilde :: "'o xpk \<Rightarrow> wd \<Rightarrow> 'o exs \<Rightarrow> nat \<times> mtext" where
  "xtilde X w s =
    (case w of
       [] \<Rightarrow> (0, [])
     | p # ps \<Rightarrow>
         if pk p \<noteq> P_TXT \<or> pq p \<noteq> 0 \<or> at (pt p) 0 \<noteq> CHR ''~'' then (0, [])
         else
           let t = takeWhile (\<lambda>c. c \<noteq> CHR ''/'') (tl (pt p)); n = length t in
           if 1 + n = length (pt p) \<and> ps \<noteq> [] then (0, [])
           else case xtilde1 X s t of None \<Rightarrow> (0, []) | Some h \<Rightarrow> (1 + n, xput h True))"

text \<open>The value of an assignment from each place where a tilde may stand; \<open>nx\<close>: other parts follow.\<close>

function xtilde_val :: "'o xpk \<Rightarrow> bool \<Rightarrow> 'o exs \<Rightarrow> string \<Rightarrow> mtext" where
  "xtilde_val X nx s t =
    (if t = [] then []
     else
       let nm = takeWhile (\<lambda>c. c \<noteq> CHR ''/'' \<and> c \<noteq> CHR '':'') (tl t);
           h = (if hd t = CHR ''~'' \<and> \<not> (1 + length nm = length t \<and> nx) then xtilde1 X s nm else None);
           r = (if h = None then t else drop (1 + length nm) t);
           pre = takeWhile (\<lambda>c. c \<noteq> CHR '':'') r;
           k = (if length pre < length r then length pre + 1 else length pre)
       in (case h of None \<Rightarrow> [] | Some u \<Rightarrow> xput u True) @ xput (take k r) False @ xtilde_val X nx s (drop k r))"
  by pat_completeness auto
termination
proof (relation "measure (\<lambda>(X, nx, s, t). length t)", goal_cases)
  case (2 X nx s t nm h r pre k)
  show ?case
  proof (cases "h = None")
    case True
    then have "0 < k" using 2 by (auto simp: Let_def)
    then show ?thesis using 2 True by simp
  next
    case False
    then have "length r < length t" using 2 by simp
    then show ?thesis by simp
  qed
qed simp

declare xtilde_val.simps [simp del]

definition xtilde_asg :: "'o xpk \<Rightarrow> wd \<Rightarrow> 'o exs \<Rightarrow> nat \<times> mtext" where
  "xtilde_asg X w s =
    (case w of
       [] \<Rightarrow> (0, [])
     | p # ps \<Rightarrow>
         if pk p \<noteq> P_TXT \<or> pq p \<noteq> 0 then (0, [])
         else
           let t = pt p; n = length t;
               i0 = length (takeWhile (\<lambda>c. isalnum c \<or> c = CHR ''_'') t);
               i1 = (if at t i0 = CHR ''['' then i0 + length (takeWhile (\<lambda>c. c \<noteq> CHR '']'') (drop i0 t)) else i0);
               i2 = (if i1 < n \<and> at t i1 = CHR '']'' then i1 + 1 else i1);
               i = (if i2 < n \<and> at t i2 = CHR ''+'' then i2 + 1 else i2)
           in if i = 0 \<or> i \<ge> n \<or> at t i \<noteq> CHR ''='' then (0, [])
              else (n, xput (take (i + 1) t) False @ xtilde_val X (ps \<noteq> []) s (drop (i + 1) t)))"

subsection \<open>Fields\<close>

text \<open>The bytes a quoted one of which needs a backslash in a pattern.\<close>

definition xpesc :: "mtext \<Rightarrow> string" where
  "xpesc t = concat (map (\<lambda>(c, m). if m \<noteq> 0 \<and> c \<in> set ''*?[()|!@+'' \<union> {BS} then [BS, c] else [c]) t)"

definition xfield :: "'o xpk \<Rightarrow> 'o exs \<Rightarrow> mtext \<Rightarrow> 'o exs \<times> xfld list" where
  "xfield X s t =
    (let self = [(map fst t, Some (map snd t))] in
     if \<not> xmeta (map (\<lambda>(c, m). (c, m \<noteq> 0)) t) \<or> has (sopt (e_sh s)) O_NOGLOB then (s, self)
     else
       let ps = sort (x_glob X s (xpesc t)) in
       if ps \<noteq> [] then (s, map (\<lambda>f. (f, None)) ps)
       else if has (sopt (e_sh s)) O_FAILGLOB then (s\<lparr>e_xerr := 1\<rparr>, [])
       else if has (sopt (e_sh s)) O_NULLGLOB then (s, [])
       else (s, self))"

fun xfields :: "'o xpk \<Rightarrow> 'o exs \<Rightarrow> mtext list \<Rightarrow> 'o exs \<times> xfld list" where
  "xfields X s [] = (s, [])"
| "xfields X s (t # ts) = (let (s1, fs) = xfield X s t; (s2, gs) = xfields X s1 ts in (s2, fs @ gs))"

definition xoutq :: "string \<Rightarrow> xfld" where
  "xoutq t = (t, Some (replicate (length t) 1))"

text \<open>A word that is one quoted list: each element a field. \<open>None\<close>: it is something else.\<close>

definition xw_list :: "'o xpk \<Rightarrow> 'o xev \<Rightarrow> part \<Rightarrow> 'o exs \<Rightarrow> ('o exs \<times> xfld list option) option" where
  "xw_list X ev p s =
    (let op = xop p in
     if \<not> parr p \<and> op = V_NONE \<and> pt p = ''@'' then Some (s, Some (map xoutq (e_av s)))
     else if \<not> parr p \<and> op = V_SUBSTR \<and> pt p = ''@'' then
       (let lst = xposlist s in
        xslice X ev p (length lst) s \<bind> (\<lambda>(s1, off, ln). Some (s1, Some (map xoutq (take ln (drop off lst))))))
     else if parr p \<and> (op \<in> {V_SUBSTR, V_XKW, V_NONE, V_KEYS} \<or> xper op) \<and> xlastat p then
       xkeys X ev p s \<bind> (\<lambda>(s1, ks, nk, al).
         if \<not> al then Some (s1, None)
         else
           let kk = take nk ks; vl = v_list (e_sh s1) (pt p) kk False; kl = v_list (e_sh s1) (pt p) kk True in
           if op = V_SUBSTR then xaslice X ev p kk s1 \<bind> (\<lambda>(s2, l2). Some (s2, Some (map xoutq l2)))
           else if op = V_NONE then Some (s1, Some (map xoutq vl))
           else if op = V_KEYS then Some (s1, Some (map xoutq kl))
           else xprep ev p s1 \<bind> (\<lambda>(s2, q).
             if op = V_XKW then Some (s2, Some (concat (map (\<lambda>(k, v). [xoutq k, xoutq v]) (xkv kl vl))))
             else xop_each X ev q vl s2 \<bind> (\<lambda>(s3, ts). Some (s3, Some (map xoutq ts)))))
     else Some (s, None))"

definition w_meta :: "char \<Rightarrow> bool" where
  "w_meta c \<longleftrightarrow> c \<in> set ''*?[(~{ '' \<union> {CHR 0x09, CHR 0x0A}"

text \<open>A word whose fields need no buffer; \<open>None\<close>: it does.\<close>

definition xw_quick :: "'o xpk \<Rightarrow> 32 word \<Rightarrow> wd \<Rightarrow> 'o exs \<Rightarrow> 'o exs \<times> xfld list option" where
  "xw_quick X fl w s =
    (case w of
       [p] \<Rightarrow>
         let t = pt p in
         if has fl XPAT \<and> pk p = P_TXT \<and> pq p = 0 \<and> t \<noteq> [] \<and> hd t \<noteq> CHR ''~'' then (s, Some [(t, None)])
         else if pk p = P_VAR \<and> pq p = 0 \<and> \<not> parr p \<and> xop p = V_NONE \<and> \<not> e_uset s \<and> \<not> has fl XPAT \<and>
                 \<not> (has fl XBRK \<and> t = ''@'') then
           (let (s1, v) = xval X s t; u = or_nil v in
            if has fl XONE then (s1, Some [if e_strict s1 then xoutq u else (u, None)])
            else if v = None then (s1, Some [])
            else if e_strict s1 \<or> list_ex w_meta u then (s1, None)
            else (let (s2, f) = x_ifs s1 in
                  (s2, if f = None \<or> \<not> list_ex (\<lambda>c. c \<in> set (or_nil f)) u then Some (if u = [] then [] else [(u, None)])
                       else None)))
         else if pk p = P_TXT \<and> \<not> has fl XPAT then
           (if pq p \<noteq> 0 then (s, Some [xoutq t])
            else if has fl XONE \<and> (at t 0 \<noteq> CHR ''~'' \<or> has fl XNOTIL) \<and> \<not> (has fl XASG \<and> CHR ''~'' \<in> set t)
            then (s, Some [(t, None)])
            else if t \<noteq> [] \<and> \<not> list_ex (\<lambda>c. c \<in> set ''*?[(~ '' \<union> {CHR 0x09, CHR 0x0A}) t
            then (let (s1, f) = x_ifs s in (s1, if f = None then Some [(t, None)] else None))
            else (s, None))
         else (s, None)
     | _ \<Rightarrow> (s, None))"

definition drop_first :: "nat \<Rightarrow> wd \<Rightarrow> wd" where
  "drop_first k w = (case w of [] \<Rightarrow> [] | p # ps \<Rightarrow> with_t (drop k (pt p)) p # ps)"

definition xw_full :: "'o xpk \<Rightarrow> 'o xev \<Rightarrow> 32 word \<Rightarrow> wd \<Rightarrow> 'o exs \<Rightarrow> ('o exs \<times> xfld list) option" where
  "xw_full X ev fl w s =
    (let (k, m0) =
       (if \<not> has fl XASG then (if has fl XNOTIL then (0, []) else xtilde X w s)
        else if w \<noteq> [] \<and> pk (hd w) = P_TXT \<and> CHR ''~'' \<in> set (pt (hd w)) then xtilde_asg X w s else (0, []))
     in xparts X ev (if k = 0 then w else drop_first k w) s \<bind> (\<lambda>(s1, m1).
       let m = (if has fl (XPAT OR XONE) \<and> \<not> has fl XBRK then xunbrk (m0 @ m1) else m0 @ m1) in
       if has fl XPAT then Some (s1, [(xpesc m, None)])
       else if has fl XONE then Some (s1, [(map fst m, Some (map snd m))])
       else if m = [] then Some (s1, if w_hasq w then [([], None)] else [])
       else (let (s2, f) = x_ifs s1 in Some (xfields X s2 (xsplit f (list_ex (\<lambda>c. snd c \<ge> 2) m) m)))))"

definition xwm :: "'o xpk \<Rightarrow> 'o xev \<Rightarrow> 'o xev" where
  "xwm X ev fl w s =
    (case w of
       [p] \<Rightarrow> if pk p = P_VAR \<and> xq p s \<and> \<not> has fl (XONE OR XPAT) then xw_list X ev p s else Some (s, None)
     | _ \<Rightarrow> Some (s, None)) \<bind> (\<lambda>(s1, r).
      case r of
        Some fs \<Rightarrow> Some (s1, fs)
      | None \<Rightarrow>
          (case xw_quick X fl w s1 of
             (s2, Some fs) \<Rightarrow> Some (s2, fs)
           | (s2, None) \<Rightarrow> xw_full X ev fl w s2))"

primrec xw_ev :: "'o xpk \<Rightarrow> nat \<Rightarrow> 'o xev" where
  "xw_ev X 0 = (\<lambda>fl w s. None)"
| "xw_ev X (Suc f) = xwm X (xw_ev X f)"

subsection \<open>A command's words\<close>

definition w_simple :: "wd \<Rightarrow> bool" where
  "w_simple w \<longleftrightarrow> (case w of [p] \<Rightarrow> pk p = P_TXT \<and> pq p = 0 \<and> pt p \<noteq> [] \<and> \<not> list_ex w_meta (pt p) | _ \<Rightarrow> False)"

definition w_name :: "wd \<Rightarrow> nat" where
  "w_name w = length (takeWhile (\<lambda>c. isalnum c \<or> c = CHR ''_'') (pt (hd w)))"

definition w_bind :: "wd \<Rightarrow> bool" where
  "w_bind w \<longleftrightarrow>
    w \<noteq> [] \<and> pk (hd w) = P_TXT \<and> pq (hd w) = 0 \<and> name_start (pt (hd w)) \<and> at (pt (hd w)) (w_name w) = CHR ''[''"

definition w_assign :: "wd \<Rightarrow> bool" where
  "w_assign w \<longleftrightarrow>
    w \<noteq> [] \<and> pk (hd w) = P_TXT \<and> name_start (pt (hd w)) \<and>
    (let t = pt (hd w); i = w_name w;
         i1 = (if at t i = CHR ''['' then min (length t) (i + length (takeWhile (\<lambda>c. c \<noteq> CHR '']'') (drop i t)) + 1) else i);
         i2 = (if at t i1 = CHR ''+'' then i1 + 1 else i1)
     in at t i2 = CHR ''='')"

text \<open>1: the command reads the quoting of its arguments; 2: they may be assignments.\<close>

definition bi_argk :: "string \<Rightarrow> nat" where
  "bi_argk nm =
    (if nm \<in> {''unset'', ''command'', ''read'', ''json''} then 1
     else if nm \<in> {''local'', ''declare'', ''typeset''} then 2
     else if nm \<in> {''readonly'', ''export''} then 6
     else 0)"

fun xeach :: "'o xev \<Rightarrow> 32 word \<Rightarrow> wd list \<Rightarrow> 'o exs \<Rightarrow> ('o exs \<times> xfld list) option" where
  "xeach ev fl [] s = Some (s, [])"
| "xeach ev fl (w # ws) s = ev fl w s \<bind> (\<lambda>(s1, fs). xeach ev fl ws s1 \<bind> (\<lambda>(s2, gs). Some (s2, fs @ gs)))"

definition xwb :: "'o xev \<Rightarrow> wd \<Rightarrow> 'o exs \<Rightarrow> ('o exs \<times> xfld list) option" where
  "xwb ev w s = xeach ev 0 (br_expand w) s"

text \<open>The words in turn: whether this is the first, whether assignments are taken, whether masks are kept.\<close>

fun xargs :: "'o xev \<Rightarrow> bool \<Rightarrow> bool \<Rightarrow> bool \<Rightarrow> bool \<Rightarrow> xfld list \<Rightarrow> wd list \<Rightarrow> 'o exs \<Rightarrow> ('o exs \<times> xfld list) option" where
  "xargs ev noifs first dcl om out [] s = Some (s, out)"
| "xargs ev noifs first dcl om out (w # ws) s =
    (let fl = (if dcl \<and> w_assign w then XONE OR XASG else 0) in
     (if fl = 0 \<and> noifs \<and> w_simple w then Some (s, [(pt (hd w), None)]) else xeach ev fl (br_expand w) s) \<bind> (\<lambda>(s1, fs).
       let out1 = out @ (if om then fs else map (\<lambda>f. (fst f, None)) fs);
           k = (if first \<and> out1 \<noteq> [] then bi_argk (fst (hd out1)) else 0);
           al = (first \<and> out1 \<noteq> [] \<and> map_of (e_als s1) (fst (hd out1)) \<noteq> None)
       in xargs ev noifs False (dcl \<or> k AND 2 \<noteq> 0) (om \<or> k AND 1 \<noteq> 0 \<or> al) out1 ws s1))"

definition xargv :: "'o xev \<Rightarrow> wd list \<Rightarrow> 'o exs \<Rightarrow> ('o exs \<times> xfld list) option" where
  "xargv ev ws s0 = (let (s, f) = x_ifs s0 in xargs ev (f = None) True False False [] ws s)"

end
