(* ===== verification/ExpandLaws.thy ===== *)
theory ExpandLaws
  imports Expand ExecLaws
begin

text \<open>
  What holds of the expansion of words of Expand: quoting keeps a value one field, \<open>"$@"\<close> keeps the positional
  parameters, the shortcuts change nothing, the operators on unset values, and that expanding a word returns.
\<close>

abbreviation (input) lt :: "nat \<Rightarrow> string \<Rightarrow> part" where
  "lt q t \<equiv> Part P_TXT t 0 q False False [] []"

abbreviation (input) pv :: "nat \<Rightarrow> string \<Rightarrow> part" where
  "pv q nm \<equiv> Part P_VAR nm 0 q False False [] []"

text \<open>A shell whose callees do nothing, for examples.\<close>

definition x0 :: "unit xpk" where
  "x0 = \<lparr>x_eval = (\<lambda>s t. (s, 0)), x_ax = (\<lambda>s t. (s, word_of_int (atol t))), x_fu = 99, x_cap = (\<lambda>s t. (s, [])),
    x_psub = (\<lambda>s p. (s, [])), x_lex = (\<lambda>t. Some [lt 0 t]), x_rand = (\<lambda>s. (s, 4)), x_clock = (\<lambda>s. []), x_dash = (\<lambda>s. []),
    x_main = (\<lambda>s. True), x_dir = (\<lambda>s k. None), x_user = (\<lambda>t. None), x_glob = (\<lambda>s t. []), x_prompt = (\<lambda>s t. (s, t)),
    x_esc = (\<lambda>t. t)\<rparr>"

subsection \<open>Quoted text\<close>

lemma xput_quoted [simp]: "xput t True = quoted t"
  by (simp add: xput_def quoted_def)

lemma quoted_append: "quoted (a @ b) = quoted a @ quoted b"
  by (simp add: quoted_def)

lemma quoted_Nil [simp]: "quoted t = [] \<longleftrightarrow> t = []" "quoted [] = []"
  by (simp_all add: quoted_def)

lemma map_fst_quoted [simp]: "map fst (quoted t) = t" "map snd (quoted t) = replicate (length t) 1"
  by (induction t) (simp_all add: quoted_def)

lemma xmeta_quoted [simp]: "xmeta (map (\<lambda>(c, m). (c, 0 < m)) (quoted t)) = False"
  by (induction t) (simp_all add: quoted_def)

lemma xfield_quoted [simp]: "xfield X s (quoted t) = (s, [xoutq t])"
  by (simp add: xfield_def xoutq_def)

lemma xfields_quoted [simp]: "xfields X s (map quoted ts) = (s, map xoutq ts)"
  by (induction ts) simp_all

lemma fst_xoutq [simp]: "fst (xoutq t) = t"
  by (simp add: xoutq_def)

lemma comp_xoutq [simp]: "fst \<circ> xoutq = id"
  by auto

lemma brk_none: "list_all (\<lambda>c. snd c < 2) m \<Longrightarrow> xsplit ifso False m = xsplitn ifso m"
  by (simp add: xsplit_def)

lemma no_brk_quoted [simp]: "list_ex (\<lambda>c. snd c \<ge> 2) (quoted t) = False"
  by (induction t) (simp_all add: quoted_def)

text \<open>The general way, for a word that starts with no tilde; a buffer that is all quoted is one field.\<close>

lemma full_parts:
  assumes "xparts X ev w s = Some (s1, m)" "xtilde X w s = (0, [])"
  shows "xw_full X ev 0 w s =
    (if m = [] then Some (s1, if w_hasq w then [([], None)] else [])
     else Some (xfields X (fst (x_ifs s1)) (xsplit (snd (x_ifs s1)) (list_ex (\<lambda>c. snd c \<ge> 2) m) m)))"
  using assms by (auto simp: xw_full_def split: prod.split)

lemma full_quoted:
  assumes "xparts X ev w s = Some (s1, quoted t)" "xtilde X w s = (0, [])" "w_hasq w"
  shows "\<exists>s' mk. xw_full X ev 0 w s = Some (s', [(t, mk)]) \<and> (s' = s1 \<or> s' = fst (x_ifs s1))"
proof (cases "t = []")
  case True
  then show ?thesis using full_parts [OF assms(1, 2)] assms(3) by simp
next
  case False
  then show ?thesis using full_parts [OF assms(1, 2)] xfields_quoted [of X "fst (x_ifs s1)" "[t]"]
    by (simp add: xsplit_def quoted_one xoutq_def)
qed

subsection \<open>The positional parameters\<close>

text \<open>The list with text before its first and after its last element.\<close>

fun around :: "string \<Rightarrow> string list \<Rightarrow> string \<Rightarrow> string list" where
  "around x [] y = [x @ y]"
| "around x [t] y = [x @ t @ y]"
| "around x (t # u # r) y = (x @ t) # around [] (u # r) y"

abbreviation (input) brks :: "string list \<Rightarrow> mtext" where
  "brks r \<equiv> concat (map (\<lambda>t. (CHR '' '', 2) # quoted t) r)"

lemma xpiece_quoted: "pb = 2 \<or> nb = 2 \<Longrightarrow> xpiece ifso pb nb (quoted t) = [quoted t]"
  by (cases "t = []") (auto simp: xpiece_def quoted_one)

lemma brk_around:
  "r \<noteq> [] \<or> pb = 2 \<Longrightarrow> xsplit_brk ifso pb (quoted (x @ t)) (brks r @ quoted y) = map quoted (around x (t # r) y)"
proof (induction r arbitrary: t x pb)
  case Nil
  then show ?case using brk_quoted [of ifso pb "quoted (x @ t)" y "[]"] by (simp add: xpiece_quoted quoted_append flip: append_assoc)
     (simp add: xpiece_quoted flip: quoted_append)
next
  case (Cons u r)
  have "xsplit_brk ifso 2 [] (quoted u @ brks r @ quoted y) = map quoted (around [] (u # r) y)"
    using brk_quoted [of ifso 2 "[]" u "brks r @ quoted y"] Cons.IH [of 2 "[]" u] by simp
  then show ?case by (simp add: xpiece_quoted)
qed

lemma brks_marks: "list_ex (\<lambda>c. snd c \<ge> 2) (quoted x @ brks r @ quoted y) \<longleftrightarrow> r \<noteq> []"
  by (induction r) (auto simp: list_ex_append)

lemma xparts_lt: "xparts X ev (lt 1 x # w) s = xparts X ev w s \<bind> (\<lambda>(s2, m). Some (s2, quoted x @ m))"
  by (simp add: xpart_def)

lemma xlist_quoted:
  "pq p \<noteq> 0 \<Longrightarrow> xlist p lst False s = (s, case lst of [] \<Rightarrow> [] | t # ts \<Rightarrow> quoted t @ brks ts)"
  by (cases lst) (simp_all add: xlist_def xq_def xv_def xbrk_def)

lemma xparts_at: "xparts X ev (pv 1 ''@'' # w) s =
    xparts X ev w s \<bind> (\<lambda>(s2, m). Some (s2, (case e_av s of [] \<Rightarrow> [] | t # ts \<Rightarrow> quoted t @ brks ts) @ m))"
  by (simp add: xpart_def xvar_def xpar_def xop_def xlist_quoted)

text \<open>C14: A quoted \<open>$@\<close> within quoted text gives one field for each positional parameter, whatever they hold and
  whatever IFS is, the text before it on the first and the text after it on the last; with no parameters the texts
  are one field.\<close>

theorem at_embedded:
  "\<exists>s' fs. xwm X ev 0 [lt 1 x, pv 1 ''@'', lt 1 y] s = Some (s', fs) \<and> map fst fs = around x (e_av s) y \<and> e_av s' = e_av s"
proof -
  have ifs: "e_av (fst (x_ifs s)) = e_av s" by (simp add: x_ifs_def split: prod.split)
  have l: "xwm X ev 0 [lt 1 x, pv 1 ''@'', lt 1 y] s = xw_full X ev 0 [lt 1 x, pv 1 ''@'', lt 1 y] s"
    by (simp add: xwm_def xw_quick_def)
  have p: "xparts X ev [lt 1 x, pv 1 ''@'', lt 1 y] s =
      Some (s, quoted x @ (case e_av s of [] \<Rightarrow> [] | t # ts \<Rightarrow> quoted t @ brks ts) @ quoted y)"
    unfolding xparts_lt xparts_at by simp
  have t: "xtilde X [lt 1 x, pv 1 ''@'', lt 1 y] s = (0, [])" by (simp add: xtilde_def)
  show ?thesis
  proof (cases "e_av s = [] \<or> length (e_av s) = 1")
    case True
    then obtain u where u: "quoted x @ (case e_av s of [] \<Rightarrow> [] | t # ts \<Rightarrow> quoted t @ brks ts) @ quoted y = quoted u"
      "around x (e_av s) y = [u]"
      by (cases "e_av s") (auto simp: length_Suc_conv simp flip: quoted_append)
    have q: "w_hasq [lt 1 x, pv 1 ''@'', lt 1 y]" by (simp add: w_hasq_def)
    show ?thesis using full_quoted [OF p [unfolded u(1)] t q] u(2) ifs unfolding l by auto
  next
    case False
    then obtain a b r where av: "e_av s = a # b # r" by (cases "e_av s" rule: remdups_adj.cases) auto
    have m: "xsplit f True (quoted x @ quoted a @ brks (b # r) @ quoted y) = map quoted (around x (a # b # r) y)" for f
      using brk_quoted [of f 0 "[]" "x @ a" "brks (b # r) @ quoted y"] brk_around [of "b # r" 0 f x a y]
      by (simp add: xsplit_def quoted_append)
    have e: "list_ex (\<lambda>c. snd c \<ge> 2) (quoted x @ quoted a @ brks (b # r) @ quoted y)"
      using brks_marks [of "x @ a" "b # r" y] by (simp add: quoted_append)
    show ?thesis using full_parts [OF p t] ifs e m unfolding l av by simp
  qed
qed



subsection \<open>Quoted words\<close>

text \<open>A quoted text or a quoted plain parameter, other than \<open>"$@"\<close>, and what it stands for.\<close>

definition qscalar :: "part \<Rightarrow> bool" where
  "qscalar p \<longleftrightarrow>
    pq p \<noteq> 0 \<and> (pk p = P_TXT \<or> pk p = P_VAR \<and> \<not> parr p \<and> xop p = V_NONE \<and> pt p \<noteq> ''@'')"

definition qpart :: "'o xpk \<Rightarrow> part \<Rightarrow> 'o exs \<Rightarrow> 'o exs \<times> string" where
  "qpart X p s =
    (if pk p = P_TXT then (s, pt p)
     else if pt p = ''*'' then (let (s1, sep) = xsep True s in (s1, xjoin sep (e_av s)))
     else (let (s1, v) = xval X s (pt p) in (s1, or_nil v)))"

fun qword :: "'o xpk \<Rightarrow> wd \<Rightarrow> 'o exs \<Rightarrow> 'o exs \<times> string" where
  "qword X [] s = (s, [])"
| "qword X (p # w) s = (let (s1, t) = qpart X p s; (s2, u) = qword X w s1 in (s2, t @ u))"

lemma x_ifs_keeps [simp]: "e_uset (fst (x_ifs s)) = e_uset s" "e_av (fst (x_ifs s)) = e_av s" "e_strict (fst (x_ifs s)) = e_strict s"
  by (simp_all add: x_ifs_def split: prod.split)

lemma xsep_state [simp]: "fst (xsep q s) = fst (x_ifs s)"
  by (simp add: xsep_def split: prod.split)

lemma xval_uset:
  assumes "\<And>s. e_uset (fst (x_rand X s)) = e_uset s"
  shows "e_uset (fst (xval X s k)) = e_uset s"
  using assms [of s] by (auto simp: xval_def Let_def case_prod_unfold split: option.split)

lemma xlist_star:
  "pq p \<noteq> 0 \<Longrightarrow> xlist p lst True s = (fst (x_ifs s), quoted (xjoin (snd (xsep True s)) lst))"
  by (cases lst) (simp_all add: xlist_def xq_def xv_def xjoin_def quoted_append case_prod_unfold Let_def o_def quoted_def map_concat)

lemma xpart_scalar:
  assumes "qscalar p" "\<not> e_uset s" "\<And>s. e_uset (fst (x_rand X s)) = e_uset s"
  shows "xpart X ev p s = Some (fst (qpart X p s), quoted (snd (qpart X p s)))"
proof (cases "pk p = P_TXT")
  case True
  then show ?thesis using assms(1) by (simp add: xpart_def qscalar_def qpart_def)
next
  case False
  then have p: "pk p = P_VAR" "\<not> parr p" "xop p = V_NONE" "pt p \<noteq> ''@''" "pq p \<noteq> 0" using assms(1) by (auto simp: qscalar_def)
  show ?thesis
  proof (cases "pt p = ''*''")
    case True
    then show ?thesis using p xlist_star [of p "e_av s" s]
      by (simp add: xpart_def xvar_def xpar_def qpart_def case_prod_unfold Let_def)
  next
    case star: False
    have "xpart X ev p s = xvar2 X ev p None (snd (xval X s (pt p))) (fst (xval X s (pt p)))"
      using p star by (simp add: xpart_def xvar_def xpar_def xper_def case_prod_unfold Let_def)
    moreover have "\<not> e_uset (fst (xval X s (pt p)))" using xval_uset [OF assms(3)] assms(2) by simp
    ultimately show ?thesis using p star
      by (cases "snd (xval X s (pt p))") (simp_all add: xvar2_def Let_def qpart_def case_prod_unfold or_nil_def xv_def xq_def)
  qed
qed

lemma qpart_uset:
  assumes "\<And>s. e_uset (fst (x_rand X s)) = e_uset s"
  shows "e_uset (fst (qpart X p s)) = e_uset s"
  using xval_uset [OF assms] by (simp add: qpart_def case_prod_unfold Let_def)

lemma xparts_scalar:
  assumes "list_all qscalar w" "\<not> e_uset s" "\<And>s. e_uset (fst (x_rand X s)) = e_uset s"
  shows "xparts X ev w s = Some (fst (qword X w s), quoted (snd (qword X w s)))"
  using assms(1, 2)
proof (induction w arbitrary: s)
  case (Cons p w)
  then have "\<not> e_uset (fst (qpart X p s))" using qpart_uset [OF assms(3)] by simp
  with Cons show ?case
    by (simp add: xpart_scalar [OF _ _ assms(3)] case_prod_unfold Let_def quoted_append)
qed simp

text \<open>C16: A word of quoted texts and quoted parameters is exactly one field, the texts and the values one after
  another, whatever they hold; an unset parameter is empty text. So nothing in quotes is split or matched against files.\<close>

theorem quoted_word:
  assumes "list_all qscalar w" "w \<noteq> []" "\<not> e_uset s" "\<And>s. e_uset (fst (x_rand X s)) = e_uset s"
  shows "\<exists>s' mk. xwm X ev 0 w s = Some (s', [(snd (qword X w s), mk)])"
proof -
  have q: "pq p \<noteq> 0" if "p \<in> set w" for p using assms(1) that by (auto simp: qscalar_def list_all_iff)
  have h: "w_hasq w" using assms(2) q by (cases w) (auto simp: w_hasq_def)
  have t: "xtilde X w s = (0, [])" using assms(2) q by (cases w) (auto simp: xtilde_def)
  have l: "xw_list X ev p s = Some (s, None)" if "w = [p]" "pk p = P_VAR" for p
    using assms(1) that by (auto simp: xw_list_def qscalar_def)
  obtain s' mk where full: "xw_full X ev 0 w s = Some (s', [(snd (qword X w s), mk)])"
    using full_quoted [OF xparts_scalar [OF assms(1, 3, 4)] t h] by blast
  show ?thesis
  proof (cases "\<exists>p. w = [p] \<and> pk p = P_TXT")
    case True
    then obtain p where w: "w = [p]" "pk p = P_TXT" by blast
    then show ?thesis using q [of p] by (simp add: xwm_def xw_quick_def qpart_def xoutq_def Let_def)
  next
    case False
    then have "xw_quick X 0 w s = (s, None)" using q by (auto simp: xw_quick_def split: list.split)
    moreover have "(case w of [p] \<Rightarrow> if pk p = P_VAR \<and> xq p s \<and> \<not> has 0 (XONE OR XPAT) then xw_list X ev p s else Some (s, None)
        | _ \<Rightarrow> Some (s, None)) = Some (s, None)"
      using l by (auto split: list.split)
    ultimately show ?thesis using full unfolding xwm_def by simp
  qed
qed

theorem quoted_word_witness:
  "\<exists>s' mk. xwm x0 (\<lambda>fl w s. None) 0 [lt 1 ''* '', pv 1 ''1'', pv 1 ''*''] (exs0 sh0 [''a b'', ''c'']) = Some (s', [(''* a ba b c'', mk)])"
proof -
  let ?w = "[lt 1 ''* '', pv 1 ''1'', pv 1 ''*'']"
  have "snd (qword x0 ?w (exs0 sh0 [''a b'', ''c''])) = ''* a ba b c''" by code_simp
  moreover have "list_all qscalar ?w" by (simp add: qscalar_def xop_def)
  ultimately show ?thesis using quoted_word [of ?w "exs0 sh0 [''a b'', ''c'']" x0 "\<lambda>fl w s. None"]
    by (simp add: exs_of_def x0_def)
qed

subsection \<open>The operators on unset values\<close>

lemma wvar_quoted:
  assumes "pk p = P_VAR" "pq p = 1" "\<not> parr p" "xop p \<notin> {V_NONE, V_SUBSTR}" "xvar X ev p s = Some (s1, quoted t)"
  shows "\<exists>s' mk. xwm X ev 0 [p] s = Some (s', [(t, mk)]) \<and> (s' = s1 \<or> s' = fst (x_ifs s1))"
proof -
  have "xwm X ev 0 [p] s = xw_full X ev 0 [p] s"
    using assms(1-4) by (simp add: xwm_def xq_def xw_list_def xw_quick_def)
  moreover have "xparts X ev [p] s = Some (s1, quoted t)" using assms(1, 5) by (simp add: xpart_def)
  ultimately show ?thesis using full_quoted [of X ev "[p]" s s1 t] assms(1, 2) by (simp add: xtilde_def w_hasq_def)
qed

lemma word_lit:
  "has fl XPAT = False \<Longrightarrow> xw_ev X (Suc f) fl [lt 1 d] s = Some (s, [xoutq d])"
  by (simp add: xwm_def xw_quick_def)

lemma map2_replicate: "map2 F d (replicate (length d) k) = map (\<lambda>c. F c k) d"
  by (induction d) simp_all

lemma xarg_lit:
  "pq p = 1 \<Longrightarrow> parg p = [[lt 1 d]] \<Longrightarrow> xarg (xw_ev X (Suc f)) p keep s = Some (s, quoted d, d)"
  using word_lit [of "(if keep then XBRK else 0) OR (XONE OR XNOTIL)" X f d s]
  by (cases keep) (simp_all add: xarg_def xone_fq_def arg1_def has_def xoutq_def map2_replicate quoted_def del: xw_ev.simps)

lemma xval_state: "name_start nm \<Longrightarrow> nm \<noteq> ''RANDOM'' \<Longrightarrow> fst (xval X s nm) = s"
proof -
  assume n: "name_start nm" "nm \<noteq> ''RANDOM''"
  then have "nm \<notin> {''?'', ''#'', ''$'', ''0'', ''*'', ''@'', ''-''} \<and> \<not> isdigit (at nm 0)"
    by (auto simp: name_start_def isdigit_def isalpha_def islower_def isupper_def)
  then show ?thesis using n(2) by (simp add: xval_def split: option.split)
qed

text \<open>A quoted \<open>${nm op "d"}\<close>: the state after it and its fields.\<close>

definition quse :: "'o xpk \<Rightarrow> nat \<Rightarrow> int \<Rightarrow> bool \<Rightarrow> string \<Rightarrow> string \<Rightarrow> 'o exs \<Rightarrow> ('o exs \<times> string list) option" where
  "quse X f op col nm d s =
    map_option (\<lambda>(s1, fs). (s1, map fst fs)) (xw_ev X (Suc (Suc f)) 0 [Part P_VAR nm op 1 col False [[lt 1 d]] []] s)"

lemma quse_var:
  assumes "0 < op" "op < 13" "xvar X (xw_ev X (Suc f)) (Part P_VAR nm op 1 col False [[lt 1 d]] []) s = Some (s1, quoted t)"
  shows "\<exists>s'. quse X f op col nm d s = Some (s', [t]) \<and> (s' = s1 \<or> s' = fst (x_ifs s1))"
proof -
  have "nat op \<notin> {V_NONE, V_SUBSTR}" using assms(1, 2) by auto
  then obtain s' mk where "xw_ev X (Suc (Suc f)) 0 [Part P_VAR nm op 1 col False [[lt 1 d]] []] s = Some (s', [(t, mk)])"
    "s' = s1 \<or> s' = fst (x_ifs s1)"
    using wvar_quoted [OF _ _ _ _ assms(3)] by (auto simp: xop_def simp del: xw_ev.simps(2)) (auto simp: xop_def)
  then show ?thesis by (simp add: quse_def del: xw_ev.simps)
qed

text \<open>C17: Of a variable with a name of its own and a literal word in quotes, \<open>-\<close> gives the value or the word, \<open>+\<close>
  the word or nothing, \<open>=\<close> what \<open>-\<close> gives and stores the word, and \<open>?\<close> the value or stops the shell with status 1;
  with a colon the empty value is as good as none.\<close>

theorem defaults:
  assumes "name_start nm" "nm \<noteq> ''RANDOM''" "v = snd (xval X s nm)" "ok = (v \<noteq> None \<and> (\<not> col \<or> v \<noteq> Some []))"
  shows "(\<exists>s'. quse X f 1 col nm d s = Some (s', [if ok then the v else d])) \<and>
    (\<exists>s'. quse X f 4 col nm d s = Some (s', [if ok then d else []])) \<and>
    (\<exists>s'. quse X f 2 col nm d s = Some (s', [if ok then the v else d]) \<and>
      (\<not> ok \<longrightarrow> tab (e_sh s') = tab (fst (hibr_set (x_eval X) (e_sh s) nm d False)))) \<and>
    (\<exists>s'. quse X f 3 col nm d s = Some (s', [if ok then the v else []]) \<and>
      (\<not> ok \<longrightarrow> e_stop s' \<and> est s' = 1 \<and> (e_it s \<or> e_quit s')))"
proof -
  define p where "p op = Part P_VAR nm op 1 col False [[lt 1 d]] []" for op
  define ev where "ev = xw_ev X (Suc f)"
  have sel: "pq (p op) = 1" "pk (p op) = P_VAR" "parg (p op) = [[lt 1 d]]" "pt (p op) = nm" "parr (p op) = False" "pcol (p op) = col"
    "xop (p op) = nat op" for op by (simp_all add: p_def xop_def)
  have np: "nm \<noteq> ''@'' \<and> nm \<noteq> ''*''" using assms(1) by (auto simp: name_start_def byte_simps)
  have xval: "xval X s nm = (s, v)" using xval_state [OF assms(1, 2)] assms(3) by (metis prod.collapse)
  have var: "xvar X ev (p op) s = xvar2 X ev (p op) None v s" if "op \<in> {1, 2, 3, 4}" for op
    using that np by (auto simp: xvar_def sel xpar_def xval)
  have arg: "xarg ev (p op) keep s = Some (s, quoted d, d)" for op keep unfolding ev_def by (rule xarg_lit) (simp_all add: sel)
  have one: "xonef ev XONE (arg1 (p op)) s = Some (s, d)" for op
    using word_lit [of XONE X f d s] by (simp add: xonef_def arg1_def sel ev_def has_def del: xw_ev.simps)
  have q: "xv (p op) t u = quoted u" for op t u by (simp add: xv_def xq_def sel)
  define s2 where "s2 = s\<lparr>e_sh := fst (hibr_set (x_eval X) (e_sh s) nm d False)\<rparr>"
  have r: "xvar X ev (p 1) s = Some (s, quoted (if ok then the v else d))"
    "xvar X ev (p 4) s = Some (s, quoted (if ok then d else []))"
    "xvar X ev (p 2) s = Some (if ok then s else s2, quoted (if ok then the v else d))"
    "xvar X ev (p 3) s = Some (if ok then s else x_die s 1, quoted (if ok then the v else []))"
    using assms(1, 4) by (auto simp: var xvar2_def sel xucheck_def xvar2_word_def arg one q s2_def split: option.split)
  have ifs: "tab (e_sh (fst (x_ifs t))) = tab (e_sh t)" "e_stop (fst (x_ifs t)) = e_stop t" "e_quit (fst (x_ifs t)) = e_quit t"
    "est (fst (x_ifs t)) = est t" for t :: "'a exs"
    by (auto simp: x_ifs_def sh_ifs_def Let_def split: prod.split)
  have die: "e_stop (x_die s 1)" "est (x_die s 1) = 1" "e_it s \<or> e_quit (x_die s 1)"
    by (auto simp: x_die_def with_st_def)
  note u = quse_var [of _ X f nm col d s, folded p_def, folded ev_def]
  from u [OF _ _ r(1)] have "\<exists>s'. quse X f 1 col nm d s = Some (s', [if ok then the v else d])" by auto
  moreover from u [OF _ _ r(2)] have "\<exists>s'. quse X f 4 col nm d s = Some (s', [if ok then d else []])" by auto
  moreover obtain t3 where "quse X f 2 col nm d s = Some (t3, [if ok then the v else d])"
    "t3 = (if ok then s else s2) \<or> t3 = fst (x_ifs (if ok then s else s2))" using u [OF _ _ r(3)] by auto
  moreover from this(2) have "\<not> ok \<longrightarrow> tab (e_sh t3) = tab (e_sh s2)" using ifs(1) [of s2] by auto
  moreover obtain t4 where "quse X f 3 col nm d s = Some (t4, [if ok then the v else []])"
    "t4 = (if ok then s else x_die s 1) \<or> t4 = fst (x_ifs (if ok then s else x_die s 1))" using u [OF _ _ r(4)] by auto
  moreover from this(2) have "\<not> ok \<longrightarrow> e_stop t4 \<and> est t4 = 1 \<and> (e_it s \<or> e_quit t4)"
    using ifs(2-4) [of "x_die s 1"] die by auto
  moreover have "tab (e_sh s2) = tab (fst (hibr_set (x_eval X) (e_sh s) nm d False))" by (simp add: s2_def)
  ultimately show ?thesis by metis
qed

theorem defaults_witness:
  "(\<exists>s'. quse x0 0 1 True ''x'' ''d'' (exs0 sh0 []) = Some (s', [''d''])) \<and> (\<exists>s'. quse x0 0 4 True ''x'' ''d'' (exs0 sh0 []) = Some (s', [[]]))"
proof -
  have "snd (xval x0 (exs0 sh0 []) ''x'') = None" by code_simp
  then show ?thesis using defaults [of "''x''" None x0 "exs0 sh0 []" False True 0 "''d''"] by (simp add: name_start_def byte_simps)
qed

text \<open>C20: With no positional parameters \<open>"${@-w}"\<close> is one empty field and not its word, and \<open>"${@+w}"\<close> is its word:
  the text joined from no parameters counts as a set value, where for a variable that is not set it does not.\<close>

theorem at_without_parameters:
  "(\<exists>s'. quse X f 1 False ''@'' d (s\<lparr>e_av := []\<rparr>) = Some (s', [[]])) \<and> (\<exists>s'. quse X f 4 False ''@'' d (s\<lparr>e_av := []\<rparr>) = Some (s', [d]))"
proof -
  define t where "t = s\<lparr>e_av := []\<rparr>"
  define p where "p op = Part P_VAR ''@'' op 1 False False [[lt 1 d]] []" for op
  define ev where "ev = xw_ev X (Suc f)"
  have sel: "pq (p op) = 1" "pk (p op) = P_VAR" "parg (p op) = [[lt 1 d]]" "pt (p op) = ''@''" "parr (p op) = False" "pcol (p op) = False"
    "xop (p op) = nat op" for op by (simp_all add: p_def xop_def)
  have xval: "xval X t ''@'' = (t, Some [])" by (simp add: xval_def t_def xjoin_def)
  have av: "e_av t = []" by (simp add: t_def)
  have arg: "xarg ev (p op) keep t = Some (t, quoted d, d)" for op keep unfolding ev_def by (rule xarg_lit) (simp_all add: sel)
  have "xvar X ev (p 1) t = Some (t, quoted [])" "xvar X ev (p 4) t = Some (t, quoted d)"
    by (auto simp: xvar_def sel xpar_def xper_def xval xlistok_def av xvar2_def xvar2_word_def arg xv_def xq_def)
  note u = this [THEN [3] quse_var [of _ X f "''@''" False d t, folded p_def, folded ev_def]]
  from u show ?thesis unfolding t_def by auto
qed

subsection \<open>The shortcuts\<close>

lemma xmeta_none: "\<forall>c \<in> set b. fst c \<notin> {CHR ''*'', CHR ''?'', CHR ''['', CHR ''(''} \<Longrightarrow> \<not> xmeta (map (\<lambda>(c, m). (c, 0 < m)) b)"
proof (induction b)
  case (Cons c b)
  then show ?case by (cases c; cases b) auto
qed simp

definition unq :: "string \<Rightarrow> mtext" where
  "unq t = xput t False"

lemma unq_simps [simp]: "unq [] = []" "unq t = [] \<longleftrightarrow> t = []" "map fst (unq t) = t" "set (unq t) = (\<lambda>c. (c, 0)) ` set t"
  "\<not> list_ex (\<lambda>c. snd c \<ge> 2) (unq t)"
  by (auto simp: unq_def xput_def o_def list_ex_iff)

text \<open>Unquoted text with nothing to split at and nothing of a pattern.\<close>

lemma full_plain:
  assumes "xparts X ev w s = Some (s1, unq t)" "xtilde X w s = (0, [])" "\<not> w_hasq w"
    "\<forall>c \<in> set t. c \<notin> {CHR ''*'', CHR ''?'', CHR ''['', CHR ''(''}"
    "\<forall>c \<in> set t. c \<notin> set (case snd (x_ifs s1) of Some i \<Rightarrow> i | None \<Rightarrow> [CHR '' '', CHR 0x09, CHR 0x0A])"
  shows "\<exists>s2 gs. xw_full X ev 0 w s = Some (s2, gs) \<and> map fst gs = (if t = [] then [] else [t])"
proof (cases "t = []")
  case True
  then show ?thesis using full_parts [OF assms(1, 2)] assms(3) by simp
next
  case False
  have i: "\<forall>c \<in> set (unq t). \<not> xifsat (case snd (x_ifs s1) of Some i \<Rightarrow> i | None \<Rightarrow> [CHR '' '', CHR 0x09, CHR 0x0A]) c"
    using assms(5) by (auto simp: xifsat_def strchr_None)
  have "xsplitn (snd (x_ifs s1)) (unq t) = [unq t]"
    by (rule split_none [OF _ i]) (use False in simp)
  moreover have "\<not> xmeta (map (\<lambda>(c, m). (c, 0 < m)) (unq t))" using assms(4) by (intro xmeta_none) auto
  ultimately show ?thesis using full_parts [OF assms(1, 2)] False
    by (simp add: xsplit_def xfield_def Let_def)
qed

lemma quick_text:
  assumes "xw_quick X 0 [p] s = (s1, Some fs)" "pk p = P_TXT"
  shows "\<exists>s2 gs. xw_full X ev 0 [p] s = Some (s2, gs) \<and> map fst gs = map fst fs"
proof (cases "pq p = 0")
  case False
  then have "xparts X ev [p] s = Some (s, quoted (pt p))" using assms(2) by (simp add: xpart_def)
  moreover have "fs = [xoutq (pt p)]" using assms False by (simp add: xw_quick_def Let_def)
  ultimately show ?thesis using full_quoted [of X ev "[p]" s s "pt p"] False assms(2) by (auto simp: xtilde_def w_hasq_def)
next
  case True
  then have f: "fs = [(pt p, None)]" "pt p \<noteq> []" "snd (x_ifs s) = None"
      "\<forall>c \<in> set (pt p). c \<notin> set ''*?[(~ '' \<union> {CHR 0x09, CHR 0x0A}"
    using assms by (auto simp: xw_quick_def Let_def case_prod_unfold list_ex_iff split: if_splits)
  then have "at (pt p) 0 \<noteq> CHR ''~''" by (cases "pt p") auto
  moreover have "xparts X ev [p] s = Some (s, unq (pt p))" using assms(2) True by (simp add: xpart_def unq_def)
  ultimately show ?thesis using full_plain [of X ev "[p]" s s "pt p"] f True assms(2)
    by (auto simp: xtilde_def w_hasq_def)
qed

text \<open>What a parameter gives unquoted: text the shortcut takes stands for at most one element of a list.\<close>

lemma xjoin_short:
  "\<forall>c \<in> set (xjoin (d # sep) ws). c \<noteq> d \<Longrightarrow> ws = [] \<or> (\<exists>w. ws = [w] \<and> xjoin (d # sep) ws = w)"
  by (cases ws; cases "tl ws") (auto simp: xjoin_def)

lemma xsep_Cons: "\<exists>d r. snd (xsep False s) = d # r \<and> (d = CHR '' '' \<or> (\<exists>f. snd (x_ifs s) = Some f \<and> d \<in> set f))"
  by (auto simp: xsep_def case_prod_unfold Let_def split: option.split list.split)

lemma x_ifs_twice [simp]: "snd (x_ifs (fst (x_ifs s))) = snd (x_ifs s)"
  by (auto simp: x_ifs_def sh_ifs_def Let_def case_prod_unfold)

lemma xval_at: "xval X s ''@'' = (s, Some (xjoin '' '' (e_av s)))"
  by (simp add: xval_def)

lemma xval_star: "xval X s ''*'' = (fst (x_ifs s), Some (xjoin (snd (xsep False s)) (e_av s)))"
  by (simp add: xval_def case_prod_unfold Let_def)

lemma xval_None: "xval X s k = (t, None) \<Longrightarrow> t = s"
  unfolding xval_def Let_def case_prod_unfold by (simp split: if_split_asm option.split_asm)

lemma xpart_plain:
  assumes p: "pk p = P_VAR" "pq p = 0" "\<not> parr p" "xop p = V_NONE"
    and u: "xval X s (pt p) = (s1, Some u)" and s: "\<not> e_strict s" "\<not> e_strict s1"
    and m: "\<not> list_ex w_meta u" "snd (x_ifs s1) = None \<or> \<not> list_ex (\<lambda>c. c \<in> set (or_nil (snd (x_ifs s1)))) u"
  shows "\<exists>s2. xparts X ev [p] s = Some (s2, unq u) \<and> snd (x_ifs s2) = snd (x_ifs s1)"
proof -
  have sp: "\<forall>c \<in> set u. c \<noteq> CHR '' ''" using m(1) by (auto simp: list_ex_iff w_meta_def)
  have nq: "\<not> xq p s" using p(2) s(1) by (simp add: xq_def)
  have one: "xlist p lst star s = (fst (if star then x_ifs s else (s, None)), unq w)" if "lst = [] \<and> w = [] \<or> lst = [w]" for lst w star
  proof -
    have "xv p t w = unq w" if "e_strict t = e_strict s" for t using p(2) s(1) that by (simp add: xv_def xq_def unq_def)
    then show ?thesis using that nq by (auto simp: xlist_def case_prod_unfold Let_def) (auto simp: x_ifs_def sh_ifs_def Let_def case_prod_unfold)
  qed
  show ?thesis
  proof (cases "xpar p")
    case True
    obtain sep where j: "u = xjoin sep (e_av s)" "pt p = ''@'' \<and> sep = '' '' \<and> s1 = s \<or> pt p = ''*'' \<and> sep = snd (xsep False s) \<and> s1 = fst (x_ifs s)"
      using u True unfolding xpar_def by (metis Pair_inject option.inject xval_at xval_star)
    obtain d r where d: "sep = d # r" "\<forall>c \<in> set u. c \<noteq> d"
    proof (cases "pt p = ''@''")
      case True
      then show ?thesis using j sp that by auto
    next
      case False
      then have w: "sep = snd (xsep False s)" "s1 = fst (x_ifs s)" using j by auto
      obtain d r where x: "snd (xsep False s) = d # r" "d = CHR '' '' \<or> (\<exists>f. snd (x_ifs s) = Some f \<and> d \<in> set f)"
        using xsep_Cons by blast
      have i: "snd (x_ifs s) = None \<or> \<not> list_ex (\<lambda>c. c \<in> set (or_nil (snd (x_ifs s)))) u"
        using m(2) unfolding w(2) x_ifs_twice .
      have "\<forall>c \<in> set u. c \<noteq> d" using x(2)
      proof
        assume "\<exists>f. snd (x_ifs s) = Some f \<and> d \<in> set f"
        then obtain f where f: "snd (x_ifs s) = Some f" "d \<in> set f" by blast
        show ?thesis using i f(2) unfolding f(1) by (auto simp: list_ex_iff or_nil_def)
      qed (use sp in simp)
      then show ?thesis using that x(1) w(1) by simp
    qed
    have "e_av s = [] \<and> u = [] \<or> e_av s = [u]"
      using xjoin_short [of d r "e_av s"] d j(1) by (auto simp: xjoin_def)
    then have "xparts X ev [p] s = Some (fst (if pt p = ''*'' then x_ifs s else (s, None)), unq u)"
      using p True one [of "e_av s" u "pt p = ''*''"] by (simp add: xpart_def xvar_def Let_def case_prod_unfold)
    then show ?thesis using j(2) by auto
  next
    case False
    then have "xparts X ev [p] s = Some (s1, xv p s1 u)"
      using p u by (auto simp: xpart_def xvar_def xvar2_def xper_def xpar_def Let_def)
    then show ?thesis using p(2) s(2) by (simp add: xv_def xq_def unq_def)
  qed
qed

text \<open>C18: The shortcuts for a word that is one text or one unquoted parameter give the fields the general way gives.\<close>

theorem word_shortcuts:
  assumes "xw_quick X 0 [p] s = (s1, Some fs)" "\<not> e_strict s"
  shows "\<exists>s2 gs. xw_full X ev 0 [p] s = Some (s2, gs) \<and> map fst gs = map fst fs"
proof (cases "pk p = P_TXT")
  case False
  obtain t v where x: "xval X s (pt p) = (t, v)" by fastforce
  have p: "pk p = P_VAR" "pq p = 0" "\<not> parr p" "xop p = V_NONE" "\<not> e_uset s"
    using assms(1) False by (auto simp: xw_quick_def Let_def split: if_splits)
  have td: "xtilde X [p] s = (0, [])" "\<not> w_hasq [p]" using p by (simp_all add: xtilde_def w_hasq_def)
  show ?thesis
  proof (cases v)
    case None
    have "\<not> xpar p" using x None unfolding xpar_def by (metis Pair_inject option.distinct(1) xval_at xval_star)
    moreover have "t = s" using xval_None [OF x [unfolded None]] .
    ultimately have "xparts X ev [p] s = Some (s, unq [])"
      using x None p by (simp add: xpart_def xvar_def xvar2_def xper_def xpar_def Let_def)
    then show ?thesis using full_plain [OF _ td, of ev s "[]"] assms(1) x None p by (simp add: xw_quick_def)
  next
    case (Some u)
    have q: "\<not> e_strict t" "\<not> list_ex w_meta u" "snd (x_ifs t) = None \<or> \<not> list_ex (\<lambda>c. c \<in> set (or_nil (snd (x_ifs t)))) u"
      "fs = (if u = [] then [] else [(u, None)])"
      using assms(1) x Some p by (auto simp: xw_quick_def Let_def or_nil_def case_prod_unfold split: if_splits)
    obtain s2 where s2: "xparts X ev [p] s = Some (s2, unq u)" "snd (x_ifs s2) = snd (x_ifs t)"
      using xpart_plain [OF p(1-4) x [unfolded Some] assms(2) q(1-3)] by blast
    have "\<forall>c \<in> set u. c \<notin> set (case snd (x_ifs s2) of Some i \<Rightarrow> i | None \<Rightarrow> [CHR '' '', CHR 0x09, CHR 0x0A])"
      using q(2, 3) unfolding s2(2) by (cases "snd (x_ifs t)") (auto simp: list_ex_iff w_meta_def or_nil_def)
    moreover have "\<forall>c \<in> set u. c \<notin> {CHR ''*'', CHR ''?'', CHR ''['', CHR ''(''}" using q(2) by (auto simp: list_ex_iff w_meta_def)
    ultimately show ?thesis using full_plain [OF s2(1) td] q(4) by auto
  qed
qed (use quick_text assms in blast)

theorem word_shortcuts_witness:
  "\<exists>s2 gs. xw_full x0 (\<lambda>fl w s. None) 0 [pv 0 ''1''] (exs0 sh0 [''ab'']) = Some (s2, gs) \<and> map fst gs = [''ab'']"
proof -
  have "snd (xw_quick x0 0 [pv 0 ''1''] (exs0 sh0 [''ab''])) = Some [(''ab'', None)]" by code_simp
  then obtain s1 where "xw_quick x0 0 [pv 0 ''1''] (exs0 sh0 [''ab'']) = (s1, Some [(''ab'', None)])" by (metis prod.collapse)
  from word_shortcuts [OF this, of "\<lambda>fl w s. None"] show ?thesis by (simp add: exs_of_def)
qed

subsection \<open>Returning\<close>

text \<open>
  A part with no pattern operator (their matches have a fuel of their own) and no arithmetic (whose text is lexed
  into words), and how deep its words are nested.
\<close>

definition plain_op :: "nat \<Rightarrow> bool \<Rightarrow> bool" where
  "plain_op op args \<longleftrightarrow> op \<notin> {V_RS, V_RL, V_SS, V_SL, V_SUB, V_SUBA, V_SUBP, V_SUBF} \<and> (xper op \<longrightarrow> \<not> args)"

fun pdep :: "part \<Rightarrow> nat" where
  "pdep (Part k t op q col arr as ix) = Suc (foldr (\<lambda>w m. foldr (\<lambda>p n. max (pdep p) n) w m) (as @ ix) 0)"

fun plain_part :: "part \<Rightarrow> bool" where
  "plain_part (Part k t op q col arr as ix) \<longleftrightarrow>
    k \<noteq> P_ARI \<and> plain_op (nat op) (as \<noteq> []) \<and> (nat op AND V_INDF \<noteq> 0 \<longrightarrow> plain_op (nat op - V_INDF) (as \<noteq> [])) \<and>
    list_all (list_all plain_part) (as @ ix)"

definition wdep :: "wd \<Rightarrow> nat" where
  "wdep w = foldr (\<lambda>p n. max (pdep p) n) w 0"

definition returns :: "'a option \<Rightarrow> bool" where
  "returns m \<longleftrightarrow> m \<noteq> None"

lemma returns_bind: "returns m \<Longrightarrow> (\<And>x. returns (f x)) \<Longrightarrow> returns (m \<bind> f)"
  by (cases m) (auto simp: returns_def)

lemma returns_Some: "returns (Some x)"
  by (simp add: returns_def)

lemma returns_let: "(\<And>x. x = a \<Longrightarrow> returns (f x)) \<Longrightarrow> returns (Let a f)"
  by (simp add: Let_def)

lemma returns_if: "(b \<Longrightarrow> returns x) \<Longrightarrow> (\<not> b \<Longrightarrow> returns y) \<Longrightarrow> returns (if b then x else y)"
  by simp

lemma returns_case: "(\<And>a b. returns (f a b)) \<Longrightarrow> returns (case p of (a, b) \<Rightarrow> f a b)"
  by (cases p) simp

lemma returns_option: "returns m \<Longrightarrow> (\<And>x. v = Some x \<Longrightarrow> returns (f x)) \<Longrightarrow> returns (case v of None \<Rightarrow> m | Some x \<Rightarrow> f x)"
  by (cases v) simp_all

lemmas returning = returns_bind returns_Some returns_let returns_if returns_case returns_option

text \<open>Every word in a part returns.\<close>

definition subs :: "'o xev \<Rightarrow> part \<Rightarrow> bool" where
  "subs ev p \<longleftrightarrow> (\<forall>w \<in> set (parg p) \<union> set (pidx p). \<forall>fl s. returns (ev fl w s))"

lemma subs_arg: "subs ev p \<Longrightarrow> arg1 p = Some w \<Longrightarrow> returns (ev fl w s)"
  by (cases "parg p") (auto simp: subs_def arg1_def)

lemma xonef_returns: "subs ev p \<Longrightarrow> returns (xonef ev fl (arg1 p) s)"
  unfolding xonef_def by (intro returning) (rule subs_arg)

lemma xone_fq_returns: "subs ev p \<Longrightarrow> returns (xone_fq ev fl (arg1 p) s)"
  unfolding xone_fq_def by (intro returning) (rule subs_arg)

lemma keys_loop_returns: "\<forall>w \<in> set ws. \<forall>fl s. returns (ev fl w s) \<Longrightarrow> returns (xkeys_loop X ev nm ks ws s)"
proof (induction ws arbitrary: ks s)
  case (Cons w ws)
  then show ?case unfolding xkeys_loop.simps by (intro returning) auto
qed (simp add: returns_Some)

lemma xkeys_returns: "subs ev p \<Longrightarrow> returns (xkeys X ev p s)"
  unfolding xkeys_def by (intro returning keys_loop_returns) (simp add: subs_def)

lemma xslice_returns: "subs ev p \<Longrightarrow> returns (xslice X ev p n s)"
  unfolding xslice_def by (intro returning xonef_returns)

lemma xslicek_returns: "subs ev p \<Longrightarrow> xslicek X ev p kl lst s = Some r \<Longrightarrow> returns r"
proof -
  assume a: "subs ev p" "xslicek X ev p kl lst s = Some r"
  show "returns r" using a(2) unfolding xslicek_def
    by (auto split: if_splits intro!: returning xonef_returns [OF a(1)] simp del: split_paired_All)
qed

lemma xaslice_returns: "subs ev p \<Longrightarrow> returns (xaslice X ev p ks s)"
  unfolding xaslice_def Let_def by (intro returning xslice_returns; (assumption | erule (1) xslicek_returns)?)

lemma xarg_returns: "subs ev p \<Longrightarrow> returns (xarg ev p keep s)"
  unfolding xarg_def by (intro returning xone_fq_returns)

lemma xvar2_returns:
  assumes "subs ev p" "plain_op (xop p) (parg p \<noteq> [])"
  shows "returns (xvar2 X ev p aks v s)"
proof -
  have word: "returns (xvar2_word X ev p aks s)"
    unfolding xvar2_word_def by (intro returning xarg_returns xonef_returns assms)
  have sub: "returns (xsubstr X ev p v s)"
    unfolding xsubstr_def by (intro returning xslice_returns assms)
  have "xper (xop p) \<Longrightarrow> parg p = []" using assms(2) by (auto simp: plain_op_def)
  then have cs: "xop p \<in> {V_UP, V_UPALL, V_LOW, V_LOWALL} \<Longrightarrow> returns (xcase X ev p t s)" for t
    by (auto simp: xcase_def xper_def returns_Some)
  show ?thesis unfolding xvar2_def Let_def
    by (intro returning word sub cs) (use assms(2) in \<open>auto simp: plain_op_def\<close>)
qed

lemma xlistop_returns:
  assumes "subs ev p" "plain_op (xop p) (parg p \<noteq> [])" "xper (xop p)"
  shows "returns (xlistop X ev p lst star s)" "returns (xop_each X ev p lst s)" "xprep ev p s = Some (s, p)"
proof -
  have a: "parg p = []" using assms by (simp add: plain_op_def)
  show e: "returns (xop_each X ev p lst s)" for s
  proof (induction lst arbitrary: s)
    case (Cons t lst)
    have "returns (xop1 X ev p t s)" for s unfolding xop1_def
      by (intro returning xvar2_returns) (use assms in \<open>auto simp: subs_def no_arr_def xop_def\<close>)
    with Cons show ?case unfolding xop_each.simps by (intro returning)
  qed (simp add: returns_Some)
  show x: "xprep ev p s = Some (s, p)" for s by (simp add: xprep_def a)
  show "returns (xlistop X ev p lst star s)" unfolding xlistop_def x using e by (auto intro!: returning)
qed

lemma plain_part_sel:
  "plain_part p \<longleftrightarrow> pk p \<noteq> P_ARI \<and> plain_op (xop p) (parg p \<noteq> []) \<and>
    (xop p AND V_INDF \<noteq> 0 \<longrightarrow> plain_op (xop p - V_INDF) (parg p \<noteq> [])) \<and> list_all (list_all plain_part) (parg p @ pidx p)"
  by (cases p) (simp add: xop_def)

lemma xarrop_returns:
  assumes "subs ev p" "plain_op (xop p) (parg p \<noteq> [])" "xop p \<in> {V_XA, V_XK, V_XKW} \<or> xper (xop p)"
  shows "returns (xarrop X ev p ks sep s)"
proof -
  have "returns (xop_each X ev p lst s)" if "xop p \<noteq> V_XA" "xop p \<noteq> V_XK" "xop p \<noteq> V_XKW" for lst s
    using xlistop_returns(2) [OF assms(1, 2)] assms(3) that by auto
  then show ?thesis unfolding xarrop_def by (intro returning) auto
qed

lemma xvar_one_returns: "subs ev p \<Longrightarrow> plain_op (xop p) (parg p \<noteq> []) \<Longrightarrow> returns (xvar_one X ev p ks nk al s)"
  unfolding xvar_one_def by (intro returning xvar2_returns xarrop_returns) auto

lemma xvar_arr_returns: "subs ev p \<Longrightarrow> plain_op (xop p) (parg p \<noteq> []) \<Longrightarrow> returns (xvar_arr X ev p s)"
  unfolding xvar_arr_def by (intro returning xkeys_returns xaslice_returns xlistop_returns(1) xvar_one_returns) auto
lemma with_sel [simp]:
  "parg (with_t t p) = parg p" "pidx (with_t t p) = pidx p" "xop (with_t t p) = xop p"
  "parg (with_op k p) = parg p" "pidx (with_op k p) = pidx p" "xop (with_op k p) = k"
  by (simp_all add: with_t_def with_op_def xop_def)

lemma subs_with [simp]: "subs ev (with_t t p) = subs ev p" "subs ev (with_op k p) = subs ev p"
  by (simp_all add: subs_def)

lemma xvar_returns:
  assumes "subs ev p" "plain_part p"
  shows "returns (xvar X ev p s)"
proof -
  have op: "plain_op (xop p) (parg p \<noteq> [])" "xop p AND V_INDF \<noteq> 0 \<longrightarrow> plain_op (xop p - V_INDF) (parg p \<noteq> [])"
    using assms(2) plain_part_sel [of p] by blast+
  show ?thesis unfolding xvar_def
    by (intro returning xvar_arr_returns xvar2_returns xlistop_returns(1) assms(1)) (use op assms(1) in \<open>auto split: if_splits\<close>)
qed

lemma xpart_returns: "subs ev p \<Longrightarrow> plain_part p \<Longrightarrow> returns (xpart X ev p s)"
  unfolding xpart_def by (intro returning xvar_returns) (auto simp: plain_part_sel)

lemma xparts_returns: "list_all (\<lambda>p. subs ev p \<and> plain_part p) w \<Longrightarrow> returns (xparts X ev w s)"
proof (induction w arbitrary: s)
  case (Cons p w)
  then show ?case unfolding xparts.simps by (intro returning xpart_returns) auto
qed (simp add: returns_Some)

lemma xw_list_returns:
  assumes "subs ev p" "plain_part p"
  shows "returns (xw_list X ev p s)"
proof -
  have op: "plain_op (xop p) (parg p \<noteq> [])" using assms(2) plain_part_sel [of p] by blast
  have pre: "returns (xprep ev p t)" if "xop p = V_XKW \<or> xper (xop p)" for t
  proof (cases "parg p = []")
    case False
    have "returns (xrepw ev p t)" for t
      using assms(1) subs_def [of ev p]
      by (auto simp: xrepw_def xonef_def xone_fq_def arg2_def returns_Some split: list.split intro!: returns_bind)
    then show ?thesis unfolding xprep_def by (intro returning xonef_returns assms(1))
  qed (simp add: xprep_def returns_Some)
  have each: "returns (xprep ev p t \<bind> (\<lambda>(s2, q). if xop p = V_XKW then Some (F s2) else xop_each X ev q vl s2 \<bind> (\<lambda>(s3, ts). Some (G s3 ts))))"
    if "xop p = V_XKW \<or> xper (xop p)" for t vl F and G :: "'a exs \<Rightarrow> string list \<Rightarrow> 'a exs \<times> xfld list option"
  proof (cases "xop p = V_XKW")
    case True
    then show ?thesis using pre by (auto intro!: returning)
  next
    case False
    then have x: "xper (xop p)" using that by simp
    show ?thesis using False xlistop_returns(2) [OF assms(1) op x, of X] xlistop_returns(3) [OF assms(1) op x]
      by (simp, intro returning) auto
  qed
  have it: "xop p \<in> {V_SUBSTR, V_XKW, V_NONE, V_KEYS} \<or> xper (xop p) \<Longrightarrow> xop p \<noteq> V_SUBSTR \<Longrightarrow> xop p \<noteq> V_NONE \<Longrightarrow> xop p \<noteq> V_KEYS \<Longrightarrow>
      xop p = V_XKW \<or> xper (xop p)" by auto
  show ?thesis unfolding xw_list_def Let_def
    by (intro returns_if returns_bind returns_case returns_Some xslice_returns xkeys_returns xaslice_returns assms(1) each it; (elim conjE; assumption)?)
qed

lemma xwm_returns:
  assumes "list_all (\<lambda>p. subs ev p \<and> plain_part p) w"
  shows "returns (xwm X ev fl w s)"
proof -
  have d: "list_all (\<lambda>p. subs ev p \<and> plain_part p) (drop_first k w)" for k
    using assms by (cases w) (auto simp: drop_first_def with_t_def subs_def plain_part_sel xop_def)
  have f: "returns (xw_full X ev fl w t)" for t
    unfolding xw_full_def by (intro returning xparts_returns) (use assms d in auto)
  have l: "returns (case w of [p] \<Rightarrow> if b p then xw_list X ev p s else Some (s, None) | _ \<Rightarrow> Some (s, None))" for b
    using assms by (auto split: list.split intro!: xw_list_returns returns_Some)
  show ?thesis unfolding xwm_def
    by (intro returns_bind l returns_case returns_option f returns_Some)
qed

lemma pdep_sub: "w \<in> set (parg p) \<union> set (pidx p) \<Longrightarrow> wdep w < pdep p"
proof -
  assume w: "w \<in> set (parg p) \<union> set (pidx p)"
  have a: "m \<le> foldr (\<lambda>p n. max (pdep p) n) v m" for v m by (induction v) auto
  have mono: "m \<le> m' \<Longrightarrow> foldr (\<lambda>p n. max (pdep p) n) v m \<le> foldr (\<lambda>p n. max (pdep p) n) v m'" for v m m'
    by (induction v) (auto simp: max_def)
  have "v \<in> set vs \<Longrightarrow> wdep v \<le> foldr (\<lambda>w m. foldr (\<lambda>p n. max (pdep p) n) w m) vs 0" for v vs
  proof (induction vs)
    case (Cons u vs)
    let ?r = "foldr (\<lambda>w m. foldr (\<lambda>p n. max (pdep p) n) w m) vs 0"
    show ?case
    proof (cases "v = u")
      case True
      then show ?thesis using mono [of 0 ?r u] by (simp add: wdep_def)
    next
      case False
      then show ?thesis using Cons a [of ?r u] by fastforce
    qed
  qed simp
  from this [of w "parg p @ pidx p"] w show ?thesis by (cases p) auto
qed

lemma wdep_part: "p \<in> set w \<Longrightarrow> pdep p \<le> wdep w"
  by (induction w) (auto simp: wdep_def)



end
