(* ===== verification/Lexer.thy ===== *)
theory Lexer
  imports Expand
begin

text \<open>
  The lexer, src/lex.c. A position in the text is the text from there to the lexer's end \<open>e\<close>, so reading on is taking
  a suffix. What the lexer calls back into (a word of a part of the text, \<open>lx_word\<close> under \<open>lx_sub\<close>, and the list the
  parser reads to find the end of a substitution, \<open>p_list\<close> under \<open>sk_cmd\<close>) is the record \<open>lxk\<close>; Parse ties the knot.
  Messages and \<open>lg_col\<close> are left out, and memory: a here-document, which the code fills in through a pointer to its
  redirection after the tree is made, is known by a number and kept in \<open>lx_bods\<close> until then.
\<close>

subsection \<open>The state\<close>

abbreviation (input) T_EOF :: nat where "T_EOF \<equiv> 0"
abbreviation (input) T_WORD :: nat where "T_WORD \<equiv> 1"
abbreviation (input) T_NL :: nat where "T_NL \<equiv> 2"
abbreviation (input) T_SEMI :: nat where "T_SEMI \<equiv> 3"
abbreviation (input) T_AMP :: nat where "T_AMP \<equiv> 4"
abbreviation (input) T_PIPE :: nat where "T_PIPE \<equiv> 5"
abbreviation (input) T_AND :: nat where "T_AND \<equiv> 6"
abbreviation (input) T_OR :: nat where "T_OR \<equiv> 7"
abbreviation (input) T_LP :: nat where "T_LP \<equiv> 8"
abbreviation (input) T_RP :: nat where "T_RP \<equiv> 9"
abbreviation (input) T_LT :: nat where "T_LT \<equiv> 10"
abbreviation (input) T_GT :: nat where "T_GT \<equiv> 11"
abbreviation (input) T_APP :: nat where "T_APP \<equiv> 12"
abbreviation (input) T_DIN :: nat where "T_DIN \<equiv> 13"
abbreviation (input) T_DOUT :: nat where "T_DOUT \<equiv> 14"
abbreviation (input) T_RW :: nat where "T_RW \<equiv> 15"
abbreviation (input) T_HERE :: nat where "T_HERE \<equiv> 16"
abbreviation (input) T_DSEMI :: nat where "T_DSEMI \<equiv> 17"
abbreviation (input) T_SEMIAMP :: nat where "T_SEMIAMP \<equiv> 18"
abbreviation (input) T_DSEMIAMP :: nat where "T_DSEMIAMP \<equiv> 19"
abbreviation (input) T_HERES :: nat where "T_HERES \<equiv> 20"
abbreviation (input) T_ARITH :: nat where "T_ARITH \<equiv> 21"
abbreviation (input) T_PIPEAMP :: nat where "T_PIPEAMP \<equiv> 22"

text \<open>\<open>HIBR_DEPTH\<close>.\<close>

abbreviation (input) LX_DEPTH :: nat where "LX_DEPTH \<equiv> 2000"

abbreviation NL :: char where "NL \<equiv> CHR 0x0A"
abbreviation TAB :: char where "TAB \<equiv> CHR 0x09"
abbreviation BQ :: char where "BQ \<equiv> CHR 0x60"

text \<open>\<open>struct hd\<close>: a here-document that is pending.\<close>

record hd =
  hd_r :: nat
  hd_d :: string
  hd_dash :: bool
  hd_q :: bool

text \<open>
  \<open>struct lex\<close>: \<open>lx_p\<close> is the text from \<open>p\<close> to \<open>e\<close>, \<open>lx_tkb\<close> that from the start of the token, \<open>lx_lnp\<close> that from where
  lines were last counted. Of the shell \<open>s\<close> it points at, \<open>lx_it\<close> is \<open>s->it\<close> and \<open>lx_keep\<close> is \<open>s->keep\<close>.
\<close>

record lex =
  lx_p :: string
  lx_tkb :: "string option"
  lx_w :: "wd option"
  lx_tk :: nat
  lx_fd :: int
  lx_nb :: bool
  lx_more :: bool
  lx_err :: bool
  lx_dash :: bool
  lx_both :: bool
  lx_clob :: bool
  lx_depth :: nat
  lx_fdvar :: "string option"
  lx_hq :: "hd list"
  lx_lnp :: string
  lx_ln :: nat
  lx_it :: bool
  lx_keep :: bool
  lx_nhd :: nat
  lx_bods :: "(nat \<times> wd) list"

record lxk =
  lk_word :: "nat \<Rightarrow> lex \<Rightarrow> (lex \<times> wd option) option"
  lk_list :: "lex \<Rightarrow> lex option"

definition lx_init :: "bool \<Rightarrow> nat \<Rightarrow> string \<Rightarrow> lex" where
  "lx_init it ln src =
    \<lparr>lx_p = src, lx_tkb = None, lx_w = None, lx_tk = T_EOF, lx_fd = -1, lx_nb = False, lx_more = False, lx_err = False,
     lx_dash = False, lx_both = False, lx_clob = False, lx_depth = 0, lx_fdvar = None, lx_hq = [], lx_lnp = src,
     lx_ln = (if ln = 0 then 1 else ln), lx_it = it, lx_keep = False, lx_nhd = 0, lx_bods = []\<rparr>"

definition ismeta :: "char \<Rightarrow> bool" where
  "ismeta c \<longleftrightarrow> c \<in> set ''|&;<>()''"

definition blank :: "char \<Rightarrow> bool" where
  "blank c \<longleftrightarrow> c = CHR '' '' \<or> c = TAB"

definition idch :: "char \<Rightarrow> bool" where
  "idch c \<longleftrightarrow> isalnum c \<or> c = CHR ''_''"

text \<open>The text between two positions.\<close>

definition upto_pos :: "string \<Rightarrow> string \<Rightarrow> string" where
  "upto_pos b e = take (length b - length e) b"

definition lx_line :: "lex \<Rightarrow> lex \<times> nat" where
  "lx_line l =
    (let t = (case lx_tkb l of Some t \<Rightarrow> t | None \<Rightarrow> lx_p l); b = lx_lnp l;
         n = lx_ln l + length (filter (\<lambda>c. c = NL) (upto_pos b t))
     in (if length t < length b then l\<lparr>lx_ln := n, lx_lnp := t\<rparr> else l, n))"

definition lx_set_more :: "lex \<Rightarrow> lex" where
  "lx_set_more l = l\<lparr>lx_more := True\<rparr>"

subsection \<open>Loops\<close>

text \<open>A loop whose body goes on with \<open>Inl\<close> or ends with \<open>Inr\<close>, for at most so many rounds.\<close>

primrec iter :: "nat \<Rightarrow> ('s \<Rightarrow> ('s + 'r) option) \<Rightarrow> 's \<Rightarrow> 'r option" where
  "iter 0 f s = None"
| "iter (Suc n) f s = f s \<bind> (\<lambda>x. case x of Inl s1 \<Rightarrow> iter n f s1 | Inr r \<Rightarrow> Some r)"

subsection \<open>Pending text\<close>

text \<open>The parts made so far, the run being gathered and how it is quoted: \<open>h\<close>, \<open>b\<close> and \<open>cq\<close>.\<close>

record wb =
  wb_h :: "part list"
  wb_b :: string
  wb_q :: nat

definition lx_flush :: "'a wb_scheme \<Rightarrow> 'a wb_scheme" where
  "lx_flush w =
    (if wb_b w = [] then w
     else w\<lparr>wb_h := wb_h w @ [Part P_TXT (wb_b w) 0 (wb_q w) False False [] []], wb_b := []\<rparr>)"

definition lx_ch :: "nat \<Rightarrow> char \<Rightarrow> 'a wb_scheme \<Rightarrow> 'a wb_scheme" where
  "lx_ch q c w =
    (let w1 = (if wb_b w \<noteq> [] \<and> wb_q w \<noteq> q then lx_flush w else w)
     in w1\<lparr>wb_q := q, wb_b := wb_b w1 @ [c]\<rparr>)"

definition lx_push :: "part \<Rightarrow> 'a wb_scheme \<Rightarrow> 'a wb_scheme" where
  "lx_push x w = w\<lparr>wb_h := wb_h w @ [x]\<rparr>"

subsection \<open>Finding the end of a bracketed text\<close>

text \<open>Past the closing \<open>q\<close> of a quoted text with backslashes.\<close>

fun sk_to :: "char \<Rightarrow> string \<Rightarrow> string option" where
  "sk_to q [] = None"
| "sk_to q (x # r) = (if x = q then Some r else if x = BS then (case r of [] \<Rightarrow> None | y # r1 \<Rightarrow> sk_to q r1) else sk_to q r)"

text \<open>Past a backslash and what it quotes or past a quoted text; \<open>Some None\<close> where it does not end.\<close>

definition sk_quo :: "bool \<Rightarrow> string \<Rightarrow> string option option" where
  "sk_quo dq p =
    (case p of
       [] \<Rightarrow> None
     | x # r \<Rightarrow>
         if x = BS then Some (Some (drop 1 r))
         else if x = SQ \<and> \<not> dq then
           Some (case dropWhile (\<lambda>c. c \<noteq> SQ) r of [] \<Rightarrow> None | y # r1 \<Rightarrow> Some r1)
         else if x = DQ then Some (sk_to DQ r)
         else None)"

lemma strict_suffix_Cons: "suffix r s \<Longrightarrow> strict_suffix r (x # s)"
  by (auto simp: strict_suffix_def suffix_Cons dest: suffix_length_le)

lemma sk_to_suffix: "sk_to q p = Some r \<Longrightarrow> strict_suffix r p"
  by (induction q p rule: sk_to.induct) (auto simp: strict_suffix_def suffix_def split: if_splits list.splits)

lemma dropWhile_Cons_suffix: "dropWhile P r = y # r1 \<Longrightarrow> strict_suffix r1 (x # r)"
proof -
  assume "dropWhile P r = y # r1"
  then have "r = takeWhile P r @ y # r1" by (metis takeWhile_dropWhile_id)
  then show ?thesis by (auto simp: strict_suffix_def suffix_def intro!: exI [of _ "x # takeWhile P r @ [y]"] dest: arg_cong [of _ _ length])
qed

lemma sk_quo_suffix:
  assumes "sk_quo dq p = Some (Some r)"
  shows "strict_suffix r p"
proof -
  obtain x s where p: "p = x # s" using assms by (auto simp: sk_quo_def split: list.splits)
  consider "x = BS" "r = drop 1 s" | y where "dropWhile (\<lambda>c. c \<noteq> SQ) s = y # r" | "sk_to DQ s = Some r"
    using assms p by (auto simp: sk_quo_def split: if_splits list.splits)
  then show ?thesis
  proof cases
    case 1
    then show ?thesis using p by (simp add: strict_suffix_Cons suffix_drop)
  next
    case 2
    then show ?thesis using p dropWhile_Cons_suffix by simp
  next
    case 3
    then have "suffix r s" using sk_to_suffix [OF 3] by (simp add: strict_suffix_def)
    then show ?thesis using p by (simp add: strict_suffix_Cons)
  qed
qed

lemma strict_suffix_less: "strict_suffix r p \<Longrightarrow> length r < length p"
  by (auto simp: strict_suffix_def suffix_def)

lemma sk_quo_less: "sk_quo dq p = Some (Some r) \<Longrightarrow> length r < length p"
  by (rule strict_suffix_less [OF sk_quo_suffix])

text \<open>\<open>sk_bal\<close> for brackets other than \<open>{\<close>, \<open>d\<close> deep: the text from the closing bracket on.\<close>

function sk_par :: "char \<Rightarrow> char \<Rightarrow> bool \<Rightarrow> nat \<Rightarrow> string \<Rightarrow> string option" where
  "sk_par o1 c dq d p =
    (case p of
       [] \<Rightarrow> None
     | x # r \<Rightarrow>
         (case sk_quo dq p of
            Some None \<Rightarrow> None
          | Some (Some r1) \<Rightarrow> sk_par o1 c dq d r1
          | None \<Rightarrow>
              if x = o1 then sk_par o1 c dq (Suc d) r
              else if x = c then (if d = 1 then Some p else sk_par o1 c dq (d - 1) r)
              else sk_par o1 c dq d r))"
  by pat_completeness auto
termination
  by (relation "measure (\<lambda>(o1, c, dq, d, p). length p)") (auto dest!: sk_quo_less)

declare sk_par.simps [simp del]

text \<open>\<open>sk_brace\<close> at a dollar, a backquote or a brace within \<open>${\<dots>}\<close>, \<open>d\<close> deep.\<close>

definition sk_brace :: "string \<Rightarrow> nat \<Rightarrow> (string \<times> nat) option" where
  "sk_brace p d =
    (if at p 0 = CHR ''{'' then Some (drop 1 p, d)
     else if at p 0 = BQ then map_option (\<lambda>r. (r, d)) (sk_to BQ (drop 1 p))
     else if at p 1 = CHR ''{'' then Some (drop 2 p, Suc d)
     else if at p 1 = CHR ''('' then map_option (\<lambda>r. (drop 1 r, d)) (sk_par (CHR ''('') (CHR '')'') False 1 (drop 2 p))
     else Some (drop 1 p, d))"

lemma strict_suffix_mono: "suffix r s \<Longrightarrow> strict_suffix s p \<Longrightarrow> strict_suffix r p"
  by (meson suffix_order.le_less_trans)

lemma sk_par_suffix: "sk_par o1 c dq d p = Some r \<Longrightarrow> suffix r p \<and> r \<noteq> []"
proof (induction o1 c dq d p rule: sk_par.induct)
  case (1 o1 c dq d p)
  show ?case
  proof (cases p)
    case Nil
    then show ?thesis using "1.prems" by (simp add: sk_par.simps [of _ _ _ _ "[]"])
  next
    case p: (Cons x s)
    show ?thesis
    proof (cases "sk_quo dq p")
      case None
      then show ?thesis using "1.prems" "1.IH" (1-3) [OF p None] unfolding sk_par.simps [of _ _ _ _ p]
        by (auto simp: p suffix_Cons split: if_splits)
    next
      case (Some q)
      then obtain r1 where q: "q = Some r1" using "1.prems" unfolding sk_par.simps [of _ _ _ _ p]
        by (auto simp: p split: option.splits)
      then have "suffix r r1 \<and> r \<noteq> []" using "1.prems" "1.IH" (4) [OF p Some q] Some unfolding sk_par.simps [of _ _ _ _ p]
        by (simp add: p)
      moreover have "strict_suffix r1 p" using sk_quo_suffix Some q by simp
      ultimately show ?thesis using strict_suffix_mono suffix_order.less_imp_le by blast
    qed
  qed
qed

lemma sk_brace_suffix:
  assumes "sk_brace p d = Some (r, d1)" "p \<noteq> []"
  shows "strict_suffix r p"
proof -
  obtain x s where p: "p = x # s" using assms(2) by (cases p) auto
  have "suffix r s"
  proof -
    consider "r = drop 0 s" | "sk_to BQ s = Some r" | "r = drop 1 s" | t where "sk_par (CHR ''('') (CHR '')'') False 1 (drop 1 s) = Some t" "r = drop 1 t"
      using assms(1) p by (auto simp: sk_brace_def split: if_splits)
    then show ?thesis
    proof cases
      case 2
      then show ?thesis using sk_to_suffix by (simp add: strict_suffix_def)
    next
      case 4
      then show ?thesis by (metis sk_par_suffix suffix_drop suffix_order.trans)
    qed (simp_all add: suffix_drop)
  qed
  then show ?thesis using p by (simp add: strict_suffix_Cons)
qed

text \<open>The loop of \<open>sk_bal\<close> for braces, \<open>d\<close> deep.\<close>

function sk_brc :: "bool \<Rightarrow> nat \<Rightarrow> string \<Rightarrow> string option" where
  "sk_brc dq d p =
    (case p of
       [] \<Rightarrow> None
     | x # r \<Rightarrow>
         (case sk_quo dq p of
            Some None \<Rightarrow> None
          | Some (Some r1) \<Rightarrow> sk_brc dq d r1
          | None \<Rightarrow>
              if x = CHR ''$'' \<or> x = BQ \<or> x = CHR ''{'' then
                (case sk_brace p d of None \<Rightarrow> None | Some (r1, d1) \<Rightarrow> sk_brc dq d1 r1)
              else if x = CHR ''}'' then (if d = 1 then Some p else sk_brc dq (d - 1) r)
              else sk_brc dq d r))"
  by pat_completeness auto
termination
  by (relation "measure (\<lambda>(dq, d, p). length p)") (auto dest!: sk_quo_less sk_brace_suffix [THEN strict_suffix_less])

declare sk_brc.simps [simp del]

text \<open>\<open>sk_bal\<close>: the text from the closing bracket on. Where there is none the code sets \<open>more\<close>, as its callers here do.\<close>

definition sk_bal :: "string \<Rightarrow> char \<Rightarrow> char \<Rightarrow> bool \<Rightarrow> string option" where
  "sk_bal p o1 c dq = (if o1 = CHR ''{'' then sk_brc dq 1 p else sk_par o1 c dq 1 p)"

subsection \<open>Parts of the text\<close>

definition sk_cmd :: "lxk \<Rightarrow> lex \<Rightarrow> string \<Rightarrow> (lex \<times> string option) option" where
  "sk_cmd K l p =
    (let bal = (case sk_bal p (CHR ''('') (CHR '')'') False of None \<Rightarrow> (lx_set_more l, None) | Some e \<Rightarrow> (l, Some e))
     in if lx_depth l \<ge> LX_DEPTH then Some bal
        else
          lk_list K ((lx_init (lx_it l) 1 p)\<lparr>lx_depth := Suc (lx_depth l), lx_keep := lx_keep l\<rparr>) \<bind> (\<lambda>t.
            Some (if \<not> lx_err t \<and> \<not> lx_more t \<and> lx_tk t = T_RP then (l, Some (drop (length p - Suc (length (lx_p t))) p))
                  else if \<not> lx_err t \<and> (lx_more t \<or> lx_tk t = T_EOF) then (lx_set_more l, None)
                  else bal)))"

definition lx_span :: "lex \<Rightarrow> lex \<times> string option" where
  "lx_span l =
    (case sk_bal (lx_p l) (CHR ''('') (CHR '')'') False of
       None \<Rightarrow> (lx_set_more l, None)
     | Some e \<Rightarrow> (l\<lparr>lx_p := drop 1 e\<rparr>, Some (upto_pos (lx_p l) e)))"

definition lx_arrow :: "lex \<Rightarrow> lex \<times> string option" where
  "lx_arrow l =
    (let p = dropWhile blank (lx_p l)
     in if at p 0 \<noteq> CHR ''-'' \<or> at p 1 \<noteq> CHR ''>'' then (l, None)
        else
          let b = dropWhile blank (drop 2 p); e = dropWhile idch b;
              e1 = (if at e 0 = CHR ''?'' then drop 1 e else e)
          in (l\<lparr>lx_p := e1\<rparr>, Some (upto_pos b e1)))"

definition lx_sub :: "lxk \<Rightarrow> nat \<Rightarrow> string \<Rightarrow> lex \<Rightarrow> (lex \<times> wd option) option" where
  "lx_sub K lit t l =
    lk_word K lit (l\<lparr>lx_p := t, lx_nb := True\<rparr>) \<bind> (\<lambda>(u, w).
      Some (l\<lparr>lx_more := lx_more l \<or> lx_more u, lx_err := lx_err l \<or> lx_err u\<rparr>, w))"

subsection \<open>\<open>${\<dots>}\<close>\<close>

definition lx_bad :: "lex \<Rightarrow> lex" where
  "lx_bad l = l\<lparr>lx_err := True\<rparr>"

definition wlist :: "wd option \<Rightarrow> wd list" where
  "wlist w = (case w of None \<Rightarrow> [] | Some v \<Rightarrow> [v])"

text \<open>To the bracket that closes a subscript, \<open>d\<close> deep.\<close>

fun lx_close :: "nat \<Rightarrow> string \<Rightarrow> string option" where
  "lx_close d [] = None"
| "lx_close d (x # r) =
    (if x = CHR ''['' then lx_close (Suc d) r
     else if x = CHR '']'' then (if d = 1 then Some (x # r) else lx_close (d - 1) r)
     else lx_close d r)"

lemma lx_close_suffix: "lx_close d p = Some r \<Longrightarrow> suffix r p \<and> r \<noteq> []"
  by (induction d p rule: lx_close.induct) (auto simp: suffix_Cons split: if_splits)

text \<open>The subscripts from \<open>q\<close> on: their words, what follows, and whether one was not closed.\<close>

function lx_subs :: "lxk \<Rightarrow> nat \<Rightarrow> lex \<Rightarrow> wd list \<Rightarrow> string \<Rightarrow> (lex \<times> wd list \<times> string \<times> bool) option" where
  "lx_subs K lit l ix q =
    (if at q 0 \<noteq> CHR ''['' then Some (l, ix, q, False)
     else
       (case lx_close 1 (drop 1 q) of
          None \<Rightarrow> Some (lx_bad l, ix, q, True)
        | Some r \<Rightarrow>
            lx_sub K lit (upto_pos (drop 1 q) r) l \<bind> (\<lambda>(l1, w).
              lx_subs K lit l1 (ix @ [case w of None \<Rightarrow> [] | Some v \<Rightarrow> v]) (drop 1 r))))"
  by pat_completeness auto
termination
proof (relation "measure (\<lambda>(K, lit, l, ix, q). length q)", goal_cases)
  case (2 K lit l ix q r)
  then show ?case using lx_close_suffix [of 1 "drop 1 q" r] suffix_length_le [of r "drop 1 q"] by (cases q) auto
qed simp

declare lx_subs.simps [simp del]

text \<open>The first \<open>/\<close> of a replacement that no quoting and no expansion hides; \<open>post\<close> is the text after the brace, as
  the search for the end of an expansion looks beyond it.\<close>

function lx_slash :: "bool \<Rightarrow> string \<Rightarrow> string \<Rightarrow> string" where
  "lx_slash lit post r =
    (case r of
       [] \<Rightarrow> []
     | x # s \<Rightarrow>
         if x = BS then lx_slash lit post (drop 1 s)
         else if x = DQ then lx_slash lit post (case sk_to DQ s of None \<Rightarrow> [] | Some t \<Rightarrow> t)
         else if x = SQ \<and> \<not> lit then lx_slash lit post (drop 1 (dropWhile (\<lambda>c. c \<noteq> SQ) s))
         else if x = CHR ''$'' \<and> (at s 0 = CHR ''{'' \<or> at s 0 = CHR ''('') then
           lx_slash lit post
             (case sk_bal (drop 1 s @ post) (at s 0) (if at s 0 = CHR ''{'' then CHR ''}'' else CHR '')'') False of
                None \<Rightarrow> s
              | Some z \<Rightarrow> if length z > length post then drop (length s - (length z - length post) + 1) s else s)
         else if x = CHR ''/'' then r
         else lx_slash lit post s)"
  by pat_completeness auto
termination
proof (relation "measure (\<lambda>(lit, post, r). length r)", goal_cases)
  case (3 lit post r x s)
  then show ?case using sk_to_suffix [THEN strict_suffix_less, of DQ s] by (auto split: option.split)
next
  case (4 lit post r x s)
  then show ?case using length_dropWhile_le [of "\<lambda>c. c \<noteq> SQ" s] by simp
next
  case (5 lit post r x s)
  then show ?case by (auto split: option.split)
qed auto

declare lx_slash.simps [simp del]

text \<open>The operator after a name and its subscripts: \<open>op\<close>, \<open>col\<close> and the words.\<close>

definition lx_at :: "char \<Rightarrow> nat option" where
  "lx_at c = map_of [(CHR ''Q'', V_XQ), (CHR ''E'', V_XE), (CHR ''U'', V_UPALL), (CHR ''L'', V_LOWALL), (CHR ''u'', V_UP),
     (CHR ''A'', V_XA), (CHR ''a'', V_XAT), (CHR ''P'', V_XP), (CHR ''K'', V_XK), (CHR ''k'', V_XKW)] c"

definition lx_op :: "string \<Rightarrow> (nat \<times> nat) option" where
  "lx_op q =
    (let c = at q 0; two = (at q 1 = c)
     in if c = CHR ''-'' then Some (V_DEF, 1)
        else if c = CHR ''='' then Some (V_ASG, 1)
        else if c = CHR ''?'' then Some (V_ERR, 1)
        else if c = CHR ''+'' then Some (V_ALT, 1)
        else if c = CHR ''#'' then (if two then Some (V_RL, 2) else Some (V_RS, 1))
        else if c = CHR ''%'' then (if two then Some (V_SL, 2) else Some (V_SS, 1))
        else if c = CHR ''/'' then
          (if two then Some (V_SUBA, 2) else if at q 1 = CHR ''#'' then Some (V_SUBP, 2)
           else if at q 1 = CHR ''%'' then Some (V_SUBF, 2) else Some (V_SUB, 1))
        else None)"

definition lx_oper :: "lxk \<Rightarrow> nat \<Rightarrow> lex \<Rightarrow> string \<Rightarrow> string \<Rightarrow> (lex \<times> nat \<times> wd list) option" where
  "lx_oper K lit l q post =
    (if at q 0 = CHR ''@'' \<and> length q > 1 then
       Some (case (if length q > 2 then None else lx_at (at q 1)) of None \<Rightarrow> (lx_bad l, V_NONE, []) | Some f \<Rightarrow> (l, f, []))
     else if at q 0 = CHR ''^'' \<or> at q 0 = CHR '','' then
       (let dbl = (at q 1 = at q 0); up = (at q 0 = CHR ''^'');
            f = (if up then (if dbl then V_UPALL else V_UP) else if dbl then V_LOWALL else V_LOW);
            r = drop (if dbl then 2 else 1) q
        in if r = [] then Some (l, f, []) else lx_sub K lit r l \<bind> (\<lambda>(l1, w). Some (l1, f, wlist w)))
     else
       (case lx_op q of
          None \<Rightarrow> Some (lx_bad l, V_NONE, [])
        | Some (f, n) \<Rightarrow>
            let r = drop n q in
            if at q 0 = CHR ''/'' then
              (let z = lx_slash (lit \<noteq> 0) post r
               in lx_sub K lit (upto_pos r z) l \<bind> (\<lambda>(l1, w).
                    let a = [case w of None \<Rightarrow> [] | Some v \<Rightarrow> v]
                    in if z = [] then Some (l1, f, a)
                       else lx_sub K lit (drop 1 z) l1 \<bind> (\<lambda>(l2, u). Some (l2, f, a @ wlist u))))
            else lx_sub K (if lit \<noteq> 0 \<and> V_DEF \<le> f \<and> f \<le> V_ALT then 2 else lit) r l \<bind> (\<lambda>(l1, w). Some (l1, f, wlist w))))"

definition lx_brace1 :: "lxk \<Rightarrow> nat \<Rightarrow> nat \<Rightarrow> lex \<Rightarrow> string \<Rightarrow> string \<Rightarrow> (lex \<times> part) option" where
  "lx_brace1 K quo lit l t post =
    (let lenop = (at t 0 = CHR ''#'' \<and> length t > 1); keyop = (at t 0 = CHR ''!'' \<and> length t > 1);
         b = (if lenop \<or> keyop then drop 1 t else t);
         n = length (takeWhile idch b); k = (if n = 0 \<and> b \<noteq> [] then 1 else n);
         prt = (\<lambda>f col ix a. Part P_VAR (take k b) (int f) quo col (ix \<noteq> []) a ix)
     in lx_subs K lit l [] (drop k b) \<bind> (\<lambda>(l1, ix, q, bad).
        if bad then Some (l1, prt V_NONE False ix [])
        else if lenop then Some (l1, prt V_LEN False ix [])
        else if keyop \<and> ix \<noteq> [] then Some (l1, prt V_KEYS False ix [])
        else if keyop \<and> (q = ''*'' \<or> q = ''@'') then Some (l1, prt V_NAMES (q = ''*'') ix [])
        else if q = [] then Some (l1, prt (if keyop then V_IND else V_NONE) False ix [])
        else if at q 0 = CHR '':'' then
          (if length q < 2 then Some (lx_bad l1, prt V_NONE False ix [])
           else if at q 1 \<notin> set ''-=?+'' then
             lx_sub K lit (drop 1 q) l1 \<bind> (\<lambda>(l2, w). Some (l2, prt V_SUBSTR False ix (wlist w)))
           else lx_oper K lit l1 (drop 1 q) post \<bind> (\<lambda>(l2, f, a). Some (l2, prt f True ix a)))
        else lx_oper K lit l1 q post \<bind> (\<lambda>(l2, f, a). Some (l2, prt f False ix a))))"

definition lx_brace :: "lxk \<Rightarrow> nat \<Rightarrow> lex \<Rightarrow> string \<Rightarrow> string \<Rightarrow> (lex \<times> part) option" where
  "lx_brace K quo l t post =
    lx_brace1 K quo quo l t post \<bind> (\<lambda>(l1, p).
      let f = xop p in
      Some (l1, if length t > 1 \<and> at t 0 = CHR ''!'' \<and> f \<noteq> V_KEYS \<and> f \<noteq> V_NAMES \<and> f \<noteq> V_IND then with_op (f OR V_INDF) p else p))"

subsection \<open>A dollar or a backquote\<close>

fun bq_text :: "bool \<Rightarrow> string \<Rightarrow> string" where
  "bq_text q (x # y # r) =
    (if x = BS \<and> (y = CHR ''$'' \<or> y = BQ \<or> y = BS \<or> q \<and> y = DQ) then y # bq_text q r else x # bq_text q (y # r))"
| "bq_text q r = r"

definition lx_dol :: "lxk \<Rightarrow> nat \<Rightarrow> lex \<Rightarrow> (lex \<times> part option) option" where
  "lx_dol K q l =
    (let p = lx_p l;
         prt = (\<lambda>k t. Part k t 0 q False False [] []);
         to = (\<lambda>t l. l\<lparr>lx_p := t\<rparr>)
     in if at p 0 = BQ then
          (case sk_to BQ (drop 1 p) of
             None \<Rightarrow> Some (lx_set_more l, None)
           | Some e \<Rightarrow> Some (to e l, Some (prt P_CMD (bq_text (q \<noteq> 0) (butlast (upto_pos (drop 1 p) e))))))
        else
          let b = drop 1 p; c = at b 0; r = drop 1 b; l1 = to b l in
          if b = [] then Some (l1, Some (prt P_TXT ''$''))
          else if c = CHR ''('' then
            (let e = sk_bal r (CHR ''('') (CHR '')'') False; i = sk_bal (drop 1 r) (CHR ''('') (CHR '')'') False
             in if at r 0 = CHR ''('' \<and> e \<noteq> None \<and> i \<noteq> None \<and> drop 1 (the i) = the e then
                  Some (to (drop 1 (the e)) l1, Some (prt P_ARI (upto_pos (drop 1 r) (the i))))
                else
                  sk_cmd K l1 r \<bind> (\<lambda>(l2, ee).
                    Some (case ee of None \<Rightarrow> (l2, None)
                          | Some e \<Rightarrow> (to (drop 1 e) l2, Some (prt P_CMD (upto_pos r e))))))
          else if c = CHR ''['' then
            Some (case sk_bal r (CHR ''['') (CHR '']'') (q \<noteq> 0) of None \<Rightarrow> (lx_set_more l1, None)
                  | Some e \<Rightarrow> (to (drop 1 e) l1, Some (prt P_ARI (upto_pos r e))))
          else if c = CHR ''{'' then
            (case sk_bal r (CHR ''{'') (CHR ''}'') (q \<noteq> 0) of None \<Rightarrow> Some (lx_set_more l1, None)
             | Some e \<Rightarrow> lx_brace K q (to (drop 1 e) l1) (upto_pos r e) e \<bind> (\<lambda>(l2, x). Some (l2, Some x)))
          else if isalpha c \<or> c = CHR ''_'' then
            (let e = dropWhile idch b in Some (to e l1, Some (prt P_VAR (upto_pos b e))))
          else if isdigit c \<or> c \<in> set ''?#$!*@-'' then Some (to r l1, Some (prt P_VAR [c]))
          else Some (l1, Some (prt P_TXT ''$'')))"

subsection \<open>A word\<close>

definition lx_chs :: "nat \<Rightarrow> string \<Rightarrow> 'a wb_scheme \<Rightarrow> 'a wb_scheme" where
  "lx_chs q t w = fold (lx_ch q) t w"

text \<open>\<open>pf_ctl\<close> of src/trap.c.\<close>

definition pf_ctl :: "char \<Rightarrow> char" where
  "pf_ctl c = (if c = CHR ''?'' then chr 0x7F else chr (toupper (byte c) AND 0x1F))"

definition hexval16 :: "string \<Rightarrow> nat" where
  "hexval16 t = foldl (\<lambda>v c. v * 16 + digval c) 0 t"

text \<open>Escapes of \<open>$'\<dots>'\<close>, from the character after the backslash on: the characters put, and the text after.\<close>

definition lx_uni :: "nat \<Rightarrow> string \<Rightarrow> string \<times> string" where
  "lx_uni mx p =
    (let r = drop 1 p; h = takeWhile isxdigit (take mx r); v = hexval16 h
     in if h = [] then ([BS, if mx = 4 then CHR ''u'' else CHR ''U''], r)
        else (u8put (if v > 0x10FFFF then 0xFFFD else v), drop (length h) r))"

definition lx_esc :: "string \<Rightarrow> string \<times> string" where
  "lx_esc p =
    (let c = at p 0; r = drop 1 p
     in case map_of [(CHR ''n'', NL), (CHR ''t'', TAB), (CHR ''r'', CHR 0x0D), (CHR ''a'', chr 7), (CHR ''b'', chr 8),
          (CHR ''f'', chr 12), (CHR ''v'', chr 11), (CHR ''e'', chr 27), (CHR ''E'', chr 27)] c of
          Some x \<Rightarrow> ([x], r)
        | None \<Rightarrow>
            if c = CHR ''c'' then
              (if r = [] \<or> at r 0 = SQ then ([BS, c], r)
               else
                 let r1 = drop 1 r in
                 if at r 0 = BS \<and> at r1 0 = SQ then ([pf_ctl (at r 0), SQ], drop 1 r1)
                 else if at r 0 = BS \<and> at r1 0 = BS then ([pf_ctl (at r 0)], drop 1 r1)
                 else ([pf_ctl (at r 0)], r1))
            else if c = BS \<or> c = SQ \<or> c = DQ \<or> c = CHR ''?'' then ([c], r)
            else if c = CHR ''x'' then
              (let h = takeWhile isxdigit (take 2 r)
               in if h = [] then ([BS, c], r) else ([chr (hexval16 h)], drop (length h) r))
            else if CHR ''0'' \<le> c \<and> c \<le> CHR ''7'' then
              (let h = takeWhile (\<lambda>x. CHR ''0'' \<le> x \<and> x \<le> CHR ''7'') (take 3 p)
               in ([chr (foldl (\<lambda>v x. v * 8 + digval x) 0 h)], drop (length h) p))
            else if c = CHR ''u'' then lx_uni 4 p
            else if c = CHR ''U'' then lx_uni 8 p
            else ([BS, c], r))"

lemma lx_esc_less:
  assumes "lx_esc p = (t, r)" "p \<noteq> []"
  shows "length r < length p"
proof -
  have h: "takeWhile (\<lambda>x. CHR ''0'' \<le> x \<and> x \<le> CHR ''7'') (take 3 p) \<noteq> []" if "CHR ''0'' \<le> at p 0" "at p 0 \<le> CHR ''7''"
    using that assms(2) by (cases p) auto
  have d: "length (drop n (drop (Suc 0) p)) < length p" for n using assms(2) by simp
  show ?thesis
    using assms h d [of 0] d [of 1] d [of 2] d
    unfolding lx_esc_def lx_uni_def Let_def by (auto split: option.splits if_splits simp del: map_of.simps)
qed

text \<open>The text of \<open>$'\<dots>'\<close>: its characters, and the text from the closing quote on.\<close>

function lx_ansi :: "string \<Rightarrow> string \<times> string" where
  "lx_ansi p =
    (case p of
       [] \<Rightarrow> ([], [])
     | x # r \<Rightarrow>
         if x = SQ then ([], p)
         else if x \<noteq> BS then (let (t, e) = lx_ansi r in (x # t, e))
         else if r = [] then ([], [])
         else let (u, r1) = lx_esc r; (t, e) = lx_ansi r1 in (u @ t, e))"
  by pat_completeness auto
termination
  by (relation "measure length") (auto dest!: lx_esc_less [OF sym])

declare lx_ansi.simps [simp del]

text \<open>The locals of \<open>lx_word\<close>: \<open>ws_q\<close> is \<open>q\<close>, \<open>ws_gd\<close> the open groups of an extended pattern.\<close>

record wst = wb +
  ws_l :: lex
  ws_q :: bool
  ws_seen :: bool
  ws_gd :: int

definition ws_to :: "string \<Rightarrow> wst \<Rightarrow> wst" where
  "ws_to p w = w\<lparr>ws_l := (ws_l w)\<lparr>lx_p := p\<rparr>\<rparr>"

definition ws_more :: "wst \<Rightarrow> wst" where
  "ws_more w = w\<lparr>ws_l := lx_set_more (ws_l w)\<rparr>"

definition ws_qi :: "wst \<Rightarrow> nat" where
  "ws_qi w = (if ws_q w then 1 else 0)"

text \<open>A process substitution.\<close>

definition lx_wpsub :: "lxk \<Rightarrow> wst \<Rightarrow> (wst + wst) option" where
  "lx_wpsub K w =
    (let p = lx_p (ws_l w); r = drop 2 p; w1 = ws_to r (lx_flush w)
     in sk_cmd K (ws_l w1) r \<bind> (\<lambda>(l1, ee). let w2 = w1\<lparr>ws_l := l1\<rparr> in
          Some (case ee of None \<Rightarrow> Inr w2
                | Some e \<Rightarrow>
                    Inl (ws_to (drop 1 e) (lx_push
                      (Part P_PSUB (upto_pos r e) (if at p 0 = CHR ''<'' then 1 else 0) 1 False False [] []) w2)\<lparr>ws_seen := True\<rparr>))))"

text \<open>Text in single quotes, and in \<open>$'\<dots>'\<close>.\<close>

definition lx_wsq :: "wst \<Rightarrow> wst + wst" where
  "lx_wsq w =
    (let r = drop 1 (lx_p (ws_l w)); e = dropWhile (\<lambda>c. c \<noteq> SQ) r;
         w1 = ws_to (drop 1 e) (lx_chs 1 (takeWhile (\<lambda>c. c \<noteq> SQ) r) w)\<lparr>ws_seen := True\<rparr>
     in if e = [] then Inr (ws_more w1) else Inl w1)"

definition lx_wansi :: "wst \<Rightarrow> wst" where
  "lx_wansi w =
    (let (t, e) = lx_ansi (drop 2 (lx_p (ws_l w)));
         w1 = ws_to (drop 1 e) (lx_chs 1 t w)\<lparr>ws_seen := True\<rparr>
     in if e = [] then ws_more w1 else w1)"

text \<open>After a backslash.\<close>

definition lx_wbs :: "nat \<Rightarrow> wst \<Rightarrow> wst + wst" where
  "lx_wbs lit w =
    (case drop 1 (lx_p (ws_l w)) of
       [] \<Rightarrow> Inr ((ws_to [] (lx_ch 1 BS w))\<lparr>ws_seen := True\<rparr>)
     | c # r \<Rightarrow>
         if c = NL then Inl (ws_to r w)
         else
           let keep = (ws_q w \<and> c \<notin> {DQ, BS, CHR ''$'', BQ} \<or> \<not> ws_q w \<and> lit = 2 \<and> c \<notin> {DQ, BS, CHR ''$'', BQ, CHR ''}''});
               w1 = (if keep then lx_ch 1 BS w else w)
           in Inl ((ws_to r (lx_ch 1 c w1))\<lparr>ws_seen := True\<rparr>))"

text \<open>The rest of the loop's body, from the test for a group on.\<close>

definition lx_wrest :: "lxk \<Rightarrow> nat \<Rightarrow> wst \<Rightarrow> (wst + wst) option" where
  "lx_wrest K lit w =
    (let p = lx_p (ws_l w); c = at p 0; free = (\<not> ws_q w \<and> \<not> lx_nb (ws_l w))
     in if ws_gd w \<noteq> 0 \<and> free \<and> c \<noteq> NL \<and> (blank c \<or> ismeta c) then
          Some (Inl (ws_to (drop 1 p) (lx_ch 0 c w)
            \<lparr>ws_gd := ws_gd w + (if c = CHR ''('' then 1 else if c = CHR '')'' then -1 else 0)\<rparr>))
        else if free \<and> (blank c \<or> ismeta c) then Some (Inr w)
        else if c = SQ \<and> \<not> ws_q w \<and> lit = 0 then Some (lx_wsq w)
        else if c = DQ then Some (Inl (ws_to (drop 1 p) w\<lparr>ws_q := \<not> ws_q w, ws_seen := True\<rparr>))
        else if c = BS then Some (lx_wbs lit w)
        else if c = CHR ''$'' \<and> at p 1 = DQ \<and> \<not> ws_q w then Some (Inl (ws_to (drop 1 p) w\<lparr>ws_seen := True\<rparr>))
        else if c = CHR ''$'' \<and> at p 1 = SQ \<and> \<not> ws_q w then Some (Inl (lx_wansi w))
        else if c = CHR ''$'' \<or> c = BQ then
          (let w1 = lx_flush w in
           lx_dol K (ws_qi w1) (ws_l w1) \<bind> (\<lambda>(l1, x). let w2 = w1\<lparr>ws_l := l1\<rparr> in
             Some (case x of None \<Rightarrow> Inr w2 | Some y \<Rightarrow> Inl (lx_push y w2))))
        else Some (Inl (ws_to (drop 1 p) (lx_ch (ws_qi w) c w))))"

definition lx_wstep :: "lxk \<Rightarrow> nat \<Rightarrow> wst \<Rightarrow> (wst + wst) option" where
  "lx_wstep K lit w =
    (let p = lx_p (ws_l w); c = at p 0; free = (\<not> ws_q w \<and> \<not> lx_nb (ws_l w))
     in if p = [] then Some (Inr w)
        else if free \<and> (c = CHR ''<'' \<or> c = CHR ''>'') \<and> at p 1 = CHR ''('' then lx_wpsub K w
        else if free \<and> c = NL then Some (Inr w)
        else if free \<and> at p 1 = CHR ''('' \<and> c \<in> set ''?*+@!'' then
          (if sk_bal (drop 2 p) (CHR ''('') (CHR '')'') False \<noteq> None then
             Some (Inl (ws_to (drop 2 p) (lx_ch 0 (CHR ''('') (lx_ch 0 c w))\<lparr>ws_gd := ws_gd w + 1, ws_seen := True\<rparr>))
           else lx_wrest K lit (ws_more w))
        else lx_wrest K lit w)"

definition lx_word :: "lxk \<Rightarrow> nat \<Rightarrow> lex \<Rightarrow> (lex \<times> wd option) option" where
  "lx_word K lit l =
    iter (Suc (length (lx_p l))) (lx_wstep K lit)
      \<lparr>wb_h = [], wb_b = [], wb_q = 0, ws_l = l, ws_q = False, ws_seen = False, ws_gd = 0\<rparr> \<bind> (\<lambda>w.
      let w1 = lx_flush (if ws_q w then ws_more w else w); h = wb_h w1
      in Some (ws_l w1,
           if h = [] \<and> \<not> ws_seen w1 then None
           else Some (if h = [] then [Part P_TXT [] 0 1 False False [] []] else h)))"

subsection \<open>Here-documents\<close>

text \<open>The body of a here-document: the characters of \<open>t\<close> with their expansions, read by a copy of the lexer.\<close>

definition lx_bstep :: "lxk \<Rightarrow> bool \<Rightarrow> wst \<Rightarrow> (wst + wst) option" where
  "lx_bstep K q w =
    (let p = lx_p (ws_l w); c = at p 0; d = at p 1
     in if p = [] then Some (Inr w)
        else if \<not> q \<and> c = BS \<and> d \<in> {CHR ''$'', BQ, BS, NL} then
          Some (Inl (ws_to (drop 2 p) (if d = NL then w else lx_ch 1 d w)))
        else if \<not> q \<and> (c = CHR ''$'' \<or> c = BQ) then
          (let w1 = lx_flush w in
           lx_dol K 1 (ws_l w1) \<bind> (\<lambda>(l1, x). let w2 = w1\<lparr>ws_l := l1\<rparr> in
             Some (case x of None \<Rightarrow> Inr w2 | Some y \<Rightarrow> Inl (lx_push y w2))))
        else Some (Inl (ws_to (drop 1 p) (lx_ch 1 c w))))"

definition lx_body :: "lxk \<Rightarrow> lex \<Rightarrow> string \<Rightarrow> bool \<Rightarrow> wd option" where
  "lx_body K l t q =
    iter (Suc (length t)) (lx_bstep K q)
      \<lparr>wb_h = [], wb_b = [], wb_q = 1, ws_l = l\<lparr>lx_p := t, lx_nb := True\<rparr>, ws_q = False, ws_seen = False, ws_gd = 0\<rparr> \<bind> (\<lambda>w.
      let h = wb_h (lx_flush w) in Some (if h = [] then [Part P_TXT [] 0 1 False False [] []] else h))"

text \<open>\<open>lx_here\<close>: the here-document of redirection number \<open>r\<close> is pending, its delimiter the word \<open>d\<close>.\<close>

definition lx_here :: "lex \<Rightarrow> nat \<Rightarrow> wd \<Rightarrow> lex" where
  "lx_here l r d =
    (if list_ex (\<lambda>p. pk p \<noteq> P_TXT) d then lx_bad l
     else l\<lparr>lx_hq := lx_hq l @ [\<lparr>hd_r = r, hd_d = takeWhile (\<lambda>c. c \<noteq> NUL) (concat (map pt d)), hd_dash = lx_dash l,
       hd_q = list_ex (\<lambda>p. pq p \<noteq> 0) d\<rparr>]\<rparr>)"

text \<open>The lines up to the delimiter: the body, the text after, and whether the delimiter was there.\<close>

function lx_hread :: "hd \<Rightarrow> string \<Rightarrow> string \<Rightarrow> string \<times> string \<times> bool" where
  "lx_hread h b p =
    (let ln = takeWhile (\<lambda>c. c \<noteq> NL) p; r = dropWhile (\<lambda>c. c \<noteq> NL) p;
         t = (if hd_dash h then dropWhile (\<lambda>c. c = TAB) ln else ln)
     in if p = [] then (b, p, False)
        else if r = [] then (if t = hd_d h then (b, [], True) else (b, p, False))
        else if t = hd_d h then (b, drop 1 r, True)
        else lx_hread h (b @ t @ [NL]) (drop 1 r))"
  by pat_completeness auto
termination
proof (relation "measure (\<lambda>(h, b, p). length p)", goal_cases)
  case (2 h b p ln r t)
  then have "p \<noteq> []" "length r \<le> length p" by (simp_all add: length_dropWhile_le)
  then have "length r - 1 < length p" by (cases p) auto
  then show ?case by simp
qed simp

declare lx_hread.simps [simp del]

definition lx_hdoc1 :: "lxk \<Rightarrow> hd \<Rightarrow> lex \<Rightarrow> lex option" where
  "lx_hdoc1 K h l =
    (if lx_more l then Some l
     else
       let (b, p, ok) = lx_hread h [] (lx_p l); l1 = l\<lparr>lx_p := p\<rparr>
       in if \<not> ok then Some (lx_set_more l1)
          else lx_body K l1 b (hd_q h) \<bind> (\<lambda>w. Some (l1\<lparr>lx_bods := (hd_r h, w) # lx_bods l1\<rparr>)))"

definition lx_hdoc :: "lxk \<Rightarrow> lex \<Rightarrow> lex option" where
  "lx_hdoc K l = foldl (\<lambda>a h. a \<bind> lx_hdoc1 K h) (Some l) (lx_hq l) \<bind> (\<lambda>l1. Some (l1\<lparr>lx_hq := []\<rparr>))"

subsection \<open>Tokens\<close>

definition lx_tok :: "nat \<Rightarrow> string \<Rightarrow> lex \<Rightarrow> lex" where
  "lx_tok k p l = l\<lparr>lx_tk := k, lx_p := p\<rparr>"

definition lx_redir :: "lex \<Rightarrow> lex" where
  "lx_redir l =
    (let p = lx_p l; r = drop 1 p; d = at r 0
     in if at p 0 = CHR ''<'' then
          (if d = CHR ''<'' then
             (let l1 = l\<lparr>lx_dash := False\<rparr>; r1 = drop 1 r
              in if at r1 0 = CHR ''<'' then lx_tok T_HERES (drop 1 r1) l1
                 else if at r1 0 = CHR ''-'' then lx_tok T_HERE (drop 1 r1) (l\<lparr>lx_dash := True\<rparr>)
                 else lx_tok T_HERE r1 l1)
           else if d = CHR ''&'' then lx_tok T_DIN (drop 1 r) l
           else if d = CHR ''>'' then lx_tok T_RW (drop 1 r) l
           else lx_tok T_LT r l)
        else if d = CHR ''>'' then lx_tok T_APP (drop 1 r) l
        else if d = CHR ''&'' then lx_tok T_DOUT (drop 1 r) l
        else if d = CHR ''|'' then lx_tok T_GT (drop 1 r) (l\<lparr>lx_clob := True\<rparr>)
        else lx_tok T_GT r l)"

text \<open>Blanks, continued lines and comments.\<close>

function lx_blank :: "string \<Rightarrow> string" where
  "lx_blank p =
    (let b = dropWhile blank p
     in if at b 0 = BS \<and> at b 1 = NL then lx_blank (drop 2 b)
        else if at b 0 = CHR ''#'' then lx_blank (dropWhile (\<lambda>c. c \<noteq> NL) b)
        else b)"
  by pat_completeness auto
termination
proof (relation "measure length", goal_cases)
  case (2 p b)
  have "length b \<le> length p" using 2(1) by (simp add: length_dropWhile_le)
  moreover have "b \<noteq> []" using 2(2) by (cases b) auto
  ultimately show ?case by (cases b) auto
next
  case (3 p b)
  have "length b \<le> length p" using 3(1) by (simp add: length_dropWhile_le)
  moreover have "length (dropWhile (\<lambda>c. c \<noteq> NL) b) < length b"
    using 3(3) length_dropWhile_le [of "\<lambda>c. c \<noteq> NL" "tl b"] by (cases b) auto
  ultimately show ?case by simp
qed simp

declare lx_blank.simps [simp del]

text \<open>The number in front of a redirection, \<open>big\<close> past a hundred million.\<close>

fun lx_num :: "nat \<Rightarrow> bool \<Rightarrow> string \<Rightarrow> nat \<times> bool" where
  "lx_num n big [] = (n, big)"
| "lx_num n big (c # r) = (if n > 100000000 then lx_num n True r else lx_num (n * 10 + digval c) big r)"

definition lx_wtok :: "lxk \<Rightarrow> char \<Rightarrow> lex \<Rightarrow> lex option" where
  "lx_wtok K c l =
    lx_word K 0 l \<bind> (\<lambda>(l1, w). let l2 = l1\<lparr>lx_w := w\<rparr> in
      Some (if w \<noteq> None then l2\<lparr>lx_tk := T_WORD\<rparr>
            else if lx_more l2 then l2\<lparr>lx_tk := T_EOF\<rparr>
            else lx_tok T_EOF (drop 1 (lx_p l2)) (lx_bad l2)))"

text \<open>A number or a name in braces in front of a redirection.\<close>

definition lx_fdtok :: "lex \<Rightarrow> lex option" where
  "lx_fdtok l =
    (let p = lx_p l; ds = takeWhile isdigit p; q = dropWhile isdigit p; (n, big) = lx_num 0 False ds;
         nm = takeWhile idch (drop 1 p); e = dropWhile idch (drop 1 p)
     in if ds \<noteq> [] \<and> \<not> big \<and> (at q 0 = CHR ''<'' \<or> at q 0 = CHR ''>'') then
          Some (lx_redir (l\<lparr>lx_fd := int n, lx_p := q\<rparr>))
        else if at p 0 = CHR ''{'' \<and> nm \<noteq> [] \<and> at e 0 = CHR ''}'' \<and> (at e 1 = CHR ''<'' \<or> at e 1 = CHR ''>'') then
          Some (lx_redir (l\<lparr>lx_fdvar := Some nm, lx_p := drop 1 e\<rparr>))
        else None)"

text \<open>A token at a character that is not blank, for the characters that start no word.\<close>

definition lx_optok :: "lex \<Rightarrow> lex" where
  "lx_optok l =
    (let p = lx_p l; c = at p 0; r = drop 1 p; d = at r 0; r1 = drop 1 r
     in if c = CHR '';'' then
          (if d = CHR '';'' then (if at r1 0 = CHR ''&'' then lx_tok T_DSEMIAMP (drop 1 r1) l else lx_tok T_DSEMI r1 l)
           else if d = CHR ''&'' then lx_tok T_SEMIAMP r1 l
           else lx_tok T_SEMI r l)
        else if c = CHR ''('' then lx_tok T_LP r l
        else if c = CHR '')'' then lx_tok T_RP r l
        else if c = CHR ''&'' then
          (if d = CHR ''&'' then lx_tok T_AND r1 l
           else if d = CHR ''>'' then lx_redir (l\<lparr>lx_p := r, lx_both := True\<rparr>)
           else lx_tok T_AMP r l)
        else if d = CHR ''|'' then lx_tok T_OR r1 l
        else if d = CHR ''&'' then lx_tok T_PIPEAMP r1 l
        else lx_tok T_PIPE r l)"

text \<open>At \<open>((\<close>: an arithmetic command, the end of the text, or the lexer to go on with.\<close>

definition lx_arith :: "lex \<Rightarrow> lex + lex" where
  "lx_arith l =
    (let p = lx_p l; o1 = sk_bal (drop 1 p) (CHR ''('') (CHR '')'') False; i1 = sk_bal (drop 2 p) (CHR ''('') (CHR '')'') False
     in case o1 of
          None \<Rightarrow> Inr (lx_set_more l\<lparr>lx_tk := T_EOF\<rparr>)
        | Some e \<Rightarrow>
            (case i1 of
               None \<Rightarrow> Inl (lx_set_more l)
             | Some i \<Rightarrow>
                 if drop 1 i = e then
                   Inr (lx_tok T_ARITH (drop 1 e) (l\<lparr>lx_w := Some [Part P_TXT (upto_pos (drop 2 p) i) 0 1 False False [] []]\<rparr>))
                 else Inl l))"

definition lx_next :: "lxk \<Rightarrow> lex \<Rightarrow> lex option" where
  "lx_next K l0 =
    (if lx_more l0 then Some (l0\<lparr>lx_tk := T_EOF\<rparr>)
     else
       let p = lx_blank (lx_p l0);
           l = l0\<lparr>lx_w := None, lx_fd := -1, lx_both := False, lx_clob := False, lx_fdvar := None, lx_p := p, lx_tkb := Some p\<rparr>;
           c = at p 0
       in if p = [] then Some (l\<lparr>lx_tk := T_EOF\<rparr>)
          else if c = NL then
            (if lx_hq l = [] then Some (lx_tok T_NL (drop 1 p) l)
             else lx_hdoc K (l\<lparr>lx_p := drop 1 p\<rparr>) \<bind> (\<lambda>l1. Some (l1\<lparr>lx_tk := T_NL\<rparr>)))
          else if c = CHR ''('' \<and> at p 1 = CHR ''('' then
            Some (case lx_arith l of Inr l1 \<Rightarrow> l1 | Inl l1 \<Rightarrow> lx_optok l1)
          else if c \<in> set '';()&|'' then Some (lx_optok l)
          else
            (case lx_fdtok l of
               Some l1 \<Rightarrow> Some l1
             | None \<Rightarrow>
                 if c = CHR ''<'' \<or> c = CHR ''>'' then
                   (if at p 1 = CHR ''('' then
                      lx_word K 0 l \<bind> (\<lambda>(l1, w). let l2 = l1\<lparr>lx_w := w\<rparr> in
                        Some (if w \<noteq> None then l2\<lparr>lx_tk := T_WORD\<rparr>
                              else if lx_more l2 then l2\<lparr>lx_tk := T_EOF\<rparr> else lx_redir l2))
                    else Some (lx_redir l))
                 else lx_wtok K c l))"

end
