(* ===== verification/Parse.thy ===== *)
theory Parse
  imports Lexer
begin

text \<open>
  The parser, src/parse.c: recursive descent over the tokens of Lexer into the tree of Exec. The functions that call
  one another take what they call as the record \<open>prk\<close> (and the lexer's calls as \<open>lxk\<close>); \<open>p_ev\<close> ties both knots with
  a fuel for how deep the calls are nested. A null node is \<open>N0\<close>, a list grown at its tail is a list, and the body of a
  here-document is put in its place at the end by \<open>hd_fill\<close>. Messages are left out.
\<close>

record prk =
  pk_list :: "lex \<Rightarrow> (lex \<times> node) option"
  pk_cmd :: "lex \<Rightarrow> (lex \<times> node) option"
  pk_if :: "lex \<Rightarrow> (lex \<times> node) option"

text \<open>A loop that takes at least a token each round; the token at hand may be read again (\<open>p_arrel\<close>).\<close>

definition tokens :: "lex \<Rightarrow> ('s \<Rightarrow> ('s + 'r) option) \<Rightarrow> 's \<Rightarrow> 'r option" where
  "tokens l f s = iter (length (case lx_tkb l of Some b \<Rightarrow> b | None \<Rightarrow> lx_p l) + 3) f s"

subsection \<open>Words and tokens\<close>

definition w_lit :: "wd option \<Rightarrow> string option" where
  "w_lit w = (case w of Some [p] \<Rightarrow> if pk p = P_TXT \<and> pq p = 0 then Some (pt p) else None | _ \<Rightarrow> None)"

text \<open>The subscript of an assignment's target closes before an equals sign: in the first part from \<open>t\<close> on, or in a later one.\<close>

fun w_subeq :: "string \<Rightarrow> bool" where
  "w_subeq (a # b # r) =
    (a = CHR '']'' \<and> (b = CHR ''='' \<or> b = CHR ''+'' \<and> at r 0 = CHR ''='') \<or> w_subeq (b # r))"
| "w_subeq r = False"

fun w_subeq2 :: "string \<Rightarrow> bool" where
  "w_subeq2 (a # b # r) = (a = CHR '']'' \<and> (b = CHR ''='' \<or> b = CHR ''+'') \<or> w_subeq2 (b # r))"
| "w_subeq2 r = False"

definition w_asg :: "wd \<Rightarrow> bool" where
  "w_asg w =
    (case w of
       [] \<Rightarrow> False
     | p # ps \<Rightarrow>
         let t = pt p; i = length (takeWhile idch t); c = at t i in
         pk p = P_TXT \<and> pq p = 0 \<and> t \<noteq> [] \<and> \<not> isdigit (at t 0) \<and> i > 0 \<and>
         (c = CHR ''='' \<or> c = CHR ''+'' \<and> at t (i + 1) = CHR ''='' \<or>
          c = CHR ''['' \<and> (w_subeq (drop (i + 1) t) \<or> list_ex (\<lambda>q. pk q = P_TXT \<and> w_subeq2 (pt q)) ps)))"

definition w_asgbare :: "wd \<Rightarrow> bool" where
  "w_asgbare w \<longleftrightarrow> (case w of [p] \<Rightarrow> pk p = P_TXT \<and> pt p \<noteq> [] \<and> last (pt p) = CHR ''='' | _ \<Rightarrow> False)"

definition perr :: "lex \<Rightarrow> lex" where
  "perr l = (if lx_err l then l else if lx_tk l = T_EOF then lx_set_more l else lx_bad l)"

definition kw :: "lex \<Rightarrow> string \<Rightarrow> bool" where
  "kw l t \<longleftrightarrow> lx_tk l = T_WORD \<and> w_lit (lx_w l) = Some t"

definition p_nl :: "lxk \<Rightarrow> lex \<Rightarrow> lex option" where
  "p_nl K l = tokens l (\<lambda>l. if lx_tk l = T_NL then lx_next K l \<bind> (\<lambda>l1. Some (Inl l1)) else Some (Inr l)) l"

definition p_end :: "lex \<Rightarrow> bool" where
  "p_end l \<longleftrightarrow>
    lx_tk l \<in> {T_EOF, T_RP, T_DSEMI, T_SEMIAMP, T_DSEMIAMP} \<or>
    lx_tk l = T_WORD \<and> (case w_lit (lx_w l) of None \<Rightarrow> False
      | Some t \<Rightarrow> t \<in> {''then'', ''else'', ''elif'', ''fi'', ''do'', ''done'', ''esac'', ''}''})"

definition p_body :: "prk \<Rightarrow> lex \<Rightarrow> (lex \<times> node) option" where
  "p_body P l = pk_list P l \<bind> (\<lambda>(l1, n). Some (if n = N0 \<and> \<not> lx_err l1 \<and> \<not> lx_more l1 then perr l1 else l1, n))"

text \<open>\<open>if (!kw(l, t)) perr(l, \<dots>); else lx_next(l);\<close>\<close>

definition p_want :: "lxk \<Rightarrow> string \<Rightarrow> lex \<Rightarrow> lex option" where
  "p_want K t l = (if kw l t then lx_next K l else Some (perr l))"

subsection \<open>Redirections\<close>

definition r_kind :: "nat \<Rightarrow> nat option" where
  "r_kind tk = map_of [(T_LT, 0), (T_GT, 1), (T_APP, 2), (T_DIN, 3), (T_DOUT, 3), (T_RW, 4), (T_HERE, 5), (T_HERES, 5)] tk"

text \<open>The word of a here-document that is pending: its number.\<close>

definition hd_ref :: "nat \<Rightarrow> wd" where
  "hd_ref i = [Part 9 [] (int i) 0 False False [] []]"

definition p_redir :: "lxk \<Rightarrow> lex \<Rightarrow> (lex \<times> redir list) option" where
  "p_redir K l =
    (case r_kind (lx_tk l) of
       None \<Rightarrow> Some (l, [])
     | Some k \<Rightarrow>
         let tk = lx_tk l;
             r = \<lparr>rd_w = [], rd_var = lx_fdvar l,
                  rd_fd = (if lx_fd l \<ge> 0 then lx_fd l else if tk \<in> {T_LT, T_RW, T_DIN, T_HERE, T_HERES} then 0 else 1),
                  rd_k = k,
                  rd_fl = (if lx_both l then 1 else 0) + (if lx_clob l then 2 else 0) + (if tk = T_HERES then 4 else 0) +
                    (if tk = T_DOUT \<and> (lx_fd l < 0 \<or> lx_fd l = 1) \<and> lx_fdvar l = None then 8 else 0)\<rparr>
         in lx_next K l \<bind> (\<lambda>l1.
              case (if lx_tk l1 = T_WORD then lx_w l1 else None) of
                None \<Rightarrow> Some (perr l1, [])
              | Some w \<Rightarrow>
                  if tk = T_HERE then
                    lx_next K (lx_here (l1\<lparr>lx_nhd := Suc (lx_nhd l1)\<rparr>) (lx_nhd l1) w) \<bind> (\<lambda>l2.
                      Some (l2, [r\<lparr>rd_w := hd_ref (lx_nhd l1)\<rparr>]))
                  else lx_next K l1 \<bind> (\<lambda>l2. Some (l2, [r\<lparr>rd_w := w\<rparr>]))))"

text \<open>Redirections after a compound command.\<close>

definition p_redirs :: "lxk \<Rightarrow> lex \<Rightarrow> (lex \<times> redir list) option" where
  "p_redirs K l =
    tokens l (\<lambda>(l, rs). if r_kind (lx_tk l) = None then Some (Inr (l, rs))
      else p_redir K l \<bind> (\<lambda>(l1, r). Some (Inl (l1, rs @ r)))) (l, [])"

fun add_rd :: "redir list \<Rightarrow> node \<Rightarrow> node" where
  "add_rd r (NCmd c) = NCmd (c\<lparr>c_rd := c_rd c @ r\<rparr>)"
| "add_rd r (NSub ln rd n) = NSub ln (rd @ r) n"
| "add_rd r (NGrp ln rd n) = NGrp ln (rd @ r) n"
| "add_rd r (NIf ln rd a b c) = NIf ln (rd @ r) a b c"
| "add_rd r (NLoop u ln rd a b) = NLoop u ln (rd @ r) a b"
| "add_rd r (NFor ln rd v ws b) = NFor ln (rd @ r) v ws b"
| "add_rd r (NSelect ln rd v ws b) = NSelect ln (rd @ r) v ws b"
| "add_rd r (NCfor ln rd i c s b) = NCfor ln (rd @ r) i c s b"
| "add_rd r (NCase ln rd w cs) = NCase ln (rd @ r) w cs"
| "add_rd r (NArith ln rd p) = NArith ln (rd @ r) p"
| "add_rd r (NCond ln rd ws) = NCond ln (rd @ r) ws"
| "add_rd r n = n"

definition p_rtail :: "lxk \<Rightarrow> lex \<times> node \<Rightarrow> (lex \<times> node) option" where
  "p_rtail K x = (case x of (l, n) \<Rightarrow> if n = N0 then Some (l, n) else p_redirs K l \<bind> (\<lambda>(l1, r). Some (l1, add_rd r n)))"

text \<open>The \<open>2>&1\<close> of \<open>|&\<close>, on the last stage before it. A function definition does not run its redirections.\<close>

fun p_errpipe :: "node \<Rightarrow> node" where
  "p_errpipe (NPipe ln tx a b) = (if b = N0 then NPipe ln tx a b else NPipe ln tx a (p_errpipe b))"
| "p_errpipe n = add_rd [\<lparr>rd_w = [Part P_TXT ''1'' 0 0 False False [] []], rd_var = None, rd_fd = 2, rd_k = 3, rd_fl = 0\<rparr>] n"

subsection \<open>Simple commands\<close>

text \<open>To the end of an array element or of a regular expression, \<open>d\<close> brackets deep.\<close>

function p_balw :: "nat \<Rightarrow> string \<Rightarrow> string" where
  "p_balw d e =
    (case e of
       [] \<Rightarrow> []
     | x # r \<Rightarrow>
         if x = BS \<and> r \<noteq> [] then p_balw d (drop 1 r)
         else if x = SQ \<or> x = DQ then p_balw d (drop 1 (dropWhile (\<lambda>c. c \<noteq> x) r))
         else if x = CHR ''('' \<or> x = CHR ''['' then p_balw (Suc d) r
         else if (x = CHR '')'' \<or> x = CHR '']'') \<and> d > 0 then p_balw (d - 1) r
         else if d = 0 \<and> (blank x \<or> x = NL \<or> x = CHR '')'') then e
         else p_balw d r)"
  by pat_completeness auto
termination
proof (relation "measure (\<lambda>(d, e). length e)", goal_cases)
  case (3 d e x r)
  then show ?case using length_dropWhile_le [of "\<lambda>c. c \<noteq> x" r] by simp
qed auto

declare p_balw.simps [simp del]

definition p_arrel :: "lxk \<Rightarrow> lex \<Rightarrow> (lex \<times> wd) option" where
  "p_arrel K l =
    (let b = (case lx_tkb l of Some b \<Rightarrow> b | None \<Rightarrow> []); w0 = (case lx_w l of Some w \<Rightarrow> w | None \<Rightarrow> [])
     in if length b \<le> length (lx_p l) \<or> at b 0 \<noteq> CHR ''['' \<or> CHR '']'' \<in> set (upto_pos b (lx_p l)) then Some (l, w0)
        else
          let e = p_balw 0 b in
          lx_sub K 0 (upto_pos b e) (l\<lparr>lx_p := e\<rparr>) \<bind> (\<lambda>(l1, w). Some (l1, case w of Some v \<Rightarrow> v | None \<Rightarrow> w0)))"

text \<open>The elements of \<open>name=(\<dots>)\<close>, the current token its bracket; no clause where the closing one is missing.\<close>

definition p_arrasg :: "lxk \<Rightarrow> wd \<Rightarrow> lex \<Rightarrow> (lex \<times> arrasg option) option" where
  "p_arrasg K w l =
    lx_next K l \<bind> p_nl K \<bind> (\<lambda>l1.
    tokens l1 (\<lambda>(l, ws).
      if lx_tk l = T_WORD then
        p_arrel K l \<bind> (\<lambda>(l2, v). lx_next K l2 \<bind> p_nl K \<bind> (\<lambda>l3. Some (Inl (l3, ws @ [v]))))
      else Some (Inr (l, ws))) (fst (lx_line l1), []) \<bind> (\<lambda>(l4, ws).
    if lx_tk l4 \<noteq> T_RP then Some (perr l4, None)
    else lx_next K l4 \<bind> (\<lambda>l5. Some (l5, Some \<lparr>ar_nm = butlast (pt (hd w)), ar_w = ws, ar_late = False\<rparr>))))"

text \<open>The locals of \<open>p_simple\<close>: the command so far, \<open>got\<close>, and the literal text of its first word.\<close>

record psim =
  ps_l :: lex
  ps_c :: cmd
  ps_got :: bool
  ps_cmd0 :: "string option"

definition p_func :: "lxk \<Rightarrow> prk \<Rightarrow> string \<Rightarrow> lex \<Rightarrow> (lex \<times> node) option" where
  "p_func K P nm l =
    p_nl K l \<bind> (\<lambda>l0. let (l1, ln) = lx_line l0 in
    pk_cmd P l1 \<bind> (\<lambda>(l2, b). Some (l2\<lparr>lx_keep := True\<rparr>, NFunc (Fn nm ln False [] None b))))"

definition p_sword :: "lxk \<Rightarrow> prk \<Rightarrow> psim \<Rightarrow> (psim + lex \<times> node) option" where
  "p_sword K P s =
    (let w = the (lx_w (ps_l s)); t = w_lit (Some w); c = ps_c s; got = ps_got s in
     lx_next K (ps_l s) \<bind> (\<lambda>l.
     let s1 = s\<lparr>ps_l := l\<rparr> in
     if \<not> got \<and> t \<noteq> None \<and> the t \<noteq> [] \<and> CHR ''='' \<notin> set (the t) \<and> lx_tk l = T_LP then
       lx_next K l \<bind> (\<lambda>l1.
         if lx_tk l1 \<noteq> T_RP then Some (Inr (perr l1, NCmd c))
         else lx_next K l1 \<bind> (\<lambda>l2. p_func K P (the t) l2 \<bind> (\<lambda>r. Some (Inr r))))
     else if \<not> got \<and> kw l '':='' \<and> (t \<noteq> None \<and> isname (the t) \<or> w_bind w) then
       lx_next K l \<bind> (\<lambda>l1. Some (Inl (s1\<lparr>ps_l := l1,
         ps_c := (if t \<noteq> None \<and> isname (the t) then c\<lparr>c_bind := t, c_bound := True\<rparr> else c\<lparr>c_bw := Some w, c_bound := True\<rparr>)\<rparr>)))
     else if \<not> got \<and> lx_tk l = T_LP \<and> w_asg w \<and> w_asgbare w then
       p_arrasg K w l \<bind> (\<lambda>(l1, cl). Some (case cl of
         None \<Rightarrow> Inr (l1, NCmd c)
       | Some a \<Rightarrow> Inl (s1\<lparr>ps_l := l1, ps_c := c\<lparr>c_arr := c_arr c @ [a]\<rparr>\<rparr>)))
     else if \<not> got \<and> w_asg w then Some (Inl (s1\<lparr>ps_c := c\<lparr>c_aw := c_aw c @ [w]\<rparr>\<rparr>))
     else if got \<and> ps_cmd0 s \<noteq> None \<and> lx_tk l = T_LP \<and> w_asg w \<and> w_asgbare w \<and> bi_argk (the (ps_cmd0 s)) AND 2 \<noteq> 0 then
       p_arrasg K w l \<bind> (\<lambda>(l1, cl). Some (case cl of
         None \<Rightarrow> Inr (l1, NCmd c)
       | Some a \<Rightarrow>
           let nm = butlast (pt (hd w)); nm1 = (if nm \<noteq> [] \<and> last nm = CHR ''+'' then butlast nm else nm)
           in Inl (s1\<lparr>ps_l := l1, ps_c := c\<lparr>c_arr := c_arr c @ [a\<lparr>ar_late := bi_argk (the (ps_cmd0 s)) AND 4 = 0\<rparr>],
                c_w := c_w c @ [[Part P_TXT nm1 0 0 False False [] []]]\<rparr>\<rparr>)))
     else Some (Inl (s1\<lparr>ps_c := c\<lparr>c_w := c_w c @ [w]\<rparr>, ps_got := True, ps_cmd0 := (if got then ps_cmd0 s else t)\<rparr>))))"

definition p_simple :: "lxk \<Rightarrow> prk \<Rightarrow> lex \<Rightarrow> (lex \<times> node) option" where
  "p_simple K P l0 =
    (let (l, ln) = lx_line l0;
         c = \<lparr>c_w = [], c_aw = [], c_bw = None, c_rd = [], c_arr = [], c_bind = None, c_bound = False, c_tx = [], c_ln = ln\<rparr>
     in tokens l0 (\<lambda>s.
          let l = ps_l s; c = ps_c s;
              done = Some (Inr (l, if \<not> ps_got s \<and> c_aw c = [] \<and> c_rd c = [] \<and> c_arr c = [] then N0 else NCmd c))
          in if lx_tk l = T_WORD then p_sword K P s
             else if r_kind (lx_tk l) \<noteq> None then
               p_redir K l \<bind> (\<lambda>(l1, r).
                 let c1 = c\<lparr>c_rd := c_rd c @ r\<rparr>; s1 = s\<lparr>ps_l := l1, ps_c := c1\<rparr>
                 in Some (if lx_err l1 then
                            Inr (l1, if \<not> ps_got s \<and> c_aw c1 = [] \<and> c_rd c1 = [] \<and> c_arr c1 = [] then N0 else NCmd c1)
                          else Inl s1))
             else done) \<lparr>ps_l = l, ps_c = c, ps_got = False, ps_cmd0 = None\<rparr>)"

subsection \<open>Compound commands\<close>

definition p_if :: "lxk \<Rightarrow> prk \<Rightarrow> lex \<Rightarrow> (lex \<times> node) option" where
  "p_if K P l0 =
    (let (l, ln) = lx_line l0 in
     lx_next K l \<bind> p_body P \<bind> (\<lambda>(l1, a).
     if \<not> kw l1 ''then'' then Some (perr l1, NIf ln [] a N0 N0)
     else
       lx_next K l1 \<bind> p_body P \<bind> (\<lambda>(l2, b).
       if kw l2 ''elif'' then pk_if P l2 \<bind> (\<lambda>(l3, c). Some (l3, NIf ln [] a b c))
       else
         (if kw l2 ''else'' then lx_next K l2 \<bind> p_body P else Some (l2, N0)) \<bind> (\<lambda>(l3, c).
         p_want K ''fi'' l3 \<bind> (\<lambda>l4. Some (l4, NIf ln [] a b c))))))"

text \<open>\<open>do list done\<close>.\<close>

definition p_do :: "lxk \<Rightarrow> prk \<Rightarrow> lex \<Rightarrow> (lex \<times> node) option" where
  "p_do K P l =
    (if \<not> kw l ''do'' then Some (perr l, N0)
     else lx_next K l \<bind> p_body P \<bind> (\<lambda>(l1, b). p_want K ''done'' l1 \<bind> (\<lambda>l2. Some (l2, b))))"

definition p_while :: "lxk \<Rightarrow> prk \<Rightarrow> lex \<Rightarrow> (lex \<times> node) option" where
  "p_while K P l0 =
    (let (l, ln) = lx_line l0; u = kw l0 ''until'' in
     lx_next K l \<bind> p_body P \<bind> (\<lambda>(l1, a). p_do K P l1 \<bind> (\<lambda>(l2, b). Some (l2, NLoop u ln [] a b))))"

definition p_litw :: "string \<Rightarrow> wd" where
  "p_litw t = [Part P_TXT t 0 1 False False [] []]"

text \<open>The parts between the semicolons of a \<open>for ((\<dots>))\<close>, \<open>d\<close> parentheses deep.\<close>

fun p_semis :: "int \<Rightarrow> string \<Rightarrow> string \<Rightarrow> string list" where
  "p_semis d b [] = [b]"
| "p_semis d b (c # q) =
    (let d1 = (if c = CHR ''('' then d + 1 else if c = CHR '')'' then d - 1 else d)
     in if c = CHR '';'' \<and> d1 = 0 then b # p_semis d1 [] q else p_semis d1 (b @ [c]) q)"

text \<open>Semicolons and newlines before the body of a loop, and the body in braces or between \<open>do\<close> and \<open>done\<close>.\<close>

definition p_semi :: "lxk \<Rightarrow> lex \<Rightarrow> lex option" where
  "p_semi K l =
    tokens l (\<lambda>l. if lx_tk l = T_SEMI \<or> lx_tk l = T_NL then lx_next K l \<bind> (\<lambda>l1. Some (Inl l1)) else Some (Inr l)) l"

definition p_loopbody :: "lxk \<Rightarrow> prk \<Rightarrow> lex \<Rightarrow> (lex \<times> node) option" where
  "p_loopbody K P l = p_semi K l \<bind> (\<lambda>l1. if kw l1 ''{'' then pk_cmd P l1 else p_do K P l1)"

definition p_cfor :: "lxk \<Rightarrow> prk \<Rightarrow> lex \<Rightarrow> (lex \<times> node) option" where
  "p_cfor K P l0 =
    (let (l, ln) = lx_line l0; t = (case lx_w l0 of Some (p # ps) \<Rightarrow> pt p | _ \<Rightarrow> []) in
     case map p_litw (p_semis 0 [] (takeWhile (\<lambda>c. c \<noteq> NUL) t)) of
       [[i], [c], [s]] \<Rightarrow>
         lx_next K l \<bind> p_loopbody K P \<bind> (\<lambda>(l1, b). Some (l1, NCfor ln [] (Some i) (Some c) (Some s) b))
     | _ \<Rightarrow> Some (perr l, NCfor ln [] None None None N0))"

definition p_opw :: "string \<Rightarrow> wd" where
  "p_opw t = [Part P_TXT t (-1) 1 False False [] []]"

definition cond_op :: "nat \<Rightarrow> string option" where
  "cond_op tk = map_of [(T_AND, ''&&''), (T_OR, ''||''), (T_LP, ''(''), (T_RP, '')''), (T_LT, ''<''), (T_GT, ''>'')] tk"

text \<open>The right side of \<open>=~\<close>, read whole.\<close>

definition p_regex :: "lxk \<Rightarrow> lex \<Rightarrow> (lex \<times> wd option) option" where
  "p_regex K l =
    (let b = dropWhile blank (lx_p l); e = p_balw 0 b; t = upto_pos b e
     in if CHR ''$'' \<in> set t \<or> SQ \<in> set t \<or> DQ \<in> set t then
          lx_sub K 0 t l \<bind> (\<lambda>(l1, w). Some (
            case w of None \<Rightarrow> (if \<not> lx_err l1 \<and> \<not> lx_more l1 then perr l1 else l1, None) | Some v \<Rightarrow> (l1\<lparr>lx_p := e\<rparr>, Some v)))
        else Some (l\<lparr>lx_p := e\<rparr>, Some [Part P_TXT t (-2) 1 False False [] []]))"

definition p_cond :: "lxk \<Rightarrow> lex \<Rightarrow> (lex \<times> node) option" where
  "p_cond K l0 =
    (let (l, ln) = lx_line l0 in
     lx_next K l \<bind> (\<lambda>l1. tokens l1 (\<lambda>(l, ws).
       p_nl K l \<bind> (\<lambda>l2.
       if kw l2 '']]'' then lx_next K l2 \<bind> (\<lambda>l3. Some (Inr (l3, NCond ln [] ws)))
       else
         case (case cond_op (lx_tk l2) of Some t \<Rightarrow> Some (p_opw t) | None \<Rightarrow> if lx_tk l2 = T_WORD then lx_w l2 else None) of
           None \<Rightarrow> Some (Inr (perr l2, NCond ln [] ws))
         | Some w \<Rightarrow>
             if lx_tk l2 = T_WORD \<and> w_lit (Some w) = Some ''=~'' then
               p_regex K l2 \<bind> (\<lambda>(l3, v). case v of
                 None \<Rightarrow> Some (Inr (l3, NCond ln [] (ws @ [w])))
               | Some u \<Rightarrow> lx_next K l3 \<bind> (\<lambda>l4. Some (Inl (l4, ws @ [w, u]))))
             else lx_next K l2 \<bind> (\<lambda>l3. Some (Inl (l3, ws @ [w]))))) (l1, [])))"

text \<open>The words of a token list up to one that is no word.\<close>

definition p_words :: "lxk \<Rightarrow> lex \<Rightarrow> (lex \<times> wd list) option" where
  "p_words K l =
    tokens l (\<lambda>(l, ws). if lx_tk l = T_WORD then lx_next K l \<bind> (\<lambda>l1. Some (Inl (l1, ws @ [the (lx_w l)])))
      else Some (Inr (l, ws))) (l, [])"

definition p_for :: "lxk \<Rightarrow> prk \<Rightarrow> lex \<Rightarrow> (lex \<times> node) option" where
  "p_for K P l0 =
    (let (l, ln) = lx_line l0; sel = kw l0 ''select'';
         mk = (\<lambda>v ws b. if sel then NSelect ln [] v ws b else NFor ln [] v ws b) in
     lx_next K l \<bind> (\<lambda>l1.
     if \<not> sel \<and> lx_tk l1 = T_ARITH then p_cfor K P l1
     else
       case (if lx_tk l1 = T_WORD then w_lit (lx_w l1) else None) of
         None \<Rightarrow> Some (perr l1, mk [] None N0)
       | Some v \<Rightarrow>
           if \<not> isname v then Some (perr l1, mk v None N0)
           else
             lx_next K l1 \<bind> (\<lambda>l2.
             (if kw l2 ''in'' then lx_next K l2 \<bind> p_words K \<bind> (\<lambda>(l3, ws). Some (l3, Some ws)) else Some (l2, None)) \<bind> (\<lambda>(l3, ws).
             p_loopbody K P l3 \<bind> (\<lambda>(l4, b). Some (l4, mk v ws b))))))"

subsection \<open>Functions\<close>

text \<open>The default of a parameter, to a comma outside quotes and parentheses.\<close>

function p_default :: "int \<Rightarrow> string \<Rightarrow> string" where
  "p_default d p =
    (case p of
       [] \<Rightarrow> []
     | x # r \<Rightarrow>
         if x = SQ \<or> x = DQ then p_default d (drop 1 (dropWhile (\<lambda>c. c \<noteq> x) r))
         else
           let d1 = (if x = CHR ''('' then d + 1 else if x = CHR '')'' then d - 1 else d)
           in if x = CHR '','' \<and> d1 = 0 then p else p_default d1 r)"
  by pat_completeness auto
termination
proof (relation "measure (\<lambda>(d, p). length p)", goal_cases)
  case (2 d p x r)
  then show ?case using length_dropWhile_le [of "\<lambda>c. c \<noteq> x" r] by simp
qed auto

declare p_default.simps [simp del]

definition p_param :: "lxk \<Rightarrow> lex \<Rightarrow> string \<Rightarrow> (lex \<times> (param \<times> string) option) option" where
  "p_param K l p0 =
    (let p = dropWhile (\<lambda>c. blank c \<or> c = CHR '','' \<or> c = NL) p0 in
     if p = [] then Some (l, None)
     else
       let rest = (at p 0 = CHR ''.'' \<and> at p 1 = CHR ''.'' \<and> at p 2 = CHR ''.''); b = (if rest then drop 3 p else p);
           e = dropWhile idch b; e1 = (if at e 0 = CHR ''?'' then drop 1 e else e); t = upto_pos b e1; q = dropWhile blank e1;
           two = idch (at q 0);
           nm = (if two then takeWhile idch q else t); q1 = (if two then dropWhile idch q else q);
           f = (if rest then 1 else 0); pm = \<lparr>pm_nm = nm, pm_f = (if two then f OR ty_code t else f), pm_w = None, pm_tx = (if two then t else [])\<rparr>;
           q2 = dropWhile blank q1
       in if at q2 0 = CHR ''='' then
            (let d = dropWhile blank (drop 1 q2); z = p_default 0 d
             in lx_sub K 0 (upto_pos d z) l \<bind> (\<lambda>(l1, w).
                  Some (l1, Some (pm\<lparr>pm_w := w\<rparr>, dropWhile (\<lambda>c. blank c \<or> c = CHR '','') z))))
          else Some (l, Some (pm, dropWhile (\<lambda>c. blank c \<or> c = CHR '','') q2)))"

definition p_function :: "lxk \<Rightarrow> prk \<Rightarrow> lex \<Rightarrow> (lex \<times> node) option" where
  "p_function K P l0 =
    (let (l, ln) = lx_line l0 in
     lx_next K l \<bind> (\<lambda>l1.
     case (if lx_tk l1 = T_WORD then w_lit (lx_w l1) else None) of
       None \<Rightarrow> Some (perr l1, NFunc (Fn [] ln False [] None N0))
     | Some nm \<Rightarrow>
         if nm = [] then Some (perr l1, NFunc (Fn [] ln False [] None N0))
         else
           lx_next K l1 \<bind> (\<lambda>l2.
           (if lx_tk l2 = T_LP then
              lx_next K l2 \<bind> (\<lambda>l3. if lx_tk l3 \<noteq> T_RP then Some (perr l3, False) else lx_next K l3 \<bind> (\<lambda>l4. Some (l4, True)))
            else Some (l2, True)) \<bind> (\<lambda>(l3, ok).
           if \<not> ok then Some (l3, NFunc (Fn nm ln False [] None N0))
           else
             p_nl K l3 \<bind> pk_cmd P \<bind> (\<lambda>(l4, b). Some (l4\<lparr>lx_keep := True\<rparr>, NFunc (Fn nm ln False [] None b)))))))"

text \<open>The parameters of a signature; false after one that cannot be.\<close>

definition p_params :: "lxk \<Rightarrow> lex \<Rightarrow> string \<Rightarrow> (lex \<times> param list \<times> bool) option" where
  "p_params K l sig =
    iter (Suc (length sig)) (\<lambda>(l, p, ps).
      if p = [] then Some (Inr (l, ps, True))
      else
        p_param K (fst (lx_line l)) p \<bind> (\<lambda>(l1, x).
        Some (case x of
                None \<Rightarrow> Inr (l1, ps, True)
              | Some (pm, q) \<Rightarrow> if pm_nm pm = [] then Inr (perr l1, ps, False) else Inl (l1, q, ps @ [pm])))) (l, sig, [])"

definition p_fn :: "lxk \<Rightarrow> prk \<Rightarrow> lex \<Rightarrow> (lex \<times> node) option" where
  "p_fn K P l0 =
    (let (l, ln) = lx_line l0; fn = (\<lambda>nm ps rt b. NFunc (Fn nm ln True ps rt b)) in
     lx_next K l \<bind> (\<lambda>l1.
     case (if lx_tk l1 = T_WORD then w_lit (lx_w l1) else None) of
       None \<Rightarrow> Some (perr l1, fn [] [] None N0)
     | Some nm \<Rightarrow>
         if \<not> isname nm then Some (perr l1, fn [] [] None N0)
         else
           lx_next K l1 \<bind> (\<lambda>l2.
           if lx_tk l2 \<noteq> T_LP then Some (perr l2, fn nm [] None N0)
           else
             (case lx_span l2 of
                (l3, None) \<Rightarrow> Some (perr l3, fn nm [] None N0)
              | (l3, Some sig) \<Rightarrow>
                  let (l4, rt) = lx_arrow l3 in
                  lx_next K l4 \<bind> p_nl K \<bind> (\<lambda>l5.
                  p_params K l5 sig \<bind> (\<lambda>(l6, ps, ok).
                  if \<not> ok then Some (l6, fn nm ps rt N0)
                  else pk_cmd P l6 \<bind> (\<lambda>(l7, b). Some (l7\<lparr>lx_keep := True\<rparr>, fn nm ps rt b))))))))"

subsection \<open>\<open>case\<close>\<close>

text \<open>The patterns of a clause.\<close>

definition p_pats :: "lxk \<Rightarrow> lex \<Rightarrow> (lex \<times> wd list option) option" where
  "p_pats K l =
    tokens l (\<lambda>(l, ws).
      if lx_tk l \<noteq> T_WORD then Some (Inr (perr l, None))
      else
        let ws1 = ws @ [the (lx_w l)] in
        lx_next K l \<bind> (\<lambda>l1.
        if lx_tk l1 \<noteq> T_PIPE then Some (Inr (l1, Some ws1))
        else lx_next K l1 \<bind> (\<lambda>l2. Some (Inl (l2, ws1))))) (l, [])"

definition p_clause :: "lxk \<Rightarrow> prk \<Rightarrow> lex \<Rightarrow> (lex \<times> (wd list \<times> nat \<times> node) option) option" where
  "p_clause K P l =
    (if lx_tk l = T_LP then lx_next K l else Some l) \<bind> p_pats K \<bind> (\<lambda>(l1, pats).
    case pats of
      None \<Rightarrow> Some (l1, None)
    | Some ws \<Rightarrow>
        if lx_tk l1 \<noteq> T_RP then Some (perr l1, None)
        else
          lx_next K l1 \<bind> pk_list P \<bind> (\<lambda>(l2, b).
          case map_of [(T_DSEMI, 0), (T_SEMIAMP, 1), (T_DSEMIAMP, 2)] (lx_tk l2) of
            Some f \<Rightarrow> lx_next K l2 \<bind> p_nl K \<bind> (\<lambda>l3. Some (l3, Some (ws, f, b)))
          | None \<Rightarrow>
              if \<not> kw l2 ''esac'' then Some (perr l2, None)
              else p_nl K l2 \<bind> (\<lambda>l3. Some (l3, Some (ws, 0, b)))))"

definition p_case :: "lxk \<Rightarrow> prk \<Rightarrow> lex \<Rightarrow> (lex \<times> node) option" where
  "p_case K P l0 =
    (let (l, ln) = lx_line l0 in
     lx_next K l \<bind> (\<lambda>l1.
     case (if lx_tk l1 = T_WORD then lx_w l1 else None) of
       None \<Rightarrow> Some (perr l1, NCase ln [] [] [])
     | Some w \<Rightarrow>
         lx_next K l1 \<bind> p_nl K \<bind> (\<lambda>l2.
         if \<not> kw l2 ''in'' then Some (perr l2, NCase ln [] w [])
         else
           lx_next K l2 \<bind> p_nl K \<bind> (\<lambda>l3.
           tokens l3 (\<lambda>(l, cs).
             if kw l ''esac'' then lx_next K l \<bind> (\<lambda>l4. Some (Inr (l4, NCase ln [] w cs)))
             else if lx_tk l = T_EOF then Some (Inr (perr l, NCase ln [] w cs))
             else p_clause K P (fst (lx_line l)) \<bind> (\<lambda>(l4, c). Some (case c of
               None \<Rightarrow> Inr (l4, NCase ln [] w cs) | Some c \<Rightarrow> Inl (l4, cs @ [c])))) (l3, [])))))"

subsection \<open>Commands\<close>

definition p_cmd2 :: "lxk \<Rightarrow> prk \<Rightarrow> lex \<Rightarrow> (lex \<times> node) option" where
  "p_cmd2 K P l =
    (if lx_tk l = T_LP then
       lx_next K l \<bind> (\<lambda>l1. let (l2, ln) = lx_line l1 in
       p_body P l2 \<bind> (\<lambda>(l3, b). (if lx_tk l3 \<noteq> T_RP then Some (perr l3) else lx_next K l3) \<bind> (\<lambda>l4. p_rtail K (l4, NSub ln [] b))))
     else if kw l ''{'' then
       lx_next K l \<bind> (\<lambda>l1. let (l2, ln) = lx_line l1 in
       p_body P l2 \<bind> (\<lambda>(l3, b). p_want K ''}'' l3 \<bind> (\<lambda>l4. p_rtail K (l4, NGrp ln [] b))))
     else if kw l ''if'' then p_if K P l \<bind> p_rtail K
     else if kw l ''while'' \<or> kw l ''until'' then p_while K P l \<bind> p_rtail K
     else if kw l ''for'' \<or> kw l ''select'' then p_for K P l \<bind> p_rtail K
     else if lx_tk l = T_ARITH then
       (let (l1, ln) = lx_line l in
        lx_next K l1 \<bind> (\<lambda>l2. p_rtail K (l2, NArith ln [] (hd (the (lx_w l))))))
     else if kw l ''[['' then p_cond K l \<bind> p_rtail K
     else if kw l ''case'' then p_case K P l \<bind> p_rtail K
     else if kw l ''fn'' then p_fn K P l
     else if kw l ''function'' then p_function K P l
     else p_simple K P l)"

definition p_cmd :: "lxk \<Rightarrow> prk \<Rightarrow> lex \<Rightarrow> (lex \<times> node) option" where
  "p_cmd K P l =
    (if lx_depth l + 1 > LX_DEPTH then Some (perr l, N0)
     else p_cmd2 K P (l\<lparr>lx_depth := lx_depth l + 1\<rparr>) \<bind> (\<lambda>(l1, n). Some (l1\<lparr>lx_depth := lx_depth l1 - 1\<rparr>, n)))"

subsection \<open>Pipelines and lists\<close>

text \<open>A word in front of a pipeline: \<open>!\<close>, or \<open>time\<close> with its line and whether an option followed.\<close>

datatype pfx = PNot | PTime nat bool

definition pfx_node :: "pfx \<Rightarrow> node \<Rightarrow> node" where
  "pfx_node x n = (case x of PNot \<Rightarrow> NNot n | PTime ln f \<Rightarrow> NTime ln f n)"

definition p_flag :: "lxk \<Rightarrow> string \<Rightarrow> lex \<times> bool \<Rightarrow> (lex \<times> bool) option" where
  "p_flag K t x = (case x of (l, f) \<Rightarrow> if kw l t then lx_next K l \<bind> (\<lambda>l1. Some (l1, True)) else Some (l, f))"

definition p_pfx :: "lxk \<Rightarrow> lex \<Rightarrow> (lex \<times> pfx list \<times> nat) option" where
  "p_pfx K l =
    tokens l (\<lambda>(l, xs, np).
      let tm = kw l ''time'' in
      if \<not> kw l ''!'' \<and> \<not> tm then Some (Inr (l, xs, np))
      else if tm \<and> xs \<noteq> [] \<and> last xs \<noteq> PNot then lx_next K l \<bind> (\<lambda>l1. Some (Inl (l1, xs, np)))
      else
        let l1 = l\<lparr>lx_depth := lx_depth l + 1\<rparr> in
        if lx_depth l1 > LX_DEPTH then Some (Inr (perr l1, xs, np + 1))
        else
          let (l2, ln) = lx_line l1 in
          lx_next K l2 \<bind> (\<lambda>l3.
          if tm then p_flag K ''-p'' (l3, False) \<bind> p_flag K ''--'' \<bind> (\<lambda>(l4, f). Some (Inl (l4, xs @ [PTime ln f], np + 1)))
          else Some (Inl (l3, xs @ [PNot], np + 1)))) (l, [], 0)"

text \<open>The stages after the first one.\<close>

definition p_stages :: "lxk \<Rightarrow> prk \<Rightarrow> lex \<times> node \<Rightarrow> (lex \<times> node) option" where
  "p_stages K P x =
    tokens (fst x) (\<lambda>(l, n).
      if n = N0 \<or> lx_tk l \<noteq> T_PIPE \<and> lx_tk l \<noteq> T_PIPEAMP then Some (Inr (l, n))
      else
        let n1 = (if lx_tk l = T_PIPEAMP then p_errpipe n else n) in
        lx_next K l \<bind> p_nl K \<bind> (\<lambda>l1. let (l2, ln) = lx_line l1 in
        pk_cmd P l2 \<bind> (\<lambda>(l3, r).
        Some (if r = N0 then Inr (perr l3, NPipe ln [] n1 N0) else Inl (l3, NPipe ln [] n1 r))))) x"

definition p_pipe :: "lxk \<Rightarrow> prk \<Rightarrow> lex \<Rightarrow> (lex \<times> node) option" where
  "p_pipe K P l =
    (if lx_tk l = T_WORD then p_pfx K l else Some (l, [], 0)) \<bind> (\<lambda>(l1, xs, np).
     let l2 = l1\<lparr>lx_depth := lx_depth l1 - np\<rparr> in
     if lx_tk l = T_WORD \<and> lx_err l2 then Some (l2, N0)
     else
       pk_cmd P l2 \<bind> p_stages K P \<bind> (\<lambda>(l3, n).
       Some (l3, if xs = [] then n
                 else if n = N0 \<and> (hd xs = PNot \<or> length xs \<noteq> 1) then N0
                 else foldr pfx_node xs n)))"

definition is_cmd_or_fn :: "node \<Rightarrow> bool" where
  "is_cmd_or_fn n = (case n of NCmd c \<Rightarrow> True | NFunc f \<Rightarrow> True | _ \<Rightarrow> False)"

definition p_keeptx :: "lex \<Rightarrow> node \<Rightarrow> bool" where
  "p_keeptx l n \<longleftrightarrow> is_cmd_or_fn n \<or> lx_tk l = T_AMP \<or> lx_it l"

definition set_tx :: "string \<Rightarrow> node \<Rightarrow> node" where
  "set_tx t n = (case n of NCmd c \<Rightarrow> NCmd (c\<lparr>c_tx := t\<rparr>) | NPipe ln x l r \<Rightarrow> NPipe ln t l r | _ \<Rightarrow> n)"

text \<open>The node and its text, empty where none is kept.\<close>

definition p_andor :: "lxk \<Rightarrow> prk \<Rightarrow> lex \<Rightarrow> (lex \<times> node \<times> string) option" where
  "p_andor K P l =
    p_pipe K P l \<bind> (\<lambda>x. tokens l (\<lambda>(l, n).
      if n = N0 \<or> lx_tk l \<noteq> T_AND \<and> lx_tk l \<noteq> T_OR then Some (Inr (l, n))
      else
        let mk = (if lx_tk l = T_AND then NAnd n else NOr n) in
        lx_next K l \<bind> p_nl K \<bind> (\<lambda>l1.
        p_pipe K P (fst (lx_line l1)) \<bind> (\<lambda>(l2, r).
        Some (if r = N0 then Inr (perr l2, mk N0) else Inl (l2, mk r))))) x) \<bind> (\<lambda>(l1, n).
    let b = (case lx_tkb l of Some b \<Rightarrow> b | None \<Rightarrow> []); e = (case lx_tkb l1 of Some e \<Rightarrow> e | None \<Rightarrow> []);
        t = rev (dropWhile (\<lambda>c. blank c \<or> c = NL) (rev (upto_pos b e)))
    in Some (if n \<noteq> N0 \<and> p_keeptx l1 n then (l1, set_tx t n, t) else (l1, n, [])))"

text \<open>\<open>p_seq\<close>: the commands of a list, leaning right.\<close>

fun p_seqs :: "node list \<Rightarrow> node" where
  "p_seqs [] = N0"
| "p_seqs [n] = n"
| "p_seqs (n # ns) = NSeq n (p_seqs ns)"

text \<open>One and-or list and the \<open>&\<close>, \<open>;\<close> or newline after it; false where the list ends there.\<close>

definition p_item :: "lxk \<Rightarrow> prk \<Rightarrow> bool \<Rightarrow> lex \<Rightarrow> (lex \<times> node \<times> bool) option" where
  "p_item K P nl l =
    p_andor K P l \<bind> (\<lambda>(l1, r, tx).
    if r = N0 then Some (l1, N0, False)
    else if lx_tk l1 = T_AMP then lx_next K (fst (lx_line l1)) \<bind> (\<lambda>l2. Some (l2, NBg tx r, True))
    else if lx_tk l1 = T_SEMI \<or> nl \<and> lx_tk l1 = T_NL then lx_next K l1 \<bind> (\<lambda>l2. Some (l2, r, True))
    else Some (l1, r, False))"

definition p_list :: "lxk \<Rightarrow> prk \<Rightarrow> lex \<Rightarrow> (lex \<times> node) option" where
  "p_list K P l =
    p_nl K l \<bind> (\<lambda>l0.
    if p_end l0 then Some (l0, N0)
    else
      tokens l0 (\<lambda>(l, ns).
        p_item K P True l \<bind> (\<lambda>(l1, r, more).
        if r = N0 then Some (Inr (l1, p_seqs ns))
        else if \<not> more then Some (Inr (l1, p_seqs (ns @ [r])))
        else p_nl K l1 \<bind> (\<lambda>l2. Some (if lx_err l2 \<or> p_end l2 then Inr (l2, p_seqs (ns @ [r])) else Inl (l2, ns @ [r]))))) (l0, []))"

definition p_line :: "lxk \<Rightarrow> prk \<Rightarrow> lex \<Rightarrow> (lex \<times> node) option" where
  "p_line K P l =
    tokens l (\<lambda>(l, ns).
      if p_end l then Some (Inr (l, p_seqs ns))
      else
        p_item K P False l \<bind> (\<lambda>(l1, r, more). Some (
        if r = N0 then Inr (l1, p_seqs ns)
        else if \<not> more \<or> lx_err l1 \<or> lx_tk l1 = T_NL \<or> lx_tk l1 = T_EOF then Inr (l1, p_seqs (ns @ [r]))
        else Inl (l1, ns @ [r])))) (l, []) \<bind> (\<lambda>(l1, n).
    Some (if \<not> lx_err l1 \<and> \<not> lx_more l1 \<and> lx_tk l1 \<noteq> T_NL \<and> lx_tk l1 \<noteq> T_EOF then perr l1 else l1, n))"

subsection \<open>The knot\<close>

text \<open>With fuel \<open>n\<close> calls are nested at most \<open>n\<close> deep.\<close>

primrec p_ev :: "nat \<Rightarrow> lxk \<times> prk" where
  "p_ev 0 = (\<lparr>lk_word = \<lambda>lit l. None, lk_list = \<lambda>l. None\<rparr>, \<lparr>pk_list = \<lambda>l. None, pk_cmd = \<lambda>l. None, pk_if = \<lambda>l. None\<rparr>)"
| "p_ev (Suc n) =
    (let (K, P) = p_ev n in
     (\<lparr>lk_word = lx_word K, lk_list = \<lambda>l. lx_next K l \<bind> p_list K P \<bind> (\<lambda>(l1, x). Some l1)\<rparr>,
      \<lparr>pk_list = p_list K P, pk_cmd = p_cmd K P, pk_if = p_if K P\<rparr>))"

text \<open>The body of a here-document in the place of its number, through the tree.\<close>

definition hd_rd :: "(nat \<times> wd) list \<Rightarrow> redir \<Rightarrow> redir" where
  "hd_rd h r =
    (case rd_w r of
       [p] \<Rightarrow> if pk p = 9 then r\<lparr>rd_w := (case map_of h (nat (pop p)) of None \<Rightarrow> [] | Some w \<Rightarrow> w)\<rparr> else r
     | _ \<Rightarrow> r)"

primrec hd_fill :: "(nat \<times> wd) list \<Rightarrow> node \<Rightarrow> node" and hd_fn :: "(nat \<times> wd) list \<Rightarrow> fn \<Rightarrow> fn" where
  "hd_fill h N0 = N0"
| "hd_fill h (NCmd c) = NCmd (c\<lparr>c_rd := map (hd_rd h) (c_rd c)\<rparr>)"
| "hd_fill h (NPipe ln tx a b) = NPipe ln tx (hd_fill h a) (hd_fill h b)"
| "hd_fill h (NAnd a b) = NAnd (hd_fill h a) (hd_fill h b)"
| "hd_fill h (NOr a b) = NOr (hd_fill h a) (hd_fill h b)"
| "hd_fill h (NSeq a b) = NSeq (hd_fill h a) (hd_fill h b)"
| "hd_fill h (NBg tx a) = NBg tx (hd_fill h a)"
| "hd_fill h (NNot a) = NNot (hd_fill h a)"
| "hd_fill h (NSub ln rd a) = NSub ln (map (hd_rd h) rd) (hd_fill h a)"
| "hd_fill h (NGrp ln rd a) = NGrp ln (map (hd_rd h) rd) (hd_fill h a)"
| "hd_fill h (NIf ln rd a b c) = NIf ln (map (hd_rd h) rd) (hd_fill h a) (hd_fill h b) (hd_fill h c)"
| "hd_fill h (NLoop u ln rd a b) = NLoop u ln (map (hd_rd h) rd) (hd_fill h a) (hd_fill h b)"
| "hd_fill h (NFor ln rd v ws b) = NFor ln (map (hd_rd h) rd) v ws (hd_fill h b)"
| "hd_fill h (NSelect ln rd v ws b) = NSelect ln (map (hd_rd h) rd) v ws (hd_fill h b)"
| "hd_fill h (NCfor ln rd i c s b) = NCfor ln (map (hd_rd h) rd) i c s (hd_fill h b)"
| "hd_fill h (NCase ln rd w cs) = NCase ln (map (hd_rd h) rd) w (map (map_prod id (map_prod id (hd_fill h))) cs)"
| "hd_fill h (NArith ln rd p) = NArith ln (map (hd_rd h) rd) p"
| "hd_fill h (NCond ln rd ws) = NCond ln (map (hd_rd h) rd) ws"
| "hd_fill h (NFunc f) = NFunc (hd_fn h f)"
| "hd_fill h (NTime ln f a) = NTime ln f (hd_fill h a)"
| "hd_fn h (Fn nm ln ty ps rt b) = Fn nm ln ty ps rt (hd_fill h b)"

text \<open>\<open>hibr_parse\<close>: the shell after, the tree and whether more text is needed.\<close>

definition hibr_parse :: "nat \<Rightarrow> 'o exs \<Rightarrow> string \<Rightarrow> ('o exs \<times> node \<times> bool) option" where
  "hibr_parse f s src =
    (let (K, P) = p_ev f in
     lx_next K (lx_init (e_it s) (e_ln s) src) \<bind> p_nl K \<bind> (\<lambda>l.
     if lx_tk l = T_EOF \<and> \<not> lx_err l then Some (s, N0, False)
     else
       p_list K P l \<bind> (\<lambda>(l1, n).
       if lx_more l1 then Some (s, N0, True)
       else
         let l2 = (if \<not> lx_err l1 \<and> lx_tk l1 \<noteq> T_EOF then perr l1 else l1)
         in Some (if lx_err l2 then (with_st 2 s, N0, False) else (s, hd_fill (lx_bods l2) n, False)))))"

text \<open>A line of a script as \<open>sh_runx\<close> of src/main.c reads it.\<close>

definition parse_line :: "nat \<Rightarrow> 'o exs \<Rightarrow> string \<Rightarrow> pline option" where
  "parse_line f s src =
    (let (K, P) = p_ev f in
     lx_next K (lx_init (e_it s) (e_ln s) src) \<bind> p_nl K \<bind> (\<lambda>l.
     if lx_tk l = T_EOF \<and> \<not> lx_err l \<and> \<not> lx_more l then Some PEnd
     else
       p_line K P l \<bind> (\<lambda>(l1, n).
       Some (if lx_more l1 then PMore else if lx_err l1 then PErr
             else PLine (hd_fill (lx_bods l1) n) (lx_p l1) (lx_tk l1 = T_EOF)))))"

end
