(* ===== verification/LexLaws.thy ===== *)
theory LexLaws
  imports Lexer
begin

text \<open>
  What holds of every run of the lexer: it returns, reads on and changes only what it should. A call that has a
  result with some property is \<open>tot\<close>, which the monad's operations carry along; the calls the lexer makes of deeper
  ones are \<open>lk_good\<close> for texts shorter than \<open>m\<close>.
\<close>

subsection \<open>Results\<close>

definition tot :: "'a option \<Rightarrow> ('a \<Rightarrow> bool) \<Rightarrow> bool" where
  "tot x Q \<longleftrightarrow> (case x of None \<Rightarrow> False | Some r \<Rightarrow> Q r)"

lemma tot_simps [simp]:
  "tot (Some r) Q = Q r" "\<not> tot None Q" "tot (if b then x else y) Q = (if b then tot x Q else tot y Q)"
  by (auto simp: tot_def)

lemma tot_bind [simp]: "tot (x \<bind> f) Q = tot x (\<lambda>r. tot (f r) Q)"
  by (auto simp: tot_def split: option.splits bind_splits)

lemma tot_case_prod [simp]: "tot (case x of (a, b) \<Rightarrow> f a b) Q = (case x of (a, b) \<Rightarrow> tot (f a b) Q)"
  by (cases x) simp

lemma tot_mono: "tot x Q \<Longrightarrow> (\<And>r. Q r \<Longrightarrow> R r) \<Longrightarrow> tot x R"
  by (auto simp: tot_def split: option.splits)

lemma tot_iff: "tot x Q \<longleftrightarrow> (\<exists>r. x = Some r \<and> Q r)"
  by (auto simp: tot_def split: option.splits)

lemma tot_iter:
  assumes "\<And>s. I s \<Longrightarrow> tot (f s) (\<lambda>x. case x of Inl s1 \<Rightarrow> I s1 \<and> m s1 < (m s :: nat) | Inr r \<Rightarrow> Q r)" "I s" "m s < n"
  shows "tot (iter n f s) Q"
  using assms(2, 3)
proof (induction n arbitrary: s)
  case (Suc n)
  then show ?case using assms(1) [OF Suc.prems(1)] by simp (elim tot_mono, auto split: sum.splits)
qed simp

subsection \<open>What a call may change\<close>

definition lx_key :: "lex \<Rightarrow> lex" where
  "lx_key l = l\<lparr>lx_p := [], lx_more := False, lx_err := False\<rparr>"

abbreviation lx_upd :: "lex \<Rightarrow> lex \<Rightarrow> bool" where
  "lx_upd l l1 \<equiv> lx_key l1 = lx_key l"

lemma lx_key_simps [simp]:
  "lx_key (l\<lparr>lx_p := p\<rparr>) = lx_key l" "lx_key (l\<lparr>lx_more := m\<rparr>) = lx_key l" "lx_key (l\<lparr>lx_err := e\<rparr>) = lx_key l"
  "lx_key (lx_bad l) = lx_key l" "lx_key (lx_set_more l) = lx_key l"
  by (simp_all add: lx_key_def lx_bad_def lx_set_more_def)

lemma lx_p_flags [simp]: "lx_p (lx_bad l) = lx_p l" "lx_p (lx_set_more l) = lx_p l"
  by (simp_all add: lx_bad_def lx_set_more_def)

lemma lx_upd_sel:
  assumes "lx_upd l l1"
  shows "lx_depth l1 = lx_depth l" "lx_tkb l1 = lx_tkb l" "lx_hq l1 = lx_hq l" "lx_nb l1 = lx_nb l" "lx_tk l1 = lx_tk l"
proof -
  have k: "lx_depth (lx_key l) = lx_depth l" "lx_tkb (lx_key l) = lx_tkb l" "lx_hq (lx_key l) = lx_hq l"
    "lx_nb (lx_key l) = lx_nb l" "lx_tk (lx_key l) = lx_tk l" for l by (simp_all add: lx_key_def)
  show "lx_depth l1 = lx_depth l" "lx_tkb l1 = lx_tkb l" "lx_hq l1 = lx_hq l" "lx_nb l1 = lx_nb l" "lx_tk l1 = lx_tk l"
    using assms k by metis+
qed

subsection \<open>Substrings\<close>

definition lk_good :: "nat \<Rightarrow> lxk \<Rightarrow> bool" where
  "lk_good m K \<longleftrightarrow>
    (\<forall>lit l. length (lx_p l) < m \<longrightarrow> tot (lk_word K lit l) (\<lambda>x. True)) \<and>
    (\<forall>l. length (lx_p l) < m \<longrightarrow> tot (lk_list K l) (\<lambda>x. True))"

lemma lk_good_mono: "lk_good m K \<Longrightarrow> k \<le> m \<Longrightarrow> lk_good k K"
  by (auto simp: lk_good_def)

lemma length_upto_pos [simp]: "length (upto_pos b e) = length b - length e"
  by (simp add: upto_pos_def)

abbreviation quiet :: "lex \<Rightarrow> lex \<Rightarrow> bool" where
  "quiet l l1 \<equiv> lx_upd l l1 \<and> lx_p l1 = lx_p l"

lemma quiet_sub:
  assumes "lk_good m K" "length t < m" "quiet l0 l"
  shows "tot (lx_sub K lit t l) (\<lambda>(l1, w). quiet l0 l1)"
proof -
  have "tot (lk_word K lit (l\<lparr>lx_p := t, lx_nb := True\<rparr>)) (\<lambda>x. True)" using assms by (simp add: lk_good_def)
  then show ?thesis unfolding lx_sub_def tot_bind by (elim tot_mono) (use assms(3) in \<open>auto split: prod.split\<close>)
qed

lemma tot_if: "(b \<Longrightarrow> tot x Q) \<Longrightarrow> (\<not> b \<Longrightarrow> tot y Q) \<Longrightarrow> tot (if b then x else y) Q"
  by simp

lemma lx_close_less: "lx_close d p = Some r \<Longrightarrow> length r \<le> length p"
  by (metis lx_close_suffix suffix_length_le)

lemma quiet_subs:
  assumes "lk_good m K" "length q \<le> m"
  shows "tot (lx_subs K lit l ix q) (\<lambda>(l1, ix1, q1, bad). quiet l l1 \<and> length q1 \<le> length q)"
  using assms(1, 2)
proof (induction K lit l ix q rule: lx_subs.induct)
  case (1 K lit l ix q)
  show ?case
  proof (cases "at q 0 = CHR ''[''")
    case True
    then obtain s where q: "q = CHR ''['' # s" by (cases q) auto
    show ?thesis
    proof (cases "lx_close 1 s")
      case None
      then show ?thesis unfolding lx_subs.simps [of _ _ _ _ q] by (simp add: q)
    next
      case (Some r)
      have r: "length r \<le> length s" using Some lx_close_less by blast
      have "length (upto_pos s r) < m" using "1.prems"(2) q by simp
      from quiet_sub [OF "1.prems"(1) this, of l l lit] obtain l1 w where sub: "lx_sub K lit (upto_pos s r) l = Some (l1, w)" "quiet l l1"
        by (auto simp: tot_iff)
      have "tot (lx_subs K lit l1 (ix @ [case w of None \<Rightarrow> [] | Some v \<Rightarrow> v]) (drop 1 r))
          (\<lambda>(l2, ix1, q1, bad). quiet l1 l2 \<and> length q1 \<le> length (drop 1 r))"
        by (rule "1.IH") (use True Some q r "1.prems" sub in auto)
      then show ?thesis unfolding lx_subs.simps [of _ _ _ _ q] using Some True sub
        by (simp add: q) (elim tot_mono, use q r in auto)
    qed
  qed (simp add: lx_subs.simps [of _ _ _ _ q])
qed

lemma lx_slash_le: "length (lx_slash lit post r) \<le> length r"
proof (induction r rule: length_induct)
  case (1 r)
  show ?case
  proof (cases r)
    case (Cons x s)
    have ih: "length (lx_slash lit post ys) \<le> length r" if "length ys \<le> length s" for ys
      using "1.IH" that Cons by (meson impossible_Cons le_trans linorder_not_less nat_le_linear order_less_le_trans)
    have d: "length (drop 1 (dropWhile (\<lambda>c. c \<noteq> SQ) s)) \<le> length s" using length_dropWhile_le [of "\<lambda>c. c \<noteq> SQ" s] by simp
    have t: "length (case sk_to DQ s of None \<Rightarrow> [] | Some t \<Rightarrow> t) \<le> length s"
      using sk_to_suffix [THEN strict_suffix_less, of DQ s] by (auto split: option.split)
    define z where "z = (case sk_bal (drop 1 s @ post) (at s 0) (if at s 0 = CHR ''{'' then CHR ''}'' else CHR '')'') False of
                None \<Rightarrow> s
              | Some z \<Rightarrow> if length z > length post then drop (length s - (length z - length post) + 1) s else s)"
    have z: "length z \<le> length s" by (auto simp: z_def split: option.split)
    have "lx_slash lit post r \<in> {lx_slash lit post (drop 1 s), lx_slash lit post (case sk_to DQ s of None \<Rightarrow> [] | Some t \<Rightarrow> t),
      lx_slash lit post (drop 1 (dropWhile (\<lambda>c. c \<noteq> SQ) s)), lx_slash lit post z, r, lx_slash lit post s}"
      unfolding lx_slash.simps [of lit post r] z_def by (simp add: Cons)
    then show ?thesis using ih [OF d] ih [OF t] ih [OF z] ih [of s] ih [of "drop 1 s"] by auto
  qed (simp add: lx_slash.simps)
qed

lemma quiet_oper:
  assumes "lk_good m K" "length q < m" "quiet l0 l"
  shows "tot (lx_oper K lit l q post) (\<lambda>(l1, f, a). quiet l0 l1)"
proof -
  have r: "length (drop n q) < m" for n using assms(2) by simp
  have s: "tot (lx_sub K lit (drop n q) l) (\<lambda>(l1, w). quiet l0 l1)" for n lit by (rule quiet_sub [OF assms(1) r assms(3)])
  show ?thesis
  proof (cases "lx_op q")
    case None
    then show ?thesis unfolding lx_oper_def Let_def using assms(3) s
      by (auto split: option.splits)
  next
    case (Some a)
    obtain f n where a: "a = (f, n)" by fastforce
    have w: "tot (lx_sub K lit (upto_pos (drop n q) z) l) (\<lambda>(l1, w). (z = [] \<longrightarrow> quiet l0 l1) \<and>
        (z \<noteq> [] \<longrightarrow> tot (lx_sub K lit (drop (Suc 0) z) l1) (\<lambda>(l2, u). quiet l0 l2)))" if "z = lx_slash lt post (drop n q)" for z lt
    proof -
      have z: "length z \<le> length (drop n q)" unfolding that by (rule lx_slash_le)
      have "tot (lx_sub K lit (drop (Suc 0) z) l1) (\<lambda>(l2, u). quiet l0 l2)" if "quiet l0 l1" for l1
        by (rule quiet_sub [OF assms(1) _ that]) (use z assms(2) in simp)
      then show ?thesis
        by (intro tot_mono [OF quiet_sub [OF assms(1) _ assms(3)]]) (use assms(2) in \<open>auto simp: case_prod_unfold\<close>)
    qed
    show ?thesis unfolding lx_oper_def Let_def using assms(3) s w [OF refl]
      by (intro tot_if) (auto simp: Some a split: option.splits)
  qed
qed

lemma quiet_brace1:
  assumes "lk_good m K" "length t < m"
  shows "tot (lx_brace1 K quo lit l t post) (\<lambda>(l1, p). quiet l l1)"
proof -
  have q: "length (drop k (drop j t)) \<le> m" for k j using assms(2) by simp
  define b where "b = (if at t 0 = CHR ''#'' \<and> length t > 1 \<or> at t 0 = CHR ''!'' \<and> length t > 1 then drop 1 t else t)"
  define k where "k = (if length (takeWhile idch b) = 0 \<and> b \<noteq> [] then 1 else length (takeWhile idch b))"
  have "length (drop k b) \<le> length t" by (simp add: b_def)
  then have "length (drop k b) \<le> m" using assms(2) by simp
  from quiet_subs [OF assms(1) this, of lit l "[]"] obtain l1 ix r bad
    where s: "lx_subs K lit l [] (drop k b) = Some (l1, ix, r, bad)" "quiet l l1" "length r \<le> length (drop k b)"
    by (auto simp: tot_iff)
  have r: "length r < m" using s(3) assms(2) by (simp add: b_def split: if_splits)
  have op: "tot (lx_oper K lit l1 u post) (\<lambda>(l2, f, a). quiet l l2)" if "length u < m" for u
    by (rule quiet_oper [OF assms(1) that s(2)])
  have sub: "tot (lx_sub K lit u l1) (\<lambda>(l2, w). quiet l l2)" if "length u < m" for u
    by (rule quiet_sub [OF assms(1) that s(2)])
  note ops = op [OF r] op [of "drop 1 r"] sub [of "drop 1 r"]
  have "tot (lx_oper K lit l1 u post \<bind> (\<lambda>(l2, f, a). Some (l2, g f a))) (\<lambda>(l1, p). quiet l l1)" if "length u < m" for u g
    using op [OF that] by (simp add: case_prod_unfold)
  moreover have "tot (lx_sub K lit u l1 \<bind> (\<lambda>(l2, w). Some (l2, g w))) (\<lambda>(l1, p). quiet l l1)" if "length u < m" for u g
    using sub [OF that] by (simp add: case_prod_unfold)
  ultimately show ?thesis
    unfolding lx_brace1_def Let_def b_def [symmetric] k_def [symmetric] s(1) bind.bind_lunit prod.case
    by (intro tot_if) (use r s(2) in \<open>simp_all add: less_imp_diff_less\<close>)
qed

lemma quiet_brace:
  assumes "lk_good m K" "length t < m"
  shows "tot (lx_brace K quo l t post) (\<lambda>(l1, p). quiet l l1)"
  unfolding lx_brace_def Let_def tot_bind by (rule tot_mono [OF quiet_brace1 [OF assms]]) auto

subsection \<open>Substitutions\<close>

lemma sk_bal_suffix:
  assumes "sk_bal p o1 c dq = Some r"
  shows "suffix r p" "r \<noteq> []"
proof -
  have "suffix r p \<and> r \<noteq> []" if "sk_brc dq d p = Some r" for d using that
  proof (induction p arbitrary: d rule: length_induct)
    case (1 p)
    then obtain x s where p: "p = x # s" by (cases p) (auto simp: sk_brc.simps [of _ _ "[]"])
    have ih: "suffix r p \<and> r \<noteq> []" if "sk_brc dq e t = Some r" "strict_suffix t p" for e t
      using "1.IH" that strict_suffix_less [OF that(2)] suffix_order.order_trans suffix_order.less_imp_le by blast
    have s: "strict_suffix s p" unfolding p by (rule strict_suffix_Cons) simp
    show ?case
    proof (cases "sk_quo dq p")
      case None
      show ?thesis
      proof (cases "sk_brace p d")
        case None
        then show ?thesis using "1.prems" ih [OF _ s] \<open>sk_quo dq p = None\<close> unfolding sk_brc.simps [of _ _ p]
          by (auto simp: p split: if_splits)
      next
        case (Some y)
        then have "strict_suffix (fst y) p" using sk_brace_suffix [of p d "fst y" "snd y"] p by simp
        then show ?thesis using "1.prems" ih [OF _ s] ih [of _ "fst y"] \<open>sk_quo dq p = None\<close> Some unfolding sk_brc.simps [of _ _ p]
          by (auto simp: p case_prod_unfold split: if_splits)
      qed
    next
      case (Some q)
      then obtain t where t: "q = Some t" using "1.prems" unfolding sk_brc.simps [of _ _ p] by (auto simp: p split: option.splits)
      then show ?thesis using "1.prems" ih [of _ t] sk_quo_suffix [of dq p t] Some unfolding sk_brc.simps [of _ _ p] by (simp add: p)
    qed
  qed
  then show "suffix r p" "r \<noteq> []" using assms sk_par_suffix by (auto simp: sk_bal_def split: if_splits)
qed

lemma quiet_cmd:
  assumes "lk_good m K" "length p < m"
  shows "tot (sk_cmd K l p) (\<lambda>(l1, e). quiet l l1 \<and> (case e of None \<Rightarrow> True | Some r \<Rightarrow> suffix r p))"
proof -
  define t where "t = (lx_init (lx_it l) 1 p)\<lparr>lx_depth := Suc (lx_depth l), lx_keep := lx_keep l\<rparr>"
  define bal where "bal = (case sk_bal p (CHR ''('') (CHR '')'') False of None \<Rightarrow> (lx_set_more l, None) | Some e \<Rightarrow> (l, Some e))"
  have b: "case bal of (l1, e) \<Rightarrow> quiet l l1 \<and> (case e of None \<Rightarrow> True | Some r \<Rightarrow> suffix r p)"
    by (auto simp: bal_def sk_bal_suffix split: option.split)
  have "lx_p t = p" by (simp add: t_def lx_init_def)
  then have "tot (lk_list K t) (\<lambda>x. True)" using assms unfolding lk_good_def by metis
  then obtain u where u: "lk_list K t = Some u" by (auto simp: tot_iff)
  show ?thesis unfolding sk_cmd_def Let_def bal_def [symmetric] t_def [symmetric] u bind.bind_lunit
    by (intro tot_if) (use b in \<open>simp_all add: suffix_drop\<close>)
qed

text \<open>\<open>lx_dol\<close> takes at least the dollar.\<close>

lemma quiet_dol:
  assumes "lk_good m K" "length (lx_p l) \<le> m" "lx_p l \<noteq> []"
  shows "tot (lx_dol K q l) (\<lambda>(l1, x). lx_upd l l1 \<and> suffix (lx_p l1) (lx_p l) \<and> (x \<noteq> None \<longrightarrow> strict_suffix (lx_p l1) (lx_p l)))"
proof -
  obtain x b where p: "lx_p l = x # b" using assms(3) by (cases "lx_p l") auto
  have b: "length (drop 1 b) < m" "length b < m" using assms(2) p by auto
  have step: "suffix (drop n r) (x # b) \<and> strict_suffix (drop n r) (x # b)" if "suffix r b" for n r
  proof -
    have "suffix (drop n r) b" using that suffix_drop suffix_order.trans by blast
    then show ?thesis by (simp add: strict_suffix_Cons suffix_ConsI)
  qed
  show ?thesis
  proof (cases "x = BQ")
    case True
    then show ?thesis using sk_to_suffix [of BQ b] step [of _ 0]
      by (auto simp: lx_dol_def p strict_suffix_def split: option.split)
  next
    case False
    define r where "r = drop 1 b"
    have rb: "suffix r b" by (simp add: r_def suffix_drop)
    have bal: "suffix e b" if "sk_bal (drop k r) o1 c dq = Some e" for k o1 c dq e
      using sk_bal_suffix(1) [OF that] rb by (meson suffix_drop suffix_order.trans)
    have cmd: "tot (sk_cmd K (l\<lparr>lx_p := b\<rparr>) r) (\<lambda>(l1, e). lx_upd l l1 \<and> lx_p l1 = b \<and> (case e of None \<Rightarrow> True | Some e \<Rightarrow> suffix e b))"
      by (rule tot_mono [OF quiet_cmd [OF assms(1)]]) (use b r_def rb in \<open>auto split: option.splits intro: suffix_order.trans\<close>)
    have brace: "tot (lx_brace K q (l\<lparr>lx_p := b, lx_p := drop 1 e\<rparr>) (upto_pos r e) e) (\<lambda>(l1, x). lx_upd l l1 \<and> lx_p l1 = drop 1 e)" for e
      by (rule tot_mono [OF quiet_brace [OF assms(1)]]) (use b r_def in auto)
    have w: "suffix (dropWhile idch b) b" by (rule suffix_dropWhile)
    define Q where "Q = (\<lambda>(l1, x :: part option). lx_upd l l1 \<and> suffix (lx_p l1) (lx_p l) \<and> (x \<noteq> None \<longrightarrow> strict_suffix (lx_p l1) (lx_p l)))"
    have at_e: "Q (l1, y)" if "lx_upd l l1" "lx_p l1 = drop n e" "suffix e b" for l1 n e y
      using step [OF that(3), of n] that by (simp add: Q_def p)
    have fin: "Q (l1\<lparr>lx_p := drop n e\<rparr>, y)" if "suffix e b" "lx_upd l l1" for l1 n e y
      using step [OF that(1), of n] that(2) by (simp add: Q_def p)
    have none: "Q (l1, None)" if "lx_upd l l1" "lx_p l1 = b" for l1 using step [of b 0] that by (simp add: Q_def p)
    have d0: "drop 1 (x # b) = b" by simp
    have keep: "Q (l\<lparr>lx_p := b\<rparr>, y)" for y using fin [of b l 0] by simp
    have to: "Q (l\<lparr>lx_p := b, lx_p := drop k e\<rparr>, y)" if "suffix e b" for k e y using fin [OF that, of l k] by simp
    have ws: "Q (l\<lparr>lx_p := b, lx_p := dropWhile idch b\<rparr>, y)" for y using to [OF w, of 0] by simp
    have tb: "tot (case sk_bal r o1 c dq of None \<Rightarrow> Some (lx_set_more (l\<lparr>lx_p := b\<rparr>), None) | Some e \<Rightarrow> f e) Q"
      if "\<And>e. suffix e b \<Longrightarrow> tot (f e) Q" for o1 c dq f
      using that bal [of 0] none by (auto split: option.split)
    have "tot (sk_cmd K (l\<lparr>lx_p := b\<rparr>) r \<bind> (\<lambda>(l2, ee). Some (case ee of None \<Rightarrow> (l2, None)
        | Some e \<Rightarrow> (l2\<lparr>lx_p := drop 1 e\<rparr>, Some (f e))))) Q" for f
      unfolding tot_bind by (rule tot_mono [OF cmd]) (auto intro!: none fin split: option.splits)
    moreover have "tot (lx_brace K q (l\<lparr>lx_p := b, lx_p := drop 1 e\<rparr>) (upto_pos r e) e \<bind> (\<lambda>(l2, x). Some (l2, Some x))) Q"
      if "suffix e b" for e
      unfolding tot_bind by (rule tot_mono [OF brace]) (auto intro: at_e [OF _ _ that])
    moreover have "tot (Some (case sk_bal r o1 c dq of None \<Rightarrow> (lx_set_more (l\<lparr>lx_p := b\<rparr>), None)
        | Some e \<Rightarrow> (l\<lparr>lx_p := b, lx_p := drop 1 e\<rparr>, Some (f e)))) Q" for o1 c dq f
      using bal [of 0] none to by (auto split: option.split)
    moreover have "suffix (the (sk_bal r o1 c dq)) b" if "sk_bal r o1 c dq \<noteq> None" for o1 c dq using bal [of 0] that by auto
    ultimately have "tot (lx_dol K q l) Q"
      unfolding lx_dol_def Let_def p d0 r_def [symmetric]
      by (intro tot_if tb) (use False keep to ws rb to [of b 1] in \<open>simp_all add: r_def\<close>)
    then show ?thesis by (simp add: Q_def case_prod_unfold)
  qed
qed

subsection \<open>Words\<close>

lemma wb_frame [simp]:
  fixes w :: wst
  shows "ws_l (lx_flush w) = ws_l w" "ws_q (lx_flush w) = ws_q w" "ws_seen (lx_flush w) = ws_seen w" "ws_gd (lx_flush w) = ws_gd w"
    "ws_l (lx_ch q c w) = ws_l w" "ws_q (lx_ch q c w) = ws_q w" "ws_seen (lx_ch q c w) = ws_seen w" "ws_gd (lx_ch q c w) = ws_gd w"
    "ws_l (lx_push x w) = ws_l w" "ws_q (lx_push x w) = ws_q w" "ws_seen (lx_push x w) = ws_seen w"
    "wb_h (ws_to p w) = wb_h w" "ws_l (ws_to p w) = (ws_l w)\<lparr>lx_p := p\<rparr>" "ws_seen (ws_to p w) = ws_seen w" "ws_q (ws_to p w) = ws_q w"
    "ws_l (ws_more w) = lx_set_more (ws_l w)" "ws_seen (ws_more w) = ws_seen w" "ws_q (ws_more w) = ws_q w"
  by (simp_all add: lx_flush_def lx_ch_def lx_push_def ws_to_def ws_more_def Let_def)

lemma lx_chs_frame [simp]:
  fixes w :: wst
  shows "ws_l (lx_chs q t w) = ws_l w" "ws_q (lx_chs q t w) = ws_q w" "ws_seen (lx_chs q t w) = ws_seen w" "ws_gd (lx_chs q t w) = ws_gd w"
  unfolding lx_chs_def by (induction t arbitrary: w) simp_all

lemma lx_flush_idem [simp]: "lx_flush (lx_flush w) = lx_flush w"
  by (simp add: lx_flush_def)

lemma wb_h_flush [simp]:
  fixes w :: wst
  shows "wb_h (lx_flush (ws_more w)) = wb_h (lx_flush w)" "wb_h (lx_flush (w\<lparr>ws_l := l\<rparr>)) = wb_h (lx_flush w)"
    "wb_h (lx_flush (ws_to p w)) = wb_h (lx_flush w)"
  by (simp_all add: lx_flush_def ws_more_def ws_to_def)

abbreviation wp :: "wst \<Rightarrow> string" where
  "wp w \<equiv> lx_p (ws_l w)"

text \<open>What a round of the loop of \<open>lx_word\<close> does: it reads on, or leaves with nothing read and nothing new.\<close>

definition took :: "wst \<Rightarrow> wst \<Rightarrow> bool" where
  "took w w1 \<longleftrightarrow> lx_upd (ws_l w) (ws_l w1) \<and> strict_suffix (wp w1) (wp w)"

definition left_at :: "wst \<Rightarrow> wst \<Rightarrow> bool" where
  "left_at w w1 \<longleftrightarrow> took w w1 \<or>
    lx_upd (ws_l w) (ws_l w1) \<and> suffix (wp w1) (wp w) \<and> wb_h (lx_flush w1) = wb_h (lx_flush w) \<and> ws_seen w1 = ws_seen w"

definition step_ok :: "wst \<Rightarrow> wst + wst \<Rightarrow> bool" where
  "step_ok w x \<longleftrightarrow> (case x of Inl w1 \<Rightarrow> took w w1 | Inr w1 \<Rightarrow> left_at w w1)"

lemma step_simps [simp]: "step_ok w (Inl w1) = took w w1" "step_ok w (Inr w1) = left_at w w1"
  by (simp_all add: step_ok_def)

lemma lx_esc_suffix: "lx_esc p = (t, r) \<Longrightarrow> suffix r p"
proof -
  assume e: "lx_esc p = (t, r)"
  have "\<exists>n. r = drop n p"
    using e unfolding lx_esc_def lx_uni_def Let_def by (auto split: option.splits if_splits simp del: map_of.simps)
  then show ?thesis using suffix_drop by metis
qed

lemma lx_ansi_suffix: "suffix (snd (lx_ansi p)) p"
proof (induction p rule: length_induct)
  case (1 p)
  show ?case
  proof (cases p)
    case (Cons x r)
    obtain u r1 where e: "lx_esc r = (u, r1)" by fastforce
    have r: "suffix (snd (lx_ansi r)) p" using "1.IH" Cons by (simp add: suffix_ConsI)
    have r1: "suffix (snd (lx_ansi r1)) p" if "r \<noteq> []"
    proof -
      have "suffix r1 r" by (rule lx_esc_suffix [OF e])
      moreover have "length r1 < length p" using lx_esc_less [OF e that] Cons by simp
      ultimately show ?thesis using "1.IH" Cons by (meson suffix_ConsI suffix_order.trans)
    qed
    show ?thesis using r r1 unfolding lx_ansi.simps [of p] by (auto simp: Cons e case_prod_unfold Let_def)
  qed (simp add: lx_ansi.simps)
qed

lemma strict_drop:
  assumes "p \<noteq> []" "suffix r (drop (Suc n) p)"
  shows "strict_suffix r p"
proof -
  obtain x b where "p = x # b" using assms(1) by (cases p) auto
  moreover have "suffix r b" using assms(2) calculation suffix_drop suffix_order.trans by fastforce
  ultimately show ?thesis by (simp add: strict_suffix_Cons)
qed

lemma wrest_ok:
  assumes "lk_good m K" "length (wp w) \<le> m" "wp w \<noteq> []"
  shows "tot (lx_wrest K lit w) (step_ok w)"
proof -
  have d1: "strict_suffix (drop (Suc n) (wp w)) (wp w)" for n by (rule strict_drop [OF assms(3), of _ n]) simp
  have sd: "strict_suffix (drop k e) (wp w)" if "suffix e (drop (Suc n) (wp w))" for k e n
    using strict_drop [OF assms(3)] that suffix_drop suffix_order.trans by metis
  have sq: "step_ok w (lx_wsq w)"
    using sd [OF suffix_dropWhile, of 1 "\<lambda>c. c \<noteq> SQ" 0] by (auto simp: lx_wsq_def Let_def took_def left_at_def)
  have bs: "step_ok w (lx_wbs lit w)"
  proof (cases "drop 1 (wp w)")
    case Nil
    then show ?thesis using d1 [of 0] by (simp add: lx_wbs_def took_def left_at_def)
  next
    case (Cons c r)
    then have "strict_suffix r (wp w)" using sd [of "drop 1 (wp w)" 0 1] by simp
    then show ?thesis using Cons by (simp add: lx_wbs_def Let_def took_def)
  qed
  have an: "took w (lx_wansi w)"
    using sd [OF lx_ansi_suffix, of 1 1] by (auto simp: lx_wansi_def Let_def took_def case_prod_unfold numeral_2_eq_2)
  have dol: "tot (lx_dol K q (ws_l w)) (\<lambda>(l1, x). step_ok w (case x of None \<Rightarrow> Inr ((lx_flush w)\<lparr>ws_l := l1\<rparr>) | Some y \<Rightarrow> Inl (lx_push y ((lx_flush w)\<lparr>ws_l := l1\<rparr>))))" for q
    by (rule tot_mono [OF quiet_dol [OF assms]]) (auto simp: took_def left_at_def split: option.split)
  show ?thesis
    unfolding lx_wrest_def Let_def
    by (intro tot_if) (use d1 [of 0] sq bs an dol in \<open>simp_all add: took_def left_at_def case_prod_unfold\<close>)
qed

lemma wstep_ok:
  assumes "lk_good m K" "length (wp w) \<le> m"
  shows "tot (lx_wstep K lit w) (step_ok w)"
proof (cases "wp w = []")
  case True
  then show ?thesis by (simp add: lx_wstep_def left_at_def)
next
  case False
  have d2: "strict_suffix (drop 2 (wp w)) (wp w)" by (rule strict_drop [OF False, of _ 1]) (simp add: numeral_2_eq_2)
  have "step_ok (ws_more w) = step_ok w"
    by (intro ext) (auto simp: step_ok_def took_def left_at_def split: sum.splits)
  then have rest: "tot (lx_wrest K lit (ws_more w)) (step_ok w)" "tot (lx_wrest K lit w) (step_ok w)"
    using wrest_ok [OF assms False] wrest_ok [of m K "ws_more w"] assms False by simp_all
  have ps: "tot (lx_wpsub K w) (step_ok w)"
  proof -
    have "length (drop 2 (wp w)) < m" using assms(2) strict_suffix_less [OF d2] by simp
    from quiet_cmd [OF assms(1) this, of "(ws_l w)\<lparr>lx_p := drop 2 (wp w)\<rparr>"] obtain l1 e
      where c: "sk_cmd K ((ws_l w)\<lparr>lx_p := drop 2 (wp w)\<rparr>) (drop 2 (wp w)) = Some (l1, e)" "lx_upd (ws_l w) l1"
        "lx_p l1 = drop 2 (wp w)" "case e of None \<Rightarrow> True | Some r \<Rightarrow> suffix r (drop 2 (wp w))"
      by (auto simp: tot_iff)
    have "strict_suffix (drop 1 r) (wp w)" if "e = Some r" for r
    proof -
      have "suffix (drop 1 r) (drop 2 (wp w))" using c(4) that suffix_drop suffix_order.trans by fastforce
      then show ?thesis using d2 by (rule strict_suffix_mono)
    qed
    then show ?thesis using c d2 by (auto simp: lx_wpsub_def Let_def took_def left_at_def split: option.split)
  qed
  show ?thesis unfolding lx_wstep_def Let_def
    by (intro tot_if) (use rest ps d2 False in \<open>simp_all add: took_def left_at_def\<close>)
qed

text \<open>A word returns, reads on, and takes something where there is one.\<close>

lemma word_ok:
  assumes "lk_good m K" "length (lx_p l) \<le> m"
  shows "tot (lx_word K lit l) (\<lambda>(l1, w). lx_upd l l1 \<and> suffix (lx_p l1) (lx_p l) \<and> (w \<noteq> None \<longrightarrow> strict_suffix (lx_p l1) (lx_p l)))"
proof -
  define I where "I w \<longleftrightarrow> lx_upd l (ws_l w) \<and> suffix (wp w) (lx_p l) \<and>
    (strict_suffix (wp w) (lx_p l) \<or> wb_h (lx_flush w) = [] \<and> \<not> ws_seen w)" for w
  have "tot (iter (Suc (length (lx_p l))) (lx_wstep K lit)
      \<lparr>wb_h = [], wb_b = [], wb_q = 0, ws_l = l, ws_q = False, ws_seen = False, ws_gd = 0\<rparr>) I"
  proof (rule tot_iter [where I = I and m = "\<lambda>w. length (wp w)"])
    fix w
    assume i: "I w"
    then have "length (wp w) \<le> m" using assms(2) suffix_length_le by (fastforce simp: I_def)
    from wstep_ok [OF assms(1) this] show "tot (lx_wstep K lit w) (\<lambda>x. case x of Inl s1 \<Rightarrow> I s1 \<and> length (wp s1) < length (wp w) | Inr r \<Rightarrow> I r)"
    proof (rule tot_mono)
      fix x
      assume "step_ok w x"
      then show "case x of Inl s1 \<Rightarrow> I s1 \<and> length (wp s1) < length (wp w) | Inr r \<Rightarrow> I r"
        using i strict_suffix_less suffix_order.order_trans suffix_order.less_le_trans suffix_order.le_less_trans suffix_order.less_imp_le
        by (auto simp: step_ok_def took_def left_at_def I_def split: sum.splits)
    qed
  qed (simp_all add: I_def lx_flush_def)
  then show ?thesis unfolding lx_word_def Let_def tot_bind
    by (rule tot_mono) (auto simp: I_def)
qed

subsection \<open>Here-documents\<close>

lemma body_ok:
  assumes "lk_good m K" "length t \<le> m"
  shows "tot (lx_body K l t q) (\<lambda>w. True)"
proof -
  have step: "tot (lx_bstep K q w) (\<lambda>x. case x of Inl w1 \<Rightarrow> length (wp w1) \<le> m \<and> length (wp w1) < length (wp w) | Inr w1 \<Rightarrow> True)"
    if w: "length (wp w) \<le> m" for w
  proof (cases "wp w = []")
    case False
    have d: "length (drop (Suc n) (wp w)) < length (wp w)" for n
      by (rule strict_suffix_less, rule strict_drop [OF False, of _ n]) simp
    have "tot (lx_dol K 1 (ws_l w)) (\<lambda>(l1, x). x \<noteq> None \<longrightarrow> length (lx_p l1) < length (wp w))"
      by (rule tot_mono [OF quiet_dol [OF assms(1) w False]]) (auto dest: strict_suffix_less)
    then have "tot (lx_dol K (Suc 0) (ws_l w)) (\<lambda>(l1, x). case (case x of None \<Rightarrow> Inr ((lx_flush w)\<lparr>ws_l := l1\<rparr>) | Some y \<Rightarrow> Inl (lx_push y ((lx_flush w)\<lparr>ws_l := l1\<rparr>)))
        of Inl w1 \<Rightarrow> length (wp w1) \<le> m \<and> length (wp w1) < length (wp w) | Inr (w1 :: wst) \<Rightarrow> True)"
      unfolding One_nat_def by (rule tot_mono) (use w in \<open>auto split: option.split\<close>)
    then show ?thesis unfolding lx_bstep_def Let_def
      by (intro tot_if) (use d [of 0] d [of 1] w False in \<open>simp_all add: numeral_2_eq_2 case_prod_unfold\<close>)
  qed (simp add: lx_bstep_def)
  show ?thesis unfolding lx_body_def Let_def tot_bind
    by (rule tot_iter [where I = "\<lambda>w. length (wp w) \<le> m" and m = "\<lambda>w. length (wp w)"])
      (use assms(2) in \<open>auto intro!: tot_mono [OF step] split: sum.splits\<close>)
qed

lemma hread_ok:
  "lx_hread h b p = (b1, p1, ok) \<Longrightarrow> suffix p1 p \<and> length b1 + length p1 \<le> length b + length p"
proof (induction h b p rule: lx_hread.induct)
  case (1 h b p)
  define ln where "ln = takeWhile (\<lambda>c. c \<noteq> NL) p"
  define r where "r = dropWhile (\<lambda>c. c \<noteq> NL) p"
  define t where "t = (if hd_dash h then dropWhile (\<lambda>c. c = TAB) ln else ln)"
  have len: "length ln + length r = length p" unfolding ln_def r_def by (metis length_append takeWhile_dropWhile_id)
  have t: "length t \<le> length ln" by (simp add: t_def length_dropWhile_le)
  have r: "suffix r p" unfolding r_def by (rule suffix_dropWhile)
  then have r1: "suffix (drop 1 r) p" using suffix_drop suffix_order.trans by blast
  note eq = lx_hread.simps [of h b p, unfolded Let_def, folded ln_def r_def, folded t_def]
  note ih = "1.IH" [OF ln_def r_def t_def]
  show ?case
  proof (cases "p = [] \<or> r = [] \<or> t = hd_d h")
    case True
    then show ?thesis using "1.prems" r1 len unfolding eq by (auto split: if_splits)
  next
    case False
    then have "lx_hread h (b @ t @ [NL]) (drop 1 r) = (b1, p1, ok)" using "1.prems" unfolding eq by simp
    from ih [OF _ _ _ this] False have i: "suffix p1 (drop 1 r)" "length b1 + length p1 \<le> length (b @ t @ [NL]) + length (drop 1 r)" by auto
    moreover have "r \<noteq> []" using False by simp
    ultimately show ?thesis using r1 len t by (auto intro: suffix_order.trans) (cases r, auto)
  qed
qed

lemma hdoc1_ok:
  assumes "lk_good m K" "length (lx_p l) \<le> m"
  shows "tot (lx_hdoc1 K h l) (\<lambda>l1. suffix (lx_p l1) (lx_p l) \<and> lx_tkb l1 = lx_tkb l \<and> lx_depth l1 = lx_depth l)"
proof -
  obtain b p ok where r: "lx_hread h [] (lx_p l) = (b, p, ok)" by (metis prod_cases3)
  have h: "suffix p (lx_p l)" "length b \<le> m" using hread_ok [OF r] assms(2) by auto
  from body_ok [OF assms(1) h(2), of "l\<lparr>lx_p := p\<rparr>" "hd_q h"] obtain w where "lx_body K (l\<lparr>lx_p := p\<rparr>) b (hd_q h) = Some w" by (auto simp: tot_iff)
  then show ?thesis using h by (auto simp: lx_hdoc1_def Let_def r lx_set_more_def)
qed

lemma hdoc_ok:
  assumes "lk_good m K" "length (lx_p l) \<le> m"
  shows "tot (lx_hdoc K l) (\<lambda>l1. suffix (lx_p l1) (lx_p l) \<and> lx_tkb l1 = lx_tkb l \<and> lx_depth l1 = lx_depth l)"
proof -
  have "tot (foldl (\<lambda>a h. a \<bind> lx_hdoc1 K h) (Some l) hs) (\<lambda>l1. suffix (lx_p l1) (lx_p l) \<and> lx_tkb l1 = lx_tkb l \<and> lx_depth l1 = lx_depth l)" for hs
  proof (induction hs rule: rev_induct)
    case (snoc h hs)
    show ?case unfolding foldl_append foldl_Cons foldl_Nil tot_bind
    proof (rule tot_mono [OF snoc])
      fix l1 :: lex
      assume a: "suffix (lx_p l1) (lx_p l) \<and> lx_tkb l1 = lx_tkb l \<and> lx_depth l1 = lx_depth l"
      then have "length (lx_p l1) \<le> m" using assms(2) suffix_length_le by fastforce
      from hdoc1_ok [OF assms(1) this] show "tot (lx_hdoc1 K h l1) (\<lambda>l1. suffix (lx_p l1) (lx_p l) \<and> lx_tkb l1 = lx_tkb l \<and> lx_depth l1 = lx_depth l)"
        by (rule tot_mono) (use a suffix_order.trans in auto)
    qed
  qed simp
  then show ?thesis unfolding lx_hdoc_def tot_bind by (rule tot_mono) auto
qed

subsection \<open>Tokens\<close>

text \<open>A token begins where \<open>tkb\<close> says and takes at least a character of the text, unless it is the end of it.\<close>

definition nx :: "lex \<Rightarrow> lex \<Rightarrow> bool" where
  "nx l l1 \<longleftrightarrow> lx_depth l1 = lx_depth l \<and> suffix (lx_p l1) (lx_p l) \<and>
    (lx_tk l1 \<noteq> T_EOF \<longrightarrow> (\<exists>b. lx_tkb l1 = Some b \<and> suffix b (lx_p l) \<and> strict_suffix (lx_p l1) b)) \<and>
    (lx_tk l1 = T_WORD \<or> lx_tk l1 = T_ARITH \<longrightarrow> lx_w l1 \<noteq> None)"

lemma lx_blank_suffix: "suffix (lx_blank p) p"
proof (induction p rule: lx_blank.induct)
  case (1 p)
  define b where "b = dropWhile blank p"
  have b: "suffix b p" unfolding b_def by (rule suffix_dropWhile)
  have d: "suffix (drop 2 b) p" "suffix (dropWhile (\<lambda>c. c \<noteq> NL) b) p"
    using b suffix_drop suffix_dropWhile suffix_order.trans by blast+
  show ?case using "1.IH" [OF b_def] d b unfolding lx_blank.simps [of p] Let_def b_def [symmetric]
    by (auto intro: suffix_order.trans)
qed

lemma lx_tok_sel [simp]:
  "lx_p (lx_tok k p l) = p" "lx_tk (lx_tok k p l) = k" "lx_tkb (lx_tok k p l) = lx_tkb l" "lx_depth (lx_tok k p l) = lx_depth l" "lx_w (lx_tok k p l) = lx_w l"
  by (simp_all add: lx_tok_def)

lemma lx_redir_ok:
  "lx_depth (lx_redir l) = lx_depth l" "lx_tkb (lx_redir l) = lx_tkb l" "lx_tk (lx_redir l) \<notin> {T_EOF, T_WORD, T_ARITH}"
  "lx_p l \<noteq> [] \<Longrightarrow> strict_suffix (lx_p (lx_redir l)) (lx_p l)"
proof -
  show "lx_depth (lx_redir l) = lx_depth l" "lx_tkb (lx_redir l) = lx_tkb l" "lx_tk (lx_redir l) \<notin> {T_EOF, T_WORD, T_ARITH}"
    by (simp_all add: lx_redir_def Let_def)
  assume "lx_p l \<noteq> []"
  from strict_drop [OF this] have d: "strict_suffix (drop (Suc n) (lx_p l)) (lx_p l)" for n by blast
  show "strict_suffix (lx_p (lx_redir l)) (lx_p l)" unfolding lx_redir_def Let_def
    using d [of 0] d [of 1] d [of 2] by (simp add: numeral_2_eq_2 numeral_3_eq_3)
qed

lemma lx_optok_ok:
  "lx_depth (lx_optok l) = lx_depth l" "lx_tkb (lx_optok l) = lx_tkb l" "lx_tk (lx_optok l) \<notin> {T_EOF, T_WORD, T_ARITH}"
  "lx_p l \<noteq> [] \<Longrightarrow> strict_suffix (lx_p (lx_optok l)) (lx_p l)"
proof -
  show "lx_depth (lx_optok l) = lx_depth l" "lx_tkb (lx_optok l) = lx_tkb l" "lx_tk (lx_optok l) \<notin> {T_EOF, T_WORD, T_ARITH}"
    using lx_redir_ok(1-3) [of "l\<lparr>lx_p := drop 1 (lx_p l), lx_both := True\<rparr>"] by (simp_all add: lx_optok_def Let_def)
  assume ne: "lx_p l \<noteq> []"
  from strict_drop [OF this] have d: "strict_suffix (drop (Suc n) (lx_p l)) (lx_p l)" for n by blast
  have "strict_suffix (lx_p (lx_redir (l\<lparr>lx_p := drop 1 (lx_p l), lx_both := True\<rparr>))) (lx_p l)" if "at (drop 1 (lx_p l)) 0 = CHR ''>''"
  proof -
    have "drop 1 (lx_p l) \<noteq> []" using that by auto
    then show ?thesis using lx_redir_ok(4) [of "l\<lparr>lx_p := drop 1 (lx_p l), lx_both := True\<rparr>"] d [of 0]
        suffix_order.less_trans by fastforce
  qed
  then show "strict_suffix (lx_p (lx_optok l)) (lx_p l)" unfolding lx_optok_def Let_def
    using d [of 0] d [of 1] d [of 2] by (simp add: numeral_2_eq_2 numeral_3_eq_3)
qed

lemma fdtok_ok:
  assumes "lx_fdtok l = Some l1" "lx_p l \<noteq> []"
  shows "lx_depth l1 = lx_depth l" "lx_tkb l1 = lx_tkb l" "lx_tk l1 \<notin> {T_EOF, T_WORD, T_ARITH}" "strict_suffix (lx_p l1) (lx_p l)"
proof -
  have "\<exists>k. lx_depth k = lx_depth l \<and> lx_tkb k = lx_tkb l \<and> suffix (lx_p k) (lx_p l) \<and> lx_p k \<noteq> [] \<and> l1 = lx_redir k"
  proof -
    define e where "e = dropWhile idch (drop 1 (lx_p l))"
    have e: "suffix (drop 1 e) (lx_p l)" "suffix (dropWhile isdigit (lx_p l)) (lx_p l)"
      unfolding e_def by (meson suffix_drop suffix_dropWhile suffix_order.trans)+
    consider n where "l1 = lx_redir (l\<lparr>lx_fd := n, lx_p := dropWhile isdigit (lx_p l)\<rparr>)" "dropWhile isdigit (lx_p l) \<noteq> []"
      | nm where "l1 = lx_redir (l\<lparr>lx_fdvar := nm, lx_p := drop 1 e\<rparr>)" "drop 1 e \<noteq> []"
      using assms(1) unfolding lx_fdtok_def Let_def e_def [symmetric]
      by (auto simp: case_prod_unfold at_def split: if_splits)
    then show ?thesis
    proof cases
      case (1 n)
      then show ?thesis using e by (intro exI [of _ "l\<lparr>lx_fd := n, lx_p := dropWhile isdigit (lx_p l)\<rparr>"]) simp
    next
      case (2 nm)
      then show ?thesis using e by (intro exI [of _ "l\<lparr>lx_fdvar := nm, lx_p := drop 1 e\<rparr>"]) simp
    qed
  qed
  then obtain k where k: "lx_depth k = lx_depth l" "lx_tkb k = lx_tkb l" "suffix (lx_p k) (lx_p l)" "lx_p k \<noteq> []" "l1 = lx_redir k" by blast
  show "lx_depth l1 = lx_depth l" "lx_tkb l1 = lx_tkb l" "lx_tk l1 \<notin> {T_EOF, T_WORD, T_ARITH}" "strict_suffix (lx_p l1) (lx_p l)"
    using lx_redir_ok [of k] k suffix_order.less_le_trans by auto
qed

lemma nx_tok:
  assumes "lx_tkb l1 = Some p" "suffix p (lx_p l)" "strict_suffix (lx_p l1) p" "lx_depth l1 = lx_depth l" "lx_tk l1 \<notin> {T_WORD, T_ARITH}"
  shows "nx l l1"
  using assms suffix_order.trans suffix_order.less_imp_le unfolding nx_def by blast

lemma next_ok:
  assumes "lk_good (length (lx_p l)) K"
  shows "tot (lx_next K l) (nx l)"
proof -
  define p where "p = lx_blank (lx_p l)"
  define k where "k = l\<lparr>lx_w := None, lx_fd := -1, lx_both := False, lx_clob := False, lx_fdvar := None, lx_p := p, lx_tkb := Some p\<rparr>"
  have p: "suffix p (lx_p l)" unfolding p_def by (rule lx_blank_suffix)
  have k: "lx_tkb k = Some p" "lx_p k = p" "lx_depth k = lx_depth l" "lx_w k = None" by (simp_all add: k_def)
  have g: "lk_good (length p) K" using lk_good_mono [OF assms suffix_length_le [OF p]] .
  have word: "tot (lx_word K 0 k) (\<lambda>(l1, w). lx_tkb l1 = Some p \<and> lx_depth l1 = lx_depth l \<and> suffix (lx_p l1) p \<and>
      (w \<noteq> None \<longrightarrow> strict_suffix (lx_p l1) p))"
    by (rule tot_mono [OF word_ok [OF assms]]) (use p suffix_length_le k in \<open>auto dest: lx_upd_sel\<close>)
  show ?thesis
  proof (cases "lx_more l \<or> p = []")
    case True
    then show ?thesis using p by (auto simp: lx_next_def Let_def p_def [symmetric] nx_def)
  next
    case False
    then have ne: "p \<noteq> []" by simp
    have d1: "strict_suffix (drop 1 p) p" using strict_drop [OF ne, of "drop 1 p" 0] by simp
    have hd: "tot (lx_hdoc K (k\<lparr>lx_p := drop 1 p\<rparr>)) (\<lambda>l1. nx l (l1\<lparr>lx_tk := T_NL\<rparr>))"
    proof (rule tot_mono [OF hdoc_ok [OF g]])
      show "length (lx_p (k\<lparr>lx_p := drop 1 p\<rparr>)) \<le> length p" by simp
    next
      fix l1 :: lex
      assume "suffix (lx_p l1) (lx_p (k\<lparr>lx_p := drop 1 p\<rparr>)) \<and> lx_tkb l1 = lx_tkb (k\<lparr>lx_p := drop 1 p\<rparr>) \<and>
        lx_depth l1 = lx_depth (k\<lparr>lx_p := drop 1 p\<rparr>)"
      then show "nx l (l1\<lparr>lx_tk := T_NL\<rparr>)" using p k d1
        by (intro nx_tok [of _ p]) (auto intro: strict_suffix_mono)
    qed
    have op: "nx l (lx_optok k1)" if "lx_tkb k1 = Some p" "lx_p k1 = p" "lx_depth k1 = lx_depth l" for k1
      using lx_optok_ok [of k1] that p ne by (intro nx_tok [of _ p]) auto
    have rd: "nx l (lx_redir k1)" if "lx_tkb k1 = Some p" "lx_p k1 = p" "lx_depth k1 = lx_depth l" for k1
      using lx_redir_ok [of k1] that p ne by (intro nx_tok [of _ p]) auto
    have fd: "nx l l1" if "lx_fdtok k = Some l1" for l1
      using fdtok_ok [OF that] k p ne by (intro nx_tok [of _ p]) auto
    have ar: "nx l (case lx_arith k of Inr l1 \<Rightarrow> l1 | Inl l1 \<Rightarrow> lx_optok l1)"
    proof (cases "sk_bal (drop 1 p) (CHR ''('') (CHR '')'') False")
      case None
      then show ?thesis using k p by (simp add: lx_arith_def Let_def nx_def lx_set_more_def)
    next
      case (Some e)
      have "suffix (drop 1 e) (drop 1 p)" using sk_bal_suffix(1) [OF Some] suffix_drop suffix_order.trans by blast
      then have e: "strict_suffix (drop 1 e) p" using d1 by (rule strict_suffix_mono)
      have "lx_tkb (lx_set_more k) = Some p" "lx_depth (lx_set_more k) = lx_depth l" using k by (simp_all add: lx_set_more_def)
      then show ?thesis using op [of k] op [of "lx_set_more k"] k p Some e suffix_order.less_imp_le suffix_order.trans
        by (auto simp: lx_arith_def Let_def nx_def split: option.split)
    qed
    have sx: "suffix (drop n q) (lx_p l)" if "suffix q p" for n q using that p suffix_drop suffix_order.trans by blast
    have wt: "tot (lx_wtok K c k) (nx l)" for c
      unfolding lx_wtok_def Let_def tot_bind
      by (rule tot_mono [OF word]) (use sx [of _ 0] sx [of _ 1] p in \<open>auto simp: nx_def lx_bad_def\<close>)
    have rds: "nx l (lx_redir k1)" if "lx_tkb k1 = Some p" "suffix (lx_p k1) p" "lx_depth k1 = lx_depth l" for k1
    proof (cases "lx_p k1 = []")
      case True
      then have "lx_p (lx_redir k1) = []" by (simp add: lx_redir_def Let_def)
      moreover have "strict_suffix [] p" using ne by (simp add: strict_suffix_def)
      ultimately show ?thesis using lx_redir_ok(1-3) [of k1] that p by (intro nx_tok [of _ p]) auto
    next
      case False
      from lx_redir_ok(4) [OF this] have "strict_suffix (lx_p (lx_redir k1)) p" using that(2) suffix_order.less_le_trans by blast
      then show ?thesis using lx_redir_ok(1-3) [of k1] that p by (intro nx_tok [of _ p]) auto
    qed
    have ps: "tot (lx_word K 0 k \<bind> (\<lambda>(l1, w). Some (if w \<noteq> None then l1\<lparr>lx_w := w, lx_tk := T_WORD\<rparr>
        else if lx_more (l1\<lparr>lx_w := w\<rparr>) then l1\<lparr>lx_w := w, lx_tk := T_EOF\<rparr> else lx_redir (l1\<lparr>lx_w := w\<rparr>)))) (nx l)"
      unfolding tot_bind by (rule tot_mono [OF word]) (use sx [of _ 0] rds p in \<open>auto simp: nx_def\<close>)
    have nl: "nx l (lx_tok T_NL (drop 1 p) k)" using k p d1 by (intro nx_tok [of _ p]) auto
    have "tot (case lx_fdtok k of None \<Rightarrow> x | Some l1 \<Rightarrow> Some l1) (nx l)" if "tot x (nx l)" for x
      using fd that by (auto split: option.split)
    then show ?thesis unfolding lx_next_def Let_def p_def [symmetric] k_def [symmetric]
      using False ar op [OF k(1-3)] rd [OF k(1-3)] hd nl ps wt by (intro tot_if) simp_all
  qed
qed

end
