(* ===== verification/ParseLaws.thy ===== *)
theory ParseLaws
  imports Parse LexLaws
begin

text \<open>
  What holds of every run of the parser: it returns for any text, with fuel twice the length of the text, and gives
  back the nesting it was called with. What its functions ask of the ones they call, and what they promise, is the
  locale \<open>parsing\<close>, which \<open>p_ev\<close> satisfies.
\<close>

subsection \<open>Tokens as a measure\<close>

definition tok_ok :: "lex \<Rightarrow> bool" where
  "tok_ok l \<longleftrightarrow> (lx_tk l \<noteq> T_EOF \<longrightarrow> (\<exists>b. lx_tkb l = Some b \<and> strict_suffix (lx_p l) b)) \<and>
    (lx_tk l = T_WORD \<or> lx_tk l = T_ARITH \<longrightarrow> lx_w l \<noteq> None)"

text \<open>The text from the start of the token on, nothing at the end.\<close>

definition mu :: "lex \<Rightarrow> nat" where
  "mu l = (if lx_tk l = T_EOF then 0 else length (case lx_tkb l of Some b \<Rightarrow> b | None \<Rightarrow> []))"

definition ok :: "lex \<Rightarrow> lex \<Rightarrow> bool" where
  "ok l l1 \<longleftrightarrow> tok_ok l1 \<and> mu l1 \<le> mu l \<and> lx_depth l1 = lx_depth l"

definition past :: "lex \<Rightarrow> lex \<Rightarrow> bool" where
  "past l l1 \<longleftrightarrow> tok_ok l1 \<and> mu l1 < mu l \<and> lx_depth l1 = lx_depth l"

lemma ok_refl [simp]: "ok l l = tok_ok l"
  by (simp add: ok_def)

lemma ok_trans: "ok a b \<Longrightarrow> ok b c \<Longrightarrow> ok a c"
  by (simp add: ok_def)

lemma past_ok: "past a b \<Longrightarrow> ok a b"
  by (simp add: ok_def past_def)

lemma past_ok_trans: "past a b \<Longrightarrow> ok b c \<Longrightarrow> past a c" "ok a b \<Longrightarrow> past b c \<Longrightarrow> past a c"
  by (simp_all add: ok_def past_def)

lemma mu_0: "tok_ok l \<Longrightarrow> mu l = 0 \<longleftrightarrow> lx_tk l = T_EOF"
  by (auto simp: tok_ok_def mu_def strict_suffix_def)

lemma mu_le: "mu l \<le> length (case lx_tkb l of Some b \<Rightarrow> b | None \<Rightarrow> lx_p l)"
  by (simp add: mu_def split: option.split)

lemma tok_frame [simp]:
  "lx_tk (fst (lx_line l)) = lx_tk l" "lx_p (fst (lx_line l)) = lx_p l" "lx_tkb (fst (lx_line l)) = lx_tkb l"
  "lx_w (fst (lx_line l)) = lx_w l" "lx_depth (fst (lx_line l)) = lx_depth l" "lx_err (fst (lx_line l)) = lx_err l" "lx_more (fst (lx_line l)) = lx_more l"
  "lx_tk (perr l) = lx_tk l" "lx_p (perr l) = lx_p l" "lx_tkb (perr l) = lx_tkb l" "lx_w (perr l) = lx_w l" "lx_depth (perr l) = lx_depth l"
  by (simp_all add: lx_line_def perr_def lx_bad_def lx_set_more_def Let_def)

lemma tok_frame2 [simp]:
  "tok_ok (fst (lx_line l)) = tok_ok l" "mu (fst (lx_line l)) = mu l" "kw (fst (lx_line l)) t = kw l t"
  "tok_ok (perr l) = tok_ok l" "mu (perr l) = mu l" "kw (perr l) t = kw l t"
  by (simp_all add: tok_ok_def mu_def kw_def)

lemma ok_frame [simp]:
  "ok l (fst (lx_line l1)) = ok l l1" "ok l (perr l1) = ok l l1" "ok (fst (lx_line l)) l1 = ok l l1"
  "past l (fst (lx_line l1)) = past l l1" "past l (perr l1) = past l l1" "past (fst (lx_line l)) l1 = past l l1"
  by (simp_all add: ok_def past_def)

lemma upd_frame [simp]:
  "ok l (l1\<lparr>lx_keep := k\<rparr>) = ok l l1" "ok l (l1\<lparr>lx_nhd := n\<rparr>) = ok l l1" "ok l (lx_here l1 r d) = ok l l1"
  "tok_ok (l1\<lparr>lx_nhd := n\<rparr>) = tok_ok l1" "mu (l1\<lparr>lx_nhd := n\<rparr>) = mu l1" "tok_ok (lx_here l1 r d) = tok_ok l1" "mu (lx_here l1 r d) = mu l1"
  "lx_tk (lx_here l1 r d) = lx_tk l1" "lx_depth (lx_here l1 r d) = lx_depth l1"
  by (simp_all add: ok_def tok_ok_def mu_def lx_here_def lx_bad_def)

lemma kw_word: "kw l t \<Longrightarrow> lx_tk l = T_WORD"
  by (simp add: kw_def)

lemma kw_tk: "kw l t \<Longrightarrow> lx_tk l \<noteq> T_EOF"
  by (simp add: kw_def)

lemma kw_pos [intro]: "kw l t \<Longrightarrow> 0 < lx_tk l"
  by (simp add: kw_def)

lemma r_kind_EOF [simp]: "r_kind T_EOF = None"
  by (simp add: r_kind_def)

lemma lx_upd_w: "lx_upd l l1 \<Longrightarrow> lx_w l1 = lx_w l"
  by (metis lex.select_convs(3) lex.surjective lex.update_convs(1) lex.update_convs(7) lex.update_convs(8) lx_key_def)

lemma p_balw_suffix: "suffix (p_balw d e) e"
proof (induction e arbitrary: d rule: length_induct)
  case (1 e)
  show ?case
  proof (cases e)
    case (Cons x r)
    have ih: "suffix (p_balw k t) e" if "suffix t r" for k t
    proof -
      have "length t < length e" using suffix_length_le [OF that] Cons by simp
      then have "suffix (p_balw k t) t" using "1.IH" by blast
      then show ?thesis using that Cons by (meson suffix_ConsI suffix_order.trans)
    qed
    have "suffix (drop 1 (dropWhile (\<lambda>c. c \<noteq> x) r)) r" by (meson suffix_drop suffix_dropWhile suffix_order.trans)
    note sfx = ih [OF this] ih [OF suffix_drop [of 1 r]] ih [OF suffix_order.refl]
    have if_suffix: "suffix a e \<Longrightarrow> suffix b e \<Longrightarrow> suffix (if c then a else b) e" for a b c by simp
    show ?thesis
      by (subst p_balw.simps [of d e], simp only: Cons list.case, fold Cons) (intro if_suffix sfx suffix_order.refl)
  qed (simp add: p_balw.simps)
qed

lemma tot_tokens:
  assumes "\<And>s. I s \<Longrightarrow> tot (f s) (\<lambda>x. case x of Inl s1 \<Rightarrow> I s1 \<and> mu (g s1) < mu (g s) | Inr r \<Rightarrow> Q r)" "I s" "mu (g s) \<le> mu l"
  shows "tot (tokens l f s) Q"
  unfolding tokens_def
  by (rule tot_iter [where I = I and m = "\<lambda>s. mu (g s)"]) (use assms mu_le [of l] in auto)

subsection \<open>The functions of the parser\<close>

locale parsing =
  fixes K :: lxk and P :: prk and M :: nat and C :: nat
  assumes lex_good: "lk_good M K"
    and list_good: "tok_ok l \<Longrightarrow> mu l \<le> M \<Longrightarrow> tot (pk_list P l) (\<lambda>(l1, n). ok l l1)"
    and cmd_good: "tok_ok l \<Longrightarrow> mu l \<le> C \<Longrightarrow> tot (pk_cmd P l) (\<lambda>(l1, n). ok l l1)"
    and if_good: "tok_ok l \<Longrightarrow> lx_tk l \<noteq> T_EOF \<Longrightarrow> mu l \<le> M \<Longrightarrow> tot (pk_if P l) (\<lambda>(l1, n). ok l l1)"
    and fuels: "M \<le> C" "C \<le> Suc M"
begin

lemma nextp:
  assumes "tok_ok l" "lx_tk l \<noteq> T_EOF" "mu l \<le> Suc M"
  shows "tot (lx_next K l) (past l)"
proof -
  obtain b where b: "lx_tkb l = Some b" "strict_suffix (lx_p l) b" using assms(1, 2) by (auto simp: tok_ok_def)
  have m: "mu l = length b" using assms(2) b by (simp add: mu_def)
  have len: "length (lx_p l) < length b" by (rule strict_suffix_less [OF b(2)])
  have "lk_good (length (lx_p l)) K" by (rule lk_good_mono [OF lex_good]) (use len m assms(3) in simp)
  from next_ok [OF this] show ?thesis
    by (rule tot_mono) (use len m in \<open>auto simp: nx_def past_def tok_ok_def mu_def dest!: suffix_length_le split: option.split\<close>)
qed

text \<open>After a step from \<open>l\<close> that leaves \<open>l1\<close>: the token after it is smaller than \<open>l\<close>'s.\<close>

lemma next_from:
  assumes "ok l l1" "lx_tk l1 \<noteq> T_EOF" "mu l \<le> Suc M"
  shows "tot (lx_next K l1) (past l)"
  by (rule tot_mono [OF nextp]) (use assms in \<open>auto simp: ok_def past_def\<close>)

lemma nl_from:
  assumes "ok l l1" "mu l \<le> Suc M"
  shows "tot (p_nl K l1) (ok l)"
  unfolding p_nl_def
  by (rule tot_tokens [where I = "ok l" and g = id])
    (use assms next_from in \<open>auto simp: ok_def past_def intro!: tot_mono [OF nextp]\<close>)

lemma past_from:
  assumes "past l l1" "lx_tk l1 \<noteq> T_EOF" "mu l \<le> Suc M"
  shows "tot (lx_next K l1) (past l)"
  by (rule next_from [OF past_ok [OF assms(1)] assms(2, 3)])

lemma nl_lt:
  assumes "past l l1" "mu l \<le> Suc M"
  shows "tot (p_nl K l1) (past l)"
  by (rule tot_mono [OF nl_from [of l1]]) (use assms in \<open>auto simp: past_def ok_def\<close>)

lemma list_from: "past l l1 \<Longrightarrow> mu l \<le> Suc M \<Longrightarrow> tot (pk_list P l1) (\<lambda>(l2, n). past l l2)"
  by (rule tot_mono [OF list_good]) (auto simp: past_def ok_def)

lemma body_from: "past l l1 \<Longrightarrow> mu l \<le> Suc M \<Longrightarrow> tot (p_body P l1) (\<lambda>(l2, n). past l l2)"
  unfolding p_body_def tot_bind by (rule tot_mono [OF list_from]) auto

lemma cmd_from: "past l l1 \<Longrightarrow> mu l \<le> Suc M \<Longrightarrow> tot (pk_cmd P l1) (\<lambda>(l2, n). past l l2)"
  by (rule tot_mono [OF cmd_good]) (use fuels in \<open>auto simp: past_def ok_def\<close>)

lemma want_from: "past l l1 \<Longrightarrow> mu l \<le> Suc M \<Longrightarrow> tot (p_want K t l1) (past l)"
  unfolding p_want_def by (auto intro: past_from [OF _ kw_tk])

lemma redir_from:
  assumes "ok l l1" "r_kind (lx_tk l1) \<noteq> None" "mu l \<le> Suc M"
  shows "tot (p_redir K l1) (\<lambda>(l2, r). past l l2)"
proof -
  obtain k where k: "r_kind (lx_tk l1) = Some k" using assms(2) by auto
  then have e: "lx_tk l1 \<noteq> T_EOF" by (metis option.distinct(1) r_kind_EOF)
  have "tot (lx_next K (lx_here (l2\<lparr>lx_nhd := n\<rparr>) i w)) (past l)" if "past l l2" "lx_tk l2 = T_WORD" for l2 n i w
    by (rule next_from) (use that assms(3) in \<open>auto simp: past_def ok_def\<close>)
  then show ?thesis unfolding p_redir_def Let_def k option.case tot_bind
    by (intro tot_mono [OF next_from [OF assms(1) e assms(3)]])
      (auto split: option.split intro!: tot_mono [OF past_from [OF _ _ assms(3)]])
qed

lemma redirs_from:
  assumes "ok l l1" "mu l \<le> Suc M"
  shows "tot (p_redirs K l1) (\<lambda>(l2, r). ok l l2)"
  unfolding p_redirs_def
proof (rule tot_tokens [where I = "\<lambda>(l2, r). ok l l2" and g = fst])
  fix s :: "lex \<times> redir list"
  obtain l2 r where s: "s = (l2, r)" by fastforce
  assume "case s of (l2, r) \<Rightarrow> ok l l2"
  then have o2: "ok l l2" by (simp add: s)
  then have "tok_ok l2" "mu l2 \<le> Suc M" using assms(2) by (simp_all add: ok_def)
  then have "tot (p_redir K l2) (\<lambda>(l3, r). past l2 l3)" if "r_kind (lx_tk l2) \<noteq> None"
    using redir_from [of l2 l2] that by simp
  then show "tot (case s of (l, rs) \<Rightarrow> if r_kind (lx_tk l) = None then Some (Inr (l, rs)) else p_redir K l \<bind> (\<lambda>(l1, r). Some (Inl (l1, rs @ r))))
      (\<lambda>x. case x of Inl s1 \<Rightarrow> (case s1 of (l2, r) \<Rightarrow> ok l l2) \<and> mu (fst s1) < mu (fst s) | Inr r \<Rightarrow> (case r of (l2, r) \<Rightarrow> ok l l2))"
    using o2 by (auto simp: s intro: ok_trans past_ok elim!: tot_mono) (auto simp: past_def ok_def)
qed (use assms in auto)

lemma rtail_from:
  assumes "ok l l1" "mu l \<le> Suc M"
  shows "tot (p_rtail K (l1, n)) (\<lambda>(l2, n). ok l l2)"
  unfolding p_rtail_def by (auto simp: assms intro!: tot_mono [OF redirs_from [OF assms]])

lemma word_sub:
  assumes "length t < M" "quiet l0 l"
  shows "tot (lx_sub K lit t l) (\<lambda>(l1, w). quiet l0 l1)"
  by (rule quiet_sub [OF lex_good assms])

lemma arrel_ok:
  assumes "tok_ok l" "lx_tk l = T_WORD" "mu l < M"
  shows "tot (p_arrel K l) (\<lambda>(l1, w). tok_ok l1 \<and> mu l1 = mu l \<and> lx_tk l1 = T_WORD \<and> lx_depth l1 = lx_depth l)"
proof -
  obtain b where b: "lx_tkb l = Some b" "strict_suffix (lx_p l) b" using assms by (auto simp: tok_ok_def)
  show ?thesis
  proof (cases "length b \<le> length (lx_p l) \<or> at b 0 \<noteq> CHR ''['' \<or> CHR '']'' \<in> set (upto_pos b (lx_p l))")
    case True
    then show ?thesis using assms b by (simp add: p_arrel_def)
  next
    case False
    define e where "e = p_balw 0 b"
    obtain r where r: "b = CHR ''['' # r" using False by (cases b) auto
    have e: "strict_suffix e b"
      unfolding e_def r p_balw.simps [of 0 "CHR ''['' # r"] by (simp add: strict_suffix_Cons p_balw_suffix)
    have "length (upto_pos b e) < M" using assms(2, 3) b by (simp add: mu_def)
    from word_sub [OF this, of "l\<lparr>lx_p := e\<rparr>" "l\<lparr>lx_p := e\<rparr>" 0]
    obtain l1 w where w: "lx_sub K 0 (upto_pos b e) (l\<lparr>lx_p := e\<rparr>) = Some (l1, w)" "lx_upd l l1" "lx_p l1 = e"
      by (auto simp: tot_iff)
    have k: "lx_w l1 = lx_w l" using w(2) by (rule lx_upd_w)
    have "tok_ok l1" "mu l1 = mu l" "lx_tk l1 = T_WORD" "lx_depth l1 = lx_depth l"
      using assms(1, 2) b e w(3) lx_upd_sel [OF w(2)] k by (simp_all add: tok_ok_def mu_def)
    moreover have "p_arrel K l = Some (l1, case w of Some v \<Rightarrow> v | None \<Rightarrow> (case lx_w l of Some w \<Rightarrow> w | None \<Rightarrow> []))"
      using False w(1) unfolding p_arrel_def Let_def b(1) option.case e_def [symmetric] by simp
    ultimately show ?thesis by simp
  qed
qed

lemma arrasg_from:
  assumes "past l l1" "lx_tk l1 = T_LP" "mu l \<le> Suc M"
  shows "tot (p_arrasg K w l1) (\<lambda>(l2, cl). past l l2)"
proof -
  have t1: "tok_ok l1" "mu l1 \<le> M" "lx_depth l1 = lx_depth l" "mu l1 < mu l" using assms by (simp_all add: past_def)
  have m1: "mu l1 \<le> Suc M" using t1 by simp
  let ?f = "\<lambda>(l, ws). if lx_tk l = T_WORD then
        p_arrel K l \<bind> (\<lambda>(l2, v). lx_next K l2 \<bind> p_nl K \<bind> (\<lambda>l3. Some (Inl (l3, ws @ [v]))))
      else Some (Inr (l, ws))"
  have step: "\<exists>l5 v. ?f (l3, ws) = Some (Inl (l5, ws @ [v])) \<and> past l3 l5" if l3: "past l1 l3" and w: "lx_tk l3 = T_WORD" for l3 ws
  proof -
    have m: "tok_ok l3" "mu l3 < M" "mu l3 \<le> Suc M" using l3 t1 by (simp_all add: past_def)
    obtain l4 v where l4: "p_arrel K l3 = Some (l4, v)" "tok_ok l4" "mu l4 = mu l3" "lx_tk l4 = T_WORD" "lx_depth l4 = lx_depth l3"
      using arrel_ok [OF m(1) w m(2)] by (auto simp: tot_iff)
    then obtain l5 where l5: "lx_next K l4 = Some l5" "past l3 l5"
      using next_from [of l3 l4] m by (auto simp: tot_iff ok_def)
    from nl_lt [OF l5(2) m(3)] obtain l6 where "p_nl K l5 = Some l6" "past l3 l6" by (auto simp: tot_iff)
    then show ?thesis using l4 l5 w by auto
  qed
  have loop: "tot (tokens l2 ?f (fst (lx_line l2), [])) (\<lambda>(l3, ws). past l1 l3)" if l2: "past l1 l2" for l2
  proof (rule tot_tokens [where I = "\<lambda>(l3, ws). past l1 l3" and g = fst])
    fix s :: "lex \<times> wd list"
    obtain l3 ws where s: "s = (l3, ws)" by fastforce
    assume "case s of (l3, ws) \<Rightarrow> past l1 l3"
    then show "tot (?f s) (\<lambda>x. case x of Inl s1 \<Rightarrow> (case s1 of (l3, ws) \<Rightarrow> past l1 l3) \<and> mu (fst s1) < mu (fst s) | Inr r \<Rightarrow> (case r of (l3, ws) \<Rightarrow> past l1 l3))"
      using step [of l3 ws] unfolding s by (cases "lx_tk l3 = T_WORD") (auto simp: past_def simp del: tot_bind)
  qed (use l2 in auto)
  obtain l2 where l2: "lx_next K l1 = Some l2" "past l1 l2"
    using nextp [of l1] t1 assms(2) by (auto simp: tot_iff)
  from nl_lt [OF l2(2) m1] obtain l3 where l3: "p_nl K l2 = Some l3" "past l1 l3" by (auto simp: tot_iff)
  from loop [OF l3(2)] obtain l4 ws where l4: "tokens l3 ?f (fst (lx_line l3), []) = Some (l4, ws)" "past l1 l4" by (auto simp: tot_iff)
  have "tot (lx_next K l4) (past l1)" if "lx_tk l4 = T_RP" by (rule past_from [OF l4(2) _ m1]) (use that in simp)
  moreover have "past l l4" using l4(2) t1 by (simp add: past_def)
  ultimately show ?thesis unfolding p_arrasg_def using l2(1) l3(1) l4(1) t1
    by (auto simp: past_def elim!: tot_mono)
qed

text \<open>The same as rules that go on with what comes after.\<close>

lemma next_seq:
  "past l l1 \<Longrightarrow> lx_tk l1 \<noteq> T_EOF \<Longrightarrow> mu l \<le> Suc M \<Longrightarrow> (\<And>l2. past l l2 \<Longrightarrow> Q l2) \<Longrightarrow> tot (lx_next K l1) Q"
  by (rule tot_mono [OF past_from])

lemma first_seq:
  "tok_ok l \<Longrightarrow> lx_tk l \<noteq> T_EOF \<Longrightarrow> mu l \<le> Suc M \<Longrightarrow> (\<And>l2. past l l2 \<Longrightarrow> Q l2) \<Longrightarrow> tot (lx_next K (fst (lx_line l))) Q"
  by (rule tot_mono [OF nextp]) auto

lemma nl_seq: "past l l1 \<Longrightarrow> mu l \<le> Suc M \<Longrightarrow> (\<And>l2. past l l2 \<Longrightarrow> Q l2) \<Longrightarrow> tot (p_nl K l1) Q"
  by (rule tot_mono [OF nl_lt])

lemma list_seq: "past l l1 \<Longrightarrow> mu l \<le> Suc M \<Longrightarrow> (\<And>l2 n. past l l2 \<Longrightarrow> Q (l2, n)) \<Longrightarrow> tot (pk_list P l1) Q"
  by (rule tot_mono [OF list_from]) auto

lemma body_seq: "past l l1 \<Longrightarrow> mu l \<le> Suc M \<Longrightarrow> (\<And>l2 n. past l l2 \<Longrightarrow> Q (l2, n)) \<Longrightarrow> tot (p_body P l1) Q"
  by (rule tot_mono [OF body_from]) auto

lemma cmd_seq: "past l l1 \<Longrightarrow> mu l \<le> Suc M \<Longrightarrow> (\<And>l2 n. past l l2 \<Longrightarrow> Q (l2, n)) \<Longrightarrow> tot (pk_cmd P l1) Q"
  by (rule tot_mono [OF cmd_from]) auto

lemma want_seq: "past l l1 \<Longrightarrow> mu l \<le> Suc M \<Longrightarrow> (\<And>l2. past l l2 \<Longrightarrow> Q l2) \<Longrightarrow> tot (p_want K t l1) Q"
  by (rule tot_mono [OF want_from])

lemma arrasg_seq:
  "past l l1 \<Longrightarrow> lx_tk l1 = T_LP \<Longrightarrow> mu l \<le> Suc M \<Longrightarrow> (\<And>l2 a. past l l2 \<Longrightarrow> Q (l2, a)) \<Longrightarrow> tot (p_arrasg K w l1) Q"
  by (rule tot_mono [OF arrasg_from]) auto

lemmas seqs = next_seq first_seq nl_seq list_seq body_seq cmd_seq want_seq arrasg_seq

lemma if_ok:
  assumes "tok_ok l" "lx_tk l \<noteq> T_EOF" "mu l \<le> Suc M"
  shows "tot (p_if K P l) (\<lambda>(l1, n). past l l1)"
proof -
  have e: "tot (pk_if P l1) (\<lambda>(l2, n). past l l2)" if "past l l1" "kw l1 t" for l1 t
    by (rule tot_mono [OF if_good]) (use that assms kw_tk in \<open>auto simp: past_def ok_def\<close>)
  show ?thesis unfolding p_if_def Let_def
    using assms by (auto simp: case_prod_unfold intro!: seqs tot_mono [OF e])
qed

lemma do_from: "past l l1 \<Longrightarrow> mu l \<le> Suc M \<Longrightarrow> tot (p_do K P l1) (\<lambda>(l2, n). past l l2)"
  unfolding p_do_def by (auto simp: case_prod_unfold intro!: seqs)

lemma do_seq: "past l l1 \<Longrightarrow> mu l \<le> Suc M \<Longrightarrow> (\<And>l2 n. past l l2 \<Longrightarrow> Q (l2, n)) \<Longrightarrow> tot (p_do K P l1) Q"
  by (rule tot_mono [OF do_from]) auto

lemma while_ok:
  assumes "tok_ok l" "lx_tk l \<noteq> T_EOF" "mu l \<le> Suc M"
  shows "tot (p_while K P l) (\<lambda>(l1, n). past l l1)"
  unfolding p_while_def Let_def using assms by (auto simp: case_prod_unfold intro!: seqs do_seq)

text \<open>A loop over tokens whose rounds go on from \<open>l1\<close> with a smaller token.\<close>

lemma loop_seq:
  assumes "past l l1" "g s = l1 \<or> g s = fst (lx_line l1)" "mu l \<le> Suc M"
    and step: "\<And>s. past l (g s) \<Longrightarrow> tot (f s) (\<lambda>x. case x of Inl s1 \<Rightarrow> past (g s) (g s1) | Inr r \<Rightarrow> R r)"
    and post: "\<And>r. R r \<Longrightarrow> Q r"
  shows "tot (tokens l1 f s) Q"
proof (rule tot_mono [OF _ post])
  show "tot (tokens l1 f s) R"
  proof (rule tot_tokens [where I = "\<lambda>s. past l (g s)" and g = g])
    fix s
    assume i: "past l (g s)"
    show "tot (f s) (\<lambda>x. case x of Inl s1 \<Rightarrow> past l (g s1) \<and> mu (g s1) < mu (g s) | Inr r \<Rightarrow> R r)"
      by (rule tot_mono [OF step [OF i]]) (use i in \<open>auto simp: past_def split: sum.splits\<close>)
  qed (use assms(1, 2) in \<open>auto simp: past_def\<close>)
qed

lemma semi_seq:
  assumes "past l l1" "mu l \<le> Suc M" "\<And>l2. past l l2 \<Longrightarrow> Q l2"
  shows "tot (p_semi K l1) Q"
  unfolding p_semi_def
  by (rule loop_seq [where g = id and R = "past l", OF assms(1) _ assms(2)])
    (use assms in \<open>auto intro!: tot_mono [OF nextp] simp: past_def\<close>)

lemma loopbody_seq:
  assumes "past l l1" "mu l \<le> Suc M" "\<And>l2 n. past l l2 \<Longrightarrow> Q (l2, n)"
  shows "tot (p_loopbody K P l1) Q"
  unfolding p_loopbody_def using assms by (auto intro!: semi_seq seqs do_seq)

lemma words_seq:
  assumes "past l l1" "mu l \<le> Suc M" "\<And>l2 ws. past l l2 \<Longrightarrow> Q (l2, ws)"
  shows "tot (p_words K l1) Q"
  unfolding p_words_def
  by (rule loop_seq [where g = fst and R = "\<lambda>(l2, ws). past l l2", OF assms(1) _ assms(2)])
    (use assms in \<open>auto intro!: tot_mono [OF nextp] simp: past_def\<close>)

lemma cfor_seq:
  assumes "past l l1" "lx_tk l1 \<noteq> T_EOF" "mu l \<le> Suc M" "\<And>l2 n. past l l2 \<Longrightarrow> Q (l2, n)"
  shows "tot (p_cfor K P l1) Q"
proof -
  have "tot (lx_next K (fst (lx_line l1)) \<bind> p_loopbody K P \<bind> (\<lambda>(l1, b). Some (l1, f b))) Q" for f
    using assms by (auto intro!: loopbody_seq next_seq [of l "fst (lx_line l1)"])
  moreover have "Q (perr (fst (lx_line l1)), n)" for n using assms by auto
  ultimately show ?thesis unfolding p_cfor_def Let_def
    by (auto simp: case_prod_unfold split: list.split simp del: tot_bind)
qed

lemma for_ok:
  assumes "tok_ok l" "lx_tk l \<noteq> T_EOF" "mu l \<le> Suc M"
  shows "tot (p_for K P l) (\<lambda>(l1, n). past l l1)"
  unfolding p_for_def Let_def using assms
  by (auto simp: case_prod_unfold intro!: first_seq cfor_seq split: option.split) (auto intro!: seqs words_seq loopbody_seq)

end

end
