(* ===== verification/ParseTotal.thy ===== *)
theory ParseTotal
  imports ParseLaws
begin

text \<open>
  The rest of the parser's functions under the contract \<open>parsing\<close> of ParseLaws, and the knot: \<open>p_ev\<close> satisfies the
  contract at every fuel, a text being covered by twice its length. The properties of runs of the whole lexer and
  parser are at the end.
\<close>

subsection \<open>Frames\<close>

lemma past_frame [simp]:
  "past l (l1\<lparr>lx_keep := k\<rparr>) = past l l1" "past (l1\<lparr>lx_keep := k\<rparr>) l = past l1 l" "lx_tk (l1\<lparr>lx_keep := k\<rparr>) = lx_tk l1"
  by (simp_all add: past_def tok_ok_def mu_def)

lemma tot_option: "(x = None \<Longrightarrow> tot a Q) \<Longrightarrow> (\<And>w. x = Some w \<Longrightarrow> tot (f w) Q) \<Longrightarrow> tot (case x of None \<Rightarrow> a | Some w \<Rightarrow> f w) Q"
  by (cases x) auto

lemma p_default_le: "length (p_default d p) \<le> length p"
proof (induction d p rule: p_default.induct)
  case (1 d p)
  show ?case
  proof (cases p)
    case (Cons x r)
    note ih = "1.IH" [OF Cons]
    have w: "length (dropWhile (\<lambda>c. c \<noteq> x) r) \<le> length r" by (rule length_dropWhile_le)
    show ?thesis
      by (subst p_default.simps, simp add: Cons Let_def)
        (use ih w in \<open>auto simp: Let_def intro: le_SucI\<close>)
  qed (simp add: p_default.simps)
qed

lemma more_frame [simp]:
  "mu (l1\<lparr>lx_p := p\<rparr>) = mu l1" "mu (lx_set_more l1) = mu l1" "tok_ok (lx_set_more l1) = tok_ok l1" "lx_depth (lx_set_more l1) = lx_depth l1"
  "past l (lx_set_more l1) = past l l1" "ok l (lx_set_more l1) = ok l l1"
  by (simp_all add: lx_set_more_def past_def ok_def tok_ok_def mu_def)

lemma depth_frame [simp]: "mu (l1\<lparr>lx_depth := d\<rparr>) = mu l1" "tok_ok (l1\<lparr>lx_depth := d\<rparr>) = tok_ok l1"
  by (simp_all add: tok_ok_def mu_def)

context parsing begin

lemma func_seq:
  assumes "past l l1" "mu l \<le> Suc M" "\<And>l2 n. past l l2 \<Longrightarrow> Q (l2, n)"
  shows "tot (p_func K P nm l1) Q"
  unfolding p_func_def Let_def tot_bind case_prod_unfold
proof (rule nl_seq [OF assms(1, 2)], rule cmd_seq [of l])
  fix l2 l3 n
  assume "past l l3"
  then show "tot (Some ((fst (l3, n))\<lparr>lx_keep := True\<rparr>, NFunc (Fn nm (snd (lx_line l2)) False [] None (snd (l3, n))))) Q"
    by (simp add: assms(3))
qed (use assms(2) in auto)

lemmas next_b = next_seq [where Q = "\<lambda>r. tot (f r) Q" for f Q, folded tot_bind]
  and nl_b = nl_seq [where Q = "\<lambda>r. tot (f r) Q" for f Q, folded tot_bind]
  and func_b = func_seq [where Q = "\<lambda>r. tot (f r) Q" for f Q, folded tot_bind]
  and arrasg_b = arrasg_seq [where Q = "\<lambda>r. tot (f r) Q" for f Q, folded tot_bind]

lemma sword_ok:
  assumes "tok_ok (ps_l s)" "lx_tk (ps_l s) = T_WORD" "mu (ps_l s) \<le> Suc M"
  shows "tot (p_sword K P s) (\<lambda>x. case x of Inl s1 \<Rightarrow> past (ps_l s) (ps_l s1) | Inr r \<Rightarrow> past (ps_l s) (fst r))"
proof -
  have n: "tot (lx_next K (ps_l s)) (past (ps_l s))" by (rule nextp) (use assms in auto)
  note sq = next_b [OF _ _ assms(3)] func_b [OF _ assms(3)] arrasg_b [OF _ _ assms(3)]
  show ?thesis unfolding p_sword_def Let_def tot_bind [of "lx_next K (ps_l s)"] case_prod_unfold
    apply (rule tot_mono [OF n])
    apply (intro tot_if)
    subgoal for l1 by (intro tot_if sq, assumption) auto
    subgoal for l1 by (rule sq(1), assumption) (auto simp: kw_word)
    subgoal for l1 by (rule sq(3), assumption, simp) (auto split: option.split)
    subgoal for l1 by simp
    subgoal for l1 by (rule sq(3), assumption, simp) (auto split: option.split)
    subgoal for l1 by simp
    done
qed

lemma redir_seq:
  assumes "tok_ok l" "r_kind (lx_tk l) \<noteq> None" "mu l \<le> Suc M" "\<And>l2 r. past l l2 \<Longrightarrow> Q (l2, r)"
  shows "tot (p_redir K l) Q"
  by (rule tot_mono [OF redir_from [of l l]]) (use assms in auto)

lemma simple_ok:
  assumes "tok_ok l" "mu l \<le> Suc M"
  shows "tot (p_simple K P l) (\<lambda>(l1, n). ok l l1)"
  unfolding p_simple_def Let_def case_prod_unfold
proof (rule tot_tokens [where I = "\<lambda>s. ok l (ps_l s)" and g = ps_l])
  fix s :: psim
  assume i: "ok l (ps_l s)"
  then have s: "tok_ok (ps_l s)" "mu (ps_l s) \<le> Suc M" using assms(2) by (auto simp: ok_def)
  have lto: "ok l l1 \<and> mu l1 < mu (ps_l s)" if "past (ps_l s) l1" for l1 using that i by (auto simp: past_def ok_def)
  have w: "tot (p_sword K P s) (\<lambda>x. case x of Inl s1 \<Rightarrow> ok l (ps_l s1) \<and> mu (ps_l s1) < mu (ps_l s) | Inr r \<Rightarrow> ok l (fst r))"
    if "lx_tk (ps_l s) = T_WORD"
    by (rule tot_mono [OF sword_ok [OF s(1) that s(2)]]) (use lto in \<open>auto split: sum.splits\<close>)
  have r: "tot (p_redir K (ps_l s)) (\<lambda>x. ok l (fst x) \<and> mu (fst x) < mu (ps_l s))" if "r_kind (lx_tk (ps_l s)) \<noteq> None"
    by (rule redir_seq [OF s(1) that s(2)]) (use lto in auto)
  show "tot (if lx_tk (ps_l s) = T_WORD then p_sword K P s
       else if r_kind (lx_tk (ps_l s)) \<noteq> None then
         p_redir K (ps_l s) \<bind> (\<lambda>x. Some (if lx_err (fst x) then
           Inr (fst x, if \<not> ps_got s \<and> c_aw ((ps_c s)\<lparr>c_rd := c_rd (ps_c s) @ snd x\<rparr>) = [] \<and> c_rd ((ps_c s)\<lparr>c_rd := c_rd (ps_c s) @ snd x\<rparr>) = [] \<and> c_arr ((ps_c s)\<lparr>c_rd := c_rd (ps_c s) @ snd x\<rparr>) = [] then N0 else NCmd ((ps_c s)\<lparr>c_rd := c_rd (ps_c s) @ snd x\<rparr>))
           else Inl (s\<lparr>ps_l := fst x, ps_c := (ps_c s)\<lparr>c_rd := c_rd (ps_c s) @ snd x\<rparr>\<rparr>)))
       else Some (Inr (ps_l s, if \<not> ps_got s \<and> c_aw (ps_c s) = [] \<and> c_rd (ps_c s) = [] \<and> c_arr (ps_c s) = [] then N0 else NCmd (ps_c s))))
     (\<lambda>x. case x of Inl s1 \<Rightarrow> ok l (ps_l s1) \<and> mu (ps_l s1) < mu (ps_l s) | Inr r \<Rightarrow> ok l (fst r))"
    using i w r by (auto elim!: tot_mono)
qed (use assms in auto)

lemma regex_seq:
  assumes "past l l1" "lx_tk l1 = T_WORD" "mu l \<le> Suc M" "\<And>l2 w. past l l2 \<Longrightarrow> lx_tk l2 = T_WORD \<Longrightarrow> mu l2 \<le> mu l1 \<Longrightarrow> Q (l2, w)"
  shows "tot (p_regex K l1) Q"
proof -
  define b where "b = dropWhile blank (lx_p l1)"
  define e where "e = p_balw 0 b"
  have "tok_ok l1" "mu l1 \<le> M" using assms by (auto simp: past_def)
  then obtain t where t: "lx_tkb l1 = Some t" "strict_suffix (lx_p l1) t" "length t \<le> M" using assms(2) by (auto simp: tok_ok_def mu_def)
  have b: "suffix b (lx_p l1)" unfolding b_def by (rule suffix_dropWhile)
  have eb: "suffix e b" unfolding e_def by (rule p_balw_suffix)
  have e: "strict_suffix e t" using b t(2) eb strict_suffix_mono by blast
  have u: "past l (l2\<lparr>lx_p := e\<rparr>)" "past l l2" "lx_tk l2 = T_WORD" "mu l2 = mu l1" "mu (l2\<lparr>lx_p := e\<rparr>) = mu l1" if "quiet l1 l2" for l2
    using lx_upd_sel [of l1 l2] lx_upd_w [of l1 l2] that assms(1, 2) t e by (auto simp: past_def tok_ok_def mu_def)
  have "length (upto_pos b e) < M"
    using suffix_length_le [OF b] strict_suffix_less [OF t(2)] t(3) by simp
  from word_sub [OF this, of l1 l1 0] obtain l2 w where s: "lx_sub K 0 (upto_pos b e) l1 = Some (l2, w)" "quiet l1 l2" by (auto simp: tot_iff)
  have "past l (perr l2)" "lx_tk (perr l2) = T_WORD" "mu (perr l2) = mu l1" using u [OF s(2)] by auto
  then show ?thesis unfolding p_regex_def Let_def b_def [symmetric] e_def [symmetric] s(1) bind.bind_lunit prod.case
    using assms(4) u [OF s(2)] u [of l1] by (auto split: option.split)
qed

lemmas list_b = list_seq [where Q = "\<lambda>r. tot (f r) Q" for f Q, folded tot_bind]
  and cmd_b = cmd_seq [where Q = "\<lambda>r. tot (f r) Q" for f Q, folded tot_bind]

lemma regex_next:
  assumes "past l l1" "lx_tk l1 = T_WORD" "mu l \<le> Suc M" "\<And>l2. past l l2 \<Longrightarrow> R (Inr (l2, NCond ln [] ws1))"
    "\<And>l2 u. past l l2 \<Longrightarrow> mu l2 < mu l1 \<Longrightarrow> R (Inl (l2, ws2 u))"
  shows "tot (p_regex K l1 \<bind> (\<lambda>(l3, v). case v of
      None \<Rightarrow> Some (Inr (l3, NCond ln [] ws1)) | Some u \<Rightarrow> lx_next K l3 \<bind> (\<lambda>l4. Some (Inl (l4, ws2 u))))) R"
  unfolding tot_bind
proof (rule regex_seq [OF assms(1-3)])
  fix l2 w
  assume l2: "past l l2" "lx_tk l2 = T_WORD" "mu l2 \<le> mu l1"
  then have "tok_ok l2" "mu l2 \<le> Suc M" "lx_depth l2 = lx_depth l" "mu l2 < mu l" using assms by (auto simp: past_def)
  then have "tot (lx_next K l2) (\<lambda>l4. past l l4 \<and> mu l4 < mu l1)"
    using l2 by (intro tot_mono [OF nextp]) (auto simp: past_def)
  then show "tot (case (l2, w) of (l3, None) \<Rightarrow> Some (Inr (l3, NCond ln [] ws1))
      | (l3, Some u) \<Rightarrow> lx_next K l3 \<bind> (\<lambda>l4. Some (Inl (l4, ws2 u)))) R"
    using assms(4) [OF l2(1)] by (auto split: option.split elim!: tot_mono intro: assms(5))
qed

lemma cond_ok:
  assumes "tok_ok l" "lx_tk l \<noteq> T_EOF" "mu l \<le> Suc M"
  shows "tot (p_cond K l) (\<lambda>(l1, n). past l l1)"
proof -
  have c: "lx_tk r \<noteq> T_EOF" if "(case cond_op (lx_tk r) of None \<Rightarrow> if lx_tk r = T_WORD then lx_w r else None | Some t \<Rightarrow> Some (p_opw t)) = Some w" for r w
    using that by (cases "lx_tk r = T_EOF") (simp_all add: cond_op_def)
  have nx: "tot (lx_next K r) (\<lambda>l3. past l l3 \<and> past l1 l3)" if "past l l1" "ok l1 r" "lx_tk r \<noteq> T_EOF" for l1 r
    by (rule tot_mono [OF nextp]) (use that assms(3) in \<open>auto simp: past_def ok_def\<close>)
  show ?thesis unfolding p_cond_def Let_def case_prod_unfold
    apply (rule first_seq [where Q = "\<lambda>r. tot (f r) Q" for f Q, folded tot_bind, OF assms])
    apply (rule loop_seq [where l = l and g = fst and R = "\<lambda>r. past l (fst r)"])
        apply assumption
       apply simp
      apply (rule assms(3))
    subgoal premises prems for l2 s
      unfolding tot_bind [of "p_nl K (fst s)"]
    proof (rule tot_mono [OF nl_from [of "fst s"]], goal_cases)
      case (3 r)
      note lr = past_ok_trans(1) [OF prems(2) 3]
      show ?case
        apply (intro tot_if tot_option)
        subgoal by (simp, rule tot_mono [OF nx [OF prems(2) 3]]) (auto simp: kw_word)
        subgoal using lr by simp
        subgoal for w by (rule regex_next [unfolded case_prod_unfold, OF lr _ assms(3)]) (use 3 prems in \<open>auto simp: past_def ok_def\<close>)
        subgoal for w by (simp, rule tot_mono [OF nx [OF prems(2) 3 c]]) auto
        done
    qed (use prems assms(3) in \<open>auto simp: past_def\<close>)
    apply simp
    done
qed

lemma quiet_ok: "quiet l l1 \<Longrightarrow> ok l0 l \<Longrightarrow> ok l0 l1"
proof -
  assume q: "quiet l l1" and o: "ok l0 l"
  have "tok_ok l1 = tok_ok l" "mu l1 = mu l" "lx_depth l1 = lx_depth l"
    using lx_upd_sel [of l l1] lx_upd_w [of l l1] q by (simp_all add: tok_ok_def mu_def)
  then show ?thesis using o by (simp add: ok_def)
qed

lemma param_ok:
  assumes "tok_ok l" "length p0 < M"
  shows "tot (p_param K l p0) (\<lambda>(l1, x). ok l l1 \<and> (case x of None \<Rightarrow> True | Some (pm, q) \<Rightarrow> pm_nm pm \<noteq> [] \<longrightarrow> length q < length p0))"
proof -
  define p where "p = dropWhile (\<lambda>c. blank c \<or> c = CHR '','' \<or> c = NL) p0"
  define b where "b = (if at p 0 = CHR ''.'' \<and> at p 1 = CHR ''.'' \<and> at p 2 = CHR ''.'' then drop 3 p else p)"
  define e where "e = dropWhile idch b"
  define e1 where "e1 = (if at e 0 = CHR ''?'' then drop 1 e else e)"
  define q where "q = dropWhile blank e1"
  define nm where "nm = (if idch (at q 0) then takeWhile idch q else upto_pos b e1)"
  define q1 where "q1 = (if idch (at q 0) then dropWhile idch q else q)"
  define q2 where "q2 = dropWhile blank q1"
  define d where "d = dropWhile blank (drop 1 q2)"
  define z where "z = p_default 0 d"
  note dw = length_dropWhile_le
  have e: "length e \<le> length b" "length b \<le> length p0" "length e1 \<le> length e" "length q \<le> length e1" "length q2 \<le> length q1" "length d \<le> length q2"
    using dw [of idch b] dw [of "\<lambda>c. blank c \<or> c = CHR '','' \<or> c = NL" p0] dw [of blank e1] dw [of blank q1] dw [of blank "drop 1 q2"]
    by (auto simp: b_def e_def e1_def q_def q2_def d_def p_def)
  have q1: "length q1 \<le> length q" using dw [of idch q] by (simp add: q1_def)
  have z: "length z \<le> length d" unfolding z_def by (rule p_default_le)
  have less: "length q1 < length p0" if n: "nm \<noteq> []"
  proof (cases "idch (at q 0)")
    case True
    then have "length q = length nm + length q1" by (simp add: nm_def q1_def flip: length_append)
    then show ?thesis using n e by (cases nm) auto
  next
    case False
    then have "length nm = length b - length e1" by (simp add: nm_def)
    then show ?thesis using n e q1 by (cases nm) auto
  qed
  have "length (upto_pos d z) < M" using e q1 assms(2) by simp
  from word_sub [OF this, of l l 0] obtain l1 w where s: "lx_sub K 0 (upto_pos d z) l = Some (l1, w)" "quiet l l1" by (auto simp: tot_iff)
  have l1: "ok l l1" by (rule quiet_ok [OF s(2)]) (simp add: assms(1))
  have lz: "length (dropWhile f z) < length p0" "length (dropWhile f q2) < length p0" if "nm \<noteq> []" for f
    using less [OF that] z e dw [of f z] dw [of f q2] by simp_all
  show ?thesis unfolding p_param_def Let_def p_def [symmetric]
    unfolding b_def [symmetric] e_def [symmetric] unfolding e1_def [symmetric] unfolding q_def [symmetric]
    unfolding nm_def [symmetric] q1_def [symmetric] unfolding q2_def [symmetric] d_def [symmetric] z_def [symmetric] s(1)
    using lz l1 assms(1) by (simp split: option.split)
qed

lemma params_ok:
  assumes "tok_ok l" "length p < M"
  shows "tot (p_params K l p) (\<lambda>(l1, ps, b). ok l l1)"
  unfolding p_params_def
proof (rule tot_iter [where I = "\<lambda>(l1, p1, ps). ok l l1 \<and> length p1 \<le> length p" and m = "\<lambda>(l1, p1, ps). length p1"])
  fix s :: "lex \<times> string \<times> param list"
  obtain l1 p1 ps where s: "s = (l1, p1, ps)" by (cases s)
  assume "case s of (l1, p1, ps) \<Rightarrow> ok l l1 \<and> length p1 \<le> length p"
  then have o1: "ok l l1" "length p1 \<le> length p" by (simp_all add: s)
  then have "tok_ok (fst (lx_line l1))" "length p1 < M" using assms(2) by (simp_all add: ok_def)
  from param_ok [OF this] obtain l2 x where
    x: "p_param K (fst (lx_line l1)) p1 = Some (l2, x)" "ok (fst (lx_line l1)) l2" "\<And>pm q. x = Some (pm, q) \<Longrightarrow> pm_nm pm \<noteq> [] \<longrightarrow> length q < length p1"
    by (auto simp: tot_iff split: option.splits)
  have "ok l l2" using x(2) by (intro ok_trans [OF o1(1)]) simp
  then show "tot (case s of (l, p, ps) \<Rightarrow>
      if p = [] then Some (Inr (l, ps, True))
      else p_param K (fst (lx_line l)) p \<bind> (\<lambda>(l1, x).
        Some (case x of None \<Rightarrow> Inr (l1, ps, True)
          | Some (pm, q) \<Rightarrow> if pm_nm pm = [] then Inr (perr l1, ps, False) else Inl (l1, q, ps @ [pm]))))
     (\<lambda>x. case x of Inl s1 \<Rightarrow> (case s1 of (l1, p1, ps) \<Rightarrow> ok l l1 \<and> length p1 \<le> length p) \<and> (case s1 of (l1, p1, ps) \<Rightarrow> length p1) < (case s of (l1, p1, ps) \<Rightarrow> length p1)
       | Inr r \<Rightarrow> (case r of (l1, ps, b) \<Rightarrow> ok l l1))"
    using o1 x(3) by (auto simp: s x(1) split: option.split)
qed (use assms in auto)

lemma if_Some [simp]: "(if b then x else None) = Some y \<longleftrightarrow> b \<and> x = Some y"
  by simp

lemma function_ok:
  assumes "tok_ok l" "lx_tk l \<noteq> T_EOF" "mu l \<le> Suc M"
  shows "tot (p_function K P l) (\<lambda>(l1, n). past l l1)"
  unfolding p_function_def Let_def case_prod_unfold using assms
  by (intro first_seq [where Q = "\<lambda>r. tot (f r) Q" for f Q, folded tot_bind] tot_option tot_if next_b [of l])
    (auto intro!: next_seq [of l] nl_seq [of l] cmd_seq [of l])

lemma loop_ok:
  assumes "ok l l1" "g s = l1 \<or> g s = fst (lx_line l1)" "mu l \<le> Suc M"
    and step: "\<And>s. ok l (g s) \<Longrightarrow> tot (f s) (\<lambda>x. case x of Inl s1 \<Rightarrow> past (g s) (g s1) | Inr r \<Rightarrow> R r)"
    and post: "\<And>r. R r \<Longrightarrow> Q r"
  shows "tot (tokens l1 f s) Q"
proof (rule tot_mono [OF _ post])
  show "tot (tokens l1 f s) R"
  proof (rule tot_tokens [where I = "\<lambda>s. ok l (g s)" and g = g])
    fix s
    assume i: "ok l (g s)"
    show "tot (f s) (\<lambda>x. case x of Inl s1 \<Rightarrow> ok l (g s1) \<and> mu (g s1) < mu (g s) | Inr r \<Rightarrow> R r)"
      by (rule tot_mono [OF step [OF i]]) (use i in \<open>auto simp: ok_def past_def split: sum.splits\<close>)
  qed (use assms(1, 2) in auto)
qed

lemma pats_ok:
  assumes "ok l l1" "mu l \<le> Suc M"
  shows "tot (p_pats K l1) (\<lambda>(l2, ws). ok l l2 \<and> (ws \<noteq> None \<longrightarrow> past l l2))"
  unfolding p_pats_def
proof (rule loop_ok [where g = fst and R = "\<lambda>(l2, ws). ok l l2 \<and> (ws \<noteq> None \<longrightarrow> past l l2)", OF assms(1) _ assms(2)])
  fix s :: "lex \<times> wd list"
  assume s: "ok l (fst s)"
  then have m: "mu (fst s) \<le> Suc M" "tok_ok (fst s)" using assms(2) by (auto simp: ok_def)
  have n: "tot (lx_next K (fst s)) (past (fst s))" if "lx_tk (fst s) = T_WORD" using nextp [OF m(2) _ m(1)] that by simp
  have t: "past (fst s) l2 \<Longrightarrow> past l l2" for l2 using s by (auto simp: past_def ok_def)
  show "tot (case s of (l, ws) \<Rightarrow>
      if lx_tk l \<noteq> T_WORD then Some (Inr (perr l, None))
      else let ws1 = ws @ [the (lx_w l)]
        in lx_next K l \<bind> (\<lambda>l1. if lx_tk l1 \<noteq> T_PIPE then Some (Inr (l1, Some ws1)) else lx_next K l1 \<bind> (\<lambda>l2. Some (Inl (l2, ws1)))))
     (\<lambda>x. case x of Inl s1 \<Rightarrow> past (fst s) (fst s1) | Inr r \<Rightarrow> (case r of (l2, ws) \<Rightarrow> ok l l2 \<and> (ws \<noteq> None \<longrightarrow> past l l2)))"
    unfolding Let_def case_prod_unfold using s t
    by (intro tot_if) (auto intro!: tot_mono [OF n] next_seq [OF _ _ m(1)] intro: past_ok)
qed (use assms in auto)

lemma clause_ok:
  assumes "tok_ok l" "lx_tk l \<noteq> T_EOF" "mu l \<le> Suc M"
  shows "tot (p_clause K P l) (\<lambda>(l2, c). ok l l2 \<and> (c \<noteq> None \<longrightarrow> past l l2))"
proof -
  have m: "map_of [(T_DSEMI, 0), (T_SEMIAMP, 1), (T_DSEMIAMP, 2)] T_EOF = (None :: nat option)" by simp
  have "tot (if lx_tk l = T_LP then lx_next K l else Some l) (ok l)"
    using assms by (auto intro!: tot_mono [OF nextp] past_ok)
  then obtain l0 where l0: "(if lx_tk l = T_LP then lx_next K l else Some l) = Some l0" "ok l l0" by (auto simp: tot_iff)
  from pats_ok [OF l0(2) assms(3)] obtain l1 x where l1: "p_pats K l0 = Some (l1, x)" "ok l l1" "x \<noteq> None \<longrightarrow> past l l1"
    by (auto simp: tot_iff)
  have "tot (case x of None \<Rightarrow> Some (l1, None)
    | Some ws \<Rightarrow>
        if lx_tk l1 \<noteq> T_RP then Some (perr l1, None)
        else
          lx_next K l1 \<bind> pk_list P \<bind> (\<lambda>(l2, b).
          case map_of [(T_DSEMI, 0), (T_SEMIAMP, 1), (T_DSEMIAMP, 2)] (lx_tk l2) of
            Some f \<Rightarrow> lx_next K l2 \<bind> p_nl K \<bind> (\<lambda>l3. Some (l3, Some (ws, f, b)))
          | None \<Rightarrow>
              if \<not> kw l2 ''esac'' then Some (perr l2, None)
              else p_nl K l2 \<bind> (\<lambda>l3. Some (l3, Some (ws, 0, b))))) (\<lambda>(l2, c). ok l l2 \<and> (c \<noteq> None \<longrightarrow> past l l2))"
    if x: "ok l l1" "x \<noteq> None \<longrightarrow> past l l1" for l1 x
  proof (cases x)
    case (Some ws)
    then have l1: "past l l1" using x by simp
    show ?thesis unfolding Some option.case tot_bind case_prod_unfold
      apply (intro tot_if)
      subgoal using x by simp
      apply (simp only: tot_bind)
      apply (rule next_seq [OF l1 _ assms(3)], simp)
      apply (rule list_seq [OF _ assms(3)], assumption)
      apply (intro tot_option tot_if)
      subgoal by (simp add: past_ok)
      subgoal by (simp, rule nl_seq [OF _ assms(3)]) (auto simp: past_ok)
      subgoal for l2 l3 n f
        by (cases "lx_tk l3 = T_EOF")
          (simp_all only: m fst_conv option.distinct, auto intro!: next_seq [of l] nl_seq [of l] simp: assms(3) past_ok)
      done
  qed (use x in simp)
  from this [OF l1(2, 3)] show ?thesis unfolding p_clause_def l0(1) bind.bind_lunit l1(1) prod.case .
qed

lemma case_ok:
  assumes "tok_ok l" "lx_tk l \<noteq> T_EOF" "mu l \<le> Suc M"
  shows "tot (p_case K P l) (\<lambda>(l1, n). past l l1)"
proof -
  have step: "tot (if kw l1 ''esac'' then lx_next K l1 \<bind> (\<lambda>l4. Some (Inr (l4, NCase ln [] w cs)))
       else if lx_tk l1 = T_EOF then Some (Inr (perr l1, NCase ln [] w cs))
       else p_clause K P (fst (lx_line l1)) \<bind> (\<lambda>x. Some (case snd x of
         None \<Rightarrow> Inr (fst x, NCase ln [] w cs) | Some c \<Rightarrow> Inl (fst x, cs @ [c]))))
     (\<lambda>x. case x of Inl s1 \<Rightarrow> past l1 (fst s1) | Inr r \<Rightarrow> past l (fst r))" if l1: "past l l1" for l1 ln w cs
  proof (intro tot_if)
    assume "kw l1 ''esac''"
    then show "tot (lx_next K l1 \<bind> (\<lambda>l4. Some (Inr (l4, NCase ln [] w cs)))) (\<lambda>x. case x of Inl s1 \<Rightarrow> past l1 (fst s1) | Inr r \<Rightarrow> past l (fst r))"
      using l1 assms(3) by (auto intro!: next_seq [of l] simp: kw_word)
  next
    assume "lx_tk l1 \<noteq> T_EOF"
    then have "tot (p_clause K P (fst (lx_line l1))) (\<lambda>(l2, c). ok l1 l2 \<and> (c \<noteq> None \<longrightarrow> past l1 l2))"
      by (intro tot_mono [OF clause_ok [of "fst (lx_line l1)"]]) (use l1 assms(3) in \<open>auto simp: past_def\<close>)
    then show "tot (p_clause K P (fst (lx_line l1)) \<bind> (\<lambda>x. Some (case snd x of
         None \<Rightarrow> Inr (fst x, NCase ln [] w cs) | Some c \<Rightarrow> Inl (fst x, cs @ [c]))))
       (\<lambda>x. case x of Inl s1 \<Rightarrow> past l1 (fst s1) | Inr r \<Rightarrow> past l (fst r))"
      using past_ok_trans(1) [OF l1] by (auto elim!: tot_mono split: option.split)
  qed (use l1 in simp)
  have loop: "tot (tokens l3 (\<lambda>x.
       if kw (fst x) ''esac'' then lx_next K (fst x) \<bind> (\<lambda>l4. Some (Inr (l4, NCase ln [] w (snd x))))
       else if lx_tk (fst x) = T_EOF then Some (Inr (perr (fst x), NCase ln [] w (snd x)))
       else p_clause K P (fst (lx_line (fst x))) \<bind> (\<lambda>y. Some (case snd y of
         None \<Rightarrow> Inr (fst y, NCase ln [] w (snd x)) | Some c \<Rightarrow> Inl (fst y, snd x @ [c])))) (l3, [])) (\<lambda>x. past l (fst x))"
    if "past l l3" for l3 ln w
    by (rule loop_seq [where g = fst and R = "\<lambda>x. past l (fst x)", OF that _ assms(3)]) (simp, erule step, assumption)
  show ?thesis unfolding p_case_def Let_def case_prod_unfold
    apply (rule first_seq [where Q = "\<lambda>r. tot (f r) Q" for f Q, folded tot_bind, OF assms])
    apply (intro tot_option)
    subgoal by simp
    apply (simp only: tot_bind if_Some)
    apply (rule next_seq [OF _ _ assms(3)], assumption, simp)
    apply (rule nl_seq [OF _ assms(3)], assumption)
    apply (intro tot_if)
    subgoal by simp
    apply (simp only: tot_bind)
    apply (rule next_seq [OF _ _ assms(3)], assumption, simp add: kw_word)
    apply (rule nl_seq [OF _ assms(3)], assumption)
    apply (erule loop)
    done
qed

lemma span_ok:
  assumes "past l l1" "lx_tk l1 = T_LP" "lx_span l1 = (l2, Some t)"
  shows "past l (fst (lx_arrow l2))" "lx_tk (fst (lx_arrow l2)) = T_LP" "length t < mu l1"
proof -
  obtain e where e: "sk_bal (lx_p l1) (CHR ''('') (CHR '')'') False = Some e" "l2 = l1\<lparr>lx_p := drop 1 e\<rparr>" "t = upto_pos (lx_p l1) e"
    using assms(3) by (auto simp: lx_span_def split: option.splits)
  obtain b where b: "lx_tkb l1 = Some b" "strict_suffix (lx_p l1) b" "mu l1 = length b" using assms(1, 2) by (auto simp: past_def tok_ok_def mu_def)
  have s: "suffix (drop 1 e) (lx_p l1)" using sk_bal_suffix(1) [OF e(1)] by (meson suffix_drop suffix_order.trans)
  have lp: "past l (l1\<lparr>lx_p := p\<rparr>)" if "suffix p (lx_p l1)" for p
    using assms(1) b(1) strict_suffix_mono [OF that b(2)] by (simp add: past_def) (simp add: tok_ok_def)
  show "length t < mu l1" using e(3) b(3) strict_suffix_less [OF b(2)] by simp
  let ?p = "dropWhile blank (drop 1 e)"
  have d: "suffix (dropWhile f q) q" for f and q :: string by (rule suffix_dropWhile)
  have "suffix ?p (lx_p l1)" using d s by (meson suffix_order.trans)
  then have "suffix (dropWhile blank (drop 2 ?p)) (lx_p l1)" using d by (meson suffix_drop suffix_order.trans)
  then have "suffix (dropWhile idch (dropWhile blank (drop 2 ?p))) (lx_p l1)" using d by (meson suffix_order.trans)
  then show "past l (fst (lx_arrow l2))" "lx_tk (fst (lx_arrow l2)) = T_LP"
    unfolding lx_arrow_def Let_def e(2) using assms(2) lp lp [OF s]
    by (auto intro: suffix_order.trans [OF suffix_drop])
qed

lemma fn_ok:
  assumes "tok_ok l" "lx_tk l \<noteq> T_EOF" "mu l \<le> Suc M"
  shows "tot (p_fn K P l) (\<lambda>(l1, n). past l l1)"
  unfolding p_fn_def Let_def case_prod_unfold
  apply (rule first_seq [where Q = "\<lambda>r. tot (f r) Q" for f Q, folded tot_bind, OF assms])
  apply (intro tot_option tot_if)
  subgoal by simp
  subgoal by simp
  apply (simp only: tot_bind if_Some)
  apply (rule next_seq [OF _ _ assms(3)], assumption, simp)
  apply (intro tot_option tot_if)
  subgoal by simp
  subgoal by (simp add: lx_span_def split: option.splits)
  subgoal premises p for l1 nm l2 sig
  proof -
    have s: "past l (fst (lx_arrow (fst (lx_span l2))))" "lx_tk (fst (lx_arrow (fst (lx_span l2)))) = T_LP" "length sig < mu l2"
      using span_ok [OF p(4), of "fst (lx_span l2)" sig] p by (simp_all add: prod_eq_iff)
    then have m: "length sig < M" using p(4) assms(3) by (simp add: past_def)
    have ps: "tot (p_params K l5 sig) (\<lambda>x. past l (fst x))" if "past l l5" for l5
      by (rule tot_mono [OF params_ok [OF _ m]]) (use that past_ok_trans(1) in \<open>auto simp: past_def ok_def\<close>)
    show ?thesis unfolding tot_bind
      by (rule next_seq [OF s(1) _ assms(3)], simp add: s(2), rule nl_seq [OF _ assms(3)], assumption, rule tot_mono [OF ps], assumption)
        (auto intro!: cmd_seq [OF _ assms(3)])
  qed
  done

lemma cmd2_ok:
  assumes "tok_ok l" "mu l \<le> Suc M"
  shows "tot (p_cmd2 K P l) (\<lambda>(l1, n). ok l l1)"
proof -
  have tl: "tot (p_rtail K (l1, n)) (\<lambda>x. ok l (fst x))" if "past l l1" for l1 n
    by (rule tot_mono [OF rtail_from [OF past_ok [OF that] assms(2)]]) auto
  note fs = first_seq [where l = l, OF assms(1) _ assms(2)]
  have nx1: "lx_tk l \<noteq> T_EOF \<Longrightarrow> tot (lx_next K l) (past l)" by (rule nextp [OF assms(1) _ assms(2)])
  have t2: "tot (f K P l \<bind> p_rtail K) (\<lambda>x. ok l (fst x))" if "tot (f K P l) (\<lambda>(l1, n). past l l1)" for f
    unfolding tot_bind by (rule tot_mono [OF that]) (auto intro: tl)
  show ?thesis
    unfolding p_cmd2_def Let_def case_prod_unfold
    apply (intro tot_if t2)
    subgoal
      unfolding tot_bind
      by (rule tot_mono [OF nx1], simp, rule body_seq [OF _ assms(2)], simp, intro tot_if)
        (auto intro!: tl next_seq [OF _ _ assms(2)])
    subgoal
      unfolding tot_bind
      by (rule tot_mono [OF nx1], simp add: kw_word, rule body_seq [OF _ assms(2)], simp)
        (auto intro!: tl want_seq [OF _ assms(2)])
    subgoal by (rule if_ok) (use assms in \<open>auto simp: kw_word\<close>)
    subgoal by (rule while_ok) (use assms in \<open>auto simp: kw_word\<close>)
    subgoal by (rule for_ok) (use assms in \<open>auto simp: kw_word\<close>)
    subgoal unfolding tot_bind by (rule fs) (auto intro!: tl)
    subgoal by (rule cond_ok) (use assms in \<open>auto simp: kw_word\<close>)
    subgoal by (rule case_ok) (use assms in \<open>auto simp: kw_word\<close>)
    subgoal by (rule tot_mono [OF fn_ok]) (use assms in \<open>auto simp: kw_word past_ok\<close>)
    subgoal by (rule tot_mono [OF function_ok]) (use assms in \<open>auto simp: kw_word past_ok\<close>)
    subgoal by (rule tot_mono [OF simple_ok]) (use assms in auto)
    done
qed

lemma cmd_ok:
  assumes "tok_ok l" "mu l \<le> Suc M"
  shows "tot (p_cmd K P l) (\<lambda>(l1, n). ok l l1)"
proof -
  have "tot (p_cmd2 K P (l\<lparr>lx_depth := lx_depth l + 1\<rparr>)) (\<lambda>(l1, n). ok (l\<lparr>lx_depth := lx_depth l + 1\<rparr>) l1)"
    by (rule cmd2_ok) (use assms in simp_all)
  then show ?thesis unfolding p_cmd_def tot_bind using assms(1)
    by (intro tot_if) (auto simp: ok_def elim!: tot_mono)
qed

lemma flag_seq:
  assumes "past l l1" "mu l \<le> Suc M" "\<And>l2 f. past l l2 \<Longrightarrow> Q (l2, f)"
  shows "tot (p_flag K t (l1, f)) Q"
  unfolding p_flag_def using assms by (auto intro!: next_seq [OF _ _ assms(2)])

lemma pfx_ok:
  assumes "tok_ok l" "mu l \<le> Suc M"
  shows "tot (p_pfx K l) (\<lambda>(l1, xs, np). ok l (l1\<lparr>lx_depth := lx_depth l1 - np\<rparr>))"
  unfolding p_pfx_def
proof (rule tot_tokens [where I = "\<lambda>(l1, xs, np). tok_ok l1 \<and> mu l1 \<le> mu l \<and> lx_depth l1 = lx_depth l + np" and g = fst])
  fix s :: "lex \<times> pfx list \<times> nat"
  obtain l1 xs np where s: "s = (l1, xs, np)" by (cases s)
  let ?I = "\<lambda>(l1, xs, np). tok_ok l1 \<and> mu l1 \<le> mu l \<and> lx_depth l1 = lx_depth l + np"
  assume "?I s"
  then have i: "tok_ok l1" "mu l1 \<le> mu l" "lx_depth l1 = lx_depth l + np" "mu l1 \<le> Suc M" using assms(2) by (simp_all add: s)
  let ?d = "l1\<lparr>lx_depth := lx_depth l1 + 1\<rparr>"
  have d: "tok_ok ?d" "mu ?d \<le> Suc M" using i by simp_all
  have lt2: "tok_ok l2 \<and> mu l2 < mu l1 \<and> mu l2 \<le> mu l \<and> lx_depth l2 = Suc (lx_depth l1)" if "past ?d l2" for l2
    using that i by (simp add: past_def)
  show "tot (case s of (l, xs, np) \<Rightarrow>
      let tm = kw l ''time'' in
      if \<not> kw l ''!'' \<and> \<not> tm then Some (Inr (l, xs, np))
      else if tm \<and> xs \<noteq> [] \<and> last xs \<noteq> PNot then lx_next K l \<bind> (\<lambda>l1. Some (Inl (l1, xs, np)))
      else
        let l1 = l\<lparr>lx_depth := lx_depth l + 1\<rparr> in
        if lx_depth l1 > LX_DEPTH then Some (Inr (perr l1, xs, np + 1))
        else
          let (l2, ln) = lx_line l1 in
          lx_next K l2 \<bind> (\<lambda>l3.
          if tm then p_flag K ''-p'' (l3, False) \<bind> p_flag K ''--'' \<bind> (\<lambda>(l4, f). Some (Inl (l4, xs @ [PTime ln f], np + 1)))
          else Some (Inl (l3, xs @ [PNot], np + 1))))
     (\<lambda>x. case x of Inl s1 \<Rightarrow> ?I s1 \<and> mu (fst s1) < mu (fst s) | Inr r \<Rightarrow> (case r of (l1, xs, np) \<Rightarrow> ok l (l1\<lparr>lx_depth := lx_depth l1 - np\<rparr>)))"
    unfolding s prod.case Let_def case_prod_unfold fst_conv snd_conv
    apply (intro tot_if)
    subgoal using i by (simp add: ok_def)
    subgoal using i by (auto simp: kw_word past_def intro!: tot_mono [OF nextp])
    subgoal using i by (simp add: ok_def)
    subgoal unfolding tot_bind
      apply (rule first_seq [OF d(1) _ d(2)], use kw_word in force)
      apply (intro tot_if)
      subgoal by (simp only: tot_bind, rule flag_seq [OF _ d(2)], assumption, rule flag_seq [OF _ d(2)], assumption) (use i lt2 in auto)
      subgoal using i lt2 by auto
      done
    done
qed (use assms in auto)

lemma stages_ok:
  assumes "ok l l1" "mu l \<le> Suc M"
  shows "tot (p_stages K P (l1, n)) (\<lambda>(l2, n). ok l l2)"
  unfolding p_stages_def fst_conv
proof (rule loop_ok [where g = fst and R = "\<lambda>(l2, n). ok l l2", OF assms(1) _ assms(2)])
  fix s :: "lex \<times> node"
  assume s: "ok l (fst s)"
  then have m: "mu (fst s) \<le> Suc M" "tok_ok (fst s)" using assms(2) by (auto simp: ok_def)
  have t: "past (fst s) l2 \<Longrightarrow> ok l l2" for l2 using s past_ok ok_trans by blast
  show "tot (case s of (l, n) \<Rightarrow>
      if n = N0 \<or> lx_tk l \<noteq> T_PIPE \<and> lx_tk l \<noteq> T_PIPEAMP then Some (Inr (l, n))
      else
        let n1 = (if lx_tk l = T_PIPEAMP then p_errpipe n else n) in
        lx_next K l \<bind> p_nl K \<bind> (\<lambda>l1. let (l2, ln) = lx_line l1 in
        pk_cmd P l2 \<bind> (\<lambda>(l3, r).
        Some (if r = N0 then Inr (perr l3, NPipe ln [] n1 N0) else Inl (l3, NPipe ln [] n1 r)))))
     (\<lambda>x. case x of Inl s1 \<Rightarrow> past (fst s) (fst s1) | Inr r \<Rightarrow> (case r of (l2, n) \<Rightarrow> ok l l2))"
    unfolding Let_def case_prod_unfold
    apply (intro tot_if)
    subgoal using s by simp
    apply (simp only: tot_bind)
    apply (rule tot_mono [OF nextp [OF m(2) _ m(1)]], fastforce)
    apply (rule nl_seq [OF _ m(1)], assumption)
    apply (rule cmd_seq [OF _ m(1)], simp)
    using t by simp
qed simp

lemma pipe_ok:
  assumes "tok_ok l" "mu l \<le> C"
  shows "tot (p_pipe K P l) (\<lambda>(l1, n). ok l l1)"
proof -
  have m: "mu l \<le> Suc M" using assms(2) fuels by simp
  have p: "tot (if lx_tk l = T_WORD then p_pfx K l else Some (l, [], 0)) (\<lambda>(l1, xs, np). ok l (l1\<lparr>lx_depth := lx_depth l1 - np\<rparr>))"
    using pfx_ok [OF assms(1) m] assms(1) by simp
  have c: "tot (pk_cmd P l2 \<bind> p_stages K P \<bind> (\<lambda>x. Some (fst x, h (snd x)))) (\<lambda>x. ok l (fst x))" if "ok l l2" for l2 h
    unfolding tot_bind
    by (rule tot_mono [OF cmd_good])
      (use that assms m in \<open>auto simp: ok_def [of l l2] intro!: tot_mono [OF stages_ok [OF ok_trans [OF that]]]\<close>)
  show ?thesis unfolding p_pipe_def Let_def case_prod_unfold tot_bind [of "if lx_tk l = T_WORD then p_pfx K l else Some (l, [], 0)"]
    by (rule tot_mono [OF p], intro tot_if) (simp add: case_prod_unfold, rule c, simp add: case_prod_unfold)
qed

lemma pipe_from:
  assumes "past l l1" "mu l \<le> Suc M"
  shows "tot (p_pipe K P l1) (\<lambda>(l2, n). past l l2)"
  by (rule tot_mono [OF pipe_ok]) (use assms fuels in \<open>auto simp: past_def ok_def\<close>)

lemma andor_ok:
  assumes "tok_ok l" "mu l \<le> C"
  shows "tot (p_andor K P l) (\<lambda>(l1, n, tx). ok l l1)"
proof -
  have m: "mu l \<le> Suc M" using assms(2) fuels by simp
  have loop: "tot (tokens l (\<lambda>(l, n).
      if n = N0 \<or> lx_tk l \<noteq> T_AND \<and> lx_tk l \<noteq> T_OR then Some (Inr (l, n))
      else
        let mk = (if lx_tk l = T_AND then NAnd n else NOr n) in
        lx_next K l \<bind> p_nl K \<bind> (\<lambda>l1.
        p_pipe K P (fst (lx_line l1)) \<bind> (\<lambda>(l2, r).
        Some (if r = N0 then Inr (perr l2, mk N0) else Inl (l2, mk r))))) (l1, n)) (\<lambda>(l2, n). ok l l2)" if l1: "ok l l1" for l1 n
  proof (rule tot_tokens [where I = "\<lambda>s. ok l (fst s)" and g = fst])
    fix s :: "lex \<times> node"
    assume s: "ok l (fst s)"
    then have t: "tok_ok (fst s)" "mu (fst s) \<le> Suc M" "mu (fst s) \<le> mu l" using m by (auto simp: ok_def)
    have tr: "ok l l2 \<and> mu l2 < mu (fst s)" if "past (fst s) l2" for l2 using ok_trans [OF s past_ok [OF that]] that by (simp add: past_def)
    show "tot (case s of (l, n) \<Rightarrow>
        if n = N0 \<or> lx_tk l \<noteq> T_AND \<and> lx_tk l \<noteq> T_OR then Some (Inr (l, n))
        else
          let mk = (if lx_tk l = T_AND then NAnd n else NOr n) in
          lx_next K l \<bind> p_nl K \<bind> (\<lambda>l1.
          p_pipe K P (fst (lx_line l1)) \<bind> (\<lambda>(l2, r).
          Some (if r = N0 then Inr (perr l2, mk N0) else Inl (l2, mk r)))))
       (\<lambda>x. case x of Inl s1 \<Rightarrow> ok l (fst s1) \<and> mu (fst s1) < mu (fst s) | Inr r \<Rightarrow> (case r of (l2, n) \<Rightarrow> ok l l2))"
      unfolding Let_def case_prod_unfold
      apply (intro tot_if)
      subgoal using s by simp
      apply (simp only: tot_bind)
      apply (rule tot_mono [OF nextp [OF t(1) _ t(2)]], fastforce)
      apply (rule nl_seq [OF _ t(2)], assumption)
      apply (rule tot_mono [OF pipe_from [OF _ t(2)]], simp)
      using tr by auto
  qed (use l1 in \<open>auto simp: ok_def\<close>)
  show ?thesis unfolding p_andor_def tot_bind Let_def
    by (rule tot_mono [OF pipe_ok [OF assms]]) (auto intro!: tot_mono [OF loop [unfolded Let_def]])
qed

lemma item_ok:
  assumes "tok_ok l" "mu l \<le> C"
  shows "tot (p_item K P nl l) (\<lambda>(l1, n, more). ok l l1 \<and> (more \<longrightarrow> past l l1))"
proof -
  have n: "tot (lx_next K l1) (past l)" if "ok l l1" "lx_tk l1 \<noteq> T_EOF" for l1
    by (rule next_from [OF that]) (use assms(2) fuels in simp)
  show ?thesis unfolding p_item_def tot_bind case_prod_unfold
    apply (rule tot_mono [OF andor_ok [OF assms]])
    apply (intro tot_if)
    subgoal by auto
    subgoal by (auto intro!: tot_mono [OF n] simp: past_ok)
    subgoal by (auto intro!: tot_mono [OF n] simp: past_ok)
    subgoal by auto
    done
qed

lemma list_ok:
  assumes "tok_ok l" "mu l \<le> C"
  shows "tot (p_list K P l) (\<lambda>(l1, n). ok l l1)"
proof -
  have m: "mu l \<le> Suc M" using assms(2) fuels by simp
  have loop: "tot (tokens l0 (\<lambda>(l, ns).
        p_item K P True l \<bind> (\<lambda>(l1, r, more).
        if r = N0 then Some (Inr (l1, p_seqs ns))
        else if \<not> more then Some (Inr (l1, p_seqs (ns @ [r])))
        else p_nl K l1 \<bind> (\<lambda>l2. Some (if lx_err l2 \<or> p_end l2 then Inr (l2, p_seqs (ns @ [r])) else Inl (l2, ns @ [r]))))) (l0, []))
      (\<lambda>(l1, n). ok l l1)" if l0: "ok l l0" for l0
  proof (rule loop_ok [where g = fst and R = "\<lambda>(l2, n). ok l l2", OF l0 _ m])
    fix s :: "lex \<times> node list"
    assume s: "ok l (fst s)"
    then have t: "tok_ok (fst s)" "mu (fst s) \<le> C" "mu (fst s) \<le> Suc M" using assms(2) m by (auto simp: ok_def)
    note tr = ok_trans [OF s]
    show "tot (case s of (l, ns) \<Rightarrow>
        p_item K P True l \<bind> (\<lambda>(l1, r, more).
        if r = N0 then Some (Inr (l1, p_seqs ns))
        else if \<not> more then Some (Inr (l1, p_seqs (ns @ [r])))
        else p_nl K l1 \<bind> (\<lambda>l2. Some (if lx_err l2 \<or> p_end l2 then Inr (l2, p_seqs (ns @ [r])) else Inl (l2, ns @ [r])))))
       (\<lambda>x. case x of Inl s1 \<Rightarrow> past (fst s) (fst s1) | Inr r \<Rightarrow> (case r of (l2, n) \<Rightarrow> ok l l2))"
      unfolding case_prod_unfold tot_bind
      apply (rule tot_mono [OF item_ok [OF t(1, 2)]])
      apply (intro tot_if)
      subgoal using tr by auto
      subgoal using tr by auto
      subgoal using tr by (auto intro!: nl_seq [OF _ t(3)] simp: past_ok)
      done
  qed simp
  have "tot (p_nl K l) (ok l)" by (rule nl_from) (use assms m in auto)
  then show ?thesis unfolding p_list_def tot_bind [of "p_nl K l"]
    by (rule tot_mono) (auto intro!: loop simp del: tot_bind)
qed

lemma line_ok:
  assumes "tok_ok l" "mu l \<le> C"
  shows "tot (p_line K P l) (\<lambda>(l1, n). ok l l1)"
proof -
  have m: "mu l \<le> Suc M" using assms(2) fuels by simp
  have "tot (tokens l (\<lambda>(l, ns).
      if p_end l then Some (Inr (l, p_seqs ns))
      else
        p_item K P False l \<bind> (\<lambda>(l1, r, more). Some (
        if r = N0 then Inr (l1, p_seqs ns)
        else if \<not> more \<or> lx_err l1 \<or> lx_tk l1 = T_NL \<or> lx_tk l1 = T_EOF then Inr (l1, p_seqs (ns @ [r]))
        else Inl (l1, ns @ [r])))) (l, [])) (\<lambda>(l1, n). ok l l1)"
  proof (rule loop_ok [where g = fst and R = "\<lambda>(l2, n). ok l l2", OF _ _ m])
    fix s :: "lex \<times> node list"
    assume s: "ok l (fst s)"
    then have t: "tok_ok (fst s)" "mu (fst s) \<le> C" using assms(2) by (auto simp: ok_def)
    show "tot (case s of (l, ns) \<Rightarrow>
        if p_end l then Some (Inr (l, p_seqs ns))
        else
          p_item K P False l \<bind> (\<lambda>(l1, r, more). Some (
          if r = N0 then Inr (l1, p_seqs ns)
          else if \<not> more \<or> lx_err l1 \<or> lx_tk l1 = T_NL \<or> lx_tk l1 = T_EOF then Inr (l1, p_seqs (ns @ [r]))
          else Inl (l1, ns @ [r]))))
       (\<lambda>x. case x of Inl s1 \<Rightarrow> past (fst s) (fst s1) | Inr r \<Rightarrow> (case r of (l2, n) \<Rightarrow> ok l l2))"
      using s ok_trans [OF s] unfolding case_prod_unfold
      by (intro tot_if) (auto intro!: tot_mono [OF item_ok [OF t]] split: sum.splits if_splits)
  qed (use assms in simp_all)
  then show ?thesis unfolding p_line_def tot_bind by (auto elim!: tot_mono)
qed

end

subsection \<open>The knot\<close>

lemma nx_ok:
  assumes "nx l l1"
  shows "tok_ok l1" "mu l1 \<le> length (lx_p l)" "lx_depth l1 = lx_depth l"
  using assms by (auto simp: nx_def tok_ok_def mu_def dest: suffix_length_le)

lemma parsing_step:
  assumes "parsing K P M C"
  shows "parsing \<lparr>lk_word = lx_word K, lk_list = \<lambda>l. lx_next K l \<bind> p_list K P \<bind> (\<lambda>(l1, x). Some l1)\<rparr>
    \<lparr>pk_list = p_list K P, pk_cmd = p_cmd K P, pk_if = p_if K P\<rparr> C (Suc M)"
proof -
  note s = assms [unfolded parsing_def]
  have M: "lk_good M K" "M \<le> C" "C \<le> Suc M" using s by auto
  have w: "tot (lx_word K lit l) (\<lambda>x. True)" if "length (lx_p l) < C" for lit l
    by (rule tot_mono [OF word_ok [OF M(1)]]) (use that M in auto)
  have n: "tot (lx_next K l) (\<lambda>l1. tok_ok l1 \<and> mu l1 \<le> C)" if "length (lx_p l) < C" for l
    by (rule tot_mono [OF next_ok [OF lk_good_mono [OF M(1)]]]) (use that M nx_ok in \<open>force+\<close>)
  have "tot (lx_next K l \<bind> p_list K P \<bind> (\<lambda>(l1, x). Some l1)) (\<lambda>x. True)" if "length (lx_p l) < C" for l
    unfolding tot_bind by (rule tot_mono [OF n [OF that]]) (auto intro!: tot_mono [OF parsing.list_ok [OF assms]])
  then have g: "lk_good C \<lparr>lk_word = lx_word K, lk_list = \<lambda>l. lx_next K l \<bind> p_list K P \<bind> (\<lambda>(l1, x). Some l1)\<rparr>"
    using w by (simp add: lk_good_def)
  have i: "tot (p_if K P l) (\<lambda>(l1, n). ok l l1)" if "tok_ok l" "lx_tk l \<noteq> T_EOF" "mu l \<le> C" for l
    by (rule tot_mono [OF parsing.if_ok [OF assms that(1, 2)]]) (use that M past_ok in auto)
  show ?thesis
    by (unfold_locales) (use g i M parsing.list_ok [OF assms] parsing.cmd_ok [OF assms] in auto)
qed

lemma tokens_done: "f s = Some (Inr r) \<Longrightarrow> tokens l f s = Some r"
  by (simp add: tokens_def numeral_3_eq_3)

text \<open>At the end of the text nothing is called.\<close>

lemma parsing_base: "parsing (fst (p_ev 1)) (snd (p_ev 1)) 0 0"
proof
  show "lk_good 0 (fst (p_ev 1))" by (simp add: lk_good_def)
  fix l
  assume l: "tok_ok l" "mu l \<le> 0"
  then have e: "lx_tk l = T_EOF" using mu_0 by simp
  have nl: "p_nl K l = Some l" for K unfolding p_nl_def by (rule tokens_done) (simp add: e)
  show "tot (pk_list (snd (p_ev 1)) l) (\<lambda>(l1, n). ok l l1)"
    using l by (simp add: p_list_def nl p_end_def e del: tot_bind)
  have k: "\<not> kw (l\<lparr>lx_depth := d\<rparr>) t" for t d by (simp add: kw_def e)
  have "p_simple K P (l\<lparr>lx_depth := d\<rparr>) = Some (fst (lx_line (l\<lparr>lx_depth := d\<rparr>)), N0)" for K P d
    unfolding p_simple_def Let_def case_prod_unfold by (rule tokens_done) (simp add: e)
  then show "tot (pk_cmd (snd (p_ev 1)) l) (\<lambda>(l1, n). ok l l1)"
    using l by (simp add: p_cmd_def p_cmd2_def e k ok_def del: tot_bind)
qed (use mu_0 in auto)

lemma p_ev_parsing: "parsing (fst (p_ev (Suc k))) (snd (p_ev (Suc k))) (k div 2) (Suc k div 2)"
proof (induction k)
  case 0
  then show ?case using parsing_base by simp
next
  case (Suc k)
  obtain K P where e: "p_ev (Suc k) = (K, P)" by fastforce
  have "fst (p_ev (Suc (Suc k))) = \<lparr>lk_word = lx_word K, lk_list = \<lambda>l. lx_next K l \<bind> p_list K P \<bind> (\<lambda>(l1, x). Some l1)\<rparr>"
    "snd (p_ev (Suc (Suc k))) = \<lparr>pk_list = p_list K P, pk_cmd = p_cmd K P, pk_if = p_if K P\<rparr>"
    by (simp_all only: p_ev.simps(2) [of "Suc k"] e Let_def prod.case fst_conv snd_conv)
  then show ?case using parsing_step [OF Suc.IH] by (simp only: e fst_conv snd_conv) simp
qed

interpretation pev: parsing "fst (p_ev (Suc k))" "snd (p_ev (Suc k))" "k div 2" "Suc k div 2" for k
  by (rule p_ev_parsing)

lemma start_ok:
  "tot (lx_next (fst (p_ev (Suc (2 * length src + k)))) (lx_init it ln src) \<bind> p_nl (fst (p_ev (Suc (2 * length src + k)))))
    (\<lambda>l. tok_ok l \<and> mu l \<le> length src \<and> lx_depth l = 0)"
proof -
  let ?k = "2 * length src + k" and ?l = "lx_init it ln src"
  have p: "lx_p ?l = src" "lx_depth ?l = 0" by (simp_all add: lx_init_def)
  have m: "length src \<le> ?k div 2" by simp
  have "tot (lx_next (fst (p_ev (Suc ?k))) ?l) (nx ?l)"
    by (rule next_ok, rule lk_good_mono [OF pev.lex_good]) (use p m in simp)
  then show ?thesis unfolding tot_bind
  proof (rule tot_mono)
    fix l
    assume "nx ?l l"
    then have l: "tok_ok l" "mu l \<le> length src" "lx_depth l = 0" using nx_ok [of ?l l] p by simp_all
    then have "tot (p_nl (fst (p_ev (Suc ?k))) l) (ok l)" by (intro pev.nl_from) (use m in auto)
    then show "tot (p_nl (fst (p_ev (Suc ?k))) l) (\<lambda>l. tok_ok l \<and> mu l \<le> length src \<and> lx_depth l = 0)"
      by (rule tot_mono) (use l in \<open>simp add: ok_def\<close>)
  qed
qed

lemma suc_form: "2 * length src + 1 + k = Suc (2 * length src + k)"
  by simp

text \<open>C5: The parser returns for every text: with fuel \<open>2 * length src + 1\<close> or more, neither the parse of a whole text nor that of a line of a script runs out, whatever the text is.\<close>

theorem parse_total:
  "hibr_parse (2 * length src + 1 + k) s src \<noteq> None \<and> parse_line (2 * length src + 1 + k) s src \<noteq> None"
proof -
  obtain K P where e: "p_ev (Suc (2 * length src + k)) = (K, P)" by fastforce
  from start_ok [of src k "e_it s" "e_ln s"] obtain l where
    l: "lx_next K (lx_init (e_it s) (e_ln s) src) \<bind> p_nl K = Some l" "tok_ok l" "mu l \<le> length src"
    unfolding e fst_conv by (auto simp: tot_iff simp del: tot_bind)
  have m: "mu l \<le> Suc (2 * length src + k) div 2" using l(3) by simp
  from pev.list_ok [OF l(2) m, unfolded e fst_conv snd_conv] obtain l1 n where ls: "p_list K P l = Some (l1, n)" by (auto simp: tot_iff)
  from pev.line_ok [OF l(2) m, unfolded e fst_conv snd_conv] obtain l2 n2 where ln: "p_line K P l = Some (l2, n2)" by (auto simp: tot_iff)
  have "\<not> (x = None)" if "x = (if b then Some y else if c then Some z else Some v)" for b c x y z v using that by simp
  show ?thesis unfolding suc_form hibr_parse_def parse_line_def e Let_def prod.case l(1) bind.bind_lunit ls ln
    by (simp only: if_distrib [of "\<lambda>x. x = None"] option.distinct if_cancel) simp
qed

text \<open>C6: Parsing a text leaves the lexer where it started in depth and no further back: the count that bounds nested commands is zero again after the list, errors included, and what is left from the current token on is no longer than at the start.\<close>

theorem parse_restores:
  "\<exists>l l1 n. lx_next (fst (p_ev (2 * length src + 1 + k))) (lx_init it ln src) \<bind> p_nl (fst (p_ev (2 * length src + 1 + k))) = Some l \<and>
    p_list (fst (p_ev (2 * length src + 1 + k))) (snd (p_ev (2 * length src + 1 + k))) l = Some (l1, n) \<and>
    lx_depth l1 = 0 \<and> mu l1 \<le> mu l \<and> mu l \<le> length src"
proof -
  from start_ok [of src k it ln] obtain l where
    l: "lx_next (fst (p_ev (2 * length src + 1 + k))) (lx_init it ln src) \<bind> p_nl (fst (p_ev (2 * length src + 1 + k))) = Some l"
      "tok_ok l" "mu l \<le> length src" "lx_depth l = 0"
    unfolding suc_form by (auto simp: tot_iff simp del: tot_bind)
  have "mu l \<le> Suc (2 * length src + k) div 2" using l(3) by simp
  from pev.list_ok [OF l(2) this] show ?thesis using l unfolding suc_form by (auto simp: tot_iff ok_def)
qed

text \<open>C7: The lexer reads forward: from any state, the next token of a text is found, what is left after it is a suffix of the text, and a token other than the end is a part of the text that is not empty, with its start where the token's position says.\<close>

theorem next_forward:
  "\<exists>l1. lx_next (fst (p_ev (2 * length src + 1 + k))) (l\<lparr>lx_p := src\<rparr>) = Some l1 \<and> suffix (lx_p l1) src \<and>
    (lx_tk l1 = T_EOF \<or> (\<exists>b. lx_tkb l1 = Some b \<and> suffix b src \<and> strict_suffix (lx_p l1) b))"
proof -
  have "tot (lx_next (fst (p_ev (Suc (2 * length src + k)))) (l\<lparr>lx_p := src\<rparr>)) (nx (l\<lparr>lx_p := src\<rparr>))"
    by (rule next_ok, rule lk_good_mono [OF pev.lex_good]) simp
  then show ?thesis unfolding suc_form by (auto simp: tot_iff nx_def)
qed

text \<open>C12: A text that starts with an arithmetic command that is not closed is taken for an empty one by \<open>hibr_parse\<close>, which
  sees the end of the text before it looks whether more is needed, while the line reader asks for the rest.\<close>

theorem unfinished_arith:
  assumes "sk_bal (CHR ''('' # t) (CHR ''('') (CHR '')'') False = None"
  shows "hibr_parse f s (''(('' @ t) = Some (s, N0, False) \<and> parse_line f s (''(('' @ t) = Some PMore"
proof -
  obtain K P where e: "p_ev f = (K, P)" by fastforce
  let ?l = "lx_init (e_it s) (e_ln s) (''(('' @ t)"
  have b: "lx_blank (''(('' @ t) = ''(('' @ t" by (simp add: lx_blank.simps blank_def)
  obtain l where l: "lx_next K ?l = Some l" "lx_tk l = T_EOF" "lx_more l" "\<not> lx_err l"
    using assms b by (simp add: lx_next_def lx_init_def lx_arith_def lx_set_more_def Let_def)
  have nl: "p_nl K l = Some l" unfolding p_nl_def by (rule tokens_done) (simp add: l(2))
  have pl: "p_line K P l = Some (l, N0)" unfolding p_line_def
    by (subst tokens_done [where r = "(l, N0)"]) (simp_all add: l p_end_def)
  show ?thesis unfolding hibr_parse_def parse_line_def e Let_def prod.case l(1) bind.bind_lunit nl pl
    using l by simp
qed

theorem unfinished_arith_witness:
  "\<forall>s :: unit exs. hibr_parse 0 s ''((1 + 2)'' = Some (s, N0, False) \<and> parse_line 0 s ''((1 + 2)'' = Some PMore"
proof
  fix s :: "unit exs"
  have "sk_bal (CHR ''('' # ''1 + 2)'') (CHR ''('') (CHR '')'') False = None" by code_simp
  from unfinished_arith [OF this, of 0 s]
  show "hibr_parse 0 s ''((1 + 2)'' = Some (s, N0, False) \<and> parse_line 0 s ''((1 + 2)'' = Some PMore" by simp
qed

end
