(* ===== verification/RoundTrip.thy ===== *)
theory RoundTrip
  imports ExpandLaws Quote ParseTotal
begin

text \<open>
  A value written by \<open>xquote\<close> is read back: by the lexer as one word that stands for it, by the parser as one word of
  a simple command, and by the expansion of words as the value. So quoted values on a line are a command with just
  these words, whatever bytes they hold.
\<close>

subsection \<open>The escapes of a control character\<close>

lemma qctl_cases:
  assumes "qctl c"
  obtains n where "n < 128" "c = chr n"
proof -
  have "c = chr (byte c)" by simp
  moreover have "byte c < 128" using assms by (auto simp: qctl_def)
  ultimately show ?thesis using that by blast
qed

text \<open>A digit of an octal escape, as \<open>xquote_ch\<close> writes it.\<close>

lemma odig:
  assumes "k < (8 :: nat)"
  shows "digval (chr (48 + k)) = k" "CHR ''0'' \<le> chr (48 + k)" "chr (48 + k) \<le> CHR ''7''"
proof -
  have b: "byte (chr (48 + k)) = 48 + k" using assms by simp
  show "digval (chr (48 + k)) = k" using assms by (simp add: digval_def isdigit_def byte_simps b)
  show "CHR ''0'' \<le> chr (48 + k)" "chr (48 + k) \<le> CHR ''7''" using assms by (simp_all add: less_eq_char_def b)
qed

lemma odig_esc:
  assumes "CHR ''0'' \<le> d" "d \<le> CHR ''7''"
  shows "lx_esc (d # q) =
    (let h = takeWhile (\<lambda>x. CHR ''0'' \<le> x \<and> x \<le> CHR ''7'') (take 3 (d # q))
     in ([chr (foldl (\<lambda>v x. v * 8 + digval x) 0 h)], drop (length h) (d # q)))"
proof -
  have "d \<notin> {CHR ''n'', CHR ''t'', CHR ''r'', CHR ''a'', CHR ''b'', CHR ''f'', CHR ''v'', CHR ''e'', CHR ''E'', CHR ''c'', BS, SQ, DQ, CHR ''?'', CHR ''x''}"
    using assms by (auto simp: less_eq_char_def)
  then show ?thesis using assms by (simp add: lx_esc_def)
qed

lemma esc_octal:
  assumes "n < 512"
  shows "lx_esc (chr (48 + (drop_bit 6 n AND 7)) # chr (48 + (drop_bit 3 n AND 7)) # chr (48 + (n AND 7)) # r) = ([chr n], r)"
proof -
  have a: "m AND 7 = m mod 8" for m :: nat
    using take_bit_eq_mask [of 3 m] by (simp add: take_bit_eq_mod mask_eq_exp_minus_1)
  have d: "drop_bit 6 n AND 7 = n div 64" "drop_bit 3 n AND 7 = n div 8 mod 8" "n AND 7 = n mod 8"
    using assms by (simp_all add: a drop_bit_eq_div)
  have k: "n div 64 < 8" "n div 8 mod 8 < 8" "n mod 8 < 8" using assms by auto
  have "n div 64 = n div 8 div 8" by (simp flip: div_mult2_eq)
  then have "(n div 64 * 8 + n div 8 mod 8) * 8 + n mod 8 = n" by (simp only: div_mult_mod_eq)
  then show ?thesis unfolding d odig_esc [OF odig(2, 3) [OF k(1)]]
    using odig [OF k(1)] odig [OF k(2)] odig [OF k(3)] by (simp add: Let_def numeral_3_eq_3)
qed

lemma ansi_char:
  "lx_ansi (xquote_ch c @ p) = (c # fst (lx_ansi p), snd (lx_ansi p))"
proof (cases "c \<in> {CHR 0x0A, CHR 0x09, CHR 0x0D, BS, SQ}")
  case True
  then show ?thesis
    by (elim insertE) (simp_all add: xquote_ch_def lx_ansi.simps [of "BS # q" for q] lx_esc_def case_prod_unfold Let_def)
next
  case False
  show ?thesis
  proof (cases "qctl c")
    case True
    then obtain n where n: "n < 128" "c = chr n" by (rule qctl_cases)
    then have b: "byte c = n" by simp
    have "xquote_ch c = [BS, chr (48 + (drop_bit 6 n AND 7)), chr (48 + (drop_bit 3 n AND 7)), chr (48 + (n AND 7))]"
      using False True unfolding xquote_ch_def b by auto
    then show ?thesis using esc_octal [of n "p"] n by (simp add: case_prod_unfold Let_def lx_ansi.simps [of "BS # q" for q])
  next
    case no: False
    then have "xquote_ch c = [c]" using False by (auto simp: xquote_ch_def)
    then show ?thesis using False by (simp add: lx_ansi.simps [of "c # q" for q] case_prod_unfold Let_def)
  qed
qed

lemma ansi_text: "lx_ansi (concat (map xquote_ch v) @ SQ # p) = (v, SQ # p)"
proof (induction v)
  case Nil
  then show ?case by (simp add: lx_ansi.simps)
next
  case (Cons c v)
  then show ?case using ansi_char [of c "concat (map xquote_ch v) @ SQ # p"] by simp
qed

subsection \<open>A word\<close>

text \<open>Where a word ends, and the state in its midst: \<open>t\<close> the text gathered, \<open>p\<close> what is to come.\<close>

abbreviation (input) wend :: "string \<Rightarrow> bool" where
  "wend r \<equiv> r = [] \<or> blank (hd r) \<or> hd r = NL"

definition midw :: "lex \<Rightarrow> string \<Rightarrow> string \<Rightarrow> wst \<Rightarrow> bool" where
  "midw l t p w \<longleftrightarrow> wb_h w = [] \<and> wb_b w = t \<and> (t = [] \<or> wb_q w = 1) \<and> ws_l w = l\<lparr>lx_p := p\<rparr> \<and> \<not> ws_q w \<and> ws_gd w = 0"

lemma ch_mid: "midw l t p w \<Longrightarrow> midw l (t @ [c]) p (lx_ch 1 c w)"
  by (auto simp: midw_def lx_ch_def Let_def)

lemma chs_mid: "midw l t p w \<Longrightarrow> midw l (t @ u) p (lx_chs 1 u w)"
proof (induction u arbitrary: t w)
  case (Cons c u)
  show ?case using Cons.IH [OF ch_mid [OF Cons.prems, of c]] by (simp add: lx_chs_def)
qed (simp add: lx_chs_def)

lemma mid_to: "midw l t p w \<Longrightarrow> midw l t q (ws_to q w)" "midw l t p (w\<lparr>ws_seen := b\<rparr>) = midw l t p w"
  by (auto simp: midw_def ws_to_def)

lemma sq_step:
  assumes "midw l t (SQ # u @ SQ # p) w" "SQ \<notin> set u" "\<not> lx_nb l"
  shows "\<exists>w'. lx_wstep K 0 w = Some (Inl w') \<and> midw l (t @ u) p w' \<and> ws_seen w'"
proof -
  have w: "lx_p (ws_l w) = SQ # u @ SQ # p" "lx_nb (ws_l w) = False" "ws_q w = False" "ws_gd w = 0" using assms by (auto simp: midw_def)
  have e: "dropWhile (\<lambda>c. c \<noteq> SQ) (u @ SQ # p) = SQ # p" "takeWhile (\<lambda>c. c \<noteq> SQ) (u @ SQ # p) = u"
    using assms(2) by (auto simp: dropWhile_append takeWhile_append)
  have "lx_wstep K 0 w = Some (Inl (ws_to p (lx_chs 1 u w)\<lparr>ws_seen := True\<rparr>))"
    by (simp add: lx_wstep_def lx_wrest_def lx_wsq_def w e Let_def blank_def ismeta_def)
  then show ?thesis using chs_mid [OF assms(1), of u] mid_to by auto
qed

lemma bs_step:
  assumes "midw l t (BS # SQ # p) w" "\<not> lx_nb l"
  shows "\<exists>w'. lx_wstep K 0 w = Some (Inl w') \<and> midw l (t @ [SQ]) p w' \<and> ws_seen w'"
proof -
  have w: "lx_p (ws_l w) = BS # SQ # p" "lx_nb (ws_l w) = False" "ws_q w = False" "ws_gd w = 0" using assms by (auto simp: midw_def)
  have "lx_wstep K 0 w = Some (Inl (ws_to p (lx_ch 1 SQ w)\<lparr>ws_seen := True\<rparr>))"
    by (simp add: lx_wstep_def lx_wrest_def lx_wbs_def w Let_def blank_def ismeta_def)
  then show ?thesis using ch_mid [OF assms(1), of SQ] mid_to by auto
qed

lemma ansi_step:
  assumes "midw l t (CHR ''$'' # SQ # concat (map xquote_ch v) @ SQ # p) w" "\<not> lx_nb l"
  shows "\<exists>w'. lx_wstep K 0 w = Some (Inl w') \<and> midw l (t @ v) p w' \<and> ws_seen w'"
proof -
  have w: "lx_p (ws_l w) = CHR ''$'' # SQ # concat (map xquote_ch v) @ SQ # p" "lx_nb (ws_l w) = False" "ws_q w = False" "ws_gd w = 0"
    using assms by (auto simp: midw_def)
  have "lx_wstep K 0 w = Some (Inl (ws_to p (lx_chs 1 v w)\<lparr>ws_seen := True\<rparr>))"
    by (simp add: lx_wstep_def lx_wrest_def lx_wansi_def w ansi_text Let_def blank_def ismeta_def)
  then show ?thesis using chs_mid [OF assms(1), of v] mid_to by auto
qed

lemma end_step:
  assumes "midw l t p w" "wend p" "\<not> lx_nb l"
  shows "lx_wstep K 0 w = Some (Inr w)"
proof (cases p)
  case (Cons c r)
  then have w: "lx_p (ws_l w) = c # r" "lx_nb (ws_l w) = False" "ws_q w = False" "ws_gd w = 0" and "c = CHR '' '' \<or> c = TAB \<or> c = NL"
    using assms by (auto simp: midw_def blank_def)
  then consider "c = CHR '' ''" | "c = TAB" | "c = NL" by blast
  then show ?thesis by cases (simp_all add: lx_wstep_def lx_wrest_def w blank_def Let_def)
qed (use assms in \<open>simp add: midw_def lx_wstep_def Let_def\<close>)

lemma wstep_iter: "lx_wstep K 0 w = Some (Inl w1) \<Longrightarrow> 0 < n \<Longrightarrow> iter n (lx_wstep K 0) w = iter (n - 1) (lx_wstep K 0) w1"
  by (cases n) simp_all

text \<open>The pieces of a single-quoted text.\<close>

lemma sq_run:
  assumes "midw l t (SQ # s_sqb v @ SQ # p) w" "wend p" "\<not> lx_nb l" "length (s_sqb v) + 2 < n"
  shows "\<exists>w'. iter n (lx_wstep K 0) w = Some w' \<and> midw l (t @ v) p w' \<and> ws_seen w'"
  using assms
proof (induction v arbitrary: t w n rule: s_sqb.induct)
  case (1 v)
  have n: "0 < n" "0 < n - 1" using "1.prems"(4) by auto
  show ?case
  proof (cases "dropWhile (\<lambda>c. c \<noteq> SQ) v")
    case Nil
    have v1: "s_sqb v = v" by (subst s_sqb.simps) (simp only: Nil list.case)
    have v2: "SQ \<notin> set v" using Nil unfolding dropWhile_eq_Nil_conv by blast
    note v = v1 v2
    from sq_step [OF "1.prems"(1) [unfolded v(1)] v(2) "1.prems"(3)] obtain w1 where
      w1: "lx_wstep K 0 w = Some (Inl w1)" "midw l (t @ v) p w1" "ws_seen w1" by blast
    obtain k where k: "n - 1 = Suc k" using n by (cases "n - 1") auto
    show ?thesis unfolding wstep_iter [OF w1(1) n(1)] k using w1 end_step [OF w1(2) "1.prems"(2, 3)] by simp
  next
    case (Cons x r)
    let ?u = "takeWhile (\<lambda>c. c \<noteq> SQ) v"
    have x: "x = SQ" using Cons by (auto simp: dropWhile_eq_Cons_conv)
    have v: "s_sqb v = ?u @ [SQ, BS, SQ, SQ] @ s_sqb r" "v = ?u @ SQ # r"
      by (subst s_sqb.simps, simp add: Cons) (use Cons x takeWhile_dropWhile_id [of "\<lambda>c. c \<noteq> SQ" v] in simp)
    have u: "SQ \<notin> set ?u" using set_takeWhileD by fast
    have "midw l t (SQ # ?u @ SQ # BS # SQ # SQ # s_sqb r @ SQ # p) w" using "1.prems"(1) unfolding v(1) by simp
    from sq_step [OF this u "1.prems"(3)] obtain w1 where
      w1: "lx_wstep K 0 w = Some (Inl w1)" "midw l (t @ ?u) (BS # SQ # SQ # s_sqb r @ SQ # p) w1" by blast
    from bs_step [OF w1(2) "1.prems"(3)] obtain w2 where
      w2: "lx_wstep K 0 w1 = Some (Inl w2)" "midw l ((t @ ?u) @ [SQ]) (SQ # s_sqb r @ SQ # p) w2" by blast
    have "length (s_sqb r) + 2 < n - 1 - 1" using "1.prems"(4) unfolding v(1) by simp
    from "1.IH" [OF Cons w2(2) "1.prems"(2, 3) this] obtain w' where
      "iter (n - 1 - 1) (lx_wstep K 0) w2 = Some w'" "midw l (((t @ ?u) @ [SQ]) @ r) p w'" "ws_seen w'" by blast
    moreover have "((t @ ?u) @ [SQ]) @ r = t @ v" using v(2) by simp
    ultimately show ?thesis by (simp only: wstep_iter [OF w1(1) n(1)] wstep_iter [OF w2(1) n(2)]) blast
  qed
qed

text \<open>The word that is read is the value in quotes.\<close>

lemma word_xquote:
  assumes "lx_p l = xquote v False @ p" "wend p" "\<not> lx_nb l"
  shows "lx_word K 0 l = Some (l\<lparr>lx_p := p\<rparr>, Some [lt 1 v])"
proof -
  let ?w = "\<lparr>wb_h = [], wb_b = [], wb_q = 0, ws_l = l, ws_q = False, ws_seen = False, ws_gd = 0\<rparr>"
  have "\<exists>w'. iter (Suc (length (lx_p l))) (lx_wstep K 0) ?w = Some w' \<and> midw l v p w' \<and> ws_seen w'"
  proof (cases "list_ex qctl v")
    case True
    then have "midw l [] (CHR ''$'' # SQ # concat (map xquote_ch v) @ SQ # p) ?w" using assms by (simp add: midw_def xquote_def)
    from ansi_step [OF this assms(3)] obtain w1 where
      w1: "lx_wstep K 0 ?w = Some (Inl w1)" "midw l v p w1" "ws_seen w1" by auto
    have "length (lx_p l) > 1" using assms(1) True by (simp add: xquote_def)
    then obtain k where "length (lx_p l) = Suc k" by (cases "length (lx_p l)") auto
    then show ?thesis using w1 end_step [OF w1(2) assms(2, 3)] by (simp add: wstep_iter [OF w1(1)])
  next
    case False
    then have x: "lx_p l = SQ # s_sqb v @ SQ # p" using assms by (simp add: xquote_def s_sq_def)
    then have "midw l [] (SQ # s_sqb v @ SQ # p) ?w" by (simp add: midw_def)
    from sq_run [OF this assms(2, 3), of "Suc (length (lx_p l))"] show ?thesis by (simp add: x)
  qed
  then obtain w' where w': "iter (Suc (length (lx_p l))) (lx_wstep K 0) ?w = Some w'" "midw l v p w'" "ws_seen w'" by blast
  then show ?thesis unfolding lx_word_def w'(1) bind.bind_lunit
    by (auto simp: midw_def lx_flush_def Let_def)
qed

subsection \<open>A line of words\<close>

text \<open>Between tokens: no error, nothing pending, \<open>p\<close> to come.\<close>

definition rdy :: "lex \<Rightarrow> string \<Rightarrow> bool" where
  "rdy l p \<longleftrightarrow> lx_p l = p \<and> \<not> lx_more l \<and> \<not> lx_err l \<and> \<not> lx_nb l \<and> lx_hq l = [] \<and> lx_bods l = []"

definition atw :: "lex \<Rightarrow> string \<Rightarrow> string \<Rightarrow> bool" where
  "atw l v p \<longleftrightarrow> rdy l p \<and> lx_tk l = T_WORD \<and> lx_w l = Some [lt 1 v] \<and> lx_tkb l = Some (xquote v False @ p)"

definition ate :: "lex \<Rightarrow> bool" where
  "ate l \<longleftrightarrow> rdy l [] \<and> lx_tk l = T_EOF \<and> lx_tkb l = Some []"

lemma xquote_hd: "\<exists>r. xquote v False = SQ # r \<or> xquote v False = CHR ''$'' # SQ # r"
  by (simp add: xquote_def s_sq_def)

lemma next_word:
  assumes "rdy l (b @ xquote v False @ p)" "list_all blank b" "wend p"
  shows "\<exists>l1. lx_next K l = Some l1 \<and> atw l1 v p \<and> lx_lnp l1 = lx_lnp l \<and> lx_ln l1 = lx_ln l \<and> lx_depth l1 = lx_depth l"
proof -
  let ?q = "xquote v False @ p"
  obtain c r where q: "?q = c # r" "c = SQ \<or> c = CHR ''$''" using xquote_hd [of v] by auto
  have "dropWhile blank (b @ ?q) = ?q" using assms(2) q by (induction b) (auto simp: blank_def)
  then have bl: "lx_blank (b @ ?q) = ?q" using q by (subst lx_blank.simps) (auto simp: Let_def)
  let ?l = "l\<lparr>lx_w := None, lx_fd := -1, lx_both := False, lx_clob := False, lx_fdvar := None, lx_p := ?q, lx_tkb := Some ?q\<rparr>"
  have fd: "lx_fdtok ?l = None" using q by (auto simp: lx_fdtok_def Let_def isdigit_def case_prod_unfold)
  have w: "lx_word K 0 ?l = Some (?l\<lparr>lx_p := p\<rparr>, Some [lt 1 v])"
    by (rule word_xquote) (use assms in \<open>auto simp: rdy_def\<close>)
  have "lx_next K l = lx_wtok K c ?l"
    using assms(1) bl q fd by (auto simp: lx_next_def rdy_def Let_def)
  then show ?thesis using assms(1) by (auto simp: lx_wtok_def w atw_def rdy_def)
qed

lemma next_end:
  assumes "rdy l []"
  shows "\<exists>l1. lx_next K l = Some l1 \<and> ate l1 \<and> lx_lnp l1 = lx_lnp l \<and> lx_ln l1 = lx_ln l \<and> lx_depth l1 = lx_depth l"
  using assms by (simp add: lx_next_def rdy_def ate_def lx_blank.simps)

lemma atw_kw [simp]: "atw l v p \<Longrightarrow> kw l t = False" "ate l \<Longrightarrow> kw l t = False"
  by (simp_all add: atw_def ate_def kw_def w_lit_def)

lemma atw_tk: "atw l v p \<Longrightarrow> lx_tk l = T_WORD" "ate l \<Longrightarrow> lx_tk l = T_EOF"
  by (simp_all add: atw_def ate_def)

lemma at_depth [simp]: "atw (l\<lparr>lx_depth := d\<rparr>) v p = atw l v p" "ate (l\<lparr>lx_depth := d\<rparr>) = ate l"
  by (simp_all add: atw_def ate_def rdy_def)

abbreviation (input) qrest :: "string list \<Rightarrow> string" where
  "qrest vs \<equiv> concat (map (\<lambda>v. '' '' @ xquote v False) vs)"

lemma sword_quoted:
  assumes "atw (ps_l s) v p" "lx_next K (ps_l s) = Some l1" "lx_tk l1 = T_WORD \<or> lx_tk l1 = T_EOF" "\<And>t. kw l1 t = False"
  shows "p_sword K P s = Some (Inl (s\<lparr>ps_l := l1, ps_c := (ps_c s)\<lparr>c_w := c_w (ps_c s) @ [[lt 1 v]]\<rparr>, ps_got := True,
    ps_cmd0 := if ps_got s then ps_cmd0 s else None\<rparr>))"
proof -
  have w: "lx_w (ps_l s) = Some [lt 1 v]" using assms(1) by (simp add: atw_def)
  have a: "w_asg [lt 1 v] = False" "w_lit (Some [lt 1 v]) = None" by (simp_all add: w_asg_def w_lit_def)
  have t: "(lx_tk l1 = T_LP) = False" using assms(3) by auto
  show ?thesis unfolding p_sword_def w option.sel a Let_def assms(2) bind.bind_lunit t assms(4)
    by (simp add: atw_def)
qed

lemma words_loop:
  assumes f: "\<And>s. lx_tk (ps_l s) = T_WORD \<Longrightarrow> f s = p_sword K P s"
    "\<And>s. ate (ps_l s) \<Longrightarrow> ps_got s \<Longrightarrow> f s = Some (Inr (ps_l s, NCmd (ps_c s)))"
    and "atw (ps_l s) v (qrest vs)" "length vs + 2 \<le> n"
  shows "\<exists>l1. iter n f s = Some (l1, NCmd ((ps_c s)\<lparr>c_w := c_w (ps_c s) @ map (\<lambda>v. [lt 1 v]) (v # vs)\<rparr>)) \<and> ate l1"
  using assms(3, 4)
proof (induction vs arbitrary: s v n)
  case Nil
  then have "rdy (ps_l s) []" by (simp add: atw_def)
  from next_end [OF this] obtain l1 where l1: "lx_next K (ps_l s) = Some l1" "ate l1" by blast
  obtain k where k: "n = Suc (Suc k)" using Nil.prems(2) by (metis add_2_eq_Suc le_Suc_ex add_0 list.size(3))
  have "p_sword K P s = Some (Inl (s\<lparr>ps_l := l1, ps_c := (ps_c s)\<lparr>c_w := c_w (ps_c s) @ [[lt 1 v]]\<rparr>, ps_got := True,
      ps_cmd0 := if ps_got s then ps_cmd0 s else None\<rparr>))"
    by (rule sword_quoted [OF Nil.prems(1) l1(1)]) (use l1(2) atw_tk in auto)
  then show ?case using f(1) [of s] f(2) [of "s\<lparr>ps_l := l1, ps_c := (ps_c s)\<lparr>c_w := c_w (ps_c s) @ [[lt 1 v]]\<rparr>, ps_got := True,
      ps_cmd0 := if ps_got s then ps_cmd0 s else None\<rparr>"] l1(2) atw_tk(1) [OF Nil.prems(1)]
    by (simp add: k)
next
  case (Cons u vs)
  then have "rdy (ps_l s) ('' '' @ xquote u False @ qrest vs)" by (simp add: atw_def)
  from next_word [OF this] obtain l1 where l1: "lx_next K (ps_l s) = Some l1" "atw l1 u (qrest vs)"
    by (cases vs) (auto simp: blank_def)
  obtain k where k: "n = Suc k" "length vs + 2 \<le> k" using Cons.prems(2) by (cases n) auto
  let ?s = "s\<lparr>ps_l := l1, ps_c := (ps_c s)\<lparr>c_w := c_w (ps_c s) @ [[lt 1 v]]\<rparr>, ps_got := True,
      ps_cmd0 := if ps_got s then ps_cmd0 s else None\<rparr>"
  have "p_sword K P s = Some (Inl ?s)"
    by (rule sword_quoted [OF Cons.prems(1) l1(1)]) (use l1(2) atw_tk in auto)
  moreover have "f s = p_sword K P s" using f(1) atw_tk(1) [OF Cons.prems(1)] .
  moreover from Cons.IH [of ?s u k] l1(2) k(2) obtain l2 where
    "iter k f ?s = Some (l2, NCmd ((ps_c ?s)\<lparr>c_w := c_w (ps_c ?s) @ map (\<lambda>v. [lt 1 v]) (u # vs)\<rparr>))" "ate l2" by auto
  ultimately show ?case using k(1) by simp
qed

text \<open>The command of a line of quoted words, and the levels of the grammar above it.\<close>

definition qcmd :: "nat \<Rightarrow> string \<Rightarrow> string list \<Rightarrow> cmd" where
  "qcmd ln tx vs =
    \<lparr>c_w = map (\<lambda>v. [lt 1 v]) vs, c_aw = [], c_bw = None, c_rd = [], c_arr = [], c_bind = None, c_bound = False, c_tx = tx, c_ln = ln\<rparr>"

text \<open>At the first word of the line \<open>v # vs\<close>, before anything else was read.\<close>

definition at1 :: "nat \<Rightarrow> string \<Rightarrow> string list \<Rightarrow> lex \<Rightarrow> bool" where
  "at1 ln v vs l \<longleftrightarrow> atw l v (qrest vs) \<and> lx_lnp l = xquote v False @ qrest vs \<and> lx_ln l = ln \<and> lx_depth l = 0"

lemma at1_tk: "at1 ln v vs l \<Longrightarrow> lx_tk l = T_WORD" "at1 ln v vs l \<Longrightarrow> kw l t = False"
  unfolding at1_def using atw_tk(1) atw_kw(1) by blast+

lemma at1_line: "at1 ln v vs l \<Longrightarrow> lx_line (l\<lparr>lx_depth := d\<rparr>) = (l\<lparr>lx_depth := d\<rparr>, ln)"
  by (simp add: lx_line_def at1_def atw_def upto_pos_def)

lemma simple_quoted:
  assumes "at1 ln v vs l"
  shows "\<exists>l1. p_simple K P (l\<lparr>lx_depth := d\<rparr>) = Some (l1, NCmd (qcmd ln [] (v # vs))) \<and> ate l1"
proof -
  have a: "atw (l\<lparr>lx_depth := d\<rparr>) v (qrest vs)" using assms by (simp add: at1_def)
  have len: "length vs \<le> length (qrest vs)" by (induction vs) auto
  have k: "length vs + 2 \<le> length (case lx_tkb (l\<lparr>lx_depth := d\<rparr>) of Some b \<Rightarrow> b | None \<Rightarrow> lx_p (l\<lparr>lx_depth := d\<rparr>)) + 3"
    using a len by (simp add: atw_def)
  let ?s = "\<lparr>ps_l = l\<lparr>lx_depth := d\<rparr>, ps_c = qcmd ln [] [], ps_got = False, ps_cmd0 = None\<rparr>"
  have q: "qcmd ln [] (v # vs) = (ps_c ?s)\<lparr>c_w := c_w (ps_c ?s) @ map (\<lambda>v. [lt 1 v]) (v # vs)\<rparr>" by (simp add: qcmd_def)
  have c: "\<lparr>c_w = [], c_aw = [], c_bw = None, c_rd = [], c_arr = [], c_bind = None, c_bound = False, c_tx = [], c_ln = ln\<rparr> = qcmd ln [] []"
    by (simp add: qcmd_def)
  show ?thesis
    unfolding p_simple_def at1_line [OF assms] prod.case Let_def tokens_def c q
    by (rule words_loop [where K = K and P = P, OF _ _ _ k]) (use a in \<open>simp_all add: atw_tk\<close>)
qed

lemma cmd_quoted:
  assumes "at1 ln v vs l"
  shows "\<exists>l1. p_cmd K P l = Some (l1, NCmd (qcmd ln [] (v # vs))) \<and> ate l1"
proof -
  obtain l1 where l1: "p_simple K P (l\<lparr>lx_depth := 1\<rparr>) = Some (l1, NCmd (qcmd ln [] (v # vs)))" "ate l1"
    using simple_quoted [OF assms, of K P 1] by blast
  have "atw (l\<lparr>lx_depth := 1\<rparr>) v (qrest vs)" using assms by (simp add: at1_def)
  then have "kw (l\<lparr>lx_depth := 1\<rparr>) t = False" for t by (rule atw_kw)
  then have "p_cmd2 K P (l\<lparr>lx_depth := 1\<rparr>) = Some (l1, NCmd (qcmd ln [] (v # vs)))"
    using l1(1) at1_tk(1) [OF assms] by (simp add: p_cmd2_def)
  then show ?thesis using assms l1(2) by (simp add: p_cmd_def at1_def)
qed

lemma pipe_quoted:
  assumes "at1 ln v vs l"
  shows "\<exists>l1. p_pipe K (P\<lparr>pk_cmd := p_cmd K1 P1\<rparr>) l = Some (l1, NCmd (qcmd ln [] (v # vs))) \<and> ate l1"
proof -
  have x: "p_pfx K l = Some (l, [], 0)" unfolding p_pfx_def
    by (rule tokens_done) (simp add: at1_tk(2) [OF assms])
  obtain l1 where l1: "p_cmd K1 P1 l = Some (l1, NCmd (qcmd ln [] (v # vs)))" "ate l1" using cmd_quoted [OF assms] by blast
  have st: "p_stages K P' (l1, n) = Some (l1, n)" for P' n unfolding p_stages_def
    by (rule tokens_done) (simp add: atw_tk(2) [OF l1(2)])
  have e: "\<not> lx_err l" using assms by (simp add: at1_def atw_def rdy_def)
  show ?thesis by (simp add: p_pipe_def at1_tk(1) [OF assms] x e l1 st)
qed

lemma list_quoted:
  assumes "at1 ln v vs l"
  shows "\<exists>l1. p_list K (P\<lparr>pk_cmd := p_cmd K1 P1\<rparr>) l = Some (l1, NCmd (qcmd ln (xquote v False @ qrest vs) (v # vs))) \<and> ate l1"
proof -
  let ?P = "P\<lparr>pk_cmd := p_cmd K1 P1\<rparr>" and ?t = "xquote v False @ qrest vs" and ?n = "NCmd (qcmd ln [] (v # vs))"
  obtain l1 where l1: "p_pipe K ?P l = Some (l1, ?n)" "ate l1" using pipe_quoted [OF assms] by blast
  have nl: "p_nl K l = Some l" unfolding p_nl_def by (rule tokens_done) (simp add: at1_tk(1) [OF assms])
  have pe: "\<not> p_end l" using assms by (simp add: p_end_def at1_tk(1) at1_def atw_def w_lit_def)
  have lst: "\<exists>u. xquote w False = u @ [SQ]" for w by (simp add: xquote_def s_sq_def)
  have "\<exists>u. ?t = u @ [SQ]"
  proof (cases vs rule: rev_cases)
    case (snoc ws w)
    obtain u where "xquote w False = u @ [SQ]" using lst by blast
    then show ?thesis unfolding snoc by simp
  qed (use lst in simp)
  then obtain u where u: "?t = u @ [SQ]" ..
  have tx: "rev (dropWhile (\<lambda>c. blank c \<or> c = NL) (rev ?t)) = ?t" unfolding u by (simp add: blank_def)
  have tk: "lx_tkb l = Some ?t" "lx_tkb l1 = Some []" using assms l1(2) by (simp_all add: at1_def atw_def ate_def)
  have ao: "p_andor K ?P l = Some (l1, NCmd (qcmd ln ?t (v # vs)), ?t)"
    unfolding p_andor_def l1(1) bind.bind_lunit
    by (subst tokens_done [where r = "(l1, ?n)"])
      (use tx in \<open>simp_all add: atw_tk(2) [OF l1(2)] tk upto_pos_def p_keeptx_def is_cmd_or_fn_def set_tx_def qcmd_def Let_def\<close>)
  have it: "p_item K ?P True l = Some (l1, NCmd (qcmd ln ?t (v # vs)), False)"
    by (simp add: p_item_def ao atw_tk(2) [OF l1(2)])
  show ?thesis unfolding p_list_def nl bind.bind_lunit if_not_P [OF pe]
    by (rule exI [of _ l1], rule conjI, rule tokens_done) (simp_all add: it l1(2))
qed

lemma br_quoted: "br_expand [lt 1 v] = [[lt 1 v]]"
  by (simp add: br_expand_def br_open_def)

lemma xargs_quoted:
  "\<exists>fs. xargs (xw_ev X (Suc g)) noifs first dcl om out (map (\<lambda>v. [lt 1 v]) vs) s = Some (s, fs) \<and> map fst fs = map fst out @ vs"
proof (induction vs arbitrary: first dcl om out)
  case (Cons v vs)
  have n: "\<not> w_simple [lt 1 v]" by (simp add: w_simple_def)
  have x: "xeach (xw_ev X (Suc g)) fl (br_expand [lt 1 v]) s = Some (s, [xoutq v])" if "has fl XPAT = False" for fl
    unfolding br_quoted xeach.simps word_lit [OF that] by simp
  have fl: "has (if c then XONE OR XASG else 0) XPAT = False" for c by (simp add: has_def)
  have r: "map fst out @ v # vs = map fst (out @ (if om then [xoutq v] else map (\<lambda>f. (fst f, None)) [xoutq v])) @ vs"
    by (simp add: xoutq_def)
  have no: "(b \<and> c \<and> w_simple [lt 1 v]) = False" for b c using n by simp
  show ?case
    unfolding r unfolding list.map(2) xargs.simps Let_def no if_False x [OF fl] bind.bind_lunit prod.case by (rule Cons.IH)
qed simp

text \<open>C4: Values written by \<open>xquote\<close> with a blank between them are parsed as one simple command with a word for each value
  and nothing else, no assignment, keyword, redirection, comment or substitution among them, and its words expand to
  exactly these values: what the shell quotes it reads back, whatever the values hold.\<close>

theorem quoted_line:
  "\<exists>c. hibr_parse (Suc f) s (xjoin '' '' (map (\<lambda>v. xquote v False) (v # vs))) = Some (s, NCmd c, False) \<and>
    c_aw c = [] \<and> c_rd c = [] \<and> c_arr c = [] \<and> \<not> c_bound c \<and>
    (\<exists>s' fs. xargv (xw_ev X (Suc g)) (c_w c) s = Some (s', fs) \<and> map fst fs = v # vs)"
proof -
  let ?t = "xquote v False @ qrest vs" and ?ln = "if e_ln s = 0 then 1 else e_ln s"
  obtain K1 P1 where e: "p_ev f = (K1, P1)" by fastforce
  obtain K P where k: "p_ev (Suc f) = (K, P\<lparr>pk_cmd := p_cmd K1 P1\<rparr>)"
    by (rule that [of _ "\<lparr>pk_list = p_list K1 P1, pk_cmd = p_cmd K1 P1, pk_if = p_if K1 P1\<rparr>"]) (simp add: e)
  have t: "xjoin '' '' (map (\<lambda>v. xquote v False) (v # vs)) = ?t" by (simp add: xjoin_def o_def)
  have "rdy (lx_init (e_it s) (e_ln s) ?t) ([] @ ?t)" by (simp add: rdy_def lx_init_def)
  then have "\<exists>l. lx_next K (lx_init (e_it s) (e_ln s) ?t) = Some l \<and> at1 ?ln v vs l"
    using next_word [of "lx_init (e_it s) (e_ln s) ?t" "[]" v "qrest vs" K]
    by (cases vs) (auto simp: at1_def lx_init_def blank_def)
  then obtain l where l: "lx_next K (lx_init (e_it s) (e_ln s) ?t) = Some l" "at1 ?ln v vs l" by blast
  have nl: "p_nl K l = Some l" unfolding p_nl_def by (rule tokens_done) (simp add: at1_tk(1) [OF l(2)])
  from list_quoted [OF l(2)] obtain l1 where
    l1: "p_list K (P\<lparr>pk_cmd := p_cmd K1 P1\<rparr>) l = Some (l1, NCmd (qcmd ?ln ?t (v # vs)))" "ate l1" by blast
  have "hibr_parse (Suc f) s ?t = Some (s, NCmd (qcmd ?ln ?t (v # vs)), False)"
    unfolding hibr_parse_def k Let_def prod.case l(1) bind.bind_lunit nl l1(1)
    using l1(2) by (simp add: at1_tk(1) [OF l(2)] ate_def rdy_def qcmd_def)
  moreover from xargs_quoted [of X g _ True False False "[]" "v # vs"] have
    "\<exists>s' fs. xargv (xw_ev X (Suc g)) (map (\<lambda>v. [lt 1 v]) (v # vs)) s = Some (s', fs) \<and> map fst fs = v # vs"
    unfolding xargv_def Let_def case_prod_unfold by fastforce
  ultimately show ?thesis unfolding t by (auto simp: qcmd_def simp del: xw_ev.simps)
qed

end
